(* ===== verification/Prelude.thy ===== *)
theory Prelude
  imports Main "HOL-Library.Word" "HOL-Library.Monad_Syntax" "HOL-Library.Multiset"
begin

text \<open>
  Shared vocabulary of the development.

  \<^item> Machine types: \<open>u8\<close>, \<open>u16\<close>, \<open>u32\<close>, \<open>u64\<close> for the fixed-width C integers.
  \<^item> A C object on the heap is named by an \<open>addr\<close>; a C pointer is an \<open>addr option\<close>
    whose \<open>None\<close> is \<open>NULL\<close>.
  \<^item> A C function that can hit an \<open>assert\<close>, dereference a pointer that is not allocated,
    or leave an array is a function into \<open>option\<close>: \<open>None\<close> is that abort, written with the
    \<open>do\<close> notation of \<^verbatim>\<open>HOL-Library.Monad_Syntax\<close>.
  \<^item> \<open>path\<close> says that the \<open>next\<close> pointers of a heap link a list of addresses: the queues,
    timer lists and chains of the code are such paths.
\<close>

type_synonym u8 = "8 word"
type_synonym u16 = "16 word"
type_synonym u32 = "32 word"
type_synonym u64 = "64 word"

type_synonym addr = nat
type_synonym ptr = "addr option"

named_theorems model_simps \<open>definitional equations of operations\<close>
named_theorems inv_simps \<open>definitions of representation invariants\<close>

subsection \<open>Checked array access\<close>

definition array_get :: "'a list \<Rightarrow> nat \<Rightarrow> 'a option" where
  "array_get xs i = (if i < length xs then Some (xs ! i) else None)"

definition array_set :: "'a list \<Rightarrow> nat \<Rightarrow> 'a \<Rightarrow> 'a list option" where
  "array_set xs i x = (if i < length xs then Some (xs[i := x]) else None)"

lemma array_get_Some [simp]: "i < length xs \<Longrightarrow> array_get xs i = Some (xs ! i)"
  by (simp add: array_get_def)

lemma array_get_None [simp]: "length xs \<le> i \<Longrightarrow> array_get xs i = None"
  by (simp add: array_get_def)

lemma array_set_Some [simp]: "i < length xs \<Longrightarrow> array_set xs i x = Some (xs[i := x])"
  by (simp add: array_set_def)

lemma array_set_None [simp]: "length xs \<le> i \<Longrightarrow> array_set xs i x = None"
  by (simp add: array_set_def)

lemma array_get_eq_Some [simp]: "array_get xs i = Some x \<longleftrightarrow> i < length xs \<and> xs ! i = x"
  by (simp add: array_get_def)

lemma array_set_eq_Some [simp]: "array_set xs i x = Some ys \<longleftrightarrow> i < length xs \<and> ys = xs[i := x]"
  by (auto simp: array_set_def)

definition assert_opt :: "bool \<Rightarrow> unit option" where
  "assert_opt b = (if b then Some () else None)"

lemma assert_opt_simps [simp]:
  "assert_opt True = Some ()" "assert_opt False = None"
  "assert_opt b = Some u \<longleftrightarrow> b"
  by (auto simp: assert_opt_def)

subsection \<open>Linked lists\<close>

text \<open>
  \<open>path nx p xs q\<close>: starting from pointer \<open>p\<close> and following the partial map \<open>nx\<close> (the
  \<open>next\<close> field of every allocated object) visits exactly \<open>xs\<close> and ends at \<open>q\<close>.
\<close>

fun path :: "(addr \<Rightarrow> ptr option) \<Rightarrow> ptr \<Rightarrow> addr list \<Rightarrow> ptr \<Rightarrow> bool" where
  "path nx p [] q \<longleftrightarrow> p = q"
| "path nx p (x # xs) q \<longleftrightarrow> p = Some x \<and> (\<exists>r. nx x = Some r \<and> path nx r xs q)"

lemma path_append: "path nx p (xs @ ys) q \<longleftrightarrow> (\<exists>r. path nx p xs r \<and> path nx r ys q)"
  by (induction xs arbitrary: p) auto

lemma path_cong: "(\<And>x. x \<in> set xs \<Longrightarrow> nx x = ny x) \<Longrightarrow> path nx p xs q \<longleftrightarrow> path ny p xs q"
  by (induction xs arbitrary: p) auto

lemma path_upd [simp]: "y \<notin> set xs \<Longrightarrow> path (nx(y := r)) p xs q \<longleftrightarrow> path nx p xs q"
  by (rule path_cong) auto

lemma path_None [simp]: "path nx None xs q \<longleftrightarrow> xs = [] \<and> q = None"
  by (cases xs) auto

lemma path_Some_Nil: "path nx (Some x) xs None \<Longrightarrow> \<exists>ys. xs = x # ys"
  by (cases xs) auto

lemma path_dom: "path nx p xs q \<Longrightarrow> x \<in> set xs \<Longrightarrow> nx x \<noteq> None"
  by (induction xs arbitrary: p) auto

lemma path_unique: "path nx p xs None \<Longrightarrow> path nx p ys None \<Longrightarrow> xs = ys"
proof (induction xs arbitrary: p ys)
  case Nil
  then show ?case by simp
next
  case (Cons x xs)
  then obtain r where r: "p = Some x" "nx x = Some r" "path nx r xs None" by auto
  with Cons.prems(2) obtain zs where zs: "ys = x # zs" "path nx r zs None"
    by (cases ys) auto
  from Cons.IH [OF r(3) zs(2)] zs(1) show ?case by simp
qed

lemma path_last: "path nx p (xs @ [x]) None \<Longrightarrow> nx x = Some None"
  by (auto simp: path_append)

lemma path_last_eq: "path nx p xs None \<Longrightarrow> xs \<noteq> [] \<Longrightarrow> nx (last xs) = Some None"
  by (metis append_butlast_last_id path_last)

text \<open>Appending one object: the old last object's \<open>next\<close> is redirected to it.\<close>

lemma path_snoc:
  assumes "path nx p xs None" "xs \<noteq> []" "x \<notin> set xs" "nx x = Some None" "distinct xs"
  shows "path (nx(last xs := Some (Some x))) p (xs @ [x]) None"
proof -
  from assms(2) obtain ys l where xs: "xs = ys @ [l]" by (metis append_butlast_last_id)
  with assms have "l \<notin> set ys" "l \<noteq> x" by auto
  with assms xs show ?thesis by (auto simp: path_append)
qed

lemma path_distinct: "path nx p xs None \<Longrightarrow> distinct xs"
proof (induction xs arbitrary: p)
  case (Cons x xs)
  then obtain r where r: "nx x = Some r" "path nx r xs None" by auto
  have "x \<notin> set xs"
  proof
    assume "x \<in> set xs"
    then obtain us vs where xs: "xs = us @ x # vs" by (auto dest: split_list)
    with r have "path nx (Some x) (x # vs) None" by (auto simp: path_append)
    moreover have "path nx (Some x) (x # xs) None" using r by auto
    ultimately have "x # vs = x # xs" by (rule path_unique)
    with xs show False by simp
  qed
  with Cons.IH r show ?case by auto
qed simp

subsection \<open>Lists and words\<close>

lemma nth_upd_if: "xs[i := x] ! j = (if i = j \<and> i < length xs then x else xs ! j)"
  by (cases "i < length xs") (auto simp: nth_list_update list_update_beyond)

lemma nth_rotate_mod:
  assumes "h < n" "i < n" "length xs = (n::nat)"
  shows "(drop h xs @ take h xs) ! i = xs ! ((h + i) mod n)"
proof (cases "h + i < n")
  case True
  with assms show ?thesis by (auto simp: nth_append)
next
  case False
  moreover from this assms have "(h + i) mod n = h + i - n" by (simp add: mod_if)
  ultimately show ?thesis using assms by (auto simp: nth_append add.commute)
qed

text \<open>The first \<open>n\<close> cells of a ring buffer of capacity \<open>c\<close>, from index \<open>h\<close>.\<close>

definition ring :: "'a list \<Rightarrow> nat \<Rightarrow> nat \<Rightarrow> nat \<Rightarrow> 'a list" where
  "ring xs c h n = map (\<lambda>i. xs ! ((h + i) mod c)) [0..<n]"

lemma length_ring [simp]: "length (ring xs c h n) = n"
  by (simp add: ring_def)

lemma ring_0 [simp]: "ring xs c h 0 = []"
  by (simp add: ring_def)

lemma ring_Suc: "ring xs c h (Suc n) = xs ! (h mod c) # ring xs c ((h + 1) mod c) n"
proof -
  have "ring xs c h (Suc n) = xs ! (h mod c) # map (\<lambda>i. xs ! ((h + Suc i) mod c)) [0..<n]"
    unfolding ring_def by (simp only: map_upt_Suc) simp
  moreover have "(h + Suc i) mod c = ((h + 1) mod c + i) mod c" for i
    by (simp add: mod_simps)
  ultimately show ?thesis by (simp add: ring_def)
qed

lemma ring_snoc: "ring xs c h (Suc n) = ring xs c h n @ [xs ! ((h + n) mod c)]"
  by (simp add: ring_def)

lemma mod_add_inj:
  assumes "(h + i) mod c = (h + j) mod (c::nat)" "i < c" "j < c"
  shows "i = j"
proof -
  have "(int h + int i) mod int c = (int h + int j) mod int c"
    using assms(1) by (metis of_nat_add of_nat_mod)
  then have "int c dvd (int i - int j)" by (simp add: mod_eq_dvd_iff)
  with assms(2,3) show ?thesis by (cases "i = j") (auto dest!: dvd_imp_le_int [rotated])
qed

lemma ring_upd:
  assumes "n < c" "length xs = c"
  shows "ring (xs[(h + n) mod c := y]) c h n = ring xs c h n"
proof -
  have "(h + i) mod c \<noteq> (h + n) mod c" if "i < n" for i
    using mod_add_inj [of h i c n] that assms by auto
  then show ?thesis by (auto simp: ring_def nth_list_update_neq [OF not_sym])
qed

lemma ring_full:
  assumes "h < c" "length xs = c"
  shows "ring xs c h c = drop h xs @ take h xs"
  by (rule nth_equalityI) (use assms in \<open>auto simp: ring_def nth_rotate_mod\<close>)

lemma ring_prefix: "length xs = n \<Longrightarrow> n \<le> c \<Longrightarrow> ring (xs @ ys) c 0 n = xs"
  by (rule nth_equalityI) (auto simp: ring_def nth_append)

lemma succ_mod: "h < c \<Longrightarrow> (if h + 1 \<ge> c then 0 else h + 1) = (h + 1) mod (c::nat)"
  by (auto simp: mod_if)

lemma those_map_Some: "(\<And>x. x \<in> set xs \<Longrightarrow> f x = Some (g x)) \<Longrightarrow> those (map f xs) = Some (map g xs)"
  by (induction xs) auto

lemma filter_mset_split:
  assumes "\<And>x. x \<in># A \<Longrightarrow> P x" "\<And>x. x \<in># B \<Longrightarrow> \<not> P x"
  shows "filter_mset P (A + B) = A" "filter_mset (\<lambda>x. \<not> P x) (A + B) = B"
proof -
  have z: "\<not> P x \<Longrightarrow> count A x = 0" "P x \<Longrightarrow> count B x = 0" for x
    using assms [of x] by (auto simp: count_eq_zero_iff)
  show "filter_mset P (A + B) = A" "filter_mset (\<lambda>x. \<not> P x) (A + B) = B"
    by (auto intro!: multiset_eqI simp: z)
qed

lemma unat_u32_less: "unat (x :: u32) < 2 ^ 32"
  by (rule order_less_le_trans [OF unsigned_less]) simp

lemma bind_Some_iff: "(Option.bind m f = Some y) \<longleftrightarrow> (\<exists>x. m = Some x \<and> f x = Some y)"
  by (cases m) auto

subsection \<open>Bits of machine words\<close>

unbundle bit_operations_syntax

lemma bit_drop_push: "bit (drop_bit n (push_bit n m) :: u32) k \<longleftrightarrow> bit m k \<and> n + k < 32"
  by (auto simp: bit_simps dest: bit_imp_le_length)

lemma and_u32_max [simp]: "(x::u32) AND 0xFFFFFFFF = x"
proof -
  have "(0xFFFFFFFF::u32) = - 1" by simp
  then show ?thesis by (simp only: and.right_neutral)
qed

lemma rotl_shifts:
  assumes "0 < n" "n < 32"
  shows "push_bit n x OR drop_bit (32 - n) x = (word_rotl n x :: u32)"
proof (rule bit_word_eqI)
  fix k assume k: "k < LENGTH(32)"
  show "bit (push_bit n x OR drop_bit (32 - n) x) k = bit (word_rotl n x) k"
  proof (cases "n \<le> k")
    case True
    then have "(k + (32 - n)) mod 32 = k - n" using k assms by (simp add: mod_if)
    then show ?thesis using True k assms by (auto simp: bit_simps dest: bit_imp_le_length)
  next
    case False
    then have "(k + (32 - n)) mod 32 = 32 - n + k" using k assms by simp
    then show ?thesis using False k assms by (auto simp: bit_simps)
  qed
qed

lemma rotr_shifts:
  assumes "0 < n" "n < 32"
  shows "push_bit (32 - n) x OR drop_bit n x = (word_rotr n x :: u32)"
  using rotl_shifts [of "32 - n" x] assms by (simp add: word_rotl_eq_word_rotr)

lemma word_high_bits: "\<not> bit x (8 + n)" "\<not> bit x (16 + n)" "\<not> bit x (24 + n)" for x :: u8 and n
  using bit_imp_le_length [of x] by fastforce+

end
