(* ===== verification/Fifo_Queue.thy ===== *)
theory Fifo_Queue
  imports Prelude
begin

text \<open>
  What a client of a queue may rely on: \<open>contents\<close> is the list of waiting elements, a push
  appends to it, a pop takes its first element or reports that there is none.
\<close>

locale fifo =
  fixes push :: "'a \<Rightarrow> 'q \<Rightarrow> 'q option"
    and pop :: "'q \<Rightarrow> ('a option \<times> 'q) option"
    and contents :: "'q \<Rightarrow> 'a list"
    and wf :: "'q \<Rightarrow> bool"
  assumes push_ok: "wf q \<Longrightarrow> \<exists>q'. push x q = Some q' \<and> wf q' \<and> contents q' = contents q @ [x]"
    and pop_cons: "wf q \<Longrightarrow> contents q \<noteq> [] \<Longrightarrow>
      \<exists>q'. pop q = Some (Some (hd (contents q)), q') \<and> wf q' \<and> contents q' = tl (contents q)"
    and pop_nil: "wf q \<Longrightarrow> contents q = [] \<Longrightarrow>
      \<exists>q'. pop q = Some (None, q') \<and> wf q' \<and> contents q' = []"
begin

fun push_all :: "'a list \<Rightarrow> 'q \<Rightarrow> 'q option" where
  "push_all [] q = Some q"
| "push_all (x # xs) q = Option.bind (push x q) (push_all xs)"

fun pop_n :: "nat \<Rightarrow> 'q \<Rightarrow> ('a list \<times> 'q) option" where
  "pop_n 0 q = Some ([], q)"
| "pop_n (Suc n) q = do {
     (r, q) \<leftarrow> pop q;
     (case r of None \<Rightarrow> Some ([], q)
      | Some x \<Rightarrow> do { (xs, q) \<leftarrow> pop_n n q; Some (x # xs, q) }) }"

lemma push_all_ok: "wf q \<Longrightarrow> \<exists>q'. push_all xs q = Some q' \<and> wf q' \<and> contents q' = contents q @ xs"
proof (induction xs arbitrary: q)
  case (Cons x xs)
  from push_ok [OF Cons.prems, of x] obtain q1
    where "push x q = Some q1" "wf q1" "contents q1 = contents q @ [x]" by blast
  with Cons.IH [of q1] show ?case by auto
qed auto

lemma pop_n_ok:
  "wf q \<Longrightarrow> \<exists>q'. pop_n n q = Some (take n (contents q), q') \<and> wf q' \<and> contents q' = drop n (contents q)"
proof (induction n arbitrary: q)
  case (Suc n)
  show ?case
  proof (cases "contents q")
    case Nil
    with pop_nil [OF Suc.prems] show ?thesis by auto
  next
    case (Cons x xs)
    with pop_cons [OF Suc.prems] obtain q1
      where "pop q = Some (Some x, q1)" "wf q1" "contents q1 = xs" by auto
    with Suc.IH [of q1] Cons show ?thesis by auto
  qed
qed auto

lemma push_all_pop_n:
  assumes "wf q" "contents q = []"
  shows "\<exists>q1 q2. push_all xs q = Some q1 \<and> pop_n (length xs) q1 = Some (xs, q2) \<and> contents q2 = []"
proof -
  from push_all_ok [OF assms(1), of xs] assms(2) obtain q1
    where q1: "push_all xs q = Some q1" "wf q1" "contents q1 = xs" by auto
  from pop_n_ok [OF q1(2), of "length xs"] q1 show ?thesis by auto
qed

end

end
