(* ===== verification/Skynet_MQ.thy ===== *)
theory Skynet_MQ
  imports Fifo_Queue
begin

text \<open>
  The message queues of the skynet scheduler
  (\<^verbatim>\<open>009_skynet_demo/skynet/skynet-src/skynet_mq.c\<close>): one ring buffer per service, and the
  global queue that links the ring buffers that have work.

  The first part models a ring buffer with its lock held (\<open>mq_pop_local\<close>, \<open>expand_queue\<close>,
  \<open>mq_push_local\<close>) and refines it to a FIFO list; the second part models the operations on
  the heap of queues and the intrusive list \<open>Q\<close>; the third part is the interleaving of
  these operations by several workers, each operation being atomic because it runs under
  the queue's spin lock.  \<open>None\<close> as the result of an operation is a failed \<open>assert\<close>, an
  access outside an array or to a queue that is not allocated.
\<close>

subsection \<open>Data\<close>

record skynet_message =
  msg_source :: u32
  msg_session :: int
  msg_data :: ptr
  msg_sz :: u64

record message_queue =
  mq_handle :: u32
  mq_cap :: nat
  mq_head :: nat
  mq_tail :: nat
  mq_release :: int
  mq_in_global :: int
  mq_overload :: int
  mq_overload_threshold :: int
  mq_queue :: "skynet_message option list" \<comment> \<open>\<open>None\<close>: a slot never written since malloc\<close>
  mq_next :: ptr

record mq_state =
  mq_heap :: "addr \<Rightarrow> message_queue option"
  Q_head :: ptr
  Q_tail :: ptr

definition DEFAULT_QUEUE_SIZE :: nat where "DEFAULT_QUEUE_SIZE = 64"
definition MQ_IN_GLOBAL :: int where "MQ_IN_GLOBAL = 1"
definition MQ_OVERLOAD :: int where "MQ_OVERLOAD = 1024"

lemmas mq_consts = DEFAULT_QUEUE_SIZE_def MQ_IN_GLOBAL_def MQ_OVERLOAD_def

subsection \<open>One queue, its lock held\<close>

definition mq_new :: "u32 \<Rightarrow> message_queue" where
  "mq_new handle = \<lparr>mq_handle = handle, mq_cap = DEFAULT_QUEUE_SIZE, mq_head = 0, mq_tail = 0,
     mq_release = 0, mq_in_global = MQ_IN_GLOBAL, mq_overload = 0,
     mq_overload_threshold = MQ_OVERLOAD,
     mq_queue = replicate DEFAULT_QUEUE_SIZE None, mq_next = None\<rparr>"

definition mq_length :: "message_queue \<Rightarrow> int" where
  "mq_length q = (if mq_head q \<le> mq_tail q then int (mq_tail q) - int (mq_head q)
     else int (mq_tail q) + int (mq_cap q) - int (mq_head q))"

definition mq_overload_local :: "message_queue \<Rightarrow> int \<times> message_queue" where
  "mq_overload_local q = (if mq_overload q \<noteq> 0
     then (mq_overload q, q\<lparr>mq_overload := 0\<rparr>) else (0, q))"

text \<open>The \<open>while (length > q->overload_threshold)\<close> loop of \<open>skynet_mq_pop\<close>.\<close>

partial_function (option) overload_loop :: "int \<Rightarrow> int \<Rightarrow> int \<Rightarrow> (int \<times> int) option" where
  "overload_loop len ov thr =
     (if len > thr then overload_loop len len (thr * 2) else Some (ov, thr))"

definition mq_pop_local :: "message_queue \<Rightarrow> (skynet_message option \<times> message_queue) option" where
  "mq_pop_local q = (if mq_head q \<noteq> mq_tail q then do {
       cell \<leftarrow> array_get (mq_queue q) (mq_head q);
       msg \<leftarrow> cell;
       let head = (if mq_head q + 1 \<ge> mq_cap q then 0 else mq_head q + 1);
       let len = int (mq_tail q) - int head;
       let len = (if len < 0 then len + int (mq_cap q) else len);
       (ov, thr) \<leftarrow> overload_loop len (mq_overload q) (mq_overload_threshold q);
       Some (Some msg, q\<lparr>mq_head := head, mq_overload := ov, mq_overload_threshold := thr\<rparr>)
     } else Some (None, q\<lparr>mq_overload_threshold := MQ_OVERLOAD, mq_in_global := 0\<rparr>))"

definition expand_queue :: "message_queue \<Rightarrow> message_queue option" where
  "expand_queue q = do {
     cells \<leftarrow> those (map (\<lambda>i. array_get (mq_queue q) ((mq_head q + i) mod mq_cap q)) [0..<mq_cap q]);
     Some (q\<lparr>mq_head := 0, mq_tail := mq_cap q, mq_cap := mq_cap q * 2,
             mq_queue := cells @ replicate (mq_cap q) None\<rparr>) }"

definition mq_push_local :: "skynet_message \<Rightarrow> message_queue \<Rightarrow> message_queue option" where
  "mq_push_local m q = do {
     cells \<leftarrow> array_set (mq_queue q) (mq_tail q) (Some m);
     let tail = (if mq_tail q + 1 \<ge> mq_cap q then 0 else mq_tail q + 1);
     let q = q\<lparr>mq_queue := cells, mq_tail := tail\<rparr>;
     (if mq_head q = mq_tail q then expand_queue q else Some q) }"

subsection \<open>The heap of queues and the global queue\<close>

text \<open>
  \<open>skynet_globalmq_push\<close> follows \<open>Q->tail\<close> and writes the \<open>next\<close> field of the queue it
  finds there; \<open>skynet_globalmq_pop\<close> unlinks \<open>Q->head\<close>.
\<close>

definition mq_upd :: "addr \<Rightarrow> message_queue \<Rightarrow> mq_state \<Rightarrow> mq_state" where
  "mq_upd p q s = s\<lparr>mq_heap := (mq_heap s)(p \<mapsto> q)\<rparr>"

definition skynet_mq_init :: "mq_state" where
  "skynet_mq_init = \<lparr>mq_heap = (\<lambda>_. None), Q_head = None, Q_tail = None\<rparr>"

definition skynet_globalmq_push :: "addr \<Rightarrow> mq_state \<Rightarrow> mq_state option" where
  "skynet_globalmq_push p s = do {
     q \<leftarrow> mq_heap s p;
     assert_opt (mq_next q = None);
     (case Q_tail s of
        Some t \<Rightarrow> do {
          tq \<leftarrow> mq_heap s t;
          Some ((mq_upd t (tq\<lparr>mq_next := Some p\<rparr>) s)\<lparr>Q_tail := Some p\<rparr>) }
      | None \<Rightarrow> Some (s\<lparr>Q_head := Some p, Q_tail := Some p\<rparr>)) }"

definition skynet_globalmq_pop :: "mq_state \<Rightarrow> (ptr \<times> mq_state) option" where
  "skynet_globalmq_pop s = (case Q_head s of
     None \<Rightarrow> Some (None, s)
   | Some p \<Rightarrow> do {
       q \<leftarrow> mq_heap s p;
       let s1 = s\<lparr>Q_head := mq_next q\<rparr>;
       s2 \<leftarrow> (if Q_head s1 = None
              then do { assert_opt (Q_tail s1 = Some p); Some (s1\<lparr>Q_tail := None\<rparr>) }
              else Some s1);
       Some (Some p, mq_upd p (q\<lparr>mq_next := None\<rparr>) s2) })"

text \<open>\<open>p\<close> is the address that \<open>skynet_malloc\<close> returned for the new queue.\<close>

definition skynet_mq_create :: "addr \<Rightarrow> u32 \<Rightarrow> mq_state \<Rightarrow> mq_state option" where
  "skynet_mq_create p handle s = do {
     assert_opt (mq_heap s p = None);
     Some (mq_upd p (mq_new handle) s) }"

definition mq_release_free :: "addr \<Rightarrow> mq_state \<Rightarrow> mq_state option" where
  "mq_release_free p s = do {
     q \<leftarrow> mq_heap s p;
     assert_opt (mq_next q = None);
     Some (s\<lparr>mq_heap := (mq_heap s)(p := None)\<rparr>) }"

definition skynet_mq_handle :: "addr \<Rightarrow> mq_state \<Rightarrow> u32 option" where
  "skynet_mq_handle p s = map_option mq_handle (mq_heap s p)"

definition skynet_mq_length :: "addr \<Rightarrow> mq_state \<Rightarrow> int option" where
  "skynet_mq_length p s = map_option mq_length (mq_heap s p)"

definition skynet_mq_overload :: "addr \<Rightarrow> mq_state \<Rightarrow> (int \<times> mq_state) option" where
  "skynet_mq_overload p s = do {
     q \<leftarrow> mq_heap s p;
     let (r, q) = mq_overload_local q;
     Some (r, mq_upd p q s) }"

definition skynet_mq_pop :: "addr \<Rightarrow> mq_state \<Rightarrow> (skynet_message option \<times> mq_state) option" where
  "skynet_mq_pop p s = do {
     q \<leftarrow> mq_heap s p;
     (r, q) \<leftarrow> mq_pop_local q;
     Some (r, mq_upd p q s) }"

definition skynet_mq_push :: "addr \<Rightarrow> skynet_message \<Rightarrow> mq_state \<Rightarrow> mq_state option" where
  "skynet_mq_push p m s = do {
     q \<leftarrow> mq_heap s p;
     q \<leftarrow> mq_push_local m q;
     (if mq_in_global q = 0
      then skynet_globalmq_push p (mq_upd p (q\<lparr>mq_in_global := MQ_IN_GLOBAL\<rparr>) s)
      else Some (mq_upd p q s)) }"

definition skynet_mq_mark_release :: "addr \<Rightarrow> mq_state \<Rightarrow> mq_state option" where
  "skynet_mq_mark_release p s = do {
     q \<leftarrow> mq_heap s p;
     assert_opt (mq_release q = 0);
     let s = mq_upd p (q\<lparr>mq_release := 1\<rparr>) s;
     (if mq_in_global q \<noteq> MQ_IN_GLOBAL then skynet_globalmq_push p s else Some s) }"

text \<open>
  \<open>drop_func\<close> is the caller's callback on a dropped message; it may act on the queues (it
  sends an error reply) and on the rest of the world \<open>'w\<close>.
\<close>

partial_function (option) drop_queue ::
  "(skynet_message \<Rightarrow> mq_state \<times> 'w \<Rightarrow> (mq_state \<times> 'w) option) \<Rightarrow> addr \<Rightarrow>
   mq_state \<times> 'w \<Rightarrow> (mq_state \<times> 'w) option" where
  "drop_queue drop_func p sw = do {
     (r, s) \<leftarrow> skynet_mq_pop p (fst sw);
     (case r of
        Some msg \<Rightarrow> do { sw \<leftarrow> drop_func msg (s, snd sw); drop_queue drop_func p sw }
      | None \<Rightarrow> do { s \<leftarrow> mq_release_free p s; Some (s, snd sw) }) }"

definition skynet_mq_release ::
  "addr \<Rightarrow> (skynet_message \<Rightarrow> mq_state \<times> 'w \<Rightarrow> (mq_state \<times> 'w) option) \<Rightarrow>
   mq_state \<times> 'w \<Rightarrow> (mq_state \<times> 'w) option" where
  "skynet_mq_release p drop_func sw = do {
     q \<leftarrow> mq_heap (fst sw) p;
     (if mq_release q \<noteq> 0 then drop_queue drop_func p sw
      else do { s \<leftarrow> skynet_globalmq_push p (fst sw); Some (s, snd sw) }) }"

subsection \<open>Invariant and abstraction to a list\<close>

definition mq_ring :: "message_queue \<Rightarrow> skynet_message option list" where
  "mq_ring q = ring (mq_queue q) (mq_cap q) (mq_head q) (nat (mq_length q))"

definition mq_list :: "message_queue \<Rightarrow> skynet_message list" where
  "mq_list q = map the (mq_ring q)"

definition mq_wf :: "message_queue \<Rightarrow> bool" where
  "mq_wf q \<longleftrightarrow> mq_head q < mq_cap q \<and> mq_tail q < mq_cap q \<and> length (mq_queue q) = mq_cap q \<and>
     None \<notin> set (mq_ring q) \<and>
     MQ_OVERLOAD \<le> mq_overload_threshold q \<and>
     mq_overload_threshold q \<le> max MQ_OVERLOAD (2 * int (mq_cap q)) \<and>
     0 \<le> mq_overload q \<and> mq_overload q < int (mq_cap q)"

lemma mq_length_bounds:
  "mq_head q < mq_cap q \<Longrightarrow> mq_tail q < mq_cap q \<Longrightarrow> 0 \<le> mq_length q \<and> mq_length q < int (mq_cap q)"
  by (auto simp: mq_length_def)

lemma mq_tail_index:
  assumes "mq_head q < mq_cap q" "mq_tail q < mq_cap q"
  shows "(mq_head q + nat (mq_length q)) mod mq_cap q = mq_tail q"
proof (cases "mq_head q \<le> mq_tail q")
  case True
  then have "mq_head q + nat (mq_length q) = mq_tail q" by (simp add: mq_length_def)
  with assms show ?thesis by simp
next
  case False
  then have "mq_head q + nat (mq_length q) = mq_tail q + mq_cap q"
    using assms by (simp add: mq_length_def)
  with assms show ?thesis by simp
qed

lemma mq_length_list: "length (mq_list q) = nat (mq_length q)"
  by (simp add: mq_list_def mq_ring_def)

lemma mq_list_empty_iff:
  assumes "mq_wf q"
  shows "mq_list q = [] \<longleftrightarrow> mq_head q = mq_tail q"
proof -
  have "mq_list q = [] \<longleftrightarrow> nat (mq_length q) = 0"
    by (metis length_0_conv mq_length_list)
  with assms show ?thesis by (auto simp: mq_wf_def mq_length_def)
qed

lemma mq_new_wf: "mq_wf (mq_new h)"
  and mq_new_list: "mq_list (mq_new h) = []"
  by (simp_all add: mq_wf_def mq_new_def mq_ring_def mq_list_def mq_length_def mq_consts)

lemma overload_loop_total:
  assumes "0 < thr"
  shows "\<exists>ov' thr'. overload_loop len ov thr = Some (ov', thr') \<and>
    (if len \<le> thr then ov' = ov \<and> thr' = thr
     else ov' = len \<and> thr < thr' \<and> len \<le> thr' \<and> thr' < 2 * len)"
  using assms
proof (induction "nat (len - thr)" arbitrary: thr ov rule: less_induct)
  case less
  show ?case
  proof (cases "len \<le> thr")
    case True
    then show ?thesis by (simp add: overload_loop.simps)
  next
    case False
    with less.prems have "nat (len - thr * 2) < nat (len - thr)" "0 < thr * 2" by auto
    from less.hyps [OF this, of len] False less.prems show ?thesis
      by (fastforce simp: overload_loop.simps [of len ov thr] split: if_splits)
  qed
qed

text \<open>The ring after a pop, and after writing the cell at the tail.\<close>

lemma mq_ring_tail:
  assumes "mq_wf q" "mq_head q \<noteq> mq_tail q"
  shows "mq_ring q = mq_queue q ! mq_head q #
    ring (mq_queue q) (mq_cap q) ((mq_head q + 1) mod mq_cap q) (nat (mq_length q - 1))"
proof -
  have "nat (mq_length q) = Suc (nat (mq_length q - 1))"
    using assms by (auto simp: mq_wf_def mq_length_def)
  then show ?thesis using assms by (simp add: mq_ring_def ring_Suc mq_wf_def)
qed

lemma mq_length_pop:
  assumes "mq_wf q" "mq_head q \<noteq> mq_tail q" "h = (if mq_head q + 1 \<ge> mq_cap q then 0 else mq_head q + 1)"
  shows "(let len = int (mq_tail q) - int h in if len < 0 then len + int (mq_cap q) else len) = mq_length q - 1"
  using assms by (auto simp: mq_wf_def mq_length_def)

lemma mq_pop_local_cons:
  assumes wf: "mq_wf q" and ne: "mq_list q \<noteq> []"
  shows "\<exists>q'. mq_pop_local q = Some (Some (hd (mq_list q)), q') \<and> mq_wf q' \<and>
    mq_list q' = tl (mq_list q) \<and> mq_in_global q' = mq_in_global q \<and>
    mq_release q' = mq_release q \<and> mq_next q' = mq_next q \<and> mq_handle q' = mq_handle q \<and>
    mq_cap q' = mq_cap q"
proof -
  from ne wf have ht: "mq_head q \<noteq> mq_tail q" by (simp add: mq_list_empty_iff)
  define h where "h = (if mq_head q + 1 \<ge> mq_cap q then 0 else mq_head q + 1)"
  have h: "h = (mq_head q + 1) mod mq_cap q" "h < mq_cap q"
    using wf by (auto simp: h_def mq_wf_def mod_if)
  have len: "(let len = int (mq_tail q) - int h in if len < 0 then len + int (mq_cap q) else len)
      = mq_length q - 1"
    by (rule mq_length_pop [OF wf ht h_def])
  obtain ov thr where lp: "overload_loop (mq_length q - 1) (mq_overload q) (mq_overload_threshold q) = Some (ov, thr)"
    and ov: "if mq_length q - 1 \<le> mq_overload_threshold q
       then ov = mq_overload q \<and> thr = mq_overload_threshold q
       else ov = mq_length q - 1 \<and> mq_overload_threshold q < thr \<and> thr < 2 * (mq_length q - 1)"
    using overload_loop_total [of "mq_overload_threshold q" "mq_length q - 1" "mq_overload q"] wf
    by (fastforce simp: mq_wf_def mq_consts split: if_splits)
  define q' where "q' = q\<lparr>mq_head := h, mq_overload := ov, mq_overload_threshold := thr\<rparr>"
  have lq': "mq_length q' = mq_length q - 1"
    using len h(2) wf by (auto simp: q'_def mq_length_def Let_def mq_wf_def split: if_splits)
  have ring: "mq_ring q = mq_queue q ! mq_head q # mq_ring q'"
    using mq_ring_tail [OF wf ht] lq' by (simp add: mq_ring_def q'_def h)
  obtain m where m: "mq_queue q ! mq_head q = Some m"
    using ring wf by (cases "mq_queue q ! mq_head q") (auto simp: mq_wf_def)
  have lst: "mq_list q = m # mq_list q'" by (simp add: mq_list_def ring m)
  have bnd: "mq_length q < int (mq_cap q)" "0 < mq_length q"
    using wf ht mq_length_bounds by (auto simp: mq_wf_def mq_length_def)
  have "mq_wf q'"
    using wf ring h(2) ov bnd by (auto simp: mq_wf_def q'_def split: if_splits)
  moreover have "mq_pop_local q = Some (Some m, q')"
    unfolding mq_pop_local_def Let_def h_def [symmetric] len [unfolded Let_def]
    using ht m lp wf by (simp add: q'_def mq_wf_def)
  ultimately show ?thesis using lst by (auto simp: q'_def)
qed

lemma mq_pop_local_nil:
  assumes "mq_wf q" "mq_list q = []"
  shows "mq_pop_local q = Some (None, q\<lparr>mq_overload_threshold := MQ_OVERLOAD, mq_in_global := 0\<rparr>)"
    and "mq_wf (q\<lparr>mq_overload_threshold := MQ_OVERLOAD, mq_in_global := 0\<rparr>)"
    and "mq_list (q\<lparr>mq_overload_threshold := MQ_OVERLOAD, mq_in_global := 0\<rparr>) = []"
  using assms mq_list_empty_iff [of q]
  by (auto simp: mq_pop_local_def mq_wf_def mq_ring_def mq_list_def mq_length_def)

lemma expand_queue_full:
  assumes "length (mq_queue q) = mq_cap q" "mq_head q < mq_cap q" "mq_tail q = mq_head q"
  shows "expand_queue q = Some (q\<lparr>mq_head := 0, mq_tail := mq_cap q, mq_cap := mq_cap q * 2,
    mq_queue := ring (mq_queue q) (mq_cap q) (mq_head q) (mq_cap q) @ replicate (mq_cap q) None\<rparr>)"
proof -
  have "those (map (\<lambda>i. array_get (mq_queue q) ((mq_head q + i) mod mq_cap q)) [0..<mq_cap q]) =
      Some (map (\<lambda>i. mq_queue q ! ((mq_head q + i) mod mq_cap q)) [0..<mq_cap q])"
    by (rule those_map_Some) (use assms in auto)
  then show ?thesis by (simp add: expand_queue_def ring_def)
qed

lemma mq_push_local_ok:
  assumes wf: "mq_wf q"
  shows "\<exists>q'. mq_push_local m q = Some q' \<and> mq_wf q' \<and> mq_list q' = mq_list q @ [m] \<and>
    mq_in_global q' = mq_in_global q \<and> mq_release q' = mq_release q \<and> mq_next q' = mq_next q \<and>
    mq_handle q' = mq_handle q \<and> mq_cap q \<le> mq_cap q' \<and> mq_cap q' \<le> 2 * mq_cap q"
proof -
  define n where "n = nat (mq_length q)"
  define t where "t = (if mq_tail q + 1 \<ge> mq_cap q then 0 else mq_tail q + 1)"
  define q1 where "q1 = q\<lparr>mq_queue := (mq_queue q)[mq_tail q := Some m], mq_tail := t\<rparr>"
  note w = wf [unfolded mq_wf_def]
  have t: "t < mq_cap q" using w by (auto simp: t_def)
  have tl: "mq_tail q = (mq_head q + n) mod mq_cap q" and n: "n < mq_cap q"
    unfolding n_def using w mq_tail_index [of q] mq_length_bounds [of q] by auto
  have ring: "ring (mq_queue q1) (mq_cap q) (mq_head q) (Suc n) = mq_ring q @ [Some m]"
    using w n by (simp add: ring_snoc q1_def mq_ring_def n_def [symmetric] tl ring_upd)
  have push: "mq_push_local m q = (if mq_head q = t then expand_queue q1 else Some q1)"
    using w by (simp add: mq_push_local_def q1_def t_def Let_def)
  show ?thesis
  proof (cases "mq_head q = t")
    case False
    then have "nat (mq_length q1) = Suc n"
      using w by (auto simp: q1_def n_def t_def mq_length_def split: if_splits)
    then have "mq_ring q1 = mq_ring q @ [Some m]" using ring by (simp add: mq_ring_def q1_def)
    moreover from this have "mq_wf q1" using w t by (auto simp: mq_wf_def q1_def)
    ultimately show ?thesis using False push by (auto simp: mq_list_def q1_def)
  next
    case True
    then have sn: "Suc n = mq_cap q" using w by (auto simp: n_def t_def mq_length_def split: if_splits)
    define q2 where "q2 = q1\<lparr>mq_head := 0, mq_tail := mq_cap q, mq_cap := mq_cap q * 2,
      mq_queue := ring (mq_queue q1) (mq_cap q) (mq_head q) (mq_cap q) @ replicate (mq_cap q) None\<rparr>"
    have e: "expand_queue q1 = Some q2"
      using expand_queue_full [of q1] w True by (simp add: q1_def q2_def)
    have "nat (mq_length q2) = Suc n" using sn by (simp add: q2_def mq_length_def)
    then have "mq_ring q2 = ring (mq_queue q1) (mq_cap q) (mq_head q) (Suc n)"
      unfolding mq_ring_def [of q2] using sn by (simp add: q2_def ring_prefix)
    then have r2: "mq_ring q2 = mq_ring q @ [Some m]" using ring by simp
    moreover from this have "mq_wf q2" using w by (auto simp: mq_wf_def q2_def q1_def)
    ultimately show ?thesis using True push e by (auto simp: mq_list_def q2_def q1_def)
  qed
qed

subsection \<open>The FIFO interface\<close>

interpretation mq: fifo mq_push_local mq_pop_local mq_list mq_wf
proof (unfold_locales, goal_cases)
  case (1 q x) then show ?case using mq_push_local_ok [of q x] by blast
next
  case (2 q) then show ?case using mq_pop_local_cons [of q] by blast
next
  case (3 q) then show ?case using mq_pop_local_nil [of q] by blast
qed

subsection \<open>The global queue as a list of addresses\<close>

definition gnext :: "mq_state \<Rightarrow> addr \<Rightarrow> ptr option" where
  "gnext s p = map_option mq_next (mq_heap s p)"

definition gq :: "mq_state \<Rightarrow> addr list \<Rightarrow> bool" where
  "gq s xs \<longleftrightarrow> path (gnext s) (Q_head s) xs None \<and>
     Q_tail s = (if xs = [] then None else Some (last xs))"

lemma gq_unique: "gq s xs \<Longrightarrow> gq s ys \<Longrightarrow> xs = ys"
  by (auto simp: gq_def dest: path_unique)

lemma mq_frame [simp]:
  "mq_wf (q\<lparr>mq_next := n\<rparr>) = mq_wf q" "mq_list (q\<lparr>mq_next := n\<rparr>) = mq_list q"
  "mq_wf (q\<lparr>mq_in_global := g\<rparr>) = mq_wf q" "mq_list (q\<lparr>mq_in_global := g\<rparr>) = mq_list q"
  "mq_wf (q\<lparr>mq_release := r\<rparr>) = mq_wf q" "mq_list (q\<lparr>mq_release := r\<rparr>) = mq_list q"
  by (simp_all add: mq_wf_def mq_list_def mq_ring_def mq_length_def)

lemma mq_upd_simps [simp]:
  "mq_heap (mq_upd p q s) = (mq_heap s)(p \<mapsto> q)"
  "Q_head (mq_upd p q s) = Q_head s" "Q_tail (mq_upd p q s) = Q_tail s"
  by (simp_all add: mq_upd_def)

lemma gnext_upd [simp]: "gnext (mq_upd p q s) = (gnext s)(p := Some (mq_next q))"
  by (auto simp: gnext_def fun_eq_iff)

lemma gnext_Q [simp]: "gnext (s\<lparr>Q_head := h\<rparr>) = gnext s" "gnext (s\<lparr>Q_tail := t\<rparr>) = gnext s"
  by (auto simp: gnext_def fun_eq_iff)

lemma gq_upd_same_next:
  assumes "gq s xs" "mq_heap s p = Some q" "mq_next q' = mq_next q"
  shows "gq (mq_upd p q' s) xs"
proof -
  have "gnext (mq_upd p q' s) = gnext s" using assms(2,3) by (auto simp: gnext_def fun_eq_iff)
  then show ?thesis using assms(1) by (simp add: gq_def del: gnext_upd)
qed

lemma skynet_globalmq_push_ok:
  assumes gq: "gq s xs" and p: "mq_heap s p = Some q" "mq_next q = None" "p \<notin> set xs"
  shows "\<exists>s'. skynet_globalmq_push p s = Some s' \<and> gq s' (xs @ [p]) \<and>
    (\<forall>x. x \<notin> set xs \<longrightarrow> mq_heap s' x = mq_heap s x) \<and>
    (\<forall>x \<in> set xs. \<exists>y n. mq_heap s x = Some y \<and> mq_heap s' x = Some (y\<lparr>mq_next := n\<rparr>))"
proof (cases "xs = []")
  case True
  with assms show ?thesis
    by (auto simp: skynet_globalmq_push_def gq_def gnext_def)
next
  case False
  then obtain tq where tq: "mq_heap s (last xs) = Some tq"
    using gq path_last_eq [of "gnext s" "Q_head s" xs] by (auto simp: gq_def gnext_def)
  let ?s = "(mq_upd (last xs) (tq\<lparr>mq_next := Some p\<rparr>) s)\<lparr>Q_tail := Some p\<rparr>"
  have "skynet_globalmq_push p s = Some ?s"
    using False tq p gq by (simp add: skynet_globalmq_push_def gq_def)
  moreover have "gq ?s (xs @ [p])"
    using gq False p path_snoc [of "gnext s" "Q_head s" xs p] path_distinct
    by (auto simp: gq_def gnext_def [of s p])
  moreover have "\<exists>y n. mq_heap s x = Some y \<and> mq_heap ?s x = Some (y\<lparr>mq_next := n\<rparr>)" if x: "x \<in> set xs" for x
  proof (cases "x = last xs")
    case True
    with tq show ?thesis by auto
  next
    case neq: False
    from x gq obtain y where "mq_heap s x = Some y"
      using path_dom [of "gnext s" "Q_head s" xs None x] by (auto simp: gq_def gnext_def)
    with neq show ?thesis by (auto intro!: exI [of _ "mq_next y"])
  qed
  ultimately show ?thesis using False by auto
qed

lemma skynet_globalmq_pop_cons:
  assumes "gq s (p # xs)"
  shows "\<exists>q. mq_heap s p = Some q \<and> (let s' = (mq_upd p (q\<lparr>mq_next := None\<rparr>) s)
      \<lparr>Q_head := mq_next q, Q_tail := (if xs = [] then None else Q_tail s)\<rparr>
     in skynet_globalmq_pop s = Some (Some p, s') \<and> gq s' xs)"
proof -
  from assms obtain q where q: "mq_heap s p = Some q" "path (gnext s) (mq_next q) xs None"
    and Q: "Q_head s = Some p" "Q_tail s = Some (last (p # xs))"
    by (auto simp: gq_def gnext_def)
  have pn: "p \<notin> set xs" using assms path_distinct [of "gnext s" "Q_head s" "p # xs"]
    by (simp add: gq_def)
  have nx: "mq_next q = None \<longleftrightarrow> xs = []" using q(2) by (cases xs) auto
  have "skynet_globalmq_pop s = Some (Some p, (mq_upd p (q\<lparr>mq_next := None\<rparr>) s)
      \<lparr>Q_head := mq_next q, Q_tail := (if xs = [] then None else Q_tail s)\<rparr>)"
    using q(1) Q nx
    by (cases "xs = []") (auto simp: skynet_globalmq_pop_def mq_upd_def)
  moreover have "gq ((mq_upd p (q\<lparr>mq_next := None\<rparr>) s)
      \<lparr>Q_head := mq_next q, Q_tail := (if xs = [] then None else Q_tail s)\<rparr>) xs"
    using q(2) Q pn by (simp add: gq_def)
  ultimately show ?thesis using q(1) by (auto simp: Let_def)
qed

lemma skynet_globalmq_pop_nil: "gq s [] \<Longrightarrow> skynet_globalmq_pop s = Some (None, s)"
  by (simp add: gq_def skynet_globalmq_pop_def)

subsection \<open>Interleaving: who owns which queue\<close>

text \<open>
  A queue is held by at most one thread: by its creator until \<open>skynet_context_new\<close> pushes it
  to the global queue, then by the worker that took it from the global queue.  A step is
  one locked operation; the second component is the set of held queues.  \<open>push_msg\<close> is
  \<open>skynet_context_push\<close>, which holds a reference to the service, so the queue is not yet
  marked for release (\<open>delete_context\<close> marks it when the last reference is gone);
  \<open>requeue\<close> is the end of \<open>skynet_context_message_dispatch\<close>, of \<open>skynet_context_new\<close>, and
  the second branch of \<open>skynet_mq_release\<close>; \<open>pop_idle\<close> is a worker finding its queue empty;
  \<open>free_queue\<close> is the last iteration of \<open>drop_queue\<close>.
\<close>

inductive mq_step :: "mq_state \<times> addr set \<Rightarrow> mq_state \<times> addr set \<Rightarrow> bool" where
  create: "skynet_mq_create p h s = Some s' \<Longrightarrow> mq_step (s, H) (s', insert p H)"
| requeue: "p \<in> H \<Longrightarrow> skynet_globalmq_push p s = Some s' \<Longrightarrow> mq_step (s, H) (s', H - {p})"
| push_msg: "mq_heap s p = Some q \<Longrightarrow> mq_release q = 0 \<Longrightarrow> skynet_mq_push p m s = Some s' \<Longrightarrow>
    mq_step (s, H) (s', H)"
| take: "skynet_globalmq_pop s = Some (Some p, s') \<Longrightarrow> mq_step (s, H) (s', insert p H)"
| pop_msg: "p \<in> H \<Longrightarrow> skynet_mq_pop p s = Some (Some m, s') \<Longrightarrow> mq_step (s, H) (s', H)"
| pop_idle: "p \<in> H \<Longrightarrow> mq_heap s p = Some q \<Longrightarrow> mq_release q = 0 \<Longrightarrow>
    skynet_mq_pop p s = Some (None, s') \<Longrightarrow> mq_step (s, H) (s', H - {p})"
| overload: "p \<in> H \<Longrightarrow> skynet_mq_overload p s = Some (r, s') \<Longrightarrow> mq_step (s, H) (s', H)"
| mark: "skynet_mq_mark_release p s = Some s' \<Longrightarrow> mq_step (s, H) (s', H)"
| free_queue: "p \<in> H \<Longrightarrow> mq_heap s p = Some q \<Longrightarrow> mq_release q \<noteq> 0 \<Longrightarrow>
    skynet_mq_pop p s = Some (None, s1) \<Longrightarrow> mq_release_free p s1 = Some s2 \<Longrightarrow>
    mq_step (s, H) (s2, H - {p})"

inductive mq_reachable :: "mq_state \<times> addr set \<Rightarrow> bool" where
  init: "mq_reachable (skynet_mq_init, {})"
| step: "mq_reachable c \<Longrightarrow> mq_step c c' \<Longrightarrow> mq_reachable c'"

definition queue_ok :: "bool \<Rightarrow> bool \<Rightarrow> message_queue \<Rightarrow> bool" where
  "queue_ok inq held q \<longleftrightarrow> mq_wf q \<and> (\<not> inq \<longrightarrow> mq_next q = None) \<and> \<not> (inq \<and> held) \<and>
     mq_in_global q \<in> {0, MQ_IN_GLOBAL} \<and>
     (mq_release q = 0 \<longrightarrow> (mq_in_global q = MQ_IN_GLOBAL \<longleftrightarrow> inq \<or> held)) \<and>
     (mq_release q \<noteq> 0 \<longrightarrow> inq \<or> held) \<and>
     (mq_in_global q = 0 \<longrightarrow> mq_list q = [])"

definition sched_inv :: "addr list \<Rightarrow> mq_state \<times> addr set \<Rightarrow> bool" where
  "sched_inv xs c \<longleftrightarrow> (case c of (s, H) \<Rightarrow> gq s xs \<and> H \<subseteq> dom (mq_heap s) \<and>
     (\<forall>p q. mq_heap s p = Some q \<longrightarrow> queue_ok (p \<in> set xs) (p \<in> H) q))"

lemma sched_invD:
  assumes "sched_inv xs (s, H)"
  shows "gq s xs" "H \<subseteq> dom (mq_heap s)"
    and "\<And>p q. mq_heap s p = Some q \<Longrightarrow> queue_ok (p \<in> set xs) (p \<in> H) q"
  using assms by (auto simp: sched_inv_def)

lemma gq_in_dom: "gq s xs \<Longrightarrow> p \<in> set xs \<Longrightarrow> \<exists>q. mq_heap s p = Some q"
  using path_dom [of "gnext s" "Q_head s" xs None p] by (auto simp: gq_def gnext_def)

text \<open>Replacing one queue's record keeps the invariant when its links stay as they are.\<close>

lemma sched_inv_upd:
  assumes inv: "sched_inv xs (s, H)" and p: "mq_heap s p = Some q" "mq_next q' = mq_next q"
    and ok: "queue_ok (p \<in> set xs) (p \<in> H') q'" and H': "\<And>x. x \<noteq> p \<Longrightarrow> x \<in> H' \<longleftrightarrow> x \<in> H"
  shows "sched_inv xs (mq_upd p q' s, H')"
proof -
  have "gq (mq_upd p q' s) xs" by (rule gq_upd_same_next [OF sched_invD(1) [OF inv] p])
  moreover have "x \<in> dom (mq_heap (mq_upd p q' s))" if "x \<in> H'" for x
    using that H' [of x] sched_invD(2) [OF inv] by (cases "x = p") auto
  moreover have "queue_ok (x \<in> set xs) (x \<in> H') y" if "mq_heap (mq_upd p q' s) x = Some y" for x y
    using that ok H' [of x] sched_invD(3) [OF inv, of x] by (cases "x = p") auto
  ultimately show ?thesis by (auto simp: sched_inv_def)
qed

text \<open>Linking one queue at the end of the global queue; it stops being held.\<close>

lemma sched_inv_global_push:
  assumes inv: "sched_inv xs (s, H)" and p: "mq_heap s p = Some q" "mq_next q = None" "p \<notin> set xs"
    and ok: "queue_ok True False q"
  shows "\<exists>s'. skynet_globalmq_push p s = Some s' \<and> sched_inv (xs @ [p]) (s', H - {p})"
proof -
  obtain s' where s': "skynet_globalmq_push p s = Some s'" "gq s' (xs @ [p])"
    and out: "\<And>x. x \<notin> set xs \<Longrightarrow> mq_heap s' x = mq_heap s x"
    and inn: "\<And>x. x \<in> set xs \<Longrightarrow> \<exists>y n. mq_heap s x = Some y \<and> mq_heap s' x = Some (y\<lparr>mq_next := n\<rparr>)"
    using skynet_globalmq_push_ok [OF sched_invD(1) [OF inv] p] by blast
  have "x \<in> dom (mq_heap s')" if "x \<in> H" for x
    using that sched_invD(2) [OF inv] out [of x] inn [of x] by (cases "x \<in> set xs") auto
  moreover have "queue_ok (x \<in> set (xs @ [p])) (x \<in> H - {p}) y" if y: "mq_heap s' x = Some y" for x y
  proof (cases "x \<in> set xs")
    case True
    with inn obtain z n where "mq_heap s x = Some z" "y = z\<lparr>mq_next := n\<rparr>" using y by fastforce
    with True sched_invD(3) [OF inv, of x z] p show ?thesis by (auto simp: queue_ok_def)
  next
    case False
    with out y have "mq_heap s x = Some y" by simp
    with False sched_invD(3) [OF inv, of x y] p ok show ?thesis by (cases "x = p") auto
  qed
  ultimately show ?thesis using s' by (auto simp: sched_inv_def)
qed

lemma sched_inv_init: "sched_inv [] (skynet_mq_init, {})"
  by (simp add: sched_inv_def skynet_mq_init_def gq_def)

lemma sched_inv_create:
  assumes inv: "sched_inv xs (s, H)" and s': "skynet_mq_create p h s = Some s'"
  shows "sched_inv xs (s', insert p H)"
proof -
  from s' have p: "mq_heap s p = None" and s'_eq: "s' = mq_upd p (mq_new h) s"
    by (auto simp: skynet_mq_create_def bind_Some_iff)
  have pn: "p \<notin> set xs" using gq_in_dom [OF sched_invD(1) [OF inv]] p by fastforce
  have "gq s' xs" using sched_invD(1) [OF inv] pn by (simp add: gq_def s'_eq)
  moreover have "queue_ok (x \<in> set xs) (x \<in> insert p H) y" if "mq_heap s' x = Some y" for x y
    using that pn sched_invD(3) [OF inv, of x] mq_new_wf [of h] mq_new_list [of h]
    by (cases "x = p") (auto simp: s'_eq queue_ok_def mq_new_def)
  ultimately show ?thesis using sched_invD(2) [OF inv] by (auto simp: sched_inv_def s'_eq)
qed

lemma sched_inv_held:
  assumes "sched_inv xs (s, H)" "p \<in> H"
  obtains q where "mq_heap s p = Some q" "queue_ok False True q" "p \<notin> set xs"
proof -
  from assms(2) sched_invD(2) [OF assms(1)] obtain q where q: "mq_heap s p = Some q" by auto
  with assms(2) sched_invD(3) [OF assms(1) q] have "p \<notin> set xs" "queue_ok False True q"
    by (auto simp: queue_ok_def)
  with q show thesis using that by blast
qed

lemma sched_inv_requeue:
  assumes "sched_inv xs (s, H)" "p \<in> H"
  shows "\<exists>s'. skynet_globalmq_push p s = Some s' \<and> sched_inv (xs @ [p]) (s', H - {p})"
proof -
  obtain q where "mq_heap s p = Some q" "queue_ok False True q" "p \<notin> set xs"
    using assms by (rule sched_inv_held)
  moreover from this have "mq_next q = None" "queue_ok True False q" by (auto simp: queue_ok_def)
  ultimately show ?thesis using sched_inv_global_push [OF assms(1)] by blast
qed

lemma sched_inv_push_msg:
  assumes inv: "sched_inv xs (s, H)" and p: "mq_heap s p = Some q" "mq_release q = 0"
  shows "\<exists>s' xs'. skynet_mq_push p m s = Some s' \<and> sched_inv xs' (s', H)"
proof -
  have ok: "queue_ok (p \<in> set xs) (p \<in> H) q" by (rule sched_invD(3) [OF inv p(1)])
  then obtain q1 where q1: "mq_push_local m q = Some q1" "mq_wf q1" "mq_next q1 = mq_next q"
    "mq_in_global q1 = mq_in_global q" "mq_release q1 = mq_release q"
    using mq_push_local_ok [of q m] by (auto simp: queue_ok_def)
  show ?thesis
  proof (cases "mq_in_global q = 0")
    case False
    with ok q1 p have "queue_ok (p \<in> set xs) (p \<in> H) q1" by (auto simp: queue_ok_def)
    with sched_inv_upd [OF inv p(1) q1(3)] have "sched_inv xs (mq_upd p q1 s, H)" by blast
    moreover have "skynet_mq_push p m s = Some (mq_upd p q1 s)"
      using False p q1 by (simp add: skynet_mq_push_def)
    ultimately show ?thesis by blast
  next
    case True
    with ok p have out: "p \<notin> set xs" "p \<notin> H" by (auto simp: queue_ok_def mq_consts)
    let ?q = "q1\<lparr>mq_in_global := MQ_IN_GLOBAL\<rparr>"
    let ?s = "mq_upd p ?q s"
    have "queue_ok (p \<in> set xs) (p \<in> insert p H) ?q"
      using ok q1 p True out by (auto simp: queue_ok_def mq_consts)
    then have inv2: "sched_inv xs (?s, insert p H)"
      using sched_inv_upd [OF inv p(1), of ?q "insert p H"] q1 by auto
    moreover have "queue_ok True False ?q" "mq_next ?q = None" 
      using ok q1 p True out by (auto simp: queue_ok_def mq_consts)
    ultimately obtain s' where "skynet_globalmq_push p ?s = Some s'"
      "sched_inv (xs @ [p]) (s', insert p H - {p})"
      using sched_inv_global_push [OF inv2, of p ?q] out by auto
    moreover from this have "skynet_mq_push p m s = Some s'"
      using True p q1 by (simp add: skynet_mq_push_def)
    ultimately show ?thesis using out by auto
  qed
qed

lemma sched_inv_take:
  assumes inv: "sched_inv (p # xs) (s, H)"
  shows "\<exists>s'. skynet_globalmq_pop s = Some (Some p, s') \<and> sched_inv xs (s', insert p H)"
proof -
  obtain q s' where q: "mq_heap s p = Some q" and
    s': "s' = (mq_upd p (q\<lparr>mq_next := None\<rparr>) s)
      \<lparr>Q_head := mq_next q, Q_tail := (if xs = [] then None else Q_tail s)\<rparr>"
    and pop: "skynet_globalmq_pop s = Some (Some p, s')" "gq s' xs"
    using skynet_globalmq_pop_cons [OF sched_invD(1) [OF inv]] by (auto simp: Let_def)
  have d: "p \<notin> set xs"
    using sched_invD(1) [OF inv] path_distinct [of "gnext s" "Q_head s" "p # xs"] by (simp add: gq_def)
  have "queue_ok (x \<in> set xs) (x \<in> insert p H) y" if "mq_heap s' x = Some y" for x y
    using that q d sched_invD(3) [OF inv, of x]
    by (cases "x = p") (auto simp: s' queue_ok_def)
  then show ?thesis using pop sched_invD(2) [OF inv] by (auto simp: sched_inv_def s')
qed

lemma sched_inv_pop:
  assumes inv: "sched_inv xs (s, H)" and p: "p \<in> H" "mq_heap s p = Some q"
  shows "if mq_list q = []
    then skynet_mq_pop p s = Some (None, mq_upd p (q\<lparr>mq_overload_threshold := MQ_OVERLOAD, mq_in_global := 0\<rparr>) s) \<and>
      (mq_release q = 0 \<longrightarrow> sched_inv xs
         (mq_upd p (q\<lparr>mq_overload_threshold := MQ_OVERLOAD, mq_in_global := 0\<rparr>) s, H - {p}))
    else \<exists>s'. skynet_mq_pop p s = Some (Some (hd (mq_list q)), s') \<and> sched_inv xs (s', H)"
proof -
  have ok: "queue_ok (p \<in> set xs) (p \<in> H) q" by (rule sched_invD(3) [OF inv p(2)])
  then have wf: "mq_wf q" by (simp add: queue_ok_def)
  show ?thesis
  proof (cases "mq_list q = []")
    case True
    note nil = mq_pop_local_nil [OF wf True]
    let ?q = "q\<lparr>mq_overload_threshold := MQ_OVERLOAD, mq_in_global := 0\<rparr>"
    have "sched_inv xs (mq_upd p ?q s, H - {p})" if "mq_release q = 0"
    proof (rule sched_inv_upd [OF inv p(2)])
      show "queue_ok (p \<in> set xs) (p \<in> H - {p}) ?q"
        using ok nil p that by (auto simp: queue_ok_def mq_consts)
    qed auto
    with True nil p show ?thesis by (simp add: skynet_mq_pop_def)
  next
    case False
    obtain q1 where q1: "mq_pop_local q = Some (Some (hd (mq_list q)), q1)" "mq_wf q1"
      "mq_list q1 = tl (mq_list q)" "mq_in_global q1 = mq_in_global q"
      "mq_release q1 = mq_release q" "mq_next q1 = mq_next q"
      using mq_pop_local_cons [OF wf False] by blast
    have "queue_ok (p \<in> set xs) (p \<in> H) q1" using ok q1 False by (auto simp: queue_ok_def)
    with sched_inv_upd [OF inv p(2) q1(6)] have "sched_inv xs (mq_upd p q1 s, H)" by blast
    with False q1 p show ?thesis by (simp add: skynet_mq_pop_def)
  qed
qed

lemma sched_inv_overload:
  assumes inv: "sched_inv xs (s, H)" and p: "p \<in> H"
  shows "\<exists>r s'. skynet_mq_overload p s = Some (r, s') \<and> sched_inv xs (s', H)"
proof -
  obtain q where q: "mq_heap s p = Some q" using assms by (rule sched_inv_held)
  have eq: "mq_list (q\<lparr>mq_overload := 0\<rparr>) = mq_list q" "mq_wf q \<Longrightarrow> mq_wf (q\<lparr>mq_overload := 0\<rparr>)"
    by (auto simp: mq_list_def mq_ring_def mq_length_def mq_wf_def)
  have "queue_ok (p \<in> set xs) (p \<in> H) (snd (mq_overload_local q))"
    using sched_invD(3) [OF inv q] eq by (auto simp: mq_overload_local_def queue_ok_def)
  then have "sched_inv xs (mq_upd p (snd (mq_overload_local q)) s, H)"
    by (intro sched_inv_upd [OF inv q]) (auto simp: mq_overload_local_def)
  with q show ?thesis by (auto simp: skynet_mq_overload_def split: prod.splits)
qed

lemma sched_inv_mark:
  assumes inv: "sched_inv xs (s, H)" and p: "mq_heap s p = Some q" "mq_release q = 0"
  shows "\<exists>s' xs'. skynet_mq_mark_release p s = Some s' \<and> sched_inv xs' (s', H)"
proof -
  have ok: "queue_ok (p \<in> set xs) (p \<in> H) q" by (rule sched_invD(3) [OF inv p(1)])
  let ?q = "q\<lparr>mq_release := 1\<rparr>"
  let ?s = "mq_upd p ?q s"
  show ?thesis
  proof (cases "mq_in_global q = MQ_IN_GLOBAL")
    case True
    have "queue_ok (p \<in> set xs) (p \<in> H) ?q" using ok p True by (auto simp: queue_ok_def mq_consts)
    then have "sched_inv xs (?s, H)" by (intro sched_inv_upd [OF inv p(1)]) auto
    with True p show ?thesis by (auto simp: skynet_mq_mark_release_def)
  next
    case False
    with ok p have out: "p \<notin> set xs" "p \<notin> H" by (auto simp: queue_ok_def)
    have "queue_ok (p \<in> set xs) (p \<in> insert p H) ?q"
      using ok p False out by (auto simp: queue_ok_def mq_consts)
    then have inv2: "sched_inv xs (?s, insert p H)" by (intro sched_inv_upd [OF inv p(1)]) auto
    moreover have "queue_ok True False ?q" "mq_next ?q = None"
      using ok p False out by (auto simp: queue_ok_def)
    ultimately obtain s' where "skynet_globalmq_push p ?s = Some s'"
      "sched_inv (xs @ [p]) (s', insert p H - {p})"
      using sched_inv_global_push [OF inv2, of p ?q] out by auto
    with False p out show ?thesis by (auto simp: skynet_mq_mark_release_def)
  qed
qed

lemma sched_inv_free:
  assumes inv: "sched_inv xs (s, H)" and p: "p \<in> H" "mq_heap s p = Some q"
  shows "\<exists>s'. mq_release_free p (mq_upd p (q\<lparr>mq_overload_threshold := t, mq_in_global := g\<rparr>) s) = Some s' \<and>
    sched_inv xs (s', H - {p}) \<and> mq_heap s' p = None"
proof -
  have nx: "mq_next q = None" and out: "p \<notin> set xs"
    using sched_invD(3) [OF inv p(2)] p(1) by (auto simp: queue_ok_def)
  let ?s = "(mq_upd p (q\<lparr>mq_overload_threshold := t, mq_in_global := g\<rparr>) s)"
  let ?s' = "?s\<lparr>mq_heap := (mq_heap ?s)(p := None)\<rparr>"
  have "gnext ?s' = (gnext s)(p := None)" by (auto simp: gnext_def fun_eq_iff)
  then have "gq ?s' xs" using sched_invD(1) [OF inv] out by (simp add: gq_def)
  moreover have "queue_ok (x \<in> set xs) (x \<in> H - {p}) y" if "mq_heap ?s' x = Some y" for x y
    using that sched_invD(3) [OF inv, of x] by (cases "x = p") auto
  ultimately have "sched_inv xs (?s', H - {p})"
    using sched_invD(2) [OF inv] by (auto simp: sched_inv_def)
  with nx show ?thesis by (simp add: mq_release_free_def)
qed

lemma mq_step_inv:
  assumes "mq_step c c'" "sched_inv xs c"
  shows "\<exists>xs'. sched_inv xs' c'"
  using assms
proof (induction arbitrary: xs rule: mq_step.induct)
  case (create p h s s' H)
  then show ?case using sched_inv_create by blast
next
  case (requeue p H s s')
  then show ?case using sched_inv_requeue [of xs s H p] by auto
next
  case (push_msg s p q m s' H)
  then show ?case using sched_inv_push_msg [of xs s H p q m] by auto
next
  case (take s p s' H)
  then obtain ys where "xs = p # ys"
    using skynet_globalmq_pop_nil [of s] sched_invD(1) [of xs s H]
      skynet_globalmq_pop_cons [of s "hd xs" "tl xs"]
    by (cases xs) (auto simp: Let_def)
  with take sched_inv_take [of p ys s H] show ?case by auto
next
  case (pop_msg p H s m s')
  then obtain q where "mq_heap s p = Some q" using sched_inv_held by metis
  with pop_msg sched_inv_pop [of xs s H p q] show ?case by (auto split: if_splits)
next
  case (pop_idle p H s q s')
  with sched_inv_pop [of xs s H p q] show ?case by (auto split: if_splits)
next
  case (overload p H s r s')
  with sched_inv_overload [of xs s H p] show ?case by auto
next
  case (mark p s s' H)
  then obtain q where "mq_heap s p = Some q" "mq_release q = 0"
    by (auto simp: skynet_mq_mark_release_def bind_Some_iff)
  with mark sched_inv_mark [of xs s H p q] show ?case by auto
next
  case (free_queue p H s q s1 s2)
  then have "s1 = mq_upd p (q\<lparr>mq_overload_threshold := MQ_OVERLOAD, mq_in_global := 0\<rparr>) s"
    using sched_inv_pop [of xs s H p q] by (auto split: if_splits)
  with free_queue sched_inv_free [of xs s H p q 0 MQ_OVERLOAD] show ?case by auto
qed

lemma mq_reachable_inv: "mq_reachable c \<Longrightarrow> \<exists>xs. sched_inv xs c"
  by (induction rule: mq_reachable.induct) (use sched_inv_init mq_step_inv in blast)+

subsection \<open>Dropping a released queue\<close>

lemma drop_queue_ok:
  assumes drop: "\<And>m s w. drop_func m (s, w) = Some (g m s w, f m w)"
    and keep: "\<And>m s w. mq_heap (g m s w) p = mq_heap s p"
  shows "mq_wf q \<Longrightarrow> mq_next q = None \<Longrightarrow> mq_heap s p = Some q \<Longrightarrow>
    \<exists>s'. drop_queue drop_func p (s, w) = Some (s', fold f (mq_list q) w) \<and> mq_heap s' p = None"
proof (induction "mq_list q" arbitrary: q s w)
  case Nil
  from mq_pop_local_nil [OF Nil.prems(1)] Nil show ?case
    by (subst drop_queue.simps) (simp add: skynet_mq_pop_def mq_release_free_def)
next
  case (Cons m ms)
  obtain q1 where q1: "mq_pop_local q = Some (Some m, q1)" "mq_wf q1" "mq_list q1 = ms" "mq_next q1 = None"
    using mq_pop_local_cons [OF Cons.prems(1)] Cons.hyps(2) Cons.prems(2)
    by (metis list.distinct(1) list.sel(1,3))
  have "mq_heap (g m (mq_upd p q1 s) w) p = Some q1" by (simp add: keep)
  from Cons.hyps(1) [OF q1(3) [symmetric] q1(2,4) this, of "f m w"] obtain s'
    where "drop_queue drop_func p (g m (mq_upd p q1 s) w, f m w) = Some (s', fold f ms (f m w))"
      "mq_heap s' p = None" using q1(3) by auto
  moreover have "drop_queue drop_func p (s, w) = drop_queue drop_func p (g m (mq_upd p q1 s) w, f m w)"
    by (subst drop_queue.simps) (use Cons.prems q1 in \<open>simp add: skynet_mq_pop_def drop\<close>)
  ultimately show ?case using Cons.hyps(2) by (metis fold_simps(2))
qed

subsection \<open>Properties\<close>

text \<open>C1: No lost wake-up and single ownership: in every reachable state of the scheduler a
  queue that holds a message is either linked, exactly once, in the global queue or held by a
  worker, and never both.\<close>

theorem mq_no_lost_wakeup:
  assumes "mq_reachable (s, H)" "mq_heap s p = Some q" "mq_list q \<noteq> []"
  shows "\<exists>xs. gq s xs \<and> distinct xs \<and> (p \<in> set xs) \<noteq> (p \<in> H)"
proof -
  obtain xs where inv: "sched_inv xs (s, H)" using mq_reachable_inv [OF assms(1)] by blast
  from sched_invD(3) [OF inv assms(2)] assms(3) have "(p \<in> set xs) \<noteq> (p \<in> H)"
    by (auto simp: queue_ok_def)
  moreover have "distinct xs"
    using sched_invD(1) [OF inv] path_distinct by (auto simp: gq_def)
  ultimately show ?thesis using sched_invD(1) [OF inv] by blast
qed

text \<open>C8: No operation of the scheduler aborts: in every reachable state the \<open>assert\<close>s hold and
  no access leaves an array, for each operation its callers may perform in that state.\<close>

theorem mq_operations_defined:
  assumes "mq_reachable (s, H)"
  shows "skynet_globalmq_pop s \<noteq> None \<and>
    (\<forall>p \<in> H. skynet_globalmq_push p s \<noteq> None \<and> skynet_mq_pop p s \<noteq> None \<and>
      skynet_mq_overload p s \<noteq> None) \<and>
    (\<forall>p q m. mq_heap s p = Some q \<and> mq_release q = 0 \<longrightarrow>
      skynet_mq_push p m s \<noteq> None \<and> skynet_mq_mark_release p s \<noteq> None)"
proof (intro conjI ballI allI impI)
  obtain xs where inv: "sched_inv xs (s, H)" using mq_reachable_inv [OF assms(1)] by blast
  show "skynet_globalmq_pop s \<noteq> None"
    using skynet_globalmq_pop_nil [of s] sched_invD(1) [OF inv] skynet_globalmq_pop_cons [of s "hd xs" "tl xs"]
    by (cases xs) (auto simp: Let_def)
  fix p assume p: "p \<in> H"
  then obtain q where q: "mq_heap s p = Some q" using sched_inv_held [OF inv] by metis
  show "skynet_globalmq_push p s \<noteq> None" using sched_inv_requeue [OF inv p] by auto
  show "skynet_mq_overload p s \<noteq> None" using sched_inv_overload [OF inv p] by auto
  show "skynet_mq_pop p s \<noteq> None" using sched_inv_pop [OF inv p q] by (auto split: if_splits)
next
  obtain xs where inv: "sched_inv xs (s, H)" using mq_reachable_inv [OF assms(1)] by blast
  fix p q m assume p: "mq_heap s p = Some q \<and> mq_release q = 0"
  show "skynet_mq_push p m s \<noteq> None" using sched_inv_push_msg [OF inv, of p q m] p by auto
  show "skynet_mq_mark_release p s \<noteq> None" using sched_inv_mark [OF inv, of p q] p by auto
qed

text \<open>C4: The ring buffer refines a FIFO list: a push on a well-formed queue always succeeds and
  appends its message, doubling the buffer when it is full, and a pop returns the first
  message, or reports an empty queue and clears the \<open>in_global\<close> flag.\<close>

theorem mq_refines_fifo:
  assumes "mq_wf q"
  shows "(\<exists>q'. mq_push_local m q = Some q' \<and> mq_wf q' \<and> mq_list q' = mq_list q @ [m] \<and>
      mq_in_global q' = mq_in_global q) \<and>
    (\<exists>q'. mq_pop_local q = Some (case mq_list q of [] \<Rightarrow> None | m # _ \<Rightarrow> Some m, q') \<and> mq_wf q' \<and>
      mq_list q' = tl (mq_list q) \<and>
      mq_in_global q' = (if mq_list q = [] then 0 else mq_in_global q)) \<and>
    mq_length q = int (length (mq_list q))"
proof (intro conjI)
  show "\<exists>q'. mq_push_local m q = Some q' \<and> mq_wf q' \<and> mq_list q' = mq_list q @ [m] \<and>
      mq_in_global q' = mq_in_global q"
    using mq_push_local_ok [OF assms, of m] by blast
  show "\<exists>q'. mq_pop_local q = Some (case mq_list q of [] \<Rightarrow> None | m # _ \<Rightarrow> Some m, q') \<and> mq_wf q' \<and>
      mq_list q' = tl (mq_list q) \<and> mq_in_global q' = (if mq_list q = [] then 0 else mq_in_global q)"
    using mq_pop_local_nil [OF assms] mq_pop_local_cons [OF assms]
    by (cases "mq_list q") auto
  show "mq_length q = int (length (mq_list q))"
    using assms mq_length_bounds [of q] by (simp add: mq_length_list mq_wf_def)
qed

text \<open>Messages come out of a new queue in the order they went in, however many are pushed.\<close>

theorem mq_push_all_pop_all:
  "\<exists>q1 q2. mq.push_all ms (mq_new h) = Some q1 \<and> mq.pop_n (length ms) q1 = Some (ms, q2) \<and>
     mq_list q2 = []"
  by (rule mq.push_all_pop_n [OF mq_new_wf mq_new_list])

text \<open>Releasing a queue that is marked for release terminates, passes every waiting message
  to the drop callback in queue order, and frees the queue, for a callback that leaves this
  queue alone.\<close>

theorem skynet_mq_release_drops_all:
  assumes "\<And>m s w. drop_func m (s, w) = Some (g m s w, f m w)"
    and "\<And>m s w. mq_heap (g m s w) p = mq_heap s p"
    and "mq_heap s p = Some q" "mq_wf q" "mq_next q = None" "mq_release q \<noteq> 0"
  shows "\<exists>s'. skynet_mq_release p drop_func (s, w) = Some (s', fold f (mq_list q) w) \<and>
    mq_heap s' p = None"
  using drop_queue_ok [of drop_func g f p q s w] assms by (simp add: skynet_mq_release_def)

text \<open>C40: No \<open>int\<close> of a queue overflows while its capacity is at most \<open>2 ^ 28\<close>: after a push or
  a pop all fields stay below \<open>2 ^ 31\<close>.\<close>

theorem mq_no_int_overflow:
  assumes "mq_wf q" "mq_cap q \<le> 2 ^ 28"
    and "mq_push_local m q = Some q' \<or> mq_pop_local q = Some (r, q')"
  shows "int (mq_cap q') < 2 ^ 31 \<and> mq_overload_threshold q' < 2 ^ 31 \<and> 0 \<le> mq_overload q' \<and>
    mq_overload q' < 2 ^ 31 \<and> mq_head q' < mq_cap q' \<and> mq_tail q' < mq_cap q'"
proof -
  have "mq_wf q' \<and> mq_cap q' \<le> 2 * mq_cap q"
    using assms(3) mq_push_local_ok [OF assms(1), of m] mq_pop_local_cons [OF assms(1)]
      mq_pop_local_nil [OF assms(1)] by (cases "mq_list q = []") auto
  with assms(2) show ?thesis by (auto simp: mq_wf_def mq_consts)
qed

subsection \<open>Witnesses\<close>

text \<open>A service created at address 1, and one message pushed to it.\<close>

definition w_msg :: skynet_message where
  "w_msg = \<lparr>msg_source = 7, msg_session = 1, msg_data = None, msg_sz = 0\<rparr>"

definition w_state :: mq_state where
  "w_state = mq_upd 1 (the (mq_push_local w_msg (mq_new 5))) skynet_mq_init"

lemma w_push: "\<exists>q. mq_push_local w_msg (mq_new 5) = Some q \<and> mq_wf q \<and> mq_list q = [w_msg] \<and>
    mq_in_global q = 1 \<and> mq_release q = 0 \<and> mq_next q = None \<and> mq_heap w_state 1 = Some q"
  using mq_push_local_ok [OF mq_new_wf, of w_msg 5] mq_new_list [of 5]
  by (auto simp: w_state_def mq_new_def mq_consts)

lemma w_state_reachable: "mq_reachable (w_state, {1})"
proof -
  let ?s = "mq_upd 1 (mq_new 5) skynet_mq_init"
  have "mq_step (skynet_mq_init, {}) (?s, {1})"
    by (rule mq_step.create) (simp add: skynet_mq_create_def skynet_mq_init_def)
  moreover have "skynet_mq_push 1 w_msg ?s = Some w_state"
  proof -
    obtain q where "mq_push_local w_msg (mq_new 5) = Some q" "mq_in_global q = 1" using w_push by blast
    then show ?thesis by (simp add: skynet_mq_push_def w_state_def mq_upd_def)
  qed
  then have "mq_step (?s, {1}) (w_state, {1})"
    by (rule mq_step.push_msg [rotated 2]) (auto simp: mq_new_def)
  ultimately show ?thesis by (blast intro: mq_reachable.intros)
qed

theorem mq_no_lost_wakeup_witness:
  "\<exists>q xs. mq_reachable (w_state, {1}) \<and> mq_heap w_state 1 = Some q \<and> mq_list q = [w_msg] \<and>
     gq w_state xs \<and> 1 \<notin> set xs"
proof -
  obtain q where q: "mq_heap w_state 1 = Some q" "mq_list q = [w_msg]" using w_push by blast
  with mq_no_lost_wakeup [OF w_state_reachable q(1)] w_state_reachable show ?thesis by auto
qed

theorem mq_operations_defined_witness:
  "mq_reachable (w_state, {1}) \<and> skynet_globalmq_pop w_state \<noteq> None \<and> skynet_mq_pop 1 w_state \<noteq> None"
  using mq_operations_defined [OF w_state_reachable] w_state_reachable by auto

theorem mq_refines_fifo_witness:
  "mq_wf (mq_new 5) \<and> (\<exists>q'. mq_push_local w_msg (mq_new 5) = Some q' \<and> mq_list q' = [w_msg])"
  using mq_refines_fifo [OF mq_new_wf, of w_msg 5] mq_new_wf mq_new_list by auto

theorem skynet_mq_release_drops_all_witness:
  "\<exists>s'. skynet_mq_release 1 (\<lambda>m (s, w). Some (s, msg_session m # w))
     (mq_upd 1 ((the (mq_heap w_state 1))\<lparr>mq_release := 1\<rparr>) w_state, []) = Some (s', [1])"
proof -
  obtain q where q: "mq_heap w_state 1 = Some q" "mq_wf q" "mq_list q = [w_msg]" "mq_next q = None"
    using w_push by blast
  show ?thesis
    using skynet_mq_release_drops_all [of "\<lambda>m (s, w). Some (s, msg_session m # w)" "\<lambda>m s w. s"
      "\<lambda>m w. msg_session m # w" 1 "mq_upd 1 (q\<lparr>mq_release := 1\<rparr>) w_state" "q\<lparr>mq_release := 1\<rparr>" "[]"] q
    by (auto simp: w_msg_def)
qed

theorem mq_no_int_overflow_witness:
  "\<exists>q'. mq_push_local w_msg (mq_new 5) = Some q' \<and> int (mq_cap q') < 2 ^ 31"
proof -
  obtain q' where "mq_push_local w_msg (mq_new 5) = Some q'" using w_push by blast
  with mq_no_int_overflow [OF mq_new_wf, of 5 w_msg q'] show ?thesis
    by (auto simp: mq_new_def mq_consts)
qed

end
