(* ===== verification/Unique_Map.thy ===== *)
theory Unique_Map
  imports Prelude
begin

text \<open>
  The interface of the code's directories that refuse a key twice: the service names of
  \<^verbatim>\<open>skynet_handle.c\<close> and the hash tables of \<^verbatim>\<open>ecos_shash32.c\<close>.  \<open>insert k v m\<close> answers
  \<open>None\<close> when the code rejects the key; \<open>lookup m\<close> is the partial map the directory stands for.
  A directory may be bounded: \<open>used m\<close> entries count against \<open>capacity\<close>.
\<close>

locale unique_map =
  fixes empty :: 'm
    and insert :: "'k \<Rightarrow> 'v \<Rightarrow> 'm \<Rightarrow> 'm option"
    and lookup :: "'m \<Rightarrow> 'k \<Rightarrow> 'v option"
    and wf :: "'m \<Rightarrow> bool"
    and used :: "'m \<Rightarrow> nat"
    and capacity :: nat
  assumes wf_empty: "wf empty"
    and lookup_empty: "lookup empty k = None"
    and used_empty: "used empty = 0"
    and insert_new: "wf m \<Longrightarrow> lookup m k = None \<Longrightarrow> used m < capacity \<Longrightarrow>
      \<exists>m'. insert k v m = Some m' \<and> wf m' \<and> lookup m' = (lookup m)(k \<mapsto> v) \<and> used m' \<le> Suc (used m)"
    and insert_full: "wf m \<Longrightarrow> \<not> used m < capacity \<Longrightarrow> insert k v m = None"
    and insert_old: "wf m \<Longrightarrow> lookup m k \<noteq> None \<Longrightarrow> insert k v m = None"
begin

text \<open>Registering a list of pairs, keeping the first registration of each key.\<close>

fun insert_all :: "('k \<times> 'v) list \<Rightarrow> 'm \<Rightarrow> 'm" where
  "insert_all [] m = m"
| "insert_all ((k, v) # kvs) m =
     insert_all kvs (case insert k v m of None \<Rightarrow> m | Some m' \<Rightarrow> m')"

lemma insert_keeps: "wf m \<Longrightarrow> insert k v m = Some m' \<Longrightarrow> lookup m k' = Some v' \<Longrightarrow> lookup m' k' = Some v'"
  using insert_new [of m k v] insert_old [of m k v] insert_full [of m k v]
  by (cases "lookup m k"; cases "used m < capacity") auto

lemma insert_all_lookup:
  "wf m \<Longrightarrow> used m + length kvs \<le> capacity \<Longrightarrow> wf (insert_all kvs m) \<and>
     lookup (insert_all kvs m) k = (case lookup m k of Some v \<Rightarrow> Some v | None \<Rightarrow> map_of kvs k)"
proof (induction kvs arbitrary: m)
  case Nil
  then show ?case by (simp split: option.split)
next
  case (Cons kv kvs)
  obtain a b where kv: "kv = (a, b)" by (cases kv)
  show ?case
  proof (cases "lookup m a")
    case None
    with insert_new [of m a b] Cons.prems obtain m' where
      "insert a b m = Some m'" "wf m'" "lookup m' = (lookup m)(a \<mapsto> b)" "used m' \<le> Suc (used m)" by auto
    with Cons.IH [of m'] Cons.prems None show ?thesis by (auto simp: kv split: option.split)
  next
    case (Some v)
    with insert_old [OF Cons.prems(1), of a b] have "insert a b m = None" by simp
    with Cons.IH [OF Cons.prems(1)] Cons.prems(2) Some show ?thesis by (auto simp: kv split: option.split)
  qed
qed

lemma insert_all_empty:
  "length kvs \<le> capacity \<Longrightarrow> lookup (insert_all kvs empty) k = map_of kvs k"
  using insert_all_lookup [OF wf_empty, of kvs k] by (simp add: lookup_empty used_empty)

end

locale unique_map_del = unique_map +
  fixes remove :: "'b \<Rightarrow> 'a \<Rightarrow> 'a"
  assumes remove_ok: "wf m \<Longrightarrow> wf (remove k m) \<and> lookup (remove k m) = (lookup m)(k := None) \<and>
    used (remove k m) \<le> used m"
begin

lemma remove_insert:
  assumes "wf m" "insert k v m = Some m'"
  shows "lookup (remove k m') = lookup m"
proof -
  have k: "lookup m k = None" using insert_old [OF assms(1), of k v] assms(2) by fastforce
  then have "wf m'" "lookup m' = (lookup m)(k \<mapsto> v)"
    using insert_new [OF assms(1) k, of v] insert_full [of m k v] assms by auto
  then show ?thesis using remove_ok [of m' k] k by (auto simp: fun_eq_iff)
qed

lemma insert_after_remove: "wf m \<Longrightarrow> used m < capacity \<Longrightarrow> \<exists>m'. insert k v (remove k m) = Some m' \<and> lookup m' = (lookup m)(k \<mapsto> v)"
  using remove_ok [of m k] insert_new [of "remove k m" k v] by auto

end

end
