(* ===== verification/Skynet_Handle.thy ===== *)
theory Skynet_Handle
  imports Unique_Map "HOL-Library.List_Lexorder" "HOL-Library.Char_ord"
begin

unbundle bit_operations_syntax

text \<open>
  The service directory of skynet (\<^verbatim>\<open>009_skynet_demo/skynet/skynet-src/skynet_handle.c\<close>): the
  open-addressed table of contexts indexed by the low bits of their handles, and the sorted
  array of local names with its binary search.

  A context is an address; \<open>ch :: addr \<Rightarrow> u32\<close> is the \<open>handle\<close> field of every context
  (\<open>skynet_context_handle\<close>), which \<open>skynet_context_new\<close> writes after \<open>skynet_handle_register\<close>
  has returned.  \<open>None\<close> as a result is a failed \<open>assert\<close> or an access outside an array.
\<close>

subsection \<open>Data\<close>

record handle_name =
  hn_name :: string
  hn_handle :: u32

record handle_storage =
  hs_harbor :: u32
  hs_handle_index :: u32
  hs_slot_size :: nat
  hs_slot :: "ptr list"
  hs_name_cap :: nat
  hs_name_count :: nat
  hs_name :: "handle_name option list" \<comment> \<open>\<open>None\<close>: a cell never written since malloc\<close>

definition DEFAULT_SLOT_SIZE :: nat where "DEFAULT_SLOT_SIZE = 4"
definition MAX_SLOT_SIZE :: nat where "MAX_SLOT_SIZE = 0x40000000"
definition HANDLE_MASK :: u32 where "HANDLE_MASK = 0xffffff"
definition HANDLE_REMOTE_SHIFT :: nat where "HANDLE_REMOTE_SHIFT = 24"

lemmas handle_consts = DEFAULT_SLOT_SIZE_def MAX_SLOT_SIZE_def HANDLE_MASK_def HANDLE_REMOTE_SHIFT_def

definition skynet_handle_init :: "u32 \<Rightarrow> handle_storage" where
  "skynet_handle_init harbor = \<lparr>hs_harbor = push_bit HANDLE_REMOTE_SHIFT (harbor AND 0xff),
     hs_handle_index = 1, hs_slot_size = DEFAULT_SLOT_SIZE,
     hs_slot = replicate DEFAULT_SLOT_SIZE None, hs_name_cap = 2, hs_name_count = 0,
     hs_name = replicate 2 None\<rparr>"

subsection \<open>Contexts by handle\<close>

definition slot_hash :: "u32 \<Rightarrow> nat \<Rightarrow> nat" where
  "slot_hash handle sz = unat (handle AND of_nat (sz - 1))"

text \<open>The inner \<open>for (i=0;i<s->slot_size;i++,handle++)\<close> loop: \<open>n\<close> iterations are left.\<close>

fun find_slot :: "ptr list \<Rightarrow> nat \<Rightarrow> nat \<Rightarrow> u32 \<Rightarrow> (u32 \<times> nat) option option" where
  "find_slot slot sz 0 handle = Some None"
| "find_slot slot sz (Suc n) handle = do {
     let handle = (if handle > HANDLE_MASK then 1 else handle);
     let hash = slot_hash handle sz;
     c \<leftarrow> array_get slot hash;
     (if c = None then Some (Some (handle, hash)) else find_slot slot sz n (handle + 1)) }"

text \<open>Rehashing into a table of twice the size.\<close>

fun rehash :: "(addr \<Rightarrow> u32) \<Rightarrow> nat \<Rightarrow> ptr list \<Rightarrow> ptr list \<Rightarrow> ptr list option" where
  "rehash ch sz [] new_slot = Some new_slot"
| "rehash ch sz (None # cs) new_slot = rehash ch sz cs new_slot"
| "rehash ch sz (Some c # cs) new_slot = do {
     let hash = slot_hash (ch c) sz;
     old \<leftarrow> array_get new_slot hash;
     assert_opt (old = None);
     rehash ch sz cs (new_slot[hash := Some c]) }"

definition grow_slots :: "(addr \<Rightarrow> u32) \<Rightarrow> handle_storage \<Rightarrow> handle_storage option" where
  "grow_slots ch s = do {
     assert_opt (hs_slot_size s * 2 - 1 \<le> unat HANDLE_MASK);
     new_slot \<leftarrow> rehash ch (hs_slot_size s * 2) (take (hs_slot_size s) (hs_slot s))
                   (replicate (hs_slot_size s * 2) None);
     Some (s\<lparr>hs_slot := new_slot, hs_slot_size := hs_slot_size s * 2\<rparr>) }"

partial_function (option) skynet_handle_register ::
  "(addr \<Rightarrow> u32) \<Rightarrow> addr \<Rightarrow> handle_storage \<Rightarrow> (u32 \<times> handle_storage) option" where
  "skynet_handle_register ch ctx s = do {
     r \<leftarrow> find_slot (hs_slot s) (hs_slot_size s) (hs_slot_size s) (hs_handle_index s);
     (case r of
        Some (handle, hash) \<Rightarrow>
          Some (handle OR hs_harbor s,
            s\<lparr>hs_slot := (hs_slot s)[hash := Some ctx], hs_handle_index := handle + 1\<rparr>)
      | None \<Rightarrow> do { s \<leftarrow> grow_slots ch s; skynet_handle_register ch ctx s }) }"

definition skynet_handle_grab :: "(addr \<Rightarrow> u32) \<Rightarrow> u32 \<Rightarrow> handle_storage \<Rightarrow> ptr option" where
  "skynet_handle_grab ch handle s = do {
     c \<leftarrow> array_get (hs_slot s) (slot_hash handle (hs_slot_size s));
     Some (case c of Some ctx \<Rightarrow> if ch ctx = handle then Some ctx else None | None \<Rightarrow> None) }"

subsection \<open>Names\<close>

text \<open>C's \<open>strcmp\<close> on strings without embedded zero bytes (only its sign is used).\<close>

fun strcmp :: "string \<Rightarrow> string \<Rightarrow> int" where
  "strcmp [] [] = 0"
| "strcmp [] (y # ys) = - 1"
| "strcmp (x # xs) [] = 1"
| "strcmp (x # xs) (y # ys) = (if x = y then strcmp xs ys else of_char x - of_char y)"

text \<open>The binary search of \<open>skynet_handle_findname\<close> and \<open>_insert_name\<close>: \<open>Inl\<close> the handle found, or
  \<open>Inr\<close> the final value of \<open>begin\<close>.\<close>

function name_search :: "handle_name option list \<Rightarrow> string \<Rightarrow> int \<Rightarrow> int \<Rightarrow> (u32 + int) option" where
  "name_search ns name bg en =
     (if bg \<le> en then do {
        let mid = (bg + en) div 2;
        cell \<leftarrow> array_get ns (nat mid);
        n \<leftarrow> cell;
        let c = strcmp (hn_name n) name;
        (if c = 0 then Some (Inl (hn_handle n))
         else if c < 0 then name_search ns name (mid + 1) en
         else name_search ns name bg (mid - 1)) }
      else Some (Inr bg))"
  by pat_completeness auto
termination by (relation "measure (\<lambda>(ns, name, bg, en). nat (en - bg + 1))") auto

declare name_search.simps [simp del]

definition skynet_handle_findname :: "string \<Rightarrow> handle_storage \<Rightarrow> u32 option" where
  "skynet_handle_findname name s = do {
     r \<leftarrow> name_search (hs_name s) name 0 (int (hs_name_count s) - 1);
     Some (case r of Inl h \<Rightarrow> h | Inr _ \<Rightarrow> 0) }"

text \<open>\<open>for (i=s->name_count;i>before;i--) s->name[i] = s->name[i-1];\<close>\<close>

fun shift_up :: "'a list \<Rightarrow> nat \<Rightarrow> nat \<Rightarrow> 'a list option" where
  "shift_up a i before =
     (if i > before then do {
        x \<leftarrow> array_get a (i - 1);
        a \<leftarrow> array_set a i x;
        shift_up a (i - 1) before }
      else Some a)"

declare shift_up.simps [simp del]

definition insert_name_before :: "handle_storage \<Rightarrow> string \<Rightarrow> u32 \<Rightarrow> nat \<Rightarrow> handle_storage option" where
  "insert_name_before s name handle before = do {
     (cap, a) \<leftarrow> (if hs_name_count s \<ge> hs_name_cap s then do {
          let cap = hs_name_cap s * 2;
          assert_opt (cap \<le> MAX_SLOT_SIZE);
          lo \<leftarrow> those (map (array_get (hs_name s)) [0..<before]);
          hi \<leftarrow> those (map (array_get (hs_name s)) [before..<hs_name_count s]);
          Some (cap, lo @ [None] @ hi @ replicate (cap - hs_name_count s - 1) None) }
        else do {
          a \<leftarrow> shift_up (hs_name s) (hs_name_count s) before;
          Some (hs_name_cap s, a) });
     a \<leftarrow> array_set a before (Some \<lparr>hn_name = name, hn_handle = handle\<rparr>);
     Some (s\<lparr>hs_name_cap := cap, hs_name := a, hs_name_count := hs_name_count s + 1\<rparr>) }"

text \<open>The result is the interned name, or \<open>None\<close> for the \<open>NULL\<close> of a name already in use.\<close>

definition insert_name :: "handle_storage \<Rightarrow> string \<Rightarrow> u32 \<Rightarrow> (string option \<times> handle_storage) option" where
  "insert_name s name handle = do {
     r \<leftarrow> name_search (hs_name s) name 0 (int (hs_name_count s) - 1);
     (case r of
        Inl _ \<Rightarrow> Some (None, s)
      | Inr bg \<Rightarrow> do { s \<leftarrow> insert_name_before s name handle (nat bg); Some (Some name, s) }) }"

definition skynet_handle_namehandle :: "u32 \<Rightarrow> string \<Rightarrow> handle_storage \<Rightarrow> (string option \<times> handle_storage) option" where
  "skynet_handle_namehandle handle name s = insert_name s name handle"

subsection \<open>Retiring a handle\<close>

text \<open>The in-place compaction of the names: \<open>i\<close> reads, \<open>j\<close> writes.\<close>

function compact_names :: "u32 \<Rightarrow> nat \<Rightarrow> nat \<Rightarrow> nat \<Rightarrow> handle_name option list \<Rightarrow> (nat \<times> handle_name option list) option" where
  "compact_names handle i n j a =
     (if i < n then do {
        cell \<leftarrow> array_get a i;
        x \<leftarrow> cell;
        (if hn_handle x = handle then compact_names handle (i + 1) n j a
         else do {
           a \<leftarrow> (if i \<noteq> j then array_set a j (Some x) else Some a);
           compact_names handle (i + 1) n (j + 1) a }) }
      else Some (j, a))"
  by pat_completeness auto
termination by (relation "measure (\<lambda>(h, i, n, j, a). n - i)") auto

declare compact_names.simps [simp del]

text \<open>The result also holds the context that \<open>skynet_context_release\<close> is called on, if any.\<close>

definition skynet_handle_retire :: "(addr \<Rightarrow> u32) \<Rightarrow> u32 \<Rightarrow> handle_storage \<Rightarrow> (int \<times> ptr \<times> handle_storage) option" where
  "skynet_handle_retire ch handle s = do {
     let hash = slot_hash handle (hs_slot_size s);
     c \<leftarrow> array_get (hs_slot s) hash;
     (case c of
        Some ctx \<Rightarrow>
          if ch ctx = handle then do {
            (j, a) \<leftarrow> compact_names handle 0 (hs_name_count s) 0 (hs_name s);
            Some (1, Some ctx, s\<lparr>hs_slot := (hs_slot s)[hash := None], hs_name := a, hs_name_count := j\<rparr>) }
          else Some (0, None, s)
      | None \<Rightarrow> Some (0, None, s)) }"

text \<open>One sweep of \<open>skynet_handle_retireall\<close> and its outer loop, with no other thread running and with
  releases that do not touch the directory; \<open>n\<close> counts the contexts met.\<close>

partial_function (option) retire_sweep ::
  "(addr \<Rightarrow> u32) \<Rightarrow> nat \<Rightarrow> nat \<Rightarrow> handle_storage \<Rightarrow> (nat \<times> handle_storage) option" where
  "retire_sweep ch i n s =
     (if i < hs_slot_size s then do {
        ctx \<leftarrow> array_get (hs_slot s) i;
        (case ctx of
           Some c \<Rightarrow> do {
             let handle = ch c;
             s \<leftarrow> (if handle \<noteq> 0 then do { (_, _, s) \<leftarrow> skynet_handle_retire ch handle s; Some s } else Some s);
             retire_sweep ch (i + 1) (n + 1) s }
         | None \<Rightarrow> retire_sweep ch (i + 1) n s) }
      else Some (n, s))"

partial_function (option) skynet_handle_retireall ::
  "(addr \<Rightarrow> u32) \<Rightarrow> handle_storage \<Rightarrow> handle_storage option" where
  "skynet_handle_retireall ch s = do {
     (n, s) \<leftarrow> retire_sweep ch 0 0 s;
     (if n = 0 then Some s else skynet_handle_retireall ch s) }"

subsection \<open>The sorted name table\<close>

lemma strcmp_eq [simp]: "strcmp a b = 0 \<longleftrightarrow> a = b"
  by (induction a b rule: strcmp.induct) auto

lemma of_char_less_iff: "(of_char a :: int) < of_char b \<longleftrightarrow> a < b"
  by (simp add: less_char_def flip: of_nat_of_char [where 'a = int])

lemma strcmp_less: "strcmp a b < 0 \<longleftrightarrow> a < b"
  by (induction a b rule: strcmp.induct) (auto simp: of_char_less_iff)

definition names :: "handle_storage \<Rightarrow> handle_name list" where
  "names s = map the (take (hs_name_count s) (hs_name s))"

definition name_inv :: "handle_storage \<Rightarrow> bool" where
  "name_inv s \<longleftrightarrow> length (hs_name s) = hs_name_cap s \<and> hs_name_count s \<le> hs_name_cap s \<and>
     hs_name_cap s \<le> MAX_SLOT_SIZE \<and> (\<exists>k. hs_name_cap s = 2 ^ k) \<and> (\<forall>i<hs_name_count s. hs_name s ! i \<noteq> None) \<and>
     sorted_wrt (<) (map hn_name (names s))"

text \<open>The search of the code as a partial map, and its specification on the list of entries.\<close>

definition name_lookup :: "handle_storage \<Rightarrow> string \<Rightarrow> u32 option" where
  "name_lookup s name = (case name_search (hs_name s) name 0 (int (hs_name_count s) - 1) of
     Some (Inl h) \<Rightarrow> Some h | _ \<Rightarrow> None)"

definition name_map :: "handle_name list \<Rightarrow> string \<rightharpoonup> u32" where
  "name_map xs = map_of (map (\<lambda>n. (hn_name n, hn_handle n)) xs)"

lemma length_names [simp]: "name_inv s \<Longrightarrow> length (names s) = hs_name_count s"
  by (simp add: names_def name_inv_def)

lemma names_nth: "name_inv s \<Longrightarrow> i < hs_name_count s \<Longrightarrow> hs_name s ! i = Some (names s ! i)"
  by (auto simp: names_def name_inv_def)

lemma names_less:
  "name_inv s \<Longrightarrow> i < j \<Longrightarrow> j < hs_name_count s \<Longrightarrow> hn_name (names s ! i) < hn_name (names s ! j)"
  by (auto simp: name_inv_def sorted_wrt_map sorted_wrt_iff_nth_less names_def)

lemma name_search_spec:
  fixes bg en :: int
  assumes "name_inv s" "0 \<le> bg" "en < int (hs_name_count s)" "bg \<le> en + 1"
    and "\<And>i. int i < bg \<Longrightarrow> hn_name (names s ! i) < name"
    and "\<And>i. en < int i \<Longrightarrow> i < hs_name_count s \<Longrightarrow> name < hn_name (names s ! i)"
  shows "(\<exists>i<hs_name_count s. name_search (hs_name s) name bg en = Some (Inl (hn_handle (names s ! i)))
             \<and> hn_name (names s ! i) = name) \<or>
         (\<exists>b\<le>hs_name_count s. name_search (hs_name s) name bg en = Some (Inr (int b))
             \<and> (\<forall>i<b. hn_name (names s ! i) < name)
             \<and> (\<forall>i. b \<le> i \<longrightarrow> i < hs_name_count s \<longrightarrow> name < hn_name (names s ! i)))"
  using assms
proof (induction "nat (en - bg + 1)" arbitrary: bg en rule: less_induct)
  case less
  let ?n = "hs_name_count s"
  note inv = less.prems(1)
  show ?case
  proof (cases "bg \<le> en")
    case False
    with less.prems have "bg = en + 1" by simp
    then have "name_search (hs_name s) name bg en = Some (Inr (int (nat bg)))"
      using less.prems by (simp add: name_search.simps)
    moreover have "nat bg \<le> ?n" using less.prems \<open>bg = en + 1\<close> by linarith
    ultimately show ?thesis using less.prems(5,6) \<open>bg = en + 1\<close>
      by (intro disjI2 exI [of _ "nat bg"]) auto
  next
    case True
    define m where "m = nat ((bg + en) div 2)"
    have mi: "int m = (bg + en) div 2" using True less.prems by (simp add: m_def)
    have m: "bg \<le> int m" "int m \<le> en" "m < ?n" using True mi less.prems by linarith+
    have len: "?n \<le> length (hs_name s)" using inv by (simp add: name_inv_def)
    have S: "name_search (hs_name s) name bg en =
       (if hn_name (names s ! m) = name then Some (Inl (hn_handle (names s ! m)))
        else if hn_name (names s ! m) < name then name_search (hs_name s) name (int m + 1) en
        else name_search (hs_name s) name bg (int m - 1))"
      using True m len names_nth [OF inv, of m]
      by (subst name_search.simps) (simp add: mi [symmetric] strcmp_less del: of_nat_add)
    consider "hn_name (names s ! m) = name" | "hn_name (names s ! m) < name" | "name < hn_name (names s ! m)"
      by (metis linorder_less_linear)
    then show ?thesis
    proof cases
      case 1
      with S m show ?thesis by auto
    next
      case 2
      have "hn_name (names s ! i) < name" if "int i < int m + 1" for i
        using names_less [OF inv, of i m] that m 2 by (cases "i = m") auto
      moreover have "name_search (hs_name s) name bg en = name_search (hs_name s) name (int m + 1) en"
        using S 2 by auto
      ultimately show ?thesis using less.hyps [of en "int m + 1"] less.prems m by simp
    next
      case 3
      have "name < hn_name (names s ! i)" if "int m - 1 < int i" "i < ?n" for i
        using names_less [OF inv, of m i] that m 3 by (cases "i = m") auto
      moreover have "name_search (hs_name s) name bg en = name_search (hs_name s) name bg (int m - 1)"
        using S 3 by auto
      ultimately show ?thesis using less.hyps [of "int m - 1" bg] less.prems m by simp
    qed
  qed
qed

lemma name_search_cases:
  assumes "name_inv s"
  obtains (found) i where "i < hs_name_count s"
      "name_search (hs_name s) name 0 (int (hs_name_count s) - 1) = Some (Inl (hn_handle (names s ! i)))"
      "hn_name (names s ! i) = name"
  | (missing) b where "b \<le> hs_name_count s"
      "name_search (hs_name s) name 0 (int (hs_name_count s) - 1) = Some (Inr (int b))"
      "\<forall>i<b. hn_name (names s ! i) < name"
      "\<forall>i. b \<le> i \<longrightarrow> i < hs_name_count s \<longrightarrow> name < hn_name (names s ! i)"
  using name_search_spec [OF assms, of 0 "int (hs_name_count s) - 1" name] by auto

lemma name_map_unique:
  assumes "name_inv s" "i < hs_name_count s"
  shows "name_map (names s) (hn_name (names s ! i)) = Some (hn_handle (names s ! i))"
proof -
  have "distinct (map hn_name (names s))"
    using assms by (simp add: name_inv_def strict_sorted_iff)
  then show ?thesis using assms
    by (auto simp: name_map_def map_of_eq_Some_iff comp_def image_iff intro!: bexI [of _ "names s ! i"])
qed

lemma name_map_none: "(\<forall>i<length xs. hn_name (xs ! i) \<noteq> k) \<Longrightarrow> name_map xs k = None"
  by (auto simp: name_map_def map_of_eq_None_iff in_set_conv_nth)

lemma name_lookup_map: "name_inv s \<Longrightarrow> name_lookup s = name_map (names s)"
proof
  fix name assume inv: "name_inv s"
  show "name_lookup s name = name_map (names s) name"
    using inv
  proof (cases rule: name_search_cases [of _ name])
    case (found i)
    with name_map_unique [OF inv] show ?thesis by (auto simp: name_lookup_def)
  next
    case (missing b)
    then have "hn_name (names s ! i) \<noteq> name" if "i < hs_name_count s" for i
      using that by (metis less_irrefl linorder_not_less)
    with inv have "name_map (names s) name = None" by (intro name_map_none) auto
    with missing show ?thesis by (simp add: name_lookup_def)
  qed
qed

lemma shift_up_spec:
  "before \<le> i \<Longrightarrow> i < length a \<Longrightarrow> \<exists>a'. shift_up a i before = Some a' \<and> length a' = length a \<and>
     (\<forall>j<length a. a' ! j = (if before < j \<and> j \<le> i then a ! (j - 1) else a ! j))"
proof (induction i arbitrary: a)
  case 0
  then show ?case by (simp add: shift_up.simps)
next
  case (Suc i)
  show ?case
  proof (cases "before = Suc i")
    case True
    then show ?thesis by (intro exI [of _ a]) (auto simp: shift_up.simps)
  next
    case False
    let ?a = "a[Suc i := a ! i]"
    have S: "shift_up a (Suc i) before = shift_up ?a i before"
      using False Suc.prems by (simp add: shift_up.simps [of a])
    obtain a' where a': "shift_up ?a i before = Some a'" "length a' = length a"
      "\<forall>j<length a. a' ! j = (if before < j \<and> j \<le> i then ?a ! (j - 1) else ?a ! j)"
      using Suc.IH [of ?a] Suc.prems False by auto
    then have "a' ! j = (if before < j \<and> j \<le> Suc i then a ! (j - 1) else a ! j)" if "j < length a" for j
      using that False Suc.prems by (auto simp: nth_upd_if le_Suc_eq)
    with S a' show ?thesis by auto
  qed
qed

lemma insert_name_before_spec:
  assumes inv: "name_inv s" and b: "before \<le> hs_name_count s" and room: "hs_name_count s < MAX_SLOT_SIZE"
  obtains cap a where "insert_name_before s name handle before =
      Some (s\<lparr>hs_name_cap := cap, hs_name := a, hs_name_count := hs_name_count s + 1\<rparr>)"
    "length a = cap" "hs_name_count s < cap" "cap \<le> MAX_SLOT_SIZE" "\<exists>k. cap = 2 ^ k"
    "take (hs_name_count s + 1) a =
      map Some (take before (names s) @ \<lparr>hn_name = name, hn_handle = handle\<rparr> # drop before (names s))"
proof -
  let ?n = "hs_name_count s" and ?x = "\<lparr>hn_name = name, hn_handle = handle\<rparr>"
  have cells: "hs_name s ! i = Some (names s ! i)" if "i < ?n" for i using that names_nth [OF inv] by simp
  from inv obtain k where k: "hs_name_cap s = 2 ^ k" "length (hs_name s) = 2 ^ k" "?n \<le> 2 ^ k"
    by (auto simp: name_inv_def)
  show ?thesis
  proof (cases "?n \<ge> hs_name_cap s")
    case True
    then have n: "?n = 2 ^ k" using k by simp
    with room have "(2::nat) ^ k < 2 ^ 30" by (simp add: MAX_SLOT_SIZE_def)
    then have "k < 30" by (simp only: power_strict_increasing_iff)
    then have "(2::nat) ^ Suc k \<le> 2 ^ 30" by (intro power_increasing) auto
    then have cap: "(2::nat) ^ k * 2 \<le> MAX_SLOT_SIZE" by (simp add: MAX_SLOT_SIZE_def)
    let ?a = "(map Some (take before (names s)) @ [None] @ map Some (drop before (names s)) @
       replicate (2 ^ k * 2 - ?n - 1) None)"
    have lo: "those (map (array_get (hs_name s)) [0..<before]) = Some (map Some (take before (names s)))"
      using b inv cells k
      by (subst those_map_Some [where g = "\<lambda>i. Some (names s ! i)"])
         (auto simp: array_get_def intro!: nth_equalityI)
    have hi: "those (map (array_get (hs_name s)) [before..<?n]) = Some (map Some (drop before (names s)))"
      using b inv cells k
      by (subst those_map_Some [where g = "\<lambda>i. Some (names s ! i)"])
         (auto simp: array_get_def intro!: nth_equalityI)
    have "insert_name_before s name handle before =
      Some (s\<lparr>hs_name_cap := 2 ^ k * 2, hs_name := ?a[before := Some ?x], hs_name_count := ?n + 1\<rparr>)"
      using True k lo hi cap inv b by (simp add: insert_name_before_def)
    moreover define ys where "ys = map Some (take before (names s) @ ?x # drop before (names s))"
    have ys: "length ys = ?n + 1" using b inv by (simp add: ys_def)
    have a: "?a[before := Some ?x] = ys @ replicate (2 ^ k * 2 - ?n - 1) None"
      using b inv by (simp add: list_update_append ys_def)
    moreover have "\<exists>m. (2::nat) ^ k * 2 = 2 ^ m" by (rule exI [of _ "Suc k"]) simp
    moreover have "?n < 2 ^ k * 2" using n by simp
    moreover have "take (?n + 1) (ys @ replicate (2 ^ k * 2 - ?n - 1) None) = ys" using ys by simp
    moreover have "length (ys @ replicate (2 ^ k * 2 - ?n - 1) None) = 2 ^ k * 2"
      using ys \<open>?n < 2 ^ k * 2\<close> by simp
    ultimately show ?thesis using cap unfolding ys_def
      by (intro that [of "map Some (take before (names s) @ ?x # drop before (names s)) @ replicate (2 ^ k * 2 - ?n - 1) None" "2 ^ k * 2"]) metis+
  next
    case False
    with k have n: "?n < length (hs_name s)" by simp
    have max: "2 ^ k \<le> MAX_SLOT_SIZE" using inv k by (simp add: name_inv_def)
    from b n obtain a where a: "shift_up (hs_name s) ?n before = Some a" "length a = 2 ^ k"
      "\<forall>j<length (hs_name s). a ! j = (if before < j \<and> j \<le> ?n then hs_name s ! (j - 1) else hs_name s ! j)"
      using shift_up_spec [of before ?n "hs_name s"] k by auto
    then have "insert_name_before s name handle before =
      Some (s\<lparr>hs_name_cap := 2 ^ k, hs_name := a[before := Some ?x], hs_name_count := ?n + 1\<rparr>)"
      using False k b by (simp add: insert_name_before_def)
    moreover have "take (?n + 1) (a[before := Some ?x]) =
        map Some (take before (names s) @ ?x # drop before (names s))"
    proof (rule nth_equalityI)
      show "length (take (?n + 1) (a[before := Some ?x])) =
          length (map Some (take before (names s) @ ?x # drop before (names s)))"
        using a n b inv k by simp
      fix j assume "j < length (take (?n + 1) (a[before := Some ?x]))"
      then have "j < ?n + 1" "j < length a" by auto
      then show "take (?n + 1) (a[before := Some ?x]) ! j =
          map Some (take before (names s) @ ?x # drop before (names s)) ! j"
        using a n b inv k cells [of j] cells [of "j - 1"]
        by (auto simp: nth_append nth_upd_if nth_Cons' not_less)
    qed
    ultimately show ?thesis using a n k max by (intro that [of "a[before := Some ?x]" "2 ^ k"]) auto
  qed
qed

text \<open>What \<open>_insert_name\<close> does on a well-formed table: \<open>NULL\<close> for a name in use, else an insertion that
  keeps the table sorted.\<close>

lemma name_inv_insert:
  assumes inv: "name_inv s" and b: "b \<le> hs_name_count s"
    and lo: "\<forall>i<b. hn_name (names s ! i) < name"
    and hi: "\<forall>i. b \<le> i \<longrightarrow> i < hs_name_count s \<longrightarrow> name < hn_name (names s ! i)"
  shows "sorted_wrt (<) (map hn_name (take b (names s) @ \<lparr>hn_name = name, hn_handle = h\<rparr> # drop b (names s)))"
proof -
  have st: "sorted_wrt (<) (map hn_name (names s))" using inv by (simp add: name_inv_def)
  have lo': "x < name" if "x \<in> set (map hn_name (take b (names s)))" for x
    using that lo b inv by (auto simp: in_set_conv_nth)
  have hi': "name < x" if "x \<in> set (map hn_name (drop b (names s)))" for x
    using that hi b inv by (auto simp: in_set_conv_nth)
  have "sorted_wrt (<) (map hn_name (take b (names s)))" "sorted_wrt (<) (map hn_name (drop b (names s)))"
    using st by (auto simp: sorted_wrt_map take_map drop_map intro: sorted_wrt_take sorted_wrt_drop)
  with lo' hi' show ?thesis by (fastforce simp: sorted_wrt_append)
qed

lemma name_map_insert:
  assumes "\<forall>x \<in> set (take b xs). hn_name x \<noteq> name"
  shows "name_map (take b xs @ \<lparr>hn_name = name, hn_handle = h\<rparr> # drop b xs) = (name_map xs)(name \<mapsto> h)"
proof -
  have "name_map xs = map_of (map (\<lambda>n. (hn_name n, hn_handle n)) (take b xs @ drop b xs))"
    by (simp add: name_map_def)
  then have "name_map xs = map_of (map (\<lambda>n. (hn_name n, hn_handle n)) (drop b xs)) ++
     map_of (map (\<lambda>n. (hn_name n, hn_handle n)) (take b xs))"
    by (simp only: map_append map_of_append)
  moreover have "map_of (map (\<lambda>n. (hn_name n, hn_handle n)) (take b xs)) name = None"
    using assms by (auto simp: map_of_eq_None_iff)
  ultimately show ?thesis by (auto simp: name_map_def fun_eq_iff map_add_def split: option.split)
qed

lemma insert_name_spec:
  assumes inv: "name_inv s" and room: "hs_name_count s < MAX_SLOT_SIZE"
  shows "case name_lookup s name of
      Some _ \<Rightarrow> insert_name s name h = Some (None, s)
    | None \<Rightarrow> \<exists>cap a. let s' = s\<lparr>hs_name_cap := cap, hs_name := a, hs_name_count := hs_name_count s + 1\<rparr> in
        insert_name s name h = Some (Some name, s') \<and> name_inv s' \<and>
        name_lookup s' = (name_lookup s)(name \<mapsto> h)"
  using inv
proof (cases rule: name_search_cases [of _ name])
  case (found i)
  then show ?thesis by (simp add: name_lookup_def insert_name_def)
next
  case (missing b)
  obtain cap a where ca: "insert_name_before s name h b =
      Some (s\<lparr>hs_name_cap := cap, hs_name := a, hs_name_count := hs_name_count s + 1\<rparr>)"
    "length a = cap" "hs_name_count s < cap" "cap \<le> MAX_SLOT_SIZE" "\<exists>k. cap = 2 ^ k"
    "take (hs_name_count s + 1) a =
      map Some (take b (names s) @ \<lparr>hn_name = name, hn_handle = h\<rparr> # drop b (names s))"
    using insert_name_before_spec [OF inv missing(1) room, of name h] by metis
  let ?s = "s\<lparr>hs_name_cap := cap, hs_name := a, hs_name_count := hs_name_count s + 1\<rparr>"
  have n: "names ?s = take b (names s) @ \<lparr>hn_name = name, hn_handle = h\<rparr> # drop b (names s)"
    using ca(6) by (simp add: names_def comp_def)
  have cells: "a ! i \<noteq> None" if "i < hs_name_count s + 1" for i
  proof -
    have "take (hs_name_count s + 1) a ! i \<in> set (take (hs_name_count s + 1) a)"
      using that ca(2,3) by (intro nth_mem) simp
    then have "a ! i \<in> set (take (hs_name_count s + 1) a)" using that by (simp only: nth_take)
    then show ?thesis unfolding ca(6) by auto
  qed
  have inv': "name_inv ?s"
    unfolding name_inv_def n using ca(2-5) cells name_inv_insert [OF inv missing(1,3,4), of h] by simp
  have "\<forall>x \<in> set (take b (names s)). hn_name x \<noteq> name"
    using missing(1,3) inv by (force simp: in_set_conv_nth)
  then have "name_lookup ?s = (name_lookup s)(name \<mapsto> h)"
    unfolding name_lookup_map [OF inv] name_lookup_map [OF inv'] n by (rule name_map_insert)
  then show ?thesis using ca(1) missing(2) inv' by (auto simp: name_lookup_def insert_name_def Let_def)
qed

definition names_insert :: "string \<Rightarrow> u32 \<Rightarrow> handle_storage \<Rightarrow> handle_storage option" where
  "names_insert name h s = (case skynet_handle_namehandle h name s of Some (Some _, s') \<Rightarrow> Some s' | _ \<Rightarrow> None)"

lemma insert_name_full:
  "name_inv s \<Longrightarrow> \<not> hs_name_count s < MAX_SLOT_SIZE \<Longrightarrow> names_insert name h s = None"
proof -
  assume inv: "name_inv s" and full: "\<not> hs_name_count s < MAX_SLOT_SIZE"
  then have "insert_name_before s name h b = None" for b
    by (simp add: insert_name_before_def name_inv_def MAX_SLOT_SIZE_def assert_opt_def)
  then show ?thesis
    by (cases rule: name_search_cases [OF inv, of name])
       (simp_all add: names_insert_def skynet_handle_namehandle_def insert_name_def)
qed

lemma name_inv_init: "name_inv (skynet_handle_init harbor)"
  by (simp add: name_inv_def skynet_handle_init_def names_def MAX_SLOT_SIZE_def exI [of _ 1])

lemma name_lookup_init: "name_lookup (skynet_handle_init harbor) k = None"
  by (simp add: name_lookup_map name_inv_init) (simp add: names_def skynet_handle_init_def name_map_def)

interpretation dir: unique_map "skynet_handle_init harbor" names_insert name_lookup name_inv
  hs_name_count MAX_SLOT_SIZE for harbor
proof unfold_locales
  show "name_inv (skynet_handle_init harbor)" by (rule name_inv_init)
  show "name_lookup (skynet_handle_init harbor) k = None" for k by (rule name_lookup_init)
  show "hs_name_count (skynet_handle_init harbor) = 0" by (simp add: skynet_handle_init_def)
  show "name_inv s \<Longrightarrow> \<not> hs_name_count s < MAX_SLOT_SIZE \<Longrightarrow> names_insert k v s = None" for s k v
    by (rule insert_name_full)
  fix s :: handle_storage and k :: string and v :: u32
  assume inv: "name_inv s"
  show "\<exists>s'. names_insert k v s = Some s' \<and> name_inv s' \<and> name_lookup s' = (name_lookup s)(k \<mapsto> v) \<and>
      hs_name_count s' \<le> Suc (hs_name_count s)" if "name_lookup s k = None" "hs_name_count s < MAX_SLOT_SIZE"
    using insert_name_spec [OF inv that(2), of k v] that(1)
    by (auto simp: names_insert_def skynet_handle_namehandle_def Let_def)
  show "names_insert k v s = None" if "name_lookup s k \<noteq> None"
    using insert_name_spec [OF inv, of k v] that insert_name_full [OF inv, of k v]
    by (cases "hs_name_count s < MAX_SLOT_SIZE")
       (auto simp: names_insert_def skynet_handle_namehandle_def Let_def)
qed

text \<open>Registering names one after the other.\<close>

fun register_names :: "(string \<times> u32) list \<Rightarrow> handle_storage \<Rightarrow> handle_storage" where
  "register_names [] s = s"
| "register_names ((name, h) # kvs) s =
     register_names kvs (case names_insert name h s of None \<Rightarrow> s | Some s' \<Rightarrow> s')"

lemma register_names_eq: "register_names kvs s = dir.insert_all kvs s"
  by (induction kvs s rule: register_names.induct) simp_all

text \<open>Retiring compacts the names in place.\<close>

lemma compact_names_spec:
  assumes "j \<le> i" "i \<le> n" "n \<le> length a" "\<forall>k. i \<le> k \<longrightarrow> k < n \<longrightarrow> a ! k \<noteq> None"
  shows "\<exists>a'. compact_names h i n j a =
      Some (j + length (filter (\<lambda>x. hn_handle x \<noteq> h) (map the (drop i (take n a)))), a') \<and>
    length a' = length a \<and>
    take (j + length (filter (\<lambda>x. hn_handle x \<noteq> h) (map the (drop i (take n a))))) a' =
      take j a @ map Some (filter (\<lambda>x. hn_handle x \<noteq> h) (map the (drop i (take n a))))"
  using assms
proof (induction "n - i" arbitrary: i j a)
  case 0
  then show ?case by (auto simp: compact_names.simps)
next
  case (Suc m)
  then have i: "i < n" "i < length a" by auto
  then obtain x where x: "a ! i = Some x" using Suc.prems(4) by auto
  have d: "drop i (take n a) = Some x # drop (Suc i) (take n a)"
    using i x by (metis Cons_nth_drop_Suc length_take min_less_iff_conj nth_take)
  show ?case
  proof (cases "hn_handle x = h")
    case True
    then have "compact_names h i n j a = compact_names h (i + 1) n j a"
      using i x by (subst compact_names.simps) simp
    with Suc.hyps(1) [of "i + 1" j a] Suc.hyps(2) Suc.prems i True d show ?thesis by auto
  next
    case False
    let ?a = "a[j := Some x]"
    have "(if i \<noteq> j then array_set a j (Some x) else Some a) = Some ?a"
      using i x Suc.prems list_update_id [of a j] by (auto simp del: list_update_id)
    then have S: "compact_names h i n j a = compact_names h (i + 1) n (j + 1) ?a"
      using i x False by (subst compact_names.simps) simp
    have "drop (i + 1) (take n ?a) = drop (i + 1) (take n a)"
      using Suc.prems i by (simp add: take_update_swap drop_update_cancel)
    moreover have "take (j + 1) ?a = take j a @ [Some x]"
      using Suc.prems i by (simp add: take_Suc_conv_app_nth)
    moreover have "\<forall>k. i + 1 \<le> k \<longrightarrow> k < n \<longrightarrow> ?a ! k \<noteq> None" using Suc.prems by auto
    ultimately show ?thesis using Suc.hyps(1) [of "i + 1" "j + 1" ?a] Suc.hyps(2) Suc.prems i False d S by auto
  qed
qed

subsection \<open>The table of contexts\<close>

definition contexts :: "handle_storage \<Rightarrow> addr set" where
  "contexts s = {c. Some c \<in> set (hs_slot s)}"

definition slot_ok :: "(addr \<Rightarrow> u32) \<Rightarrow> u32 \<Rightarrow> nat \<Rightarrow> ptr list \<Rightarrow> bool" where
  "slot_ok ch harbor sz slot \<longleftrightarrow> length slot = sz \<and>
     (\<forall>i < sz. \<forall>c. slot ! i = Some c \<longrightarrow> slot_hash (ch c) sz = i \<and> ch c AND HANDLE_MASK \<noteq> 0 \<and>
        ch c AND NOT HANDLE_MASK = harbor)"

definition handle_inv :: "(addr \<Rightarrow> u32) \<Rightarrow> handle_storage \<Rightarrow> bool" where
  "handle_inv ch s \<longleftrightarrow> (\<exists>k. 1 < k \<and> k \<le> 24 \<and> hs_slot_size s = 2 ^ k) \<and>
     slot_ok ch (hs_harbor s) (hs_slot_size s) (hs_slot s) \<and>
     hs_harbor s AND HANDLE_MASK = 0 \<and>
     0 < hs_handle_index s \<and> hs_handle_index s \<le> HANDLE_MASK + 1"

lemma HANDLE_MASK_mask: "HANDLE_MASK = mask 24"
  by (simp add: HANDLE_MASK_def mask_eq_exp_minus_1)

lemma slot_hash_mask: "slot_hash h (2 ^ k) = unat (h AND mask k)"
  by (simp add: slot_hash_def mask_eq_exp_minus_1 of_nat_diff)

lemma slot_hash_mod: "slot_hash h (2 ^ k) = unat h mod 2 ^ k"
  by (simp only: slot_hash_mask take_bit_eq_mask [symmetric] unsigned_take_bit_eq) (rule take_bit_eq_mod)

lemma slot_hash_less [simp]: "slot_hash h (2 ^ k) < 2 ^ k"
  by (simp add: slot_hash_mod)

lemma slot_hash_harbor:
  assumes "harbor AND HANDLE_MASK = 0" "k \<le> 24"
  shows "slot_hash (h OR harbor) (2 ^ k) = slot_hash h (2 ^ k)"
proof -
  have "harbor AND mask k = (harbor AND HANDLE_MASK) AND mask k"
    using assms(2) by (auto simp: HANDLE_MASK_mask bit_eq_iff bit_simps)
  with assms(1) have "harbor AND mask k = 0" by simp
  then show ?thesis by (simp add: slot_hash_mask bit.conj_disj_distrib2)
qed

lemma harbor_parts:
  assumes "harbor AND HANDLE_MASK = 0" "h \<le> HANDLE_MASK"
  shows "(h OR harbor) AND HANDLE_MASK = h" "(h OR harbor) AND NOT HANDLE_MASK = harbor"
proof -
  have "unat h < 2 ^ 24" using assms(2) by (simp add: word_le_nat_alt HANDLE_MASK_def)
  then have "unat (take_bit 24 h) = unat h" by (simp add: unsigned_take_bit_eq take_bit_nat_eq_self)
  then have "take_bit 24 h = h" by (simp only: word_unat_eq_iff)
  then have h: "h AND HANDLE_MASK = h" by (simp add: HANDLE_MASK_mask take_bit_eq_mask)
  with assms(1) show "(h OR harbor) AND HANDLE_MASK = h" by (simp add: bit.conj_disj_distrib2)
  have "h AND NOT HANDLE_MASK = 0" using h by (metis and.assoc bit.conj_cancel_right bit.conj_zero_right)
  moreover have "harbor AND NOT HANDLE_MASK = harbor"
    using assms(1) by (auto simp: bit_eq_iff bit_simps)
  ultimately show "(h OR harbor) AND NOT HANDLE_MASK = harbor" by (simp add: bit.conj_disj_distrib2)
qed

text \<open>The handles that the probing loop visits: \<open>1 .. HANDLE_MASK\<close> cyclically.\<close>

definition visit :: "nat \<Rightarrow> nat \<Rightarrow> nat" where
  "visit h i = (h - 1 + i) mod unat HANDLE_MASK + 1"

lemma visit_covers:
  assumes "k \<le> 24" "0 < h" "h \<le> unat HANDLE_MASK + 1" "0 < r" "r < 2 ^ k"
  obtains i where "i < 2 ^ k" "visit h i mod 2 ^ k = r"
proof -
  define M where "M = unat HANDLE_MASK"
  define S :: nat where "S = 2 ^ k"
  obtain q where q: "M + 1 = S * q"
    using assms(1) by (auto simp: M_def S_def HANDLE_MASK_def simp flip: power_add
      intro!: that [of "2 ^ (24 - k)"])
  have M: "0 < M" by (simp add: M_def HANDLE_MASK_def)
  define a where "a = (h - 1) mod M"
  have a: "a < M" using M by (simp add: a_def)
  have vis: "visit h i = (a + i) mod M + 1" for i by (simp add: visit_def a_def M_def mod_simps)
  have SM: "S \<le> M + 1" using q by (cases q) auto
  show ?thesis
  proof (cases "a + S \<le> M")
    case True
    define i where "i = (r + S - (a + 1) mod S) mod S"
    have "i < S" by (simp add: i_def S_def)
    moreover have "(a + i + 1) mod S = r"
    proof -
      have "(a + i + 1) mod S = ((a + 1) mod S + (r + S - (a + 1) mod S)) mod S"
        by (metis (no_types) add.assoc add.commute i_def mod_add_left_eq mod_add_right_eq)
      also have "\<dots> = (r + S) mod S"
        using mod_less_divisor [of S "a + 1"] by (simp add: S_def del: mod_less_divisor)
      also have "\<dots> = r" using assms(5) by (simp add: S_def)
      finally show ?thesis .
    qed
    ultimately show ?thesis using True by (intro that [of i]) (auto simp: vis S_def)
  next
    case False
    show ?thesis
    proof (cases "r \<le> a + S - M")
      case True
      have "a + (r - 1 + M - a) = r - 1 + M" "r - 1 < M" using a True assms(4,5) SM by (auto simp: S_def)
      moreover have "(r - 1 + M) mod M = r - 1" using \<open>r - 1 < M\<close> by (simp only: mod_add_self2 mod_less)
      ultimately have "visit h (r - 1 + M - a) = r" using assms(4) by (simp only: vis)
      with True a False assms show ?thesis by (intro that [of "r - 1 + M - a"]) (auto simp: S_def)
    next
      case F: False
      define v where "v = r + M + 1 - S"
      have v: "a < v" "v \<le> M" using F False assms(5) SM by (auto simp: v_def S_def)
      then have "visit h (v - 1 - a) = v" by (simp add: vis)
      moreover have "v mod S = r"
      proof -
        have "v + S = r + S * q" using SM by (simp add: v_def q [symmetric])
        then have "(v + S) mod S = r mod S" by simp
        then show ?thesis using assms(5) by (simp add: S_def)
      qed
      moreover have "v - 1 - a < S" using v False a SM by (auto simp: v_def)
      ultimately show ?thesis by (intro that [of "v - 1 - a"]) (auto simp: S_def)
    qed
  qed
qed

lemma find_slot_total:
  assumes "length slot = 2 ^ k"
  shows "find_slot slot (2 ^ k) n h \<noteq> None"
  using assms by (induction n arbitrary: h) (auto simp: Let_def)

lemma find_slot_Some:
  assumes "find_slot slot (2 ^ k) n h = Some (Some (h', hash))" "length slot = 2 ^ k" "0 < h"
  shows "0 < h' \<and> h' \<le> HANDLE_MASK \<and> hash = slot_hash h' (2 ^ k) \<and> slot ! hash = None"
  using assms
proof (induction n arbitrary: h)
  case (Suc n)
  have z: "0 < (if h > HANDLE_MASK then 1 else h) + 1" "0 < (if h > HANDLE_MASK then 1 else h)"
      "(if h > HANDLE_MASK then 1 else h) \<le> HANDLE_MASK"
    using Suc.prems(3) by (auto simp: HANDLE_MASK_def word_less_nat_alt word_le_nat_alt unat_word_ariths)
  then show ?case using Suc.prems Suc.IH by (auto simp: Let_def split: if_splits)
qed simp

lemma visit_Suc:
  assumes "0 < h" "h \<le> HANDLE_MASK + 1"
  shows "visit (unat h) 0 = unat (if h > HANDLE_MASK then 1 else h)"
    and "visit (unat h) (Suc i) = visit (unat ((if h > HANDLE_MASK then 1 else h) + 1)) i"
proof -
  have h: "0 < unat h" "unat h \<le> 16777216"
    using assms by (auto simp: HANDLE_MASK_def word_less_nat_alt word_le_nat_alt)
  have m: "h > HANDLE_MASK \<longleftrightarrow> unat h = 16777216"
    using h by (auto simp: HANDLE_MASK_def word_less_nat_alt)
  show "visit (unat h) 0 = unat (if h > HANDLE_MASK then 1 else h)"
    using h unfolding m by (auto simp: visit_def HANDLE_MASK_def)
  show "visit (unat h) (Suc i) = visit (unat ((if h > HANDLE_MASK then 1 else h) + 1)) i"
  proof (cases "unat h = 16777216")
    case True
    have "(16777216 + i) mod 16777215 = (16777215 + (1 + i)) mod 16777215" by simp
    also have "\<dots> = Suc i mod 16777215" by (subst mod_add_self1) simp
    finally show ?thesis using True unfolding m by (simp add: visit_def HANDLE_MASK_def)
  next
    case False
    then show ?thesis using h unfolding m by (simp add: visit_def HANDLE_MASK_def unat_word_ariths)
  qed
qed

lemma find_slot_None:
  assumes "find_slot slot (2 ^ k) n h = Some None" "length slot = 2 ^ k" "0 < h" "h \<le> HANDLE_MASK + 1"
  shows "i < n \<Longrightarrow> slot ! (visit (unat h) i mod 2 ^ k) \<noteq> None"
  using assms
proof (induction n arbitrary: h i)
  case (Suc n)
  let ?h = "if h > HANDLE_MASK then 1 else h"
  have z: "0 < ?h + 1" "?h + 1 \<le> HANDLE_MASK + 1"
    using Suc.prems(3,4,5) by (auto simp: HANDLE_MASK_def word_less_nat_alt word_le_nat_alt unat_word_ariths)
  have "slot ! slot_hash ?h (2 ^ k) \<noteq> None" "find_slot slot (2 ^ k) n (?h + 1) = Some None"
    using Suc.prems(2,3) by (auto simp: Let_def split: if_splits)
  with Suc.IH [of "i - 1" "?h + 1"] Suc.prems z visit_Suc [OF Suc.prems(4,5)] show ?case
    by (cases i) (auto simp: slot_hash_mod)
qed simp

text \<open>Rehashing never meets an occupied cell, because handles in different cells of the small table
  differ in their low bits.\<close>

lemma rehash_spec:
  assumes "length new_slot = 2 ^ k"
    and "distinct (map (\<lambda>c. slot_hash (ch c) (2 ^ k)) (map the (filter (\<lambda>c. c \<noteq> None) cs)))"
    and "\<forall>c. Some c \<in> set cs \<longrightarrow> new_slot ! slot_hash (ch c) (2 ^ k) = None"
  shows "\<exists>slot'. rehash ch (2 ^ k) cs new_slot = Some slot' \<and> length slot' = 2 ^ k \<and>
    (\<forall>i < 2 ^ k. \<forall>c. slot' ! i = Some c \<longleftrightarrow>
       new_slot ! i = Some c \<or> Some c \<in> set cs \<and> slot_hash (ch c) (2 ^ k) = i)"
  using assms
proof (induction ch "2 ^ k :: nat" cs new_slot rule: rehash.induct)
  case (1 ch new_slot)
  then show ?case by simp
next
  case (2 ch cs new_slot)
  then show ?case by simp
next
  case (3 ch c cs new_slot)
  let ?h = "slot_hash (ch c) (2 ^ k)"
  have "?h \<noteq> slot_hash (ch c') (2 ^ k)" if "Some c' \<in> set cs" for c'
    using 3(3) that by (auto simp: image_iff)
  then have free: "\<forall>c'. Some c' \<in> set cs \<longrightarrow> new_slot[?h := Some c] ! slot_hash (ch c') (2 ^ k) = None"
    using 3(4) by auto
  have old: "new_slot ! ?h = None" using 3(4) by simp
  obtain slot' where s': "rehash ch (2 ^ k) cs (new_slot[?h := Some c]) = Some slot'" "length slot' = 2 ^ k"
    "\<forall>i < 2 ^ k. \<forall>c'. slot' ! i = Some c' \<longleftrightarrow>
       new_slot[?h := Some c] ! i = Some c' \<or> Some c' \<in> set cs \<and> slot_hash (ch c') (2 ^ k) = i"
    using 3(1) [OF refl, of None "()"] 3(2,3) old free by auto
  then show ?case using 3(2) old by (intro exI [of _ slot']) (auto simp: nth_upd_if)
qed

lemma grow_slots_spec:
  assumes inv: "handle_inv ch s" and sz: "hs_slot_size s < 2 ^ 24"
  obtains slot' where "grow_slots ch s = Some (s\<lparr>hs_slot := slot', hs_slot_size := hs_slot_size s * 2\<rparr>)"
    "handle_inv ch (s\<lparr>hs_slot := slot', hs_slot_size := hs_slot_size s * 2\<rparr>)"
    "\<forall>c. Some c \<in> set slot' \<longleftrightarrow> Some c \<in> set (hs_slot s)"
proof -
  from inv obtain k where k: "1 < k" "k \<le> 24" "hs_slot_size s = 2 ^ k" "length (hs_slot s) = 2 ^ k"
    by (auto simp: handle_inv_def slot_ok_def)
  with sz have k24: "k < 24" by (cases "k = 24") auto
  then have "(2::nat) ^ Suc k \<le> 2 ^ 24" by (intro power_increasing) auto
  then have room: "2 ^ k * 2 - 1 \<le> unat HANDLE_MASK" by (simp add: HANDLE_MASK_def)
  have old: "slot_hash (ch c) (2 ^ k) = i" if "i < 2 ^ k" "hs_slot s ! i = Some c" for i c
    using inv that k by (auto simp: handle_inv_def slot_ok_def)
  let ?cs = "filter (\<lambda>c. c \<noteq> None) (hs_slot s)"
  have dist: "distinct (map (\<lambda>c. slot_hash (ch c) (2 ^ Suc k)) (map the ?cs))"
  proof -
    have "map (\<lambda>c. slot_hash (ch c) (2 ^ k)) (map the ?cs) =
        filter (\<lambda>i. hs_slot s ! i \<noteq> None) [0..<2 ^ k]"
    proof -
      have "?cs = map (nth (hs_slot s)) (filter (\<lambda>i. hs_slot s ! i \<noteq> None) [0..<2 ^ k])"
        using k(4) by (metis (no_types, lifting) comp_def filter_cong filter_map map_nth)
      then show ?thesis using old by (auto intro!: map_idI)
    qed
    then have "distinct (map (\<lambda>c. slot_hash (ch c) (2 ^ k)) (map the ?cs))" by simp
    moreover have "map (\<lambda>c. slot_hash (ch c) (2 ^ k)) (map the ?cs) =
        map (\<lambda>i. i mod 2 ^ k) (map (\<lambda>c. slot_hash (ch c) (2 ^ Suc k)) (map the ?cs))"
      by (simp add: slot_hash_mod mod_mod_cancel le_imp_power_dvd del: power_Suc)
    ultimately show ?thesis by (metis distinct_map)
  qed
  obtain slot' where s': "rehash ch (2 ^ Suc k) (hs_slot s) (replicate (2 ^ Suc k) None) = Some slot'"
    "length slot' = 2 ^ Suc k"
    "\<forall>i < 2 ^ Suc k. \<forall>c. slot' ! i = Some c \<longleftrightarrow> Some c \<in> set (hs_slot s) \<and> slot_hash (ch c) (2 ^ Suc k) = i"
    using rehash_spec [of "replicate (2 ^ Suc k) None" "Suc k" ch "hs_slot s"] dist
    by (auto simp del: power_Suc)
  have mem: "Some c \<in> set slot' \<longleftrightarrow> Some c \<in> set (hs_slot s)" for c
    using s'(2,3) by (metis in_set_conv_nth slot_hash_less)
  have G: "grow_slots ch s = Some (s\<lparr>hs_slot := slot', hs_slot_size := hs_slot_size s * 2\<rparr>)"
    using k room s'(1) by (simp add: grow_slots_def mult.commute)
  have parts: "ch c AND HANDLE_MASK \<noteq> 0 \<and> ch c AND NOT HANDLE_MASK = hs_harbor s"
    if "Some c \<in> set (hs_slot s)" for c
    using inv that by (auto simp: handle_inv_def slot_ok_def in_set_conv_nth)
  have "slot_ok ch (hs_harbor s) (2 ^ Suc k) slot'" using s'(2,3) parts by (auto simp: slot_ok_def)
  then have "handle_inv ch (s\<lparr>hs_slot := slot', hs_slot_size := hs_slot_size s * 2\<rparr>)"
    using inv k k24 by (auto simp: handle_inv_def mult.commute intro!: exI [of _ "Suc k"])
  with G mem show ?thesis by (intro that) auto
qed

text \<open>Grabbing a handle as a lookup.\<close>

lemma grab_iff:
  assumes "handle_inv ch s"
  shows "skynet_handle_grab ch h s = Some (Some c) \<longleftrightarrow> Some c \<in> set (hs_slot s) \<and> ch c = h"
    and "skynet_handle_grab ch h s \<noteq> None"
proof -
  from assms obtain k where k: "hs_slot_size s = 2 ^ k" "length (hs_slot s) = 2 ^ k"
    and ok: "\<forall>i < 2 ^ k. \<forall>c. hs_slot s ! i = Some c \<longrightarrow> slot_hash (ch c) (2 ^ k) = i"
    by (auto simp: handle_inv_def slot_ok_def)
  let ?i = "slot_hash h (2 ^ k)"
  have g: "skynet_handle_grab ch h s = Some (case hs_slot s ! ?i of Some ctx \<Rightarrow>
      if ch ctx = h then Some ctx else None | None \<Rightarrow> None)"
    using k by (simp add: skynet_handle_grab_def)
  show "skynet_handle_grab ch h s \<noteq> None" by (simp add: g)
  show "skynet_handle_grab ch h s = Some (Some c) \<longleftrightarrow> Some c \<in> set (hs_slot s) \<and> ch c = h"
    using k ok by (force simp: g in_set_conv_nth split: option.splits)
qed

lemma grab_None_iff:
  "handle_inv ch s \<Longrightarrow> skynet_handle_grab ch h s = Some None \<longleftrightarrow>
     (\<forall>c. Some c \<in> set (hs_slot s) \<longrightarrow> ch c \<noteq> h)"
  using grab_iff [of ch s h] by (cases "skynet_handle_grab ch h s") (metis not_None_eq option.inject)+

text \<open>Two storages with the same contexts answer every grab alike.\<close>

lemma grab_cong:
  assumes "handle_inv ch s" "handle_inv ch' s'"
    and "\<And>c. Some c \<in> set (hs_slot s') \<and> ch' c = h \<longleftrightarrow> Some c \<in> set (hs_slot s) \<and> ch c = h"
  shows "skynet_handle_grab ch' h s' = skynet_handle_grab ch h s"
proof (cases "skynet_handle_grab ch h s")
  case None
  with grab_iff(2) [OF assms(1), of h] show ?thesis by simp
next
  case (Some r)
  show ?thesis
  proof (cases r)
    case None
    with Some assms show ?thesis by (metis grab_None_iff)
  next
    case (Some c)
    with \<open>skynet_handle_grab ch h s = Some r\<close> assms show ?thesis by (metis grab_iff(1))
  qed
qed

lemma register_found:
  assumes inv: "handle_inv ch s" and fresh: "Some ctx \<notin> set (hs_slot s)"
    and f: "find_slot (hs_slot s) (hs_slot_size s) (hs_slot_size s) (hs_handle_index s) = Some (Some (h, hash))"
  defines "s' \<equiv> s\<lparr>hs_slot := (hs_slot s)[hash := Some ctx], hs_handle_index := h + 1\<rparr>"
    and "h' \<equiv> h OR hs_harbor s"
  shows "handle_inv (ch(ctx := h')) s'" "skynet_handle_grab ch h' s = Some None"
    "\<forall>c. Some c \<in> set (hs_slot s') \<longleftrightarrow> c = ctx \<or> Some c \<in> set (hs_slot s)"
    "h' AND NOT HANDLE_MASK = hs_harbor s" "h' AND HANDLE_MASK \<noteq> 0"
proof -
  from inv obtain k where k: "1 < k" "k \<le> 24" "hs_slot_size s = 2 ^ k" "length (hs_slot s) = 2 ^ k"
    by (auto simp: handle_inv_def slot_ok_def)
  have hb: "hs_harbor s AND HANDLE_MASK = 0" "0 < hs_handle_index s" using inv by (auto simp: handle_inv_def)
  have h: "0 < h" "h \<le> HANDLE_MASK" "hash = slot_hash h (2 ^ k)" "hs_slot s ! hash = None"
    using find_slot_Some [of "hs_slot s" k] f k hb by auto
  have hash: "hash = slot_hash h' (2 ^ k)" "hash < 2 ^ k"
    using h(3) slot_hash_harbor [OF hb(1) k(2)] by (simp_all add: h'_def)
  show parts: "h' AND NOT HANDLE_MASK = hs_harbor s" "h' AND HANDLE_MASK \<noteq> 0"
    using harbor_parts [OF hb(1) h(2)] h(1) by (simp_all add: h'_def word_gt_0)
  have idx: "0 < h + 1" "h + 1 \<le> HANDLE_MASK + 1"
    using h(1,2) by (auto simp: HANDLE_MASK_def word_less_nat_alt word_le_nat_alt unat_word_ariths)
  have "slot_ok (ch(ctx := h')) (hs_harbor s) (2 ^ k) ((hs_slot s)[hash := Some ctx])"
    using inv k fresh hash parts by (auto simp: handle_inv_def slot_ok_def nth_upd_if in_set_conv_nth)
  with inv k idx show "handle_inv (ch(ctx := h')) s'" by (auto simp: handle_inv_def s'_def)
  show "skynet_handle_grab ch h' s = Some None"
    using k h(4) hash by (simp add: skynet_handle_grab_def)
  have "set ((hs_slot s)[hash := Some ctx]) - {None} = insert (Some ctx) (set (hs_slot s)) - {None}"
    using h(4) hash(2) k(4) by (auto simp: set_conv_nth nth_upd_if) (metis option.distinct(1))+
  then show "\<forall>c. Some c \<in> set (hs_slot s') \<longleftrightarrow> c = ctx \<or> Some c \<in> set (hs_slot s)"
    by (auto simp: s'_def set_eq_iff)
qed

lemma find_slot_full:
  assumes "handle_inv ch s"
    and "find_slot (hs_slot s) (hs_slot_size s) (hs_slot_size s) (hs_handle_index s) = Some None"
    and "0 < r" "r < hs_slot_size s"
  shows "hs_slot s ! r \<noteq> None"
proof -
  from assms(1) obtain k where k: "k \<le> 24" "hs_slot_size s = 2 ^ k" "length (hs_slot s) = 2 ^ k"
    and i: "0 < hs_handle_index s" "hs_handle_index s \<le> HANDLE_MASK + 1"
    by (auto simp: handle_inv_def slot_ok_def)
  have "0 < unat (hs_handle_index s)" "unat (hs_handle_index s) \<le> unat HANDLE_MASK + 1"
    using i by (auto simp: HANDLE_MASK_def word_less_nat_alt word_le_nat_alt)
  then obtain j where j: "j < 2 ^ k" "visit (unat (hs_handle_index s)) j mod 2 ^ k = r"
    using visit_covers [OF k(1), of "unat (hs_handle_index s)" r] assms(3,4) k(2) by auto
  show ?thesis using find_slot_None [of "hs_slot s" k "2 ^ k" "hs_handle_index s" j] assms(2) k i j by auto
qed

lemma length_contexts:
  assumes "handle_inv ch s"
  shows "card (contexts s) = length (filter (\<lambda>c. c \<noteq> None) (hs_slot s))"
proof -
  from assms obtain k where k: "length (hs_slot s) = 2 ^ k"
    and ok: "\<forall>i < 2 ^ k. \<forall>c. hs_slot s ! i = Some c \<longrightarrow> slot_hash (ch c) (2 ^ k) = i"
    by (auto simp: handle_inv_def slot_ok_def)
  let ?I = "{i. i < 2 ^ k \<and> hs_slot s ! i \<noteq> None}"
  have "contexts s = (\<lambda>i. the (hs_slot s ! i)) ` ?I"
    using k by (force simp: contexts_def in_set_conv_nth image_iff)
  moreover have "inj_on (\<lambda>i. the (hs_slot s ! i)) ?I" using ok by (auto intro!: inj_onI) metis
  ultimately have "card (contexts s) = card ?I" by (simp add: card_image)
  then show ?thesis using k by (simp add: length_filter_conv_card)
qed

lemma find_slot_room:
  assumes inv: "handle_inv ch s" and "card (contexts s) < hs_slot_size s - 1"
  shows "find_slot (hs_slot s) (hs_slot_size s) (hs_slot_size s) (hs_handle_index s) \<noteq> Some None"
proof
  let ?n = "hs_slot_size s"
  assume none: "find_slot (hs_slot s) ?n ?n (hs_handle_index s) = Some None"
  have "{1..<?n} \<subseteq> {i. i < ?n \<and> hs_slot s ! i \<noteq> None}" using find_slot_full [OF inv none] by auto
  then have "card {1..<?n} \<le> card {i. i < ?n \<and> hs_slot s ! i \<noteq> None}" by (intro card_mono) auto
  moreover have "length (hs_slot s) = ?n" using inv by (simp add: handle_inv_def slot_ok_def)
  ultimately show False using assms(2) length_contexts [OF inv] by (simp add: length_filter_conv_card)
qed

lemma find_slot_defined:
  "handle_inv ch s \<Longrightarrow> find_slot (hs_slot s) (hs_slot_size s) n h \<noteq> None"
  unfolding handle_inv_def slot_ok_def using find_slot_total by metis

text \<open>The registration loop grows the table at most once.\<close>

lemma register_spec:
  assumes inv: "handle_inv ch s" and fresh: "ctx \<notin> contexts s" and room: "card (contexts s) < 2 ^ 24 - 1"
  obtains h s' where "skynet_handle_register ch ctx s = Some (h, s')"
    "handle_inv (ch(ctx := h)) s'" "skynet_handle_grab ch h s = Some None"
    "\<forall>c. Some c \<in> set (hs_slot s') \<longleftrightarrow> c = ctx \<or> Some c \<in> set (hs_slot s)"
    "h AND NOT HANDLE_MASK = hs_harbor s" "h AND HANDLE_MASK \<noteq> 0" "hs_harbor s' = hs_harbor s"
    "hs_name s' = hs_name s" "hs_name_count s' = hs_name_count s" "hs_name_cap s' = hs_name_cap s"
proof -
  obtain r where r: "find_slot (hs_slot s) (hs_slot_size s) (hs_slot_size s) (hs_handle_index s) = Some r"
    using find_slot_defined [OF inv] by blast
  show ?thesis
  proof (cases r)
    case (Some hh)
    with r obtain h hash where f: "find_slot (hs_slot s) (hs_slot_size s) (hs_slot_size s) (hs_handle_index s) =
      Some (Some (h, hash))" by (cases hh) auto
    have "Some ctx \<notin> set (hs_slot s)" using fresh by (simp add: contexts_def)
    note reg = register_found [OF inv this f]
    show ?thesis
      by (rule that [OF _ reg(1-5)]) (use f in \<open>simp_all add: skynet_handle_register.simps\<close>)
  next
    case None
    let ?n = "hs_slot_size s"
    have "?n < 2 ^ 24"
    proof (rule ccontr)
      assume "\<not> ?n < 2 ^ 24"
      then have "card (contexts s) < ?n - 1" using room by simp
      with find_slot_room [OF inv] r None show False by simp
    qed
    from inv this obtain slot' where g: "grow_slots ch s = Some (s\<lparr>hs_slot := slot', hs_slot_size := ?n * 2\<rparr>)"
      "handle_inv ch (s\<lparr>hs_slot := slot', hs_slot_size := ?n * 2\<rparr>)"
      "\<forall>c. Some c \<in> set slot' \<longleftrightarrow> Some c \<in> set (hs_slot s)" by (rule grow_slots_spec)
    let ?t = "s\<lparr>hs_slot := slot', hs_slot_size := ?n * 2\<rparr>"
    have ctxs: "contexts ?t = contexts s" using g(3) by (simp add: contexts_def)
    have "card (contexts s) \<le> length (hs_slot s)" by (simp add: length_contexts [OF inv])
    moreover have "length (hs_slot s) = ?n" "1 < ?n" using inv one_less_power [of "2::nat"]
      by (auto simp: handle_inv_def slot_ok_def)
    ultimately have "card (contexts ?t) < hs_slot_size ?t - 1" using ctxs by simp
    then obtain h hash where f: "find_slot (hs_slot ?t) (hs_slot_size ?t) (hs_slot_size ?t) (hs_handle_index ?t) =
        Some (Some (h, hash))"
      using find_slot_room [OF g(2)] find_slot_defined [OF g(2), of "hs_slot_size ?t" "hs_handle_index ?t"] by force
    have "Some ctx \<notin> set (hs_slot ?t)" using fresh ctxs by (auto simp: contexts_def)
    note reg = register_found [OF g(2) this f]
    let ?u = "?t\<lparr>hs_slot := (hs_slot ?t)[hash := Some ctx], hs_handle_index := h + 1\<rparr>"
    have R: "skynet_handle_register ch ctx s = Some (h OR hs_harbor s, ?u)"
      using r None g(1) f by (simp add: skynet_handle_register.simps [of ch ctx])
    have G: "skynet_handle_grab ch (h OR hs_harbor s) s = Some None"
      using reg(2) g(3) by (simp add: grab_None_iff inv g(2))
    show ?thesis by (rule that [OF R _ G]) (use reg g(3) in simp_all)
  qed
qed

subsection \<open>Retiring\<close>

lemma filter_names_inv:
  assumes inv: "name_inv s" and "take j a = map Some (filter P (names s))" "length a = length (hs_name s)"
    and j: "j = length (filter P (names s))"
  shows "name_inv (s\<lparr>hs_slot := sl, hs_name := a, hs_name_count := j\<rparr>)"
    "names (s\<lparr>hs_slot := sl, hs_name := a, hs_name_count := j\<rparr>) = filter P (names s)"
proof -
  let ?s = "s\<lparr>hs_slot := sl, hs_name := a, hs_name_count := j\<rparr>"
  show n: "names ?s = filter P (names s)" using assms(2) by (simp add: names_def comp_def)
  have "j \<le> hs_name_count s" using length_filter_le [of P "names s"] inv j by simp
  then have jc: "j \<le> hs_name_cap s" "length a = hs_name_cap s" using inv assms(3) by (auto simp: name_inv_def)
  have "a ! i \<noteq> None" if "i < j" for i
  proof -
    have "take j a ! i = map Some (filter P (names s)) ! i" by (simp add: assms(2))
    then show ?thesis using that j by simp
  qed
  moreover have "sorted_wrt (<) (map hn_name (filter P (names s)))"
    using inv by (auto simp: name_inv_def sorted_wrt_map intro: sorted_wrt_filter)
  ultimately show "name_inv ?s" using inv jc n by (simp add: name_inv_def)
qed

lemma compact_spec:
  assumes inv: "name_inv s"
  obtains j a where "compact_names h 0 (hs_name_count s) 0 (hs_name s) = Some (j, a)"
    "name_inv (s\<lparr>hs_slot := sl, hs_name := a, hs_name_count := j\<rparr>)"
    "names (s\<lparr>hs_slot := sl, hs_name := a, hs_name_count := j\<rparr>) = filter (\<lambda>x. hn_handle x \<noteq> h) (names s)"
proof -
  let ?f = "filter (\<lambda>x. hn_handle x \<noteq> h) (names s)"
  have "hs_name_count s \<le> length (hs_name s)" "\<forall>k<hs_name_count s. hs_name s ! k \<noteq> None"
    using inv by (auto simp: name_inv_def)
  then obtain a where "compact_names h 0 (hs_name_count s) 0 (hs_name s) = Some (length ?f, a)"
      "length a = length (hs_name s)" "take (length ?f) a = map Some ?f"
    using compact_names_spec [of 0 0 "hs_name_count s" "hs_name s" h] by (auto simp: names_def)
  with filter_names_inv [OF inv, of "length ?f" a] that show ?thesis by simp
qed

lemma name_map_filter:
  assumes "name_inv s"
  shows "name_map (filter (\<lambda>x. hn_handle x \<noteq> h) (names s)) k =
    (case name_map (names s) k of Some h' \<Rightarrow> if h' = h then None else Some h' | None \<Rightarrow> None)"
proof -
  have d: "distinct (map hn_name (names s))" using assms by (simp add: name_inv_def strict_sorted_iff)
  have "name_map (filter (\<lambda>x. hn_handle x \<noteq> h) xs) k =
      (case name_map xs k of Some h' \<Rightarrow> if h' = h then None else Some h' | None \<Rightarrow> None)"
    if "distinct (map hn_name xs)" for xs
    using that
  proof (induction xs)
    case (Cons x xs)
    then have "name_map xs (hn_name x) = None" by (auto simp: name_map_def map_of_eq_None_iff)
    with Cons show ?case by (auto simp: name_map_def split: option.splits)
  qed (simp add: name_map_def)
  from this [OF d] show ?thesis .
qed

lemma retire_spec:
  assumes inv: "handle_inv ch s" and ninv: "name_inv s" and c: "Some ctx \<in> set (hs_slot s)" "ch ctx = h"
  obtains s' where "skynet_handle_retire ch h s = Some (1, Some ctx, s')"
    "handle_inv ch s'" "name_inv s'" "hs_slot_size s' = hs_slot_size s"
    "hs_slot s' = (hs_slot s)[slot_hash h (hs_slot_size s) := None]"
    "names s' = filter (\<lambda>x. hn_handle x \<noteq> h) (names s)"
    "hs_slot s ! slot_hash h (hs_slot_size s) = Some ctx"
proof -
  let ?i = "slot_hash h (hs_slot_size s)"
  from inv obtain k where k: "hs_slot_size s = 2 ^ k" "length (hs_slot s) = 2 ^ k"
    by (auto simp: handle_inv_def slot_ok_def)
  have at: "hs_slot s ! ?i = Some ctx"
    using inv c by (auto simp: handle_inv_def slot_ok_def in_set_conv_nth)
  let ?sl = "(hs_slot s)[?i := None]"
  from ninv obtain j a where ca: "compact_names h 0 (hs_name_count s) 0 (hs_name s) = Some (j, a)"
    "name_inv (s\<lparr>hs_slot := ?sl, hs_name := a, hs_name_count := j\<rparr>)"
    "names (s\<lparr>hs_slot := ?sl, hs_name := a, hs_name_count := j\<rparr>) = filter (\<lambda>x. hn_handle x \<noteq> h) (names s)"
    by (rule compact_spec [where sl = ?sl])
  have "slot_ok ch (hs_harbor s) (hs_slot_size s) ?sl"
    using inv by (auto simp: handle_inv_def slot_ok_def nth_upd_if)
  then have "handle_inv ch (s\<lparr>hs_slot := ?sl, hs_name := a, hs_name_count := j\<rparr>)"
    using inv by (simp add: handle_inv_def)
  moreover have "skynet_handle_retire ch h s =
      Some (1, Some ctx, s\<lparr>hs_slot := ?sl, hs_name := a, hs_name_count := j\<rparr>)"
    using k at c ca(1) by (simp add: skynet_handle_retire_def)
  ultimately show ?thesis using ca at by (intro that) simp_all
qed

lemma retire_sweep_spec:
  assumes "handle_inv ch s" "name_inv s" "\<forall>j<i. hs_slot s ! j = None" "i \<le> hs_slot_size s"
  shows "\<exists>m s'. retire_sweep ch i n s = Some (n + m, s') \<and> handle_inv ch s' \<and> name_inv s' \<and> contexts s' = {} \<and>
     (m = 0 \<longleftrightarrow> contexts s = {})"
  using assms
proof (induction "hs_slot_size s - i" arbitrary: i n s)
  case 0
  then have "length (hs_slot s) \<le> i" by (auto simp: handle_inv_def slot_ok_def)
  then have "contexts s = {}" using 0 by (fastforce simp: contexts_def in_set_conv_nth)
  with 0 show ?case by (subst retire_sweep.simps) auto
next
  case (Suc d)
  then have i: "i < hs_slot_size s" "length (hs_slot s) = hs_slot_size s"
    by (auto simp: handle_inv_def slot_ok_def)
  have step: "\<forall>j<i + 1. hs_slot t ! j = None" if "\<forall>j<i. hs_slot t ! j = None" "hs_slot t ! i = None" for t
    using that by (metis Suc_eq_plus1 less_Suc_eq)
  show ?case
  proof (cases "hs_slot s ! i")
    case None
    then have "retire_sweep ch i n s = retire_sweep ch (i + 1) n s"
      using i by (subst retire_sweep.simps) simp
    with Suc.hyps(1) [of s "i + 1" n] Suc.hyps(2) Suc.prems step [of s] None i show ?thesis by simp
  next
    case (Some c)
    have c: "Some c \<in> set (hs_slot s)" using Some i by (metis nth_mem)
    have hash: "slot_hash (ch c) (hs_slot_size s) = i" "ch c \<noteq> 0"
      using Suc.prems(1) Some i by (auto simp: handle_inv_def slot_ok_def)
    obtain s' where s': "skynet_handle_retire ch (ch c) s = Some (1, Some c, s')"
      "handle_inv ch s'" "name_inv s'" "hs_slot_size s' = hs_slot_size s" "hs_slot s' = (hs_slot s)[i := None]"
      using retire_spec [OF Suc.prems(1,2) c refl] hash by metis
    then have S: "retire_sweep ch i n s = retire_sweep ch (i + 1) (n + 1) s'"
      using i Some hash by (subst retire_sweep.simps) simp
    have "\<forall>j<i + 1. hs_slot s' ! j = None" using Suc.prems(3) i s'(5) by (intro step) auto
    moreover have "d = hs_slot_size s' - (i + 1)" using Suc.hyps(2) s'(4) by simp
    ultimately obtain m t where
      "retire_sweep ch (i + 1) (n + 1) s' = Some (n + 1 + m, t)" "handle_inv ch t" "name_inv t" "contexts t = {}"
      using Suc.hyps(1) [of s' "i + 1" "n + 1"] s' i by auto
    moreover have "contexts s \<noteq> {}" using c by (auto simp: contexts_def)
    ultimately show ?thesis using S by (intro exI [of _ "m + 1"] exI [of _ t]) simp
  qed
qed

lemma handle_inv_init: "handle_inv ch (skynet_handle_init harbor)"
proof -
  have "push_bit 24 (harbor AND 0xff) AND HANDLE_MASK = 0"
    by (auto simp: bit_eq_iff HANDLE_MASK_mask bit_simps)
  moreover have "\<forall>i<4. \<forall>c. replicate 4 (None :: ptr) ! i \<noteq> Some c" by simp
  ultimately show ?thesis
    by (auto simp: handle_inv_def skynet_handle_init_def slot_ok_def DEFAULT_SLOT_SIZE_def
        HANDLE_REMOTE_SHIFT_def HANDLE_MASK_def intro!: exI [of _ 2])
qed

subsection \<open>Properties\<close>

text \<open>C3: Registering a new context always terminates with a handle, growing the table when it has to:
  the handle was free, carries the harbour id in its high byte and a non-zero number in its low
  24 bits; once the context holds it, the handle grabs this context and every other handle grabs
  what it grabbed before.\<close>

theorem handle_register_correct:
  assumes "handle_inv ch s" "ctx \<notin> contexts s" "card (contexts s) < 2 ^ 24 - 1"
  shows "\<exists>h s'. skynet_handle_register ch ctx s = Some (h, s') \<and> handle_inv (ch(ctx := h)) s' \<and>
    h AND NOT HANDLE_MASK = hs_harbor s \<and> h AND HANDLE_MASK \<noteq> 0 \<and>
    skynet_handle_grab ch h s = Some None \<and>
    (\<forall>h'. skynet_handle_grab (ch(ctx := h)) h' s' =
       (if h' = h then Some (Some ctx) else skynet_handle_grab ch h' s))"
  using assms
proof (rule register_spec)
  fix h s'
  assume R: "skynet_handle_register ch ctx s = Some (h, s')" "handle_inv (ch(ctx := h)) s'"
    "skynet_handle_grab ch h s = Some None"
    "\<forall>c. (Some c \<in> set (hs_slot s')) = (c = ctx \<or> Some c \<in> set (hs_slot s))"
    "h AND NOT HANDLE_MASK = hs_harbor s" "h AND HANDLE_MASK \<noteq> 0"
  have old: "ch c \<noteq> h" if "Some c \<in> set (hs_slot s)" for c
    using R(3) that assms(1) by (simp add: grab_None_iff)
  have "skynet_handle_grab (ch(ctx := h)) h s' = Some (Some ctx)" using R(4) by (simp add: grab_iff(1) [OF R(2)])
  moreover have "skynet_handle_grab (ch(ctx := h)) h' s' = skynet_handle_grab ch h' s" if "h' \<noteq> h" for h'
    using assms(1) R(2) by (rule grab_cong) (use R(4) assms(2) that in \<open>auto simp: contexts_def\<close>)
  ultimately show ?thesis using R by auto
qed

theorem handle_register_correct_witness:
  "\<exists>h s'. skynet_handle_register (\<lambda>_. 0) 7 (skynet_handle_init 1) = Some (h, s') \<and> h AND NOT HANDLE_MASK = 0x01000000"
  using handle_register_correct [OF handle_inv_init, of 7 1 "\<lambda>_. 0"]
  by (auto simp: contexts_def skynet_handle_init_def DEFAULT_SLOT_SIZE_def HANDLE_REMOTE_SHIFT_def push_bit_eq_mult)

text \<open>C17: Retiring a registered handle takes exactly its context out of the table and exactly its
  names out of the name table, and hands the context to the caller for release; retiring a handle
  nobody holds changes nothing.\<close>

theorem handle_retire_correct:
  assumes "handle_inv ch s" "name_inv s"
  shows "case skynet_handle_grab ch h s of
      Some (Some ctx) \<Rightarrow> \<exists>s'. skynet_handle_retire ch h s = Some (1, Some ctx, s') \<and> handle_inv ch s' \<and> name_inv s' \<and>
        (\<forall>h'. skynet_handle_grab ch h' s' = (if h' = h then Some None else skynet_handle_grab ch h' s)) \<and>
        (\<forall>k. name_lookup s' k = (if name_lookup s k = Some h then None else name_lookup s k))
    | Some None \<Rightarrow> skynet_handle_retire ch h s = Some (0, None, s)
    | None \<Rightarrow> False"
proof (cases "skynet_handle_grab ch h s")
  case None
  then show ?thesis using grab_iff(2) [OF assms(1), of h] by simp
next
  case (Some r)
  show ?thesis
  proof (cases r)
    case None
    with Some show ?thesis
      by (auto simp: skynet_handle_grab_def skynet_handle_retire_def bind_Some_iff split: option.splits if_splits)
  next
    case (Some ctx)
    with \<open>skynet_handle_grab ch h s = Some r\<close> have g: "skynet_handle_grab ch h s = Some (Some ctx)" by simp
    then have c: "Some ctx \<in> set (hs_slot s)" "ch ctx = h" by (simp_all add: grab_iff(1) [OF assms(1)])
    from assms c obtain s' where s': "skynet_handle_retire ch h s = Some (1, Some ctx, s')"
      "handle_inv ch s'" "name_inv s'" "hs_slot_size s' = hs_slot_size s"
      "hs_slot s' = (hs_slot s)[slot_hash h (hs_slot_size s) := None]"
      "names s' = filter (\<lambda>x. hn_handle x \<noteq> h) (names s)"
      "hs_slot s ! slot_hash h (hs_slot_size s) = Some ctx" by (rule retire_spec)
    have len: "slot_hash h (hs_slot_size s) < length (hs_slot s)"
      using assms(1) by (auto simp: handle_inv_def slot_ok_def)
    have "skynet_handle_grab ch h s' = Some None"
      using s'(4,5) len by (simp add: skynet_handle_grab_def)
    moreover have "skynet_handle_grab ch h' s' = skynet_handle_grab ch h' s" if "h' \<noteq> h" for h'
    proof (rule grab_cong [OF assms(1) s'(2)])
      fix c' show "Some c' \<in> set (hs_slot s') \<and> ch c' = h' \<longleftrightarrow> Some c' \<in> set (hs_slot s) \<and> ch c' = h'"
        using that s'(5,7) len c(2) by (auto simp: in_set_conv_nth nth_upd_if) (metis option.inject)
    qed
    moreover have "name_lookup s' k = (if name_lookup s k = Some h then None else name_lookup s k)" for k
      by (simp add: name_lookup_map assms(2) s'(3,6) name_map_filter split: option.split)
    ultimately show ?thesis using s' g by auto
  qed
qed

theorem handle_retire_correct_witness:
  "skynet_handle_retire (\<lambda>_. 5) 5 (skynet_handle_init 1) = Some (0, None, skynet_handle_init 1)"
  using handle_retire_correct [OF handle_inv_init name_inv_init, of "\<lambda>_. 5" 5 1]
  by (simp add: skynet_handle_grab_def skynet_handle_init_def DEFAULT_SLOT_SIZE_def slot_hash_def)

text \<open>C20: However a list of names is registered one after the other (fewer than the table's bound),
  each name finds the handle of its first registration, and an unknown name finds 0.\<close>

theorem handle_names_correct:
  assumes "length kvs \<le> MAX_SLOT_SIZE"
  shows "skynet_handle_findname k (register_names kvs (skynet_handle_init harbor)) =
    Some (case map_of kvs k of Some h \<Rightarrow> h | None \<Rightarrow> 0)"
proof -
  let ?s = "register_names kvs (skynet_handle_init harbor)"
  have inv: "name_inv ?s" and lk: "name_lookup ?s k = map_of kvs k"
    using dir.insert_all_lookup [of "skynet_handle_init harbor" kvs k] dir.insert_all_empty [OF assms, of harbor k]
      assms name_inv_init dir.used_empty by (simp_all add: register_names_eq)
  from inv show ?thesis
  proof (cases rule: name_search_cases [of _ k])
    case (found i)
    then have "map_of kvs k = Some (hn_handle (names ?s ! i))" using lk by (simp add: name_lookup_def)
    then show ?thesis using found(2) by (simp add: skynet_handle_findname_def)
  next
    case (missing b)
    then have "map_of kvs k = None" using lk by (simp add: name_lookup_def)
    then show ?thesis using missing(2) by (simp add: skynet_handle_findname_def)
  qed
qed

theorem handle_names_correct_witness:
  "skynet_handle_findname ''b'' (register_names [(''b'', 3), (''a'', 4), (''b'', 5)] (skynet_handle_init 0)) = Some 3"
  using handle_names_correct [of "[(''b'', 3), (''a'', 4), (''b'', 5)]" "''b''" 0] by (simp add: MAX_SLOT_SIZE_def)

text \<open>\<open>skynet_handle_retireall\<close> terminates, and leaves no context registered.\<close>

theorem handle_retireall_terminates:
  assumes "handle_inv ch s" "name_inv s"
  shows "\<exists>s'. skynet_handle_retireall ch s = Some s' \<and> contexts s' = {} \<and> handle_inv ch s' \<and> name_inv s'"
proof -
  have fin: "\<exists>s'. skynet_handle_retireall ch t = Some s' \<and> contexts s' = {} \<and> handle_inv ch s' \<and> name_inv s'"
    if "handle_inv ch t" "name_inv t" "contexts t = {}" for t
    using retire_sweep_spec [OF that(1,2), of 0 0] that(3) by (subst skynet_handle_retireall.simps) auto
  obtain m t where t: "retire_sweep ch 0 0 s = Some (m, t)" "handle_inv ch t" "name_inv t" "contexts t = {}"
    using retire_sweep_spec [OF assms, of 0 0] by auto
  with fin [OF t(2-4)] show ?thesis by (subst skynet_handle_retireall.simps) simp
qed

theorem handle_retireall_terminates_witness:
  "\<exists>s'. skynet_handle_retireall (\<lambda>_. 0) (skynet_handle_init 1) = Some s' \<and> contexts s' = {}"
  using handle_retireall_terminates [OF handle_inv_init name_inv_init] by blast

end
