(* ===== verification/C_String.thy ===== *)
theory C_String
  imports Prelude
begin

text \<open>
  The string functions of the C library that the modelled code calls, on buffers of characters.
  A buffer is a list of characters with an explicit zero byte; \<open>cstr_at buf p\<close> is the string that
  starts at index \<open>p\<close>, \<open>None\<close> when no zero byte follows.  \<open>int\<close> is 32 bits and \<open>long\<close> 64 bits.
\<close>

abbreviation NUL :: char where "NUL \<equiv> CHR 0x00"

definition cstr :: "string \<Rightarrow> string" where "cstr s = takeWhile (\<lambda>c. c \<noteq> NUL) s"

definition cstr_at :: "string \<Rightarrow> nat \<Rightarrow> string option" where
  "cstr_at buf p = (if NUL \<in> set (drop p buf) then Some (cstr (drop p buf)) else None)"

definition bytes_of :: "string \<Rightarrow> u8 list" where "bytes_of s = map of_char s"

subsection \<open>Numbers\<close>

definition c_isspace :: "char \<Rightarrow> bool" where
  "c_isspace c \<longleftrightarrow> c \<in> {CHR '' '', CHR 0x09, CHR 0x0A, CHR 0x0B, CHR 0x0C, CHR 0x0D}"

text \<open>The value of a digit in bases up to 16.\<close>

definition digit_val :: "char \<Rightarrow> nat option" where
  "digit_val c = (let n = of_char c :: nat in
     if 48 \<le> n \<and> n \<le> 57 then Some (n - 48)
     else if 97 \<le> n \<and> n \<le> 102 then Some (n - 87)
     else if 65 \<le> n \<and> n \<le> 70 then Some (n - 55) else None)"

definition is_digit :: "nat \<Rightarrow> char \<Rightarrow> bool" where
  "is_digit base c = (case digit_val c of Some d \<Rightarrow> d < base | None \<Rightarrow> False)"

definition digits_val :: "nat \<Rightarrow> string \<Rightarrow> nat" where
  "digits_val base s = foldl (\<lambda>a c. a * base + the (digit_val c)) 0 s"

definition strip_sign :: "string \<Rightarrow> bool \<times> string" where
  "strip_sign s = (case s of
      c # cs \<Rightarrow> if c = CHR ''-'' then (True, cs) else if c = CHR ''+'' then (False, cs) else (False, s)
    | [] \<Rightarrow> (False, []))"

definition strip_0x :: "string \<Rightarrow> string" where
  "strip_0x s = (case s of
      z # x # d # cs \<Rightarrow> if z = CHR ''0'' \<and> (x = CHR ''x'' \<or> x = CHR ''X'') \<and> is_digit 16 d then d # cs else s
    | _ \<Rightarrow> s)"

definition strtol10 :: "string \<Rightarrow> int" where
  "strtol10 s = (let (neg, t) = strip_sign (dropWhile c_isspace s);
                     v = int (digits_val 10 (takeWhile (is_digit 10) t)) in
     if neg then max (- (2 ^ 63)) (- v) else min (2 ^ 63 - 1) v)"

definition strtoul16 :: "string \<Rightarrow> u64" where
  "strtoul16 s = (let (neg, t) = strip_sign (dropWhile c_isspace s);
                      v = digits_val 16 (takeWhile (is_digit 16) (strip_0x t)) in
     if v \<ge> 2 ^ 64 then 2 ^ 64 - 1 else if neg then - of_nat v else of_nat v)"

definition long_to_int :: "int \<Rightarrow> int" where "long_to_int x = signed_take_bit 31 x"

fun show_nat :: "nat \<Rightarrow> string" where
  "show_nat n = (if n < 10 then [char_of (48 + n)] else show_nat (n div 10) @ [char_of (48 + n mod 10)])"

declare show_nat.simps [simp del]

text \<open>The \<open>%d\<close> of \<open>printf\<close>.\<close>

definition show_int :: "int \<Rightarrow> string" where
  "show_int i = (if i < 0 then CHR ''-'' # show_nat (nat (- i)) else show_nat (nat i))"

text \<open>The \<open>%x\<close> of \<open>printf\<close>.\<close>

fun show_hex_nat :: "nat \<Rightarrow> string" where
  "show_hex_nat n = (if n < 16 then [''0123456789abcdef'' ! n] else show_hex_nat (n div 16) @ [''0123456789abcdef'' ! (n mod 16)])"

declare show_hex_nat.simps [simp del]

definition show_hex :: "u32 \<Rightarrow> string" where "show_hex w = show_hex_nat (unat w)"

lemma digit_char [simp]: "d < 10 \<Longrightarrow> digit_val (char_of (48 + d)) = Some d"
  by (simp add: digit_val_def)

lemma digits_val_snoc: "digits_val b (s @ [c]) = digits_val b s * b + the (digit_val c)"
  by (simp add: digits_val_def)

lemma show_nat_digits: "list_all (is_digit 10) (show_nat n) \<and> digits_val 10 (show_nat n) = n \<and> show_nat n \<noteq> []"
proof (induction n rule: show_nat.induct)
  case (1 n)
  show ?case
  proof (cases "n < 10")
    case True
    then show ?thesis by (simp add: show_nat.simps [of n] is_digit_def digits_val_def)
  next
    case False
    have "n mod 10 < 10" by simp
    with 1 [OF False] show ?thesis using False
      by (simp add: show_nat.simps [of n] is_digit_def digits_val_snoc)
  qed
qed

lemma is_digit_not_space: "is_digit 10 c \<Longrightarrow> \<not> c_isspace c \<and> c \<noteq> CHR ''-'' \<and> c \<noteq> CHR ''+''"
  by (auto simp: is_digit_def digit_val_def c_isspace_def split: if_splits)

text \<open>Reading back what \<open>%d\<close> printed, whatever follows the number.\<close>

lemma strtol10_show:
  assumes "- (2 ^ 63) \<le> i" "i < 2 ^ 63" "rest = [] \<or> \<not> is_digit 10 (hd rest)"
  shows "strtol10 (show_int i @ rest) = i"
proof -
  have tw: "takeWhile (is_digit 10) (show_nat n @ rest) = show_nat n" for n
    using show_nat_digits [of n] assms(3) by (cases rest) (auto simp: takeWhile_append list_all_iff)
  show ?thesis
  proof (cases "i < 0")
    case True
    then have s: "show_int i = CHR ''-'' # show_nat (nat (- i))" by (simp add: show_int_def)
    show ?thesis using True assms(1) tw [of "nat (- i)"] show_nat_digits [of "nat (- i)"]
      unfolding s by (simp add: strtol10_def c_isspace_def strip_sign_def)
  next
    case False
    then have s: "show_int i = show_nat (nat i)" by (simp add: show_int_def)
    obtain c cs where c: "show_nat (nat i) = c # cs" "is_digit 10 c"
      using show_nat_digits [of "nat i"] by (cases "show_nat (nat i)") auto
    show ?thesis using False assms(2) tw [of "nat i"] show_nat_digits [of "nat i"] c is_digit_not_space [OF c(2)]
      unfolding s by (simp add: strtol10_def strip_sign_def)
  qed
qed

lemma long_to_int_id: "- (2 ^ 31) \<le> i \<Longrightarrow> i < 2 ^ 31 \<Longrightarrow> long_to_int i = i"
  by (simp add: long_to_int_def signed_take_bit_int_eq_self)

subsection \<open>Splitting and comparing\<close>

text \<open>\<open>strsep(&p, " ")\<close> at index \<open>p\<close> of a buffer: the buffer with the delimiter overwritten, and the new
  pointer.\<close>

definition strsep_space :: "string \<Rightarrow> nat \<Rightarrow> (string \<times> nat option) option" where
  "strsep_space buf p = do {
     s \<leftarrow> cstr_at buf p;
     let n = length (takeWhile (\<lambda>c. c \<noteq> CHR '' '') s);
     Some (if n < length s then (buf[p + n := NUL], Some (p + n + 1)) else (buf, None)) }"

text \<open>\<open>memcmp(buf, lit, n) == 0\<close> for a string literal, which is followed by its zero byte; comparing
  beyond that byte is undefined.\<close>

definition memcmp_lit :: "string \<Rightarrow> string \<Rightarrow> nat \<Rightarrow> bool option" where
  "memcmp_lit buf lit n =
     (if n \<le> length lit + 1 then Some (take n buf = take n (lit @ [NUL]))
      else if take (length lit + 1) buf = lit @ [NUL] then None else Some False)"

definition strrchr :: "string \<Rightarrow> char \<Rightarrow> nat option" where
  "strrchr s c = (if c \<in> set s then Some (length s - 1 - length (takeWhile (\<lambda>d. d \<noteq> c) (rev s))) else None)"

text \<open>\<open>strncpy(dst, src, n)\<close> into an array of \<open>n\<close> characters: no zero byte when the string is too long.\<close>

definition strncpy :: "nat \<Rightarrow> string \<Rightarrow> string" where
  "strncpy n src = (let s = take n (cstr src) in s @ replicate (n - length s) NUL)"

lemma length_strncpy [simp]: "length (strncpy n s) = n"
  by (simp add: strncpy_def Let_def)

lemma cstr_id: "NUL \<notin> set s \<Longrightarrow> cstr s = s"
  by (auto simp: cstr_def takeWhile_eq_all_conv)

lemma cstr_no_NUL: "NUL \<notin> set (cstr s)"
  by (auto simp: cstr_def dest: set_takeWhileD)

lemma strncpy_fits:
  assumes "length (cstr s) < n"
  shows "NUL \<in> set (strncpy n s)" "cstr (strncpy n s) = cstr s" "cstr_at (strncpy n s) 0 = Some (cstr s)"
proof -
  obtain k where k: "n - length (cstr s) = Suc k" using assms by (metis Suc_diff_Suc)
  have e: "strncpy n s = cstr s @ NUL # replicate k NUL" using assms k by (simp add: strncpy_def Let_def)
  show "NUL \<in> set (strncpy n s)" by (simp add: e)
  have "\<forall>c \<in> set (cstr s). c \<noteq> NUL" using cstr_no_NUL [of s] by auto
  then have "takeWhile (\<lambda>c. c \<noteq> NUL) (cstr s @ NUL # replicate k NUL) = cstr s"
    using takeWhile_append2 [of "cstr s" "\<lambda>c. c \<noteq> NUL" "NUL # replicate k NUL"] by simp
  then show "cstr (strncpy n s) = cstr s" unfolding e by (simp only: cstr_def [of "cstr s @ NUL # replicate k NUL"])
  then show "cstr_at (strncpy n s) 0 = Some (cstr s)" using \<open>NUL \<in> set (strncpy n s)\<close> by (simp add: cstr_at_def)
qed

lemma strncpy_too_long: "n \<le> length (cstr s) \<Longrightarrow> NUL \<notin> set (strncpy n s)"
  using cstr_no_NUL [of s] by (auto simp: strncpy_def Let_def dest: in_set_takeD)

end
