(* ===== verification/Skynet_Context.thy ===== *)
theory Skynet_Context
  imports Skynet_MQ Skynet_Handle C_String
begin

unbundle bit_operations_syntax

text \<open>
  Services of skynet as contexts (\<^verbatim>\<open>009_skynet_demo/skynet/skynet-src/skynet_server.c\<close>, with \<^verbatim>\<open>skynet_error.c\<close>,
  \<^verbatim>\<open>skynet_harbor.c\<close> and \<^verbatim>\<open>skynet_monitor.c\<close>): reference counts, sending, launching, and the dispatch of messages by a
  worker, on top of the queues of \<open>Skynet_MQ\<close> and the directory of \<open>Skynet_Handle\<close>.

  The state holds every context, every block of message data, the queues and the directory.  \<open>None\<close> is a failed
  \<open>assert\<close>, an access to a freed context or block, or a double free.  Services are code outside the core: their
  modules and callbacks are arguments, which may change the whole state; \<open>'w\<close> is the memory of the service instances.
  \<open>skynet_malloc\<close> returns fresh addresses and does not fail.  Calls whose effect is outside the model (closing
  and writing log files, the \<open>release\<close> function of a module) are recorded in \<open>sv_trace\<close>.  \<open>CHECKCALLING\<close> is not defined in
  the default build, and the thread-specific handle (\<open>pthread_setspecific\<close>) is read only by the allocation hooks.
\<close>

subsection \<open>Data\<close>

record skynet_context =
  ctx_instance :: addr
  ctx_mod :: nat
  ctx_cb_ud :: ptr
  ctx_cb :: "nat option" \<comment> \<open>the callback function, by its address\<close>
  ctx_queue :: addr
  ctx_logfile :: ptr
  ctx_cpu_cost :: u64
  ctx_cpu_start :: u64
  ctx_result :: string
  ctx_handle :: u32
  ctx_session_id :: int
  ctx_ref :: int
  ctx_message_count :: int
  ctx_init :: bool
  ctx_endless :: bool
  ctx_profile :: bool

definition GLOBALNAME_LENGTH :: nat where "GLOBALNAME_LENGTH = 16"

record remote_message =
  rm_name :: string \<comment> \<open>\<open>destination.name\<close>, all \<open>GLOBALNAME_LENGTH\<close> bytes\<close>
  rm_handle :: u32
  rm_message :: ptr
  rm_sz :: u64
  rm_type :: u32

text \<open>What a block of message data holds.\<close>

datatype block = Bytes "u8 list" | Remote remote_message

datatype event = Fclose addr | InstanceRelease nat addr | LogOutput addr u32 u32 int ptr u64
  | InstanceSignal nat addr int

record skynet_monitor =
  sm_version :: int
  sm_check_version :: int
  sm_source :: u32
  sm_destination :: u32

text \<open>\<open>G_NODE\<close>, the statics of \<^verbatim>\<open>skynet_harbor.c\<close> and \<^verbatim>\<open>skynet_error.c\<close>, and the memory.\<close>

record 'w server_state =
  sv_ctx :: "addr \<Rightarrow> skynet_context option"
  sv_mq :: mq_state
  sv_hs :: handle_storage
  sv_data :: "addr \<Rightarrow> block option"
  sv_brk :: addr \<comment> \<open>the address \<open>skynet_malloc\<close> returns next\<close>
  sv_total :: int
  sv_monitor_exit :: u32
  sv_profile :: bool
  sv_REMOTE :: ptr
  sv_HARBOR :: u32
  sv_logger :: u32
  sv_trace :: "event list"
  sv_world :: 'w

definition PTYPE_TEXT_u32 :: u32 where "PTYPE_TEXT_u32 = 0"
definition PTYPE_CLIENT_u32 :: u32 where "PTYPE_CLIENT_u32 = 3"
definition PTYPE_SYSTEM :: u32 where "PTYPE_SYSTEM = 4"
definition PTYPE_HARBOR :: u32 where "PTYPE_HARBOR = 5"
definition PTYPE_ERROR :: u32 where "PTYPE_ERROR = 7"
definition TAG_DONTCOPY :: u32 where "TAG_DONTCOPY = 0x10000"
definition TAG_ALLOCSESSION :: u32 where "TAG_ALLOCSESSION = 0x20000"
definition MESSAGE_TYPE_SHIFT :: nat where "MESSAGE_TYPE_SHIFT = 56"
definition MESSAGE_TYPE_MASK :: u64 where "MESSAGE_TYPE_MASK = drop_bit 8 (- 1)"

lemmas ptype_consts = PTYPE_TEXT_u32_def PTYPE_CLIENT_u32_def PTYPE_SYSTEM_def PTYPE_HARBOR_def PTYPE_ERROR_def
  TAG_DONTCOPY_def TAG_ALLOCSESSION_def

subsection \<open>Memory\<close>

definition skynet_malloc :: "block \<Rightarrow> 'w server_state \<Rightarrow> addr \<times> 'w server_state" where
  "skynet_malloc b s = (sv_brk s, s\<lparr>sv_data := (sv_data s)(sv_brk s \<mapsto> b), sv_brk := sv_brk s + 1\<rparr>)"

definition skynet_free :: "ptr \<Rightarrow> 'w server_state \<Rightarrow> 'w server_state option" where
  "skynet_free p s = (case p of None \<Rightarrow> Some s
     | Some a \<Rightarrow> do { _ \<leftarrow> sv_data s a; Some (s\<lparr>sv_data := (sv_data s)(a := None)\<rparr>) })"

definition ctx_upd :: "addr \<Rightarrow> (skynet_context \<Rightarrow> skynet_context) \<Rightarrow> 'w server_state \<Rightarrow> 'w server_state option" where
  "ctx_upd c f s = do { x \<leftarrow> sv_ctx s c; Some (s\<lparr>sv_ctx := (sv_ctx s)(c \<mapsto> f x)\<rparr>) }"

text \<open>\<open>skynet_context_handle\<close>, as the directory reads it.\<close>

definition ctx_handles :: "'w server_state \<Rightarrow> addr \<Rightarrow> u32" where
  "ctx_handles s c = (case sv_ctx s c of Some x \<Rightarrow> ctx_handle x | None \<Rightarrow> 0)"

subsection \<open>Reference counts\<close>

definition skynet_context_newsession :: "addr \<Rightarrow> 'w server_state \<Rightarrow> (int \<times> 'w server_state) option" where
  "skynet_context_newsession c s = do {
     x \<leftarrow> sv_ctx s c;
     let session = signed_take_bit 31 (ctx_session_id x + 1);
     let session = (if session \<le> 0 then 1 else session);
     s \<leftarrow> ctx_upd c (ctx_session_id_update (\<lambda>_. session)) s;
     Some (session, s) }"

definition skynet_context_grab :: "addr \<Rightarrow> 'w server_state \<Rightarrow> 'w server_state option" where
  "skynet_context_grab c s = ctx_upd c (ctx_ref_update (\<lambda>r. r + 1)) s"

definition skynet_context_reserve :: "addr \<Rightarrow> 'w server_state \<Rightarrow> 'w server_state option" where
  "skynet_context_reserve c s = do {
     s \<leftarrow> skynet_context_grab c s;
     Some (s\<lparr>sv_total := sv_total s - 1\<rparr>) }"

definition delete_context :: "addr \<Rightarrow> 'w server_state \<Rightarrow> 'w server_state option" where
  "delete_context c s = do {
     x \<leftarrow> sv_ctx s c;
     let closed = (case ctx_logfile x of Some f \<Rightarrow> [Fclose f] | None \<Rightarrow> []);
     mq \<leftarrow> skynet_mq_mark_release (ctx_queue x) (sv_mq s);
     Some (s\<lparr>sv_trace := sv_trace s @ closed @ [InstanceRelease (ctx_mod x) (ctx_instance x)], sv_mq := mq,
             sv_ctx := (sv_ctx s)(c := None), sv_total := sv_total s - 1\<rparr>) }"

definition skynet_context_release :: "addr \<Rightarrow> 'w server_state \<Rightarrow> (ptr \<times> 'w server_state) option" where
  "skynet_context_release c s = do {
     x \<leftarrow> sv_ctx s c;
     s \<leftarrow> ctx_upd c (ctx_ref_update (\<lambda>r. r - 1)) s;
     (if ctx_ref x = 1 then do { s \<leftarrow> delete_context c s; Some (None, s) } else Some (Some c, s)) }"

text \<open>The directory, with the references that \<^verbatim>\<open>skynet_handle.c\<close> takes and gives back.\<close>

definition handle_grab :: "u32 \<Rightarrow> 'w server_state \<Rightarrow> (ptr \<times> 'w server_state) option" where
  "handle_grab handle s = do {
     r \<leftarrow> skynet_handle_grab (ctx_handles s) handle (sv_hs s);
     (case r of None \<Rightarrow> Some (None, s)
      | Some c \<Rightarrow> do { s \<leftarrow> skynet_context_grab c s; Some (Some c, s) }) }"

definition handle_retire :: "u32 \<Rightarrow> 'w server_state \<Rightarrow> 'w server_state option" where
  "handle_retire handle s = do {
     (_, cp, hs) \<leftarrow> skynet_handle_retire (ctx_handles s) handle (sv_hs s);
     let s = s\<lparr>sv_hs := hs\<rparr>;
     (case cp of None \<Rightarrow> Some s
      | Some c \<Rightarrow> do { (_, s) \<leftarrow> skynet_context_release c s; Some s }) }"

subsection \<open>Sending\<close>

text \<open>The result of \<open>skynet_context_push\<close> is 0 or -1.\<close>

definition skynet_context_push :: "u32 \<Rightarrow> skynet_message \<Rightarrow> 'w server_state \<Rightarrow> (int \<times> 'w server_state) option" where
  "skynet_context_push handle message s = do {
     (cp, s) \<leftarrow> handle_grab handle s;
     (case cp of None \<Rightarrow> Some (- 1, s)
      | Some c \<Rightarrow> do {
          x \<leftarrow> sv_ctx s c;
          mq \<leftarrow> skynet_mq_push (ctx_queue x) message (sv_mq s);
          (_, s) \<leftarrow> skynet_context_release c (s\<lparr>sv_mq := mq\<rparr>);
          Some (0, s) }) }"

definition skynet_context_endless :: "u32 \<Rightarrow> 'w server_state \<Rightarrow> 'w server_state option" where
  "skynet_context_endless handle s = do {
     (cp, s) \<leftarrow> handle_grab handle s;
     (case cp of None \<Rightarrow> Some s
      | Some c \<Rightarrow> do {
          s \<leftarrow> ctx_upd c (ctx_endless_update (\<lambda>_. True)) s;
          (_, s) \<leftarrow> skynet_context_release c s;
          Some s }) }"

definition skynet_context_send ::
  "addr \<Rightarrow> ptr \<Rightarrow> u64 \<Rightarrow> u32 \<Rightarrow> u32 \<Rightarrow> int \<Rightarrow> 'w server_state \<Rightarrow> 'w server_state option" where
  "skynet_context_send c msg sz source type session s = do {
     x \<leftarrow> sv_ctx s c;
     mq \<leftarrow> skynet_mq_push (ctx_queue x) \<lparr>msg_source = source, msg_session = session, msg_data = msg,
             msg_sz = sz OR push_bit MESSAGE_TYPE_SHIFT (ucast type)\<rparr> (sv_mq s);
     Some (s\<lparr>sv_mq := mq\<rparr>) }"

text \<open>
  \<open>skynet_error\<close> with the text already formatted; \<open>context\<close> may be \<open>NULL\<close>.  For a text of 256 characters or more the code
  allocates a larger buffer, of which the message uses the same part.
\<close>

definition skynet_error :: "ptr \<Rightarrow> string \<Rightarrow> 'w server_state \<Rightarrow> 'w server_state option" where
  "skynet_error context msg s = do {
     s \<leftarrow> (if sv_logger s = 0 then do {
          h \<leftarrow> skynet_handle_findname ''logger'' (sv_hs s);
          Some (s\<lparr>sv_logger := h\<rparr>) } else Some s);
     (if sv_logger s = 0 then Some s else do {
        let (data, s) = skynet_malloc (Bytes (bytes_of msg @ [0])) s;
        source \<leftarrow> (case context of None \<Rightarrow> Some 0 | Some c \<Rightarrow> map_option ctx_handle (sv_ctx s c));
        (_, s) \<leftarrow> skynet_context_push (sv_logger s) \<lparr>msg_source = source, msg_session = 0, msg_data = Some data,
             msg_sz = of_nat (length msg) OR push_bit MESSAGE_TYPE_SHIFT (ucast PTYPE_TEXT_u32)\<rparr> s;
        Some s }) }"

definition skynet_harbor_message_isremote :: "u32 \<Rightarrow> 'w server_state \<Rightarrow> bool option" where
  "skynet_harbor_message_isremote handle s = do {
     assert_opt (sv_HARBOR s \<noteq> - 1);
     let h = handle AND NOT HANDLE_MASK;
     Some (h \<noteq> sv_HARBOR s \<and> h \<noteq> 0) }"

definition skynet_harbor_send :: "addr \<Rightarrow> u32 \<Rightarrow> int \<Rightarrow> 'w server_state \<Rightarrow> 'w server_state option" where
  "skynet_harbor_send rmsg source session s = do {
     b \<leftarrow> sv_data s rmsg;
     r \<leftarrow> (case b of Remote r \<Rightarrow> Some r | Bytes _ \<Rightarrow> None);
     assert_opt (rm_type r \<noteq> PTYPE_SYSTEM \<and> rm_type r \<noteq> PTYPE_HARBOR);
     c \<leftarrow> sv_REMOTE s;
     skynet_context_send c (Some rmsg) 48 source PTYPE_SYSTEM session s }"

definition skynet_harbor_start :: "addr \<Rightarrow> 'w server_state \<Rightarrow> 'w server_state option" where
  "skynet_harbor_start c s = do {
     s \<leftarrow> skynet_context_reserve c s;
     Some (s\<lparr>sv_REMOTE := Some c\<rparr>) }"

definition skynet_harbor_exit :: "'w server_state \<Rightarrow> 'w server_state option" where
  "skynet_harbor_exit s = (case sv_REMOTE s of None \<Rightarrow> Some s
     | Some c \<Rightarrow> do { (_, s) \<leftarrow> skynet_context_release c (s\<lparr>sv_REMOTE := None\<rparr>); Some s })"

text \<open>
  \<open>_filter_args\<close>: the session, the data and the size with the type in its top byte.  Only bytes are ever copied: a
  \<open>remote_message\<close> is sent by \<open>skynet_harbor_send\<close> alone.
\<close>

definition filter_args ::
  "ptr \<Rightarrow> u32 \<Rightarrow> int \<Rightarrow> ptr \<Rightarrow> u64 \<Rightarrow> 'w server_state \<Rightarrow> (int \<times> ptr \<times> u64 \<times> 'w server_state) option" where
  "filter_args context type session data sz s = do {
     let needcopy = (type AND TAG_DONTCOPY = 0);
     (session, s) \<leftarrow> (if type AND TAG_ALLOCSESSION \<noteq> 0 then do {
          assert_opt (session = 0);
          c \<leftarrow> context;
          skynet_context_newsession c s } else Some (session, s));
     (data, s) \<leftarrow> (case data of
          Some a \<Rightarrow> if needcopy then do {
              b \<leftarrow> sv_data s a;
              bs \<leftarrow> (case b of Bytes bs \<Rightarrow> Some bs | Remote _ \<Rightarrow> None);
              assert_opt (unat sz \<le> length bs);
              let (msg, s) = skynet_malloc (Bytes (take (unat sz) bs @ [0])) s;
              Some (Some msg, s) }
            else Some (Some a, s)
        | None \<Rightarrow> Some (None, s));
     Some (session, data, sz OR push_bit MESSAGE_TYPE_SHIFT (ucast (type AND 0xff)), s) }"

text \<open>Handing a filtered message over to the harbor service.\<close>

definition remote_send ::
  "string \<Rightarrow> u32 \<Rightarrow> u32 \<Rightarrow> int \<Rightarrow> ptr \<Rightarrow> u64 \<Rightarrow> 'w server_state \<Rightarrow> (int \<times> 'w server_state) option" where
  "remote_send name handle source session data sz s = do {
     let (rmsg, s) = skynet_malloc (Remote \<lparr>rm_name = name, rm_handle = handle, rm_message = data,
           rm_sz = sz AND MESSAGE_TYPE_MASK, rm_type = ucast (drop_bit MESSAGE_TYPE_SHIFT sz)\<rparr>) s;
     s \<leftarrow> skynet_harbor_send rmsg source session s;
     Some (session, s) }"

text \<open>The branches for a size that does not fit below the type byte.\<close>

definition send_too_large :: "ptr \<Rightarrow> string \<Rightarrow> u32 \<Rightarrow> ptr \<Rightarrow> 'w server_state \<Rightarrow> (int \<times> 'w server_state) option" where
  "send_too_large context to type data s = do {
     s \<leftarrow> skynet_error context (''The message to '' @ to @ '' is too large'') s;
     s \<leftarrow> (if type AND TAG_DONTCOPY \<noteq> 0 then skynet_free data s else Some s);
     Some (- 2, s) }"

definition ctx_source :: "ptr \<Rightarrow> u32 \<Rightarrow> 'w server_state \<Rightarrow> u32 option" where
  "ctx_source context source s = (if source = 0 then do { c \<leftarrow> context; map_option ctx_handle (sv_ctx s c) } else Some source)"

text \<open>The name of a remote message is not initialised by \<open>skynet_send\<close>; it is taken as empty here.\<close>

definition skynet_send ::
  "ptr \<Rightarrow> u32 \<Rightarrow> u32 \<Rightarrow> u32 \<Rightarrow> int \<Rightarrow> ptr \<Rightarrow> u64 \<Rightarrow> 'w server_state \<Rightarrow> (int \<times> 'w server_state) option" where
  "skynet_send context source destination type session data sz s =
     (if sz AND MESSAGE_TYPE_MASK \<noteq> sz then send_too_large context (show_hex destination) type data s
      else do {
        (session, data, sz, s) \<leftarrow> filter_args context type session data sz s;
        source \<leftarrow> ctx_source context source s;
        (if destination = 0 then
           (case data of
              Some a \<Rightarrow> do {
                s \<leftarrow> skynet_error context ''Destination address can't be 0'' s;
                s \<leftarrow> skynet_free data s;
                Some (- 1, s) }
            | None \<Rightarrow> Some (session, s))
         else do {
           remote \<leftarrow> skynet_harbor_message_isremote destination s;
           (if remote then remote_send (replicate GLOBALNAME_LENGTH NUL) destination source session data sz s
            else do {
              (r, s) \<leftarrow> skynet_context_push destination \<lparr>msg_source = source, msg_session = session,
                   msg_data = data, msg_sz = sz\<rparr> s;
              (if r \<noteq> 0 then do { s \<leftarrow> skynet_free data s; Some (- 1, s) }
               else Some (session, s)) }) }) })"

definition copy_name :: "string \<Rightarrow> string" where
  "copy_name addr = strncpy GLOBALNAME_LENGTH (addr @ [NUL])"

definition skynet_sendname ::
  "ptr \<Rightarrow> u32 \<Rightarrow> string \<Rightarrow> u32 \<Rightarrow> int \<Rightarrow> ptr \<Rightarrow> u64 \<Rightarrow> 'w server_state \<Rightarrow> (int \<times> 'w server_state) option" where
  "skynet_sendname context source addr type session data sz s = do {
     source \<leftarrow> ctx_source context source s;
     (case addr of
        c # rest \<Rightarrow>
          if c = CHR '':'' then skynet_send context source (ucast (strtoul16 rest)) type session data sz s
          else if c = CHR ''.'' then do {
            des \<leftarrow> skynet_handle_findname rest (sv_hs s);
            (if des = 0 then do {
               s \<leftarrow> (if type AND TAG_DONTCOPY \<noteq> 0 then skynet_free data s else Some s);
               Some (- 1, s) }
             else skynet_send context source des type session data sz s) }
          else if sz AND MESSAGE_TYPE_MASK \<noteq> sz then send_too_large context addr type data s
          else do {
            (session, data, sz, s) \<leftarrow> filter_args context type session data sz s;
            remote_send (copy_name addr) 0 source session data sz s }
      | [] \<Rightarrow>
          if sz AND MESSAGE_TYPE_MASK \<noteq> sz then send_too_large context addr type data s
          else do {
            (session, data, sz, s) \<leftarrow> filter_args context type session data sz s;
            remote_send (copy_name addr) 0 source session data sz s }) }"

definition skynet_queryname :: "addr \<Rightarrow> string \<Rightarrow> 'w server_state \<Rightarrow> (u32 \<times> 'w server_state) option" where
  "skynet_queryname context name s = (case name of
       c # rest \<Rightarrow>
         if c = CHR '':'' then Some (ucast (strtoul16 rest), s)
         else if c = CHR ''.'' then do { h \<leftarrow> skynet_handle_findname rest (sv_hs s); Some (h, s) }
         else do { s \<leftarrow> skynet_error (Some context) (''Don't support query global name '' @ name) s; Some (0, s) }
     | [] \<Rightarrow> do { s \<leftarrow> skynet_error (Some context) ''Don't support query global name '' s; Some (0, s) })"

definition skynet_isremote :: "u32 \<Rightarrow> 'w server_state \<Rightarrow> (bool \<times> int) option" where
  "skynet_isremote handle s = do {
     r \<leftarrow> skynet_harbor_message_isremote handle s;
     Some (r, uint (drop_bit HANDLE_REMOTE_SHIFT handle)) }"

text \<open>The callback of \<open>skynet_mq_release\<close>, on the queues and the rest of the state.\<close>

definition drop_message ::
  "u32 \<Rightarrow> skynet_message \<Rightarrow> mq_state \<times> 'w server_state \<Rightarrow> (mq_state \<times> 'w server_state) option" where
  "drop_message handle msg sw = do {
     s \<leftarrow> skynet_free (msg_data msg) ((snd sw)\<lparr>sv_mq := fst sw\<rparr>);
     assert_opt (handle \<noteq> 0);
     (_, s) \<leftarrow> skynet_send None handle (msg_source msg) PTYPE_ERROR (msg_session msg) None 0 s;
     Some (sv_mq s, s) }"

definition mq_release_drop :: "addr \<Rightarrow> u32 \<Rightarrow> 'w server_state \<Rightarrow> 'w server_state option" where
  "mq_release_drop q handle s = do {
     (mq, s) \<leftarrow> skynet_mq_release q (drop_message handle) (sv_mq s, s);
     Some (s\<lparr>sv_mq := mq\<rparr>) }"

definition skynet_callback :: "addr \<Rightarrow> ptr \<Rightarrow> nat \<Rightarrow> 'w server_state \<Rightarrow> 'w server_state option" where
  "skynet_callback c ud cb s = ctx_upd c (\<lambda>x. x\<lparr>ctx_cb := Some cb, ctx_cb_ud := ud\<rparr>) s"

subsection \<open>Launching a service\<close>

text \<open>A module by its index; \<open>m_query\<close> finds or loads it (\<^verbatim>\<open>skynet_module.c\<close>).\<close>

record 'w modules =
  m_query :: "string \<Rightarrow> nat option"
  m_create :: "nat \<Rightarrow> 'w \<Rightarrow> ptr \<times> 'w"
  m_init :: "nat \<Rightarrow> addr \<Rightarrow> addr \<Rightarrow> string option \<Rightarrow> 'w server_state \<Rightarrow> (int \<times> 'w server_state) option"

definition context_create :: "nat \<Rightarrow> addr \<Rightarrow> 'w server_state \<Rightarrow> (addr \<times> addr \<times> 'w server_state) option" where
  "context_create md inst s = do {
     let c = sv_brk s;
     let ctx = \<lparr>ctx_instance = inst, ctx_mod = md, ctx_cb_ud = None, ctx_cb = None, ctx_queue = 0, ctx_logfile = None,
       ctx_cpu_cost = 0, ctx_cpu_start = 0, ctx_result = [], ctx_handle = 0, ctx_session_id = 0, ctx_ref = 2,
       ctx_message_count = 0, ctx_init = False, ctx_endless = False, ctx_profile = sv_profile s\<rparr>;
     let s = s\<lparr>sv_ctx := (sv_ctx s)(c \<mapsto> ctx), sv_brk := sv_brk s + 1\<rparr>;
     (handle, hs) \<leftarrow> skynet_handle_register (ctx_handles s) c (sv_hs s);
     let q = sv_brk s;
     mq \<leftarrow> skynet_mq_create q handle (sv_mq s);
     s \<leftarrow> ctx_upd c (\<lambda>x. x\<lparr>ctx_handle := handle, ctx_queue := q\<rparr>)
            (s\<lparr>sv_hs := hs, sv_mq := mq, sv_brk := sv_brk s + 1\<rparr>);
     Some (c, q, s\<lparr>sv_total := sv_total s + 1\<rparr>) }"

text \<open>The service is up: from here on workers may dispatch its messages.\<close>

definition context_launched :: "addr \<Rightarrow> addr \<Rightarrow> 'w server_state \<Rightarrow> (ptr \<times> 'w server_state) option" where
  "context_launched c q s = do {
     (ret, s) \<leftarrow> skynet_context_release c s;
     s \<leftarrow> (case ret of Some c \<Rightarrow> ctx_upd c (ctx_init_update (\<lambda>_. True)) s | None \<Rightarrow> Some s);
     mq \<leftarrow> skynet_globalmq_push q (sv_mq s);
     Some (ret, s\<lparr>sv_mq := mq\<rparr>) }"

definition context_failed :: "addr \<Rightarrow> addr \<Rightarrow> string \<Rightarrow> 'w server_state \<Rightarrow> 'w server_state option" where
  "context_failed c q name s = do {
     s \<leftarrow> skynet_error (Some c) (''FAILED launch '' @ name) s;
     x \<leftarrow> sv_ctx s c;
     (_, s) \<leftarrow> skynet_context_release c s;
     s \<leftarrow> handle_retire (ctx_handle x) s;
     mq_release_drop q (ctx_handle x) s }"

definition skynet_context_new ::
  "'w modules \<Rightarrow> string \<Rightarrow> string option \<Rightarrow> 'w server_state \<Rightarrow> (ptr \<times> 'w server_state) option" where
  "skynet_context_new M name param s = (case m_query M name of
       None \<Rightarrow> Some (None, s)
     | Some md \<Rightarrow> (case m_create M md (sv_world s) of
           (None, w) \<Rightarrow> Some (None, s\<lparr>sv_world := w\<rparr>)
         | (Some inst, w) \<Rightarrow> do {
             (c, q, s) \<leftarrow> context_create md inst (s\<lparr>sv_world := w\<rparr>);
             (r, s) \<leftarrow> m_init M md inst c param s;
             (if r = 0 then do {
                (ret, s) \<leftarrow> context_launched c q s;
                s \<leftarrow> (case ret of
                    Some c \<Rightarrow> skynet_error (Some c)
                      (''LAUNCH '' @ name @ '' '' @ (case param of Some p \<Rightarrow> p | None \<Rightarrow> [])) s
                  | None \<Rightarrow> Some s);
                Some (ret, s) }
              else do {
                s \<leftarrow> context_failed c q name s;
                Some (None, s) }) }))"

subsection \<open>Dispatch\<close>

text \<open>
  \<open>cb\<close> is the code of the callbacks: address, context, \<open>cb_ud\<close>, type, session, source, data and size; \<open>clock\<close> is
  \<open>skynet_thread_time\<close>.
\<close>

type_synonym 'w callbacks =
  "nat \<Rightarrow> addr \<Rightarrow> ptr \<Rightarrow> u32 \<Rightarrow> int \<Rightarrow> u32 \<Rightarrow> ptr \<Rightarrow> u64 \<Rightarrow> 'w server_state \<Rightarrow> (int \<times> 'w server_state) option"

definition dispatch_log :: "skynet_context \<Rightarrow> skynet_message \<Rightarrow> 'w server_state \<Rightarrow> 'w server_state" where
  "dispatch_log x m s = (case ctx_logfile x of
       Some f \<Rightarrow> s\<lparr>sv_trace := sv_trace s @ [LogOutput f (msg_source m)
           (ucast (drop_bit MESSAGE_TYPE_SHIFT (msg_sz m))) (msg_session m) (msg_data m) (msg_sz m AND MESSAGE_TYPE_MASK)]\<rparr>
     | None \<Rightarrow> s)"

definition ctx_dispatch_message ::
  "('w server_state \<Rightarrow> u64) \<Rightarrow> 'w callbacks \<Rightarrow> addr \<Rightarrow> skynet_message \<Rightarrow> 'w server_state \<Rightarrow> 'w server_state option" where
  "ctx_dispatch_message clock cb c m s = do {
     x \<leftarrow> sv_ctx s c;
     assert_opt (ctx_init x);
     let type = ucast (drop_bit MESSAGE_TYPE_SHIFT (msg_sz m));
     let sz = msg_sz m AND MESSAGE_TYPE_MASK;
     let s = dispatch_log x m s;
     s \<leftarrow> ctx_upd c (ctx_message_count_update (\<lambda>n. n + 1)) s;
     f \<leftarrow> ctx_cb x;
     (reserve_msg, s) \<leftarrow> (if ctx_profile x then do {
          s \<leftarrow> ctx_upd c (ctx_cpu_start_update (\<lambda>_. clock s)) s;
          (r, s) \<leftarrow> cb f c (ctx_cb_ud x) type (msg_session m) (msg_source m) (msg_data m) sz s;
          s \<leftarrow> ctx_upd c (\<lambda>x. x\<lparr>ctx_cpu_cost := ctx_cpu_cost x + (clock s - ctx_cpu_start x)\<rparr>) s;
          Some (r, s) }
        else cb f c (ctx_cb_ud x) type (msg_session m) (msg_source m) (msg_data m) sz s);
     (if reserve_msg = 0 then skynet_free (msg_data m) s else Some s) }"

partial_function (option) dispatchall_loop ::
  "('w server_state \<Rightarrow> u64) \<Rightarrow> 'w callbacks \<Rightarrow> addr \<Rightarrow> addr \<Rightarrow> 'w server_state \<Rightarrow> 'w server_state option" where
  "dispatchall_loop clock cb c q s = do {
     (r, mq) \<leftarrow> skynet_mq_pop q (sv_mq s);
     let s = s\<lparr>sv_mq := mq\<rparr>;
     (case r of None \<Rightarrow> Some s
      | Some m \<Rightarrow> do { s \<leftarrow> ctx_dispatch_message clock cb c m s; dispatchall_loop clock cb c q s }) }"

definition skynet_context_dispatchall ::
  "('w server_state \<Rightarrow> u64) \<Rightarrow> 'w callbacks \<Rightarrow> addr \<Rightarrow> 'w server_state \<Rightarrow> 'w server_state option" where
  "skynet_context_dispatchall clock cb c s = do {
     x \<leftarrow> sv_ctx s c;
     dispatchall_loop clock cb c (ctx_queue x) s }"

definition skynet_monitor_trigger :: "skynet_monitor \<Rightarrow> u32 \<Rightarrow> u32 \<Rightarrow> skynet_monitor" where
  "skynet_monitor_trigger sm source destination =
     sm\<lparr>sm_source := source, sm_destination := destination, sm_version := signed_take_bit 31 (sm_version sm + 1)\<rparr>"

text \<open>One message of the \<open>for\<close> loop, after it has been popped.\<close>

definition dispatch_one ::
  "('w server_state \<Rightarrow> u64) \<Rightarrow> 'w callbacks \<Rightarrow> addr \<Rightarrow> addr \<Rightarrow> u32 \<Rightarrow> skynet_message \<Rightarrow>
   skynet_monitor \<Rightarrow> 'w server_state \<Rightarrow> (skynet_monitor \<times> 'w server_state) option" where
  "dispatch_one clock cb c q handle m sm s = do {
     (overload, mq) \<leftarrow> skynet_mq_overload q (sv_mq s);
     let s = s\<lparr>sv_mq := mq\<rparr>;
     s \<leftarrow> (if overload \<noteq> 0
          then skynet_error (Some c) (''May overload, message queue length = '' @ show_int overload) s else Some s);
     let sm = skynet_monitor_trigger sm (msg_source m) handle;
     x \<leftarrow> sv_ctx s c;
     s \<leftarrow> (if ctx_cb x = None then skynet_free (msg_data m) s else ctx_dispatch_message clock cb c m s);
     Some (skynet_monitor_trigger sm 0 0, s) }"

text \<open>The \<open>for\<close> loop: \<open>Inl q\<close> when the function returns from inside it, \<open>Inr ()\<close> at its end.\<close>

partial_function (option) dispatch_loop ::
  "('w server_state \<Rightarrow> u64) \<Rightarrow> 'w callbacks \<Rightarrow> addr \<Rightarrow> addr \<Rightarrow> u32 \<Rightarrow> int \<Rightarrow> int \<Rightarrow> int \<Rightarrow>
   skynet_monitor \<Rightarrow> 'w server_state \<Rightarrow> ((ptr + unit) \<times> skynet_monitor \<times> 'w server_state) option" where
  "dispatch_loop clock cb c q handle weight i n sm s =
     (if i < n then do {
        (r, mq) \<leftarrow> skynet_mq_pop q (sv_mq s);
        let s = s\<lparr>sv_mq := mq\<rparr>;
        (case r of
           None \<Rightarrow> do {
             (_, s) \<leftarrow> skynet_context_release c s;
             (nq, mq) \<leftarrow> skynet_globalmq_pop (sv_mq s);
             Some (Inl nq, sm, s\<lparr>sv_mq := mq\<rparr>) }
         | Some m \<Rightarrow> do {
             len \<leftarrow> skynet_mq_length q (sv_mq s);
             let n = (if i = 0 \<and> 0 \<le> weight then drop_bit (nat weight) len else n);
             (sm, s) \<leftarrow> dispatch_one clock cb c q handle m sm s;
             dispatch_loop clock cb c q handle weight (i + 1) n sm s }) }
      else Some (Inr (), sm, s))"

text \<open>After the loop: the next queue, and \<open>q\<close> back to the global queue unless there is no other.\<close>

definition dispatch_next :: "addr \<Rightarrow> addr \<Rightarrow> 'w server_state \<Rightarrow> (ptr \<times> 'w server_state) option" where
  "dispatch_next c q s = do {
     x \<leftarrow> sv_ctx s c;
     assert_opt (q = ctx_queue x);
     (nq, mq) \<leftarrow> skynet_globalmq_pop (sv_mq s);
     (q, mq) \<leftarrow> (case nq of
         Some nq \<Rightarrow> do { mq \<leftarrow> skynet_globalmq_push q mq; Some (nq, mq) }
       | None \<Rightarrow> Some (q, mq));
     (_, s) \<leftarrow> skynet_context_release c (s\<lparr>sv_mq := mq\<rparr>);
     Some (Some q, s) }"

definition dispatch_queue ::
  "('w server_state \<Rightarrow> u64) \<Rightarrow> 'w callbacks \<Rightarrow> skynet_monitor \<Rightarrow> addr \<Rightarrow> int \<Rightarrow> 'w server_state \<Rightarrow>
   (ptr \<times> skynet_monitor \<times> 'w server_state) option" where
  "dispatch_queue clock cb sm q weight s = do {
     handle \<leftarrow> skynet_mq_handle q (sv_mq s);
     (cp, s) \<leftarrow> handle_grab handle s;
     (case cp of
        None \<Rightarrow> do {
          s \<leftarrow> mq_release_drop q handle s;
          (nq, mq) \<leftarrow> skynet_globalmq_pop (sv_mq s);
          Some (nq, sm, s\<lparr>sv_mq := mq\<rparr>) }
      | Some c \<Rightarrow> do {
          (r, sm, s) \<leftarrow> dispatch_loop clock cb c q handle weight 0 1 sm s;
          (case r of Inl nq \<Rightarrow> Some (nq, sm, s)
           | Inr _ \<Rightarrow> do { (nq, s) \<leftarrow> dispatch_next c q s; Some (nq, sm, s) }) }) }"

definition skynet_context_message_dispatch ::
  "('w server_state \<Rightarrow> u64) \<Rightarrow> 'w callbacks \<Rightarrow> skynet_monitor \<Rightarrow> ptr \<Rightarrow> int \<Rightarrow> 'w server_state \<Rightarrow>
   (ptr \<times> skynet_monitor \<times> 'w server_state) option" where
  "skynet_context_message_dispatch clock cb sm q weight s = (case q of
       Some q \<Rightarrow> dispatch_queue clock cb sm q weight s
     | None \<Rightarrow> do {
         (q, mq) \<leftarrow> skynet_globalmq_pop (sv_mq s);
         let s = s\<lparr>sv_mq := mq\<rparr>;
         (case q of None \<Rightarrow> Some (None, sm, s) | Some q \<Rightarrow> dispatch_queue clock cb sm q weight s) })"

definition show_hex8 :: "u32 \<Rightarrow> string" where
  "show_hex8 w = replicate (8 - length (show_hex w)) (CHR ''0'') @ show_hex w"

text \<open>The monitor thread: a worker whose version has not moved since the last check is still in the same message.\<close>

definition skynet_monitor_check :: "skynet_monitor \<Rightarrow> 'w server_state \<Rightarrow> (skynet_monitor \<times> 'w server_state) option" where
  "skynet_monitor_check sm s =
     (if sm_version sm = sm_check_version sm then
        (if sm_destination sm \<noteq> 0 then do {
           s \<leftarrow> skynet_context_endless (sm_destination sm) s;
           s \<leftarrow> skynet_error None (''A message from [ :'' @ show_hex8 (sm_source sm) @ '' ] to [ :'' @
                  show_hex8 (sm_destination sm) @ '' ] maybe in an endless loop (version = '' @ show_int (sm_version sm) @ '')'') s;
           Some (sm, s) }
         else Some (sm, s))
      else Some (sm\<lparr>sm_check_version := sm_version sm\<rparr>, s))"

end
