(* ===== verification/Skynet_Server.thy ===== *)
theory Skynet_Server
  imports Skynet_Context "HOL-Library.Multiset"
begin

unbundle bit_operations_syntax

text \<open>
  Correctness of contexts, queues and the directory together: who owns what while several threads create, kill, send
  to and dispatch services.

  The atomic operations of the threads, each under one lock or on one atomic variable, are the steps of
  \<open>server_step\<close>; a ghost state records what the threads hold.  The invariant \<open>server_inv\<close> ties reference counts, queues and
  message data to it, and every operation of \<open>Skynet_Context\<close> is defined in its states and is a sequence of steps.
\<close>

subsection \<open>Queues as their owners see them\<close>

text \<open>The handle, the release mark and the messages of a queue.\<close>

definition qview :: "mq_state \<Rightarrow> addr \<Rightarrow> (u32 \<times> int \<times> skynet_message list) option" where
  "qview s p = map_option (\<lambda>q. (mq_handle q, mq_release q, mq_list q)) (mq_heap s p)"

lemma qview_None [simp]: "qview s p = None \<longleftrightarrow> mq_heap s p = None"
  by (simp add: qview_def)

lemma qview_Some: "qview s p = Some (h, r, ms) \<longleftrightarrow> (\<exists>q. mq_heap s p = Some q \<and> mq_handle q = h \<and> mq_release q = r \<and> mq_list q = ms)"
  by (auto simp: qview_def)

lemma qview_upd [simp]: "qview (mq_upd p q s) = (qview s)(p \<mapsto> (mq_handle q, mq_release q, mq_list q))"
  by (simp add: qview_def fun_eq_iff)

lemma qview_Q [simp]: "qview (s\<lparr>Q_head := h\<rparr>) = qview s" "qview (s\<lparr>Q_tail := t\<rparr>) = qview s"
  by (simp_all add: qview_def fun_eq_iff)

lemma qview_same: "mq_heap s p = Some q \<Longrightarrow> (qview s)(p \<mapsto> (mq_handle q, mq_release q, mq_list q)) = qview s"
  by (auto simp: qview_def fun_eq_iff)

lemma qview_global_push: "skynet_globalmq_push p s = Some s' \<Longrightarrow> qview s' = qview s"
  by (auto simp: skynet_globalmq_push_def bind_Some_iff qview_same split: option.splits)

lemma qview_global_pop: "skynet_globalmq_pop s = Some (r, s') \<Longrightarrow> qview s' = qview s"
  by (auto simp: skynet_globalmq_pop_def bind_Some_iff qview_same Let_def split: option.splits if_splits)

lemma view_push:
  assumes inv: "sched_inv xs (s, H)" and v: "qview s p = Some (h, 0, ms)"
  shows "\<exists>s' ys. skynet_mq_push p m s = Some s' \<and> sched_inv ys (s', H) \<and> qview s' = (qview s)(p \<mapsto> (h, 0, ms @ [m]))"
proof -
  obtain q where q: "mq_heap s p = Some q" "mq_handle q = h" "mq_release q = 0" "mq_list q = ms"
    using v by (auto simp: qview_Some)
  obtain s' ys where s': "skynet_mq_push p m s = Some s'" "sched_inv ys (s', H)"
    using sched_inv_push_msg [OF inv q(1,3)] by blast
  have "mq_wf q" using sched_invD(3) [OF inv q(1)] by (simp add: queue_ok_def)
  then obtain q' where "mq_push_local m q = Some q'" "mq_list q' = ms @ [m]" "mq_handle q' = h" "mq_release q' = 0"
    using mq_push_local_ok [of q m] q by auto
  then have "qview s' = (qview s)(p \<mapsto> (h, 0, ms @ [m]))"
    using s'(1) q(1) by (auto simp: skynet_mq_push_def dest!: qview_global_push split: if_splits)
  with s' show ?thesis by blast
qed

lemma view_take:
  assumes inv: "sched_inv xs (s, H)"
  shows "\<exists>r s'. skynet_globalmq_pop s = Some (r, s') \<and> qview s' = qview s \<and>
    (case r of None \<Rightarrow> s' = s | Some p \<Rightarrow> p \<notin> H \<and> (\<exists>ys. sched_inv ys (s', insert p H)))"
proof (cases xs)
  case Nil
  then show ?thesis using skynet_globalmq_pop_nil [of s] sched_invD(1) [OF inv] by auto
next
  case (Cons p ys)
  then obtain s' where s': "skynet_globalmq_pop s = Some (Some p, s')" "sched_inv ys (s', insert p H)"
    using sched_inv_take [of p ys s H] inv by auto
  have "p \<notin> H" using inv Cons sched_inv_held [OF inv, of p] by (metis list.set_intros(1))
  with s' qview_global_pop [OF s'(1)] show ?thesis by auto
qed

lemma view_requeue:
  assumes "sched_inv xs (s, H)" "p \<in> H"
  shows "\<exists>s' ys. skynet_globalmq_push p s = Some s' \<and> sched_inv ys (s', H - {p}) \<and> qview s' = qview s"
  using sched_inv_requeue [OF assms] qview_global_push by metis

lemma view_overload:
  assumes "sched_inv xs (s, H)" "p \<in> H"
  shows "\<exists>r s'. skynet_mq_overload p s = Some (r, s') \<and> sched_inv xs (s', H) \<and> qview s' = qview s"
proof -
  obtain r s' where s': "skynet_mq_overload p s = Some (r, s')" "sched_inv xs (s', H)"
    using sched_inv_overload [OF assms] by blast
  have "qview s' = qview s"
    using s'(1) by (auto simp: skynet_mq_overload_def bind_Some_iff mq_overload_local_def mq_list_def mq_ring_def
        mq_length_def qview_def fun_eq_iff split: prod.splits if_splits)
  with s' show ?thesis by blast
qed

lemma view_mark:
  assumes "sched_inv xs (s, H)" "qview s p = Some (h, 0, ms)"
  shows "\<exists>s' ys. skynet_mq_mark_release p s = Some s' \<and> sched_inv ys (s', H) \<and> qview s' = (qview s)(p \<mapsto> (h, 1, ms))"
proof -
  obtain q where q: "mq_heap s p = Some q" "mq_handle q = h" "mq_release q = 0" "mq_list q = ms"
    using assms(2) by (auto simp: qview_Some)
  obtain s' ys where s': "skynet_mq_mark_release p s = Some s'" "sched_inv ys (s', H)"
    using sched_inv_mark [OF assms(1) q(1,3)] by blast
  moreover have "qview s' = (qview s)(p \<mapsto> (h, 1, ms))"
    using s'(1) q by (auto simp: skynet_mq_mark_release_def Let_def dest!: qview_global_push split: if_splits)
  ultimately show ?thesis by blast
qed

lemma view_pop:
  assumes inv: "sched_inv xs (s, H)" and p: "p \<in> H" "qview s p = Some (h, r, ms)"
  shows "case ms of
      [] \<Rightarrow> \<exists>s'. skynet_mq_pop p s = Some (None, s') \<and> qview s' = qview s \<and>
        (r = 0 \<longrightarrow> sched_inv xs (s', H - {p})) \<and>
        (r \<noteq> 0 \<longrightarrow> (\<exists>s2. mq_release_free p s' = Some s2 \<and> sched_inv xs (s2, H - {p}) \<and> qview s2 = (qview s)(p := None)))
    | m # ms' \<Rightarrow> \<exists>s'. skynet_mq_pop p s = Some (Some m, s') \<and> sched_inv xs (s', H) \<and> qview s' = (qview s)(p \<mapsto> (h, r, ms'))"
proof -
  obtain q where q: "mq_heap s p = Some q" "mq_handle q = h" "mq_release q = r" "mq_list q = ms"
    using p(2) by (auto simp: qview_Some)
  have wf: "mq_wf q" using sched_invD(3) [OF inv q(1)] by (simp add: queue_ok_def)
  show ?thesis
  proof (cases ms)
    case Nil
    let ?q = "q\<lparr>mq_overload_threshold := MQ_OVERLOAD, mq_in_global := 0\<rparr>"
    let ?s = "mq_upd p ?q s"
    have l: "mq_list ?q = mq_list q" by (simp add: mq_list_def mq_ring_def mq_length_def)
    have pop: "skynet_mq_pop p s = Some (None, ?s)" "r = 0 \<Longrightarrow> sched_inv xs (?s, H - {p})"
      using sched_inv_pop [OF inv p(1) q(1)] q Nil by auto
    have "qview ?s = qview s" using q l by (auto simp: qview_def fun_eq_iff)
    moreover obtain s2 where s2: "mq_release_free p ?s = Some s2" "sched_inv xs (s2, H - {p})" "mq_heap s2 p = None"
      using sched_inv_free [OF inv p(1) q(1)] by blast
    moreover have "qview s2 = (qview s)(p := None)"
      using s2(1) by (auto simp: mq_release_free_def bind_Some_iff qview_def fun_eq_iff)
    ultimately show ?thesis using pop Nil by auto
  next
    case (Cons m ms')
    then have ne: "mq_list q \<noteq> []" using q by simp
    obtain s' where s': "skynet_mq_pop p s = Some (Some m, s')" "sched_inv xs (s', H)"
      using sched_inv_pop [OF inv p(1) q(1)] q Cons by auto
    moreover have "qview s' = (qview s)(p \<mapsto> (h, r, ms'))"
      using s'(1) mq_pop_local_cons [OF wf ne] q Cons by (auto simp: skynet_mq_pop_def)
    ultimately show ?thesis using Cons by auto
  qed
qed

lemma view_create:
  assumes "sched_inv xs (s, H)" "qview s p = None"
  shows "\<exists>s'. skynet_mq_create p h s = Some s' \<and> sched_inv xs (s', insert p H) \<and> qview s' = (qview s)(p \<mapsto> (h, 0, []))"
proof -
  have "skynet_mq_create p h s = Some (mq_upd p (mq_new h) s)" using assms(2) by (simp add: skynet_mq_create_def)
  with sched_inv_create [OF assms(1) this] show ?thesis
    using mq_new_list [of h] by (simp add: mq_new_def)
qed

subsection \<open>What the threads hold\<close>

text \<open>
  \<open>gH\<close>: the queues held, by the creator of a service until it is launched (these are \<open>gL\<close>) or by a worker; \<open>gF\<close>: the references
  to contexts, each thread's counted; \<open>gD\<close>: the blocks of data allocated and not in a queue.
\<close>

record ghost =
  gH :: "addr set"
  gL :: "addr set"
  gF :: "addr multiset"
  gD :: "addr set"

definition qmsgs :: "(addr \<Rightarrow> (u32 \<times> int \<times> skynet_message list) option) \<Rightarrow> addr \<Rightarrow> skynet_message list" where
  "qmsgs v p = (case v p of Some (_, _, ms) \<Rightarrow> ms | None \<Rightarrow> [])"

definition mdata :: "skynet_message list \<Rightarrow> addr list" where
  "mdata ms = List.map_filter msg_data ms"

lemma qmsgs_simps [simp]:
  "v p = None \<Longrightarrow> qmsgs v p = []"
  "v p = Some (h, r, ms) \<Longrightarrow> qmsgs v p = ms"
  by (simp_all add: qmsgs_def)

lemma qmsgs_upd: "qmsgs (v(p \<mapsto> (h, r, ms))) = (qmsgs v)(p := ms)"
  by (simp add: qmsgs_def fun_eq_iff)

lemma mdata_simps [simp]:
  "mdata [] = []"
  "mdata (m # ms) = (case msg_data m of Some a \<Rightarrow> a # mdata ms | None \<Rightarrow> mdata ms)"
  "mdata (ms @ ms') = mdata ms @ mdata ms'"
  by (induction ms) (simp_all add: mdata_def map_filter_simps split: option.split)

text \<open>A message from another node is answered through the harbor service, which must be there.\<close>

definition source_ok :: "'w server_state \<Rightarrow> u32 \<Rightarrow> bool" where
  "source_ok s h \<longleftrightarrow> sv_REMOTE s \<noteq> None \<or> h AND NOT HANDLE_MASK \<in> {sv_HARBOR s, 0}"

subsection \<open>The invariant\<close>

text \<open>Every reference is counted: the directory's, the harbor's, and those of the threads.\<close>

definition ref_count :: "'w server_state \<Rightarrow> ghost \<Rightarrow> addr \<Rightarrow> int" where
  "ref_count s g c = of_bool (c \<in> contexts (sv_hs s)) + of_bool (sv_REMOTE s = Some c) + int (count (gF g) c)"

definition refs_ok :: "'w server_state \<Rightarrow> ghost \<Rightarrow> bool" where
  "refs_ok s g \<longleftrightarrow> finite (dom (sv_ctx s)) \<and> set_mset (gF g) \<subseteq> dom (sv_ctx s) \<and>
     contexts (sv_hs s) \<subseteq> dom (sv_ctx s) \<and> set_option (sv_REMOTE s) \<subseteq> dom (sv_ctx s) \<and>
     (\<forall>c x. sv_ctx s c = Some x \<longrightarrow> ctx_ref x = ref_count s g c \<and> ref_count s g c \<noteq> 0) \<and>
     sv_total s = int (card (dom (sv_ctx s))) - of_bool (sv_REMOTE s \<noteq> None)"

text \<open>A context has its own queue, which carries its handle and is not marked; a registered context is found from
  the handle of its queue alone, and is initialised unless its creator still holds the queue.\<close>

definition owners_ok :: "'w server_state \<Rightarrow> ghost \<Rightarrow> bool" where
  "owners_ok s g \<longleftrightarrow> gL g \<subseteq> gH g \<and>
     (\<forall>c x. sv_ctx s c = Some x \<longrightarrow> (\<exists>ms. qview (sv_mq s) (ctx_queue x) = Some (ctx_handle x, 0, ms)) \<and>
        (c \<in> contexts (sv_hs s) \<and> \<not> ctx_init x \<longrightarrow> ctx_queue x \<in> gL g)) \<and>
     (\<forall>c c' x x'. sv_ctx s c = Some x \<and> sv_ctx s c' = Some x' \<and> ctx_queue x = ctx_queue x' \<longrightarrow> c = c') \<and>
     (\<forall>c x p r ms. sv_ctx s c = Some x \<and> c \<in> contexts (sv_hs s) \<and> qview (sv_mq s) p = Some (ctx_handle x, r, ms) \<longrightarrow>
        p = ctx_queue x) \<and>
     (\<forall>p h r ms. qview (sv_mq s) p = Some (h, r, ms) \<longrightarrow> h \<noteq> 0 \<and> h AND NOT HANDLE_MASK = sv_HARBOR s)"

lemma owners_okD:
  assumes "owners_ok s g"
  shows "gL g \<subseteq> gH g"
    and "sv_ctx s c = Some x \<Longrightarrow> \<exists>ms. qview (sv_mq s) (ctx_queue x) = Some (ctx_handle x, 0, ms)"
    and "sv_ctx s c = Some x \<Longrightarrow> c \<in> contexts (sv_hs s) \<Longrightarrow> \<not> ctx_init x \<Longrightarrow> ctx_queue x \<in> gL g"
    and "sv_ctx s c = Some x \<Longrightarrow> sv_ctx s c' = Some x' \<Longrightarrow> ctx_queue x = ctx_queue x' \<Longrightarrow> c = c'"
    and "sv_ctx s c = Some x \<Longrightarrow> c \<in> contexts (sv_hs s) \<Longrightarrow> qview (sv_mq s) p = Some (ctx_handle x, r, ms) \<Longrightarrow> p = ctx_queue x"
    and "qview (sv_mq s) p = Some (h, r, ms) \<Longrightarrow> h \<noteq> 0 \<and> h AND NOT HANDLE_MASK = sv_HARBOR s"
  using assms unfolding owners_ok_def by metis+

lemma owners_okI:
  assumes "gL g \<subseteq> gH g"
    and "\<And>c x. sv_ctx s c = Some x \<Longrightarrow> \<exists>ms. qview (sv_mq s) (ctx_queue x) = Some (ctx_handle x, 0, ms)"
    and "\<And>c x. sv_ctx s c = Some x \<Longrightarrow> c \<in> contexts (sv_hs s) \<Longrightarrow> \<not> ctx_init x \<Longrightarrow> ctx_queue x \<in> gL g"
    and "\<And>c x c' x'. sv_ctx s c = Some x \<Longrightarrow> sv_ctx s c' = Some x' \<Longrightarrow> ctx_queue x = ctx_queue x' \<Longrightarrow> c = c'"
    and "\<And>c x p r ms. sv_ctx s c = Some x \<Longrightarrow> c \<in> contexts (sv_hs s) \<Longrightarrow>
      qview (sv_mq s) p = Some (ctx_handle x, r, ms) \<Longrightarrow> p = ctx_queue x"
    and "\<And>p h r ms. qview (sv_mq s) p = Some (h, r, ms) \<Longrightarrow> h \<noteq> 0 \<and> h AND NOT HANDLE_MASK = sv_HARBOR s"
  shows "owners_ok s g"
  using assms unfolding owners_ok_def by blast

text \<open>A block of data is in one message of one queue or held by a thread, and it is allocated.\<close>

definition owned :: "(addr \<Rightarrow> addr list) \<Rightarrow> addr set \<Rightarrow> addr set \<Rightarrow> bool" where
  "owned f D A \<longleftrightarrow> D \<subseteq> A \<and> (\<forall>p. distinct (f p) \<and> set (f p) \<subseteq> A - D) \<and> (\<forall>p p'. p \<noteq> p' \<longrightarrow> set (f p) \<inter> set (f p') = {})"

lemma owned_upd:
  assumes f: "owned f D A" and l: "distinct l" "set l \<inter> D' = {}" "set l \<union> D' = set (f p) \<union> D"
  shows "owned (f(p := l)) D' A"
proof -
  have A: "set l \<subseteq> A" "D' \<subseteq> A" using f l(3) by (auto simp: owned_def)
  have other: "set (f p') \<inter> set l = {}" "set (f p') \<subseteq> A - D'" if "p' \<noteq> p" for p'
    using f that l(3) unfolding owned_def by blast+
  have "distinct (f p')" "p' \<noteq> p'' \<Longrightarrow> set (f p') \<inter> set (f p'') = {}" for p' p''
    using f by (auto simp: owned_def)
  moreover have "set l \<subseteq> A - D'" using A l(2) by blast
  ultimately show ?thesis using A(2) other l(1) by (simp add: owned_def Int_commute)
qed

lemma owned_alloc: "owned f D A \<Longrightarrow> a \<notin> A \<Longrightarrow> owned f (insert a D) (insert a A)"
  by (auto simp: owned_def)

lemma owned_free: "owned f D A \<Longrightarrow> a \<in> D \<Longrightarrow> owned f (D - {a}) (A - {a})"
  by (auto simp: owned_def)

definition qdata :: "(addr \<Rightarrow> (u32 \<times> int \<times> skynet_message list) option) \<Rightarrow> addr \<Rightarrow> addr list" where
  "qdata v p = mdata (qmsgs v p)"

lemma qdata_upd [simp]: "qdata (v(p \<mapsto> (h, r, ms))) = (qdata v)(p := mdata ms)"
  by (simp add: qdata_def fun_eq_iff qmsgs_def)

lemma qdata_drop: "qmsgs v p = [] \<Longrightarrow> qdata (v(p := None)) = qdata v"
  by (auto simp: qdata_def fun_eq_iff qmsgs_def)

definition data_ok :: "'w server_state \<Rightarrow> ghost \<Rightarrow> bool" where
  "data_ok s g \<longleftrightarrow> owned (qdata (qview (sv_mq s))) (gD g) (dom (sv_data s))"

definition node_ok :: "'w server_state \<Rightarrow> bool" where
  "node_ok s \<longleftrightarrow> handle_inv (ctx_handles s) (sv_hs s) \<and> name_inv (sv_hs s) \<and> sv_HARBOR s = hs_harbor (sv_hs s) \<and>
     (\<forall>a \<ge> sv_brk s. sv_ctx s a = None \<and> sv_data s a = None \<and> qview (sv_mq s) a = None) \<and>
     (\<forall>p. \<forall>m \<in> set (qmsgs (qview (sv_mq s)) p). source_ok s (msg_source m))"

lemma ctx_handles_frame [simp]:
  "ctx_handles (s\<lparr>sv_mq := mq\<rparr>) = ctx_handles s"
  "ctx_handles (s\<lparr>sv_hs := hs\<rparr>) = ctx_handles s"
  "ctx_handles (s\<lparr>sv_data := d\<rparr>) = ctx_handles s"
  "ctx_handles (s\<lparr>sv_brk := b\<rparr>) = ctx_handles s"
  "ctx_handles (s\<lparr>sv_total := n\<rparr>) = ctx_handles s"
  "ctx_handles (s\<lparr>sv_REMOTE := p\<rparr>) = ctx_handles s"
  "ctx_handles (s\<lparr>sv_trace := tr\<rparr>) = ctx_handles s"
  by (simp_all add: ctx_handles_def fun_eq_iff)

lemma source_ok_frame [simp]:
  "source_ok (s\<lparr>sv_mq := mq\<rparr>) = source_ok s"
  "source_ok (s\<lparr>sv_hs := hs\<rparr>) = source_ok s"
  "source_ok (s\<lparr>sv_data := d\<rparr>) = source_ok s"
  "source_ok (s\<lparr>sv_brk := b\<rparr>) = source_ok s"
  "source_ok (s\<lparr>sv_ctx := c\<rparr>) = source_ok s"
  "source_ok (s\<lparr>sv_total := n\<rparr>) = source_ok s"
  "source_ok (s\<lparr>sv_trace := tr\<rparr>) = source_ok s"
  by (simp_all add: source_ok_def fun_eq_iff)

definition server_inv :: "'w server_state \<Rightarrow> ghost \<Rightarrow> bool" where
  "server_inv s g \<longleftrightarrow> (\<exists>xs. sched_inv xs (sv_mq s, gH g)) \<and> refs_ok s g \<and> owners_ok s g \<and> data_ok s g \<and> node_ok s"

lemma server_invI:
  "sched_inv xs (sv_mq s, gH g) \<Longrightarrow> refs_ok s g \<Longrightarrow> owners_ok s g \<Longrightarrow> data_ok s g \<Longrightarrow> node_ok s \<Longrightarrow> server_inv s g"
  by (auto simp: server_inv_def)

lemma server_invE:
  assumes "server_inv s g"
  obtains xs where "sched_inv xs (sv_mq s, gH g)" "refs_ok s g" "owners_ok s g" "data_ok s g" "node_ok s"
  using assms by (auto simp: server_inv_def)

lemma handle_inv_cong: "(\<And>c. c \<in> contexts hs \<Longrightarrow> ch c = ch' c) \<Longrightarrow> handle_inv ch hs = handle_inv ch' hs"
  unfolding handle_inv_def slot_ok_def contexts_def
  by (intro conj_cong refl) (metis (mono_tags, lifting) mem_Collect_eq nth_mem)

text \<open>A change of one queue's messages, with the blocks that move in or out of it.\<close>

lemma inv_queue:
  assumes inv: "server_inv s g" and v: "qview (sv_mq s) p = Some (h, r, ms)"
    and mq: "sched_inv ys (mq, H)" "qview mq = (qview (sv_mq s))(p \<mapsto> (h, r, ms'))" and L: "gL g \<subseteq> H"
    and d: "distinct (mdata ms')" "set (mdata ms') \<inter> D = {}" "set (mdata ms') \<union> D = set (mdata ms) \<union> gD g"
    and src: "\<forall>m \<in> set ms'. source_ok s (msg_source m)"
  shows "server_inv (s\<lparr>sv_mq := mq\<rparr>) (g\<lparr>gH := H, gD := D\<rparr>)"
proof (rule server_invI)
  let ?s = "s\<lparr>sv_mq := mq\<rparr>" and ?g = "g\<lparr>gH := H, gD := D\<rparr>"
  obtain xs where parts: "refs_ok s g" "owners_ok s g" "data_ok s g" "node_ok s" using inv by (rule server_invE)
  show "sched_inv ys (sv_mq ?s, gH ?g)" using mq by simp
  show "refs_ok ?s ?g" using parts(1) by (simp add: refs_ok_def ref_count_def)
  have q: "(\<exists>ms. qview mq p' = Some (h', r', ms)) \<longleftrightarrow> (\<exists>ms. qview (sv_mq s) p' = Some (h', r', ms))" for p' h' r'
    using v by (simp add: mq(2))
  have "(qview mq p' = Some (h', r', ms0) \<Longrightarrow> \<exists>ms. qview (sv_mq s) p' = Some (h', r', ms))" for p' h' r' ms0
    using q by blast
  then show "owners_ok ?s ?g" using parts(2) L unfolding owners_ok_def by (simp add: q)
  have "qdata (qview (sv_mq s)) p = mdata ms" using v by (simp add: qdata_def)
  then show "data_ok ?s ?g" using owned_upd [of "qdata (qview (sv_mq s))" "gD g" _ "mdata ms'" D p] parts(3) d
    by (simp add: data_ok_def mq(2))
  have "qview (sv_mq s) a \<noteq> None \<Longrightarrow> a < sv_brk s" for a
    using parts(4) unfolding node_ok_def by (metis leI)
  from this [of p] have "p < sv_brk s" using v by (simp del: qview_None)
  then show "node_ok ?s" using parts(4) src unfolding node_ok_def by (simp add: mq(2) qmsgs_upd)
qed

text \<open>A change of the directory and of the references that leaves contexts and queues alone.\<close>

lemma inv_malloc:
  assumes "server_inv s g" "skynet_malloc b s = (a, s')"
  shows "server_inv s' (g\<lparr>gD := insert a (gD g)\<rparr>)"
proof -
  obtain xs where parts: "sched_inv xs (sv_mq s, gH g)" "refs_ok s g" "owners_ok s g" "data_ok s g" "node_ok s"
    using assms(1) by (rule server_invE)
  let ?s = "s\<lparr>sv_data := (sv_data s)(a \<mapsto> b), sv_brk := a + 1\<rparr>" and ?g = "g\<lparr>gD := insert a (gD g)\<rparr>"
  have s': "s' = ?s" "a = sv_brk s" using assms(2) by (auto simp: skynet_malloc_def)
  have "a \<notin> dom (sv_data s)" using parts(5) s'(2) by (auto simp: node_ok_def)
  then have "data_ok ?s ?g" using owned_alloc [of _ "gD g" "dom (sv_data s)" a] parts(4) by (simp add: data_ok_def)
  moreover have "refs_ok ?s ?g" "owners_ok ?s ?g" "node_ok ?s"
    using parts(2,3,5) s'(2) by (simp_all add: refs_ok_def ref_count_def owners_ok_def node_ok_def)
  moreover have "sched_inv xs (sv_mq ?s, gH ?g)" using parts(1) by simp
  ultimately show ?thesis unfolding s'(1) by (intro server_invI)
qed

lemma inv_free:
  assumes "server_inv s g" "a \<in> gD g"
  shows "\<exists>s'. skynet_free (Some a) s = Some s' \<and> server_inv s' (g\<lparr>gD := gD g - {a}\<rparr>)"
proof -
  obtain xs where parts: "sched_inv xs (sv_mq s, gH g)" "refs_ok s g" "owners_ok s g" "data_ok s g" "node_ok s"
    using assms(1) by (rule server_invE)
  let ?s = "s\<lparr>sv_data := (sv_data s)(a := None)\<rparr>" and ?g = "g\<lparr>gD := gD g - {a}\<rparr>"
  have "sv_data s a \<noteq> None" using parts(4) assms(2) by (auto simp: data_ok_def owned_def)
  then have "skynet_free (Some a) s = Some ?s" by (auto simp: skynet_free_def)
  moreover have "data_ok ?s ?g" using owned_free [of _ "gD g" "dom (sv_data s)" a] parts(4) assms(2)
    by (simp add: data_ok_def)
  moreover have "refs_ok ?s ?g" "owners_ok ?s ?g" "node_ok ?s"
    using parts(2,3,5) by (simp_all add: refs_ok_def ref_count_def owners_ok_def node_ok_def)
  moreover have "sched_inv xs (sv_mq ?s, gH ?g)" using parts(1) by simp
  ultimately show ?thesis by (intro exI [of _ ?s] conjI server_invI)
qed

text \<open>A context's fields and the references to it; \<open>R\<close> holds the references afterwards.\<close>

definition same_owner :: "skynet_context \<Rightarrow> skynet_context \<Rightarrow> bool" where
  "same_owner x y \<longleftrightarrow> ctx_queue y = ctx_queue x \<and> ctx_handle y = ctx_handle x \<and> (ctx_init x \<longrightarrow> ctx_init y)"

lemma inv_ctx:
  assumes inv: "server_inv s g" and x: "sv_ctx s c = Some x" and y: "same_owner x y"
    and ref: "ctx_ref y = ref_count s (g\<lparr>gF := F\<rparr>) c" "ctx_ref y \<noteq> 0"
    and F: "\<And>c'. c' \<noteq> c \<Longrightarrow> count F c' = count (gF g) c'"
  shows "server_inv (s\<lparr>sv_ctx := (sv_ctx s)(c \<mapsto> y)\<rparr>) (g\<lparr>gF := F\<rparr>)"
proof -
  obtain xs where parts: "sched_inv xs (sv_mq s, gH g)" "refs_ok s g" "owners_ok s g" "data_ok s g" "node_ok s"
    using inv by (rule server_invE)
  let ?s = "s\<lparr>sv_ctx := (sv_ctx s)(c \<mapsto> y)\<rparr>" and ?g = "g\<lparr>gF := F\<rparr>"
  have dom: "dom (sv_ctx ?s) = dom (sv_ctx s)" using x by auto
  have "c' \<in> dom (sv_ctx s)" if "c' \<in># F" for c'
  proof (cases "c' = c")
    case False
    then have "c' \<in># gF g" using that F by (metis count_greater_zero_iff)
    then show ?thesis using parts(2) by (auto simp: refs_ok_def)
  qed (use x in auto)
  then have "set_mset F \<subseteq> dom (sv_ctx s)" by blast
  moreover have "ref_count ?s ?g c' = ref_count s g c'" if "c' \<noteq> c" for c'
    using F [OF that] by (simp add: ref_count_def)
  moreover have "ref_count ?s ?g c = ctx_ref y" using ref by (simp add: ref_count_def)
  ultimately have "refs_ok ?s ?g" using parts(2) ref(2) unfolding refs_ok_def dom by simp
  moreover have "owners_ok ?s ?g"
  proof -
    note O = owners_okD [OF parts(3)]
    have old: "\<exists>z'. sv_ctx s c' = Some z' \<and> ctx_queue z = ctx_queue z' \<and> ctx_handle z = ctx_handle z' \<and>
        (\<not> ctx_init z \<longrightarrow> \<not> ctx_init z')" if "sv_ctx ?s c' = Some z" for c' z
      using that x y by (cases "c' = c") (auto simp: same_owner_def)
    show ?thesis
    proof (rule owners_okI)
      fix c1 x1 c2 x2 assume "sv_ctx ?s c1 = Some x1" "sv_ctx ?s c2 = Some x2" "ctx_queue x1 = ctx_queue x2"
      then show "c1 = c2" using old [of c1 x1] old [of c2 x2] O(4) by metis
    next
      fix c' z assume z: "sv_ctx ?s c' = Some z"
      then obtain z' where z': "sv_ctx s c' = Some z'" "ctx_queue z = ctx_queue z'" "ctx_handle z = ctx_handle z'"
        "\<not> ctx_init z \<longrightarrow> \<not> ctx_init z'" using old by blast
      show "\<exists>ms. qview (sv_mq ?s) (ctx_queue z) = Some (ctx_handle z, 0, ms)" using O(2) [OF z'(1)] z' by simp
      show "ctx_queue z \<in> gL ?g" if "c' \<in> contexts (sv_hs ?s)" "\<not> ctx_init z" using O(3) [OF z'(1)] z' that by simp
      show "p = ctx_queue z" if "c' \<in> contexts (sv_hs ?s)" "qview (sv_mq ?s) p = Some (ctx_handle z, r, ms)" for p r ms
        using O(5) [OF z'(1)] z' that by simp
    qed (use O(1,6) in simp_all)
  qed
  moreover have "ctx_handles ?s = ctx_handles s" using x y by (auto simp: ctx_handles_def same_owner_def)
  then have "node_ok ?s" using parts(5) x unfolding node_ok_def by (simp; metis option.distinct(1))
  moreover have "data_ok ?s ?g" using parts(4) by (simp add: data_ok_def)
  moreover have "sched_inv xs (sv_mq ?s, gH ?g)" using parts(1) by simp
  ultimately show ?thesis by (intro server_invI)
qed

lemma inv_field:
  assumes inv: "server_inv s g" and c: "c \<in> dom (sv_ctx s)" and f: "\<And>x. same_owner x (f x)" "\<And>x. ctx_ref (f x) = ctx_ref x"
  shows "\<exists>s'. ctx_upd c f s = Some s' \<and> server_inv s' g"
proof -
  obtain x where x: "sv_ctx s c = Some x" using c by blast
  have "ctx_ref x = ref_count s g c" "ctx_ref x \<noteq> 0" using inv x by (auto simp: server_inv_def refs_ok_def)
  with inv_ctx [OF inv x f(1), of "gF g"] f(2) x show ?thesis by (simp add: ctx_upd_def)
qed

lemma ctx_ref_step [simp]:
  "ctx_ref_update (\<lambda>r. r + 1) x = x\<lparr>ctx_ref := ctx_ref x + 1\<rparr>"
  "ctx_ref_update (\<lambda>r. r - 1) x = x\<lparr>ctx_ref := ctx_ref x - 1\<rparr>"
  by simp_all

lemma ctx_handles_contexts:
  assumes "server_inv s g" "c \<in> contexts (sv_hs s)"
  obtains x where "sv_ctx s c = Some x" "ctx_handles s c = ctx_handle x"
  using assms by (auto simp: server_inv_def refs_ok_def ctx_handles_def)

lemma inv_grab:
  assumes inv: "server_inv s g"
  shows "(\<exists>c x. handle_grab h s = Some (Some c, s\<lparr>sv_ctx := (sv_ctx s)(c \<mapsto> x\<lparr>ctx_ref := ctx_ref x + 1\<rparr>)\<rparr>) \<and>
      c \<in> contexts (sv_hs s) \<and> sv_ctx s c = Some x \<and> ctx_handle x = h \<and>
      server_inv (s\<lparr>sv_ctx := (sv_ctx s)(c \<mapsto> x\<lparr>ctx_ref := ctx_ref x + 1\<rparr>)\<rparr>) (g\<lparr>gF := add_mset c (gF g)\<rparr>)) \<or>
    handle_grab h s = Some (None, s) \<and> (\<forall>c \<in> contexts (sv_hs s). ctx_handles s c \<noteq> h)"
proof -
  have hi: "handle_inv (ctx_handles s) (sv_hs s)" using inv by (auto simp: server_inv_def node_ok_def)
  obtain r where r: "skynet_handle_grab (ctx_handles s) h (sv_hs s) = Some r" using grab_iff(2) [OF hi, of h] by auto
  show ?thesis
  proof (cases r)
    case None
    then show ?thesis using r grab_None_iff [OF hi, of h] by (auto simp: handle_grab_def contexts_def)
  next
    case (Some c)
    then have c: "c \<in> contexts (sv_hs s)" "ctx_handles s c = h"
      using r grab_iff(1) [OF hi, of h c] by (auto simp: contexts_def)
    obtain x where x: "sv_ctx s c = Some x" "ctx_handle x = h" using inv c by (metis ctx_handles_contexts)
    let ?x = "x\<lparr>ctx_ref := ctx_ref x + 1\<rparr>"
    have "ctx_ref x = ref_count s g c" "0 \<le> ref_count s g c"
      using inv x by (auto simp: server_inv_def refs_ok_def ref_count_def)
    then have "server_inv (s\<lparr>sv_ctx := (sv_ctx s)(c \<mapsto> ?x)\<rparr>) (g\<lparr>gF := add_mset c (gF g)\<rparr>)"
      by (intro inv_ctx [OF inv x(1)]) (auto simp: same_owner_def ref_count_def)
    moreover have "handle_grab h s = Some (Some c, s\<lparr>sv_ctx := (sv_ctx s)(c \<mapsto> ?x)\<rparr>)"
      using r Some x(1) by (simp add: handle_grab_def skynet_context_grab_def ctx_upd_def)
    ultimately show ?thesis using c(1) x by blast
  qed
qed

text \<open>A queue whose service is gone is changed by nobody but the worker that holds it.\<close>

definition dead_same :: "'w server_state \<Rightarrow> 'w server_state \<Rightarrow> bool" where
  "dead_same s s' \<longleftrightarrow> (\<forall>p h r ms. r \<noteq> 0 \<and> qview (sv_mq s) p = Some (h, r, ms) \<longrightarrow> qview (sv_mq s') p = Some (h, r, ms))"

lemma dead_sameD: "dead_same s s' \<Longrightarrow> r \<noteq> 0 \<Longrightarrow> qview (sv_mq s) p = Some (h, r, ms) \<Longrightarrow> qview (sv_mq s') p = Some (h, r, ms)"
  by (auto simp: dead_same_def)

lemma dead_same_trans: "dead_same s s' \<Longrightarrow> dead_same s' s'' \<Longrightarrow> dead_same s s''"
  by (simp add: dead_same_def)

lemma dead_same_live: "qview (sv_mq s') = (qview (sv_mq s))(p \<mapsto> v) \<Longrightarrow> qview (sv_mq s) p = Some (h, 0, ms) \<Longrightarrow> dead_same s s'"
  by (simp add: dead_same_def)

lemma dead_same_eq: "qview (sv_mq s') = qview (sv_mq s) \<Longrightarrow> dead_same s s'"
  by (simp add: dead_same_def)

lemma ctx_queue_view:
  assumes "server_inv s g" "sv_ctx s c = Some x"
  obtains ms where "qview (sv_mq s) (ctx_queue x) = Some (ctx_handle x, 0, ms)"
proof -
  have "owners_ok s g" using assms(1) by (simp add: server_inv_def)
  then show ?thesis using assms(2) that unfolding owners_ok_def by metis
qed

lemma inv_delete:
  assumes inv: "server_inv s g" and x: "sv_ctx s c = Some x" and last: "ref_count s g c = 1" "c \<in># gF g"
  shows "\<exists>s'. delete_context c (s\<lparr>sv_ctx := (sv_ctx s)(c \<mapsto> x\<lparr>ctx_ref := 0\<rparr>)\<rparr>) = Some s' \<and>
    server_inv s' (g\<lparr>gF := gF g - {#c#}\<rparr>) \<and> sv_ctx s' = (sv_ctx s)(c := None) \<and> sv_hs s' = sv_hs s \<and>
    sv_REMOTE s' = sv_REMOTE s \<and> sv_HARBOR s' = sv_HARBOR s \<and> sv_data s' = sv_data s \<and> sv_brk s' = sv_brk s \<and>
    sv_logger s' = sv_logger s \<and> sv_world s' = sv_world s \<and> dead_same s s'"
proof -
  obtain xs where parts: "sched_inv xs (sv_mq s, gH g)" "refs_ok s g" "owners_ok s g" "data_ok s g" "node_ok s"
    using inv by (rule server_invE)
  obtain n where "count (gF g) c = Suc n" using last(2) by (metis count_greater_zero_iff gr0_conv_Suc)
  then have c: "c \<notin> contexts (sv_hs s)" "sv_REMOTE s \<noteq> Some c" "count (gF g) c = 1"
    using last(1) by (auto simp: ref_count_def of_bool_def split: if_splits)
  obtain ms where v: "qview (sv_mq s) (ctx_queue x) = Some (ctx_handle x, 0, ms)"
    using ctx_queue_view [OF inv x] .
  obtain mq ys where mq: "skynet_mq_mark_release (ctx_queue x) (sv_mq s) = Some mq" "sched_inv ys (mq, gH g)"
    "qview mq = (qview (sv_mq s))(ctx_queue x \<mapsto> (ctx_handle x, 1, ms))"
    using view_mark [OF parts(1) v] by blast
  define tr where "tr = sv_trace s @ (case ctx_logfile x of Some f \<Rightarrow> [Fclose f] | None \<Rightarrow> []) @
    [InstanceRelease (ctx_mod x) (ctx_instance x)]"
  let ?s = "s\<lparr>sv_trace := tr, sv_mq := mq, sv_ctx := (sv_ctx s)(c := None), sv_total := sv_total s - 1\<rparr>"
  let ?g = "g\<lparr>gF := gF g - {#c#}\<rparr>"
  have del: "delete_context c (s\<lparr>sv_ctx := (sv_ctx s)(c \<mapsto> x\<lparr>ctx_ref := 0\<rparr>)\<rparr>) = Some ?s"
    using mq(1) by (simp add: delete_context_def tr_def Let_def)
  have dom: "dom (sv_ctx ?s) = dom (sv_ctx s) - {c}" by auto
  have card: "int (card (dom (sv_ctx s) - {c})) = int (card (dom (sv_ctx s))) - 1"
  proof -
    have "finite (dom (sv_ctx s))" "c \<in> dom (sv_ctx s)" using parts(2) x by (auto simp: refs_ok_def)
    then show ?thesis by (metis card.remove add_diff_cancel_left' of_nat_Suc)
  qed
  have rc: "ref_count ?s ?g c' = ref_count s g c'" if "c' \<noteq> c" for c' using that by (simp add: ref_count_def)
  have "x \<in># gF g - {#c#} \<longleftrightarrow> x \<in># gF g \<and> x \<noteq> c" for x
    using c(3) by (auto simp: count_greater_zero_iff [symmetric] simp del: count_greater_zero_iff)
  then have "set_mset (gF g - {#c#}) = set_mset (gF g) - {c}" by blast
  then have "refs_ok ?s ?g" using parts(2) c(1,2) card rc unfolding refs_ok_def dom by auto
  moreover have "owners_ok ?s ?g"
  proof -
    have view: "(\<exists>ms. qview mq p = Some (h, r, ms)) \<Longrightarrow> \<exists>ms r. qview (sv_mq s) p = Some (h, r, ms)" for p h r
      using v by (auto simp: mq(3) split: if_splits)
    have ne: "ctx_queue y \<noteq> ctx_queue x" if "sv_ctx s c' = Some y" "c' \<noteq> c" for c' y
      using parts(3) that x unfolding owners_ok_def by metis
    note O = owners_okD [OF parts(3)]
    show ?thesis
    proof (rule owners_okI)
      fix c' y assume "sv_ctx ?s c' = Some y"
      then have y: "sv_ctx s c' = Some y" "c' \<noteq> c" by (auto split: if_splits)
      then show "\<exists>ms. qview (sv_mq ?s) (ctx_queue y) = Some (ctx_handle y, 0, ms)"
        using O(2) [OF y(1)] ne [OF y] by (simp add: mq(3))
      show "ctx_queue y \<in> gL ?g" if "c' \<in> contexts (sv_hs ?s)" "\<not> ctx_init y" using O(3) [OF y(1)] that by simp
      show "p = ctx_queue y" if "c' \<in> contexts (sv_hs ?s)" "qview (sv_mq ?s) p = Some (ctx_handle y, r, ms)" for p r ms
        using that view [of p "ctx_handle y" r] O(5) [OF y(1)] by auto
    next
      fix c1 x1 c2 x2 assume "sv_ctx ?s c1 = Some x1" "sv_ctx ?s c2 = Some x2" "ctx_queue x1 = ctx_queue x2"
      then show "c1 = c2" using O(4) [of c1 x1 c2 x2] by (auto split: if_splits)
    next
      fix p h r ms assume "qview (sv_mq ?s) p = Some (h, r, ms)"
      then show "h \<noteq> 0 \<and> h AND NOT HANDLE_MASK = sv_HARBOR ?s" using view [of p h r] O(6) by auto
    qed (use O(1) in simp)
  qed
  moreover have "data_ok ?s ?g"
  proof -
    have "qdata (qview (sv_mq s)) (ctx_queue x) = mdata ms" using v by (simp add: qdata_def)
    then show ?thesis using parts(4) by (simp add: data_ok_def mq(3) fun_upd_idem)
  qed
  moreover have "handle_inv (ctx_handles ?s) (sv_hs ?s)"
  proof -
    have "ctx_handles ?s c' = ctx_handles s c'" if "c' \<in> contexts (sv_hs s)" for c'
      using that c(1) by (auto simp: ctx_handles_def)
    then have "handle_inv (ctx_handles ?s) (sv_hs s) = handle_inv (ctx_handles s) (sv_hs s)" by (rule handle_inv_cong)
    then show ?thesis using parts(5) by (simp add: node_ok_def)
  qed
  then have "node_ok ?s" using parts(5) v unfolding node_ok_def
    by (simp add: mq(3) qmsgs_upd) (metis option.distinct(1) qview_None qmsgs_simps(2))
  moreover have "sched_inv ys (sv_mq ?s, gH ?g)" using mq(2) by simp
  moreover have "dead_same s ?s" using dead_same_live [of ?s s "ctx_queue x"] mq(3) v by simp
  ultimately have "server_inv ?s ?g" "dead_same s ?s" by (simp_all add: server_invI)
  with del show ?thesis by (intro exI [of _ ?s]) simp
qed

lemma inv_release:
  assumes inv: "server_inv s g" and c: "c \<in># gF g"
  shows "\<exists>r s' x. skynet_context_release c s = Some (r, s') \<and> server_inv s' (g\<lparr>gF := gF g - {#c#}\<rparr>) \<and>
    sv_ctx s c = Some x \<and> sv_hs s' = sv_hs s \<and> sv_REMOTE s' = sv_REMOTE s \<and> sv_HARBOR s' = sv_HARBOR s \<and>
    sv_data s' = sv_data s \<and> sv_brk s' = sv_brk s \<and> sv_logger s' = sv_logger s \<and> sv_world s' = sv_world s \<and>
    dead_same s s' \<and>
    (if r = None then sv_ctx s' = (sv_ctx s)(c := None) \<and> c \<notin> contexts (sv_hs s)
     else r = Some c \<and> sv_mq s' = sv_mq s \<and> sv_ctx s' = (sv_ctx s)(c \<mapsto> x\<lparr>ctx_ref := ctx_ref x - 1\<rparr>))"
proof -
  have R: "refs_ok s g" using inv by (simp add: server_inv_def)
  then obtain x where x: "sv_ctx s c = Some x" using c by (auto simp: refs_ok_def)
  have ref: "ctx_ref x = ref_count s g c" "ref_count s g c \<noteq> 0" using R x by (auto simp: refs_ok_def)
  show ?thesis
  proof (cases "ctx_ref x = 1")
    case True
    then obtain s' where "delete_context c (s\<lparr>sv_ctx := (sv_ctx s)(c \<mapsto> x\<lparr>ctx_ref := 0\<rparr>)\<rparr>) = Some s'"
      "server_inv s' (g\<lparr>gF := gF g - {#c#}\<rparr>)" "sv_ctx s' = (sv_ctx s)(c := None)" "sv_hs s' = sv_hs s"
      "sv_REMOTE s' = sv_REMOTE s" "sv_HARBOR s' = sv_HARBOR s" "sv_data s' = sv_data s" "sv_brk s' = sv_brk s"
      "sv_logger s' = sv_logger s" "sv_world s' = sv_world s" "dead_same s s'"
      using inv_delete [OF inv x _ c] ref(1) by auto
    moreover have "c \<notin> contexts (sv_hs s)"
    proof
      assume "c \<in> contexts (sv_hs s)"
      then have "2 \<le> ref_count s g c" using c by (simp add: ref_count_def Suc_le_eq)
      then show False using True ref by simp
    qed
    ultimately show ?thesis using True x by (intro exI [of _ None] exI [of _ s'] exI [of _ x])
      (simp add: skynet_context_release_def ctx_upd_def)
  next
    case False
    let ?s = "s\<lparr>sv_ctx := (sv_ctx s)(c \<mapsto> x\<lparr>ctx_ref := ctx_ref x - 1\<rparr>)\<rparr>"
    have "int (count (gF g - {#c#}) c) = int (count (gF g) c) - 1" using c by (simp add: of_nat_diff Suc_le_eq)
    then have "server_inv ?s (g\<lparr>gF := gF g - {#c#}\<rparr>)"
      using False ref by (intro inv_ctx [OF inv x]) (auto simp: same_owner_def ref_count_def)
    then show ?thesis using False x by (intro exI [of _ "Some c"] exI [of _ ?s] exI [of _ x])
      (simp add: dead_same_eq skynet_context_release_def ctx_upd_def)
  qed
qed

text \<open>Sending to a context that is alive.\<close>

lemma held_view:
  assumes "server_inv s g" "p \<in> gH g"
  obtains h r ms where "qview (sv_mq s) p = Some (h, r, ms)"
proof -
  obtain xs where "sched_inv xs (sv_mq s, gH g)" using assms(1) by (rule server_invE)
  then obtain q where "mq_heap (sv_mq s) p = Some q" using assms(2) by (rule sched_inv_held)
  then show ?thesis using that by (auto simp: qview_def)
qed

lemma view_data:
  assumes "server_inv s g" "qview (sv_mq s) p = Some (h, r, ms)"
  shows "distinct (mdata ms)" "set (mdata ms) \<inter> gD g = {}" "\<forall>m \<in> set ms. source_ok s (msg_source m)"
    "h \<noteq> 0" "h AND NOT HANDLE_MASK = sv_HARBOR s"
proof -
  obtain xs where parts: "owners_ok s g" "data_ok s g" "node_ok s" using assms(1) by (rule server_invE)
  have "qdata (qview (sv_mq s)) p = mdata ms" "qmsgs (qview (sv_mq s)) p = ms" using assms(2) by (simp_all add: qdata_def)
  moreover have "distinct (qdata (qview (sv_mq s)) p)" "set (qdata (qview (sv_mq s)) p) \<subseteq> - gD g"
    using parts(2) by (auto simp: data_ok_def owned_def)
  moreover have "\<forall>m \<in> set (qmsgs (qview (sv_mq s)) p). source_ok s (msg_source m)"
    using parts(3) by (simp add: node_ok_def)
  ultimately show "distinct (mdata ms)" "set (mdata ms) \<inter> gD g = {}" "\<forall>m \<in> set ms. source_ok s (msg_source m)"
    by auto
  show "h \<noteq> 0" "h AND NOT HANDLE_MASK = sv_HARBOR s" using owners_okD(6) [OF parts(1) assms(2)] by simp_all
qed

lemma inv_push:
  assumes inv: "server_inv s g" and x: "sv_ctx s c = Some x" and d: "set_option (msg_data m) \<subseteq> gD g"
    and src: "source_ok s (msg_source m)"
  shows "\<exists>mq. skynet_mq_push (ctx_queue x) m (sv_mq s) = Some mq \<and>
    server_inv (s\<lparr>sv_mq := mq\<rparr>) (g\<lparr>gD := gD g - set_option (msg_data m)\<rparr>) \<and>
    (\<exists>ms. qview (sv_mq s) (ctx_queue x) = Some (ctx_handle x, 0, ms) \<and>
      qview mq = (qview (sv_mq s))(ctx_queue x \<mapsto> (ctx_handle x, 0, ms @ [m])))"
proof -
  obtain ms where v: "qview (sv_mq s) (ctx_queue x) = Some (ctx_handle x, 0, ms)" using ctx_queue_view [OF inv x] .
  obtain xs where xs: "sched_inv xs (sv_mq s, gH g)" "owners_ok s g" using inv by (rule server_invE)
  obtain mq ys where mq: "skynet_mq_push (ctx_queue x) m (sv_mq s) = Some mq" "sched_inv ys (mq, gH g)"
    "qview mq = (qview (sv_mq s))(ctx_queue x \<mapsto> (ctx_handle x, 0, ms @ [m]))"
    using view_push [OF xs(1) v, of m] by blast
  note vd = view_data [OF inv v]
  have "server_inv (s\<lparr>sv_mq := mq\<rparr>) (g\<lparr>gH := gH g, gD := gD g - set_option (msg_data m)\<rparr>)"
    by (rule inv_queue [OF inv v mq(2,3)])
      (use vd d src owners_okD(1) [OF xs(2)] in \<open>auto split: option.splits\<close>)
  with mq(1,3) v show ?thesis by simp
qed

lemma inv_take:
  assumes inv: "server_inv s g"
  shows "\<exists>r mq. skynet_globalmq_pop (sv_mq s) = Some (r, mq) \<and> (case r of None \<Rightarrow> mq = sv_mq s
    | Some p \<Rightarrow> p \<notin> gH g \<and> server_inv (s\<lparr>sv_mq := mq\<rparr>) (g\<lparr>gH := insert p (gH g)\<rparr>))"
proof -
  obtain xs where xs: "sched_inv xs (sv_mq s, gH g)" "owners_ok s g" using inv by (rule server_invE)
  obtain r mq where mq: "skynet_globalmq_pop (sv_mq s) = Some (r, mq)" "qview mq = qview (sv_mq s)"
    "case r of None \<Rightarrow> mq = sv_mq s | Some p \<Rightarrow> p \<notin> gH g \<and> (\<exists>ys. sched_inv ys (mq, insert p (gH g)))"
    using view_take [OF xs(1)] by blast
  show ?thesis
  proof (cases r)
    case (Some p)
    then obtain ys where ys: "p \<notin> gH g" "sched_inv ys (mq, insert p (gH g))" using mq(3) by auto
    obtain q where "mq_heap mq p = Some q" using sched_inv_held [OF ys(2), of p] by blast
    then obtain h r' ms where v: "qview (sv_mq s) p = Some (h, r', ms)" using mq(2) by (metis qview_Some)
    note vd = view_data [OF inv v]
    have "server_inv (s\<lparr>sv_mq := mq\<rparr>) (g\<lparr>gH := insert p (gH g), gD := gD g\<rparr>)"
      by (rule inv_queue [OF inv v ys(2), of ms])
        (use mq(2) v vd owners_okD(1) [OF xs(2)] in \<open>auto simp: fun_upd_idem\<close>)
    then show ?thesis using mq Some ys(1) by auto
  qed (use mq in auto)
qed

lemma inv_requeue:
  assumes inv: "server_inv s g" and p: "p \<in> gH g - gL g"
  shows "\<exists>mq. skynet_globalmq_push p (sv_mq s) = Some mq \<and> server_inv (s\<lparr>sv_mq := mq\<rparr>) (g\<lparr>gH := gH g - {p}\<rparr>)"
proof -
  obtain xs where xs: "sched_inv xs (sv_mq s, gH g)" "owners_ok s g" using inv by (rule server_invE)
  obtain mq ys where mq: "skynet_globalmq_push p (sv_mq s) = Some mq" "sched_inv ys (mq, gH g - {p})"
    "qview mq = qview (sv_mq s)" using view_requeue [OF xs(1), of p] p by blast
  obtain h r ms where v: "qview (sv_mq s) p = Some (h, r, ms)" using held_view [OF inv, of p] p by blast
  note vd = view_data [OF inv v]
  have "server_inv (s\<lparr>sv_mq := mq\<rparr>) (g\<lparr>gH := gH g - {p}, gD := gD g\<rparr>)"
    by (rule inv_queue [OF inv v mq(2), of ms])
      (use mq(3) v vd p owners_okD(1) [OF xs(2)] in \<open>auto simp: fun_upd_idem\<close>)
  with mq(1) show ?thesis by simp
qed

lemma inv_overload:
  assumes inv: "server_inv s g" and p: "p \<in> gH g"
  shows "\<exists>r mq. skynet_mq_overload p (sv_mq s) = Some (r, mq) \<and> server_inv (s\<lparr>sv_mq := mq\<rparr>) g \<and>
    qview mq = qview (sv_mq s)"
proof -
  obtain xs where xs: "sched_inv xs (sv_mq s, gH g)" "owners_ok s g" using inv by (rule server_invE)
  obtain r mq where mq: "skynet_mq_overload p (sv_mq s) = Some (r, mq)" "sched_inv xs (mq, gH g)"
    "qview mq = qview (sv_mq s)" using view_overload [OF xs(1) p] by blast
  obtain h r' ms where v: "qview (sv_mq s) p = Some (h, r', ms)" using held_view [OF inv p] by blast
  note vd = view_data [OF inv v]
  have "server_inv (s\<lparr>sv_mq := mq\<rparr>) (g\<lparr>gH := gH g, gD := gD g\<rparr>)"
    by (rule inv_queue [OF inv v mq(2), of ms])
      (use mq(3) v vd owners_okD(1) [OF xs(2)] in \<open>auto simp: fun_upd_idem\<close>)
  with mq show ?thesis by simp
qed

lemma inv_pop_msg:
  assumes inv: "server_inv s g" and p: "p \<in> gH g" and v: "qview (sv_mq s) p = Some (h, r, m # ms)"
  shows "\<exists>mq. skynet_mq_pop p (sv_mq s) = Some (Some m, mq) \<and> qview mq = (qview (sv_mq s))(p \<mapsto> (h, r, ms)) \<and>
    server_inv (s\<lparr>sv_mq := mq\<rparr>) (g\<lparr>gD := gD g \<union> set_option (msg_data m)\<rparr>) \<and> source_ok s (msg_source m) \<and>
    set_option (msg_data m) \<inter> gD g = {}"
proof -
  obtain xs where xs: "sched_inv xs (sv_mq s, gH g)" "owners_ok s g" using inv by (rule server_invE)
  obtain mq where mq: "skynet_mq_pop p (sv_mq s) = Some (Some m, mq)" "sched_inv xs (mq, gH g)"
    "qview mq = (qview (sv_mq s))(p \<mapsto> (h, r, ms))" using view_pop [OF xs(1) p v] by auto
  note vd = view_data [OF inv v]
  have "server_inv (s\<lparr>sv_mq := mq\<rparr>) (g\<lparr>gH := gH g, gD := gD g \<union> set_option (msg_data m)\<rparr>)"
    by (rule inv_queue [OF inv v mq(2,3)])
      (use vd owners_okD(1) [OF xs(2)] in \<open>auto split: option.splits\<close>)
  with mq vd show ?thesis by (auto split: option.splits)
qed

lemma inv_pop_idle:
  assumes inv: "server_inv s g" and p: "p \<in> gH g - gL g" and v: "qview (sv_mq s) p = Some (h, 0, [])"
  shows "\<exists>mq. skynet_mq_pop p (sv_mq s) = Some (None, mq) \<and> server_inv (s\<lparr>sv_mq := mq\<rparr>) (g\<lparr>gH := gH g - {p}\<rparr>)"
proof -
  obtain xs where xs: "sched_inv xs (sv_mq s, gH g)" "owners_ok s g" using inv by (rule server_invE)
  obtain mq where mq: "skynet_mq_pop p (sv_mq s) = Some (None, mq)" "sched_inv xs (mq, gH g - {p})"
    "qview mq = qview (sv_mq s)" using view_pop [OF xs(1) _ v] p by auto
  have "server_inv (s\<lparr>sv_mq := mq\<rparr>) (g\<lparr>gH := gH g - {p}, gD := gD g\<rparr>)"
    by (rule inv_queue [OF inv v mq(2), of "[]"])
      (use mq(3) v p owners_okD(1) [OF xs(2)] in \<open>auto simp: fun_upd_idem\<close>)
  with mq(1) show ?thesis by simp
qed

lemma inv_pop_free:
  assumes inv: "server_inv s g" and p: "p \<in> gH g - gL g" and v: "qview (sv_mq s) p = Some (h, r, [])" "r \<noteq> 0"
  shows "\<exists>mq mq2. skynet_mq_pop p (sv_mq s) = Some (None, mq) \<and> mq_release_free p mq = Some mq2 \<and>
    server_inv (s\<lparr>sv_mq := mq2\<rparr>) (g\<lparr>gH := gH g - {p}\<rparr>)"
proof -
  obtain xs where parts: "sched_inv xs (sv_mq s, gH g)" "refs_ok s g" "owners_ok s g" "data_ok s g" "node_ok s"
    using inv by (rule server_invE)
  obtain mq mq2 where mq: "skynet_mq_pop p (sv_mq s) = Some (None, mq)" "mq_release_free p mq = Some mq2"
    "sched_inv xs (mq2, gH g - {p})" "qview mq2 = (qview (sv_mq s))(p := None)"
    using view_pop [OF parts(1) _ v(1)] p v(2) by auto
  let ?s = "s\<lparr>sv_mq := mq2\<rparr>" and ?g = "g\<lparr>gH := gH g - {p}\<rparr>"
  note O = owners_okD [OF parts(3)]
  have ne: "ctx_queue y \<noteq> p" if "sv_ctx s c = Some y" for c y using O(2) [OF that] v by auto
  have "owners_ok ?s ?g"
  proof (rule owners_okI)
    fix c y assume y: "sv_ctx ?s c = Some y"
    then show "\<exists>ms. qview (sv_mq ?s) (ctx_queue y) = Some (ctx_handle y, 0, ms)"
      using O(2) [of c y] ne [of c y] by (simp add: mq(4))
    show "ctx_queue y \<in> gL ?g" if "c \<in> contexts (sv_hs ?s)" "\<not> ctx_init y" using O(3) [of c y] that y by simp
    show "p' = ctx_queue y" if "c \<in> contexts (sv_hs ?s)" "qview (sv_mq ?s) p' = Some (ctx_handle y, r', ms)" for p' r' ms
      using that O(5) [of c y p'] y by (auto simp: mq(4) split: if_splits)
  next
    fix c1 x1 c2 x2 assume "sv_ctx ?s c1 = Some x1" "sv_ctx ?s c2 = Some x2" "ctx_queue x1 = ctx_queue x2"
    then show "c1 = c2" using O(4) [of c1 x1 c2 x2] by simp
  next
    fix p' h' r' ms assume "qview (sv_mq ?s) p' = Some (h', r', ms)"
    then show "h' \<noteq> 0 \<and> h' AND NOT HANDLE_MASK = sv_HARBOR ?s" using O(6) [of p'] by (auto simp: mq(4) split: if_splits)
  qed (use O(1) p in auto)
  moreover have "refs_ok ?s ?g" using parts(2) by (simp add: refs_ok_def ref_count_def)
  moreover have "data_ok ?s ?g" using parts(4) v(1) by (simp add: data_ok_def mq(4) qdata_drop)
  moreover have "node_ok ?s" using parts(5) by (auto simp: node_ok_def mq(4) qmsgs_def)
  moreover have "sched_inv xs (sv_mq ?s, gH ?g)" using mq(3) by simp
  ultimately have "server_inv ?s ?g" by (intro server_invI)
  with mq(1,2) show ?thesis by blast
qed

text \<open>The directory.\<close>

lemma retire_frame: "skynet_handle_retire ch h s = Some (n, cp, s') \<Longrightarrow> hs_harbor s' = hs_harbor s"
  by (auto simp: skynet_handle_retire_def bind_Some_iff Let_def split: option.splits if_splits prod.splits)

lemma in_set_upd_None: "Some x \<in> set (xs[k := None]) \<longleftrightarrow> (\<exists>j < length xs. j \<noteq> k \<and> xs ! j = Some x)"
  unfolding in_set_conv_nth length_list_update by (metis nth_list_update_eq nth_list_update_neq option.distinct(1))

lemma contexts_retire:
  assumes hi: "handle_inv ch hs" and c: "Some c \<in> set (hs_slot hs)"
    and slot: "hs_slot hs' = (hs_slot hs)[slot_hash (ch c) (hs_slot_size hs) := None]"
  shows "contexts hs' = contexts hs - {c}"
proof -
  let ?i = "slot_hash (ch c) (hs_slot_size hs)"
  have ok: "\<And>i c'. i < length (hs_slot hs) \<Longrightarrow> hs_slot hs ! i = Some c' \<Longrightarrow> slot_hash (ch c') (hs_slot_size hs) = i"
    using hi by (auto simp: handle_inv_def slot_ok_def)
  have "Some c' \<in> set (hs_slot hs') \<longleftrightarrow> Some c' \<in> set (hs_slot hs) \<and> c' \<noteq> c" for c'
  proof -
    obtain k where k: "k < length (hs_slot hs)" "hs_slot hs ! k = Some c" using c by (meson in_set_conv_nth)
    then have at: "?i = k" using ok by blast
    have "Some c' \<in> set (hs_slot hs') \<longleftrightarrow> (\<exists>j < length (hs_slot hs). j \<noteq> k \<and> hs_slot hs ! j = Some c')"
      unfolding slot at by (rule in_set_upd_None)
    also have "\<dots> \<longleftrightarrow> Some c' \<in> set (hs_slot hs) \<and> c' \<noteq> c"
      unfolding in_set_conv_nth using ok [of _ c] k at by (metis option.inject)
    finally show ?thesis .
  qed
  then show ?thesis by (auto simp: contexts_def)
qed

lemma inv_retire:
  assumes inv: "server_inv s g"
  shows "(\<exists>c hs. skynet_handle_retire (ctx_handles s) h (sv_hs s) = Some (1, Some c, hs) \<and> ctx_handles s c = h \<and>
      c \<in> contexts (sv_hs s) \<and> contexts hs = contexts (sv_hs s) - {c} \<and>
      server_inv (s\<lparr>sv_hs := hs\<rparr>) (g\<lparr>gF := add_mset c (gF g)\<rparr>)) \<or>
    skynet_handle_retire (ctx_handles s) h (sv_hs s) = Some (0, None, sv_hs s) \<and>
      (\<forall>c \<in> contexts (sv_hs s). ctx_handles s c \<noteq> h)"
proof -
  obtain xs where parts: "sched_inv xs (sv_mq s, gH g)" "refs_ok s g" "owners_ok s g" "data_ok s g" "node_ok s"
    using inv by (rule server_invE)
  have hi: "handle_inv (ctx_handles s) (sv_hs s)" "name_inv (sv_hs s)" using parts(5) by (auto simp: node_ok_def)
  show ?thesis
  proof (cases "\<exists>c. Some c \<in> set (hs_slot (sv_hs s)) \<and> ctx_handles s c = h")
    case False
    then have "skynet_handle_grab (ctx_handles s) h (sv_hs s) = Some None" by (simp add: grab_None_iff [OF hi(1)])
    then have "skynet_handle_retire (ctx_handles s) h (sv_hs s) = Some (0, None, sv_hs s)"
      by (auto simp: skynet_handle_grab_def skynet_handle_retire_def bind_Some_iff split: option.splits if_splits)
    with False show ?thesis by (auto simp: contexts_def)
  next
    case True
    then obtain c where c: "Some c \<in> set (hs_slot (sv_hs s))" "ctx_handles s c = h" by blast
    obtain hs where hs: "skynet_handle_retire (ctx_handles s) h (sv_hs s) = Some (1, Some c, hs)"
      "handle_inv (ctx_handles s) hs" "name_inv hs"
      "hs_slot hs = (hs_slot (sv_hs s))[slot_hash h (hs_slot_size (sv_hs s)) := None]"
      using hi c by (rule retire_spec) blast
    have con: "contexts hs = contexts (sv_hs s) - {c}" using contexts_retire [OF hi(1) c(1)] hs(4) c(2) by simp
    have cin: "c \<in> contexts (sv_hs s)" using c by (simp add: contexts_def)
    let ?s = "s\<lparr>sv_hs := hs\<rparr>" and ?g = "g\<lparr>gF := add_mset c (gF g)\<rparr>"
    have "ref_count ?s ?g c' = ref_count s g c'" for c' using cin con by (auto simp: ref_count_def)
    moreover have "c \<in> dom (sv_ctx s)" using parts(2) cin by (auto simp: refs_ok_def)
    ultimately have "refs_ok ?s ?g" using parts(2) con unfolding refs_ok_def by auto
    moreover have "owners_ok ?s ?g"
    proof -
      note O = owners_okD [OF parts(3)]
      show ?thesis by (rule owners_okI) (use O con in auto)
    qed
    moreover have "data_ok ?s ?g" using parts(4) by (simp add: data_ok_def)
    moreover have "node_ok ?s" using parts(5) hs(2,3) retire_frame [OF hs(1)] by (simp add: node_ok_def)
    moreover have "sched_inv xs (sv_mq ?s, gH ?g)" using parts(1) by simp
    ultimately have "server_inv ?s ?g" by (intro server_invI)
    then show ?thesis using hs(1) c(2) cin con by blast
  qed
qed

lemma inv_name:
  assumes inv: "server_inv s g" and room: "hs_name_count (sv_hs s) < MAX_SLOT_SIZE"
  shows "\<exists>r hs. skynet_handle_namehandle h name (sv_hs s) = Some (r, hs) \<and> server_inv (s\<lparr>sv_hs := hs\<rparr>) g"
proof -
  obtain xs where parts: "sched_inv xs (sv_mq s, gH g)" "refs_ok s g" "owners_ok s g" "data_ok s g" "node_ok s"
    using inv by (rule server_invE)
  have "name_inv (sv_hs s)" using parts(5) by (simp add: node_ok_def)
  from insert_name_spec [OF this room, of name h]
  obtain r cap a n where hs: "skynet_handle_namehandle h name (sv_hs s) =
      Some (r, (sv_hs s)\<lparr>hs_name_cap := cap, hs_name := a, hs_name_count := n\<rparr>)"
    "name_inv ((sv_hs s)\<lparr>hs_name_cap := cap, hs_name := a, hs_name_count := n\<rparr>)"
  proof (cases "name_lookup (sv_hs s) name")
    case None
    with insert_name_spec [OF \<open>name_inv (sv_hs s)\<close> room, of name h] that show ?thesis
      by (auto simp: Let_def skynet_handle_namehandle_def)
  next
    case (Some h')
    with insert_name_spec [OF \<open>name_inv (sv_hs s)\<close> room, of name h] have
      "skynet_handle_namehandle h name (sv_hs s) = Some (None, (sv_hs s)\<lparr>hs_name_cap := hs_name_cap (sv_hs s),
        hs_name := hs_name (sv_hs s), hs_name_count := hs_name_count (sv_hs s)\<rparr>)"
      by (simp add: skynet_handle_namehandle_def)
    then show ?thesis by (rule that) (use \<open>name_inv (sv_hs s)\<close> in simp)
  qed
  let ?hs = "(sv_hs s)\<lparr>hs_name_cap := cap, hs_name := a, hs_name_count := n\<rparr>"
  let ?s = "s\<lparr>sv_hs := ?hs\<rparr>"
  have con: "contexts ?hs = contexts (sv_hs s)" by (simp add: contexts_def)
  have "handle_inv (ctx_handles s) ?hs" using parts(5) by (simp add: node_ok_def handle_inv_def)
  then have "node_ok ?s" using parts(5) hs(2) by (simp add: node_ok_def)
  moreover have "refs_ok ?s g" "owners_ok ?s g" "data_ok ?s g"
    using parts(2-4) by (simp_all add: refs_ok_def ref_count_def owners_ok_def data_ok_def con)
  moreover have "sched_inv xs (sv_mq ?s, gH g)" using parts(1) by simp
  ultimately have "server_inv ?s g" by (intro server_invI)
  with hs(1) show ?thesis by blast
qed

lemma inv_abandon:
  assumes inv: "server_inv s g"
    and ok: "\<And>c x. sv_ctx s c = Some x \<Longrightarrow> c \<in> contexts (sv_hs s) \<Longrightarrow> ctx_queue x = q \<Longrightarrow> ctx_init x"
  shows "server_inv s (g\<lparr>gL := gL g - {q}\<rparr>)"
proof -
  obtain xs where parts: "sched_inv xs (sv_mq s, gH g)" "refs_ok s g" "owners_ok s g" "data_ok s g" "node_ok s"
    using inv by (rule server_invE)
  let ?g = "g\<lparr>gL := gL g - {q}\<rparr>"
  note O = owners_okD [OF parts(3)]
  have "owners_ok s ?g" by (rule owners_okI) (use O ok in auto)
  moreover have "refs_ok s ?g" "data_ok s ?g" using parts(2,4) by (simp_all add: refs_ok_def ref_count_def data_ok_def)
  ultimately show ?thesis using parts(1,5) by (intro server_invI) simp_all
qed

lemma inv_harbor_start:
  assumes inv: "server_inv s g" and c: "c \<in># gF g" and none: "sv_REMOTE s = None"
  shows "\<exists>s'. skynet_harbor_start c s = Some s' \<and> server_inv s' g"
proof -
  obtain xs where parts: "sched_inv xs (sv_mq s, gH g)" "refs_ok s g" "owners_ok s g" "data_ok s g" "node_ok s"
    using inv by (rule server_invE)
  obtain x where x: "sv_ctx s c = Some x" using parts(2) c by (auto simp: refs_ok_def)
  let ?x = "x\<lparr>ctx_ref := ctx_ref x + 1\<rparr>"
  let ?s = "s\<lparr>sv_ctx := (sv_ctx s)(c \<mapsto> ?x), sv_total := sv_total s - 1, sv_REMOTE := Some c\<rparr>"
  have run: "skynet_harbor_start c s = Some ?s"
    using x by (simp add: skynet_harbor_start_def skynet_context_reserve_def skynet_context_grab_def ctx_upd_def)
  have dom: "dom (sv_ctx ?s) = dom (sv_ctx s)" using x by auto
  have rc: "ref_count ?s g c' = ref_count s g c' + of_bool (c' = c)" "0 \<le> ref_count s g c'" for c'
    using none by (auto simp: ref_count_def)
  have old: "ctx_ref x = ref_count s g c" using parts(2) x by (auto simp: refs_ok_def)
  have counts: "ctx_ref y = ref_count ?s g c' \<and> ref_count ?s g c' \<noteq> 0" if "sv_ctx ?s c' = Some y" for c' y
  proof (cases "c' = c")
    case True
    then show ?thesis using that old rc(1) [of c] rc(2) [of c] by auto
  next
    case False
    then show ?thesis using that parts(2) rc(1) [of c'] by (auto simp: refs_ok_def)
  qed
  have "sv_total ?s = int (card (dom (sv_ctx s))) - of_bool (sv_REMOTE ?s \<noteq> None)" using parts(2) none by (simp add: refs_ok_def)
  moreover have "finite (dom (sv_ctx s))" "set_mset (gF g) \<subseteq> dom (sv_ctx s)" "contexts (sv_hs ?s) \<subseteq> dom (sv_ctx s)"
    "set_option (sv_REMOTE ?s) \<subseteq> dom (sv_ctx s)" using parts(2) x by (auto simp: refs_ok_def)
  ultimately have "refs_ok ?s g" using counts unfolding refs_ok_def dom by blast
  moreover have "owners_ok ?s g"
  proof -
    note O = owners_okD [OF parts(3)]
    show ?thesis by (rule owners_okI) (use O x in \<open>auto split: if_splits\<close>)
  qed
  moreover have "data_ok ?s g" using parts(4) by (simp add: data_ok_def)
  moreover have "ctx_handles ?s = ctx_handles s" using x by (auto simp: ctx_handles_def)
  then have "node_ok ?s" using parts(5) x by (auto simp: node_ok_def source_ok_def)
  moreover have "sched_inv xs (sv_mq ?s, gH g)" using parts(1) by simp
  ultimately have "server_inv ?s g" by (intro server_invI)
  with run show ?thesis by blast
qed

text \<open>Creating a context: the hypothesis on the handle is that no queue of an earlier service with it is left.\<close>

lemma context_create_spec:
  assumes inv: "server_inv s g" and room: "card (contexts (sv_hs s)) < 2 ^ 24 - 1"
  shows "\<exists>h s' x. context_create md i s = Some (sv_brk s, sv_brk s + 1, s') \<and> sv_ctx s' = (sv_ctx s)(sv_brk s \<mapsto> x) \<and>
    ctx_handle x = h \<and> ctx_queue x = sv_brk s + 1 \<and> \<not> ctx_init x \<and> contexts (sv_hs s') = insert (sv_brk s) (contexts (sv_hs s)) \<and>
    ((\<forall>p r ms. qview (sv_mq s) p \<noteq> Some (h, r, ms)) \<longrightarrow> server_inv s'
      (g\<lparr>gH := insert (sv_brk s + 1) (gH g), gL := insert (sv_brk s + 1) (gL g), gF := add_mset (sv_brk s) (gF g)\<rparr>))"
proof -
  obtain xs where parts: "sched_inv xs (sv_mq s, gH g)" "refs_ok s g" "owners_ok s g" "data_ok s g" "node_ok s"
    using inv by (rule server_invE)
  let ?c = "sv_brk s" and ?q = "sv_brk s + 1"
  define x0 where "x0 = \<lparr>ctx_instance = i, ctx_mod = md, ctx_cb_ud = None, ctx_cb = None, ctx_queue = 0,
    ctx_logfile = None, ctx_cpu_cost = 0, ctx_cpu_start = 0, ctx_result = [], ctx_handle = 0, ctx_session_id = 0,
    ctx_ref = 2, ctx_message_count = 0, ctx_init = False, ctx_endless = False, ctx_profile = sv_profile s\<rparr>"
  define s1 where "s1 = s\<lparr>sv_ctx := (sv_ctx s)(?c \<mapsto> x0), sv_brk := sv_brk s + 1\<rparr>"
  have fresh: "sv_ctx s ?c = None" "qview (sv_mq s) ?q = None" and brk: "\<And>a. sv_brk s \<le> a \<Longrightarrow> sv_ctx s a = None \<and> sv_data s a = None \<and> qview (sv_mq s) a = None"
    using parts(5) by (auto simp: node_ok_def)
  have new: "?c \<notin> contexts (sv_hs s)" using parts(2) fresh(1) by (auto simp: refs_ok_def)
  have "ctx_handles s1 c = ctx_handles s c" if "c \<in> contexts (sv_hs s)" for c
    using that new by (auto simp: s1_def ctx_handles_def)
  then have "handle_inv (ctx_handles s1) (sv_hs s)" using parts(5) handle_inv_cong unfolding node_ok_def by metis
  from register_spec [OF this new room] obtain h hs where
    reg: "skynet_handle_register (ctx_handles s1) ?c (sv_hs s) = Some (h, hs)"
      "handle_inv ((ctx_handles s1)(?c := h)) hs" "h AND NOT HANDLE_MASK = hs_harbor (sv_hs s)" "h AND HANDLE_MASK \<noteq> 0"
      "hs_harbor hs = hs_harbor (sv_hs s)" "hs_name hs = hs_name (sv_hs s)" "hs_name_count hs = hs_name_count (sv_hs s)"
      "hs_name_cap hs = hs_name_cap (sv_hs s)"
    and slots: "\<forall>c. Some c \<in> set (hs_slot hs) \<longleftrightarrow> c = ?c \<or> Some c \<in> set (hs_slot (sv_hs s))" by blast
  have con: "contexts hs = insert ?c (contexts (sv_hs s))" using slots by (auto simp: contexts_def)
  obtain mq where mq: "skynet_mq_create ?q h (sv_mq s) = Some mq" "sched_inv xs (mq, insert ?q (gH g))"
    "qview mq = (qview (sv_mq s))(?q \<mapsto> (h, 0, []))" using view_create [OF parts(1) fresh(2)] by blast
  define x where "x = x0\<lparr>ctx_handle := h, ctx_queue := ?q\<rparr>"
  define s' where "s' = s\<lparr>sv_ctx := (sv_ctx s)(?c \<mapsto> x), sv_brk := sv_brk s + 2, sv_hs := hs, sv_mq := mq, sv_total := sv_total s + 1\<rparr>"
  let ?g = "g\<lparr>gH := insert ?q (gH g), gL := insert ?q (gL g), gF := add_mset ?c (gF g)\<rparr>"
  have run: "context_create md i s = Some (?c, ?q, s')"
    using reg(1) mq(1) by (simp add: context_create_def ctx_upd_def s'_def s1_def x0_def x_def Let_def)
  have xf: "ctx_queue x = ?q" "ctx_handle x = h" by (simp_all add: x_def)
  have h0: "h \<noteq> 0" using reg(4) by auto
  have "server_inv s' ?g" if unused: "\<forall>p r ms. qview (sv_mq s) p \<noteq> Some (h, r, ms)"
  proof (rule server_invI)
    show "sched_inv xs (sv_mq s', gH ?g)" using mq(2) by (simp add: s'_def)
    have "card (insert ?c (dom (sv_ctx s))) = card (dom (sv_ctx s)) + 1"
      using fresh(1) parts(2) by (simp add: refs_ok_def domIff)
    moreover have "count (gF g) ?c = 0" "sv_REMOTE s \<noteq> Some ?c"
      using parts(2) fresh(1) by (auto simp: refs_ok_def count_eq_zero_iff)
    then have "ref_count s' ?g c = (if c = ?c then 2 else ref_count s g c)" for c
      by (auto simp: ref_count_def s'_def con)
    moreover have "ctx_ref x = 2" by (simp add: x_def x0_def)
    moreover have "dom (sv_ctx s') = insert ?c (dom (sv_ctx s))" by (simp add: s'_def)
    moreover have "sv_ctx s' = (sv_ctx s)(?c \<mapsto> x)" "sv_hs s' = hs" "sv_REMOTE s' = sv_REMOTE s" "sv_total s' = sv_total s + 1"
      by (simp_all add: s'_def)
    ultimately show "refs_ok s' ?g" using parts(2) con unfolding refs_ok_def by auto
    show "owners_ok s' ?g"
    proof -
      note O = owners_okD [OF parts(3)]
      have old: "ctx_queue y \<noteq> ?q" "ctx_handle y \<noteq> h" if "sv_ctx s c = Some y" for c y
        using O(2) [OF that] fresh(2) unused by (auto simp del: qview_None)
      show ?thesis
      proof (rule owners_okI)
        fix c y assume y: "sv_ctx s' c = Some y"
        show "\<exists>ms. qview (sv_mq s') (ctx_queue y) = Some (ctx_handle y, 0, ms)"
          using y xf O(2) [of c y] old [of c y] by (auto simp: s'_def mq(3) split: if_splits)
        show "ctx_queue y \<in> gL ?g" if "c \<in> contexts (sv_hs s')" "\<not> ctx_init y"
          using y xf that O(3) [of c y] by (auto simp: s'_def con split: if_splits)
        show "p = ctx_queue y" if "c \<in> contexts (sv_hs s')" "qview (sv_mq s') p = Some (ctx_handle y, r, ms)" for p r ms
          using y xf that O(5) [of c y p r ms] old [of c y] unused by (auto simp: s'_def con mq(3) split: if_splits)
      next
        fix c1 x1 c2 x2 assume "sv_ctx s' c1 = Some x1" "sv_ctx s' c2 = Some x2" "ctx_queue x1 = ctx_queue x2"
        then show "c1 = c2" using O(4) [of c1 x1 c2 x2] old xf by (auto simp: s'_def split: if_splits)
      next
        fix p h' r ms assume "qview (sv_mq s') p = Some (h', r, ms)"
        then show "h' \<noteq> 0 \<and> h' AND NOT HANDLE_MASK = sv_HARBOR s'"
          using O(6) [of p h' r ms] h0 reg(3) parts(5) by (auto simp: s'_def mq(3) node_ok_def split: if_splits)
      qed (use O(1) in auto)
    qed
    have "qdata (qview (sv_mq s)) ?q = []" using fresh(2) by (simp add: qdata_def)
    then show "data_ok s' ?g" using parts(4) by (simp add: s'_def data_ok_def mq(3) fun_upd_idem)
    have "ctx_handles s' = (ctx_handles s1)(?c := h)" by (auto simp: s'_def s1_def ctx_handles_def x_def)
    moreover have "name_inv hs" using parts(5) reg(6-8) by (simp add: node_ok_def name_inv_def names_def)
    moreover have "\<forall>a \<ge> sv_brk s'. sv_ctx s' a = None \<and> sv_data s' a = None \<and> qview (sv_mq s') a = None"
      using brk by (auto simp: s'_def mq(3) simp del: qview_None)
    moreover have "source_ok s' = source_ok s" "qmsgs (qview (sv_mq s')) = (qmsgs (qview (sv_mq s)))(?q := [])"
      by (simp_all add: s'_def source_ok_def fun_eq_iff mq(3) qmsgs_upd)
    then have "\<forall>p. \<forall>m \<in> set (qmsgs (qview (sv_mq s')) p). source_ok s' (msg_source m)"
      using parts(5) by (simp add: node_ok_def)
    ultimately show "node_ok s'" using parts(5) reg(2,5) by (simp add: node_ok_def s'_def)
  qed
  moreover have "sv_ctx s' = (sv_ctx s)(?c \<mapsto> x)" "ctx_handle x = h" "ctx_queue x = ?q" "\<not> ctx_init x"
    "contexts (sv_hs s') = insert ?c (contexts (sv_hs s))"
    using con by (simp_all add: s'_def x_def x0_def)
  ultimately show ?thesis using run by blast
qed

text \<open>The launched service gives up its creator's reference and its queue.\<close>

lemma inv_launched:
  assumes inv: "server_inv s g" and c: "c \<in># gF g" "sv_ctx s c = Some x" "ctx_queue x \<in> gL g"
  shows "\<exists>r s'. context_launched c (ctx_queue x) s = Some (r, s') \<and> server_inv s' (g\<lparr>gH := gH g - {ctx_queue x},
      gL := gL g - {ctx_queue x}, gF := gF g - {#c#}\<rparr>) \<and> sv_HARBOR s' = sv_HARBOR s \<and> sv_REMOTE s' = sv_REMOTE s \<and>
    sv_hs s' = sv_hs s \<and> sv_logger s' = sv_logger s \<and>
    (case r of None \<Rightarrow> c \<notin> contexts (sv_hs s)
     | Some c' \<Rightarrow> c' = c \<and> (\<exists>x'. sv_ctx s' c = Some x' \<and> ctx_init x' \<and> ctx_handle x' = ctx_handle x))"
proof -
  let ?q = "ctx_queue x" and ?F = "gF g - {#c#}"
  have O: "owners_ok s g" using inv by (simp add: server_inv_def)
  obtain r s1 x1 where s1: "skynet_context_release c s = Some (r, s1)" "server_inv s1 (g\<lparr>gF := ?F\<rparr>)" "sv_ctx s c = Some x1"
    "sv_hs s1 = sv_hs s" "sv_REMOTE s1 = sv_REMOTE s" "sv_HARBOR s1 = sv_HARBOR s" "sv_logger s1 = sv_logger s"
    "if r = None then sv_ctx s1 = (sv_ctx s)(c := None) \<and> c \<notin> contexts (sv_hs s)
     else r = Some c \<and> sv_mq s1 = sv_mq s \<and> sv_ctx s1 = (sv_ctx s)(c \<mapsto> x1\<lparr>ctx_ref := ctx_ref x1 - 1\<rparr>)"
    using inv_release [OF inv c(1)] by blast
  have only: "c' = c" if "sv_ctx s c' = Some y" "ctx_queue y = ?q" for c' y
    using owners_okD(4) [OF O that(1) c(2) that(2)] .
  have fin: "\<exists>mq. skynet_globalmq_push ?q (sv_mq s2) = Some mq \<and>
      server_inv (s2\<lparr>sv_mq := mq\<rparr>) (g\<lparr>gH := gH g - {?q}, gL := gL g - {?q}, gF := ?F\<rparr>)"
    if inv2: "server_inv s2 (g\<lparr>gF := ?F\<rparr>)" and ok: "\<And>c' y. sv_ctx s2 c' = Some y \<Longrightarrow> c' \<in> contexts (sv_hs s2) \<Longrightarrow>
      ctx_queue y = ?q \<Longrightarrow> ctx_init y" for s2
  proof -
    have "server_inv s2 (g\<lparr>gF := ?F, gL := gL g - {?q}\<rparr>)" using inv_abandon [OF inv2, of ?q] ok by simp
    moreover have "?q \<in> gH g" using owners_okD(1) [OF O] c(3) by auto
    ultimately obtain mq where mq: "skynet_globalmq_push ?q (sv_mq s2) = Some mq"
      "server_inv (s2\<lparr>sv_mq := mq\<rparr>) (g\<lparr>gF := ?F, gL := gL g - {?q}, gH := gH g - {?q}\<rparr>)"
      using inv_requeue [of s2 "g\<lparr>gF := ?F, gL := gL g - {?q}\<rparr>" ?q] by auto
    have "g\<lparr>gF := ?F, gL := gL g - {?q}, gH := gH g - {?q}\<rparr> = g\<lparr>gH := gH g - {?q}, gL := gL g - {?q}, gF := ?F\<rparr>"
      by (cases g) simp
    with mq show ?thesis by metis
  qed
  show ?thesis
  proof (cases r)
    case None
    have "c' \<noteq> c \<and> sv_ctx s c' = Some y" if "sv_ctx s1 c' = Some y" for c' y
      using that s1(8) None by (auto split: if_splits)
    then obtain mq where "skynet_globalmq_push ?q (sv_mq s1) = Some mq"
      "server_inv (s1\<lparr>sv_mq := mq\<rparr>) (g\<lparr>gH := gH g - {?q}, gL := gL g - {?q}, gF := ?F\<rparr>)"
      using fin [OF s1(2)] only by blast
    with None s1 show ?thesis by (intro exI [of _ None] exI [of _ "s1\<lparr>sv_mq := mq\<rparr>"]) (simp add: context_launched_def)
  next
    case (Some c0)
    let ?y = "x1\<lparr>ctx_ref := ctx_ref x1 - 1, ctx_init := True\<rparr>"
    have y: "sv_ctx s1 c = Some (x1\<lparr>ctx_ref := ctx_ref x1 - 1\<rparr>)" "c0 = c" using s1(8) Some by auto
    obtain s2 where s2: "ctx_upd c (ctx_init_update (\<lambda>_. True)) s1 = Some s2" "server_inv s2 (g\<lparr>gF := ?F\<rparr>)"
      using inv_field [OF s1(2), of c "ctx_init_update (\<lambda>_. True)"] y(1) by (auto simp: same_owner_def)
    have s2_eq: "s2 = s1\<lparr>sv_ctx := (sv_ctx s1)(c \<mapsto> ?y)\<rparr>" using s2(1) y(1) by (simp add: ctx_upd_def)
    have "ctx_init y" if "sv_ctx s2 c' = Some y" "ctx_queue y = ?q" for c' y
    proof (cases "c' = c")
      case False
      then have "sv_ctx s c' = Some y" using that(1) s1(8) Some s2_eq by auto
      with only that(2) False show ?thesis by blast
    qed (use that s2_eq in auto)
    then obtain mq where mq: "skynet_globalmq_push ?q (sv_mq s2) = Some mq"
      "server_inv (s2\<lparr>sv_mq := mq\<rparr>) (g\<lparr>gH := gH g - {?q}, gL := gL g - {?q}, gF := ?F\<rparr>)"
      using fin [OF s2(2)] by blast
    then have "context_launched c ?q s = Some (Some c, s2\<lparr>sv_mq := mq\<rparr>)"
      using s1(1) s2(1) Some y(2) by (simp add: context_launched_def)
    with mq(2) s1 c(2) s2_eq show ?thesis
      by (intro exI [of _ "Some c"] exI [of _ "s2\<lparr>sv_mq := mq\<rparr>"]) simp
  qed
qed

subsection \<open>The steps of the threads\<close>

text \<open>
  One rule per atomic operation, with what the thread must hold to perform it.  \<open>create\<close> needs a handle that no queue
  carries any more: handles are used again only after \<open>2 ^ 24\<close> registrations, and a queue is released long before.
  \<open>launched\<close> takes the release, the assignment of \<open>init\<close> and the push of \<open>skynet_context_new\<close> as one step; what may go wrong
  between them is the subject of \<open>launch_race\<close> below.  \<open>abandon\<close> is the creator's decision that the service has failed.
\<close>

inductive server_step :: "'w server_state \<times> ghost \<Rightarrow> 'w server_state \<times> ghost \<Rightarrow> bool" where
  malloc: "skynet_malloc b s = (a, s') \<Longrightarrow> server_step (s, g) (s', g\<lparr>gD := insert a (gD g)\<rparr>)"
| free: "a \<in> gD g \<Longrightarrow> skynet_free (Some a) s = Some s' \<Longrightarrow> server_step (s, g) (s', g\<lparr>gD := gD g - {a}\<rparr>)"
| grab: "handle_grab h s = Some (Some c, s') \<Longrightarrow> server_step (s, g) (s', g\<lparr>gF := add_mset c (gF g)\<rparr>)"
| release: "c \<in># gF g \<Longrightarrow> skynet_context_release c s = Some (r, s') \<Longrightarrow>
    server_step (s, g) (s', g\<lparr>gF := gF g - {#c#}\<rparr>)"
| reserve: "c \<in># gF g \<Longrightarrow> sv_REMOTE s = None \<Longrightarrow> skynet_harbor_start c s = Some s' \<Longrightarrow> server_step (s, g) (s', g)"
| field: "c \<in># gF g \<Longrightarrow> (\<And>x. same_owner x (f x) \<and> ctx_ref (f x) = ctx_ref x \<and> ctx_init (f x) = ctx_init x) \<Longrightarrow>
    ctx_upd c f s = Some s' \<Longrightarrow> server_step (s, g) (s', g)"
| push: "c \<in># gF g \<or> sv_REMOTE s = Some c \<Longrightarrow> sv_ctx s c = Some x \<Longrightarrow> set_option (msg_data m) \<subseteq> gD g \<Longrightarrow>
    source_ok s (msg_source m) \<Longrightarrow> skynet_mq_push (ctx_queue x) m (sv_mq s) = Some mq \<Longrightarrow>
    server_step (s, g) (s\<lparr>sv_mq := mq\<rparr>, g\<lparr>gD := gD g - set_option (msg_data m)\<rparr>)"
| retire: "skynet_handle_retire (ctx_handles s) h (sv_hs s) = Some (n, Some c, hs) \<Longrightarrow>
    server_step (s, g) (s\<lparr>sv_hs := hs\<rparr>, g\<lparr>gF := add_mset c (gF g)\<rparr>)"
| name: "hs_name_count (sv_hs s) < MAX_SLOT_SIZE \<Longrightarrow> skynet_handle_namehandle h name (sv_hs s) = Some (r, hs) \<Longrightarrow>
    server_step (s, g) (s\<lparr>sv_hs := hs\<rparr>, g)"
| create: "card (contexts (sv_hs s)) < 2 ^ 24 - 1 \<Longrightarrow> context_create md i s = Some (c, q, s') \<Longrightarrow>
    sv_ctx s' c = Some x \<Longrightarrow> (\<And>p r ms. qview (sv_mq s) p \<noteq> Some (ctx_handle x, r, ms)) \<Longrightarrow>
    server_step (s, g) (s', g\<lparr>gH := insert q (gH g), gL := insert q (gL g), gF := add_mset c (gF g)\<rparr>)"
| launched: "c \<in># gF g \<Longrightarrow> sv_ctx s c = Some x \<Longrightarrow> ctx_queue x \<in> gL g \<Longrightarrow>
    context_launched c (ctx_queue x) s = Some (r, s') \<Longrightarrow>
    server_step (s, g) (s', g\<lparr>gH := gH g - {ctx_queue x}, gL := gL g - {ctx_queue x}, gF := gF g - {#c#}\<rparr>)"
| abandon: "(\<And>c x. sv_ctx s c = Some x \<Longrightarrow> c \<in> contexts (sv_hs s) \<Longrightarrow> ctx_queue x \<noteq> q) \<Longrightarrow>
    server_step (s, g) (s, g\<lparr>gL := gL g - {q}\<rparr>)"
| take: "skynet_globalmq_pop (sv_mq s) = Some (Some q, mq) \<Longrightarrow>
    server_step (s, g) (s\<lparr>sv_mq := mq\<rparr>, g\<lparr>gH := insert q (gH g)\<rparr>)"
| requeue: "q \<in> gH g - gL g \<Longrightarrow> skynet_globalmq_push q (sv_mq s) = Some mq \<Longrightarrow>
    server_step (s, g) (s\<lparr>sv_mq := mq\<rparr>, g\<lparr>gH := gH g - {q}\<rparr>)"
| pop_msg: "q \<in> gH g - gL g \<Longrightarrow> skynet_mq_pop q (sv_mq s) = Some (Some m, mq) \<Longrightarrow>
    server_step (s, g) (s\<lparr>sv_mq := mq\<rparr>, g\<lparr>gD := gD g \<union> set_option (msg_data m)\<rparr>)"
| pop_idle: "q \<in> gH g - gL g \<Longrightarrow> sv_ctx s c = Some x \<Longrightarrow> ctx_queue x = q \<Longrightarrow>
    skynet_mq_pop q (sv_mq s) = Some (None, mq) \<Longrightarrow> server_step (s, g) (s\<lparr>sv_mq := mq\<rparr>, g\<lparr>gH := gH g - {q}\<rparr>)"
| overload: "q \<in> gH g - gL g \<Longrightarrow> skynet_mq_overload q (sv_mq s) = Some (r, mq) \<Longrightarrow> server_step (s, g) (s\<lparr>sv_mq := mq\<rparr>, g)"
| free_queue: "q \<in> gH g - gL g \<Longrightarrow> qview (sv_mq s) q = Some (h, r, ms) \<Longrightarrow> r \<noteq> 0 \<Longrightarrow>
    skynet_mq_pop q (sv_mq s) = Some (None, mq) \<Longrightarrow> mq_release_free q mq = Some mq2 \<Longrightarrow>
    server_step (s, g) (s\<lparr>sv_mq := mq2\<rparr>, g\<lparr>gH := gH g - {q}\<rparr>)"
| node: "server_step (s, g) (s\<lparr>sv_monitor_exit := e, sv_logger := l, sv_trace := t, sv_world := w\<rparr>, g)"

abbreviation server_steps :: "'w server_state \<times> ghost \<Rightarrow> 'w server_state \<times> ghost \<Rightarrow> bool" where
  "server_steps \<equiv> server_step\<^sup>*\<^sup>*"

text \<open>What every step leaves alone: the owner and the handle of a context, the node's number, the harbor service.\<close>

definition stable :: "'w server_state \<Rightarrow> 'w server_state \<Rightarrow> bool" where
  "stable s s' \<longleftrightarrow> sv_HARBOR s' = sv_HARBOR s \<and> (sv_REMOTE s \<noteq> None \<longrightarrow> sv_REMOTE s' = sv_REMOTE s) \<and> sv_brk s \<le> sv_brk s' \<and>
     (\<forall>c x'. c < sv_brk s \<longrightarrow> sv_ctx s' c = Some x' \<longrightarrow> (\<exists>x. sv_ctx s c = Some x \<and> same_owner x x'))"

lemma same_owner_refl [simp]: "same_owner x x"
  by (simp add: same_owner_def)

lemma same_owner_trans: "same_owner x y \<Longrightarrow> same_owner y z \<Longrightarrow> same_owner x z"
  by (simp add: same_owner_def)

lemma stable_refl [simp]: "stable s s"
  by (auto simp: stable_def)

lemma stable_trans:
  assumes "stable s s'" "stable s' s''"
  shows "stable s s''"
proof -
  have "\<exists>x. sv_ctx s c = Some x \<and> same_owner x x''" if c: "c < sv_brk s" "sv_ctx s'' c = Some x''" for c x''
  proof -
    have "c < sv_brk s'" using c(1) assms(1) by (simp add: stable_def)
    then obtain x' where x': "sv_ctx s' c = Some x'" "same_owner x' x''" using assms(2) c(2) unfolding stable_def by blast
    then obtain x where "sv_ctx s c = Some x" "same_owner x x'" using assms(1) c(1) unfolding stable_def by blast
    with x'(2) same_owner_trans show ?thesis by blast
  qed
  then show ?thesis using assms by (simp add: stable_def)
qed

lemma stable_ctx:
  assumes "stable s s'" "server_inv s g" "sv_ctx s c = Some x" "sv_ctx s' c \<noteq> None"
  obtains x' where "sv_ctx s' c = Some x'" "same_owner x x'"
proof -
  have "node_ok s" using assms(2) by (simp add: server_inv_def)
  then have "c < sv_brk s" using assms(3) unfolding node_ok_def by (metis leI option.distinct(1))
  with assms(1,3,4) that show ?thesis unfolding stable_def by fastforce
qed

lemma stable_mq: "stable s (s\<lparr>sv_mq := mq\<rparr>)" and stable_hs: "stable s (s\<lparr>sv_hs := hs\<rparr>)"
  by (auto simp: stable_def)

lemma inv_node:
  assumes "server_inv s g"
  shows "server_inv (s\<lparr>sv_monitor_exit := e, sv_logger := l, sv_trace := t, sv_world := w\<rparr>) g"
proof -
  obtain xs where parts: "sched_inv xs (sv_mq s, gH g)" "refs_ok s g" "owners_ok s g" "data_ok s g" "node_ok s"
    using assms by (rule server_invE)
  let ?s = "s\<lparr>sv_monitor_exit := e, sv_logger := l, sv_trace := t, sv_world := w\<rparr>"
  have "source_ok ?s = source_ok s" "ctx_handles ?s = ctx_handles s"
    by (simp_all add: source_ok_def ctx_handles_def fun_eq_iff)
  then have "node_ok ?s" using parts(5) by (simp add: node_ok_def)
  moreover have "refs_ok ?s g" "owners_ok ?s g" "data_ok ?s g"
    using parts(2-4) by (simp_all add: refs_ok_def ref_count_def owners_ok_def data_ok_def)
  ultimately show ?thesis using parts(1) by (intro server_invI) simp_all
qed

end
