(* ===== verification/Skynet_Timer.thy ===== *)
theory Skynet_Timer
  imports Skynet_MQ
begin

unbundle bit_operations_syntax

text \<open>
  The hierarchical timing wheel of skynet
  (\<^verbatim>\<open>009_skynet_demo/skynet/skynet-src/skynet_timer.c\<close>).

  A \<open>struct link_list\<close> is the HOL list of the nodes it links (a node is in one list at a
  time); \<open>link\<close> appends and \<open>link_clear\<close> takes the whole list.  The time is a 32-bit word that
  wraps.  Delivery of an expired event is \<open>skynet_context_push\<close>, a parameter
  \<open>push :: u32 \<Rightarrow> skynet_message \<Rightarrow> 'w \<Rightarrow> int \<times> 'w\<close> acting on the rest of the system \<open>'w\<close>; the
  clock readings of \<open>gettime\<close> and \<open>systime\<close> are arguments.

  The wheel is proved to implement a calendar: a multiset of events with absolute deadlines
  (natural numbers that never wrap), where tick \<open>n\<close> delivers exactly the events due at \<open>n\<close>.
\<close>

subsection \<open>Data\<close>

record timer_node =
  expire :: u32
  ev_handle :: u32
  ev_session :: int

record timer =
  near :: "timer_node list list"
  wheel :: "timer_node list list list"
  ti_time :: u32
  ti_starttime :: u32
  ti_current :: u64
  ti_current_point :: u64

definition TIME_NEAR_SHIFT :: nat where "TIME_NEAR_SHIFT = 8"
definition TIME_NEAR :: nat where "TIME_NEAR = 256"
definition TIME_LEVEL_SHIFT :: nat where "TIME_LEVEL_SHIFT = 6"
definition TIME_LEVEL :: nat where "TIME_LEVEL = 64"
definition TIME_NEAR_MASK :: u32 where "TIME_NEAR_MASK = 255"
definition TIME_LEVEL_MASK :: u32 where "TIME_LEVEL_MASK = 63"

lemmas timer_consts = TIME_NEAR_SHIFT_def TIME_NEAR_def TIME_LEVEL_SHIFT_def TIME_LEVEL_def
  TIME_NEAR_MASK_def TIME_LEVEL_MASK_def

subsection \<open>Operations\<close>

definition link_near :: "nat \<Rightarrow> timer_node \<Rightarrow> timer \<Rightarrow> timer option" where
  "link_near k node T = do {
     l \<leftarrow> array_get (near T) k;
     Some (T\<lparr>near := (near T)[k := l @ [node]]\<rparr>) }"

definition link_level :: "nat \<Rightarrow> nat \<Rightarrow> timer_node \<Rightarrow> timer \<Rightarrow> timer option" where
  "link_level i k node T = do {
     row \<leftarrow> array_get (wheel T) i;
     l \<leftarrow> array_get row k;
     Some (T\<lparr>wheel := (wheel T)[i := row[k := l @ [node]]]\<rparr>) }"

definition link_clear_near :: "nat \<Rightarrow> timer \<Rightarrow> (timer_node list \<times> timer) option" where
  "link_clear_near k T = do {
     l \<leftarrow> array_get (near T) k;
     Some (l, T\<lparr>near := (near T)[k := []]\<rparr>) }"

definition link_clear_level :: "nat \<Rightarrow> nat \<Rightarrow> timer \<Rightarrow> (timer_node list \<times> timer) option" where
  "link_clear_level i k T = do {
     row \<leftarrow> array_get (wheel T) i;
     l \<leftarrow> array_get row k;
     Some (l, T\<lparr>wheel := (wheel T)[i := row[k := []]]\<rparr>) }"

text \<open>The \<open>for (i=0;i<3;i++)\<close> loop of \<open>add_node\<close>: the level to use.\<close>

function add_level :: "u32 \<Rightarrow> u32 \<Rightarrow> nat \<Rightarrow> u32 \<Rightarrow> nat" where
  "add_level time cur i msk =
     (if i < 3 then
        if (time OR (msk - 1)) = (cur OR (msk - 1)) then i
        else add_level time cur (i + 1) (push_bit TIME_LEVEL_SHIFT msk)
      else i)"
  by pat_completeness auto
termination by (relation "measure (\<lambda>(t, c, i, m). 3 - i)") auto

definition add_node :: "timer_node \<Rightarrow> timer \<Rightarrow> timer option" where
  "add_node node T = (let time = expire node; current_time = ti_time T in
     if (time OR TIME_NEAR_MASK) = (current_time OR TIME_NEAR_MASK)
     then link_near (unat (time AND TIME_NEAR_MASK)) node T
     else (let i = add_level time current_time 0 (push_bit TIME_LEVEL_SHIFT (of_nat TIME_NEAR))
       in link_level i (unat (drop_bit (TIME_NEAR_SHIFT + i * TIME_LEVEL_SHIFT) time AND TIME_LEVEL_MASK)) node T))"

definition timer_add :: "timer \<Rightarrow> u32 \<Rightarrow> int \<Rightarrow> int \<Rightarrow> timer option" where
  "timer_add T handle session time =
     add_node \<lparr>expire = of_int time + ti_time T, ev_handle = handle, ev_session = session\<rparr> T"

fun add_nodes :: "timer_node list \<Rightarrow> timer \<Rightarrow> timer option" where
  "add_nodes [] T = Some T"
| "add_nodes (n # ns) T = do { T \<leftarrow> add_node n T; add_nodes ns T }"

definition move_list :: "nat \<Rightarrow> nat \<Rightarrow> timer \<Rightarrow> timer option" where
  "move_list level idx T = do {
     (current, T) \<leftarrow> link_clear_level level idx T;
     add_nodes current T }"

text \<open>The \<open>while ((ct & (mask-1))==0)\<close> loop of \<open>timer_shift\<close>.\<close>

partial_function (option) shift_loop :: "u32 \<Rightarrow> u32 \<Rightarrow> u32 \<Rightarrow> nat \<Rightarrow> timer \<Rightarrow> timer option" where
  "shift_loop ct time msk i T =
     (if (ct AND (msk - 1)) = 0 then
        (let idx = unat (time AND TIME_LEVEL_MASK) in
         if idx \<noteq> 0 then move_list i idx T
         else shift_loop ct (drop_bit TIME_LEVEL_SHIFT time) (push_bit TIME_LEVEL_SHIFT msk) (i + 1) T)
      else Some T)"

definition timer_shift :: "timer \<Rightarrow> timer option" where
  "timer_shift T = (let ct = ti_time T + 1; T = T\<lparr>ti_time := ct\<rparr> in
     if ct = 0 then move_list 3 0 T
     else shift_loop ct (drop_bit TIME_NEAR_SHIFT ct) (of_nat TIME_NEAR) 0 T)"

definition timer_message :: "int \<Rightarrow> skynet_message" where
  "timer_message session = \<lparr>msg_source = 0, msg_session = session, msg_data = None,
     msg_sz = push_bit 56 1\<rparr>"

text \<open>\<open>dispatch_list\<close> delivers the nodes of a list that is not empty, first to last.\<close>

fun dispatch_list :: "(u32 \<Rightarrow> skynet_message \<Rightarrow> 'w \<Rightarrow> int \<times> 'w) \<Rightarrow> timer_node list \<Rightarrow> 'w \<Rightarrow> 'w" where
  "dispatch_list push [] w = w"
| "dispatch_list push (n # ns) w =
     dispatch_list push ns (snd (push (ev_handle n) (timer_message (ev_session n)) w))"

partial_function (option) timer_execute ::
  "(u32 \<Rightarrow> skynet_message \<Rightarrow> 'w \<Rightarrow> int \<times> 'w) \<Rightarrow> timer \<times> 'w \<Rightarrow> (timer \<times> 'w) option" where
  "timer_execute push Tw = do {
     let idx = unat (ti_time (fst Tw) AND TIME_NEAR_MASK);
     l \<leftarrow> array_get (near (fst Tw)) idx;
     (if l \<noteq> [] then do {
        (current, T) \<leftarrow> link_clear_near idx (fst Tw);
        timer_execute push (T, dispatch_list push current (snd Tw)) }
      else Some Tw) }"

definition timer_update ::
  "(u32 \<Rightarrow> skynet_message \<Rightarrow> 'w \<Rightarrow> int \<times> 'w) \<Rightarrow> timer \<times> 'w \<Rightarrow> (timer \<times> 'w) option" where
  "timer_update push Tw = do {
     Tw \<leftarrow> timer_execute push Tw;
     T \<leftarrow> timer_shift (fst Tw);
     timer_execute push (T, snd Tw) }"

definition timer_create_timer :: timer where
  "timer_create_timer = \<lparr>near = replicate TIME_NEAR [], wheel = replicate 4 (replicate TIME_LEVEL []),
     ti_time = 0, ti_starttime = 0, ti_current = 0, ti_current_point = 0\<rparr>"

definition skynet_timeout ::
  "(u32 \<Rightarrow> skynet_message \<Rightarrow> 'w \<Rightarrow> int \<times> 'w) \<Rightarrow> u32 \<Rightarrow> int \<Rightarrow> int \<Rightarrow> timer \<times> 'w \<Rightarrow>
   (int \<times> timer \<times> 'w) option" where
  "skynet_timeout push handle time session Tw =
     (if time \<le> 0 then
        (case push handle (timer_message session) (snd Tw) of
           (r, w) \<Rightarrow> Some (if r \<noteq> 0 then -1 else session, fst Tw, w))
      else do {
        T \<leftarrow> timer_add (fst Tw) handle session time;
        Some (session, T, snd Tw) })"

fun timer_updates :: "(u32 \<Rightarrow> skynet_message \<Rightarrow> 'w \<Rightarrow> int \<times> 'w) \<Rightarrow> nat \<Rightarrow> timer \<times> 'w \<Rightarrow> (timer \<times> 'w) option" where
  "timer_updates push 0 Tw = Some Tw"
| "timer_updates push (Suc n) Tw = do { Tw \<leftarrow> timer_update push Tw; timer_updates push n Tw }"

text \<open>\<open>cp\<close> is the value of \<open>gettime()\<close>, in centiseconds.\<close>

definition skynet_updatetime ::
  "(u32 \<Rightarrow> skynet_message \<Rightarrow> 'w \<Rightarrow> int \<times> 'w) \<Rightarrow> u64 \<Rightarrow> timer \<times> 'w \<Rightarrow> (timer \<times> 'w) option" where
  "skynet_updatetime push cp Tw = (let T = fst Tw in
     if cp < ti_current_point T then Some (T\<lparr>ti_current_point := cp\<rparr>, snd Tw)
     else if cp \<noteq> ti_current_point T then
       (let diff = (ucast (cp - ti_current_point T) :: u32) in
        timer_updates push (unat diff)
          (T\<lparr>ti_current_point := cp, ti_current := ti_current T + ucast diff\<rparr>, snd Tw))
     else Some Tw)"

definition skynet_starttime :: "timer \<Rightarrow> u32" where
  "skynet_starttime T = ti_starttime T"

definition skynet_now :: "timer \<Rightarrow> u64" where
  "skynet_now T = ti_current T"

text \<open>\<open>sec\<close>, \<open>cs\<close> and \<open>now\<close> are the results of \<open>systime\<close> and \<open>gettime\<close>.\<close>

definition skynet_timer_init :: "u32 \<Rightarrow> u32 \<Rightarrow> u64 \<Rightarrow> timer" where
  "skynet_timer_init sec cs now = timer_create_timer\<lparr>ti_starttime := sec, ti_current := ucast cs,
     ti_current_point := now\<rparr>"

subsection \<open>The slot of a node\<close>

datatype slot = Near nat | Level nat nat

text \<open>Where a node with expiry \<open>e\<close> belongs at time \<open>c\<close>.\<close>

definition slot_of :: "nat \<Rightarrow> nat \<Rightarrow> slot" where
  "slot_of e c =
    (if e div 2 ^ 8 = c div 2 ^ 8 then Near (e mod 2 ^ 8)
     else if e div 2 ^ 14 = c div 2 ^ 14 then Level 0 (e div 2 ^ 8 mod 64)
     else if e div 2 ^ 20 = c div 2 ^ 20 then Level 1 (e div 2 ^ 14 mod 64)
     else if e div 2 ^ 26 = c div 2 ^ 26 then Level 2 (e div 2 ^ 20 mod 64)
     else Level 3 (e div 2 ^ 26 mod 64))"

text \<open>The slot whose nodes a shift to time \<open>c\<close> redistributes.\<close>

definition shift_slot :: "nat \<Rightarrow> slot option" where
  "shift_slot c =
    (if c mod 2 ^ 8 \<noteq> 0 then None
     else if c div 2 ^ 8 mod 64 \<noteq> 0 then Some (Level 0 (c div 2 ^ 8 mod 64))
     else if c div 2 ^ 14 mod 64 \<noteq> 0 then Some (Level 1 (c div 2 ^ 14 mod 64))
     else if c div 2 ^ 20 mod 64 \<noteq> 0 then Some (Level 2 (c div 2 ^ 20 mod 64))
     else Some (Level 3 (c div 2 ^ 26 mod 64)))"

lemma div_levels:
  fixes e :: nat
  shows "e div 2 ^ 14 = e div 2 ^ 8 div 64" "e div 2 ^ 20 = e div 2 ^ 8 div 64 div 64"
    "e div 2 ^ 26 = e div 2 ^ 8 div 64 div 64 div 64"
  by (simp_all add: div_mult2_eq [symmetric])

lemma slot_of_now_iff: "slot_of e c = Near (c mod 2 ^ 8) \<longleftrightarrow> e = c"
proof
  assume "slot_of e c = Near (c mod 2 ^ 8)"
  then have "e div 2 ^ 8 = c div 2 ^ 8" "e mod 2 ^ 8 = c mod 2 ^ 8"
    by (simp_all only: slot_of_def slot.simps split: if_splits)
  then show "e = c" by (metis div_mult_mod_eq)
qed (simp add: slot_of_def)

text \<open>A node in the block of \<open>B\<close> ticks that ends at \<open>c\<close> is not in the future.\<close>

lemma block_over:
  assumes "(c + 1) mod B = 0" "e div B = c div (B::nat)" "e \<noteq> c" "0 < B" "B \<le> 2 ^ 31"
  shows "\<not> (c < e \<or> 2 ^ 31 < c - e)"
proof -
  have "c mod B = B - 1"
    using assms(1,4) by (metis add.commute add_diff_cancel_left' mod_Suc nat.distinct(1) plus_1_eq_Suc)
  moreover have "c = c div B * B + c mod B" "e = c div B * B + e mod B"
    by (metis assms(2) div_mult_mod_eq)+
  moreover have "e mod B < B" using assms(4) by simp
  ultimately have "e \<le> c" "c - e < B" using assms(4) by linarith+
  with assms(5) show ?thesis by linarith
qed

lemma div_carry:
  assumes "d = (c::nat) + 1" "0 < k"
  shows "if d mod k = 0 then d div k = c div k + 1 else d div k = c div k"
  using assms by (auto simp: div_Suc)

lemma mod_mult_zero: "x mod (a::nat) = 0 \<Longrightarrow> x div a mod b = 0 \<Longrightarrow> x mod (a * b) = 0"
  by (simp add: mod_mult2_eq)

text \<open>
  A tick moves only the nodes of \<open>shift_slot\<close>: every other node that is still to come stays
  where it belongs.  \<open>c + 1 < 2 ^ 32\<close> is a tick without wrap-around.
\<close>

lemma slot_of_tick:
  assumes "e \<noteq> c" and future: "c < e \<or> 2 ^ 31 < c - e"
    and other: "shift_slot (c + 1) \<noteq> Some (slot_of e c)"
  shows "slot_of e (c + 1) = slot_of e c"
proof -
  define E0 C0 D0 where d0: "E0 = e div 2 ^ 8" "C0 = c div 2 ^ 8" "D0 = (c + 1) div 2 ^ 8"
  define E1 C1 D1 where d1: "E1 = E0 div 64" "C1 = C0 div 64" "D1 = D0 div 64"
  define E2 C2 D2 where d2: "E2 = E1 div 64" "C2 = C1 div 64" "D2 = D1 div 64"
  define E3 C3 D3 where d3: "E3 = E2 div 64" "C3 = C2 div 64" "D3 = D2 div 64"
  note lv = div_levels d0 [symmetric] d1 [symmetric] d2 [symmetric] d3 [symmetric]
  have over: "(c + 1) mod B = 0 \<Longrightarrow> 0 < B \<Longrightarrow> B \<le> 2 ^ 31 \<Longrightarrow> e div B \<noteq> c div B" for B
    using block_over [of c B e] \<open>e \<noteq> c\<close> future by auto
  have c0: "if (c + 1) mod 2 ^ 8 = 0 then D0 = C0 + 1 else D0 = C0"
    unfolding d0 by (rule div_carry) simp_all
  have c1: "D0 = C0 + 1 \<Longrightarrow> if D0 mod 64 = 0 then D1 = C1 + 1 else D1 = C1"
    unfolding d1 by (rule div_carry) simp_all
  have c2: "D1 = C1 + 1 \<Longrightarrow> if D1 mod 64 = 0 then D2 = C2 + 1 else D2 = C2"
    unfolding d2 by (rule div_carry) simp_all
  have c3: "D2 = C2 + 1 \<Longrightarrow> if D2 mod 64 = 0 then D3 = C3 + 1 else D3 = C3"
    unfolding d3 by (rule div_carry) simp_all
  have o0: "(c + 1) mod 2 ^ 8 = 0 \<Longrightarrow> E0 \<noteq> C0" using over [of "2 ^ 8"] by (simp add: d0)
  have o1: "(c + 1) mod 2 ^ 14 = 0 \<Longrightarrow> E1 \<noteq> C1" using over [of "2 ^ 14", unfolded lv] by simp
  have o2: "(c + 1) mod 2 ^ 20 = 0 \<Longrightarrow> E2 \<noteq> C2" using over [of "2 ^ 20", unfolded lv] by simp
  have o3: "(c + 1) mod 2 ^ 26 = 0 \<Longrightarrow> E3 \<noteq> C3" using over [of "2 ^ 26", unfolded lv] by simp
  have z1: "(c + 1) mod 2 ^ 8 = 0 \<Longrightarrow> D0 mod 64 = 0 \<Longrightarrow> (c + 1) mod 2 ^ 14 = 0"
    using mod_mult_zero [of "c + 1" "2 ^ 8" 64] by (simp add: d0)
  have z2: "(c + 1) mod 2 ^ 14 = 0 \<Longrightarrow> D1 mod 64 = 0 \<Longrightarrow> (c + 1) mod 2 ^ 20 = 0"
    using mod_mult_zero [of "c + 1" "2 ^ 14" 64, unfolded lv] by simp
  have z3: "(c + 1) mod 2 ^ 20 = 0 \<Longrightarrow> D2 mod 64 = 0 \<Longrightarrow> (c + 1) mod 2 ^ 26 = 0"
    using mod_mult_zero [of "c + 1" "2 ^ 20" 64, unfolded lv] by simp
  have up: "E0 = D0 \<Longrightarrow> E1 = D1" "E1 = D1 \<Longrightarrow> E2 = D2" "E2 = D2 \<Longrightarrow> E3 = D3"
    "C1 = D1 \<Longrightarrow> C2 = D2" "C2 = D2 \<Longrightarrow> C3 = D3" by (simp_all add: d1 d2 d3)
  consider (a) "(c + 1) mod 2 ^ 8 \<noteq> 0" | (b) "(c + 1) mod 2 ^ 8 = 0" "D0 mod 64 \<noteq> 0"
    | (c) "(c + 1) mod 2 ^ 8 = 0" "D0 mod 64 = 0" "D1 mod 64 \<noteq> 0"
    | (d) "(c + 1) mod 2 ^ 8 = 0" "D0 mod 64 = 0" "D1 mod 64 = 0" "D2 mod 64 \<noteq> 0"
    | (e) "(c + 1) mod 2 ^ 8 = 0" "D0 mod 64 = 0" "D1 mod 64 = 0" "D2 mod 64 = 0" by blast
  then show ?thesis
  proof cases
    case a
    with c0 have "D0 = C0" by simp
    then show ?thesis unfolding slot_of_def lv by (simp add: d1 d2 d3)
  next
    case b
    have D0: "D0 = C0 + 1" using c0 b(1) by simp
    have eq: "C1 = D1" "E0 \<noteq> C0" using c1 [OF D0] b(2) o0 [OF b(1)] by simp_all
    have sh: "shift_slot (c + 1) = Some (Level 0 (D0 mod 64))"
      unfolding shift_slot_def lv using b by simp
    show ?thesis
    proof (cases "E1 = D1")
      case True
      then have now: "slot_of e c = Level 0 (E0 mod 64)" unfolding slot_of_def lv using eq by simp
      with other sh have "E0 \<noteq> D0" by auto
      with up have "E0 \<noteq> D0" by blast+
      with True now show ?thesis unfolding slot_of_def lv by simp
    next
      case False
      with up have "E0 \<noteq> D0" "E1 \<noteq> D1" by blast+
      with eq up False show ?thesis unfolding slot_of_def lv by simp
    qed
  next
    case c
    have D0: "D0 = C0 + 1" using c0 c(1) by simp
    have D1: "D1 = C1 + 1" using c1 [OF D0] c(2) by simp
    have eq: "C2 = D2" "E0 \<noteq> C0" "E1 \<noteq> C1"
      using c2 [OF D1] c(3) o0 [OF c(1)] o1 [OF z1 [OF c(1,2)]] by simp_all
    have sh: "shift_slot (c + 1) = Some (Level 1 (D1 mod 64))"
      unfolding shift_slot_def lv using c by simp
    show ?thesis
    proof (cases "E2 = D2")
      case True
      then have now: "slot_of e c = Level 1 (E1 mod 64)" unfolding slot_of_def lv using eq by simp
      with other sh have "E1 \<noteq> D1" by auto
      with up have "E0 \<noteq> D0" "E1 \<noteq> D1" by blast+
      with True now show ?thesis unfolding slot_of_def lv by simp
    next
      case False
      with up have "E0 \<noteq> D0" "E1 \<noteq> D1" "E2 \<noteq> D2" by blast+
      with eq up False show ?thesis unfolding slot_of_def lv by simp
    qed
  next
    case d
    have D0: "D0 = C0 + 1" using c0 d(1) by simp
    have D1: "D1 = C1 + 1" using c1 [OF D0] d(2) by simp
    have D2: "D2 = C2 + 1" using c2 [OF D1] d(3) by simp
    note m14 = z1 [OF d(1,2)] and m20 = z2 [OF z1 [OF d(1,2)] d(3)]
    have eq: "C3 = D3" "E0 \<noteq> C0" "E1 \<noteq> C1" "E2 \<noteq> C2"
      using c3 [OF D2] d(4) o0 [OF d(1)] o1 [OF m14] o2 [OF m20] by simp_all
    have sh: "shift_slot (c + 1) = Some (Level 2 (D2 mod 64))"
      unfolding shift_slot_def lv using d by simp
    show ?thesis
    proof (cases "E3 = D3")
      case True
      then have now: "slot_of e c = Level 2 (E2 mod 64)" unfolding slot_of_def lv using eq by simp
      with other sh have "E2 \<noteq> D2" by auto
      with up have "E0 \<noteq> D0" "E1 \<noteq> D1" "E2 \<noteq> D2" by blast+
      with True now show ?thesis unfolding slot_of_def lv by simp
    next
      case False
      with up have "E0 \<noteq> D0" "E1 \<noteq> D1" "E2 \<noteq> D2" "E3 \<noteq> D3" by blast+
      with eq up False show ?thesis unfolding slot_of_def lv by simp
    qed
  next
    case e
    note m14 = z1 [OF e(1,2)]
    note m20 = z2 [OF m14 e(3)]
    note m26 = z3 [OF m20 e(4)]
    have eq: "E0 \<noteq> C0" "E1 \<noteq> C1" "E2 \<noteq> C2" "E3 \<noteq> C3"
      using o0 [OF e(1)] o1 [OF m14] o2 [OF m20] o3 [OF m26] by simp_all
    have sh: "shift_slot (c + 1) = Some (Level 3 (D3 mod 64))"
      unfolding shift_slot_def lv using e by simp
    have now: "slot_of e c = Level 3 (E3 mod 64)" unfolding slot_of_def lv using eq by simp
    with other sh have "E3 \<noteq> D3" by auto
    with up have "E0 \<noteq> D0" "E1 \<noteq> D1" "E2 \<noteq> D2" "E3 \<noteq> D3" by blast+
    with now show ?thesis unfolding slot_of_def lv by simp
  qed
qed

text \<open>The tick that wraps the 32-bit clock.\<close>

lemma slot_of_wrap:
  assumes "e + 1 < 2 ^ 31" "shift_slot 0 \<noteq> Some (slot_of e (2 ^ 32 - 1))"
  shows "slot_of e 0 = slot_of e (2 ^ 32 - 1)"
proof -
  have e3: "e div 2 ^ 26 < 32" using assms(1) by simp
  then have "slot_of e (2 ^ 32 - 1) = Level 3 (e div 2 ^ 26)"
    unfolding slot_of_def div_levels by auto
  moreover from this assms(2) have "2 ^ 26 \<le> e" by (auto simp: shift_slot_def div_eq_0_iff)
  then have "slot_of e 0 = Level 3 (e div 2 ^ 26)"
    unfolding slot_of_def using e3 by (auto simp: div_eq_0_iff)
  ultimately show ?thesis by simp
qed

subsection \<open>The code's bit tests as divisions\<close>

lemma or_mask_eq_iff:
  fixes x y :: "'a::len word"
  shows "(x OR mask n) = (y OR mask n) \<longleftrightarrow> drop_bit n x = drop_bit n y"
proof
  assume eq: "(x OR mask n) = (y OR mask n)"
  show "drop_bit n x = drop_bit n y"
  proof (rule bit_eqI)
    fix k
    from eq have "bit (x OR mask n) (n + k) = bit (y OR mask n) (n + k)" by simp
    then show "bit (drop_bit n x) k = bit (drop_bit n y) k" by (simp add: bit_simps)
  qed
next
  assume eq: "drop_bit n x = drop_bit n y"
  show "(x OR mask n) = (y OR mask n)"
  proof (rule bit_eqI)
    fix k
    from eq have "bit (drop_bit n x) (k - n) = bit (drop_bit n y) (k - n)" by simp
    then show "bit (x OR mask n) k = bit (y OR mask n) k"
      by (cases "k < n") (auto simp: bit_simps dest: bit_imp_le_length)
  qed
qed

lemma unat_drop_bit_div: "unat (drop_bit n (x :: u32)) = unat x div 2 ^ n"
  by (simp only: unat_drop_bit_eq) (simp only: drop_bit_eq_div)

lemma or_mask_div:
  fixes x y :: u32
  assumes "m = mask n"
  shows "(x OR m) = (y OR m) \<longleftrightarrow> unat x div 2 ^ n = unat y div 2 ^ n"
  by (simp only: assms or_mask_eq_iff) (simp only: word_unat_eq_iff unat_drop_bit_div)

lemma and_mask_mod:
  fixes x :: u32
  assumes "m = mask n"
  shows "unat (x AND m) = unat x mod 2 ^ n"
  by (simp only: assms take_bit_eq_mask [symmetric] unsigned_take_bit_eq take_bit_eq_mod [of n "unat x"])

lemma masks:
  "(63 :: u32) = mask 6" "(255 :: u32) = mask 8" "(16383 :: u32) = mask 14"
  "(1048575 :: u32) = mask 20" "(67108863 :: u32) = mask 26"
  by (simp_all add: mask_eq_exp_minus_1)

lemma add_level_done: "add_level e c 3 m = 3"
  by (subst add_level.simps) simp

lemma add_level_unfold:
  "i < 3 \<Longrightarrow> add_level e c i m = (if (e OR (m - 1)) = (c OR (m - 1)) then i
     else add_level e c (i + 1) (push_bit 6 m))"
  by (subst add_level.simps) (simp add: TIME_LEVEL_SHIFT_def)

lemma add_level_div:
  "add_level e c 0 16384 =
    (if unat e div 2 ^ 14 = unat c div 2 ^ 14 then 0
     else if unat e div 2 ^ 20 = unat c div 2 ^ 20 then 1
     else if unat e div 2 ^ 26 = unat c div 2 ^ 26 then 2 else 3)"
proof -
  have n: "(0::nat) + 1 = 1" "(1::nat) + 1 = 2" "(2::nat) + 1 = 3" by simp_all
  have p: "push_bit 6 (16384 :: u32) = 1048576" "push_bit 6 (1048576 :: u32) = 67108864" by simp_all
  have m: "(16384 :: u32) - 1 = 16383" "(1048576 :: u32) - 1 = 1048575" "(67108864 :: u32) - 1 = 67108863"
    by simp_all
  have l: "(0::nat) < 3" "(1::nat) < 3" "(2::nat) < 3" by simp_all
  show ?thesis
    unfolding add_level_unfold [OF l(1)] n add_level_unfold [OF l(2)] n add_level_unfold [OF l(3)] n
      add_level_done p m or_mask_div [OF masks(3)] or_mask_div [OF masks(4)] or_mask_div [OF masks(5)]
    by (rule refl)
qed

definition link_slot :: "slot \<Rightarrow> timer_node \<Rightarrow> timer \<Rightarrow> timer option" where
  "link_slot sl n T = (case sl of Near k \<Rightarrow> link_near k n T | Level i k \<Rightarrow> link_level i k n T)"

lemma add_node_slot:
  "add_node n T = link_slot (slot_of (unat (expire n)) (unat (ti_time T))) n T"
proof -
  define e where "e = unat (expire n)"
  have near: "(expire n OR TIME_NEAR_MASK) = (ti_time T OR TIME_NEAR_MASK) \<longleftrightarrow> e div 2 ^ 8 = unat (ti_time T) div 2 ^ 8"
    using or_mask_div [OF masks(2)] by (simp add: TIME_NEAR_MASK_def e_def)
  have nidx: "unat (expire n AND TIME_NEAR_MASK) = e mod 2 ^ 8"
    using and_mask_mod [OF masks(2)] by (simp add: TIME_NEAR_MASK_def e_def)
  have lidx: "unat (drop_bit k (expire n) AND TIME_LEVEL_MASK) = e div 2 ^ k mod 64" for k
    using and_mask_mod [OF masks(1), of "drop_bit k (expire n)"]
    by (simp add: TIME_LEVEL_MASK_def e_def unat_drop_bit_div)
  have start: "push_bit 6 (of_nat TIME_NEAR :: u32) = 16384"
    by (simp add: timer_consts)
  have s: "(8::nat) + 0 * 6 = 8" "(8::nat) + 1 * 6 = 14" "(8::nat) + 2 * 6 = 20" "(8::nat) + 3 * 6 = 26"
    by simp_all
  show ?thesis
    unfolding add_node_def Let_def near nidx lidx start add_level_div e_def [symmetric] link_slot_def slot_of_def
      TIME_NEAR_SHIFT_def TIME_LEVEL_SHIFT_def
    by (simp only: if_distrib [of "case_slot _ _"] slot.case
        if_distrib [of "\<lambda>i. link_level i (e div 2 ^ (8 + i * 6) mod 64) n T"] s)
qed

subsection \<open>Cells and pending events\<close>

definition slots :: "slot set" where
  "slots = Near ` {..<256} \<union> (\<lambda>(i, k). Level i k) ` ({..<4} \<times> {..<64})"

fun cell :: "timer \<Rightarrow> slot \<Rightarrow> timer_node list" where
  "cell T (Near k) = near T ! k"
| "cell T (Level i k) = wheel T ! i ! k"

definition shape :: "timer \<Rightarrow> bool" where
  "shape T \<longleftrightarrow> length (near T) = 256 \<and> length (wheel T) = 4 \<and> (\<forall>i<4. length (wheel T ! i) = 64)"

definition pending :: "timer \<Rightarrow> timer_node multiset" where
  "pending T = (\<Sum>sl\<in>slots. mset (cell T sl))"

definition remaining :: "timer_node \<Rightarrow> timer \<Rightarrow> nat" where
  "remaining n T = unat (expire n - ti_time T)"

text \<open>Every node is in its slot and less than \<open>2 ^ 31\<close> ticks away.\<close>

definition winv :: "timer \<Rightarrow> bool" where
  "winv T \<longleftrightarrow> shape T \<and> (\<forall>sl\<in>slots. \<forall>n\<in>set (cell T sl).
     slot_of (unat (expire n)) (unat (ti_time T)) = sl \<and> remaining n T < 2 ^ 31)"

lemma finite_slots [simp]: "finite slots"
  by (simp add: slots_def)

lemma slots_iff [simp]: "Near k \<in> slots \<longleftrightarrow> k < 256" "Level i k \<in> slots \<longleftrightarrow> i < 4 \<and> k < 64"
  by (auto simp: slots_def)

lemma slot_of_slots: "e < 2 ^ 32 \<Longrightarrow> slot_of e c \<in> slots"
  by (auto simp: slot_of_def less_mult_imp_div_less)

lemma in_pending: "n \<in># pending T \<longleftrightarrow> (\<exists>sl\<in>slots. n \<in> set (cell T sl))"
  by (simp add: pending_def set_mset_sum)

lemma pending_upd:
  assumes "sl \<in> slots" "\<And>sl'. sl' \<in> slots \<Longrightarrow> sl' \<noteq> sl \<Longrightarrow> cell T' sl' = cell T sl'"
  shows "pending T' + mset (cell T sl) = pending T + mset (cell T' sl)"
proof -
  have "(\<Sum>x\<in>slots - {sl}. mset (cell T' x)) = (\<Sum>x\<in>slots - {sl}. mset (cell T x))"
    by (rule sum.cong) (use assms(2) in auto)
  then show ?thesis using assms(1) by (simp add: pending_def sum.remove [of slots sl])
qed

definition set_cell :: "slot \<Rightarrow> timer_node list \<Rightarrow> timer \<Rightarrow> timer" where
  "set_cell sl l T = (case sl of
     Near k \<Rightarrow> T\<lparr>near := (near T)[k := l]\<rparr>
   | Level i k \<Rightarrow> T\<lparr>wheel := (wheel T)[i := (wheel T ! i)[k := l]]\<rparr>)"

lemma set_cell_fields [simp]:
  "ti_time (set_cell sl l T) = ti_time T" "ti_starttime (set_cell sl l T) = ti_starttime T"
  "ti_current (set_cell sl l T) = ti_current T" "ti_current_point (set_cell sl l T) = ti_current_point T"
  by (simp_all add: set_cell_def split: slot.split)

lemma cell_set_cell [simp]:
  "shape T \<Longrightarrow> sl \<in> slots \<Longrightarrow> cell (set_cell sl l T) sl' = (if sl' = sl then l else cell T sl')"
  by (cases sl; cases sl') (auto simp: set_cell_def shape_def nth_list_update)

lemma shape_set_cell [simp]: "shape T \<Longrightarrow> shape (set_cell sl l T)"
  by (cases sl) (auto simp: set_cell_def shape_def nth_upd_if)

lemma pending_set_cell:
  assumes "shape T" "sl \<in> slots"
  shows "pending (set_cell sl l T) + mset (cell T sl) = pending T + mset l"
  using pending_upd [of sl "set_cell sl l T" T] assms by simp

lemma link_slot_eq:
  "shape T \<Longrightarrow> sl \<in> slots \<Longrightarrow> link_slot sl n T = Some (set_cell sl (cell T sl @ [n]) T)"
  by (cases sl) (auto simp: link_slot_def link_near_def link_level_def set_cell_def shape_def)

lemma link_clear_eq:
  "shape T \<Longrightarrow> k < 256 \<Longrightarrow> link_clear_near k T = Some (cell T (Near k), set_cell (Near k) [] T)"
  "shape T \<Longrightarrow> i < 4 \<Longrightarrow> k < 64 \<Longrightarrow>
     link_clear_level i k T = Some (cell T (Level i k), set_cell (Level i k) [] T)"
  by (simp_all add: link_clear_near_def link_clear_level_def set_cell_def shape_def)

lemma add_node_ok:
  assumes "winv T" "remaining n T < 2 ^ 31"
  shows "\<exists>T'. add_node n T = Some T' \<and> winv T' \<and> pending T' = add_mset n (pending T) \<and>
    ti_time T' = ti_time T"
proof -
  let ?sl = "slot_of (unat (expire n)) (unat (ti_time T))"
  have sl: "?sl \<in> slots" by (rule slot_of_slots) (use unsigned_less [of "expire n"] in simp)
  have sh: "shape T" using assms(1) by (simp add: winv_def)
  let ?T = "set_cell ?sl (cell T ?sl @ [n]) T"
  have "add_node n T = Some ?T" by (simp add: add_node_slot link_slot_eq [OF sh sl])
  moreover have "winv ?T"
    unfolding winv_def
  proof (intro conjI ballI)
    show "shape ?T" using sh by simp
    fix sl' m assume "sl' \<in> slots" "m \<in> set (cell ?T sl')"
    then have m: "sl' = ?sl \<and> m = n \<or> m \<in> set (cell T sl')"
      using cell_set_cell [OF sh sl, of "cell T ?sl @ [n]" sl'] by (auto split: if_splits)
    then show "slot_of (unat (expire m)) (unat (ti_time ?T)) = sl'"
      using assms(1) \<open>sl' \<in> slots\<close> by (auto simp: winv_def)
    show "remaining m ?T < 2 ^ 31"
      using m assms \<open>sl' \<in> slots\<close> by (auto simp: winv_def remaining_def)
  qed
  moreover have "pending ?T = add_mset n (pending T)"
    using pending_set_cell [OF sh sl, of "cell T ?sl @ [n]"] by simp
  ultimately show ?thesis by auto
qed

lemma add_nodes_ok:
  "winv T \<Longrightarrow> (\<And>n. n \<in> set ns \<Longrightarrow> remaining n T < 2 ^ 31) \<Longrightarrow>
   \<exists>T'. add_nodes ns T = Some T' \<and> winv T' \<and> pending T' = pending T + mset ns \<and> ti_time T' = ti_time T"
proof (induction ns arbitrary: T)
  case (Cons n ns)
  then obtain T1 where T1: "add_node n T = Some T1" "winv T1" "pending T1 = add_mset n (pending T)"
    "ti_time T1 = ti_time T" using add_node_ok [of T n] by auto
  with Cons.IH [of T1] Cons.prems(2) show ?case by (auto simp: remaining_def)
qed simp

subsection \<open>Executing and shifting\<close>

lemma timer_execute_step:
  assumes "winv T"
  defines "k \<equiv> unat (ti_time T) mod 2 ^ 8"
  shows "timer_execute push (T, w) =
    Some (set_cell (Near k) [] T, dispatch_list push (cell T (Near k)) w)"
proof -
  have sh: "shape T" and k: "k < 256" using assms by (auto simp: winv_def)
  have idx: "unat (ti_time T AND TIME_NEAR_MASK) = k"
    using and_mask_mod [OF masks(2)] by (simp add: TIME_NEAR_MASK_def k_def)
  have get: "array_get (near T) k = Some (cell T (Near k))" if "shape T" for T
    using that k by (simp add: shape_def)
  let ?T = "set_cell (Near k) [] T"
  have empty: "timer_execute push (?T, w') = Some (?T, w')" for w'
    using get [of ?T] cell_set_cell [OF sh, of "Near k" "[]" "Near k"] sh k idx
    by (subst timer_execute.simps) (simp del: cell.simps array_get_eq_Some)
  show ?thesis
  proof (cases "cell T (Near k) = []")
    case True
    then have "?T = T" using k sh by (simp add: set_cell_def list_update_same_conv shape_def)
    with True show ?thesis using empty [of w] by simp
  next
    case False
    then show ?thesis
      using get [OF sh] link_clear_eq(1) [OF sh k] idx
      by (subst timer_execute.simps) (simp add: empty del: cell.simps)
  qed
qed

lemma timer_execute_ok:
  assumes "winv T"
  shows "\<exists>T' D. timer_execute push (T, w) = Some (T', dispatch_list push D w) \<and> winv T' \<and>
    ti_time T' = ti_time T \<and> pending T = pending T' + mset D \<and>
    (\<forall>n\<in>set D. expire n = ti_time T) \<and> (\<forall>n\<in>#pending T'. expire n \<noteq> ti_time T)"
proof -
  define k where "k = unat (ti_time T) mod 2 ^ 8"
  let ?T = "set_cell (Near k) [] T" and ?D = "cell T (Near k)"
  have sh: "shape T" and sl: "Near k \<in> slots" using assms by (auto simp: winv_def k_def)
  have w: "slot_of (unat (expire n)) (unat (ti_time T)) = sl" "remaining n T < 2 ^ 31"
    if "sl \<in> slots" "n \<in> set (cell T sl)" for sl n using assms that by (auto simp: winv_def)
  have "winv ?T"
    unfolding winv_def using sh sl w by (auto simp: remaining_def simp del: cell.simps split: if_splits)
  moreover have "pending T = pending ?T + mset ?D"
    using pending_set_cell [OF sh sl, of "[]"] by simp
  moreover have "expire n = ti_time T" if "n \<in> set ?D" for n
    using w(1) [OF sl that] slot_of_now_iff [of "unat (expire n)" "unat (ti_time T)"]
    by (simp add: k_def word_unat_eq_iff)
  moreover have "expire n \<noteq> ti_time T" if pend: "n \<in># pending ?T" for n
  proof
    assume eq: "expire n = ti_time T"
    obtain sl' where "sl' \<in> slots" "n \<in> set (cell ?T sl')" using pend unfolding in_pending by blast
    then have "sl' \<noteq> Near k" "n \<in> set (cell T sl')"
      using cell_set_cell [OF sh sl, of "[]" sl'] by (auto split: if_splits)
    with w(1) [OF \<open>sl' \<in> slots\<close>, of n] eq show False
      using slot_of_now_iff [of "unat (expire n)" "unat (ti_time T)"] by (simp add: k_def)
  qed
  ultimately show ?thesis using timer_execute_step [OF assms, of push w] by (auto simp: k_def)
qed

lemma slot_of_tick_word:
  fixes e c :: u32
  assumes "e \<noteq> c" "unat (e - c) < 2 ^ 31"
    and other: "shift_slot (unat (c + 1)) \<noteq> Some (slot_of (unat e) (unat c))"
  shows "slot_of (unat e) (unat (c + 1)) = slot_of (unat e) (unat c)"
proof -
  have ne: "unat e \<noteq> unat c" using assms(1) by (simp add: word_unat_eq_iff)
  have eb: "unat e < 2 ^ 32" "unat c < 2 ^ 32" using unsigned_less [of e] unsigned_less [of c] by simp_all
  have dist: "unat (e - c) = (if unat c \<le> unat e then unat e - unat c else unat e + 2 ^ 32 - unat c)"
    by (simp add: unat_sub_if')
  have future: "unat c < unat e \<or> 2 ^ 31 < unat c - unat e"
    using dist assms(2) ne eb by (auto split: if_splits)
  show ?thesis
  proof (cases "unat c + 1 < 2 ^ 32")
    case True
    then have "unat (c + 1) = unat c + 1" by (simp add: unat_word_ariths)
    with slot_of_tick [OF ne future] other show ?thesis by simp
  next
    case False
    then have c: "unat c = 2 ^ 32 - 1" using eb by linarith
    then have "unat (c + 1) = 0" by (simp add: unat_word_ariths)
    moreover have "unat e + 1 < 2 ^ 31" using dist assms(2) c eb ne by (auto split: if_splits)
    ultimately show ?thesis using slot_of_wrap [of "unat e"] other c by simp
  qed
qed

lemma remaining_tick:
  fixes e c :: u32
  assumes "e \<noteq> c"
  shows "unat (e - (c + 1)) = unat (e - c) - 1"
proof -
  have eq: "e - (c + 1) = (e - c) - 1" by simp
  have "1 \<le> e - c" using assms by (simp add: word_le_nat_alt unat_eq_0 Suc_le_eq unat_gt_0)
  then show ?thesis unfolding eq using unat_sub [of 1 "e - c"] by simp
qed

lemma shift_loop_unfold:
  assumes "m - 1 = mask a" "a' = a + 6" "m' = push_bit 6 m" "j = i + 1"
  shows "shift_loop ct (drop_bit a ct) m i T =
    (if unat ct mod 2 ^ a = 0 then
       if unat ct div 2 ^ a mod 64 \<noteq> 0 then move_list i (unat ct div 2 ^ a mod 64) T
       else shift_loop ct (drop_bit a' ct) m' j T
     else Some T)"
proof -
  have z: "(ct AND (m - 1)) = 0 \<longleftrightarrow> unat ct mod 2 ^ a = 0"
    using and_mask_mod [OF assms(1), of ct] by (simp add: word_unat_eq_iff)
  have idx: "unat (drop_bit a ct AND TIME_LEVEL_MASK) = unat ct div 2 ^ a mod 64"
    using and_mask_mod [OF masks(1), of "drop_bit a ct"]
    by (simp add: TIME_LEVEL_MASK_def unat_drop_bit_div)
  have nxt: "drop_bit 6 (drop_bit a ct) = drop_bit a' ct"
    by (simp add: assms(2) drop_bit_drop_bit add.commute)
  show ?thesis
    by (subst shift_loop.simps) (simp only: z idx Let_def TIME_LEVEL_SHIFT_def nxt assms(3,4))
qed

lemma timer_shift_slot:
  "timer_shift T = (let T1 = T\<lparr>ti_time := ti_time T + 1\<rparr> in
     case shift_slot (unat (ti_time T + 1)) of None \<Rightarrow> Some T1 | Some (Level i k) \<Rightarrow> move_list i k T1
     | Some (Near k) \<Rightarrow> None)"
proof -
  define ct where "ct = ti_time T + 1"
  define T1 where "T1 = T\<lparr>ti_time := ct\<rparr>"
  define t where "t = unat ct"
  have tb: "t < 2 ^ 32" using unsigned_less [of ct] by (simp add: t_def)
  show ?thesis
  proof (cases "ct = 0")
    case True
    then show ?thesis
      by (simp add: timer_shift_def Let_def shift_slot_def ct_def [symmetric])
  next
    case False
    then have t0: "t \<noteq> 0" by (simp add: t_def unat_eq_0)
    have u0: "shift_loop ct (drop_bit 8 ct) 256 0 T1 =
        (if t mod 2 ^ 8 = 0 then if t div 2 ^ 8 mod 64 \<noteq> 0 then move_list 0 (t div 2 ^ 8 mod 64) T1
         else shift_loop ct (drop_bit 14 ct) 16384 1 T1 else Some T1)"
      unfolding t_def by (rule shift_loop_unfold) (simp_all add: mask_eq_exp_minus_1)
    have u1: "shift_loop ct (drop_bit 14 ct) 16384 1 T1 =
        (if t mod 2 ^ 14 = 0 then if t div 2 ^ 14 mod 64 \<noteq> 0 then move_list 1 (t div 2 ^ 14 mod 64) T1
         else shift_loop ct (drop_bit 20 ct) 1048576 2 T1 else Some T1)"
      unfolding t_def by (rule shift_loop_unfold) (simp_all add: mask_eq_exp_minus_1)
    have u2: "shift_loop ct (drop_bit 20 ct) 1048576 2 T1 =
        (if t mod 2 ^ 20 = 0 then if t div 2 ^ 20 mod 64 \<noteq> 0 then move_list 2 (t div 2 ^ 20 mod 64) T1
         else shift_loop ct (drop_bit 26 ct) 67108864 3 T1 else Some T1)"
      unfolding t_def by (rule shift_loop_unfold) (simp_all add: mask_eq_exp_minus_1)
    have u3: "shift_loop ct (drop_bit 26 ct) 67108864 3 T1 =
        (if t mod 2 ^ 26 = 0 then if t div 2 ^ 26 mod 64 \<noteq> 0 then move_list 3 (t div 2 ^ 26 mod 64) T1
         else shift_loop ct (drop_bit 32 ct) 0 4 T1 else Some T1)"
      unfolding t_def by (rule shift_loop_unfold) (simp_all add: mask_eq_exp_minus_1)
    have z: "t mod 2 ^ 8 = 0 \<Longrightarrow> t div 2 ^ 8 mod 64 = 0 \<Longrightarrow> t mod 2 ^ 14 = 0"
      "t mod 2 ^ 14 = 0 \<Longrightarrow> t div 2 ^ 14 mod 64 = 0 \<Longrightarrow> t mod 2 ^ 20 = 0"
      "t mod 2 ^ 20 = 0 \<Longrightarrow> t div 2 ^ 20 mod 64 = 0 \<Longrightarrow> t mod 2 ^ 26 = 0"
      using mod_mult_zero [of t "2 ^ 8" 64] mod_mult_zero [of t "2 ^ 14" 64] mod_mult_zero [of t "2 ^ 20" 64]
      by simp_all
    have top: "t mod 2 ^ 26 = 0 \<Longrightarrow> t div 2 ^ 26 mod 64 \<noteq> 0"
    proof -
      assume "t mod 2 ^ 26 = 0"
      then have "t div 2 ^ 26 \<noteq> 0" using t0 by (metis div_mult_mod_eq mult_0 add.right_neutral)
      moreover have "t div 2 ^ 26 < 64" by (rule less_mult_imp_div_less) (use tb in simp)
      ultimately show ?thesis by simp
    qed
    have "timer_shift T = shift_loop ct (drop_bit 8 ct) 256 0 T1"
      using False by (simp add: timer_shift_def Let_def ct_def T1_def timer_consts)
    also have "\<dots> = (case shift_slot t of None \<Rightarrow> Some T1 | Some (Level i k) \<Rightarrow> move_list i k T1
        | Some (Near k) \<Rightarrow> None)"
      unfolding u0 u1 u2 u3 shift_slot_def using z top
      by (simp only: if_distrib [of "case_option _ _"] if_distrib [of "case_slot _ _"] option.case slot.case)
        (auto simp del: power_numeral)
    finally show ?thesis by (simp only: Let_def ct_def T1_def t_def)
  qed
qed

lemma cell_time [simp]: "cell (T\<lparr>ti_time := c\<rparr>) sl = cell T sl"
  by (cases sl) simp_all

lemma shape_time [simp]: "shape (T\<lparr>ti_time := c\<rparr>) = shape T"
  by (simp add: shape_def)

lemma pending_time [simp]: "pending (T\<lparr>ti_time := c\<rparr>) = pending T"
  by (simp add: pending_def)

lemma shift_slot_slots: "shift_slot c = Some sl \<Longrightarrow> c < 2 ^ 32 \<Longrightarrow> sl \<in> slots \<and> (\<exists>i k. sl = Level i k)"
  by (auto simp: shift_slot_def split: if_splits)

lemma timer_shift_ok:
  assumes w: "winv T" and old: "\<forall>n\<in>#pending T. expire n \<noteq> ti_time T"
  shows "\<exists>T'. timer_shift T = Some T' \<and> winv T' \<and> pending T' = pending T \<and> ti_time T' = ti_time T + 1"
proof -
  define T1 where "T1 = T\<lparr>ti_time := ti_time T + 1\<rparr>"
  define ss where "ss = shift_slot (unat (ti_time T + 1))"
  have sh: "shape T1" using w by (simp add: winv_def T1_def)
  have in_cell: "expire n \<noteq> ti_time T" "remaining n T1 < 2 ^ 31"
    "slot_of (unat (expire n)) (unat (ti_time T)) = sl"
    "ss \<noteq> Some sl \<Longrightarrow> slot_of (unat (expire n)) (unat (ti_time T1)) = sl"
    if n: "sl \<in> slots" "n \<in> set (cell T sl)" for sl n
  proof -
    have "n \<in># pending T" unfolding in_pending using n by (rule bexI [rotated])
    with old show ne: "expire n \<noteq> ti_time T" by blast
    show sl: "slot_of (unat (expire n)) (unat (ti_time T)) = sl" using w n by (auto simp: winv_def)
    have rem: "unat (expire n - ti_time T) < 2 ^ 31" using w n by (auto simp: winv_def remaining_def)
    then show "remaining n T1 < 2 ^ 31" using remaining_tick [OF ne] by (simp add: remaining_def T1_def)
    show "slot_of (unat (expire n)) (unat (ti_time T1)) = sl" if "ss \<noteq> Some sl"
      using slot_of_tick_word [OF ne rem] that sl by (simp add: ss_def T1_def)
  qed
  have shift: "timer_shift T = (case ss of None \<Rightarrow> Some T1 | Some (Level i k) \<Rightarrow> move_list i k T1
     | Some (Near k) \<Rightarrow> None)"
    by (simp only: timer_shift_slot Let_def ss_def T1_def)
  show ?thesis
  proof (cases ss)
    case None
    then have "winv T1" using sh in_cell unfolding winv_def by (auto simp: T1_def)
    with None shift show ?thesis by (auto simp: T1_def)
  next
    case (Some sl)
    then obtain i k where sl: "sl \<in> slots" "sl = Level i k"
      using shift_slot_slots [of "unat (ti_time T + 1)" sl] unat_u32_less [of "ti_time T + 1"]
      by (auto simp: ss_def)
    define T2 where "T2 = set_cell sl [] T1"
    have "winv T2" unfolding winv_def
    proof (intro conjI ballI)
      show "shape T2" using sh by (simp add: T2_def)
      fix sl' n assume n: "sl' \<in> slots" "n \<in> set (cell T2 sl')"
      then have "sl' \<noteq> sl" "n \<in> set (cell T sl')"
        using cell_set_cell [OF sh sl(1), of "[]" sl'] by (auto simp: T2_def T1_def split: if_splits)
      with in_cell [OF n(1)] Some
      show "slot_of (unat (expire n)) (unat (ti_time T2)) = sl'" "remaining n T2 < 2 ^ 31"
        by (auto simp: T2_def remaining_def)
    qed
    moreover have "remaining n T2 < 2 ^ 31" if "n \<in> set (cell T sl)" for n
      using in_cell(2) [OF sl(1) that] by (simp add: T2_def remaining_def)
    ultimately obtain T3 where T3: "add_nodes (cell T sl) T2 = Some T3" "winv T3"
      "pending T3 = pending T2 + mset (cell T sl)" "ti_time T3 = ti_time T2"
      using add_nodes_ok by blast
    have "pending T2 + mset (cell T sl) = pending T"
      using pending_set_cell [OF sh sl(1), of "[]"] by (simp add: T2_def T1_def)
    moreover have "timer_shift T = Some T3"
      using shift Some sl T3(1) link_clear_eq(2) [OF sh, of i k] by (simp add: move_list_def T2_def T1_def)
    ultimately show ?thesis using T3 by (simp add: T2_def T1_def)
  qed
qed

text \<open>One \<open>timer_update\<close>: nothing else is due, and exactly the nodes due now are delivered.\<close>

definition strict :: "timer \<Rightarrow> bool" where
  "strict T \<longleftrightarrow> winv T \<and> (\<forall>n\<in>#pending T. expire n \<noteq> ti_time T)"

lemma timer_update_ok:
  assumes "strict T"
  shows "\<exists>T' D. timer_update push (T, w) = Some (T', dispatch_list push D w) \<and> strict T' \<and>
    ti_time T' = ti_time T + 1 \<and>
    mset D = {#n \<in># pending T. expire n = ti_time T + 1#} \<and>
    pending T' = {#n \<in># pending T. expire n \<noteq> ti_time T + 1#}"
proof -
  have w: "winv T" using assms by (simp add: strict_def)
  obtain T1 D1 where e1: "timer_execute push (T, w) = Some (T1, dispatch_list push D1 w)" "winv T1"
    "ti_time T1 = ti_time T" "pending T = pending T1 + mset D1" "\<forall>n\<in>set D1. expire n = ti_time T"
    "\<forall>n\<in>#pending T1. expire n \<noteq> ti_time T"
    using timer_execute_ok [OF w, of push w] by blast
  have "D1 = []"
  proof (rule ccontr)
    assume "D1 \<noteq> []"
    then have "hd D1 \<in># pending T" "expire (hd D1) = ti_time T" using e1(4,5) by simp_all
    with assms show False by (simp add: strict_def)
  qed
  with e1 have p1: "pending T1 = pending T" by simp
  obtain T2 where s: "timer_shift T1 = Some T2" "winv T2" "pending T2 = pending T" "ti_time T2 = ti_time T + 1"
    using timer_shift_ok [OF e1(2)] e1(3,6) p1 by auto
  obtain T3 D where e2: "timer_execute push (T2, w) = Some (T3, dispatch_list push D w)" "winv T3"
    "ti_time T3 = ti_time T2" "pending T2 = pending T3 + mset D" "\<forall>n\<in>set D. expire n = ti_time T2"
    "\<forall>n\<in>#pending T3. expire n \<noteq> ti_time T2"
    using timer_execute_ok [OF s(2), of push w] by blast
  have "{#n \<in># pending T. expire n = ti_time T + 1#} = mset D"
    "{#n \<in># pending T. expire n \<noteq> ti_time T + 1#} = pending T3"
    using filter_mset_split [of "mset D" "\<lambda>n. expire n = ti_time T + 1" "pending T3"] e2(4,5,6) s(3,4)
    by (simp_all add: add.commute)
  moreover have "timer_update push (T, w) = Some (T3, dispatch_list push D w)"
    using e1(1) s(1) e2(1) \<open>D1 = []\<close> by (simp add: timer_update_def)
  moreover have "strict T3" using e2 by (simp add: strict_def)
  ultimately show ?thesis using e2 s by auto
qed

subsection \<open>The calendar\<close>

text \<open>
  The abstract timer: \<open>now\<close> counts ticks without bound, and \<open>due\<close> holds events with their
  absolute deadlines.
\<close>

record calendar =
  now :: nat
  due :: "(nat \<times> u32 \<times> int) multiset"

definition cal_init :: calendar where
  "cal_init = \<lparr>now = 0, due = {#}\<rparr>"

definition cal_add :: "u32 \<Rightarrow> nat \<Rightarrow> int \<Rightarrow> calendar \<Rightarrow> calendar" where
  "cal_add handle d session c = c\<lparr>due := add_mset (now c + d, handle, session) (due c)\<rparr>"

definition cal_tick :: "calendar \<Rightarrow> (u32 \<times> int) multiset \<times> calendar" where
  "cal_tick c = (image_mset snd {#x \<in># due c. fst x = now c + 1#},
     \<lparr>now = now c + 1, due = {#x \<in># due c. fst x \<noteq> now c + 1#}\<rparr>)"

definition node_event :: "timer_node \<Rightarrow> u32 \<times> int" where
  "node_event n = (ev_handle n, ev_session n)"

text \<open>The wheel stores the deadlines modulo \<open>2 ^ 32\<close>; all of them lie within \<open>2 ^ 31\<close> ticks.\<close>

definition cal_rel :: "timer \<Rightarrow> calendar \<Rightarrow> bool" where
  "cal_rel T c \<longleftrightarrow> strict T \<and> ti_time T = of_nat (now c) \<and>
     (\<forall>x\<in>#due c. now c < fst x \<and> fst x < now c + 2 ^ 31) \<and>
     {#(expire n, node_event n). n \<in># pending T#} = {#(of_nat (fst x), snd x). x \<in># due c#}"

lemma pending_create: "pending (skynet_timer_init sec cs t) = {#}"
  by (auto simp: skynet_timer_init_def timer_create_timer_def timer_consts pending_def slots_def
      intro!: sum.neutral)

lemma cal_rel_init: "cal_rel (skynet_timer_init sec cs t) cal_init"
proof -
  have "winv (skynet_timer_init sec cs t)"
    by (auto simp: winv_def shape_def slots_def skynet_timer_init_def timer_create_timer_def timer_consts)
  then show ?thesis
    by (simp add: cal_rel_def strict_def pending_create cal_init_def)
      (simp add: skynet_timer_init_def timer_create_timer_def)
qed

lemma of_nat_eq_near:
  assumes "m < x" "x < m + 2 ^ 31" "(of_nat x :: u32) = of_nat (m + d)" "d < 2 ^ 31"
  shows "x = m + d"
proof -
  have "x mod 2 ^ 32 = (m + d) mod 2 ^ 32"
    using arg_cong [OF assms(3), of unat] by (simp add: unat_of_nat del: of_nat_add)
  then have "(m + (x - m)) mod 2 ^ 32 = (m + d) mod 2 ^ 32" using assms(1) by simp
  then have "x - m = d" by (rule mod_add_inj) (use assms in simp_all)
  then show ?thesis using assms(1) by simp
qed

lemma cal_rel_add:
  assumes rel: "cal_rel T c" and d: "0 < d" "d < 2 ^ 31"
  shows "\<exists>T'. timer_add T handle session d = Some T' \<and> cal_rel T' (cal_add handle (nat d) session c)"
proof -
  let ?n = "\<lparr>expire = of_int d + ti_time T, ev_handle = handle, ev_session = session\<rparr>"
  have tm: "ti_time T = of_nat (now c)" using rel by (simp add: cal_rel_def)
  have od: "(of_int d :: u32) = of_nat (nat d)" using d(1) by simp
  have ud: "unat (of_nat (nat d) :: u32) = nat d" using d by (simp add: unat_of_nat del: of_nat_nat)
  have rem: "remaining ?n T = nat d" by (simp add: remaining_def od ud del: of_nat_nat)
  obtain T' where T': "add_node ?n T = Some T'" "winv T'" "pending T' = add_mset ?n (pending T)"
    "ti_time T' = ti_time T"
  proof -
    have "winv T" "remaining ?n T < 2 ^ 31" using rel rem d by (auto simp: cal_rel_def strict_def)
    from add_node_ok [OF this] show ?thesis using that by blast
  qed
  have "expire ?n \<noteq> ti_time T" using rem d by (auto simp: remaining_def)
  then have "strict T'" using T' rel by (auto simp: strict_def cal_rel_def)
  moreover have "expire ?n = of_nat (now c + nat d)" by (simp add: tm od add.commute del: of_nat_nat)
  ultimately have "cal_rel T' (cal_add handle (nat d) session c)"
    using T' rel d unfolding cal_rel_def cal_add_def by (auto simp: node_event_def)
  with T' show ?thesis by (auto simp: timer_add_def)
qed

lemma cal_rel_tick:
  assumes rel: "cal_rel T c"
  shows "\<exists>T' D. timer_update push (T, w) = Some (T', dispatch_list push D w) \<and>
    mset (map node_event D) = fst (cal_tick c) \<and> cal_rel T' (snd (cal_tick c))"
proof -
  let ?t = "ti_time T + 1"
  have st: "strict T" and tm: "?t = of_nat (now c + 1)" and img:
    "{#(expire n, node_event n). n \<in># pending T#} = {#(of_nat (fst x), snd x). x \<in># due c#}"
    and range: "\<And>x. x \<in># due c \<Longrightarrow> now c < fst x \<and> fst x < now c + 2 ^ 31"
    using rel by (auto simp: cal_rel_def)
  obtain T' D where u: "timer_update push (T, w) = Some (T', dispatch_list push D w)" "strict T'"
    "ti_time T' = ?t" "mset D = {#n \<in># pending T. expire n = ?t#}"
    "pending T' = {#n \<in># pending T. expire n \<noteq> ?t#}"
    using timer_update_ok [OF st, of push w] by blast
  have due_iff: "of_nat (fst x) = ?t \<longleftrightarrow> fst x = now c + 1" if "x \<in># due c" for x
    using of_nat_eq_near [of "now c" "fst x" 1] range [OF that] tm by auto
  have flt: "{#(expire n, node_event n). n \<in># filter_mset (\<lambda>n. P (expire n)) (pending T)#} =
      {#(of_nat (fst x), snd x). x \<in># filter_mset (\<lambda>x. P (of_nat (fst x))) (due c)#}" for P
    using arg_cong [OF img, of "filter_mset (\<lambda>y. P (fst y))"]
    by (simp add: filter_mset_image_mset)
  have f1: "filter_mset (\<lambda>x. of_nat (fst x) = ?t) (due c) = {#x \<in># due c. fst x = now c + 1#}"
    "filter_mset (\<lambda>x. of_nat (fst x) \<noteq> ?t) (due c) = {#x \<in># due c. fst x \<noteq> now c + 1#}"
    using due_iff by (auto intro!: filter_mset_cong)
  have "mset (map node_event D) = image_mset snd {#(expire n, node_event n). n \<in># {#n \<in># pending T. expire n = ?t#}#}"
    by (simp add: u(4) [symmetric] multiset.map_comp comp_def)
  also have "\<dots> = fst (cal_tick c)"
    unfolding flt [of "\<lambda>e. e = ?t"] f1 by (simp add: cal_tick_def multiset.map_comp comp_def)
  finally have "mset (map node_event D) = fst (cal_tick c)" .
  moreover have "cal_rel T' (snd (cal_tick c))"
    unfolding cal_rel_def u(5) flt [of "\<lambda>e. e \<noteq> ?t"] f1
    using u(2,3) tm range by (fastforce simp: cal_tick_def)
  ultimately show ?thesis using u(1) by blast
qed

subsection \<open>Runs\<close>

datatype timer_op = Timeout u32 int int | Tick

text \<open>A run of the timer thread (\<open>Tick\<close>) and of services asking for timeouts.\<close>

fun timer_run :: "(u32 \<Rightarrow> skynet_message \<Rightarrow> 'w \<Rightarrow> int \<times> 'w) \<Rightarrow> timer_op list \<Rightarrow> timer \<times> 'w \<Rightarrow> (timer \<times> 'w) option" where
  "timer_run push [] Tw = Some Tw"
| "timer_run push (Timeout h t session # ops) Tw = do {
     (r, Tw) \<leftarrow> skynet_timeout push h t session Tw; timer_run push ops Tw }"
| "timer_run push (Tick # ops) Tw = do { Tw \<leftarrow> timer_update push Tw; timer_run push ops Tw }"

fun cal_run :: "timer_op list \<Rightarrow> calendar \<Rightarrow> (u32 \<times> int) multiset list \<times> calendar" where
  "cal_run [] c = ([], c)"
| "cal_run (Timeout h t session # ops) c = cal_run ops (cal_add h (nat t) session c)"
| "cal_run (Tick # ops) c = (case cal_tick c of (d, c) \<Rightarrow> case cal_run ops c of (ds, c) \<Rightarrow> (d # ds, c))"

definition positive_timeout :: "timer_op \<Rightarrow> bool" where
  "positive_timeout op = (case op of Timeout h t session \<Rightarrow> 0 < t \<and> t < 2 ^ 31 | Tick \<Rightarrow> True)"

lemma timer_run_cal:
  "cal_rel T c \<Longrightarrow> list_all positive_timeout ops \<Longrightarrow>
   \<exists>T' Ds. timer_run push ops (T, w) = Some (T', fold (dispatch_list push) Ds w) \<and>
     map (mset \<circ> map node_event) Ds = fst (cal_run ops c) \<and> cal_rel T' (snd (cal_run ops c))"
proof (induction ops arbitrary: T c w)
  case Nil
  then show ?case by (auto intro!: exI [of _ "[]"])
next
  case (Cons op ops)
  show ?case
  proof (cases op)
    case (Timeout h t session)
    with Cons.prems have t: "0 < t" "t < 2 ^ 31" by (auto simp: positive_timeout_def)
    obtain T1 where "timer_add T h session t = Some T1" "cal_rel T1 (cal_add h (nat t) session c)"
      using cal_rel_add [OF Cons.prems(1) t] by blast
    with Cons.IH [of T1 _ w] Cons.prems(2) t Timeout show ?thesis
      by (simp add: skynet_timeout_def)
  next
    case Tick
    obtain T1 D where u: "timer_update push (T, w) = Some (T1, dispatch_list push D w)"
      "mset (map node_event D) = fst (cal_tick c)" "cal_rel T1 (snd (cal_tick c))"
      using cal_rel_tick [OF Cons.prems(1), of push w] by blast
    have "list_all positive_timeout ops" using Cons.prems(2) by simp
    from Cons.IH [OF u(3) this, of "dispatch_list push D w"] obtain T' Ds where
      "timer_run push ops (T1, dispatch_list push D w) = Some (T', fold (dispatch_list push) Ds (dispatch_list push D w))"
      "map (mset \<circ> map node_event) Ds = fst (cal_run ops (snd (cal_tick c)))"
      "cal_rel T' (snd (cal_run ops (snd (cal_tick c))))" by blast
    with u Tick show ?thesis by (auto intro!: exI [of _ "D # Ds"] split: prod.split)
  qed
qed

text \<open>The calendar: an event is delivered by the tick of its deadline and by no other.\<close>

lemma cal_run_ticks:
  "k < n \<Longrightarrow> fst (cal_run (replicate n Tick) c) ! k =
     image_mset snd {#x \<in># due c. fst x = now c + 1 + k#}"
proof (induction n arbitrary: k c)
  case (Suc n)
  show ?case
  proof (cases k)
    case 0
    then show ?thesis by (simp add: cal_tick_def split: prod.split)
  next
    case (Suc j)
    have "{#x \<in># {#x \<in># due c. fst x \<noteq> now c + 1#}. fst x = now c + 2 + j#} = {#x \<in># due c. fst x = now c + 2 + j#}"
      by (auto simp: filter_filter_mset intro!: filter_mset_cong)
    with Suc Suc.IH [of j "snd (cal_tick c)"] Suc.prems show ?thesis
      by (simp add: cal_tick_def case_prod_beta)
  qed
qed simp

subsection \<open>The clock fields\<close>

definition clock :: "timer \<Rightarrow> u32 \<times> u64 \<times> u64" where
  "clock T = (ti_starttime T, ti_current T, ti_current_point T)"

lemma clock_link:
  "link_near k n T = Some T' \<Longrightarrow> clock T' = clock T" "link_level i k n T = Some T' \<Longrightarrow> clock T' = clock T"
  "link_clear_near k T = Some (l, T') \<Longrightarrow> clock T' = clock T"
  "link_clear_level i k T = Some (l, T') \<Longrightarrow> clock T' = clock T"
  by (auto simp: clock_def link_near_def link_level_def link_clear_near_def link_clear_level_def bind_Some_iff)

lemma clock_add_nodes: "add_nodes ns T = Some T' \<Longrightarrow> clock T' = clock T"
proof (induction ns arbitrary: T)
  case (Cons n ns)
  then obtain T1 where "add_node n T = Some T1" "add_nodes ns T1 = Some T'" by (auto simp: bind_Some_iff)
  with Cons.IH clock_link(1,2) show ?case
    by (auto simp: add_node_slot link_slot_def split: slot.splits)
qed simp

lemma clock_shift: "timer_shift T = Some T' \<Longrightarrow> clock T' = clock T"
proof -
  assume *: "timer_shift T = Some T'"
  have "clock (T\<lparr>ti_time := t\<rparr>) = clock T" for t by (simp add: clock_def)
  then show ?thesis using * clock_link(4) clock_add_nodes
    by (auto simp: timer_shift_slot Let_def move_list_def bind_Some_iff split: option.splits slot.splits)
qed

lemma clock_update:
  assumes "strict T" "timer_update push (T, w) = Some (T', w')"
  shows "clock T' = clock T"
proof -
  obtain T1 w1 T2 where s: "timer_execute push (T, w) = Some (T1, w1)" "timer_shift T1 = Some T2"
    "timer_execute push (T2, w1) = Some (T', w')"
    using assms(2) by (auto simp: timer_update_def bind_Some_iff)
  have exec: "clock B = clock A" "winv B" if "winv A" "timer_execute push (A, v) = Some (B, v')" for A B v v'
    using timer_execute_step [OF that(1), of push v] timer_execute_ok [OF that(1), of push v] that(2)
    by (auto simp: clock_def)
  have T1: "clock T1 = clock T" "winv T1" using exec [OF _ s(1)] assms(1) by (auto simp: strict_def)
  have "\<forall>n\<in>#pending T1. expire n \<noteq> ti_time T1"
    using timer_execute_ok [of T push w] s(1) assms(1) by (auto simp: strict_def)
  with timer_shift_ok [OF T1(2)] s(2) have "winv T2" by auto
  with exec(1) [OF _ s(3)] clock_shift [OF s(2)] T1(1) show ?thesis by simp
qed

lemma timer_updates_ok:
  "strict T \<Longrightarrow> \<exists>T' w'. timer_updates push n (T, w) = Some (T', w') \<and> strict T' \<and>
     clock T' = clock T \<and> ti_time T' = ti_time T + of_nat n"
proof (induction n arbitrary: T w)
  case (Suc n)
  obtain T1 D where u: "timer_update push (T, w) = Some (T1, dispatch_list push D w)" "strict T1"
    "ti_time T1 = ti_time T + 1"
    using timer_update_ok [OF Suc.prems, of push w] by blast
  from Suc.IH [OF u(2), of "dispatch_list push D w"] u clock_update [OF Suc.prems u(1)]
  show ?case by (auto simp: algebra_simps)
qed simp

lemma strict_clock: "strict (T\<lparr>ti_current_point := a, ti_current := b\<rparr>) = strict T"
proof -
  have c: "cell (T\<lparr>ti_current_point := a, ti_current := b\<rparr>) sl = cell T sl" for sl by (cases sl) simp_all
  show ?thesis by (simp add: strict_def winv_def shape_def remaining_def pending_def c)
qed

subsection \<open>Properties\<close>

text \<open>C2: The timing wheel implements a calendar: over any sequence of timeouts (of 1 to \<open>2 ^ 31 - 1\<close>
  ticks) and timer updates from a fresh timer, every update returns and delivers exactly the
  events whose deadline is that tick, also across the wrap-around of the 32-bit clock.\<close>

theorem timer_refines_calendar:
  assumes "list_all positive_timeout ops"
  shows "\<exists>T' Ds. timer_run push ops (skynet_timer_init sec cs t, w) = Some (T', fold (dispatch_list push) Ds w) \<and>
    map (mset \<circ> map node_event) Ds = fst (cal_run ops cal_init) \<and> cal_rel T' (snd (cal_run ops cal_init))"
  by (rule timer_run_cal [OF cal_rel_init assms])

text \<open>C16: In every state the wheel can reach, a timeout of \<open>d\<close> ticks fires on the \<open>d\<close>-th following
  timer update and on none before it: \<open>Ds ! k\<close> are the nodes delivered by update \<open>k + 1\<close>.\<close>

theorem skynet_timeout_fires_on_time:
  assumes "cal_rel T c" "0 < d" "d < 2 ^ 31" "(handle, session) \<notin># image_mset snd (due c)"
  shows "\<exists>T1 Ds T2. skynet_timeout push handle d session (T, w) = Some (session, T1, w) \<and>
    timer_run push (replicate (nat d) Tick) (T1, w) = Some (T2, fold (dispatch_list push) Ds w) \<and>
    length Ds = nat d \<and>
    (\<forall>k < nat d. (handle, session) \<in> set (map node_event (Ds ! k)) \<longleftrightarrow> k = nat d - 1)"
proof -
  let ?c = "cal_add handle (nat d) session c" and ?ops = "replicate (nat d) Tick"
  obtain T1 where T1: "timer_add T handle session d = Some T1" "cal_rel T1 ?c"
    using cal_rel_add [OF assms(1,2,3)] by blast
  have "list_all positive_timeout ?ops" by (simp add: list_all_iff positive_timeout_def)
  from timer_run_cal [OF T1(2) this, of push w] obtain T2 Ds where
    run: "timer_run push ?ops (T1, w) = Some (T2, fold (dispatch_list push) Ds w)"
    and Ds: "map (mset \<circ> map node_event) Ds = fst (cal_run ?ops ?c)" by blast
  have len: "length (fst (cal_run (replicate n Tick) x)) = n" for n x
    by (induction n arbitrary: x) (simp_all add: case_prod_beta)
  then have lD: "length Ds = nat d" using arg_cong [OF Ds, of length] by simp
  have "(handle, session) \<in> set (map node_event (Ds ! k)) \<longleftrightarrow> k = nat d - 1" if k: "k < nat d" for k
  proof -
    have "set (map node_event (Ds ! k)) = set_mset ((map (mset \<circ> map node_event) Ds) ! k)"
      using k lD by simp
    also have "\<dots> = snd ` {x \<in> set_mset (due ?c). fst x = now ?c + 1 + k}"
      using cal_run_ticks [OF k, of ?c] by (simp add: Ds)
    finally show ?thesis using assms(2,4) k by (auto simp: cal_add_def image_iff)
  qed
  with T1 run lD assms(2) show ?thesis by (auto simp: skynet_timeout_def)
qed

text \<open>\<open>skynet_updatetime\<close> always returns; it sets the clock to the reading, advances \<open>current\<close>
  and the tick counter by the (32-bit) difference, and leaves both alone when the clock went
  backwards.\<close>

theorem skynet_updatetime_spec:
  assumes "strict T"
  shows "\<exists>T' w'. skynet_updatetime push cp (T, w) = Some (T', w') \<and> strict T' \<and> ti_current_point T' = cp \<and>
    (if cp < ti_current_point T then ti_current T' = ti_current T \<and> ti_time T' = ti_time T \<and> w' = w
     else ti_current T' = ti_current T + ucast (ucast (cp - ti_current_point T) :: u32) \<and>
       ti_time T' = ti_time T + ucast (cp - ti_current_point T))"
proof -
  let ?d = "ucast (cp - ti_current_point T) :: u32"
  let ?T = "T\<lparr>ti_current_point := cp, ti_current := ti_current T + ucast ?d\<rparr>"
  have "strict ?T" using assms by (simp add: strict_clock)
  then obtain T' w' where u: "timer_updates push (unat ?d) (?T, w) = Some (T', w')" "strict T'"
    "clock T' = clock ?T" "ti_time T' = ti_time T + of_nat (unat ?d)"
    using timer_updates_ok [of ?T push "unat ?d" w] by auto
  have bk: "strict (T\<lparr>ti_current_point := cp\<rparr>)"
    using strict_clock [where a = cp and b = "ti_current T" and T = T] assms by simp
  consider "cp < ti_current_point T" | "cp = ti_current_point T"
    | "\<not> cp < ti_current_point T" "cp \<noteq> ti_current_point T" by blast
  then show ?thesis
  proof cases
    case 1
    with bk show ?thesis by (simp add: skynet_updatetime_def)
  next
    case 2
    with assms show ?thesis by (simp add: skynet_updatetime_def)
  next
    case 3
    then have "skynet_updatetime push cp (T, w) = Some (T', w')" using u(1) by (simp add: skynet_updatetime_def Let_def)
    moreover have "ti_current_point T' = cp" "ti_current T' = ti_current T + ucast ?d"
      "ti_time T' = ti_time T + ?d" using u(3,4) by (simp_all add: clock_def)
    ultimately show ?thesis using 3 u(2) by auto
  qed
qed

subsection \<open>Witnesses\<close>

text \<open>Delivery that records the handle and the session of each message.\<close>

definition w_push :: "u32 \<Rightarrow> skynet_message \<Rightarrow> (u32 \<times> int) list \<Rightarrow> int \<times> (u32 \<times> int) list" where
  "w_push h m w = (0, w @ [(h, msg_session m)])"

theorem timer_refines_calendar_witness:
  "\<exists>T' Ds. timer_run w_push [Timeout 1 2 7, Tick, Tick] (skynet_timer_init 0 0 0, []) =
      Some (T', fold (dispatch_list w_push) Ds []) \<and>
    map (mset \<circ> map node_event) Ds = [{#}, {#(1, 7)#}]"
proof -
  have "list_all positive_timeout [Timeout 1 2 7, Tick, Tick]" by (simp add: positive_timeout_def)
  moreover have "fst (cal_run [Timeout 1 2 7, Tick, Tick] cal_init) = [{#}, {#(1, 7)#}]"
    by (simp add: cal_init_def cal_add_def cal_tick_def)
  ultimately show ?thesis
    using timer_refines_calendar [of "[Timeout 1 2 7, Tick, Tick]" w_push 0 0 0 "[]"] by metis
qed

theorem skynet_timeout_fires_on_time_witness:
  "\<exists>T1 Ds T2. skynet_timeout w_push 1 3 7 (skynet_timer_init 0 0 0, []) = Some (7, T1, []) \<and>
    timer_run w_push (replicate 3 Tick) (T1, []) = Some (T2, fold (dispatch_list w_push) Ds []) \<and>
    (1, 7) \<in> set (map node_event (Ds ! 2)) \<and> (1, 7) \<notin> set (map node_event (Ds ! 1))"
proof -
  obtain T1 Ds T2 where r: "skynet_timeout w_push 1 3 7 (skynet_timer_init 0 0 0, []) = Some (7, T1, [])"
    "timer_run w_push (replicate (nat 3) Tick) (T1, []) = Some (T2, fold (dispatch_list w_push) Ds [])"
    "\<forall>k < nat 3. (1, 7) \<in> set (map node_event (Ds ! k)) \<longleftrightarrow> k = nat 3 - 1"
    using skynet_timeout_fires_on_time [OF cal_rel_init, of 3 1 7 w_push 0 0 0 "[]"]
    by (auto simp: cal_init_def simp del: set_map nat_numeral)
  have "(1, 7) \<in> set (map node_event (Ds ! 2))" "(1, 7) \<notin> set (map node_event (Ds ! 1))"
    using r(3) [rule_format, of 2] r(3) [rule_format, of 1] by simp_all
  with r(1,2) show ?thesis by (metis nat_numeral)
qed

theorem skynet_updatetime_spec_witness:
  "\<exists>T' w'. skynet_updatetime w_push 5 (skynet_timer_init 0 0 2, []) = Some (T', w') \<and>
     ti_current_point T' = 5 \<and> ti_time T' = 3"
proof -
  have "strict (skynet_timer_init 0 0 2)" using cal_rel_init by (simp add: cal_rel_def)
  from skynet_updatetime_spec [OF this, of w_push 5 "[]"] show ?thesis
    by (auto simp: skynet_timer_init_def timer_create_timer_def)
qed

end
