(* ===== verification/Skynet_Hashid.thy ===== *)
theory Skynet_Hashid
  imports Prelude "HOL-Library.Signed_Division"
begin

unbundle bit_operations_syntax

text \<open>
  The connection index of the gate and of other socket services
  (\<^verbatim>\<open>009_skynet_demo/skynet/service-src/hashid.h\<close>): a fixed pool of nodes threaded into hash chains.
  A node pointer is the index of the node in the array \<open>id\<close>; the value returned by lookup, insert
  and remove is that index, the caller's slot for the connection.  \<open>None\<close> as the result of an
  operation is a failed assertion, an access outside an array, or a signed overflow.
\<close>

subsection \<open>Data and operations\<close>

record hashid_node =
  hn_id :: int
  hn_next :: ptr

record hashid =
  hi_hashmod :: int
  hi_cap :: int
  hi_count :: int
  hi_id :: "hashid_node list"
  hi_hash :: "ptr list"

text \<open>\<open>hashcap = 16; while (hashcap < max) hashcap *= 2;\<close>\<close>

function hashid_hashcap :: "int \<Rightarrow> int \<Rightarrow> int" where
  "hashid_hashcap hashcap mx =
     (if 0 < hashcap \<and> hashcap < mx then hashid_hashcap (hashcap * 2) mx else hashcap)"
  by pat_completeness auto
termination by (relation "measure (\<lambda>(hashcap, mx). nat (mx - hashcap))") auto

declare hashid_hashcap.simps [simp del]

definition hashid_init :: "int \<Rightarrow> hashid" where
  "hashid_init mx = (let hashcap = hashid_hashcap 16 mx in
     \<lparr>hi_hashmod = hashcap - 1, hi_cap = mx, hi_count = 0,
      hi_id = replicate (nat mx) \<lparr>hn_id = - 1, hn_next = None\<rparr>,
      hi_hash = replicate (nat hashcap) None\<rparr>)"

definition hashid_clear :: "hashid \<Rightarrow> hashid" where
  "hashid_clear hi = \<lparr>hi_hashmod = 1, hi_cap = 0, hi_count = 0, hi_id = [], hi_hash = []\<rparr>"

partial_function (option) hashid_find :: "hashid_node list \<Rightarrow> int \<Rightarrow> ptr \<Rightarrow> int option" where
  "hashid_find nodes uid c =
     (case c of
        None \<Rightarrow> Some (- 1)
      | Some i \<Rightarrow> do {
          n \<leftarrow> array_get nodes i;
          (if hn_id n = uid then Some (int i) else hashid_find nodes uid (hn_next n)) })"

definition hashid_lookup :: "hashid \<Rightarrow> int \<Rightarrow> int option" where
  "hashid_lookup hi uid = do {
     let h = uid AND hi_hashmod hi;
     c \<leftarrow> array_get (hi_hash hi) (nat h);
     hashid_find (hi_id hi) uid c }"

text \<open>The \<open>while (c->next)\<close> loop of \<open>hashid_remove\<close>: the node unlinked, if the id is in the chain.\<close>

partial_function (option) hashid_unlink :: "hashid_node list \<Rightarrow> int \<Rightarrow> addr \<Rightarrow> (ptr \<times> hashid_node list) option" where
  "hashid_unlink nodes uid c = do {
     n \<leftarrow> array_get nodes c;
     (case hn_next n of
        None \<Rightarrow> Some (None, nodes)
      | Some t \<Rightarrow> do {
          temp \<leftarrow> array_get nodes t;
          (if hn_id temp = uid then Some (Some t, nodes[c := n\<lparr>hn_next := hn_next temp\<rparr>])
           else hashid_unlink nodes uid t) }) }"

definition hashid_remove :: "hashid \<Rightarrow> int \<Rightarrow> (int \<times> hashid) option" where
  "hashid_remove hi uid = do {
     let h = nat (uid AND hi_hashmod hi);
     c \<leftarrow> array_get (hi_hash hi) h;
     (case c of
        None \<Rightarrow> Some (- 1, hi)
      | Some i \<Rightarrow> do {
          n \<leftarrow> array_get (hi_id hi) i;
          (r, nodes, hash) \<leftarrow>
            (if hn_id n = uid then Some (Some i, hi_id hi, (hi_hash hi)[h := hn_next n])
             else do { (r, nodes) \<leftarrow> hashid_unlink (hi_id hi) uid i; Some (r, nodes, hi_hash hi) });
          (case r of
             None \<Rightarrow> Some (- 1, hi)
           | Some t \<Rightarrow> do {
               nodes \<leftarrow> array_set nodes t \<lparr>hn_id = - 1, hn_next = None\<rparr>;
               Some (int t, hi\<lparr>hi_id := nodes, hi_hash := hash, hi_count := hi_count hi - 1\<rparr>) }) }) }"

text \<open>The search for a free node; \<open>n\<close> iterations are left.  The index is C's remainder.\<close>

fun hashid_free_node :: "hashid_node list \<Rightarrow> int \<Rightarrow> int \<Rightarrow> int \<Rightarrow> nat \<Rightarrow> ptr option" where
  "hashid_free_node nodes cap uid i 0 = Some None"
| "hashid_free_node nodes cap uid i (Suc n) = do {
     assert_opt (i + uid < 2 ^ 31);
     let index = (i + uid) smod cap;
     assert_opt (0 \<le> index);
     x \<leftarrow> array_get nodes (nat index);
     (if hn_id x = - 1 then Some (Some (nat index)) else hashid_free_node nodes cap uid (i + 1) n) }"

definition hashid_insert :: "hashid \<Rightarrow> int \<Rightarrow> (int \<times> hashid) option" where
  "hashid_insert hi uid = do {
     r \<leftarrow> hashid_free_node (hi_id hi) (hi_cap hi) uid 0 (nat (hi_cap hi));
     c \<leftarrow> r;
     n \<leftarrow> array_get (hi_id hi) c;
     assert_opt (hn_next n = None);
     let h = nat (uid AND hi_hashmod hi);
     old \<leftarrow> array_get (hi_hash hi) h;
     Some (int c, hi\<lparr>hi_count := hi_count hi + 1,
       hi_id := (hi_id hi)[c := \<lparr>hn_id = uid, hn_next = old\<rparr>],
       hi_hash := (hi_hash hi)[h := Some c]\<rparr>) }"

definition hashid_full :: "hashid \<Rightarrow> bool" where
  "hashid_full hi \<longleftrightarrow> hi_count hi = hi_cap hi"

subsection \<open>Representation\<close>

definition nx :: "hashid_node list \<Rightarrow> addr \<Rightarrow> ptr option" where
  "nx nodes i = (if i < length nodes then Some (hn_next (nodes ! i)) else None)"

definition used :: "hashid_node list \<Rightarrow> addr set" where
  "used nodes = {i. i < length nodes \<and> hn_id (nodes ! i) \<noteq> - 1}"

text \<open>\<open>chn h\<close> lists the nodes of bucket \<open>h\<close>.\<close>

definition hashid_rep :: "hashid \<Rightarrow> (nat \<Rightarrow> nat list) \<Rightarrow> bool" where
  "hashid_rep hi chn \<longleftrightarrow>
     (\<exists>k. hi_hashmod hi = 2 ^ k - 1 \<and> length (hi_hash hi) = 2 ^ k) \<and>
     hi_cap hi = int (length (hi_id hi)) \<and> hi_count hi = int (card (used (hi_id hi))) \<and>
     (\<forall>h < length (hi_hash hi). path (nx (hi_id hi)) (hi_hash hi ! h) (chn h) None \<and>
        set (chn h) = {i \<in> used (hi_id hi). nat (hn_id (hi_id hi ! i) AND hi_hashmod hi) = h}) \<and>
     (\<forall>i < length (hi_id hi). hn_id (hi_id hi ! i) = - 1 \<longrightarrow> hn_next (hi_id hi ! i) = None) \<and>
     (\<forall>i \<in> used (hi_id hi). \<forall>j \<in> used (hi_id hi). hn_id (hi_id hi ! i) = hn_id (hi_id hi ! j) \<longrightarrow> i = j)"

definition hashid_inv :: "hashid \<Rightarrow> bool" where
  "hashid_inv hi \<longleftrightarrow> (\<exists>chn. hashid_rep hi chn)"

text \<open>The slot of an id, as a search over the whole pool.\<close>

definition hashid_slot :: "hashid \<Rightarrow> int \<Rightarrow> nat option" where
  "hashid_slot hi uid = (if uid = - 1 then None else
     find (\<lambda>i. hn_id (hi_id hi ! i) = uid) [0..<length (hi_id hi)])"

lemma nx_Some [simp]: "nx nodes i = Some r \<longleftrightarrow> i < length nodes \<and> r = hn_next (nodes ! i)"
  by (auto simp: nx_def)

lemma path_nx_less: "path (nx nodes) p xs None \<Longrightarrow> i \<in> set xs \<Longrightarrow> i < length nodes"
  using path_dom [of "nx nodes" p xs None i] by (simp add: nx_def split: if_splits)

lemma path_nx_cong:
  assumes "length nodes' = length nodes" "\<And>i. i \<in> set xs \<Longrightarrow> i < length nodes \<Longrightarrow> hn_next (nodes' ! i) = hn_next (nodes ! i)"
  shows "path (nx nodes') p xs q \<longleftrightarrow> path (nx nodes) p xs q"
  by (rule path_cong) (use assms in \<open>auto simp: nx_def\<close>)

lemma and_mask_bounds:
  assumes "m = 2 ^ k - (1::int)"
  shows "0 \<le> uid AND m" "uid AND m < 2 ^ k"
proof -
  have "uid AND m = uid mod 2 ^ k" using assms
    by (simp add: mask_eq_exp_minus_1 [symmetric] take_bit_eq_mask [symmetric] take_bit_eq_mod)
  then show "0 \<le> uid AND m" "uid AND m < 2 ^ k" by simp_all
qed

lemma hashid_bucket:
  assumes "hashid_rep hi chn"
  shows "nat (uid AND hi_hashmod hi) < length (hi_hash hi)"
proof -
  from assms obtain k where "hi_hashmod hi = 2 ^ k - 1" "length (hi_hash hi) = 2 ^ k" by (auto simp: hashid_rep_def)
  with and_mask_bounds [of "hi_hashmod hi" k uid] show ?thesis by (simp add: nat_less_iff)
qed

lemma hashid_chain:
  assumes "hashid_rep hi chn" "h < length (hi_hash hi)"
  shows "path (nx (hi_id hi)) (hi_hash hi ! h) (chn h) None" "distinct (chn h)"
    "set (chn h) = {i \<in> used (hi_id hi). nat (hn_id (hi_id hi ! i) AND hi_hashmod hi) = h}"
  using assms path_distinct by (auto simp: hashid_rep_def)

lemma hashid_slot_iff:
  assumes "hashid_rep hi chn"
  shows "hashid_slot hi uid = Some i \<longleftrightarrow> i \<in> used (hi_id hi) \<and> hn_id (hi_id hi ! i) = uid"
proof -
  have "\<forall>i \<in> used (hi_id hi). \<forall>j \<in> used (hi_id hi). hn_id (hi_id hi ! i) = hn_id (hi_id hi ! j) \<longrightarrow> i = j"
    using assms by (auto simp: hashid_rep_def)
  then have U: "j = i" if "i \<in> used (hi_id hi)" "j \<in> used (hi_id hi)" "hn_id (hi_id hi ! i) = hn_id (hi_id hi ! j)" for i j
    using that by blast
  show ?thesis
  proof
    assume "hashid_slot hi uid = Some i"
    then show "i \<in> used (hi_id hi) \<and> hn_id (hi_id hi ! i) = uid"
      by (auto simp: hashid_slot_def find_Some_iff used_def split: if_splits)
  next
    assume i: "i \<in> used (hi_id hi) \<and> hn_id (hi_id hi ! i) = uid"
    then have "find (\<lambda>i. hn_id (hi_id hi ! i) = uid) [0..<length (hi_id hi)] \<noteq> None"
      by (auto simp: find_None_iff used_def)
    then obtain j where j: "find (\<lambda>i. hn_id (hi_id hi ! i) = uid) [0..<length (hi_id hi)] = Some j" by blast
    then have "j < length (hi_id hi)" "hn_id (hi_id hi ! j) = uid" by (auto simp: find_Some_iff)
    with i j U [of i j] show "hashid_slot hi uid = Some i" by (auto simp: hashid_slot_def used_def)
  qed
qed

lemma hashid_slot_eqI:
  assumes "\<And>i. hashid_slot hi uid = Some i \<longleftrightarrow> hashid_slot hi' uid' = Some i"
  shows "hashid_slot hi uid = hashid_slot hi' uid'"
  using assms by (metis not_Some_eq)

lemma hashid_find_path:
  "path (nx nodes) c xs None \<Longrightarrow> hashid_find nodes uid c =
     Some (case find (\<lambda>i. hn_id (nodes ! i) = uid) xs of None \<Rightarrow> - 1 | Some i \<Rightarrow> int i)"
proof (induction xs arbitrary: c)
  case (Cons x xs)
  then have "x < length nodes" "c = Some x" "path (nx nodes) (hn_next (nodes ! x)) xs None"
    by auto
  with Cons.IH show ?case by (subst hashid_find.simps) simp
qed (simp add: hashid_find.simps)

text \<open>The lookup loop terminates with the slot of the id.\<close>

lemma hashid_lookup_rep:
  assumes rep: "hashid_rep hi chn"
  shows "hashid_lookup hi uid = Some (case hashid_slot hi uid of None \<Rightarrow> - 1 | Some i \<Rightarrow> int i)"
proof -
  let ?h = "nat (uid AND hi_hashmod hi)"
  note h = hashid_bucket [OF rep, of uid]
  note ch = hashid_chain [OF rep h]
  have "find (\<lambda>i. hn_id (hi_id hi ! i) = uid) (chn ?h) = hashid_slot hi uid"
  proof (cases "hashid_slot hi uid")
    case None
    then have "\<forall>i\<in>used (hi_id hi). hn_id (hi_id hi ! i) \<noteq> uid"
      using hashid_slot_iff [OF rep, of uid] by auto
    with None ch(3) show ?thesis by (auto simp: find_None_iff)
  next
    case (Some i)
    then have i: "i \<in> used (hi_id hi)" "hn_id (hi_id hi ! i) = uid" by (simp_all add: hashid_slot_iff [OF rep])
    with ch(3) have "i \<in> set (chn ?h)" by auto
    then have "find (\<lambda>i. hn_id (hi_id hi ! i) = uid) (chn ?h) \<noteq> None"
      using i by (auto simp: find_None_iff)
    then obtain j where j: "find (\<lambda>i. hn_id (hi_id hi ! i) = uid) (chn ?h) = Some j" by blast
    then have "j \<in> set (chn ?h)" "hn_id (hi_id hi ! j) = uid" by (auto simp: find_Some_iff)
    then have "hashid_slot hi uid = Some j" using ch(3) by (auto simp: hashid_slot_iff [OF rep])
    with j show ?thesis by simp
  qed
  with hashid_find_path [OF ch(1), of uid] h show ?thesis by (simp add: hashid_lookup_def)
qed

lemma hashid_free_node_find:
  assumes "0 < length nodes" "0 \<le> uid" "0 \<le> i" "i + int n + uid \<le> 2 ^ 31"
  shows "hashid_free_node nodes (int (length nodes)) uid i n =
    Some (find (\<lambda>j. hn_id (nodes ! j) = - 1) (map (\<lambda>j. nat ((i + int j + uid) mod int (length nodes))) [0..<n]))"
  using assms
proof (induction n arbitrary: i)
  case (Suc n)
  let ?N = "int (length nodes)"
  have sm: "(i + uid) smod ?N = (i + uid) mod ?N"
    using Suc.prems by (simp add: signed_modulo_int_def sgn_if)
  have b: "nat ((i + uid) mod ?N) < length nodes" "0 \<le> (i + uid) mod ?N"
    using Suc.prems by (simp_all add: nat_less_iff)
  have up: "[0..<Suc n] = 0 # map Suc [0..<n]" by (simp add: map_Suc_upt upt_conv_Cons)
  have "hashid_free_node nodes ?N uid (i + 1) n =
    Some (find (\<lambda>j. hn_id (nodes ! j) = - 1) (map (\<lambda>j. nat ((i + 1 + int j + uid) mod ?N)) [0..<n]))"
    using Suc.IH [of "i + 1"] Suc.prems by simp
  then show ?case using b Suc.prems sm unfolding up by (simp add: comp_def algebra_simps)
qed simp

lemma hashid_free_node_room:
  assumes "0 \<le> uid" "uid + int (length nodes) \<le> 2 ^ 31" "card (used nodes) < length nodes"
  obtains c where "hashid_free_node nodes (int (length nodes)) uid 0 (length nodes) = Some (Some c)"
    "c < length nodes" "hn_id (nodes ! c) = - 1"
proof -
  let ?N = "length nodes"
  let ?js = "map (\<lambda>j. nat ((int j + uid) mod int ?N)) [0..<?N]"
  have N: "0 < ?N" using assms(3) by (cases nodes) auto
  have lt: "j \<in> set ?js \<Longrightarrow> j < ?N" for j using N by (auto simp: nat_less_iff)
  have "\<exists>c < ?N. hn_id (nodes ! c) = - 1"
  proof (rule ccontr)
    assume "\<not> ?thesis"
    then have "used nodes = {..<?N}" by (auto simp: used_def)
    with assms(3) show False by simp
  qed
  then obtain c where c: "c < ?N" "hn_id (nodes ! c) = - 1" by blast
  have "c \<in> set ?js"
  proof -
    define j where "j = nat ((int c - uid) mod int ?N)"
    have "(int j + uid) mod int ?N = int c"
      using N c(1) by (simp add: j_def mod_simps)
    moreover have "j < ?N" using N by (simp add: j_def nat_less_iff)
    ultimately show ?thesis by (auto intro!: image_eqI [of _ _ j])
  qed
  with c have "find (\<lambda>j. hn_id (nodes ! j) = - 1) ?js \<noteq> None" by (auto simp: find_None_iff)
  then obtain d where d: "find (\<lambda>j. hn_id (nodes ! j) = - 1) ?js = Some d" by blast
  then have "d \<in> set ?js" "hn_id (nodes ! d) = - 1" unfolding find_Some_iff by (metis nth_mem)+
  with lt d show ?thesis using hashid_free_node_find [OF N assms(1), of 0 ?N] assms(2)
    by (intro that [of d]) simp_all
qed

lemma hashid_insert_rep:
  assumes rep: "hashid_rep hi chn" and full: "\<not> hashid_full hi"
    and uid: "0 \<le> uid" "uid + hi_cap hi \<le> 2 ^ 31" and new: "hashid_slot hi uid = None"
  shows "\<exists>c hi'. hashid_insert hi uid = Some (int c, hi') \<and> hashid_inv hi' \<and> c < length (hi_id hi) \<and>
    hashid_slot hi' = (hashid_slot hi)(uid \<mapsto> c) \<and> c \<notin> ran (hashid_slot hi) \<and> hi_cap hi' = hi_cap hi \<and>
    hi_count hi' = hi_count hi + 1"
proof -
  let ?ns = "hi_id hi" and ?m = "hi_hashmod hi" and ?h = "nat (uid AND hi_hashmod hi)"
  have cap: "hi_cap hi = int (length ?ns)" "hi_count hi = int (card (used ?ns))"
    using rep by (auto simp: hashid_rep_def)
  have fin: "finite (used ?ns)" by (simp add: used_def)
  have "card (used ?ns) \<le> length ?ns"
    using card_mono [of "{..<length ?ns}" "used ?ns"] by (auto simp: used_def)
  then have "card (used ?ns) < length ?ns" using full cap by (simp add: hashid_full_def)
  then obtain c where c: "hashid_free_node ?ns (int (length ?ns)) uid 0 (length ?ns) = Some (Some c)"
    "c < length ?ns" "hn_id (?ns ! c) = - 1"
    using hashid_free_node_room [of uid ?ns] uid cap by auto
  then have cn: "hn_next (?ns ! c) = None" "c \<notin> used ?ns" using rep by (auto simp: hashid_rep_def used_def)
  note h = hashid_bucket [OF rep, of uid]
  let ?ns' = "?ns[c := \<lparr>hn_id = uid, hn_next = hi_hash hi ! ?h\<rparr>]"
  let ?hi = "hi\<lparr>hi_count := hi_count hi + 1, hi_id := ?ns', hi_hash := (hi_hash hi)[?h := Some c]\<rparr>"
  have I: "hashid_insert hi uid = Some (int c, ?hi)"
    using c cn(1) h cap by (simp add: hashid_insert_def Let_def)
  have u': "used ?ns' = insert c (used ?ns)" using c(2) uid(1) by (auto simp: used_def nth_upd_if split: if_splits)
  have ids: "hn_id (?ns' ! i) = (if i = c then uid else hn_id (?ns ! i))" if "i < length ?ns" for i
    using that by (simp add: nth_list_update)
  have notu: "hn_id (?ns ! i) \<noteq> uid" if "i \<in> used ?ns" for i
    using new that hashid_slot_iff [OF rep, of uid i] by auto
  have ult: "i < length ?ns" if "i \<in> used ?ns" for i using that by (simp add: used_def)
  have rep': "hashid_rep ?hi (chn(?h := c # chn ?h))"
    unfolding hashid_rep_def
  proof (intro conjI allI impI)
    show "\<exists>k. hi_hashmod ?hi = 2 ^ k - 1 \<and> length (hi_hash ?hi) = 2 ^ k" using rep by (simp add: hashid_rep_def)
    show "hi_cap ?hi = int (length (hi_id ?hi))" using cap by simp
    show "hi_count ?hi = int (card (used (hi_id ?hi)))" using cap cn fin by (simp add: u')
    show "hn_next (hi_id ?hi ! i) = None" if "i < length (hi_id ?hi)" "hn_id (hi_id ?hi ! i) = - 1" for i
      using that rep uid(1) by (auto simp: hashid_rep_def nth_upd_if split: if_splits)
    show "\<forall>i\<in>used (hi_id ?hi). \<forall>j\<in>used (hi_id ?hi). hn_id (hi_id ?hi ! i) = hn_id (hi_id ?hi ! j) \<longrightarrow> i = j"
      using rep notu cn(2) ult c(2) by (auto simp: u' nth_upd_if hashid_rep_def)
    fix b assume b: "b < length (hi_hash ?hi)"
    then have b': "b < length (hi_hash hi)" by simp
    note ch = hashid_chain [OF rep b']
    have keep: "path (nx ?ns') p (chn b) None \<longleftrightarrow> path (nx ?ns) p (chn b) None" for p
      using ch(3) cn(2) by (intro path_nx_cong) (auto simp: nth_upd_if)
    show "path (nx (hi_id ?hi)) (hi_hash ?hi ! b) ((chn(?h := c # chn ?h)) b) None"
      using ch(1) keep c(2) b' by auto
    show "set ((chn(?h := c # chn ?h)) b) =
        {i \<in> used (hi_id ?hi). nat (hn_id (hi_id ?hi ! i) AND hi_hashmod ?hi) = b}"
      using ch(3) ult c(2) cn(2) by (auto simp: u' nth_upd_if)
  qed
  have S: "hashid_slot ?hi = (hashid_slot hi)(uid \<mapsto> c)"
  proof
    fix x show "hashid_slot ?hi x = ((hashid_slot hi)(uid \<mapsto> c)) x"
    proof (cases "x = uid")
      case True
      then show ?thesis using hashid_slot_iff [OF rep', of uid c] c(2) by (simp add: u')
    next
      case False
      then have "hashid_slot ?hi x = Some i \<longleftrightarrow> hashid_slot hi x = Some i" for i
        using hashid_slot_iff [OF rep', of x i] hashid_slot_iff [OF rep, of x i] ult c(2) cn(2)
        by (auto simp: u' nth_upd_if split: if_splits)
      from hashid_slot_eqI [OF this] show ?thesis using False by simp
    qed
  qed
  have "c \<notin> ran (hashid_slot hi)" using cn(2) by (auto simp: ran_def hashid_slot_iff [OF rep])
  then show ?thesis using I rep' S c(2) by (auto simp: hashid_inv_def)
qed

lemma hashid_unlink_path:
  assumes "path (nx nodes) (Some i) (i # us @ t # vs) None"
    and "hn_id (nodes ! t) = uid" "\<forall>j \<in> set us. hn_id (nodes ! j) \<noteq> uid"
  shows "\<exists>nodes'. hashid_unlink nodes uid i = Some (Some t, nodes') \<and> length nodes' = length nodes \<and>
    (\<forall>j < length nodes. hn_id (nodes' ! j) = hn_id (nodes ! j)) \<and>
    (\<forall>j. j \<notin> set (i # us) \<longrightarrow> nodes' ! j = nodes ! j) \<and>
    path (nx nodes') (Some i) (i # us @ vs) None"
  using assms
proof (induction us arbitrary: i)
  case Nil
  let ?n = "nodes[i := (nodes ! i)\<lparr>hn_next := hn_next (nodes ! t)\<rparr>]"
  have p: "i < length nodes" "hn_next (nodes ! i) = Some t" "t < length nodes"
    "path (nx nodes) (hn_next (nodes ! t)) vs None" using Nil.prems(1) by auto
  have d: "distinct (i # t # vs)" using path_distinct [OF Nil.prems(1)] by simp
  have "path (nx ?n) (hn_next (nodes ! t)) vs None"
    using p(4) d by (subst path_nx_cong [where nodes = nodes]) (auto simp: nth_upd_if)
  moreover have "hashid_unlink nodes uid i = Some (Some t, ?n)"
    using p Nil.prems(2) by (subst hashid_unlink.simps) simp
  ultimately show ?case using p by (auto simp: nth_upd_if)
next
  case (Cons u us)
  have p: "i < length nodes" "hn_next (nodes ! i) = Some u" "u < length nodes"
    "path (nx nodes) (Some u) (u # us @ t # vs) None" using Cons.prems(1) by auto
  have d: "distinct (i # u # us @ t # vs)" using path_distinct [OF Cons.prems(1)] by simp
  have "hashid_unlink nodes uid i = hashid_unlink nodes uid u"
    using p Cons.prems(3) by (subst hashid_unlink.simps) simp
  moreover obtain n where n: "hashid_unlink nodes uid u = Some (Some t, n)" "length n = length nodes"
    "\<forall>j < length nodes. hn_id (n ! j) = hn_id (nodes ! j)" "\<forall>j. j \<notin> set (u # us) \<longrightarrow> n ! j = nodes ! j"
    "path (nx n) (Some u) (u # us @ vs) None"
    using Cons.IH [OF p(4) Cons.prems(2)] Cons.prems(3) by auto
  moreover have "n ! i = nodes ! i" using n(4) d by simp
  ultimately show ?case using p by auto
qed

lemma hashid_unlink_none:
  "path (nx nodes) (Some i) (i # xs) None \<Longrightarrow> \<forall>j \<in> set xs. hn_id (nodes ! j) \<noteq> uid \<Longrightarrow>
    hashid_unlink nodes uid i = Some (None, nodes)"
proof (induction xs arbitrary: i)
  case Nil
  then show ?case by (subst hashid_unlink.simps) auto
next
  case (Cons x xs)
  then have "i < length nodes" "hn_next (nodes ! i) = Some x" "x < length nodes" by auto
  moreover have "hashid_unlink nodes uid x = Some (None, nodes)" using Cons by auto
  ultimately show ?case using Cons.prems(2) by (subst hashid_unlink.simps) simp
qed

text \<open>The nodes after \<open>_clear\<close>: node \<open>t\<close> is out of its chain and free again.\<close>

lemma hashid_rep_remove:
  assumes rep: "hashid_rep hi chn" and b: "b < length (hi_hash hi)" and chb: "chn b = us @ t # vs"
    and n: "length n = length (hi_id hi)" "\<forall>j < length n. hn_id (n ! j) = hn_id (hi_id hi ! j)"
      "\<forall>j. j \<notin> set us \<longrightarrow> n ! j = hi_id hi ! j" "path (nx n) p (us @ vs) None"
  defines "hi' \<equiv> hi\<lparr>hi_id := n[t := \<lparr>hn_id = - 1, hn_next = None\<rparr>], hi_hash := (hi_hash hi)[b := p],
    hi_count := hi_count hi - 1\<rparr>"
  shows "hashid_rep hi' (chn(b := us @ vs))"
    "hashid_slot hi' = (hashid_slot hi)(hn_id (hi_id hi ! t) := None)"
proof -
  let ?ns = "hi_id hi" and ?f = "\<lparr>hn_id = - 1, hn_next = None\<rparr>"
  note chx = hashid_chain [OF rep b]
  have t: "t \<in> used ?ns" "t \<notin> set (us @ vs)" using chx chb by auto
  have tl: "t < length n" using t(1) n(1) by (simp add: used_def)
  have ids: "hn_id (n[t := ?f] ! i) = (if i = t then - 1 else hn_id (?ns ! i))" if "i < length ?ns" for i
    using that n by (simp add: nth_list_update)
  have u': "used (n[t := ?f]) = used ?ns - {t}" using n(1,2) by (auto simp: used_def nth_upd_if)
  have fin: "finite (used ?ns)" by (simp add: used_def)
  have ult: "i < length ?ns" if "i \<in> used ?ns" for i using that by (simp add: used_def)
  have uniq: "i = j" if "i \<in> used ?ns" "j \<in> used ?ns" "hn_id (?ns ! i) = hn_id (?ns ! j)" for i j
    using rep that by (auto simp: hashid_rep_def)
  show rep': "hashid_rep hi' (chn(b := us @ vs))"
    unfolding hashid_rep_def
  proof (intro conjI allI impI)
    show "\<exists>k. hi_hashmod hi' = 2 ^ k - 1 \<and> length (hi_hash hi') = 2 ^ k"
      using rep by (simp add: hashid_rep_def hi'_def)
    show "hi_cap hi' = int (length (hi_id hi'))" using rep n(1) by (simp add: hashid_rep_def hi'_def)
    have "0 < card (used ?ns)" using t(1) fin by (auto simp: card_gt_0_iff)
    then show "hi_count hi' = int (card (used (hi_id hi')))"
      using rep t(1) fin by (simp add: hashid_rep_def hi'_def u' of_nat_diff)
    show "hn_next (hi_id hi' ! i) = None" if "i < length (hi_id hi')" "hn_id (hi_id hi' ! i) = - 1" for i
    proof (cases "i = t")
      case False
      then have "i \<notin> used ?ns" using that ids [of i] n(1) by (simp add: hi'_def used_def)
      then have "i \<notin> set us" using chx(3) chb by auto
      then show ?thesis using that False n rep by (auto simp: hi'_def hashid_rep_def)
    qed (use tl in \<open>simp add: hi'_def\<close>)
    show "\<forall>i\<in>used (hi_id hi'). \<forall>j\<in>used (hi_id hi'). hn_id (hi_id hi' ! i) = hn_id (hi_id hi' ! j) \<longrightarrow> i = j"
      using uniq ult n(1,2) by (auto simp: hi'_def u')
    fix d assume d: "d < length (hi_hash hi')"
    then have d': "d < length (hi_hash hi)" by (simp add: hi'_def)
    note chd = hashid_chain [OF rep d']
    show "path (nx (hi_id hi')) (hi_hash hi' ! d) ((chn(b := us @ vs)) d) None"
    proof (cases "d = b")
      case True
      have "path (nx (n[t := ?f])) p (us @ vs) None"
        using n(4) t(2) by (subst path_nx_cong [where nodes = n]) (auto simp: nth_upd_if)
      with True b show ?thesis by (simp add: hi'_def)
    next
      case False
      have other: "n[t := ?f] ! i = ?ns ! i" if "i \<in> set (chn d)" for i
        using that chd(3) chx(3) chb False n(3) by (auto simp: nth_upd_if)
      have "path (nx (n[t := ?f])) (hi_hash hi ! d) (chn d) None \<longleftrightarrow> path (nx ?ns) (hi_hash hi ! d) (chn d) None"
        by (rule path_nx_cong) (use other n(1) in auto)
      with False chd(1) show ?thesis by (simp add: hi'_def)
    qed
    show "set ((chn(b := us @ vs)) d) =
        {i \<in> used (hi_id hi'). nat (hn_id (hi_id hi' ! i) AND hi_hashmod hi') = d}"
    proof -
      have idn: "hn_id (n[t := ?f] ! i) = hn_id (?ns ! i)" if "i \<in> used ?ns" "i \<noteq> t" for i
        using that ult [of i] n(1,2) by (simp add: nth_upd_if)
      have rhs: "{i \<in> used (hi_id hi'). nat (hn_id (hi_id hi' ! i) AND hi_hashmod hi') = d} = set (chn d) - {t}"
        unfolding chd(3) using idn by (auto simp: hi'_def u')
      have "t \<notin> set (chn d)" if "d \<noteq> b" using that chd(3) chx(3) chb by auto
      then show ?thesis unfolding rhs using chb t(2) by auto
    qed
  qed
  show "hashid_slot hi' = (hashid_slot hi)(hn_id (?ns ! t) := None)"
  proof
    fix x
    have U: "used (hi_id hi') = used ?ns - {t}" by (simp add: hi'_def u')
    have "hashid_slot hi' x = Some i \<longleftrightarrow> x \<noteq> hn_id (?ns ! t) \<and> hashid_slot hi x = Some i" for i
    proof (cases "i \<in> used ?ns \<and> i \<noteq> t")
      case True
      then have "hn_id (hi_id hi' ! i) = hn_id (?ns ! i)" "hn_id (?ns ! i) \<noteq> hn_id (?ns ! t)"
        using ult [of i] n(1,2) uniq [of i t] t(1) by (auto simp: hi'_def)
      with True show ?thesis by (auto simp: hashid_slot_iff [OF rep'] hashid_slot_iff [OF rep] U)
    next
      case False
      then show ?thesis by (auto simp: hashid_slot_iff [OF rep'] hashid_slot_iff [OF rep] U)
    qed
    then show "hashid_slot hi' x = ((hashid_slot hi)(hn_id (?ns ! t) := None)) x"
      by (cases "hashid_slot hi x"; cases "hashid_slot hi' x") auto
  qed
qed

lemma hashid_remove_rep:
  assumes rep: "hashid_rep hi chn"
  shows "case hashid_slot hi uid of
      None \<Rightarrow> hashid_remove hi uid = Some (- 1, hi)
    | Some t \<Rightarrow> \<exists>hi'. hashid_remove hi uid = Some (int t, hi') \<and> hashid_inv hi' \<and>
        hashid_slot hi' = (hashid_slot hi)(uid := None) \<and> hi_cap hi' = hi_cap hi \<and> hi_count hi' = hi_count hi - 1"
proof -
  let ?h = "nat (uid AND hi_hashmod hi)"
  note h = hashid_bucket [OF rep, of uid]
  note ch = hashid_chain [OF rep h]
  show ?thesis
  proof (cases "hashid_slot hi uid")
    case None
    then have no: "\<forall>i\<in>set (chn ?h). hn_id (hi_id hi ! i) \<noteq> uid"
      using hashid_slot_iff [OF rep, of uid] ch(3) by auto
    have "hashid_remove hi uid = Some (- 1, hi)"
    proof (cases "chn ?h")
      case Nil
      with ch(1) h show ?thesis by (simp add: hashid_remove_def)
    next
      case (Cons i xs)
      with ch(1) have p: "hi_hash hi ! ?h = Some i" "path (nx (hi_id hi)) (Some i) (i # xs) None" "i < length (hi_id hi)"
        by auto
      with hashid_unlink_none [OF p(2)] no Cons h show ?thesis by (simp add: hashid_remove_def)
    qed
    with None show ?thesis by simp
  next
    case (Some t)
    then have t: "t \<in> used (hi_id hi)" "hn_id (hi_id hi ! t) = uid" by (simp_all add: hashid_slot_iff [OF rep])
    then have "t \<in> set (chn ?h)" using ch(3) by simp
    then obtain us vs where uv: "chn ?h = us @ t # vs" by (metis split_list)
    have others: "hn_id (hi_id hi ! j) \<noteq> uid" if "j \<in> set us" for j
      using that uv ch(2,3) t hashid_slot_iff [OF rep, of uid j] Some by auto
    have tl: "t < length (hi_id hi)" using t(1) by (simp add: used_def)
    obtain n p where n: "length n = length (hi_id hi)" "\<forall>j < length n. hn_id (n ! j) = hn_id (hi_id hi ! j)"
      "\<forall>j. j \<notin> set us \<longrightarrow> n ! j = hi_id hi ! j" "path (nx n) p (us @ vs) None"
      and R: "hashid_remove hi uid = Some (int t, hi\<lparr>hi_id := n[t := \<lparr>hn_id = - 1, hn_next = None\<rparr>],
        hi_hash := (hi_hash hi)[?h := p], hi_count := hi_count hi - 1\<rparr>)"
    proof (cases us)
      case Nil
      with uv ch(1) have "hi_hash hi ! ?h = Some t" "path (nx (hi_id hi)) (hn_next (hi_id hi ! t)) vs None" by auto
      then show ?thesis using h tl t(2) Nil
        by (intro that [of "hi_id hi" "hn_next (hi_id hi ! t)"]) (auto simp: hashid_remove_def)
    next
      case (Cons i xs)
      with uv ch(1) have p: "hi_hash hi ! ?h = Some i" "path (nx (hi_id hi)) (Some i) (i # xs @ t # vs) None"
        "i < length (hi_id hi)" by auto
      obtain n where n: "hashid_unlink (hi_id hi) uid i = Some (Some t, n)" "length n = length (hi_id hi)"
        "\<forall>j < length (hi_id hi). hn_id (n ! j) = hn_id (hi_id hi ! j)" "\<forall>j. j \<notin> set (i # xs) \<longrightarrow> n ! j = hi_id hi ! j"
        "path (nx n) (Some i) (i # xs @ vs) None"
        using hashid_unlink_path [OF p(2) t(2)] others Cons by auto
      have "hn_id (hi_id hi ! i) \<noteq> uid" using others Cons by simp
      moreover have "(hi_hash hi)[?h := Some i] = hi_hash hi" using p(1) list_update_id [of "hi_hash hi" ?h] by simp
      ultimately show ?thesis using n p h tl Cons
        by (intro that [of n "Some i"]) (simp_all add: hashid_remove_def)
    qed
    note rr = hashid_rep_remove [OF rep h uv n]
    with R Some t(2) show ?thesis by (auto simp: hashid_inv_def)
  qed
qed

subsection \<open>The interface used by the socket services\<close>

text \<open>What a service relies on: \<open>slot s\<close> maps each known id to its place in the service's own array of
  connections, distinct ids have distinct places, and the three operations behave as on that map.\<close>

locale slot_table =
  fixes slot :: "'s \<Rightarrow> int \<Rightarrow> nat option"
    and lookup :: "'s \<Rightarrow> int \<Rightarrow> int option"
    and insert :: "'s \<Rightarrow> int \<Rightarrow> (int \<times> 's) option"
    and remove :: "'s \<Rightarrow> int \<Rightarrow> (int \<times> 's) option"
    and full :: "'s \<Rightarrow> bool"
    and cap :: "'s \<Rightarrow> int"
    and wf :: "'s \<Rightarrow> bool"
  assumes lookup_ok: "wf s \<Longrightarrow> lookup s x = Some (case slot s x of None \<Rightarrow> - 1 | Some i \<Rightarrow> int i)"
    and insert_ok: "wf s \<Longrightarrow> \<not> full s \<Longrightarrow> 0 \<le> x \<Longrightarrow> x + cap s \<le> 2 ^ 31 \<Longrightarrow> slot s x = None \<Longrightarrow>
      \<exists>i s'. insert s x = Some (int i, s') \<and> wf s' \<and> cap s' = cap s \<and> slot s' = (slot s)(x \<mapsto> i)"
    and remove_unknown: "wf s \<Longrightarrow> slot s x = None \<Longrightarrow> remove s x = Some (- 1, s)"
    and remove_known: "wf s \<Longrightarrow> slot s x = Some i \<Longrightarrow>
      \<exists>s'. remove s x = Some (int i, s') \<and> wf s' \<and> cap s' = cap s \<and> slot s' = (slot s)(x := None) \<and> \<not> full s'"
    and slot_less: "wf s \<Longrightarrow> slot s x = Some i \<Longrightarrow> int i < cap s"
    and slot_inj: "wf s \<Longrightarrow> slot s x = Some i \<Longrightarrow> slot s y = Some i \<Longrightarrow> x = y"
begin

lemma lookup_known: "wf s \<Longrightarrow> slot s x = Some i \<Longrightarrow> lookup s x = Some (int i)"
  by (simp add: lookup_ok)

lemma lookup_unknown: "wf s \<Longrightarrow> slot s x = None \<Longrightarrow> lookup s x = Some (- 1)"
  by (simp add: lookup_ok)

text \<open>A place handed out is free: no known id has it.\<close>

lemma insert_fresh:
  assumes "wf s" "insert s x = Some (int i, s')" "\<not> full s" "0 \<le> x" "x + cap s \<le> 2 ^ 31" "slot s x = None"
  shows "slot s y \<noteq> Some i"
proof
  assume y: "slot s y = Some i"
  from insert_ok [OF assms(1,3-6)] assms(2) have s': "wf s'" "slot s' = (slot s)(x \<mapsto> i)" by auto
  with y assms(6) have "slot s' y = Some i" "slot s' x = Some i" by auto
  from slot_inj [OF s'(1) this] y assms(6) show False by simp
qed

text \<open>Closing a connection frees its place for the next one.\<close>

lemma remove_insert:
  assumes "wf s" "slot s x = Some i" "0 \<le> y" "y + cap s \<le> 2 ^ 31" "slot s y = None"
  shows "\<exists>s1 j s2. remove s x = Some (int i, s1) \<and> insert s1 y = Some (int j, s2) \<and>
    slot s2 = (slot s)(x := None, y \<mapsto> j)"
proof -
  obtain s1 where s1: "remove s x = Some (int i, s1)" "wf s1" "cap s1 = cap s" "slot s1 = (slot s)(x := None)"
    "\<not> full s1" using remove_known [OF assms(1,2)] by blast
  then have "slot s1 y = None" using assms(5) by simp
  with insert_ok [OF s1(2,5) assms(3)] assms(4) s1 obtain j s2 where
    "insert s1 y = Some (int j, s2)" "slot s2 = (slot s1)(y \<mapsto> j)" by auto
  with s1 show ?thesis by auto
qed

end

lemma hashid_hashcap_pow: "0 < c \<Longrightarrow> \<exists>k. hashid_hashcap c mx = c * 2 ^ k"
proof (induction c mx rule: hashid_hashcap.induct)
  case (1 c mx)
  show ?case
  proof (cases "c < mx")
    case True
    with 1 obtain k where "hashid_hashcap (c * 2) mx = c * 2 * 2 ^ k" by auto
    with True 1 show ?thesis by (intro exI [of _ "Suc k"]) (simp add: hashid_hashcap.simps [of c])
  qed (auto simp: hashid_hashcap.simps [of c] intro!: exI [of _ 0])
qed

lemma hashid_init_rep: "0 \<le> mx \<Longrightarrow> hashid_rep (hashid_init mx) (\<lambda>_. [])"
proof -
  assume mx: "0 \<le> mx"
  obtain k where "hashid_hashcap 16 mx = 16 * 2 ^ k" using hashid_hashcap_pow [of 16 mx] by auto
  then have hc: "hashid_hashcap 16 mx = 2 ^ (k + 4)" by (simp add: power_add)
  then have "nat (hashid_hashcap 16 mx) = 2 ^ (k + 4)" by (simp add: nat_power_eq)
  moreover have "used (replicate (nat mx) \<lparr>hn_id = - 1, hn_next = None\<rparr>) = {}" by (auto simp: used_def)
  ultimately show ?thesis using mx hc
    by (auto simp: hashid_rep_def hashid_init_def Let_def intro!: exI [of _ "k + 4"])
qed

lemma hashid_init_inv: "0 \<le> mx \<Longrightarrow> hashid_inv (hashid_init mx)"
  using hashid_init_rep by (auto simp: hashid_inv_def)

lemma hashid_init_slot: "0 \<le> mx \<Longrightarrow> hashid_slot (hashid_init mx) x = None"
  by (auto simp: hashid_slot_def hashid_init_def find_None_iff Let_def)

interpretation hid: slot_table hashid_slot hashid_lookup hashid_insert hashid_remove hashid_full hi_cap hashid_inv
proof unfold_locales
  fix s :: hashid and x y :: int and i :: nat
  assume inv: "hashid_inv s"
  then obtain c where rep: "hashid_rep s c" by (auto simp: hashid_inv_def)
  show "hashid_lookup s x = Some (case hashid_slot s x of None \<Rightarrow> - 1 | Some i \<Rightarrow> int i)"
    by (rule hashid_lookup_rep [OF rep])
  show "\<exists>i s'. hashid_insert s x = Some (int i, s') \<and> hashid_inv s' \<and> hi_cap s' = hi_cap s \<and>
      hashid_slot s' = (hashid_slot s)(x \<mapsto> i)"
    if "\<not> hashid_full s" "0 \<le> x" "x + hi_cap s \<le> 2 ^ 31" "hashid_slot s x = None"
    using hashid_insert_rep [OF rep that] by blast
  show "hashid_remove s x = Some (- 1, s)" if "hashid_slot s x = None"
    using hashid_remove_rep [OF rep, of x] that by simp
  have cnt: "hi_count s \<le> hi_cap s"
    using rep card_mono [of "{..<length (hi_id s)}" "used (hi_id s)"] by (auto simp: hashid_rep_def used_def)
  show "\<exists>s'. hashid_remove s x = Some (int i, s') \<and> hashid_inv s' \<and> hi_cap s' = hi_cap s \<and>
      hashid_slot s' = (hashid_slot s)(x := None) \<and> \<not> hashid_full s'" if "hashid_slot s x = Some i"
    using hashid_remove_rep [OF rep, of x] that cnt by (auto simp: hashid_full_def)
  show "int i < hi_cap s" if "hashid_slot s x = Some i"
    using that hashid_slot_iff [OF rep, of x i] rep by (auto simp: hashid_rep_def used_def)
  show "x = y" if "hashid_slot s x = Some i" "hashid_slot s y = Some i"
    using that by (simp add: hashid_slot_iff [OF rep])
qed

subsection \<open>Properties\<close>

text \<open>C28: Inserting an unknown connection id into an index that is not full succeeds without failing an
  assertion: the slot returned lies in the pool and belongs to no other id, the id is then found at
  that slot, and every other id is found where it was.\<close>

theorem hashid_insert_correct:
  assumes "hashid_inv hi" "\<not> hashid_full hi" "0 \<le> uid" "uid + hi_cap hi \<le> 2 ^ 31" "hashid_lookup hi uid = Some (- 1)"
  shows "\<exists>i hi'. hashid_insert hi uid = Some (i, hi') \<and> hashid_inv hi' \<and> 0 \<le> i \<and> i < hi_cap hi \<and>
    (\<forall>x. hashid_lookup hi x \<noteq> Some i) \<and>
    (\<forall>x. hashid_lookup hi' x = (if x = uid then Some i else hashid_lookup hi x))"
proof -
  have none: "hashid_slot hi uid = None"
    using assms(5) by (simp add: hid.lookup_ok [OF assms(1)] split: option.splits)
  obtain i hi' where i: "hashid_insert hi uid = Some (int i, hi')" "hashid_inv hi'" "hi_cap hi' = hi_cap hi"
    "hashid_slot hi' = (hashid_slot hi)(uid \<mapsto> i)"
    using hid.insert_ok [OF assms(1-4) none] by blast
  have "int i < hi_cap hi" using hid.slot_less [OF i(2), of uid i] i(3,4) by simp
  moreover have "hashid_lookup hi x \<noteq> Some (int i)" for x
    using hid.insert_fresh [OF assms(1) i(1) assms(2-4) none, of x]
    by (auto simp: hid.lookup_ok [OF assms(1)] split: option.splits)
  ultimately show ?thesis using i(1,2)
    by (auto simp: hid.lookup_ok [OF assms(1)] hid.lookup_ok [OF i(2)] i(4))
qed

theorem hashid_insert_correct_witness:
  "\<exists>i hi'. hashid_insert (hashid_init 3) 7 = Some (i, hi') \<and> hashid_lookup hi' 7 = Some i"
  using hashid_insert_correct [OF hashid_init_inv, of 3 7] hid.lookup_ok [OF hashid_init_inv, of 3 7]
    hashid_init_slot [of 3 7]
  by (auto simp: hashid_full_def hashid_init_def Let_def)

text \<open>Removing an id returns the slot it was found at (-1 when it was unknown) and makes it, and
  only it, unknown.\<close>

theorem hashid_remove_correct:
  assumes "hashid_inv hi"
  shows "\<exists>i hi'. hashid_lookup hi uid = Some i \<and> hashid_remove hi uid = Some (i, hi') \<and> hashid_inv hi' \<and>
    (\<forall>x. hashid_lookup hi' x = (if x = uid then Some (- 1) else hashid_lookup hi x))"
proof (cases "hashid_slot hi uid")
  case None
  with hid.remove_unknown [OF assms this] assms show ?thesis
    by (auto simp: hid.lookup_ok [OF assms] intro!: exI [of _ "- 1"] exI [of _ hi])
next
  case (Some i)
  then obtain hi' where "hashid_remove hi uid = Some (int i, hi')" "hashid_inv hi'"
      "hashid_slot hi' = (hashid_slot hi)(uid := None)"
    using hid.remove_known [OF assms Some] by blast
  with Some show ?thesis by (auto simp: hid.lookup_ok [OF assms] hid.lookup_ok)
qed

theorem hashid_remove_correct_witness:
  "\<exists>i hi'. hashid_remove (hashid_init 3) 7 = Some (i, hi') \<and> hashid_lookup hi' 7 = Some (- 1)"
  using hashid_remove_correct [OF hashid_init_inv, of 3 7] by auto

end
