(* ===== verification/Skynet_Databuffer.thy ===== *)
theory Skynet_Databuffer
  imports Prelude
begin

unbundle bit_operations_syntax

text \<open>
  The receive buffers of the gate (\<^verbatim>\<open>009_skynet_demo/skynet/service-src/databuffer.h\<close>): per connection a
  linked list of received blocks, whose list cells come from a pool shared by all connections.

  The cells live on an explicit heap \<open>mem\<close>, because the free list of the pool and the lists of all
  buffers share them.  \<open>mp_brk\<close> is the address of the next chunk that \<open>skynet_malloc\<close> returns; a
  chunk of \<open>MESSAGEPOOL\<close> cells occupies the addresses \<open>base .. base + MESSAGEPOOL - 1\<close>.
\<close>

subsection \<open>Data\<close>

definition MESSAGEPOOL :: nat where "MESSAGEPOOL = 1023"

record message =
  m_buffer :: "u8 list option" \<comment> \<open>the block; \<open>None\<close> is \<open>NULL\<close>\<close>
  m_size :: int
  m_next :: ptr

record databuffer =
  db_header :: int
  db_offset :: int
  db_size :: int
  db_head :: ptr
  db_tail :: ptr

record messagepool =
  mp_mem :: "addr \<rightharpoonup> message"
  mp_brk :: addr
  mp_pool :: "addr list" \<comment> \<open>the chunks, newest first\<close>
  mp_freelist :: ptr

definition databuffer_zero :: databuffer where
  "databuffer_zero = \<lparr>db_header = 0, db_offset = 0, db_size = 0, db_head = None, db_tail = None\<rparr>"

definition messagepool_zero :: messagepool where
  "messagepool_zero = \<lparr>mp_mem = Map.empty, mp_brk = 0, mp_pool = [], mp_freelist = None\<rparr>"

subsection \<open>Operations\<close>

definition mem_get :: "messagepool \<Rightarrow> ptr \<Rightarrow> message option" where
  "mem_get mp p = do { a \<leftarrow> p; mp_mem mp a }"

definition mem_set :: "addr \<Rightarrow> message \<Rightarrow> messagepool \<Rightarrow> messagepool" where
  "mem_set a m mp = mp\<lparr>mp_mem := (mp_mem mp)(a \<mapsto> m)\<rparr>"

text \<open>\<open>memcpy(dst, p + off, n)\<close>: the bytes read, if they lie in the block.\<close>

definition copy_out :: "u8 list option \<Rightarrow> int \<Rightarrow> int \<Rightarrow> u8 list option" where
  "copy_out p off n = do {
     bs \<leftarrow> p;
     assert_opt (0 \<le> off \<and> 0 \<le> n \<and> nat off + nat n \<le> length bs);
     Some (take (nat n) (drop (nat off) bs)) }"

fun free_chunks :: "addr list \<Rightarrow> (addr \<rightharpoonup> message) \<Rightarrow> (addr \<rightharpoonup> message)" where
  "free_chunks [] mem = mem"
| "free_chunks (base # cs) mem = free_chunks cs (\<lambda>a. if base \<le> a \<and> a < base + MESSAGEPOOL then None else mem a)"

definition messagepool_free :: "messagepool \<Rightarrow> messagepool" where
  "messagepool_free mp = mp\<lparr>mp_mem := free_chunks (mp_pool mp) (mp_mem mp), mp_pool := [], mp_freelist := None\<rparr>"

definition return_message :: "databuffer \<Rightarrow> messagepool \<Rightarrow> (databuffer \<times> messagepool) option" where
  "return_message db mp = do {
     a \<leftarrow> db_head db;
     m \<leftarrow> mp_mem mp a;
     db \<leftarrow> (if m_next m = None then do {
              assert_opt (db_tail db = Some a);
              Some (db\<lparr>db_head := None, db_tail := None\<rparr>) }
            else Some (db\<lparr>db_head := m_next m\<rparr>));
     let mp = mem_set a \<lparr>m_buffer = None, m_size = 0, m_next = mp_freelist mp\<rparr> mp;
     Some (db, mp\<lparr>mp_freelist := Some a\<rparr>) }"

text \<open>The \<open>for (;;)\<close> loop of \<open>databuffer_read\<close>; \<open>out\<close> holds the bytes copied so far.\<close>

partial_function (option) read_loop ::
  "databuffer \<Rightarrow> messagepool \<Rightarrow> int \<Rightarrow> u8 list \<Rightarrow> (u8 list \<times> databuffer \<times> messagepool) option" where
  "read_loop db mp sz out = do {
     current \<leftarrow> mem_get mp (db_head db);
     let bsz = m_size current - db_offset db;
     (if bsz > sz then do {
        bs \<leftarrow> copy_out (m_buffer current) (db_offset db) sz;
        Some (out @ bs, db\<lparr>db_offset := db_offset db + sz\<rparr>, mp) }
      else if bsz = sz then do {
        bs \<leftarrow> copy_out (m_buffer current) (db_offset db) sz;
        (db, mp) \<leftarrow> return_message (db\<lparr>db_offset := 0\<rparr>) mp;
        Some (out @ bs, db, mp) }
      else do {
        bs \<leftarrow> copy_out (m_buffer current) (db_offset db) bsz;
        (db, mp) \<leftarrow> return_message db mp;
        read_loop (db\<lparr>db_offset := 0\<rparr>) mp (sz - bsz) (out @ bs) }) }"

definition databuffer_read :: "databuffer \<Rightarrow> messagepool \<Rightarrow> int \<Rightarrow> (u8 list \<times> databuffer \<times> messagepool) option" where
  "databuffer_read db mp sz = do {
     assert_opt (db_size db \<ge> sz);
     read_loop (db\<lparr>db_size := db_size db - sz\<rparr>) mp sz [] }"

text \<open>A new chunk: cell 0 is handed out, cells 1 to \<open>MESSAGEPOOL - 1\<close> become the free list.\<close>

definition pool_chunk :: "addr \<Rightarrow> addr \<rightharpoonup> message" where
  "pool_chunk base = (\<lambda>a.
     if a = base then Some \<lparr>m_buffer = None, m_size = 0, m_next = None\<rparr> \<comment> \<open>not initialised by the code\<close>
     else if base < a \<and> a < base + MESSAGEPOOL then
       Some \<lparr>m_buffer = None, m_size = 0, m_next = (if a = base + MESSAGEPOOL - 1 then None else Some (a + 1))\<rparr>
     else None)"

definition alloc_message :: "messagepool \<Rightarrow> (addr \<times> messagepool) option" where
  "alloc_message mp =
     (case mp_freelist mp of
        Some a \<Rightarrow> do { m \<leftarrow> mp_mem mp a; Some (a, mp\<lparr>mp_freelist := m_next m\<rparr>) }
      | None \<Rightarrow> let base = mp_brk mp in
          Some (base, mp\<lparr>mp_mem := mp_mem mp ++ pool_chunk base, mp_brk := base + MESSAGEPOOL,
            mp_pool := base # mp_pool mp, mp_freelist := Some (base + 1)\<rparr>))"

text \<open>\<open>int size\<close> counts the unread bytes: with \<open>2 ^ 31\<close> of them it would overflow.  \<open>db_size\<close> is not cut to that
  width; \<open>int_size_ok\<close> says where the two are the same, and the properties that depend on it show or assume it.\<close>

definition int_size_ok :: "databuffer \<Rightarrow> bool" where
  "int_size_ok db \<longleftrightarrow> db_size db < 2 ^ 31"

definition databuffer_push :: "databuffer \<Rightarrow> messagepool \<Rightarrow> u8 list \<Rightarrow> (databuffer \<times> messagepool) option" where
  "databuffer_push db mp data = do {
     (a, mp) \<leftarrow> alloc_message mp;
     let sz = int (length data);
     let mp = mem_set a \<lparr>m_buffer = Some data, m_size = sz, m_next = None\<rparr> mp;
     let db = db\<lparr>db_size := db_size db + sz\<rparr>;
     (if db_head db = None then do {
        assert_opt (db_tail db = None);
        Some (db\<lparr>db_head := Some a, db_tail := Some a\<rparr>, mp) }
      else do {
        t \<leftarrow> db_tail db;
        m \<leftarrow> mp_mem mp t;
        Some (db\<lparr>db_tail := Some a\<rparr>, mem_set t (m\<lparr>m_next := Some a\<rparr>) mp) }) }"

text \<open>Big-endian lengths; the 4-byte one is computed in \<open>int\<close>, so bit 31 is its sign.\<close>

definition header_value :: "u8 list \<Rightarrow> int \<Rightarrow> int" where
  "header_value plen header_size =
     (if header_size = 2 then sint (push_bit 8 (ucast (plen ! 0)) OR ucast (plen ! 1) :: u32)
      else sint (push_bit 24 (ucast (plen ! 0)) OR push_bit 16 (ucast (plen ! 1)) OR
             push_bit 8 (ucast (plen ! 2)) OR ucast (plen ! 3) :: u32))"

definition databuffer_readheader :: "databuffer \<Rightarrow> messagepool \<Rightarrow> int \<Rightarrow> (int \<times> databuffer \<times> messagepool) option" where
  "databuffer_readheader db mp header_size =
     (if db_header db = 0 \<and> db_size db < header_size then Some (- 1, db, mp)
      else do {
        (db, mp) \<leftarrow> (if db_header db = 0 then do {
            (plen, db, mp) \<leftarrow> databuffer_read db mp header_size;
            Some (db\<lparr>db_header := header_value plen header_size\<rparr>, mp) }
          else Some (db, mp));
        Some (if db_size db < db_header db then - 1 else db_header db, db, mp) })"

definition databuffer_reset :: "databuffer \<Rightarrow> databuffer" where
  "databuffer_reset db = db\<lparr>db_header := 0\<rparr>"

partial_function (option) clear_loop :: "databuffer \<Rightarrow> messagepool \<Rightarrow> messagepool option" where
  "clear_loop db mp =
     (if db_head db \<noteq> None then do { (db, mp) \<leftarrow> return_message db mp; clear_loop db mp } else Some mp)"

definition databuffer_clear :: "databuffer \<Rightarrow> messagepool \<Rightarrow> (databuffer \<times> messagepool) option" where
  "databuffer_clear db mp = do { mp \<leftarrow> clear_loop db mp; Some (databuffer_zero, mp) }"

subsection \<open>Representation\<close>

definition nx :: "messagepool \<Rightarrow> addr \<Rightarrow> ptr option" where
  "nx mp a = map_option m_next (mp_mem mp a)"

definition cell_ok :: "messagepool \<Rightarrow> addr \<Rightarrow> bool" where
  "cell_ok mp a \<longleftrightarrow> (\<exists>bs n. mp_mem mp a = Some \<lparr>m_buffer = Some bs, m_size = int (length bs), m_next = n\<rparr>)"

definition block :: "messagepool \<Rightarrow> addr \<Rightarrow> u8 list" where
  "block mp a = (case mp_mem mp a of Some m \<Rightarrow> (case m_buffer m of Some bs \<Rightarrow> bs | None \<Rightarrow> []) | None \<Rightarrow> [])"

definition blocks :: "messagepool \<Rightarrow> addr list \<Rightarrow> u8 list" where
  "blocks mp xs = concat (map (block mp) xs)"

text \<open>\<open>db\<close> holds the cells \<open>xs\<close>, the pool's free list is \<open>ys\<close>.\<close>

definition linked :: "databuffer \<Rightarrow> messagepool \<Rightarrow> addr list \<Rightarrow> addr list \<Rightarrow> bool" where
  "linked db mp xs ys \<longleftrightarrow>
     path (nx mp) (db_head db) xs None \<and> db_tail db = (if xs = [] then None else Some (last xs)) \<and>
     (\<forall>a \<in> set xs. cell_ok mp a) \<and> path (nx mp) (mp_freelist mp) ys None \<and> set xs \<inter> set ys = {} \<and>
     dom (mp_mem mp) \<subseteq> {..<mp_brk mp} \<and>
     0 \<le> db_offset db \<and> db_offset db \<le> (if xs = [] then 0 else int (length (block mp (hd xs))))"

definition unread :: "databuffer \<Rightarrow> messagepool \<Rightarrow> addr list \<Rightarrow> u8 list" where
  "unread db mp xs = drop (nat (db_offset db)) (blocks mp xs)"

definition db_rep :: "databuffer \<Rightarrow> messagepool \<Rightarrow> addr list \<Rightarrow> addr list \<Rightarrow> u8 list \<Rightarrow> bool" where
  "db_rep db mp xs ys bs \<longleftrightarrow> linked db mp xs ys \<and> unread db mp xs = bs \<and> db_size db = int (length bs)"

text \<open>An operation on one buffer touches only its own cells, free cells and new ones.\<close>

definition frame :: "messagepool \<Rightarrow> addr set \<Rightarrow> messagepool \<Rightarrow> addr set \<Rightarrow> bool" where
  "frame mp S mp' S' \<longleftrightarrow> mp_brk mp \<le> mp_brk mp' \<and> S' \<subseteq> S \<union> {mp_brk mp..<mp_brk mp'} \<and>
     (\<forall>a < mp_brk mp. a \<notin> S \<longrightarrow> mp_mem mp' a = mp_mem mp a)"

lemma frame_refl [simp]: "frame mp S mp S" by (simp add: frame_def)

lemma frame_trans: "frame mp S mp' S' \<Longrightarrow> frame mp' S' mp'' S'' \<Longrightarrow> frame mp S mp'' S''"
  unfolding frame_def by (auto simp: subset_iff) (metis order.strict_trans2 not_le)+

lemma mem_set_simps [simp]:
  "mp_mem (mem_set a m mp) = (mp_mem mp)(a \<mapsto> m)" "mp_brk (mem_set a m mp) = mp_brk mp"
  "mp_pool (mem_set a m mp) = mp_pool mp" "mp_freelist (mem_set a m mp) = mp_freelist mp"
  by (simp_all add: mem_set_def)

lemma nx_upd [simp]: "nx (mem_set a m mp) = (nx mp)(a := Some (m_next m))"
  by (auto simp: nx_def mem_set_def fun_eq_iff)

lemma nx_record [simp]: "nx (mp\<lparr>mp_freelist := f\<rparr>) = nx mp" "nx (mp\<lparr>mp_pool := q\<rparr>) = nx mp"
  "nx (mp\<lparr>mp_brk := b\<rparr>) = nx mp"
  by (auto simp: nx_def fun_eq_iff)

lemma block_mem_set: "block (mem_set a m mp) b = (if b = a then (case m_buffer m of Some bs \<Rightarrow> bs | None \<Rightarrow> []) else block mp b)"
  by (simp add: block_def mem_set_def)

lemma blocks_cong: "(\<And>a. a \<in> set xs \<Longrightarrow> block mp' a = block mp a) \<Longrightarrow> blocks mp' xs = blocks mp xs"
  by (auto simp: blocks_def intro!: arg_cong [of _ _ concat])

lemma block_record [simp]: "block (mp\<lparr>mp_freelist := f\<rparr>) = block mp"
  by (simp add: block_def fun_eq_iff)

lemma linked_offset_0: "linked db mp xs ys \<Longrightarrow> linked (db\<lparr>db_offset := 0\<rparr>) mp xs ys"
  by (simp add: linked_def)

lemma return_message_linked:
  assumes L: "linked (db\<lparr>db_offset := 0\<rparr>) mp (x # xs) ys"
  obtains db' mp' where "return_message db mp = Some (db', mp')"
    "db' = db\<lparr>db_head := (if xs = [] then None else Some (hd xs)), db_tail := (if xs = [] then None else db_tail db)\<rparr>"
    "linked (db'\<lparr>db_offset := 0\<rparr>) mp' xs (x # ys)" "blocks mp' xs = blocks mp xs" "mp_brk mp' = mp_brk mp"
    "frame mp (set (x # xs) \<union> set ys) mp' (set xs \<union> set (x # ys))"
proof -
  from L obtain n bs where n: "db_head db = Some x" "nx mp x = Some n" "path (nx mp) n xs None"
    "mp_mem mp x = Some \<lparr>m_buffer = Some bs, m_size = int (length bs), m_next = n\<rparr>"
    by (auto simp: linked_def nx_def cell_ok_def)
  have "path (nx mp) (db_head db) (x # xs) None" using L by (auto simp: linked_def)
  then have d: "distinct (x # xs)" by (rule path_distinct)
  have xy: "x \<notin> set ys" using L by (auto simp: linked_def)
  have np: "n = (if xs = [] then None else Some (hd xs))" using n(3) by (cases xs) auto
  let ?mp = "(mem_set x \<lparr>m_buffer = None, m_size = 0, m_next = mp_freelist mp\<rparr> mp)\<lparr>mp_freelist := Some x\<rparr>"
  let ?db = "db\<lparr>db_head := (if xs = [] then None else Some (hd xs)), db_tail := (if xs = [] then None else db_tail db)\<rparr>"
  have R: "return_message db mp = Some (?db, ?mp)"
    using L n np by (auto simp: return_message_def linked_def Let_def)
  have co: "cell_ok ?mp a \<longleftrightarrow> cell_ok mp a" if "a \<in> set xs" for a
    using that d by (auto simp: cell_ok_def)
  have B: "blocks ?mp xs = blocks mp xs" using d by (intro blocks_cong) (auto simp: block_mem_set)
  have dm: "dom (mp_mem ?mp) \<subseteq> {..<mp_brk mp}"
    using L n(4) by (auto simp: linked_def)
  have "linked (?db\<lparr>db_offset := 0\<rparr>) ?mp xs (x # ys)"
    using L n np d xy co dm by (auto simp: linked_def)
  moreover have "frame mp (set (x # xs) \<union> set ys) ?mp (set xs \<union> set (x # ys))"
    by (auto simp: frame_def)
  ultimately show ?thesis using R B by (intro that) auto
qed

lemma blocks_Cons: "blocks mp (x # xs) = block mp x @ blocks mp xs"
  by (simp add: blocks_def)

text \<open>The read loop terminates and returns the next \<open>sz\<close> bytes.\<close>

lemma read_loop_spec:
  assumes "linked db mp xs ys" "0 < sz" "sz \<le> int (length (unread db mp xs))"
  shows "\<exists>db' mp' xs' ys'. read_loop db mp sz out = Some (out @ take (nat sz) (unread db mp xs), db', mp') \<and>
    linked db' mp' xs' ys' \<and> unread db' mp' xs' = drop (nat sz) (unread db mp xs) \<and>
    db_size db' = db_size db \<and> db_header db' = db_header db \<and>
    frame mp (set xs \<union> set ys) mp' (set xs' \<union> set ys')"
  using assms
proof (induction xs arbitrary: db mp ys sz out)
  case Nil
  then show ?case by (simp add: unread_def blocks_def)
next
  case (Cons x xs)
  note L = Cons.prems(1)
  define off where "off = nat (db_offset db)"
  have off: "db_offset db = int off" "off \<le> length (block mp x)" using L by (auto simp: linked_def off_def)
  from L obtain n bs where c: "db_head db = Some x"
    "mp_mem mp x = Some \<lparr>m_buffer = Some bs, m_size = int (length bs), m_next = n\<rparr>"
    by (auto simp: linked_def cell_ok_def)
  then have bs: "block mp x = bs" by (simp add: block_def)
  have un: "unread db mp (x # xs) = drop off bs @ blocks mp xs"
    using off by (simp add: unread_def blocks_Cons bs)
  define m where "m = nat sz"
  have m: "sz = int m" "0 < m" "m \<le> length bs - off + length (blocks mp xs)"
    using Cons.prems(2,3) by (auto simp: m_def un)
  have get: "mem_get mp (db_head db) = Some \<lparr>m_buffer = Some bs, m_size = int (length bs), m_next = n\<rparr>"
    using c by (simp add: mem_get_def)
  have obs: "off \<le> length bs" using off bs by simp
  consider "m < length bs - off" | "m = length bs - off" | "length bs - off < m" by linarith
  then show ?case
  proof cases
    case 1
    then have z: "int m < int (length bs) - int off" by linarith
    have R: "read_loop db mp sz out = Some (out @ take m (drop off bs), db\<lparr>db_offset := int off + int m\<rparr>, mp)"
      using 1 off m get by (subst read_loop.simps) (simp add: copy_out_def bs Let_def z assert_opt_def)
    moreover have "linked (db\<lparr>db_offset := int off + int m\<rparr>) mp (x # xs) ys" using L off 1 bs by (simp add: linked_def)
    moreover have "unread (db\<lparr>db_offset := int off + int m\<rparr>) mp (x # xs) = drop m (unread db mp (x # xs))"
      using off by (simp add: unread_def nat_add_distrib add.commute)
    ultimately show ?thesis using 1 off m
      by (intro exI [of _ "db\<lparr>db_offset := int off + int m\<rparr>"] exI [of _ mp] exI [of _ "x # xs"] exI [of _ ys])
         (simp add: un bs)
  next
    case 2
    then have z: "length bs = off + m" using obs by linarith
    have L0: "linked (db\<lparr>db_offset := 0, db_offset := 0\<rparr>) mp (x # xs) ys" using linked_offset_0 [OF L] by simp
    obtain db' mp' where r: "return_message (db\<lparr>db_offset := 0\<rparr>) mp = Some (db', mp')"
      "db' = (db\<lparr>db_offset := 0\<rparr>)\<lparr>db_head := (if xs = [] then None else Some (hd xs)),
         db_tail := (if xs = [] then None else db_tail (db\<lparr>db_offset := 0\<rparr>))\<rparr>"
      "linked (db'\<lparr>db_offset := 0\<rparr>) mp' xs (x # ys)" "blocks mp' xs = blocks mp xs"
      "frame mp (set (x # xs) \<union> set ys) mp' (set xs \<union> set (x # ys))"
      using return_message_linked [OF L0] by blast
    have "db'\<lparr>db_offset := 0\<rparr> = db'" using r(2) by simp
    with r(3) have "linked db' mp' xs (x # ys)" by simp
    moreover have "read_loop db mp sz out = Some (out @ take m (drop off bs), db', mp')"
      using off(1) m(1) get r(1) by (subst read_loop.simps) (simp add: copy_out_def bs Let_def z assert_opt_def)
    moreover have "unread db' mp' xs = drop m (unread db mp (x # xs))"
      unfolding un r(4) [symmetric] using r(2) z by (simp add: unread_def)
    moreover have "db_size db' = db_size db" "db_header db' = db_header db" using r(2) by simp_all
    ultimately show ?thesis using r(5) 2 m(1)
      by (intro exI [of _ db'] exI [of _ mp'] exI [of _ xs] exI [of _ "x # ys"]) (simp add: un bs)
  next
    case 3
    let ?k = "length bs - off"
    have z: "\<not> int m < int (length bs) - int off" "int (length bs) - int off \<noteq> int m"
      "int m - (int (length bs) - int off) = int (m - ?k)" "nat (int (length bs) - int off) = ?k"
      using 3 obs by linarith+
    obtain db' mp' where r: "return_message db mp = Some (db', mp')"
      "db' = db\<lparr>db_head := (if xs = [] then None else Some (hd xs)), db_tail := (if xs = [] then None else db_tail db)\<rparr>"
      "linked (db'\<lparr>db_offset := 0\<rparr>) mp' xs (x # ys)" "blocks mp' xs = blocks mp xs"
      "frame mp (set (x # xs) \<union> set ys) mp' (set xs \<union> set (x # ys))"
      using return_message_linked [OF linked_offset_0 [OF L]] by blast
    let ?db = "db'\<lparr>db_offset := 0\<rparr>"
    have u: "unread ?db mp' xs = blocks mp xs" using r(4) by (simp add: unread_def)
    have S: "read_loop db mp sz out = read_loop ?db mp' (int (m - ?k)) (out @ drop off bs)"
      using 3 off m get r(1) bs by (subst read_loop.simps) (simp add: copy_out_def Let_def z assert_opt_def)
    have mk: "0 < int (m - ?k)" "int (m - ?k) \<le> int (length (unread ?db mp' xs))" using 3 m(3) obs by (auto simp: u)
    obtain db2 mp2 xs2 ys2 where I: "read_loop ?db mp' (int (m - ?k)) (out @ drop off bs) =
        Some ((out @ drop off bs) @ take (m - ?k) (blocks mp xs), db2, mp2)"
      "linked db2 mp2 xs2 ys2" "unread db2 mp2 xs2 = drop (m - ?k) (blocks mp xs)"
      "db_size db2 = db_size ?db" "db_header db2 = db_header ?db" "frame mp' (set xs \<union> set (x # ys)) mp2 (set xs2 \<union> set ys2)"
      using Cons.IH [OF r(3) mk, of "out @ drop off bs"] unfolding u nat_int by blast
    have "frame mp (set (x # xs) \<union> set ys) mp2 (set xs2 \<union> set ys2)" using r(5) I(6) by (rule frame_trans)
    moreover have "take m (unread db mp (x # xs)) = drop off bs @ take (m - ?k) (blocks mp xs)"
      "drop m (unread db mp (x # xs)) = drop (m - ?k) (blocks mp xs)" using 3 by (simp_all add: un)
    ultimately show ?thesis using S I r(2) m(1)
      by (intro exI [of _ db2] exI [of _ mp2] exI [of _ xs2] exI [of _ ys2]) simp
  qed
qed

lemma databuffer_read_rep:
  assumes "db_rep db mp xs ys bs" "0 < n" "n \<le> int (length bs)"
  obtains db' mp' xs' ys' where "databuffer_read db mp n = Some (take (nat n) bs, db', mp')"
    "db_rep db' mp' xs' ys' (drop (nat n) bs)" "db_header db' = db_header db"
    "frame mp (set xs \<union> set ys) mp' (set xs' \<union> set ys')"
proof -
  let ?db = "db\<lparr>db_size := db_size db - n\<rparr>"
  have "linked ?db mp xs ys" "unread ?db mp xs = bs" "db_size db = int (length bs)"
    using assms(1) by (simp_all add: db_rep_def linked_def unread_def)
  with read_loop_spec [of ?db mp xs ys n "[]"] assms(2,3) obtain db' mp' xs' ys' where
    "read_loop ?db mp n [] = Some (take (nat n) bs, db', mp')" "linked db' mp' xs' ys'"
    "unread db' mp' xs' = drop (nat n) bs" "db_size db' = db_size db - n" "db_header db' = db_header db"
    "frame mp (set xs \<union> set ys) mp' (set xs' \<union> set ys')" by auto
  with assms show ?thesis by (intro that [of db' mp' xs' ys']) (auto simp: databuffer_read_def db_rep_def)
qed

lemma databuffer_read_nat:
  assumes "db_rep db mp xs ys bs" "0 < n" "n \<le> length bs"
  obtains db' mp' xs' ys' where "databuffer_read db mp (int n) = Some (take n bs, db', mp')"
    "db_rep db' mp' xs' ys' (drop n bs)" "db_header db' = db_header db"
    "frame mp (set xs \<union> set ys) mp' (set xs' \<union> set ys')"
  by (rule databuffer_read_rep [OF assms(1), of "int n"]) (use assms in auto)

lemma pool_chunk_path:
  assumes "k \<le> MESSAGEPOOL - 1" "\<And>a. base + MESSAGEPOOL - 1 - k < a \<Longrightarrow> a < base + MESSAGEPOOL \<Longrightarrow>
      nx mp a = Some (if a = base + MESSAGEPOOL - 1 then None else Some (a + 1))"
  shows "path (nx mp) (if k = 0 then None else Some (base + MESSAGEPOOL - k)) [base + MESSAGEPOOL - k..<base + MESSAGEPOOL] None"
  using assms
proof (induction k)
  case (Suc k)
  let ?a = "base + MESSAGEPOOL - Suc k"
  have "?a < base + MESSAGEPOOL" "Suc ?a = base + MESSAGEPOOL - k" using Suc.prems(1) by (auto simp: MESSAGEPOOL_def)
  then have up: "[?a..<base + MESSAGEPOOL] = ?a # [base + MESSAGEPOOL - k..<base + MESSAGEPOOL]"
    by (metis upt_conv_Cons)
  have "nx mp ?a = Some (if k = 0 then None else Some (base + MESSAGEPOOL - k))"
    using Suc.prems \<open>?a < base + MESSAGEPOOL\<close> \<open>Suc ?a = base + MESSAGEPOOL - k\<close> by (auto simp: MESSAGEPOOL_def)
  with Suc.IH Suc.prems up show ?case by (auto simp: MESSAGEPOOL_def)
qed simp

lemma alloc_message_linked:
  assumes L: "linked db mp xs ys"
  obtains a mp1 ys' where "alloc_message mp = Some (a, mp1)" "mp_mem mp1 a \<noteq> None" "a \<notin> set xs" "a \<notin> set ys'"
    "path (nx mp1) (mp_freelist mp1) ys' None" "dom (mp_mem mp1) \<subseteq> {..<mp_brk mp1}" "set xs \<inter> set ys' = {}"
    "frame mp (set xs \<union> set ys) mp1 (insert a (set xs \<union> set ys'))"
    "\<And>b. b \<in> set xs \<Longrightarrow> mp_mem mp1 b = mp_mem mp b"
proof (cases "mp_freelist mp")
  case None
  let ?b = "mp_brk mp" and ?ys = "[mp_brk mp + 1..<mp_brk mp + MESSAGEPOOL]"
  let ?mp = "mp\<lparr>mp_mem := mp_mem mp ++ pool_chunk ?b, mp_brk := ?b + MESSAGEPOOL,
            mp_pool := ?b # mp_pool mp, mp_freelist := Some (?b + 1)\<rparr>"
  have A: "alloc_message mp = Some (?b, ?mp)" using None by (simp add: alloc_message_def Let_def)
  have dm: "dom (mp_mem mp) \<subseteq> {..<?b}" using L by (simp add: linked_def)
  have xs: "a < ?b" if "a \<in> set xs" for a
  proof -
    from that L have "a \<in> dom (mp_mem mp)" by (fastforce simp: linked_def cell_ok_def)
    with dm show ?thesis by auto
  qed
  have old: "mp_mem ?mp a = mp_mem mp a" if "a < ?b" for a
    using that by (simp add: map_add_def pool_chunk_def)
  have new: "nx ?mp a = Some (if a = ?b + MESSAGEPOOL - 1 then None else Some (a + 1))"
    if "?b < a" "a < ?b + MESSAGEPOOL" for a
    using that by (auto simp: nx_def map_add_def pool_chunk_def)
  have P: "path (nx ?mp) (mp_freelist ?mp) ?ys None"
    using pool_chunk_path [of "MESSAGEPOOL - 1" ?b ?mp] new by (simp add: MESSAGEPOOL_def)
  have "dom (pool_chunk ?b) \<subseteq> {..<?b + MESSAGEPOOL}"
    by (auto simp: pool_chunk_def MESSAGEPOOL_def split: if_splits)
  then have D: "dom (mp_mem ?mp) \<subseteq> {..<mp_brk ?mp}" using dm by (fastforce simp: dom_map_add)
  have M: "mp_mem ?mp ?b \<noteq> None" by (simp add: map_add_def pool_chunk_def)
  have F: "frame mp (set xs \<union> set ys) ?mp (insert ?b (set xs \<union> set ?ys))"
    using old by (auto simp: frame_def MESSAGEPOOL_def)
  show ?thesis by (rule that [OF A M _ _ P D _ F]) (use xs old in \<open>fastforce+\<close>)
next
  case (Some a)
  then obtain zs where ys: "ys = a # zs" using L by (cases ys) (auto simp: linked_def)
  then obtain m where m: "mp_mem mp a = Some m" "path (nx mp) (m_next m) zs None"
    using L by (auto simp: linked_def nx_def)
  have "path (nx mp) (mp_freelist mp) (a # zs) None" using L ys by (simp add: linked_def)
  then have d: "distinct (a # zs)" by (rule path_distinct)
  have "alloc_message mp = Some (a, mp\<lparr>mp_freelist := m_next m\<rparr>)" using Some m by (simp add: alloc_message_def)
  then show ?thesis using L m d ys
    by (intro that [of a "mp\<lparr>mp_freelist := m_next m\<rparr>" zs]) (auto simp: linked_def frame_def)
qed

text \<open>Pushing a received block appends its bytes.\<close>

lemma databuffer_push_rep:
  assumes rep: "db_rep db mp xs ys bs"
  obtains db' mp' xs' ys' where "databuffer_push db mp data = Some (db', mp')"
    "db_rep db' mp' xs' ys' (bs @ data)" "db_header db' = db_header db"
    "frame mp (set xs \<union> set ys) mp' (set xs' \<union> set ys')"
proof -
  have L: "linked db mp xs ys" and U: "unread db mp xs = bs" "db_size db = int (length bs)"
    using rep by (simp_all add: db_rep_def)
  from L obtain a mp1 ys' where A: "alloc_message mp = Some (a, mp1)" "mp_mem mp1 a \<noteq> None" "a \<notin> set xs" "a \<notin> set ys'"
    "path (nx mp1) (mp_freelist mp1) ys' None" "dom (mp_mem mp1) \<subseteq> {..<mp_brk mp1}" "set xs \<inter> set ys' = {}"
    "frame mp (set xs \<union> set ys) mp1 (insert a (set xs \<union> set ys'))"
    "\<And>b. b \<in> set xs \<Longrightarrow> mp_mem mp1 b = mp_mem mp b"
    by (rule alloc_message_linked) blast
  let ?c = "\<lparr>m_buffer = Some data, m_size = int (length data), m_next = None\<rparr>"
  let ?mp = "mem_set a ?c mp1"
  have pxs: "path (nx ?mp) (db_head db) xs None"
  proof -
    have "path (nx mp1) (db_head db) xs None \<longleftrightarrow> path (nx mp) (db_head db) xs None"
      using A(9) by (intro path_cong) (simp add: nx_def)
    with L A(3) show ?thesis by (simp add: linked_def)
  qed
  have keep: "cell_ok ?mp b" "block ?mp b = block mp b" if "b \<in> set xs" for b
    using that L A(3,9) by (auto simp: linked_def cell_ok_def block_def)
  have ys': "path (nx ?mp) (mp_freelist ?mp) ys' None" using A(4,5) by simp
  have dm: "dom (mp_mem ?mp) \<subseteq> {..<mp_brk ?mp}" using A(2,6) by auto
  have fr: "frame mp (set xs \<union> set ys) ?mp (set (xs @ [a]) \<union> set ys')"
    using frame_trans [OF A(8), of ?mp "insert a (set xs \<union> set ys')"] by (auto simp: frame_def)
  show ?thesis
  proof (cases "xs = []")
    case True
    let ?db = "db\<lparr>db_size := db_size db + int (length data), db_head := Some a, db_tail := Some a\<rparr>"
    have nil: "db_head db = None" "db_tail db = None" "db_offset db = 0" "bs = []"
      using L U True by (auto simp: linked_def unread_def blocks_def)
    have "databuffer_push db mp data = Some (?db, ?mp)"
      using A(1) nil by (simp add: databuffer_push_def Let_def)
    moreover have "linked ?db ?mp [a] ys'"
      using A(4) ys' dm nil by (auto simp: linked_def cell_ok_def nx_def)
    then have "db_rep ?db ?mp [a] ys' (bs @ data)"
      using U nil by (simp add: db_rep_def unread_def blocks_def block_def)
    ultimately show ?thesis using fr True by (intro that [of ?db ?mp "[a]" ys']) auto
  next
    case False
    let ?t = "last xs"
    have t: "?t \<in> set xs" "?t \<noteq> a" using False A(3) by auto
    from keep(1) [OF t(1)] obtain tb tn where tc: "mp_mem ?mp ?t = Some \<lparr>m_buffer = Some tb, m_size = int (length tb), m_next = tn\<rparr>"
      by (auto simp: cell_ok_def)
    let ?tm = "\<lparr>m_buffer = Some tb, m_size = int (length tb), m_next = Some a\<rparr>"
    let ?mp2 = "mem_set ?t ?tm ?mp" and ?db = "db\<lparr>db_size := db_size db + int (length data), db_tail := Some a\<rparr>"
    have hd: "db_head db \<noteq> None" "db_tail db = Some ?t" using L False by (cases xs; auto simp: linked_def)+
    have P: "databuffer_push db mp data = Some (?db, ?mp2)"
      using A(1) hd tc by (simp add: databuffer_push_def Let_def)
    have "path ((nx ?mp)(?t := Some (Some a))) (db_head db) (xs @ [a]) None"
      using path_snoc [OF pxs False A(3)] path_distinct [OF pxs] by (simp add: nx_def)
    then have path2: "path (nx ?mp2) (db_head db) (xs @ [a]) None" by simp
    have keep2: "cell_ok ?mp2 b" "block ?mp2 b = block mp b" if "b \<in> set xs" for b
      using keep [OF that] tc t by (auto simp: cell_ok_def block_def split: if_splits)
    have bl: "blocks ?mp2 (xs @ [a]) = blocks mp xs @ data"
      using blocks_cong [of xs ?mp2 mp] keep2(2) t(2) by (simp add: blocks_def block_def)
    have "?t \<notin> set ys'" using t(1) A(7) by auto
    then have "path (nx ?mp2) (mp_freelist ?mp2) ys' None" using ys' by simp
    moreover have "dom (mp_mem ?mp2) = dom (mp_mem ?mp)" using tc t(2) by auto
    then have "dom (mp_mem ?mp2) \<subseteq> {..<mp_brk ?mp2}" using dm by simp
    moreover have "cell_ok ?mp2 a" using t(2) by (simp add: cell_ok_def)
    moreover have "block ?mp2 (hd (xs @ [a])) = block mp (hd xs)" using False keep2(2) by simp
    ultimately have "linked ?db ?mp2 (xs @ [a]) ys'"
      using L path2 keep2 A(4,7) False by (auto simp: linked_def)
    moreover have "nat (db_offset db) \<le> length (blocks mp xs)"
      using L False by (cases xs) (auto simp: linked_def blocks_def)
    then have "unread ?db ?mp2 (xs @ [a]) = bs @ data" using bl U(1) by (simp add: unread_def)
    ultimately have "db_rep ?db ?mp2 (xs @ [a]) ys' (bs @ data)" using U(2) by (simp add: db_rep_def)
    moreover have "frame mp (set xs \<union> set ys) ?mp2 (set (xs @ [a]) \<union> set ys')"
    proof -
      have "mp_mem ?mp2 b = mp_mem ?mp b" if "b \<notin> set xs" for b using that t(1) by auto
      then show ?thesis using fr by (simp add: frame_def)
    qed
    ultimately show ?thesis using P by (intro that [of ?db ?mp2 "xs @ [a]" ys']) simp_all
  qed
qed

text \<open>Clearing gives every cell back.\<close>

lemma clear_loop_linked:
  assumes "linked (db\<lparr>db_offset := 0\<rparr>) mp xs ys"
  shows "\<exists>mp'. clear_loop db mp = Some mp' \<and> linked databuffer_zero mp' [] (rev xs @ ys) \<and>
    frame mp (set xs \<union> set ys) mp' (set (rev xs @ ys))"
  using assms
proof (induction xs arbitrary: db mp ys)
  case Nil
  then show ?case by (subst clear_loop.simps) (auto simp: linked_def databuffer_zero_def)
next
  case (Cons x xs)
  obtain db' mp' where r: "return_message db mp = Some (db', mp')" "linked (db'\<lparr>db_offset := 0\<rparr>) mp' xs (x # ys)"
    "frame mp (set (x # xs) \<union> set ys) mp' (set xs \<union> set (x # ys))"
    using return_message_linked [OF Cons.prems] by blast
  from Cons.IH [OF r(2)] obtain mp2 where mp2: "clear_loop db' mp' = Some mp2"
    "linked databuffer_zero mp2 [] (rev xs @ x # ys)" "frame mp' (set xs \<union> set (x # ys)) mp2 (set (rev xs @ x # ys))"
    by auto
  have "db_head db \<noteq> None" using Cons.prems by (auto simp: linked_def)
  with r(1) mp2(1) have "clear_loop db mp = Some mp2" by (subst clear_loop.simps) simp
  moreover have "frame mp (set (x # xs) \<union> set ys) mp2 (set (rev xs @ x # ys))"
    using r(3) mp2(3) by (rule frame_trans)
  ultimately show ?case using mp2(2) by simp
qed

lemma databuffer_clear_rep:
  assumes "db_rep db mp xs ys bs"
  obtains mp' where "databuffer_clear db mp = Some (databuffer_zero, mp')"
    "db_rep databuffer_zero mp' [] (rev xs @ ys) []" "frame mp (set xs \<union> set ys) mp' (set (rev xs @ ys))"
  using clear_loop_linked [OF linked_offset_0, of db mp xs ys] assms
  by (auto simp: databuffer_clear_def db_rep_def unread_def blocks_def databuffer_zero_def)

lemma db_rep_init: "db_rep databuffer_zero messagepool_zero [] [] []"
  by (simp add: db_rep_def linked_def databuffer_zero_def messagepool_zero_def unread_def blocks_def)

text \<open>An operation on one buffer leaves every other buffer on the same pool as it was.\<close>

lemma db_rep_frame:
  assumes other: "db_rep db2 mp zs ys bs2" and fr: "frame mp (set xs \<union> set ys) mp' (set xs' \<union> set ys')"
    and disj: "set zs \<inter> (set xs \<union> set ys) = {}"
    and new: "linked db1 mp' xs' ys'"
  shows "db_rep db2 mp' zs ys' bs2" "set zs \<inter> (set xs' \<union> set ys') = {}"
proof -
  have L: "linked db2 mp zs ys" using other by (simp add: db_rep_def)
  have lt: "a < mp_brk mp" if "a \<in> set zs" for a
  proof -
    from that L have "a \<in> dom (mp_mem mp)" by (fastforce simp: linked_def cell_ok_def)
    with L show ?thesis by (auto simp: linked_def)
  qed
  have same: "mp_mem mp' a = mp_mem mp a" if "a \<in> set zs" for a
    using that lt [OF that] fr disj by (auto simp: frame_def)
  show d: "set zs \<inter> (set xs' \<union> set ys') = {}" using lt fr disj by (fastforce simp: frame_def)
  have blk: "block mp' a = block mp a" if "a \<in> set zs" for a using same [OF that] by (simp add: block_def)
  have "path (nx mp') (db_head db2) zs None \<longleftrightarrow> path (nx mp) (db_head db2) zs None"
    using same by (intro path_cong) (simp add: nx_def)
  moreover have "cell_ok mp' a \<longleftrightarrow> cell_ok mp a" if "a \<in> set zs" for a using same [OF that] by (simp add: cell_ok_def)
  moreover have "set zs \<inter> set ys' = {}" using d by auto
  ultimately have "linked db2 mp' zs ys'"
    using L new blk by (auto simp: linked_def)
  moreover have "blocks mp' zs = blocks mp zs" using blk by (rule blocks_cong)
  ultimately show "db_rep db2 mp' zs ys' bs2" using other by (simp add: db_rep_def unread_def)
qed

subsection \<open>Headers\<close>

text \<open>What \<open>databuffer_readheader\<close> does to the pending header \<open>h\<close> and the unread bytes \<open>bs\<close>.\<close>

definition header_spec :: "nat \<Rightarrow> int \<Rightarrow> u8 list \<Rightarrow> int \<times> int \<times> u8 list" where
  "header_spec hs h bs =
     (if h = 0 \<and> length bs < hs then (- 1, h, bs)
      else let (h', bs') = (if h = 0 then (header_value (take hs bs) (int hs), drop hs bs) else (h, bs)) in
        (if int (length bs') < h' then - 1 else h', h', bs'))"

lemma databuffer_readheader_rep:
  assumes rep: "db_rep db mp xs ys bs" and hs: "0 < hs"
  obtains db' mp' xs' ys' size h' bs' where
    "databuffer_readheader db mp (int hs) = Some (size, db', mp')" "header_spec hs (db_header db) bs = (size, h', bs')"
    "db_rep db' mp' xs' ys' bs'" "db_header db' = h'" "frame mp (set xs \<union> set ys) mp' (set xs' \<union> set ys')"
proof -
  have sz: "db_size db = int (length bs)" using rep by (simp add: db_rep_def)
  consider "db_header db = 0" "length bs < hs" | "db_header db = 0" "hs \<le> length bs" | "db_header db \<noteq> 0"
    by linarith
  then show ?thesis
  proof cases
    case 1
    then show ?thesis using rep sz
      by (intro that [of "- 1" db mp 0 bs xs ys]) (simp_all add: databuffer_readheader_def header_spec_def)
  next
    case 2
    obtain db' mp' xs' ys' where r: "databuffer_read db mp (int hs) = Some (take hs bs, db', mp')"
      "db_rep db' mp' xs' ys' (drop hs bs)" "db_header db' = db_header db"
      "frame mp (set xs \<union> set ys) mp' (set xs' \<union> set ys')"
      by (rule databuffer_read_nat [OF rep hs 2(2)])
    let ?h = "header_value (take hs bs) (int hs)"
    have r2: "db_rep (db'\<lparr>db_header := ?h\<rparr>) mp' xs' ys' (drop hs bs)"
      using r(2) by (simp add: db_rep_def linked_def unread_def)
    have "databuffer_readheader db mp (int hs) =
      Some (if int (length (drop hs bs)) < ?h then - 1 else ?h, db'\<lparr>db_header := ?h\<rparr>, mp')"
      using 2 sz r by (simp add: databuffer_readheader_def db_rep_def)
    with 2 r2 r(4) show ?thesis
      by (intro that [of _ "db'\<lparr>db_header := ?h\<rparr>" mp' ?h "drop hs bs" xs' ys']) (auto simp: header_spec_def)
  next
    case 3
    then show ?thesis using rep sz
      by (intro that [of _ db mp "db_header db" bs xs ys]) (simp_all add: databuffer_readheader_def header_spec_def)
  qed
qed

text \<open>The headers a peer sends, and that they are read back.\<close>

lemma be_value_2:
  "(push_bit 8 (ucast (of_nat (drop_bit 8 n) :: u8)) OR ucast (of_nat n :: u8) :: u32) = of_nat (take_bit 16 n)"
  by (rule bit_word_eqI) (auto simp: bit_simps)

lemma be_value_4:
  "(push_bit 24 (ucast (of_nat (drop_bit 24 n) :: u8)) OR push_bit 16 (ucast (of_nat (drop_bit 16 n) :: u8)) OR
   push_bit 8 (ucast (of_nat (drop_bit 8 n) :: u8)) OR ucast (of_nat n :: u8) :: u32) = of_nat n"
proof (rule bit_word_eqI)
  fix k assume k: "k < LENGTH(32)"
  consider "k < 8" | "8 \<le> k" "k < 16" | "16 \<le> k" "k < 24" | "24 \<le> k" by linarith
  then show "bit (push_bit 24 (ucast (of_nat (drop_bit 24 n) :: u8)) OR push_bit 16 (ucast (of_nat (drop_bit 16 n) :: u8)) OR
   push_bit 8 (ucast (of_nat (drop_bit 8 n) :: u8)) OR ucast (of_nat n :: u8) :: u32) k = bit (of_nat n :: u32) k"
    using k by cases (auto simp: bit_simps)
qed

definition encode_header :: "nat \<Rightarrow> nat \<Rightarrow> u8 list" where
  "encode_header hs n = (if hs = 2 then [of_nat (drop_bit 8 n), of_nat n]
     else [of_nat (drop_bit 24 n), of_nat (drop_bit 16 n), of_nat (drop_bit 8 n), of_nat n])"

lemma sint_of_nat_u32: "n < 2 ^ 31 \<Longrightarrow> sint (of_nat n :: u32) = int n"
  by (simp add: signed_of_nat signed_take_bit_int_eq_self)

lemma header_value_encode:
  "hs = 2 \<and> n < 2 ^ 16 \<or> hs = 4 \<and> n < 2 ^ 31 \<Longrightarrow> header_value (encode_header hs n) (int hs) = int n"
proof (elim disjE conjE)
  show "hs = 2 \<Longrightarrow> n < 2 ^ 16 \<Longrightarrow> header_value (encode_header hs n) (int hs) = int n"
    by (simp add: header_value_def encode_header_def be_value_2 sint_of_nat_u32 take_bit_nat_eq_self)
  show "hs = 4 \<Longrightarrow> n < 2 ^ 31 \<Longrightarrow> header_value (encode_header hs n) (int hs) = int n"
    by (simp add: header_value_def encode_header_def be_value_4 sint_of_nat_u32)
qed

lemma length_encode_header: "hs = 2 \<or> hs = 4 \<Longrightarrow> length (encode_header hs n) = hs"
  by (auto simp: encode_header_def)

lemma databuffer_reset_rep: "db_rep db mp xs ys bs \<Longrightarrow> db_rep (databuffer_reset db) mp xs ys bs"
  by (simp add: db_rep_def linked_def unread_def databuffer_reset_def)

subsection \<open>Properties\<close>

text \<open>
  Sequences of pushes and reads on one buffer, and the byte queue they implement.  A run ends in \<open>None\<close> also when
  \<open>size\<close> overflows its \<open>int\<close>; \<open>unread_fits\<close> keeps the number of unread bytes of the queue below \<open>2 ^ 31\<close>.
\<close>

datatype db_op = Push "u8 list" | Read nat | Clear

fun db_run :: "db_op list \<Rightarrow> databuffer \<Rightarrow> messagepool \<Rightarrow> u8 list list option" where
  "db_run [] db mp = Some []"
| "db_run (Push data # ops) db mp = do {
     (db, mp) \<leftarrow> databuffer_push db mp data;
     assert_opt (int_size_ok db);
     db_run ops db mp }"
| "db_run (Read n # ops) db mp = do {
     (bs, db, mp) \<leftarrow> databuffer_read db mp (int n);
     rest \<leftarrow> db_run ops db mp;
     Some (bs # rest) }"
| "db_run (Clear # ops) db mp = do { (db, mp) \<leftarrow> databuffer_clear db mp; db_run ops db mp }"

fun bytes_run :: "db_op list \<Rightarrow> u8 list \<Rightarrow> u8 list list option" where
  "bytes_run [] q = Some []"
| "bytes_run (Push data # ops) q = bytes_run ops (q @ data)"
| "bytes_run (Read n # ops) q =
     (if n \<le> length q then map_option ((#) (take n q)) (bytes_run ops (drop n q)) else None)"
| "bytes_run (Clear # ops) q = bytes_run ops []"

fun unread_fits :: "db_op list \<Rightarrow> nat \<Rightarrow> bool" where
  "unread_fits [] n \<longleftrightarrow> True"
| "unread_fits (Push data # ops) n \<longleftrightarrow> n + length data < 2 ^ 31 \<and> unread_fits ops (n + length data)"
| "unread_fits (Read k # ops) n \<longleftrightarrow> unread_fits ops (n - k)"
| "unread_fits (Clear # ops) n \<longleftrightarrow> unread_fits ops 0"

lemma databuffer_read_short: "db_rep db mp xs ys bs \<Longrightarrow> length bs < n \<Longrightarrow> databuffer_read db mp (int n) = None"
  by (simp add: databuffer_read_def db_rep_def)

lemma db_run_rep:
  "db_rep db mp xs ys q \<Longrightarrow> Read 0 \<notin> set ops \<Longrightarrow> unread_fits ops (length q) \<Longrightarrow> db_run ops db mp = bytes_run ops q"
proof (induction ops arbitrary: db mp xs ys q)
  case (Cons op ops)
  show ?case
  proof (cases op)
    case (Push data)
    obtain db' mp' xs' ys' where r: "databuffer_push db mp data = Some (db', mp')" "db_rep db' mp' xs' ys' (q @ data)"
      by (rule databuffer_push_rep [OF Cons.prems(1), of data])
    have "int_size_ok db'" using r(2) Cons.prems(3) Push by (simp add: int_size_ok_def db_rep_def)
    then show ?thesis using Cons.IH [OF r(2)] Cons.prems(2,3) Push r(1) by simp
  next
    case (Read n)
    then have n: "0 < n" using Cons.prems(2) by (cases n) auto
    show ?thesis
    proof (cases "n \<le> length q")
      case True
      obtain db' mp' xs' ys' where
        "databuffer_read db mp (int n) = Some (take n q, db', mp')" "db_rep db' mp' xs' ys' (drop n q)"
        "db_header db' = db_header db" "frame mp (set xs \<union> set ys) mp' (set xs' \<union> set ys')"
        by (rule databuffer_read_nat [OF Cons.prems(1) n True])
      with Cons.IH [of db' mp' xs' ys' "drop n q"] Cons.prems(2,3) Read True show ?thesis
        by (cases "bytes_run ops (drop n q)") auto
    next
      case False
      with Read databuffer_read_short [OF Cons.prems(1)] show ?thesis by simp
    qed
  next
    case Clear
    with databuffer_clear_rep [OF Cons.prems(1)] obtain mp' where
      "databuffer_clear db mp = Some (databuffer_zero, mp')" "db_rep databuffer_zero mp' [] (rev xs @ ys) []" by blast
    with Cons.IH [of databuffer_zero mp'] Cons.prems(2,3) Clear show ?thesis by auto
  qed
qed simp

text \<open>C22: A receive buffer and its shared pool of list cells implement a byte queue: over any sequence of
  pushes, reads of at least one byte and clears from the zeroed state in which less than 2 GiB is unread at any time,
  every read loop terminates and returns the oldest unread bytes across block boundaries, cells being recycled through
  the free list, and the size never leaves \<open>int\<close>; a read of more bytes than are buffered is the assertion failure of
  the code.\<close>

theorem databuffer_refines_bytes:
  assumes "Read 0 \<notin> set ops" "unread_fits ops 0"
  shows "db_run ops databuffer_zero messagepool_zero = bytes_run ops []"
  using db_run_rep [OF db_rep_init assms(1)] assms(2) by simp

theorem databuffer_refines_bytes_witness:
  "db_run [Push [1, 2, 3], Push [4], Read 2, Push [5, 6], Read 3] databuffer_zero messagepool_zero
     = Some [[1, 2], [3, 4, 5]]"
  using databuffer_refines_bytes [of "[Push [1, 2, 3], Push [4], Read 2, Push [5, 6], Read 3]"] by simp

end
