(* ===== verification/Skynet_Gate.thy ===== *)
theory Skynet_Gate
  imports Skynet_Hashid Skynet_Databuffer Skynet_Socket_Message C_String
begin

unbundle bit_operations_syntax

text \<open>
  The gate service (\<^verbatim>\<open>009_skynet_demo/skynet/service-src/service_gate.c\<close>): it accepts connections, cuts
  their byte streams into length-prefixed packets and forwards each packet to a broker, to the
  agent of the connection or to the watchdog.

  A handler maps the gate to the new gate and the list of calls it makes into the framework
  (\<open>gate_out\<close>), in order; \<open>None\<close> is a failed assertion or an access outside an array.  A pointer to
  a connection is its index in \<open>conn\<close>.  The functions the gate only calls are arguments:
  \<open>queryname\<close> stands for \<open>skynet_queryname\<close> and \<open>listen\<close> for \<open>skynet_socket_listen\<close>.
\<close>

subsection \<open>Data\<close>

definition PTYPE_TEXT :: int where "PTYPE_TEXT = 0"
definition PTYPE_CLIENT :: int where "PTYPE_CLIENT = 3"
definition PTYPE_SOCKET :: int where "PTYPE_SOCKET = 6"
definition PTYPE_TAG_DONTCOPY :: int where "PTYPE_TAG_DONTCOPY = 0x10000"

record connection =
  c_id :: int
  c_agent :: u32
  c_client :: u32
  c_remote_name :: string
  c_buffer :: databuffer

record gate =
  g_listen_id :: int
  g_watchdog :: u32
  g_broker :: u32
  g_client_tag :: int
  g_header_size :: int
  g_max_connection :: int
  g_hash :: hashid
  g_conn :: "connection list"
  g_mp :: messagepool

datatype gate_out =
    Socket_close int
  | Socket_start int
  | Socket_send int "u8 list"
  | Send u32 u32 int int "u8 list" \<comment> \<open>source, destination, type, session, data\<close>
  | Log string
  | Callback

definition connection_zero :: connection where
  "connection_zero = \<lparr>c_id = 0, c_agent = 0, c_client = 0, c_remote_name = [], c_buffer = databuffer_zero\<rparr>"

definition gate_create :: gate where
  "gate_create = \<lparr>g_listen_id = - 1, g_watchdog = 0, g_broker = 0, g_client_tag = 0, g_header_size = 0,
     g_max_connection = 0, g_hash = \<lparr>hi_hashmod = 0, hi_cap = 0, hi_count = 0, hi_id = [], hi_hash = []\<rparr>,
     g_conn = [], g_mp = messagepool_zero\<rparr>"

definition gate_release :: "gate \<Rightarrow> gate_out list \<times> messagepool \<times> hashid" where
  "gate_release g =
     (concat (map (\<lambda>c. if c_id c \<ge> 0 then [Socket_close (c_id c)] else []) (take (nat (g_max_connection g)) (g_conn g))) @
      (if g_listen_id g \<ge> 0 then [Socket_close (g_listen_id g)] else []),
      messagepool_free (g_mp g), hashid_clear (g_hash g))"

subsection \<open>Control messages\<close>

text \<open>\<open>parm msg sz command_sz\<close>: the buffer with the parameters of the command moved to its start.\<close>

definition parm :: "string \<Rightarrow> nat \<Rightarrow> nat \<Rightarrow> string" where
  "parm msg sz command_sz =
     (let command_sz = command_sz + length (takeWhile (\<lambda>c. c = CHR '' '') (drop command_sz (take sz msg)));
          body = drop command_sz (take sz msg)
      in body @ [NUL] @ drop (sz - command_sz + 1) msg)"

definition forward_agent :: "gate \<Rightarrow> int \<Rightarrow> u32 \<Rightarrow> u32 \<Rightarrow> gate option" where
  "forward_agent g fd agentaddr clientaddr = do {
     i \<leftarrow> hashid_lookup (g_hash g) fd;
     (if i \<ge> 0 then do {
        agent \<leftarrow> array_get (g_conn g) (nat i);
        Some (g\<lparr>g_conn := (g_conn g)[nat i := agent\<lparr>c_agent := agentaddr, c_client := clientaddr\<rparr>]\<rparr>) }
      else Some g) }"

definition ctrl_kick :: "gate \<Rightarrow> string \<Rightarrow> (gate \<times> gate_out list) option" where
  "ctrl_kick g tmp = do {
     s \<leftarrow> cstr_at tmp 0;
     let uid = long_to_int (strtol10 s);
     i \<leftarrow> hashid_lookup (g_hash g) uid;
     Some (g, if i \<ge> 0 then [Socket_close uid] else []) }"

definition ctrl_forward :: "gate \<Rightarrow> string \<Rightarrow> (gate \<times> gate_out list) option" where
  "ctrl_forward g tmp = do {
     (tmp, client) \<leftarrow> strsep_space tmp 0;
     (case client of
        None \<Rightarrow> Some (g, [])
      | Some agent \<Rightarrow> do {
          idstr \<leftarrow> cstr_at tmp 0;
          let uid = long_to_int (strtol10 idstr);
          (tmp, client) \<leftarrow> strsep_space tmp agent;
          (case client of
             None \<Rightarrow> Some (g, [])
           | Some client \<Rightarrow> do {
               a \<leftarrow> cstr_at tmp (agent + 1);
               c \<leftarrow> cstr_at tmp (client + 1);
               g \<leftarrow> forward_agent g uid (ucast (strtoul16 a)) (ucast (strtoul16 c));
               Some (g, []) }) }) }"

definition ctrl_start :: "gate \<Rightarrow> string \<Rightarrow> (gate \<times> gate_out list) option" where
  "ctrl_start g tmp = do {
     s \<leftarrow> cstr_at tmp 0;
     let uid = long_to_int (strtol10 s);
     i \<leftarrow> hashid_lookup (g_hash g) uid;
     Some (g, if i \<ge> 0 then [Socket_start uid] else []) }"

definition ctrl :: "(string \<Rightarrow> u32) \<Rightarrow> gate \<Rightarrow> string \<Rightarrow> (gate \<times> gate_out list) option" where
  "ctrl queryname g msg =
     (let sz = length msg; tmp = msg @ [NUL]; i = length (takeWhile (\<lambda>c. c \<noteq> CHR '' '') msg) in
      if sz = 0 then Some (g, [])
      else do {
        kick \<leftarrow> memcmp_lit tmp ''kick'' i;
        (if kick then ctrl_kick g (parm tmp sz i) else do {
        forward \<leftarrow> memcmp_lit tmp ''forward'' i;
        (if forward then ctrl_forward g (parm tmp sz i) else do {
        broker \<leftarrow> memcmp_lit tmp ''broker'' i;
        (if broker then do {
           s \<leftarrow> cstr_at (parm tmp sz i) 0;
           Some (g\<lparr>g_broker := queryname s\<rparr>, []) } else do {
        start \<leftarrow> memcmp_lit tmp ''start'' i;
        (if start then ctrl_start g (parm tmp sz i) else do {
        close \<leftarrow> memcmp_lit tmp ''close'' i;
        Some (if close then
                if g_listen_id g \<ge> 0 then (g\<lparr>g_listen_id := - 1\<rparr>, [Socket_close (g_listen_id g)]) else (g, [])
              else (g, [Log (''[gate] Unknown command : '' @ cstr tmp)])) }) }) }) }) })"

definition report :: "gate \<Rightarrow> string \<Rightarrow> gate_out list" where
  "report g text = (if g_watchdog g = 0 then [] else [Send 0 (g_watchdog g) PTYPE_TEXT 0 (bytes_of text)])"

subsection \<open>Packets\<close>

definition set_buffer :: "gate \<Rightarrow> nat \<Rightarrow> databuffer \<Rightarrow> messagepool \<Rightarrow> gate" where
  "set_buffer g ci db mp = g\<lparr>g_conn := (g_conn g)[ci := (g_conn g ! ci)\<lparr>c_buffer := db\<rparr>], g_mp := mp\<rparr>"

definition forward :: "gate \<Rightarrow> nat \<Rightarrow> int \<Rightarrow> (gate \<times> gate_out list) option" where
  "forward g ci sz = do {
     c \<leftarrow> array_get (g_conn g) ci;
     let fd = c_id c;
     (if fd \<le> 0 then Some (g, [])
      else if g_broker g \<noteq> 0 then do {
        (temp, db, mp) \<leftarrow> databuffer_read (c_buffer c) (g_mp g) sz;
        Some (set_buffer g ci db mp, [Send 0 (g_broker g) (g_client_tag g OR PTYPE_TAG_DONTCOPY) fd temp]) }
      else if c_agent c \<noteq> 0 then do {
        (temp, db, mp) \<leftarrow> databuffer_read (c_buffer c) (g_mp g) sz;
        Some (set_buffer g ci db mp,
          [Send (c_client c) (c_agent c) (g_client_tag g OR PTYPE_TAG_DONTCOPY) fd temp]) }
      else if g_watchdog g \<noteq> 0 then do {
        (temp, db, mp) \<leftarrow> databuffer_read (c_buffer c) (g_mp g) sz;
        Some (set_buffer g ci db mp,
          [Send 0 (g_watchdog g) (PTYPE_TEXT OR PTYPE_TAG_DONTCOPY) fd
             (bytes_of (show_int fd @ '' data '') @ temp)]) }
      else Some (g, [])) }"

text \<open>The \<open>for (;;)\<close> loop of \<open>dispatch_message\<close>.\<close>

partial_function (option) packet_loop :: "gate \<Rightarrow> nat \<Rightarrow> int \<Rightarrow> gate_out list \<Rightarrow> (gate \<times> gate_out list) option" where
  "packet_loop g ci uid out = do {
     c \<leftarrow> array_get (g_conn g) ci;
     (sz, db, mp) \<leftarrow> databuffer_readheader (c_buffer c) (g_mp g) (g_header_size g);
     let g = set_buffer g ci db mp;
     (if sz < 0 then Some (g, out)
      else if sz > 0 then
        if sz \<ge> 0x1000000 then do {
          (db, mp) \<leftarrow> databuffer_clear db mp;
          Some (set_buffer g ci db mp, out @ [Socket_close uid, Log ''Recv socket message > 16M'']) }
        else do {
          (g, o') \<leftarrow> forward g ci sz;
          let g = set_buffer g ci (databuffer_reset (c_buffer (g_conn g ! ci))) (g_mp g);
          packet_loop g ci uid (out @ o') }
      else packet_loop g ci uid out) }"

definition dispatch_message :: "gate \<Rightarrow> nat \<Rightarrow> int \<Rightarrow> u8 list \<Rightarrow> (gate \<times> gate_out list) option" where
  "dispatch_message g ci uid data = do {
     c \<leftarrow> array_get (g_conn g) ci;
     (db, mp) \<leftarrow> databuffer_push (c_buffer c) (g_mp g) data;
     packet_loop (set_buffer g ci db mp) ci uid [] }"

subsection \<open>Socket messages\<close>

definition socket_close_message :: "gate \<Rightarrow> int \<Rightarrow> (gate \<times> gate_out list) option" where
  "socket_close_message g uid = do {
     (i, hash) \<leftarrow> hashid_remove (g_hash g) uid;
     let g = g\<lparr>g_hash := hash\<rparr>;
     (if i \<ge> 0 then do {
        c \<leftarrow> array_get (g_conn g) (nat i);
        (db, mp) \<leftarrow> databuffer_clear (c_buffer c) (g_mp g);
        let g = g\<lparr>g_conn := (g_conn g)[nat i := connection_zero\<lparr>c_id := - 1\<rparr>], g_mp := mp\<rparr>;
        Some (g, report g (show_int uid @ '' close'')) }
      else Some (g, [])) }"

definition socket_accept_message :: "gate \<Rightarrow> socket_message \<Rightarrow> (gate \<times> gate_out list) option" where
  "socket_accept_message g m = do {
     assert_opt (g_listen_id g = sm_id m);
     (if hashid_full (g_hash g) then Some (g, [Socket_close (sm_ud m)])
      else do {
        (i, hash) \<leftarrow> hashid_insert (g_hash g) (sm_ud m);
        c \<leftarrow> array_get (g_conn g) (nat i);
        let name = take 31 (sm_padding m) @ [NUL];
        let g = g\<lparr>g_hash := hash, g_conn := (g_conn g)[nat i := c\<lparr>c_id := sm_ud m, c_remote_name := name\<rparr>]\<rparr>;
        Some (g, report g (show_int (sm_ud m) @ '' open '' @ show_int (sm_ud m) @ '' '' @ cstr name @ '':0'') @
          [Log (''socket open: '' @ show_hex (of_int (sm_ud m)))]) }) }"

definition dispatch_socket_message :: "gate \<Rightarrow> socket_message \<Rightarrow> (gate \<times> gate_out list) option" where
  "dispatch_socket_message g m =
     (if sm_type m = SKYNET_SOCKET_TYPE_DATA then do {
        i \<leftarrow> hashid_lookup (g_hash g) (sm_id m);
        (if i \<ge> 0 then dispatch_message g (nat i) (sm_id m) (sm_buffer m)
         else Some (g, [Log (''Drop unknown connection '' @ show_int (sm_id m) @ '' message''), Socket_close (sm_id m)])) }
      else if sm_type m = SKYNET_SOCKET_TYPE_CONNECT then
        if sm_id m = g_listen_id g then Some (g, [])
        else do {
          i \<leftarrow> hashid_lookup (g_hash g) (sm_id m);
          Some (g, if i < 0 then [Log (''Close unknown connection '' @ show_int (sm_id m)), Socket_close (sm_id m)] else []) }
      else if sm_type m = SKYNET_SOCKET_TYPE_CLOSE \<or> sm_type m = SKYNET_SOCKET_TYPE_ERROR then
        socket_close_message g (sm_id m)
      else if sm_type m = SKYNET_SOCKET_TYPE_ACCEPT then socket_accept_message g m
      else if sm_type m = SKYNET_SOCKET_TYPE_WARNING then
        Some (g, [Log (''fd ('' @ show_int (sm_id m) @ '') send buffer ('' @ show_int (sm_ud m) @ '')K'')])
      else Some (g, []))"

text \<open>The message callback; its first result is the return value, 1 when the message must not be freed.\<close>

datatype gate_msg = Text string | Client "u8 list" | Socket socket_message | Other int

definition cb :: "(string \<Rightarrow> u32) \<Rightarrow> gate \<Rightarrow> u32 \<Rightarrow> gate_msg \<Rightarrow> (int \<times> gate \<times> gate_out list) option" where
  "cb queryname g src msg =
     (case msg of
        Text s \<Rightarrow> do { (g, out) \<leftarrow> ctrl queryname g s; Some (0, g, out) }
      | Client bs \<Rightarrow>
          if length bs \<le> 4 then Some (0, g, [Log (''Invalid client message from '' @ show_hex src)])
          else do {
            let sz = length bs;
            let b = (\<lambda>k. ucast (bs ! (sz - 4 + k)) :: u32);
            let uid = b 0 OR push_bit 8 (b 1) OR push_bit 16 (b 2) OR push_bit 24 (b 3);
            i \<leftarrow> hashid_lookup (g_hash g) (sint uid);
            Some (if i \<ge> 0 then (1, g, [Socket_send (sint uid) (take (sz - 4) bs)])
                  else (0, g, [Log (''Invalid client id '' @ show_int (sint uid) @ '' from '' @ show_hex src)])) }
      | Socket m \<Rightarrow> do { (g, out) \<leftarrow> dispatch_socket_message g m; Some (0, g, out) }
      | Other _ \<Rightarrow> Some (0, g, []))"

subsection \<open>Starting\<close>

definition BACKLOG :: int where "BACKLOG = 128"

definition start_listen :: "(string \<Rightarrow> int \<Rightarrow> int \<Rightarrow> int) \<Rightarrow> gate \<Rightarrow> string \<Rightarrow> int \<times> gate \<times> gate_out list" where
  "start_listen listen g listen_addr =
     (let (port, host) = (case strrchr listen_addr (CHR '':'') of
            None \<Rightarrow> (long_to_int (strtol10 listen_addr), '''')
          | Some p \<Rightarrow> (long_to_int (strtol10 (drop (p + 1) listen_addr)), take p listen_addr))
      in if port \<le> 0 then (1, g, [Log (''Invalid gate address '' @ listen_addr)])
         else let g = g\<lparr>g_listen_id := listen host port BACKLOG\<rparr> in
           if g_listen_id g < 0 then (1, g, []) else (0, g, [Socket_start (g_listen_id g)]))"

definition scan_word :: "string \<Rightarrow> string \<times> string" where
  "scan_word s = (let t = dropWhile c_isspace s in
     (takeWhile (\<lambda>c. \<not> c_isspace c) t, dropWhile (\<lambda>c. \<not> c_isspace c) t))"

definition scan_int :: "string \<Rightarrow> (int \<times> string) option" where
  "scan_int s = (let t = dropWhile c_isspace s; (_, u) = strip_sign t in
     if takeWhile (is_digit 10) u = [] then None
     else Some (long_to_int (strtol10 t), dropWhile (is_digit 10) u))"

text \<open>\<open>sscanf(parm, "%c %s %s %d %d", ...)\<close>: \<open>None\<close> for fewer than four conversions, and 0 for \<open>max\<close>
  when the fifth is missing.\<close>

definition scan_parm :: "string \<Rightarrow> (char \<times> string \<times> string \<times> int \<times> int) option" where
  "scan_parm s = (case s of
      [] \<Rightarrow> None
    | header # s \<Rightarrow>
        let (watchdog, s) = scan_word s; (binding, s) = scan_word s in
        if watchdog = [] \<or> binding = [] then None
        else do {
          (tag, s) \<leftarrow> scan_int s;
          Some (header, watchdog, binding, tag, case scan_int s of Some (m, _) \<Rightarrow> m | None \<Rightarrow> 0) })"

definition gate_init :: "(string \<Rightarrow> u32) \<Rightarrow> (string \<Rightarrow> int \<Rightarrow> int \<Rightarrow> int) \<Rightarrow> gate \<Rightarrow> string option \<Rightarrow> int \<times> gate \<times> gate_out list" where
  "gate_init queryname listen g arg =
     (case arg of
        None \<Rightarrow> (1, g, [])
      | Some arg \<Rightarrow>
        (case scan_parm arg of
           None \<Rightarrow> (1, g, [Log (''Invalid gate parm '' @ arg)])
         | Some (header, watchdog, binding, client_tag, mx) \<Rightarrow>
             if mx \<le> 0 then (1, g, [Log ''Need max connection''])
             else if header \<noteq> CHR ''S'' \<and> header \<noteq> CHR ''L'' then (1, g, [Log ''Invalid data header style''])
             else
               let client_tag = (if client_tag = 0 then PTYPE_CLIENT else client_tag);
                   g = g\<lparr>g_watchdog := (if hd watchdog = CHR ''!'' then 0 else queryname watchdog)\<rparr> in
               if hd watchdog \<noteq> CHR ''!'' \<and> g_watchdog g = 0 then (1, g, [Log (''Invalid watchdog '' @ watchdog)])
               else
                 let g = g\<lparr>g_hash := hashid_init mx, g_conn := replicate (nat mx) (connection_zero\<lparr>c_id := - 1\<rparr>),
                        g_max_connection := mx, g_client_tag := client_tag,
                        g_header_size := (if header = CHR ''S'' then 2 else 4)\<rparr>;
                     (r, g, out) = start_listen listen g binding
                 in (r, g, Callback # out)))"

subsection \<open>Invariant\<close>

text \<open>Connection \<open>i\<close> owns the cells \<open>xss i\<close> and has \<open>bss i\<close> unread; \<open>ys\<close> is the free list.\<close>

definition bufs :: "connection list \<Rightarrow> messagepool \<Rightarrow> (nat \<Rightarrow> addr list) \<Rightarrow> addr list \<Rightarrow> (nat \<Rightarrow> u8 list) \<Rightarrow> bool" where
  "bufs conn mp xss ys bss \<longleftrightarrow>
     (\<forall>i < length conn. db_rep (c_buffer (conn ! i)) mp (xss i) ys (bss i)) \<and>
     (\<forall>i < length conn. \<forall>j < length conn. i \<noteq> j \<longrightarrow> set (xss i) \<inter> set (xss j) = {})"

definition gate_inv :: "gate \<Rightarrow> bool" where
  "gate_inv g \<longleftrightarrow>
     hashid_inv (g_hash g) \<and> hi_cap (g_hash g) = int (length (g_conn g)) \<and>
     g_max_connection g = int (length (g_conn g)) \<and> (g_header_size g = 2 \<or> g_header_size g = 4) \<and>
     (\<forall>uid i. hashid_slot (g_hash g) uid = Some i \<longrightarrow> c_id (g_conn g ! i) = uid) \<and>
     (\<forall>i < length (g_conn g). i \<notin> ran (hashid_slot (g_hash g)) \<longrightarrow>
        c_id (g_conn g ! i) = - 1 \<and> c_buffer (g_conn g ! i) = databuffer_zero) \<and>
     (\<exists>xss ys bss. bufs (g_conn g) (g_mp g) xss ys bss)"

lemma bufs_upd:
  assumes B: "bufs conn mp xss ys bss" and ci: "ci < length conn"
    and new: "db_rep (c_buffer c') mp' xs' ys' bs'" and fr: "frame mp (set (xss ci) \<union> set ys) mp' (set xs' \<union> set ys')"
  shows "bufs (conn[ci := c']) mp' (xss(ci := xs')) ys' (bss(ci := bs'))"
proof -
  have L: "linked (c_buffer c') mp' xs' ys'" using new by (simp add: db_rep_def)
  have O: "db_rep (c_buffer (conn ! i)) mp' (xss i) ys' (bss i)" "set (xss i) \<inter> set xs' = {}"
    if i: "i < length conn" "i \<noteq> ci" for i
  proof -
    have r: "db_rep (c_buffer (conn ! i)) mp (xss i) ys (bss i)" using B i by (simp add: bufs_def)
    then have "set (xss i) \<inter> set ys = {}" by (auto simp: db_rep_def linked_def)
    moreover have "set (xss i) \<inter> set (xss ci) = {}" using B i ci by (auto simp: bufs_def)
    ultimately have d: "set (xss i) \<inter> (set (xss ci) \<union> set ys) = {}" by auto
    from db_rep_frame [OF r fr d L] show "db_rep (c_buffer (conn ! i)) mp' (xss i) ys' (bss i)" "set (xss i) \<inter> set xs' = {}"
      by auto
  qed
  show ?thesis
    unfolding bufs_def
  proof (intro conjI allI impI)
    fix i assume "i < length (conn[ci := c'])"
    then show "db_rep (c_buffer (conn[ci := c'] ! i)) mp' ((xss(ci := xs')) i) ys' ((bss(ci := bs')) i)"
      using O new ci by (cases "i = ci") auto
  next
    fix i j assume "i < length (conn[ci := c'])" "j < length (conn[ci := c'])" "i \<noteq> j"
    then show "set ((xss(ci := xs')) i) \<inter> set ((xss(ci := xs')) j) = {}"
      using O(2) [of i] O(2) [of j] B by (auto simp: bufs_def)
  qed
qed

lemma bufs_same: "bufs conn mp xss ys bss \<Longrightarrow> c_buffer c' = c_buffer (conn ! ci) \<Longrightarrow> bufs (conn[ci := c']) mp xss ys bss"
  by (auto simp: bufs_def nth_upd_if)

subsection \<open>Packets\<close>

text \<open>The framing of the wire format: the packets at the head of a stream, and the state it ends in.
  \<open>taken\<close> says whether a complete packet is taken out of the buffer: \<open>_forward\<close> leaves it there
  when it has nobody to send it to.\<close>

datatype deframe_end = Wait int "u8 list" | Too_big

function deframe :: "bool \<Rightarrow> nat \<Rightarrow> int \<Rightarrow> u8 list \<Rightarrow> u8 list list \<times> deframe_end" where
  "deframe taken hs h bs = (let (sz, h', bs') = header_spec hs h bs in
     if hs = 0 \<or> sz < 0 then ([], Wait h' bs')
     else if sz = 0 then deframe taken hs 0 bs'
     else if sz \<ge> 0x1000000 then ([], Too_big)
     else if taken then let (ps, e) = deframe taken hs 0 (drop (nat sz) bs') in (take (nat sz) bs' # ps, e)
     else deframe taken hs 0 bs')"
  by pat_completeness auto
termination
proof (relation "measure (\<lambda>(taken, hs, h, bs). 2 * length bs + (if h = 0 then 0 else 1))", goal_cases)
  case 1
  show ?case by simp
next
  case (2 taken hs h bs x sz y h' bs')
  then show ?case by (auto simp: header_spec_def split: if_splits)
next
  case (3 taken hs h bs x sz y h' bs')
  then show ?case by (auto simp: header_spec_def split: if_splits)
next
  case (4 taken hs h bs x sz y h' bs')
  then show ?case by (auto simp: header_spec_def split: if_splits)
qed

declare deframe.simps [simp del]

definition has_receiver :: "gate \<Rightarrow> nat \<Rightarrow> bool" where
  "has_receiver g ci \<longleftrightarrow> c_id (g_conn g ! ci) > 0 \<and>
     (g_broker g \<noteq> 0 \<or> c_agent (g_conn g ! ci) \<noteq> 0 \<or> g_watchdog g \<noteq> 0)"

text \<open>The message a packet is forwarded in.\<close>

definition packet_send :: "gate \<Rightarrow> nat \<Rightarrow> u8 list \<Rightarrow> gate_out" where
  "packet_send g ci bs = (let c = g_conn g ! ci in
     if g_broker g \<noteq> 0 then Send 0 (g_broker g) (g_client_tag g OR PTYPE_TAG_DONTCOPY) (c_id c) bs
     else if c_agent c \<noteq> 0 then Send (c_client c) (c_agent c) (g_client_tag g OR PTYPE_TAG_DONTCOPY) (c_id c) bs
     else Send 0 (g_watchdog g) (PTYPE_TEXT OR PTYPE_TAG_DONTCOPY) (c_id c)
       (bytes_of (show_int (c_id c) @ '' data '') @ bs))"

lemma set_buffer_simps [simp]:
  "g_broker (set_buffer g ci db mp) = g_broker g" "g_watchdog (set_buffer g ci db mp) = g_watchdog g"
  "g_client_tag (set_buffer g ci db mp) = g_client_tag g" "g_header_size (set_buffer g ci db mp) = g_header_size g"
  "g_hash (set_buffer g ci db mp) = g_hash g" "g_max_connection (set_buffer g ci db mp) = g_max_connection g"
  "g_listen_id (set_buffer g ci db mp) = g_listen_id g" "g_mp (set_buffer g ci db mp) = mp"
  "length (g_conn (set_buffer g ci db mp)) = length (g_conn g)"
  "ci < length (g_conn g) \<Longrightarrow> g_conn (set_buffer g ci db mp) ! ci = (g_conn g ! ci)\<lparr>c_buffer := db\<rparr>"
  "set_buffer (set_buffer g ci db mp) ci db' mp' = set_buffer g ci db' mp'"
  by (simp_all add: set_buffer_def nth_upd_if)

lemma set_buffer_same: "ci < length (g_conn g) \<Longrightarrow> set_buffer g ci (c_buffer (g_conn g ! ci)) (g_mp g) = g"
  by (simp add: set_buffer_def)

lemma has_receiver_set [simp]: "ci < length (g_conn g) \<Longrightarrow> has_receiver (set_buffer g ci db mp) ci = has_receiver g ci"
  by (simp add: has_receiver_def)

lemma packet_send_set [simp]: "ci < length (g_conn g) \<Longrightarrow> packet_send (set_buffer g ci db mp) ci = packet_send g ci"
  by (simp add: packet_send_def fun_eq_iff Let_def)

lemma forward_spec:
  assumes ci: "ci < length (g_conn g)" and rep: "db_rep (c_buffer (g_conn g ! ci)) (g_mp g) xs ys bs"
    and n: "0 < n" "n \<le> length bs"
  obtains db' mp' xs' ys' where
    "forward g ci (int n) = Some (set_buffer g ci db' mp', if has_receiver g ci then [packet_send g ci (take n bs)] else [])"
    "db_rep db' mp' xs' ys' (if has_receiver g ci then drop n bs else bs)"
    "frame (g_mp g) (set xs \<union> set ys) mp' (set xs' \<union> set ys')"
proof (cases "has_receiver g ci")
  case True
  obtain db' mp' xs' ys' where r: "databuffer_read (c_buffer (g_conn g ! ci)) (g_mp g) (int n) = Some (take n bs, db', mp')"
    "db_rep db' mp' xs' ys' (drop n bs)" "db_header db' = db_header (c_buffer (g_conn g ! ci))"
    "frame (g_mp g) (set xs \<union> set ys) mp' (set xs' \<union> set ys')"
    by (rule databuffer_read_nat [OF rep n])
  have "forward g ci (int n) = Some (set_buffer g ci db' mp', [packet_send g ci (take n bs)])"
    using True ci r(1) by (auto simp: forward_def has_receiver_def packet_send_def Let_def)
  with True r show ?thesis by (intro that [of db' mp' xs' ys']) simp_all
next
  case False
  have "forward g ci (int n) = Some (g, [])"
    using False ci by (auto simp: forward_def has_receiver_def Let_def not_less)
  with False rep set_buffer_same [OF ci] show ?thesis
    by (intro that [of "c_buffer (g_conn g ! ci)" "g_mp g" xs ys]) simp_all
qed

definition too_big_out :: "int \<Rightarrow> deframe_end \<Rightarrow> gate_out list" where
  "too_big_out uid e = (case e of Wait _ _ \<Rightarrow> [] | Too_big \<Rightarrow> [Socket_close uid, Log ''Recv socket message > 16M''])"

text \<open>What the loop leaves behind: the buffer of the connection in the state where the framing ended.\<close>

definition loop_post :: "gate \<Rightarrow> nat \<Rightarrow> addr list \<Rightarrow> addr list \<Rightarrow> deframe_end \<Rightarrow> databuffer \<Rightarrow> messagepool \<Rightarrow> bool" where
  "loop_post g ci xs ys e db' mp' \<longleftrightarrow> (\<exists>xs' ys' bs'. db_rep db' mp' xs' ys' bs' \<and>
     frame (g_mp g) (set xs \<union> set ys) mp' (set xs' \<union> set ys') \<and>
     (case e of Wait h r \<Rightarrow> db_header db' = h \<and> bs' = r | Too_big \<Rightarrow> db' = databuffer_zero \<and> bs' = []))"

lemma loop_post_mono:
  assumes "loop_post g1 ci xs1 ys1 e db' mp'" "frame (g_mp g) (set xs \<union> set ys) (g_mp g1) (set xs1 \<union> set ys1)"
  shows "loop_post g ci xs ys e db' mp'"
  using assms unfolding loop_post_def by (blast intro: frame_trans)

lemma packet_loop_spec:
  assumes "ci < length (g_conn g)" "db_rep (c_buffer (g_conn g ! ci)) (g_mp g) xs ys bs"
    and "g_header_size g = int hs" "0 < hs" "has_receiver g ci = taken" "db_header (c_buffer (g_conn g ! ci)) = h"
  shows "\<exists>db' mp'. packet_loop g ci uid out = Some (set_buffer g ci db' mp',
      out @ map (packet_send g ci) (fst (deframe taken hs h bs)) @ too_big_out uid (snd (deframe taken hs h bs))) \<and>
    loop_post g ci xs ys (snd (deframe taken hs h bs)) db' mp'"
  using assms
proof (induction taken hs h bs arbitrary: g xs ys out rule: deframe.induct)
  case (1 taken hs h bs)
  note ci = "1.prems"(1) and rep = "1.prems"(2) and hs = "1.prems"(3,4) and rcv = "1.prems"(5) and hd = "1.prems"(6)
  obtain db1 mp1 xs1 ys1 sz h1 bs1 where
    H: "databuffer_readheader (c_buffer (g_conn g ! ci)) (g_mp g) (int hs) = Some (sz, db1, mp1)"
      "header_spec hs h bs = (sz, h1, bs1)"
      "db_rep db1 mp1 xs1 ys1 bs1" "db_header db1 = h1" "frame (g_mp g) (set xs \<union> set ys) mp1 (set xs1 \<union> set ys1)"
    using databuffer_readheader_rep [OF rep hs(2)] hd by metis
  have szle: "0 < sz \<Longrightarrow> nat sz \<le> length bs1" using H(2) by (auto simp: header_spec_def split: if_splits)
  have sz0: "sz = 0 \<Longrightarrow> h1 = 0" using H(2) by (auto simp: header_spec_def split: if_splits)
  let ?g1 = "set_buffer g ci db1 mp1"
  have D: "deframe taken hs h bs = (if sz < 0 then ([], Wait h1 bs1) else if sz = 0 then deframe taken hs 0 bs1
     else if sz \<ge> 0x1000000 then ([], Too_big)
     else if taken then let (ps, e) = deframe taken hs 0 (drop (nat sz) bs1) in (take (nat sz) bs1 # ps, e)
     else deframe taken hs 0 bs1)"
    using H(2) hs(2) by (subst deframe.simps) simp
  have rep1: "db_rep (c_buffer (g_conn ?g1 ! ci)) (g_mp ?g1) xs1 ys1 bs1" using H(3) ci by simp
  have fr1: "frame (g_mp g) (set xs \<union> set ys) (g_mp ?g1) (set xs1 \<union> set ys1)" using H(5) by simp
  consider "sz < 0" | "sz = 0" | "sz \<ge> 0x1000000" | "0 < sz" "sz < 0x1000000" by linarith
  then show ?case
  proof cases
    case 1
    then have "packet_loop g ci uid out = Some (?g1, out)" using ci hs H(1) by (subst packet_loop.simps) (simp add: Let_def)
    moreover have "loop_post g ci xs ys (Wait h1 bs1) db1 mp1" using H(3-5) by (auto simp: loop_post_def)
    ultimately show ?thesis using 1 D by (auto simp: too_big_out_def)
  next
    case 2
    then have P: "packet_loop g ci uid out = packet_loop ?g1 ci uid out"
      using ci hs H(1) by (subst packet_loop.simps) (simp add: Let_def)
    obtain db' mp' where I: "packet_loop ?g1 ci uid out = Some (set_buffer ?g1 ci db' mp',
        out @ map (packet_send ?g1 ci) (fst (deframe taken hs 0 bs1)) @ too_big_out uid (snd (deframe taken hs 0 bs1)))"
      "loop_post ?g1 ci xs1 ys1 (snd (deframe taken hs 0 bs1)) db' mp'"
      using "1.IH"(1) [OF refl H(2) [symmetric] refl, of ?g1 xs1 ys1 out] rep1 2 hs ci rcv H(4) sz0 by auto
    then show ?thesis using P D 2 ci loop_post_mono [OF I(2) fr1] by auto
  next
    case 3
    obtain mp2 where c: "databuffer_clear db1 mp1 = Some (databuffer_zero, mp2)"
      "db_rep databuffer_zero mp2 [] (rev xs1 @ ys1) []" "frame mp1 (set xs1 \<union> set ys1) mp2 (set (rev xs1 @ ys1))"
      by (rule databuffer_clear_rep [OF H(3)])
    have "packet_loop g ci uid out = Some (set_buffer g ci databuffer_zero mp2, out @ too_big_out uid Too_big)"
      using ci hs H(1) c(1) 3 by (subst packet_loop.simps) (simp add: Let_def too_big_out_def)
    moreover have "frame (g_mp g) (set xs \<union> set ys) mp2 (set (rev xs1 @ ys1))" using H(5) c(3) by (rule frame_trans)
    then have "loop_post g ci xs ys Too_big databuffer_zero mp2"
      using c(2) unfolding loop_post_def by (intro exI [of _ "[]"] exI [of _ "rev xs1 @ ys1"]) simp
    ultimately show ?thesis using D 3 by auto
  next
    case 4
    let ?n = "nat sz"
    have n: "0 < ?n" "?n \<le> length bs1" "int ?n = sz" using 4 szle by auto
    have ci1: "ci < length (g_conn ?g1)" using ci by simp
    obtain db2 mp2 xs2 ys2 where F:
      "forward ?g1 ci (int ?n) = Some (set_buffer ?g1 ci db2 mp2, if has_receiver ?g1 ci then [packet_send ?g1 ci (take ?n bs1)] else [])"
      "db_rep db2 mp2 xs2 ys2 (if has_receiver ?g1 ci then drop ?n bs1 else bs1)"
      "frame (g_mp ?g1) (set xs1 \<union> set ys1) mp2 (set xs2 \<union> set ys2)"
      by (rule forward_spec [OF ci1 rep1 n(1,2)])
    let ?g2 = "set_buffer g ci (databuffer_reset db2) mp2"
    define o2 where "o2 = (if taken then [packet_send g ci (take ?n bs1)] else [])"
    define r2 where "r2 = (if taken then drop ?n bs1 else bs1)"
    have P: "packet_loop g ci uid out = packet_loop ?g2 ci uid (out @ o2)"
      using ci hs H(1) F(1) n(3) 4 rcv by (subst packet_loop.simps) (simp add: Let_def o2_def)
    have rep2: "db_rep (c_buffer (g_conn ?g2 ! ci)) (g_mp ?g2) xs2 ys2 r2"
      using databuffer_reset_rep [OF F(2)] ci rcv by (simp add: r2_def)
    have fr2: "frame (g_mp g) (set xs \<union> set ys) (g_mp ?g2) (set xs2 \<union> set ys2)"
      using fr1 F(3) by (auto intro: frame_trans)
    have IH: "\<exists>db' mp'. packet_loop ?g2 ci uid (out @ o2) = Some (set_buffer ?g2 ci db' mp',
        (out @ o2) @ map (packet_send ?g2 ci) (fst (deframe taken hs 0 r2)) @ too_big_out uid (snd (deframe taken hs 0 r2))) \<and>
        loop_post ?g2 ci xs2 ys2 (snd (deframe taken hs 0 r2)) db' mp'"
    proof (cases taken)
      case True
      then show ?thesis
        using "1.IH"(2) [OF refl H(2) [symmetric] refl, of ?g2 xs2 ys2 "out @ o2"] rep2 4 hs ci rcv
        by (simp add: r2_def databuffer_reset_def)
    next
      case False
      then show ?thesis
        using "1.IH"(3) [OF refl H(2) [symmetric] refl, of ?g2 xs2 ys2 "out @ o2"] rep2 4 hs ci rcv
        by (simp add: r2_def databuffer_reset_def)
    qed
    have "deframe taken hs h bs = (let (ps, e) = deframe taken hs 0 r2 in ((if taken then [take ?n bs1] else []) @ ps, e))"
      using D 4 by (auto simp: r2_def split: prod.split)
    then have fs: "fst (deframe taken hs h bs) = (if taken then [take ?n bs1] else []) @ fst (deframe taken hs 0 r2)"
      "snd (deframe taken hs h bs) = snd (deframe taken hs 0 r2)" by (simp_all split: prod.split)
    from IH obtain db' mp' where I: "packet_loop ?g2 ci uid (out @ o2) = Some (set_buffer ?g2 ci db' mp',
        (out @ o2) @ map (packet_send ?g2 ci) (fst (deframe taken hs 0 r2)) @ too_big_out uid (snd (deframe taken hs 0 r2)))"
      "loop_post ?g2 ci xs2 ys2 (snd (deframe taken hs 0 r2)) db' mp'" by blast
    show ?thesis unfolding fs using P I loop_post_mono [OF I(2) fr2] ci
      by (intro exI [of _ db'] exI [of _ mp']) (simp add: o2_def)
  qed
qed

text \<open>One received block: the packets it completes are forwarded.\<close>

lemma dispatch_message_spec:
  fixes data :: "u8 list"
  assumes ci: "ci < length (g_conn g)" and rep: "db_rep (c_buffer (g_conn g ! ci)) (g_mp g) xs ys bs"
    and hs: "g_header_size g = int hs" "0 < hs"
  defines "de \<equiv> deframe (has_receiver g ci) hs (db_header (c_buffer (g_conn g ! ci))) (bs @ data)"
  shows "\<exists>db' mp'. dispatch_message g ci uid data = Some (set_buffer g ci db' mp',
      map (packet_send g ci) (fst de) @ too_big_out uid (snd de)) \<and> loop_post g ci xs ys (snd de) db' mp'"
proof -
  obtain db1 mp1 xs1 ys1 where p: "databuffer_push (c_buffer (g_conn g ! ci)) (g_mp g) data = Some (db1, mp1)"
    "db_rep db1 mp1 xs1 ys1 (bs @ data)" "db_header db1 = db_header (c_buffer (g_conn g ! ci))"
    "frame (g_mp g) (set xs \<union> set ys) mp1 (set xs1 \<union> set ys1)"
    by (rule databuffer_push_rep [OF rep])
  let ?g1 = "set_buffer g ci db1 mp1"
  have "dispatch_message g ci uid data = packet_loop ?g1 ci uid []"
    using ci p(1) by (simp add: dispatch_message_def)
  moreover obtain db' mp' where I: "packet_loop ?g1 ci uid [] = Some (set_buffer g ci db' mp',
      map (packet_send g ci) (fst de) @ too_big_out uid (snd de))" "loop_post ?g1 ci xs1 ys1 (snd de) db' mp'"
    using packet_loop_spec [of ci ?g1 xs1 ys1 "bs @ data" hs "has_receiver g ci"
      "db_header (c_buffer (g_conn g ! ci))" uid "[]"] ci p hs by (auto simp: de_def)
  moreover have "loop_post g ci xs ys (snd de) db' mp'" by (rule loop_post_mono [OF I(2)]) (simp add: p(4))
  ultimately show ?thesis by (intro exI [of _ db'] exI [of _ mp']) simp
qed

lemma loop_post_bufs:
  assumes "bufs (g_conn g) (g_mp g) xss ys bss" "ci < length (g_conn g)" "loop_post g ci (xss ci) ys e db' mp'"
  shows "\<exists>xs' ys' bs'. bufs (g_conn (set_buffer g ci db' mp')) mp' (xss(ci := xs')) ys' (bss(ci := bs')) \<and>
    (case e of Wait h r \<Rightarrow> bs' = r \<and> db_header db' = h | Too_big \<Rightarrow> bs' = [] \<and> db' = databuffer_zero)"
proof -
  from assms(3) obtain xs' ys' bs' where x: "db_rep db' mp' xs' ys' bs'"
    "frame (g_mp g) (set (xss ci) \<union> set ys) mp' (set xs' \<union> set ys')"
    "case e of Wait h r \<Rightarrow> db_header db' = h \<and> bs' = r | Too_big \<Rightarrow> db' = databuffer_zero \<and> bs' = []"
    by (auto simp: loop_post_def)
  have "db_rep (c_buffer ((g_conn g ! ci)\<lparr>c_buffer := db'\<rparr>)) mp' xs' ys' bs'" using x(1) by simp
  from bufs_upd [OF assms(1,2) this x(2)] x(3) show ?thesis
    by (auto simp: set_buffer_def split: deframe_end.splits)
qed

lemma gate_inv_set_buffer:
  assumes inv: "gate_inv g" and slot: "hashid_slot (g_hash g) uid = Some ci"
    and B: "bufs (g_conn (set_buffer g ci db mp)) mp xss ys bss"
  shows "gate_inv (set_buffer g ci db mp)"
proof -
  have ci: "ci \<in> ran (hashid_slot (g_hash g))" using slot by (auto simp: ran_def)
  have "c_id (g_conn (set_buffer g ci db mp) ! i) = c_id (g_conn g ! i)" for i
    by (simp add: set_buffer_def nth_upd_if)
  moreover have "i \<notin> ran (hashid_slot (g_hash g)) \<Longrightarrow>
      c_buffer (g_conn (set_buffer g ci db mp) ! i) = c_buffer (g_conn g ! i)" for i
    using ci by (auto simp: set_buffer_def nth_upd_if)
  ultimately show ?thesis using inv B ci unfolding gate_inv_def
    by (auto 0 3)
qed

lemma gate_inv_hs: "gate_inv g \<Longrightarrow> \<exists>hs. g_header_size g = int hs \<and> 0 < hs"
  by (auto simp: gate_inv_def intro: exI [of _ 2] exI [of _ 4])

lemma gate_slot_less: "gate_inv g \<Longrightarrow> hashid_slot (g_hash g) uid = Some ci \<Longrightarrow> ci < length (g_conn g)"
  using hid.slot_less [of "g_hash g" uid ci] by (simp add: gate_inv_def)

lemma dispatch_message_inv:
  assumes inv: "gate_inv g" and slot: "hashid_slot (g_hash g) uid = Some ci"
  shows "\<exists>g' out. dispatch_message g ci uid' data = Some (g', out) \<and> gate_inv g' \<and> g_hash g' = g_hash g"
proof -
  have ci: "ci < length (g_conn g)" using gate_slot_less [OF inv slot] .
  from inv obtain xss ys bss where B: "bufs (g_conn g) (g_mp g) xss ys bss" by (auto simp: gate_inv_def)
  then have rep: "db_rep (c_buffer (g_conn g ! ci)) (g_mp g) (xss ci) ys (bss ci)" using ci by (simp add: bufs_def)
  obtain hs where hs: "g_header_size g = int hs" "0 < hs" using gate_inv_hs [OF inv] by blast
  from dispatch_message_spec [OF ci rep hs] loop_post_bufs [OF B ci]
  obtain db' mp' xss' ys' bss' out where "dispatch_message g ci uid' data = Some (set_buffer g ci db' mp', out)"
    "bufs (g_conn (set_buffer g ci db' mp')) mp' xss' ys' bss'" by metis
  with gate_inv_set_buffer [OF inv slot] show ?thesis by auto
qed

subsection \<open>The handlers keep the invariant\<close>

lemma socket_close_inv:
  assumes inv: "gate_inv g"
  shows "\<exists>g' out. socket_close_message g uid = Some (g', out) \<and> gate_inv g' \<and>
    hashid_slot (g_hash g') = (hashid_slot (g_hash g))(uid := None)"
proof (cases "hashid_slot (g_hash g) uid")
  case None
  have "hashid_inv (g_hash g)" using inv by (simp add: gate_inv_def)
  from hid.remove_unknown [OF this None] have "socket_close_message g uid = Some (g, [])"
    by (simp add: socket_close_message_def)
  moreover have "hashid_slot (g_hash g) = (hashid_slot (g_hash g))(uid := None)" using None by auto
  ultimately show ?thesis using inv by auto
next
  case (Some i)
  have hinv: "hashid_inv (g_hash g)" using inv by (simp add: gate_inv_def)
  obtain h' where h': "hashid_remove (g_hash g) uid = Some (int i, h')" "hashid_inv h'" "hi_cap h' = hi_cap (g_hash g)"
    "hashid_slot h' = (hashid_slot (g_hash g))(uid := None)" using hid.remove_known [OF hinv Some] by blast
  have i: "i < length (g_conn g)" using gate_slot_less [OF inv Some] .
  from inv obtain xss ys bss where B: "bufs (g_conn g) (g_mp g) xss ys bss" by (auto simp: gate_inv_def)
  then have rep: "db_rep (c_buffer (g_conn g ! i)) (g_mp g) (xss i) ys (bss i)" using i by (simp add: bufs_def)
  obtain mp' where mp': "databuffer_clear (c_buffer (g_conn g ! i)) (g_mp g) = Some (databuffer_zero, mp')"
    "db_rep databuffer_zero mp' [] (rev (xss i) @ ys) []"
    "frame (g_mp g) (set (xss i) \<union> set ys) mp' (set (rev (xss i) @ ys))"
    by (rule databuffer_clear_rep [OF rep])
  let ?c = "connection_zero\<lparr>c_id := - 1\<rparr>"
  let ?g = "g\<lparr>g_hash := h', g_conn := (g_conn g)[i := ?c], g_mp := mp'\<rparr>"
  have "socket_close_message g uid = Some (?g, report ?g (show_int uid @ '' close''))"
    using h'(1) i mp'(1) by (simp add: socket_close_message_def Let_def)
  moreover have "db_rep (c_buffer ?c) mp' [] (rev (xss i) @ ys) []" using mp'(2) by (simp add: connection_zero_def)
  then have B': "bufs (g_conn ?g) (g_mp ?g) (xss(i := [])) (rev (xss i) @ ys) (bss(i := []))"
    using bufs_upd [OF B i, of ?c mp' "[]" "rev (xss i) @ ys" "[]"] mp'(3) by simp
  have other: "j \<noteq> i" if "hashid_slot h' x = Some j" for x j
    using that h'(4) hid.slot_inj [OF hinv Some, of x] by (auto split: if_splits)
  have "gate_inv ?g"
    unfolding gate_inv_def
  proof (intro conjI allI impI)
    show "c_id (g_conn ?g ! j) = x" if "hashid_slot (g_hash ?g) x = Some j" for x j
    proof -
      have "j \<noteq> i" "hashid_slot (g_hash g) x = Some j" using that other [of x j] h'(4) by (auto split: if_splits)
      with inv show ?thesis by (simp add: gate_inv_def)
    qed
    fix j assume j: "j < length (g_conn ?g)" "j \<notin> ran (hashid_slot (g_hash ?g))"
    have "j \<notin> ran (hashid_slot (g_hash g))" if "j \<noteq> i"
      using j(2) that Some h'(4) by (auto simp: ran_def split: if_splits) (metis option.inject)
    then show "c_id (g_conn ?g ! j) = - 1" "c_buffer (g_conn ?g ! j) = databuffer_zero"
      using j(1) inv by (auto simp: gate_inv_def nth_upd_if connection_zero_def)
  qed (use inv h' B' in \<open>auto simp: gate_inv_def\<close>)
  ultimately show ?thesis using h'(4) by auto
qed

lemma socket_accept_inv:
  assumes inv: "gate_inv g" and lid: "sm_id m = g_listen_id g"
    and ud: "0 \<le> sm_ud m" "sm_ud m + hi_cap (g_hash g) \<le> 2 ^ 31" "hashid_slot (g_hash g) (sm_ud m) = None"
  shows "\<exists>g' out. socket_accept_message g m = Some (g', out) \<and> gate_inv g'"
proof (cases "hashid_full (g_hash g)")
  case True
  then show ?thesis using inv lid by (simp add: socket_accept_message_def)
next
  case False
  have hinv: "hashid_inv (g_hash g)" using inv by (simp add: gate_inv_def)
  obtain i h' where h': "hashid_insert (g_hash g) (sm_ud m) = Some (int i, h')" "hashid_inv h'"
    "hi_cap h' = hi_cap (g_hash g)" "hashid_slot h' = (hashid_slot (g_hash g))(sm_ud m \<mapsto> i)"
    using hid.insert_ok [OF hinv False ud] by blast
  have "int i < hi_cap h'" using hid.slot_less [OF h'(2), of "sm_ud m" i] h'(4) by simp
  then have i: "i < length (g_conn g)" using inv h'(3) by (simp add: gate_inv_def)
  have fresh: "hashid_slot (g_hash g) x \<noteq> Some i" for x
    by (rule hid.insert_fresh [OF hinv h'(1) False ud])
  let ?c = "(g_conn g ! i)\<lparr>c_id := sm_ud m, c_remote_name := take 31 (sm_padding m) @ [NUL]\<rparr>"
  let ?g = "g\<lparr>g_hash := h', g_conn := (g_conn g)[i := ?c]\<rparr>"
  obtain out where out: "socket_accept_message g m = Some (?g, out)"
    using h'(1) i lid False by (simp add: socket_accept_message_def Let_def)
  from inv obtain xss ys bss where B: "bufs (g_conn g) (g_mp g) xss ys bss" by (auto simp: gate_inv_def)
  have B': "bufs (g_conn ?g) (g_mp ?g) xss ys bss" using bufs_same [OF B, of ?c i] by simp
  have "gate_inv ?g"
    unfolding gate_inv_def
  proof (intro conjI allI impI)
    show "c_id (g_conn ?g ! j) = x" if "hashid_slot (g_hash ?g) x = Some j" for x j
      using that fresh [of x] inv h'(4) i by (auto simp: gate_inv_def nth_upd_if split: if_splits)
    fix j assume j: "j < length (g_conn ?g)" "j \<notin> ran (hashid_slot (g_hash ?g))"
    then have "j \<noteq> i" "j \<notin> ran (hashid_slot (g_hash g))"
      by (simp_all add: h'(4) ran_map_upd [of "hashid_slot (g_hash g)" "sm_ud m" i, OF ud(3)])
    then show "c_id (g_conn ?g ! j) = - 1" "c_buffer (g_conn ?g ! j) = databuffer_zero"
      using j(1) inv by (auto simp: gate_inv_def)
  qed (use inv h' B' in \<open>auto simp: gate_inv_def\<close>)
  with out show ?thesis by auto
qed

text \<open>The socket messages the framework sends: an accepted socket has a new id below the bound.  A
  connection has at most \<open>2 ^ 31 - 1\<close> bytes unread, which is what \<open>int size\<close> of its buffer can count.\<close>

definition socket_message_ok :: "gate \<Rightarrow> socket_message \<Rightarrow> bool" where
  "socket_message_ok g m \<longleftrightarrow>
     (sm_type m = SKYNET_SOCKET_TYPE_ACCEPT \<longrightarrow> 0 \<le> sm_ud m \<and> sm_ud m + hi_cap (g_hash g) \<le> 2 ^ 31 \<and>
        hashid_lookup (g_hash g) (sm_ud m) = Some (- 1)) \<and>
     (\<forall>i. sm_type m = SKYNET_SOCKET_TYPE_DATA \<and> hashid_lookup (g_hash g) (sm_id m) = Some (int i) \<longrightarrow>
        db_size (c_buffer (g_conn g ! i)) + int (length (sm_buffer m)) < 2 ^ 31)"

text \<open>The \<open>assert\<close> on the listening socket.\<close>

definition stray_accept :: "gate \<Rightarrow> socket_message \<Rightarrow> bool" where
  "stray_accept g m \<longleftrightarrow> sm_type m = SKYNET_SOCKET_TYPE_ACCEPT \<and> sm_id m \<noteq> g_listen_id g"

lemma gate_lookup:
  assumes "gate_inv g"
  shows "hashid_lookup (g_hash g) x = Some (case hashid_slot (g_hash g) x of None \<Rightarrow> - 1 | Some i \<Rightarrow> int i)"
  using assms hid.lookup_ok by (simp add: gate_inv_def)

lemma dispatch_socket_inv:
  assumes inv: "gate_inv g" and ok: "socket_message_ok g m" and listen: "\<not> stray_accept g m"
  shows "\<exists>g' out. dispatch_socket_message g m = Some (g', out) \<and> gate_inv g'"
proof -
  note lk = gate_lookup [OF inv]
  consider "sm_type m = SKYNET_SOCKET_TYPE_DATA" | "sm_type m = SKYNET_SOCKET_TYPE_ACCEPT"
    | "sm_type m = SKYNET_SOCKET_TYPE_CLOSE \<or> sm_type m = SKYNET_SOCKET_TYPE_ERROR"
    | "sm_type m \<notin> {SKYNET_SOCKET_TYPE_DATA, SKYNET_SOCKET_TYPE_ACCEPT, SKYNET_SOCKET_TYPE_CLOSE, SKYNET_SOCKET_TYPE_ERROR}"
    by blast
  then show ?thesis
  proof cases
    case 1
    then show ?thesis using inv dispatch_message_inv [OF inv]
      by (cases "hashid_slot (g_hash g) (sm_id m)") (fastforce simp: dispatch_socket_message_def lk)+
  next
    case 2
    then have "hashid_slot (g_hash g) (sm_ud m) = None" "sm_id m = g_listen_id g" "0 \<le> sm_ud m"
      "sm_ud m + hi_cap (g_hash g) \<le> 2 ^ 31"
      using ok listen by (auto simp: socket_message_ok_def stray_accept_def lk split: option.splits)
    with socket_accept_inv [OF inv] 2 show ?thesis by (simp add: dispatch_socket_message_def socket_types)
  next
    case 3
    with socket_close_inv [OF inv, of "sm_id m"] show ?thesis by (auto simp: dispatch_socket_message_def socket_types)
  next
    case 4
    with inv show ?thesis by (auto simp: dispatch_socket_message_def lk)
  qed
qed

lemma dispatch_stray_accept: "stray_accept g m \<Longrightarrow> dispatch_socket_message g m = None"
  by (simp add: stray_accept_def dispatch_socket_message_def socket_accept_message_def socket_types)

lemma gate_inv_simple:
  assumes "gate_inv g"
  shows "gate_inv (g\<lparr>g_broker := b\<rparr>)" "gate_inv (g\<lparr>g_listen_id := l\<rparr>)"
  using assms by (simp_all add: gate_inv_def)

lemma forward_agent_inv:
  assumes inv: "gate_inv g" and F: "forward_agent g fd a c = Some g'"
  shows "gate_inv g'"
proof (cases "hashid_slot (g_hash g) fd")
  case None
  then show ?thesis using F inv by (simp add: forward_agent_def gate_lookup [OF inv])
next
  case (Some i)
  let ?c = "(g_conn g ! i)\<lparr>c_agent := a, c_client := c\<rparr>"
  have "i < length (g_conn g)" using gate_slot_less [OF inv Some] .
  then have g': "g' = g\<lparr>g_conn := (g_conn g)[i := ?c]\<rparr>"
    using F Some by (simp add: forward_agent_def gate_lookup [OF inv])
  have "c_id ((g_conn g)[i := ?c] ! j) = c_id (g_conn g ! j)" "c_buffer ((g_conn g)[i := ?c] ! j) = c_buffer (g_conn g ! j)" for j
    by (simp_all add: nth_upd_if)
  moreover obtain xss ys bss where "bufs (g_conn g) (g_mp g) xss ys bss" using inv by (auto simp: gate_inv_def)
  then have "bufs ((g_conn g)[i := ?c]) (g_mp g) xss ys bss" by (rule bufs_same) simp
  ultimately show ?thesis using inv unfolding gate_inv_def g' by auto
qed

lemma ctrl_inv:
  assumes inv: "gate_inv g" and "ctrl queryname g msg = Some (g', out)"
  shows "gate_inv g'"
proof -
  have K: "g1 = g" if "ctrl_kick g t = Some (g1, o1)" for t g1 o1
    using that by (auto simp: ctrl_kick_def bind_Some_iff Let_def)
  have S: "g1 = g" if "ctrl_start g t = Some (g1, o1)" for t g1 o1
    using that by (auto simp: ctrl_start_def bind_Some_iff Let_def)
  have F: "gate_inv g1" if "ctrl_forward g t = Some (g1, o1)" for t g1 o1
    using that inv forward_agent_inv [OF inv]
    by (auto simp: ctrl_forward_def bind_Some_iff Let_def split: option.splits)
  show ?thesis using assms(2) inv gate_inv_simple [OF inv]
    by (auto simp: ctrl_def Let_def bind_Some_iff dest: K S F split: if_splits)
qed

lemma cb_inv:
  assumes inv: "gate_inv g" and "\<And>m. msg = Socket m \<Longrightarrow> socket_message_ok g m"
    and "cb queryname g src msg = Some (r, g', out)"
  shows "gate_inv g'"
proof (cases msg)
  case (Text s)
  then show ?thesis using assms(3) ctrl_inv [OF inv] by (auto simp: cb_def bind_Some_iff)
next
  case (Client bs)
  then show ?thesis using assms(3) inv by (auto simp: cb_def bind_Some_iff Let_def split: if_splits)
next
  case (Socket m)
  with assms(3) have "\<not> stray_accept g m" using dispatch_stray_accept [of g m] by (auto simp: cb_def)
  with Socket assms(3) dispatch_socket_inv [OF inv assms(2) [OF Socket]] show ?thesis by (auto simp: cb_def)
next
  case (Other t)
  then show ?thesis using assms(3) inv by (simp add: cb_def)
qed

lemma gate_inv_init:
  assumes "gate_init queryname listen gate_create (Some arg) = (0, g, out)"
  shows "gate_inv g"
proof -
  from assms obtain header watchdog binding tag mx where sp: "scan_parm arg = Some (header, watchdog, binding, tag, mx)"
    by (auto simp: gate_init_def split: option.splits)
  with assms have mx: "0 < mx" by (auto simp: gate_init_def split: if_splits)
  have rep: "bufs (replicate (nat mx) (connection_zero\<lparr>c_id := - 1\<rparr>)) messagepool_zero (\<lambda>_. []) [] (\<lambda>_. [])"
    using db_rep_init by (simp add: bufs_def connection_zero_def)
  have sl: "g_hash h' = g_hash h \<and> g_conn h' = g_conn h \<and> g_max_connection h' = g_max_connection h \<and>
      g_header_size h' = g_header_size h \<and> g_mp h' = g_mp h" if "start_listen listen h b = (r, h', o')" for h b r h' o'
    using that by (auto simp: start_listen_def Let_def split: option.splits if_splits)
  have "g_hash g = hashid_init mx \<and> g_conn g = replicate (nat mx) (connection_zero\<lparr>c_id := - 1\<rparr>) \<and>
      g_max_connection g = mx \<and> g_header_size g = (if header = CHR ''S'' then 2 else 4) \<and> g_mp g = messagepool_zero"
    using assms sp mx by (auto simp: gate_init_def Let_def gate_create_def split: if_splits prod.splits dest!: sl)
  then show ?thesis
    using mx rep hashid_init_inv [of mx] hashid_init_slot [of mx]
    by (auto simp: gate_inv_def hashid_init_def Let_def connection_zero_def)
qed

subsection \<open>Streams\<close>

lemma header_spec_append:
  "\<not> (h = 0 \<and> length bs < hs) \<Longrightarrow> header_spec hs h bs = (sz, h', bs') \<Longrightarrow>
    header_spec hs h (bs @ data) = (if int (length bs' + length data) < h' then - 1 else h', h', bs' @ data)"
  by (auto simp: header_spec_def Let_def split: if_splits)

lemma header_spec_pending:
  "h \<noteq> 0 \<Longrightarrow> header_spec hs h bs = (if int (length bs) < h then - 1 else h, h, bs)"
  by (simp add: header_spec_def)

text \<open>Framing a prefix of the stream first changes nothing.\<close>

lemma deframe_append:
  "0 < hs \<Longrightarrow> (case deframe t hs h bs of
      (ps, Wait h1 r1) \<Rightarrow> deframe t hs h (bs @ data) =
        (ps @ fst (deframe t hs h1 (r1 @ data)), snd (deframe t hs h1 (r1 @ data)))
    | (ps, Too_big) \<Rightarrow> snd (deframe t hs h (bs @ data)) = Too_big)"
proof (induction t hs h bs rule: deframe.induct)
  case (1 t hs h bs)
  obtain sz h' bs' where H: "header_spec hs h bs = (sz, h', bs')" by (cases "header_spec hs h bs")
  show ?case
  proof (cases "h = 0 \<and> length bs < hs")
    case True
    then have "deframe t hs h bs = ([], Wait h bs)" by (subst deframe.simps) (simp add: header_spec_def)
    then show ?thesis by simp
  next
    case False
    note HA = header_spec_append [OF False H]
    have sz: "sz = (if int (length bs') < h' then - 1 else h')"
      using H False by (auto simp: header_spec_def split: if_splits)
    consider "sz < 0" | "sz = 0" | "sz \<ge> 0x1000000" | "0 < sz" "sz < 0x1000000" by linarith
    then show ?thesis
    proof cases
      case 1
      then have D: "deframe t hs h bs = ([], Wait h' bs')" using H by (subst deframe.simps) simp
      have "h' \<noteq> 0" using 1 sz by auto
      then have "header_spec hs h' (bs' @ data) = header_spec hs h (bs @ data)"
        using HA by (simp add: header_spec_pending)
      then have "deframe t hs h' (bs' @ data) = deframe t hs h (bs @ data)"
        by (subst (1 2) deframe.simps) simp
      with D show ?thesis by simp
    next
      case 2
      then have "h' = 0" using sz by (auto split: if_splits)
      then have "deframe t hs h (bs @ data) = deframe t hs 0 (bs' @ data)"
        using HA "1.prems" by (subst deframe.simps) simp
      moreover have "deframe t hs h bs = deframe t hs 0 bs'" using 2 H "1.prems" by (subst deframe.simps) simp
      ultimately show ?thesis using "1.IH"(1) [OF refl H [symmetric] refl] 2 "1.prems"
        by (auto split: prod.splits deframe_end.splits)
    next
      case 3
      then have "deframe t hs h bs = ([], Too_big)" using H "1.prems" by (subst deframe.simps) simp
      moreover have "h' = sz" "\<not> int (length bs' + length data) < h'" using 3 sz by (auto split: if_splits)
      then have "deframe t hs h (bs @ data) = ([], Too_big)" using HA 3 "1.prems" by (subst deframe.simps) simp
      ultimately show ?thesis by simp
    next
      case 4
      then have h': "h' = sz" "\<not> int (length bs' + length data) < h'" "nat sz \<le> length bs'" using sz by (auto split: if_splits)
      show ?thesis
      proof (cases t)
        case True
        have "deframe t hs h (bs @ data) = (let (ps, e) = deframe t hs 0 (drop (nat sz) bs' @ data) in (take (nat sz) bs' # ps, e))"
          using HA h' 4 True "1.prems" by (subst deframe.simps) simp
        moreover have "deframe t hs h bs = (let (ps, e) = deframe t hs 0 (drop (nat sz) bs') in (take (nat sz) bs' # ps, e))"
          using H 4 True "1.prems" by (subst deframe.simps) simp
        moreover have IH: "case deframe t hs 0 (drop (nat sz) bs') of
          (ps, Wait h1 r1) \<Rightarrow> deframe t hs 0 (drop (nat sz) bs' @ data) =
             (ps @ fst (deframe t hs h1 (r1 @ data)), snd (deframe t hs h1 (r1 @ data)))
          | (ps, Too_big) \<Rightarrow> snd (deframe t hs 0 (drop (nat sz) bs' @ data)) = Too_big"
          using "1.IH"(2) [OF refl H [symmetric] refl] 4 True "1.prems"
          by (auto split: prod.splits deframe_end.splits)
        ultimately show ?thesis
          by (cases "deframe t hs 0 (drop (nat sz) bs')"; cases "snd (deframe t hs 0 (drop (nat sz) bs'))")
             (auto split: prod.splits)
      next
        case False
        have "deframe t hs h (bs @ data) = deframe t hs 0 (bs' @ data)"
          using HA h' 4 False "1.prems" by (subst deframe.simps) simp
        moreover have "deframe t hs h bs = deframe t hs 0 bs'"
          using H 4 False "1.prems" by (subst deframe.simps) simp
        ultimately show ?thesis using "1.IH"(3) [OF refl H [symmetric] refl] 4 False "1.prems"
          by (auto split: prod.splits deframe_end.splits)
      qed
    qed
  qed
qed

text \<open>Where the framing waits for more bytes, framing again finds nothing.\<close>

lemma deframe_wait: "0 < hs \<Longrightarrow> deframe t hs h bs = (ps, Wait h1 r1) \<Longrightarrow> deframe t hs h1 r1 = ([], Wait h1 r1)"
proof (induction t hs h bs arbitrary: ps rule: deframe.induct)
  case (1 t hs h bs)
  obtain sz h' bs' where H: "header_spec hs h bs = (sz, h', bs')" by (cases "header_spec hs h bs")
  have D: "deframe t hs h bs = (if sz < 0 then ([], Wait h' bs') else if sz = 0 then deframe t hs 0 bs'
     else if sz \<ge> 0x1000000 then ([], Too_big)
     else if t then let (ps, e) = deframe t hs 0 (drop (nat sz) bs') in (take (nat sz) bs' # ps, e)
     else deframe t hs 0 bs')"
    using H "1.prems" by (subst deframe.simps) simp
  consider "sz < 0" | "sz = 0" | "sz \<ge> 0x1000000" | "0 < sz" "sz < 0x1000000" by linarith
  then show ?case
  proof cases
    case 1
    then have r: "h1 = h'" "r1 = bs'" using D "1.prems"(2) by auto
    show ?thesis
    proof (cases "h' = 0")
      case True
      then have "h = 0 \<and> length bs < hs \<and> bs' = bs" using H 1 by (auto simp: header_spec_def split: if_splits)
      with r True show ?thesis by (subst deframe.simps) (simp add: header_spec_def)
    next
      case False
      then have "header_spec hs h' bs' = (sz, h', bs')" using H 1 by (auto simp: header_spec_def split: if_splits)
      with r 1 show ?thesis by (subst deframe.simps) simp
    qed
  next
    case 2
    then have "deframe t hs 0 bs' = (ps, Wait h1 r1)" using D "1.prems" by simp
    with "1.IH"(1) [OF refl H [symmetric] refl] 2 "1.prems"(1) show ?thesis by simp
  next
    case 3
    with D "1.prems" show ?thesis by simp
  next
    case 4
    then show ?thesis using "1.IH"(2,3) [OF refl H [symmetric] refl] D "1.prems" by (cases t) (auto split: prod.splits)
  qed
qed

definition encode_packet :: "nat \<Rightarrow> u8 list \<Rightarrow> u8 list" where
  "encode_packet hs p = encode_header hs (length p) @ p"

text \<open>The lengths the wire format of the gate can carry.\<close>

definition packet_fits :: "nat \<Rightarrow> u8 list \<Rightarrow> bool" where
  "packet_fits hs p \<longleftrightarrow> hs = 2 \<and> length p < 2 ^ 16 \<or> hs = 4 \<and> length p < 2 ^ 24"

lemma deframe_encode:
  "list_all (packet_fits hs) ps \<Longrightarrow> hs = 2 \<or> hs = 4 \<Longrightarrow>
    deframe True hs 0 (concat (map (encode_packet hs) ps)) = (filter (\<lambda>p. p \<noteq> []) ps, Wait 0 [])"
proof (induction ps)
  case Nil
  then show ?case by (subst deframe.simps) (auto simp: header_spec_def)
next
  case (Cons p ps)
  let ?rest = "concat (map (encode_packet hs) ps)"
  have len: "length (encode_header hs (length p)) = hs" using Cons.prems(2) by (rule length_encode_header)
  have v: "header_value (encode_header hs (length p)) (int hs) = int (length p)"
    using Cons.prems(1) by (intro header_value_encode) (auto simp: packet_fits_def)
  have H: "header_spec hs 0 (concat (map (encode_packet hs) (p # ps))) = (int (length p), int (length p), p @ ?rest)"
    using len v by (simp add: header_spec_def encode_packet_def)
  have small: "int (length p) < 0x1000000" using Cons.prems(1) by (auto simp: packet_fits_def)
  from H small Cons show ?case by (subst deframe.simps) auto
qed

text \<open>The blocks of one connection's byte stream, one socket message each.\<close>

definition data_message :: "int \<Rightarrow> u8 list \<Rightarrow> socket_message" where
  "data_message uid d = \<lparr>sm_type = SKYNET_SOCKET_TYPE_DATA, sm_id = uid, sm_ud = int (length d), sm_buffer = d, sm_padding = []\<rparr>"

fun gate_feed :: "gate \<Rightarrow> int \<Rightarrow> u8 list list \<Rightarrow> (gate \<times> gate_out list) option" where
  "gate_feed g uid [] = Some (g, [])"
| "gate_feed g uid (d # ds) = do {
     (g, o1) \<leftarrow> dispatch_socket_message g (data_message uid d);
     (g, o2) \<leftarrow> gate_feed g uid ds;
     Some (g, o1 @ o2) }"

lemma gate_feed_spec:
  assumes "gate_inv g" "hashid_slot (g_hash g) uid = Some ci"
    and "bufs (g_conn g) (g_mp g) xss ys bss" "g_header_size g = int hs" "0 < hs"
    and "deframe (has_receiver g ci) hs (db_header (c_buffer (g_conn g ! ci))) (bss ci @ concat ds) = (ps, Wait h r)"
    and "deframe (has_receiver g ci) hs (db_header (c_buffer (g_conn g ! ci))) (bss ci) =
      ([], Wait (db_header (c_buffer (g_conn g ! ci))) (bss ci))"
  shows "\<exists>g'. gate_feed g uid ds = Some (g', map (packet_send g ci) ps) \<and> gate_inv g' \<and> g_hash g' = g_hash g"
  using assms
proof (induction ds arbitrary: g xss ys bss ps)
  case Nil
  then show ?case by auto
next
  case (Cons d ds)
  note inv = Cons.prems(1) and slot = Cons.prems(2) and B = Cons.prems(3) and hs = Cons.prems(4,5)
  have ci: "ci < length (g_conn g)" using gate_slot_less [OF inv slot] .
  have rep: "db_rep (c_buffer (g_conn g ! ci)) (g_mp g) (xss ci) ys (bss ci)" using B ci by (simp add: bufs_def)
  let ?t = "has_receiver g ci" and ?h = "db_header (c_buffer (g_conn g ! ci))"
  let ?de = "deframe ?t hs ?h (bss ci @ d)"
  obtain db' mp' where D: "dispatch_message g ci uid d = Some (set_buffer g ci db' mp',
      map (packet_send g ci) (fst ?de) @ too_big_out uid (snd ?de))" "loop_post g ci (xss ci) ys (snd ?de) db' mp'"
    using dispatch_message_spec [OF ci rep hs] by blast
  have all: "deframe ?t hs ?h ((bss ci @ d) @ concat ds) = (ps, Wait h r)" using Cons.prems(6) by simp
  note app = deframe_append [OF hs(2), of ?t ?h "bss ci @ d" "concat ds"]
  obtain ps1 h1 r1 where e: "?de = (ps1, Wait h1 r1)"
    using app all by (cases ?de; cases "snd ?de") auto
  let ?g = "set_buffer g ci db' mp'"
  obtain xss' ys' bss' where B': "bufs (g_conn ?g) mp' xss' ys' bss'" "bss' ci = r1" "db_header db' = h1"
    using loop_post_bufs [OF B ci D(2)] e by (auto intro: fun_upd_same)
  have inv': "gate_inv ?g" by (rule gate_inv_set_buffer [OF inv slot B'(1)])
  have rest: "deframe ?t hs h1 r1 = ([], Wait h1 r1)"
    using deframe_wait [OF hs(2) e] .
  obtain ps2 where ps2: "deframe ?t hs h1 (r1 @ concat ds) = (ps2, Wait h r)" "ps = ps1 @ ps2"
    using app all e by (cases "deframe ?t hs h1 (r1 @ concat ds)") auto
  with Cons.IH [OF inv', of xss' ys' bss' ps2] slot B' hs ci rest
  obtain g' where g': "gate_feed ?g uid ds = Some (g', map (packet_send ?g ci) ps2)" "gate_inv g'"
    "g_hash g' = g_hash ?g" by auto
  have "dispatch_socket_message g (data_message uid d) = Some (?g, map (packet_send g ci) ps1)"
    using D(1) e slot by (simp add: dispatch_socket_message_def data_message_def gate_lookup [OF inv] too_big_out_def)
  with g' ps2(2) show ?case using ci by simp
qed

subsection \<open>Properties\<close>

lemma db_rep_zero_empty: "db_rep databuffer_zero mp xs ys bs \<Longrightarrow> bs = []"
  by (simp add: db_rep_def databuffer_zero_def)

lemma gate_known:
  assumes "gate_inv g" "hashid_lookup (g_hash g) uid = Some (int ci)"
  shows "hashid_slot (g_hash g) uid = Some ci" "ci < length (g_conn g)"
  using assms gate_slot_less by (auto simp: gate_lookup split: option.splits)

text \<open>C5: However the bytes of a connection's stream of packets are cut into received blocks, the gate
  forwards exactly the non-empty packets, whole and in order, each in one message to the receiver
  of the connection, and keeps its invariant.\<close>

theorem gate_stream_packets:
  assumes "gate_inv g" "hashid_lookup (g_hash g) uid = Some (int ci)"
    and "c_buffer (g_conn g ! ci) = databuffer_zero" "has_receiver g ci" "g_header_size g = int hs"
    and "list_all (packet_fits hs) ps" "concat ds = concat (map (encode_packet hs) ps)"
  shows "\<exists>g'. gate_feed g uid ds = Some (g', map (packet_send g ci) (filter (\<lambda>p. p \<noteq> []) ps)) \<and> gate_inv g'"
proof -
  note kn = gate_known [OF assms(1,2)]
  from assms(1) obtain xss ys bss where B: "bufs (g_conn g) (g_mp g) xss ys bss" by (auto simp: gate_inv_def)
  then have "db_rep databuffer_zero (g_mp g) (xss ci) ys (bss ci)" using kn(2) assms(3) by (auto simp: bufs_def)
  then have nil: "bss ci = []" by (rule db_rep_zero_empty)
  have hs: "hs = 2 \<or> hs = 4" "0 < hs" using assms(1,5) by (auto simp: gate_inv_def)
  have z: "db_header (c_buffer (g_conn g ! ci)) = 0" using assms(3) by (simp add: databuffer_zero_def)
  have e: "deframe True hs 0 (concat ds) = (filter (\<lambda>p. p \<noteq> []) ps, Wait 0 [])"
    unfolding assms(7) using assms(6) hs(1) by (rule deframe_encode)
  have w: "deframe True hs 0 [] = ([], Wait 0 [])" using deframe_wait [OF hs(2) e] .
  from gate_feed_spec [OF assms(1) kn(1) B assms(5) hs(2), of ds] e w nil z assms(4) show ?thesis by auto
qed

text \<open>A small gate with one accepted connection, for the witnesses.\<close>

definition sample_hash :: hashid where
  "sample_hash = \<lparr>hi_hashmod = 15, hi_cap = 1, hi_count = 1, hi_id = [\<lparr>hn_id = 5, hn_next = None\<rparr>],
     hi_hash = (replicate 16 None)[5 := Some 0]\<rparr>"

definition sample_gate :: "u32 \<Rightarrow> int \<Rightarrow> gate" where
  "sample_gate watchdog hs = \<lparr>g_listen_id = 1, g_watchdog = watchdog, g_broker = 0, g_client_tag = 3, g_header_size = hs,
     g_max_connection = 1, g_hash = sample_hash, g_conn = [connection_zero\<lparr>c_id := 5\<rparr>], g_mp = messagepool_zero\<rparr>"

lemma sample_hash_inv: "hashid_inv sample_hash" "hashid_slot sample_hash x = (if x = 5 then Some 0 else None)"
proof -
  have 1: "hashid_hashcap 16 1 = 16" by (simp add: hashid_hashcap.simps)
  have "hashid_insert (hashid_init 1) 5 = Some (0, sample_hash)"
    by (simp add: hashid_insert_def hashid_init_def 1 sample_hash_def Let_def signed_modulo_int_def numeral_eq_Suc)
  moreover have "\<not> hashid_full (hashid_init 1)" by (simp add: hashid_full_def hashid_init_def Let_def)
  moreover have "5 + hi_cap (hashid_init 1) \<le> 2 ^ 31" by (simp add: hashid_init_def Let_def)
  ultimately have "hashid_inv sample_hash \<and> hashid_slot sample_hash = (hashid_slot (hashid_init 1))(5 \<mapsto> 0)"
    using hid.insert_ok [OF hashid_init_inv, of 1 5] hashid_init_slot [of 1 5] by auto
  then show "hashid_inv sample_hash" "hashid_slot sample_hash x = (if x = 5 then Some 0 else None)"
    using hashid_init_slot [of 1 x] by auto
qed

lemma sample_gate_inv: "hs = 2 \<or> hs = 4 \<Longrightarrow> gate_inv (sample_gate w hs)"
proof -
  have "bufs [connection_zero\<lparr>c_id := 5\<rparr>] messagepool_zero (\<lambda>_. []) [] (\<lambda>_. [])"
    using db_rep_init by (simp add: bufs_def connection_zero_def)
  then show "hs = 2 \<or> hs = 4 \<Longrightarrow> gate_inv (sample_gate w hs)"
    using sample_hash_inv by (auto simp: gate_inv_def sample_gate_def ran_def) (auto simp: sample_hash_def)
qed

lemma sample_gate_simps:
  "hashid_lookup (g_hash (sample_gate w hs)) 5 = Some 0" "g_header_size (sample_gate w hs) = hs"
  "c_buffer (g_conn (sample_gate w hs) ! 0) = databuffer_zero" "has_receiver (sample_gate w hs) 0 \<longleftrightarrow> w \<noteq> 0"
  using hid.lookup_ok [OF sample_hash_inv(1), of 5] sample_hash_inv(2)
  by (simp_all add: sample_gate_def connection_zero_def has_receiver_def)

theorem gate_stream_packets_witness:
  "\<exists>g'. gate_feed (sample_gate 9 2) 5 [[0], [2, 7], [8, 0, 0, 0], [1, 6]] =
     Some (g', map (packet_send (sample_gate 9 2) 0) [[7, 8], [6]])"
  using gate_stream_packets [of "sample_gate 9 2" 5 0 2 "[[7, 8], [], [6]]" "[[0], [2, 7], [8, 0, 0, 0], [1, 6]]"]
    sample_gate_inv [of 2 9] sample_gate_simps [of 9 2]
  by (auto simp: packet_fits_def encode_packet_def encode_header_def drop_bit_eq_div simp del: gate_feed.simps)

text \<open>States of the gate reachable by handling messages.\<close>

inductive gate_run :: "(string \<Rightarrow> u32) \<Rightarrow> gate \<Rightarrow> gate \<Rightarrow> bool" for queryname g0 where
  gate_run_start: "gate_run queryname g0 g0"
| gate_run_step: "gate_run queryname g0 g \<Longrightarrow> (\<And>m. msg = Socket m \<Longrightarrow> socket_message_ok g m) \<Longrightarrow>
    cb queryname g src msg = Some (r, g', out) \<Longrightarrow> gate_run queryname g0 g'"

text \<open>C9: From a successful start, in every state reached by any sequence of control, client and
  socket messages, the connection index, the connection array and the receive buffers agree: each
  known id has its own connection, which carries that id, free connections are reset, and the
  buffers share the pool without overlapping.  In such a state a socket message makes the gate
  leave an array, loop or fail an assertion in one case alone: the assertion on an accepted
  connection whose listening socket is not the one the gate has now.\<close>

theorem gate_reachable_safe:
  assumes "gate_init queryname listen gate_create (Some arg) = (0, g0, out0)" "gate_run queryname g0 g"
  shows "gate_inv g \<and> (\<forall>m src. socket_message_ok g m \<longrightarrow>
    (cb queryname g src (Socket m) = None \<longleftrightarrow> stray_accept g m))"
proof -
  from assms(2) have inv: "gate_inv g"
  proof induction
    case gate_run_start
    show ?case by (rule gate_inv_init [OF assms(1)])
  next
    case (gate_run_step g msg src r g' out)
    then show ?case using cb_inv by blast
  qed
  moreover have "cb queryname g src (Socket m) = None \<longleftrightarrow> stray_accept g m" if "socket_message_ok g m" for m src
  proof (cases "stray_accept g m")
    case False
    then show ?thesis using dispatch_socket_inv [OF inv that] by (auto simp: cb_def)
  qed (simp add: cb_def dispatch_stray_accept)
  ultimately show ?thesis by blast
qed

theorem gate_reachable_safe_witness:
  "\<exists>g0 out0. gate_init (\<lambda>_. 9) (\<lambda>_ _ _. 1) gate_create (Some ''S w 88 0 1'') = (0, g0, out0) \<and> gate_inv g0 \<and>
     (\<forall>src. cb (\<lambda>_. 9) g0 src (Socket (data_message 5 [1, 2, 3])) \<noteq> None)"
proof -
  obtain g0 out0 where g0: "gate_init (\<lambda>_. 9) (\<lambda>_ _ _. 1) gate_create (Some ''S w 88 0 1'') = (0, g0, out0)"
    "g_hash g0 = hashid_init 1"
    by (simp add: gate_init_def scan_parm_def scan_word_def scan_int_def c_isspace_def strip_sign_def is_digit_def
        digit_val_def strtol10_def digits_val_def long_to_int_def start_listen_def strrchr_def Let_def gate_create_def)
  note safe = gate_reachable_safe [OF g0(1) gate_run_start]
  have "hashid_lookup (g_hash g0) 5 = Some (- 1)"
    using gate_lookup [of g0 5] safe hashid_init_slot [of 1 5] g0(2) by simp
  then have "socket_message_ok g0 (data_message 5 [1, 2, 3])" "\<not> stray_accept g0 (data_message 5 [1, 2, 3])"
    by (simp_all add: socket_message_ok_def stray_accept_def data_message_def socket_types)
  with safe g0(1) show ?thesis by blast
qed

text \<open>C32: After the control message \<open>close\<close> the gate has no listening socket, so a connection that was accepted
  before and waits in its queue fails the assertion of the gate.\<close>

theorem gate_accept_after_close:
  assumes "gate_init queryname listen gate_create (Some arg) = (0, g0, out0)" "gate_run queryname g0 g"
    and "0 \<le> g_listen_id g" "sm_type m = SKYNET_SOCKET_TYPE_ACCEPT" "sm_id m = g_listen_id g"
  shows "\<exists>g'. cb queryname g src (Text ''close'') = Some (0, g', [Socket_close (g_listen_id g)]) \<and>
    gate_run queryname g0 g' \<and> cb queryname g' src' (Socket m) = None"
proof -
  let ?g = "g\<lparr>g_listen_id := - 1\<rparr>"
  have close: "cb queryname g src (Text ''close'') = Some (0, ?g, [Socket_close (g_listen_id g)])"
    using assms(3) by (simp add: cb_def ctrl_def memcmp_lit_def Let_def)
  have "gate_run queryname g0 ?g" using assms(2) _ close by (rule gate_run_step) simp
  moreover have "stray_accept ?g m" using assms(3-5) by (simp add: stray_accept_def)
  ultimately show ?thesis using close dispatch_stray_accept [of ?g m] by (auto simp: cb_def)
qed

theorem gate_accept_after_close_witness:
  "\<exists>g0 out0 g'. gate_init (\<lambda>_. 9) (\<lambda>_ _ _. 1) gate_create (Some ''S w 88 0 1'') = (0, g0, out0) \<and>
     cb (\<lambda>_. 9) g' 0 (Socket \<lparr>sm_type = SKYNET_SOCKET_TYPE_ACCEPT, sm_id = 1, sm_ud = 7, sm_buffer = [], sm_padding = []\<rparr>) = None"
proof -
  obtain g0 out0 where g0: "gate_init (\<lambda>_. 9) (\<lambda>_ _ _. 1) gate_create (Some ''S w 88 0 1'') = (0, g0, out0)" "g_listen_id g0 = 1"
    by (simp add: gate_init_def scan_parm_def scan_word_def scan_int_def c_isspace_def strip_sign_def is_digit_def
        digit_val_def strtol10_def digits_val_def long_to_int_def start_listen_def strrchr_def Let_def)
  from gate_accept_after_close [OF g0(1) gate_run_start, of
      "\<lparr>sm_type = SKYNET_SOCKET_TYPE_ACCEPT, sm_id = 1, sm_ud = 7, sm_buffer = [], sm_padding = []\<rparr>" 0 0] g0
  show ?thesis by auto
qed

text \<open>C34: A packet that arrives while its connection has nobody to forward it to is not taken out of
  the buffer although its header is dropped, so its payload is read as the next header: after the
  2-byte packet 00 05 the gate waits for a packet of 5 bytes that the peer never announced.\<close>

theorem gate_unclaimed_packet_desync:
  assumes "gate_inv g" "hashid_lookup (g_hash g) uid = Some (int ci)"
    and "c_buffer (g_conn g ! ci) = databuffer_zero" "\<not> has_receiver g ci" "g_header_size g = 2"
  shows "\<exists>g'. dispatch_socket_message g (data_message uid (encode_packet 2 [0, 5])) = Some (g', []) \<and>
    db_header (c_buffer (g_conn g' ! ci)) = 5 \<and> db_size (c_buffer (g_conn g' ! ci)) = 0"
proof -
  note kn = gate_known [OF assms(1,2)]
  from assms(1) obtain xss ys bss where B: "bufs (g_conn g) (g_mp g) xss ys bss" by (auto simp: gate_inv_def)
  then have rep: "db_rep (c_buffer (g_conn g ! ci)) (g_mp g) (xss ci) ys (bss ci)" using kn(2) by (simp add: bufs_def)
  with assms(3) have nil: "bss ci = []" using db_rep_zero_empty by simp
  have d: "deframe False 2 0 (encode_packet 2 [0, 5]) = ([], Wait 5 [])"
    by (simp add: deframe.simps header_spec_def encode_packet_def encode_header_def header_value_def drop_bit_eq_div)
  have hs: "g_header_size g = int 2" "0 < (2::nat)" using assms(5) by simp_all
  from dispatch_message_spec [OF kn(2) rep hs, where data = "encode_packet 2 [0, 5]" and uid = uid] nil assms(3,4) d
  obtain db' mp' where r: "dispatch_message g ci uid (encode_packet 2 [0, 5]) = Some (set_buffer g ci db' mp', [])"
    "db_header db' = 5" "db_size db' = 0"
    by (auto simp: databuffer_zero_def too_big_out_def loop_post_def db_rep_def)
  then show ?thesis using kn assms(2) by (simp add: dispatch_socket_message_def data_message_def)
qed

theorem gate_unclaimed_packet_desync_witness:
  "\<exists>g'. dispatch_socket_message (sample_gate 0 2) (data_message 5 (encode_packet 2 [0, 5])) = Some (g', [])"
  using gate_unclaimed_packet_desync [of "sample_gate 0 2" 5 0] sample_gate_inv [of 2 0] sample_gate_simps [of 0 2]
  by auto






end
