(* ===== verification/Lua_Call.thy ===== *)
theory Lua_Call
  imports C_String
begin

text \<open>
  Results of C functions called from Lua: a value, an error raised with \<open>luaL_error\<close> (which leaves the
  function at once), or undefined behaviour such as a read outside an array.  Lua strings are
  lists of bytes.
\<close>

datatype 'a lua = Ret 'a | Err string | Undef

fun lua_bind :: "'a lua \<Rightarrow> ('a \<Rightarrow> 'b lua) \<Rightarrow> 'b lua" where
  "lua_bind (Ret x) f = f x"
| "lua_bind (Err e) f = Err e"
| "lua_bind Undef f = Undef"

text \<open>
  What \<open>lua_pushlstring\<close> copies of a buffer whose first bytes have been written: a negative size is a huge one, and
  behind the bytes written nothing is specified.
\<close>

definition push_buffer :: "'a list \<Rightarrow> int \<Rightarrow> 'a list lua" where
  "push_buffer out sz = (if sz < 0 \<or> int (length out) < sz then Undef else Ret (take (nat sz) out))"

lemma push_buffer_all [simp]: "push_buffer out (int (length out)) = Ret out"
  by (simp add: push_buffer_def)

text \<open>The buffer on the stack, and the one that replaces it when that is too small.\<close>

definition SMALL_CHUNK :: int where "SMALL_CHUNK = 256"

definition buffer_size :: "int \<Rightarrow> int" where
  "buffer_size sz = (if sz > SMALL_CHUNK then sz else SMALL_CHUNK)"

end
