(* ===== verification/Skynet_Netpack.thy ===== *)
theory Skynet_Netpack
  imports Fifo_Queue Skynet_Socket_Message Lua_Call
begin

unbundle bit_operations_syntax

text \<open>
  The packets of the Lua gate servers (\<^verbatim>\<open>009_skynet_demo/skynet/lualib-src/lua-netpack.c\<close>): blocks received from sockets are
  cut into packets with a length of two bytes in front.  A packet that is not complete waits in a hash table of chained
  nodes; complete ones that come together wait in a ring buffer.

  The queue is a Lua userdata that the calls keep in slot 1 of the Lua stack (\<open>np_stack\<close>; \<open>None\<close> is NULL).  A
  block is its list of bytes, whose length is the size that is passed with it; data messages always bring such a block.  Allocated buffers are values; a byte that
  has not been written is \<open>None\<close>, and so is a cell of the ring.  The result \<open>None\<close> of an operation is a failed assertion or an
  access outside an array or to a node that is not allocated.  Sizes are at most 65535, so they are natural numbers.
\<close>

subsection \<open>Data\<close>

definition QUEUESIZE :: nat where "QUEUESIZE = 1024"
definition HASHSIZE :: nat where "HASHSIZE = 4096"

record netpack =
  np_id :: int
  np_size :: nat
  np_buffer :: "u8 option list"

record uncomplete =
  uc_pack :: netpack
  uc_next :: ptr
  uc_read :: int
  uc_header :: int

record np_queue =
  nq_cap :: nat
  nq_head :: nat
  nq_tail :: nat
  nq_hash :: "ptr list"
  nq_queue :: "netpack option list"

record np_state =
  np_stack :: "np_queue option"
  np_mem :: "addr \<rightharpoonup> uncomplete"
  np_brk :: addr

text \<open>What a call of \<open>filter\<close> returns behind the queue.\<close>

datatype np_result =
    Np_data int "u8 option list" nat
  | Np_more
  | Np_init int string int
  | Np_close int
  | Np_open int string
  | Np_error int string
  | Np_warning int int
  | Np_none

subsection \<open>Operations\<close>

definition np_malloc :: "nat \<Rightarrow> u8 option list" where "np_malloc n = replicate n None"

definition np_memcpy :: "u8 option list \<Rightarrow> nat \<Rightarrow> u8 option list \<Rightarrow> nat \<Rightarrow> u8 option list option" where
  "np_memcpy dst off src n =
     (if n \<le> length src \<and> off + n \<le> length dst then Some (take off dst @ take n src @ drop (off + n) dst) else None)"

partial_function (option) clear_list :: "ptr \<Rightarrow> (addr \<rightharpoonup> uncomplete) \<Rightarrow> (addr \<rightharpoonup> uncomplete) option" where
  "clear_list p mem =
     (case p of
        None \<Rightarrow> Some mem
      | Some a \<Rightarrow> do { uc \<leftarrow> mem a; clear_list (uc_next uc) (mem(a := None)) })"

fun clear_rows :: "ptr list \<Rightarrow> (addr \<rightharpoonup> uncomplete) \<Rightarrow> (addr \<rightharpoonup> uncomplete) option" where
  "clear_rows [] mem = Some mem"
| "clear_rows (p # ps) mem = do { mem \<leftarrow> clear_list p mem; clear_rows ps mem }"

definition lclear :: "np_state \<Rightarrow> np_state option" where
  "lclear st =
     (case np_stack st of
        None \<Rightarrow> Some st
      | Some q \<Rightarrow> do {
          mem \<leftarrow> clear_rows (nq_hash q) (np_mem st);
          let q = q\<lparr>nq_hash := replicate HASHSIZE None\<rparr>;
          let q = (if nq_head q > nq_tail q then q\<lparr>nq_tail := nq_tail q + nq_cap q\<rparr> else q);
          cells \<leftarrow> those (map (\<lambda>i. array_get (nq_queue q) (i mod nq_cap q)) [nq_head q..<nq_tail q]);
          freed \<leftarrow> those cells;
          let q = q\<lparr>nq_head := 0, nq_tail := 0\<rparr>;
          Some (st\<lparr>np_stack := Some q, np_mem := mem\<rparr>) })"

text \<open>The sum wraps around as on the machines that skynet runs on; in C a signed sum beyond \<open>int\<close> is undefined.\<close>

definition hash_fd :: "int \<Rightarrow> nat" where
  "hash_fd fd =
     (let a = drop_bit 24 fd; b = drop_bit 12 fd; c = fd
      in unat (of_int (a + b + c) mod of_nat HASHSIZE :: u32))"

partial_function (option) find_loop :: "int \<Rightarrow> addr \<Rightarrow> (addr \<rightharpoonup> uncomplete) \<Rightarrow> (ptr \<times> (addr \<rightharpoonup> uncomplete)) option" where
  "find_loop fd lst mem = do {
     l \<leftarrow> mem lst;
     (case uc_next l of
        None \<Rightarrow> Some (None, mem)
      | Some a \<Rightarrow> do {
          uc \<leftarrow> mem a;
          (if np_id (uc_pack uc) = fd then Some (Some a, mem(lst \<mapsto> l\<lparr>uc_next := uc_next uc\<rparr>))
           else find_loop fd a mem) }) }"

definition find_uncomplete :: "int \<Rightarrow> np_state \<Rightarrow> (ptr \<times> np_state) option" where
  "find_uncomplete fd st =
     (case np_stack st of
        None \<Rightarrow> Some (None, st)
      | Some q \<Rightarrow> do {
          let h = hash_fd fd;
          p \<leftarrow> array_get (nq_hash q) h;
          (case p of
             None \<Rightarrow> Some (None, st)
           | Some a \<Rightarrow> do {
               uc \<leftarrow> np_mem st a;
               (if np_id (uc_pack uc) = fd then do {
                  hash \<leftarrow> array_set (nq_hash q) h (uc_next uc);
                  Some (Some a, st\<lparr>np_stack := Some (q\<lparr>nq_hash := hash\<rparr>)\<rparr>) }
                else do {
                  (r, mem) \<leftarrow> find_loop fd a (np_mem st);
                  Some (r, st\<lparr>np_mem := mem\<rparr>) }) }) })"

definition new_queue :: np_queue where
  "new_queue = \<lparr>nq_cap = QUEUESIZE, nq_head = 0, nq_tail = 0, nq_hash = replicate HASHSIZE None, nq_queue = replicate QUEUESIZE None\<rparr>"

definition get_queue :: "np_state \<Rightarrow> np_queue \<times> np_state" where
  "get_queue st =
     (case np_stack st of
        Some q \<Rightarrow> (q, st)
      | None \<Rightarrow> (let q = new_queue in (q, st\<lparr>np_stack := Some q\<rparr>)))"

text \<open>The old userdata, which is emptied, and the new one.\<close>

definition np_expand_queue :: "np_queue \<Rightarrow> (np_queue \<times> np_queue) option" where
  "np_expand_queue q = do {
     cells \<leftarrow> those (map (\<lambda>i. array_get (nq_queue q) ((nq_head q + i) mod nq_cap q)) [0..<nq_cap q]);
     let nq = \<lparr>nq_cap = nq_cap q + QUEUESIZE, nq_head = 0, nq_tail = nq_cap q, nq_hash = nq_hash q,
               nq_queue = cells @ replicate QUEUESIZE None\<rparr>;
     let q = q\<lparr>nq_hash := replicate HASHSIZE None, nq_head := 0, nq_tail := 0\<rparr>;
     Some (q, nq) }"

definition queue_put :: "netpack \<Rightarrow> np_queue \<Rightarrow> np_queue option" where
  "queue_put np q = do {
     let t = nq_tail q;
     cells \<leftarrow> array_set (nq_queue q) t (Some np);
     let q = q\<lparr>nq_tail := (if t + 1 \<ge> nq_cap q then t + 1 - nq_cap q else t + 1), nq_queue := cells\<rparr>;
     (if nq_head q = nq_tail q then map_option snd (np_expand_queue q) else Some q) }"

definition push_data :: "int \<Rightarrow> u8 option list \<Rightarrow> nat \<Rightarrow> bool \<Rightarrow> np_state \<Rightarrow> np_state option" where
  "push_data fd buffer sz clone st = do {
     buffer \<leftarrow> (if clone then np_memcpy (np_malloc sz) 0 buffer sz else Some buffer);
     let (q, st) = get_queue st;
     q \<leftarrow> queue_put \<lparr>np_id = fd, np_size = sz, np_buffer = buffer\<rparr> q;
     Some (st\<lparr>np_stack := Some q\<rparr>) }"

definition save_uncomplete :: "int \<Rightarrow> np_state \<Rightarrow> (addr \<times> np_state) option" where
  "save_uncomplete fd st = do {
     let (q, st) = get_queue st;
     let h = hash_fd fd;
     let a = np_brk st;
     nx \<leftarrow> array_get (nq_hash q) h;
     hash \<leftarrow> array_set (nq_hash q) h (Some a);
     let uc = \<lparr>uc_pack = \<lparr>np_id = fd, np_size = 0, np_buffer = []\<rparr>, uc_next = nx, uc_read = 0, uc_header = 0\<rparr>;
     Some (a, st\<lparr>np_stack := Some (q\<lparr>nq_hash := hash\<rparr>), np_mem := (np_mem st)(a \<mapsto> uc), np_brk := a + 1\<rparr>) }"

definition upd_uc :: "addr \<Rightarrow> (uncomplete \<Rightarrow> uncomplete) \<Rightarrow> np_state \<Rightarrow> np_state option" where
  "upd_uc a f st = do { uc \<leftarrow> np_mem st a; Some (st\<lparr>np_mem := (np_mem st)(a \<mapsto> f uc)\<rparr>) }"

definition read_size :: "u8 list \<Rightarrow> nat option" where
  "read_size buffer = (case buffer of a # b # _ \<Rightarrow> Some (unat a * 256 + unat b) | _ \<Rightarrow> None)"

text \<open>Keeping the first byte of a length, or the start of a packet.\<close>

definition save_header :: "int \<Rightarrow> u8 list \<Rightarrow> np_state \<Rightarrow> np_state option" where
  "save_header fd buffer st = do {
     (a, st) \<leftarrow> save_uncomplete fd st;
     b \<leftarrow> array_get buffer 0;
     upd_uc a (\<lambda>uc. uc\<lparr>uc_read := -1, uc_header := uint b\<rparr>) st }"

definition save_start :: "int \<Rightarrow> nat \<Rightarrow> u8 list \<Rightarrow> np_state \<Rightarrow> np_state option" where
  "save_start fd pack_size buffer st = do {
     (a, st) \<leftarrow> save_uncomplete fd st;
     buf \<leftarrow> np_memcpy (np_malloc pack_size) 0 (map Some buffer) (length buffer);
     upd_uc a (\<lambda>uc. uc\<lparr>uc_read := int (length buffer), uc_pack := (uc_pack uc)\<lparr>np_size := pack_size, np_buffer := buf\<rparr>\<rparr>) st }"

function push_more :: "int \<Rightarrow> u8 list \<Rightarrow> np_state \<Rightarrow> np_state option" where
  "push_more fd buffer st =
     (if length buffer = 1 then save_header fd buffer st
      else do {
        pack_size \<leftarrow> read_size buffer;
        (if length buffer - 2 < pack_size then save_start fd pack_size (drop 2 buffer) st
         else do {
           st \<leftarrow> push_data fd (map Some (drop 2 buffer)) pack_size True st;
           (if length buffer - 2 - pack_size > 0 then push_more fd (drop (2 + pack_size) buffer) st else Some st) }) })"
  by pat_completeness auto
termination by (relation "measure (\<lambda>(fd, buffer, st). length buffer)") auto

definition close_uncomplete :: "int \<Rightarrow> np_state \<Rightarrow> np_state option" where
  "close_uncomplete fd st = do {
     (r, st) \<leftarrow> find_uncomplete fd st;
     (case r of None \<Rightarrow> Some st | Some a \<Rightarrow> Some (st\<lparr>np_mem := (np_mem st)(a := None)\<rparr>)) }"

text \<open>Filling a packet that waits; \<open>fill_header\<close> is the case in which only the first byte of its length is known.\<close>

definition fill_header :: "uncomplete \<Rightarrow> u8 list \<Rightarrow> (uncomplete \<times> u8 list) option" where
  "fill_header uc buffer =
     (if uc_read uc < 0 then do {
        _ \<leftarrow> assert_opt (uc_read uc = -1);
        b \<leftarrow> array_get buffer 0;
        let pack_size = nat (uint b OR push_bit 8 (uc_header uc));
        Some (uc\<lparr>uc_pack := (uc_pack uc)\<lparr>np_size := pack_size, np_buffer := np_malloc pack_size\<rparr>, uc_read := 0\<rparr>, drop 1 buffer) }
      else Some (uc, buffer))"

definition fill_uncomplete :: "int \<Rightarrow> addr \<Rightarrow> u8 list \<Rightarrow> np_state \<Rightarrow> (np_result \<times> np_state) option" where
  "fill_uncomplete fd a buffer st = do {
     uc \<leftarrow> np_mem st a;
     (uc, buffer) \<leftarrow> fill_header uc buffer;
     let need = np_size (uc_pack uc) - nat (uc_read uc);
     let sz = length buffer;
     (if sz < need then do {
        buf \<leftarrow> np_memcpy (np_buffer (uc_pack uc)) (nat (uc_read uc)) (map Some buffer) sz;
        let uc = uc\<lparr>uc_pack := (uc_pack uc)\<lparr>np_buffer := buf\<rparr>, uc_read := uc_read uc + int sz\<rparr>;
        q \<leftarrow> np_stack st;
        let h = hash_fd fd;
        nx \<leftarrow> array_get (nq_hash q) h;
        hash \<leftarrow> array_set (nq_hash q) h (Some a);
        Some (Np_none, st\<lparr>np_stack := Some (q\<lparr>nq_hash := hash\<rparr>), np_mem := (np_mem st)(a \<mapsto> uc\<lparr>uc_next := nx\<rparr>)\<rparr>) }
      else do {
        buf \<leftarrow> np_memcpy (np_buffer (uc_pack uc)) (nat (uc_read uc)) (map Some buffer) need;
        let buffer = drop need buffer;
        (if buffer = [] then Some (Np_data fd buf (np_size (uc_pack uc)), st\<lparr>np_mem := (np_mem st)(a := None)\<rparr>)
         else do {
           st \<leftarrow> push_data fd buf (np_size (uc_pack uc)) False st;
           let st = st\<lparr>np_mem := (np_mem st)(a := None)\<rparr>;
           st \<leftarrow> push_more fd buffer st;
           Some (Np_more, st) }) }) }"

definition filter_data :: "int \<Rightarrow> u8 list \<Rightarrow> np_state \<Rightarrow> (np_result \<times> np_state) option" where
  "filter_data fd buffer st = do {
     (r, st) \<leftarrow> find_uncomplete fd st;
     (case r of
        Some a \<Rightarrow> fill_uncomplete fd a buffer st
      | None \<Rightarrow>
          if length buffer = 1 then do { st \<leftarrow> save_header fd buffer st; Some (Np_none, st) }
          else do {
            pack_size \<leftarrow> read_size buffer;
            let buffer = drop 2 buffer;
            (if length buffer < pack_size then do { st \<leftarrow> save_start fd pack_size buffer st; Some (Np_none, st) }
             else if length buffer = pack_size then do {
               result \<leftarrow> np_memcpy (np_malloc pack_size) 0 (map Some buffer) pack_size;
               Some (Np_data fd result pack_size, st) }
             else do {
               st \<leftarrow> push_data fd (map Some buffer) pack_size True st;
               st \<leftarrow> push_more fd (drop pack_size buffer) st;
               Some (Np_more, st) }) }) }"

definition lfilter :: "socket_message \<Rightarrow> np_state \<Rightarrow> (np_result \<times> np_state) option" where
  "lfilter message st =
     (if sm_type message = SKYNET_SOCKET_TYPE_DATA then filter_data (sm_id message) (sm_buffer message) st
      else if sm_type message = SKYNET_SOCKET_TYPE_CONNECT then Some (Np_init (sm_id message) (sm_padding message) (sm_ud message), st)
      else if sm_type message = SKYNET_SOCKET_TYPE_CLOSE then do {
        st \<leftarrow> close_uncomplete (sm_id message) st;
        Some (Np_close (sm_id message), st) }
      else if sm_type message = SKYNET_SOCKET_TYPE_ACCEPT then Some (Np_open (sm_ud message) (sm_padding message), st)
      else if sm_type message = SKYNET_SOCKET_TYPE_ERROR then do {
        st \<leftarrow> close_uncomplete (sm_id message) st;
        Some (Np_error (sm_id message) (sm_padding message), st) }
      else if sm_type message = SKYNET_SOCKET_TYPE_WARNING then Some (Np_warning (sm_id message) (sm_ud message), st)
      else Some (Np_none, st))"

definition queue_take :: "np_queue \<Rightarrow> (netpack option \<times> np_queue) option" where
  "queue_take q =
     (if nq_head q = nq_tail q then Some (None, q)
      else do {
        cell \<leftarrow> array_get (nq_queue q) (nq_head q);
        np \<leftarrow> cell;
        Some (Some np, q\<lparr>nq_head := (if nq_head q + 1 \<ge> nq_cap q then 0 else nq_head q + 1)\<rparr>) })"

definition lpop :: "np_state \<Rightarrow> ((int \<times> u8 option list \<times> nat) option \<times> np_state) option" where
  "lpop st =
     (case np_stack st of
        None \<Rightarrow> Some (None, st)
      | Some q \<Rightarrow> do {
          (r, q) \<leftarrow> queue_take q;
          Some (map_option (\<lambda>np. (np_id np, np_buffer np, np_size np)) r, st\<lparr>np_stack := Some q\<rparr>) })"

definition write_size :: "nat \<Rightarrow> u8 list" where
  "write_size len = [of_nat (drop_bit 8 len AND 0xff), of_nat (len AND 0xff)]"

text \<open>The message of the error ends with the length, which is left out.\<close>

definition lpack :: "u8 list \<Rightarrow> u8 list lua" where
  "lpack s =
     (if length s \<ge> 0x10000 then Err ''Invalid size (too long) of data'' else Ret (write_size (length s) @ s))"

definition ltostring :: "u8 option list option \<Rightarrow> nat \<Rightarrow> u8 list option" where
  "ltostring p sz =
     (case p of
        None \<Rightarrow> Some []
      | Some buf \<Rightarrow> if sz \<le> length buf then those (take sz buf) else None)"

declare clear_list.simps [code] find_loop.simps [code]

subsection \<open>The ring buffer is a queue\<close>

definition nq_length :: "np_queue \<Rightarrow> nat" where
  "nq_length q = (if nq_head q \<le> nq_tail q then nq_tail q - nq_head q else nq_tail q + nq_cap q - nq_head q)"

definition nq_ring :: "np_queue \<Rightarrow> netpack option list" where
  "nq_ring q = ring (nq_queue q) (nq_cap q) (nq_head q) (nq_length q)"

definition nq_wf :: "np_queue \<Rightarrow> bool" where
  "nq_wf q \<longleftrightarrow> length (nq_queue q) = nq_cap q \<and> nq_head q < nq_cap q \<and> nq_tail q < nq_cap q \<and> None \<notin> set (nq_ring q)"

definition nq_list :: "np_queue \<Rightarrow> netpack list" where
  "nq_list q = map the (nq_ring q)"

lemma new_queue_list [simp]: "nq_wf new_queue" "nq_list new_queue = []"
  by (simp_all add: nq_wf_def nq_list_def nq_ring_def nq_length_def new_queue_def QUEUESIZE_def)

lemma nq_tail_index: "nq_wf q \<Longrightarrow> (nq_head q + nq_length q) mod nq_cap q = nq_tail q" "nq_wf q \<Longrightarrow> nq_length q < nq_cap q"
  by (auto simp: nq_wf_def nq_length_def)

lemma queue_put_ok:
  assumes wf: "nq_wf q"
  shows "\<exists>q'. queue_put np q = Some q' \<and> nq_wf q' \<and> nq_list q' = nq_list q @ [np] \<and> nq_hash q' = nq_hash q"
proof -
  have w: "length (nq_queue q) = nq_cap q" "nq_head q < nq_cap q" "nq_tail q < nq_cap q" "None \<notin> set (nq_ring q)" using wf by (simp_all add: nq_wf_def)
  define n where "n = nq_length q"
  define cells where "cells = (nq_queue q)[nq_tail q := Some np]"
  define t where "t = (if nq_tail q + 1 \<ge> nq_cap q then nq_tail q + 1 - nq_cap q else nq_tail q + 1)"
  define q1 where "q1 = q\<lparr>nq_tail := t, nq_queue := cells\<rparr>"
  have n: "(nq_head q + n) mod nq_cap q = nq_tail q" "n < nq_cap q" using nq_tail_index [OF wf] by (simp_all add: n_def)
  have tl: "t < nq_cap q" using w by (auto simp: t_def)
  have ring: "ring cells (nq_cap q) (nq_head q) (Suc n) = nq_ring q @ [Some np]"
    using n w ring_upd [OF n(2) w(1), of "nq_head q" "Some np"] by (simp add: ring_snoc cells_def nq_ring_def n_def [symmetric])
  have put: "queue_put np q = (if nq_head q = t then map_option snd (np_expand_queue q1) else Some q1)"
    using w by (simp add: queue_put_def q1_def t_def cells_def Let_def)
  show ?thesis
  proof (cases "nq_head q = t")
    case False
    then have "nq_length q1 = Suc n" using w n(2) unfolding n_def nq_length_def q1_def t_def by (auto split: if_splits)
    then have r: "nq_ring q1 = nq_ring q @ [Some np]" unfolding nq_ring_def [of q1] using ring by (simp add: q1_def)
    then have "nq_wf q1" using w tl by (auto simp: nq_wf_def q1_def cells_def)
    then show ?thesis using False put r by (auto simp: nq_list_def q1_def)
  next
    case True
    then have full: "Suc n = nq_cap q" using w n(2) unfolding n_def nq_length_def t_def by (auto split: if_splits)
    define cs where "cs = ring cells (nq_cap q) (nq_head q) (nq_cap q)"
    define q2 where "q2 = \<lparr>nq_cap = nq_cap q + QUEUESIZE, nq_head = 0, nq_tail = nq_cap q, nq_hash = nq_hash q, nq_queue = cs @ replicate QUEUESIZE None\<rparr>"
    have "those (map (\<lambda>i. array_get cells ((nq_head q + i) mod nq_cap q)) [0..<nq_cap q]) = Some cs"
      unfolding cs_def ring_def using w by (intro those_map_Some) (simp add: cells_def)
    then have e: "map_option snd (np_expand_queue q1) = Some q2" using True by (simp add: np_expand_queue_def q1_def q2_def Let_def)
    have "nq_ring q2 = cs" unfolding nq_ring_def nq_length_def q2_def by (simp add: ring_prefix cs_def)
    then have r: "nq_ring q2 = nq_ring q @ [Some np]" using ring full by (simp add: cs_def)
    then have "nq_wf q2" using w by (auto simp: nq_wf_def q2_def cs_def QUEUESIZE_def)
    then show ?thesis using True put e r by (auto simp: nq_list_def q2_def)
  qed
qed

lemma queue_take_cons:
  assumes wf: "nq_wf q" and ne: "nq_list q \<noteq> []"
  shows "\<exists>q'. queue_take q = Some (Some (hd (nq_list q)), q') \<and> nq_wf q' \<and> nq_list q' = tl (nq_list q) \<and> nq_hash q' = nq_hash q"
proof -
  have w: "length (nq_queue q) = nq_cap q" "nq_head q < nq_cap q" "nq_tail q < nq_cap q" "None \<notin> set (nq_ring q)" using wf by (simp_all add: nq_wf_def)
  obtain n where n: "nq_length q = Suc n" using ne by (cases "nq_length q") (simp_all add: nq_list_def nq_ring_def)
  define h where "h = (if nq_head q + 1 \<ge> nq_cap q then 0 else nq_head q + 1)"
  define q1 where "q1 = q\<lparr>nq_head := h\<rparr>"
  have h: "h = (nq_head q + 1) mod nq_cap q" "h < nq_cap q" using w succ_mod [of "nq_head q" "nq_cap q"] by (auto simp: h_def)
  have "nq_ring q = nq_queue q ! nq_head q # ring (nq_queue q) (nq_cap q) h n"
    using w by (simp add: nq_ring_def n ring_Suc h(1))
  moreover have "nq_length q1 = n" using n w unfolding nq_length_def q1_def h_def by (auto split: if_splits)
  ultimately have r: "nq_ring q = nq_queue q ! nq_head q # nq_ring q1" unfolding nq_ring_def [of q1] by (simp add: q1_def)
  then obtain np where np: "nq_queue q ! nq_head q = Some np" using w(4) by (cases "nq_queue q ! nq_head q") auto
  have "nq_wf q1" using w h(2) r by (auto simp: nq_wf_def q1_def)
  moreover have "nq_head q \<noteq> nq_tail q" using n by (auto simp: nq_length_def)
  then have "queue_take q = Some (Some np, q1)" using w np by (simp add: queue_take_def q1_def h_def)
  ultimately show ?thesis using r np by (intro exI [of _ q1]) (simp add: nq_list_def q1_def)
qed

lemma queue_take_nil: "nq_wf q \<Longrightarrow> nq_list q = [] \<Longrightarrow> queue_take q = Some (None, q)"
  by (auto simp: queue_take_def nq_wf_def nq_list_def nq_ring_def nq_length_def split: if_splits dest: arg_cong [of _ _ length])

interpretation nq: fifo queue_put queue_take nq_list nq_wf
proof (unfold_locales, goal_cases)
  case (1 q x) then show ?case using queue_put_ok [of q x] by blast
next
  case (2 q) then show ?case using queue_take_cons [of q] by blast
next
  case (3 q) then show ?case using queue_take_nil [of q] by blast
qed

subsection \<open>The hash table of incomplete packets\<close>

definition uc_nx :: "(addr \<rightharpoonup> uncomplete) \<Rightarrow> addr \<Rightarrow> ptr option" where
  "uc_nx mem a = map_option uc_next (mem a)"

lemma uc_nx_Some [simp]: "uc_nx mem a = Some r \<longleftrightarrow> (\<exists>uc. mem a = Some uc \<and> uc_next uc = r)"
  by (auto simp: uc_nx_def)

lemma uc_nx_upd: "uc_nx (mem(a \<mapsto> uc)) = (uc_nx mem)(a \<mapsto> uc_next uc)"
  by (auto simp: uc_nx_def)

lemma hash_fd_less [simp]: "hash_fd fd < HASHSIZE"
  by (simp add: hash_fd_def HASHSIZE_def unat_mod_distrib Let_def)

text \<open>The node of each socket: in the row of its hash value, and nothing else is in the rows.\<close>

definition row_rep :: "ptr list \<Rightarrow> (addr \<rightharpoonup> uncomplete) \<Rightarrow> (int \<rightharpoonup> addr) \<Rightarrow> nat \<Rightarrow> addr list \<Rightarrow> bool" where
  "row_rep hash mem m h xs \<longleftrightarrow> path (uc_nx mem) (hash ! h) xs None \<and> (\<forall>a. a \<in> set xs \<longleftrightarrow> (\<exists>fd. m fd = Some a \<and> hash_fd fd = h))"

definition hash_rep :: "ptr list \<Rightarrow> (addr \<rightharpoonup> uncomplete) \<Rightarrow> (int \<rightharpoonup> addr) \<Rightarrow> bool" where
  "hash_rep hash mem m \<longleftrightarrow> length hash = HASHSIZE \<and>
     (\<forall>fd a. m fd = Some a \<longrightarrow> (\<exists>uc. mem a = Some uc \<and> np_id (uc_pack uc) = fd)) \<and>
     (\<forall>h < HASHSIZE. \<exists>xs. row_rep hash mem m h xs)"

lemma hash_rep_id: "hash_rep hash mem m \<Longrightarrow> m fd = Some a \<Longrightarrow> \<exists>uc. mem a = Some uc \<and> np_id (uc_pack uc) = fd"
  by (simp add: hash_rep_def)

lemma hash_rep_inj: "hash_rep hash mem m \<Longrightarrow> m fd = Some a \<Longrightarrow> m fd' = Some a \<Longrightarrow> fd = fd'"
  using hash_rep_id [of hash mem m fd a] hash_rep_id [of hash mem m fd' a] by auto

lemma hash_rep_row: "hash_rep hash mem m \<Longrightarrow> h < HASHSIZE \<Longrightarrow> \<exists>xs. row_rep hash mem m h xs"
  by (simp add: hash_rep_def)

lemma row_in: "row_rep hash mem m h xs \<Longrightarrow> a \<in> set xs \<Longrightarrow> \<exists>fd. m fd = Some a \<and> hash_fd fd = h"
  by (simp add: row_rep_def)

lemma hash_rep_new: "hash_rep (replicate HASHSIZE None) mem Map.empty"
  by (auto simp: hash_rep_def row_rep_def intro!: exI [of _ "[]"])

lemma hash_rep_upd:
  assumes r: "hash_rep hash mem m" and u: "mem a = Some uc" "uc_next uc' = uc_next uc" "np_id (uc_pack uc') = np_id (uc_pack uc)"
  shows "hash_rep hash (mem(a \<mapsto> uc')) m"
proof -
  have "uc_nx (mem(a \<mapsto> uc')) = uc_nx mem" using u by (auto simp: uc_nx_def)
  then have "row_rep hash (mem(a \<mapsto> uc')) m h xs = row_rep hash mem m h xs" for h xs by (simp add: row_rep_def)
  moreover have "\<exists>uc. (mem(a \<mapsto> uc')) b = Some uc \<and> np_id (uc_pack uc) = fd" if "m fd = Some b" for fd b using hash_rep_id [OF r that] u by auto
  ultimately show ?thesis using r by (simp add: hash_rep_def)
qed

lemma hash_rep_other:
  assumes r: "hash_rep hash mem m" and a: "a \<notin> ran m"
  shows "hash_rep hash (mem(a := v)) m"
proof -
  have "row_rep hash (mem(a := v)) m h xs" if "row_rep hash mem m h xs" for h xs
  proof -
    have "a \<notin> set xs" using that a by (auto simp: row_rep_def ran_def)
    then have "path (uc_nx (mem(a := v))) (hash ! h) xs None = path (uc_nx mem) (hash ! h) xs None" by (intro path_cong) (auto simp: uc_nx_def)
    then show ?thesis using that by (simp add: row_rep_def)
  qed
  then show ?thesis using r a unfolding hash_rep_def by (auto simp: ran_def) blast
qed

lemma hash_rep_link:
  assumes r: "hash_rep hash mem m" and m: "m fd = None" "a \<notin> ran m" and u: "np_id (uc_pack uc) = fd" "uc_next uc = hash ! hash_fd fd"
  shows "hash_rep (hash[hash_fd fd := Some a]) (mem(a \<mapsto> uc)) (m(fd \<mapsto> a))"
proof -
  have r': "hash_rep hash (mem(a \<mapsto> uc)) m" using r m(2) by (rule hash_rep_other)
  have l: "length hash = HASHSIZE" using r by (simp add: hash_rep_def)
  have e: "(\<exists>f. (m(fd \<mapsto> a)) f = Some x \<and> hash_fd f = h) \<longleftrightarrow> (x = a \<and> hash_fd fd = h) \<or> (\<exists>f. m f = Some x \<and> hash_fd f = h)" for x h
    using m(1) by (auto split: if_splits) (metis option.distinct(1))+
  have "\<exists>xs. row_rep (hash[hash_fd fd := Some a]) (mem(a \<mapsto> uc)) (m(fd \<mapsto> a)) h xs" if h: "h < HASHSIZE" for h
  proof -
    obtain xs where x: "row_rep hash (mem(a \<mapsto> uc)) m h xs" using hash_rep_row [OF r' h] by blast
    show ?thesis
    proof (cases "h = hash_fd fd")
      case True
      have "row_rep (hash[hash_fd fd := Some a]) (mem(a \<mapsto> uc)) (m(fd \<mapsto> a)) h (a # xs)"
        using x True u l unfolding row_rep_def e by auto
      then show ?thesis ..
    next
      case False
      have "row_rep (hash[hash_fd fd := Some a]) (mem(a \<mapsto> uc)) (m(fd \<mapsto> a)) h xs"
        using x False unfolding row_rep_def e by auto
      then show ?thesis ..
    qed
  qed
  then show ?thesis using r u l m by (auto simp: hash_rep_def ran_def)
qed

lemma find_loop_path:
  assumes "path (uc_nx mem) (Some lst) (lst # us @ ys) None"
    and "\<forall>x \<in> set us. \<forall>uc. mem x = Some uc \<longrightarrow> np_id (uc_pack uc) \<noteq> fd"
  shows "ys = [] \<Longrightarrow> find_loop fd lst mem = Some (None, mem)"
    "ys = a # vs \<Longrightarrow> mem a = Some uc \<Longrightarrow> np_id (uc_pack uc) = fd \<Longrightarrow> \<exists>l. mem (last (lst # us)) = Some l \<and>
      find_loop fd lst mem = Some (Some a, mem(last (lst # us) \<mapsto> l\<lparr>uc_next := uc_next uc\<rparr>))"
proof -
  have "(ys = [] \<longrightarrow> find_loop fd lst mem = Some (None, mem)) \<and>
    (ys = a # vs \<longrightarrow> mem a = Some uc \<longrightarrow> np_id (uc_pack uc) = fd \<longrightarrow> (\<exists>l. mem (last (lst # us)) = Some l \<and>
      find_loop fd lst mem = Some (Some a, mem(last (lst # us) \<mapsto> l\<lparr>uc_next := uc_next uc\<rparr>))))"
    using assms
  proof (induction us arbitrary: lst)
    case Nil
    then show ?case by (subst (1 2) find_loop.simps) auto
  next
    case (Cons x us)
    then obtain l ux where l: "mem lst = Some l" "uc_next l = Some x" "mem x = Some ux" "path (uc_nx mem) (Some x) (x # us @ ys) None" by auto
    then have "find_loop fd lst mem = find_loop fd x mem" using Cons.prems(2) by (subst find_loop.simps) simp
    moreover have "last (lst # x # us) = last (x # us)" by simp
    ultimately show ?case using Cons.IH [OF l(4)] Cons.prems(2) by (simp only: list.set_intros ball_simps set_simps) auto
  qed
  then show "ys = [] \<Longrightarrow> find_loop fd lst mem = Some (None, mem)"
    "ys = a # vs \<Longrightarrow> mem a = Some uc \<Longrightarrow> np_id (uc_pack uc) = fd \<Longrightarrow> \<exists>l. mem (last (lst # us)) = Some l \<and>
      find_loop fd lst mem = Some (Some a, mem(last (lst # us) \<mapsto> l\<lparr>uc_next := uc_next uc\<rparr>))"
    by blast+
qed

text \<open>A node without its link.\<close>

definition uc_core :: "uncomplete \<Rightarrow> uncomplete" where "uc_core uc = uc\<lparr>uc_next := None\<rparr>"

lemma uc_core_simps [simp]: "uc_core (uc\<lparr>uc_next := p\<rparr>) = uc_core uc" "uc_pack (uc_core uc) = uc_pack uc" "uc_read (uc_core uc) = uc_read uc"
  "uc_header (uc_core uc) = uc_header uc"
  by (simp_all add: uc_core_def)

text \<open>Taking the node at a known place out of its row.\<close>

lemma hash_rep_unlink:
  assumes r: "hash_rep hash mem m" and m: "m fd = Some a" and x: "row_rep hash mem m (hash_fd fd) (us @ a # vs)"
    and p: "path (uc_nx mem') (hash' ! hash_fd fd) (us @ vs) None"
    and mem': "\<And>x. x \<notin> set us \<Longrightarrow> mem' x = mem x" "\<And>x. map_option uc_core (mem' x) = map_option uc_core (mem x)"
    and hash': "length hash' = HASHSIZE" "\<And>h. h \<noteq> hash_fd fd \<Longrightarrow> hash' ! h = hash ! h"
  shows "hash_rep hash' mem' (m(fd := None))"
proof -
  have d: "distinct (us @ a # vs)" using x path_distinct unfolding row_rep_def by blast
  have ain: "m f = Some a \<longleftrightarrow> f = fd" for f using hash_rep_inj [OF r m, of f] m by blast
  have "\<exists>xs. row_rep hash' mem' (m(fd := None)) h xs" if h: "h < HASHSIZE" for h
  proof (cases "h = hash_fd fd")
    case True
    have "y \<in> set (us @ vs) \<longleftrightarrow> (\<exists>f. (m(fd := None)) f = Some y \<and> hash_fd f = h)" for y
    proof -
      have "y \<in> set (us @ vs) \<longleftrightarrow> y \<in> set (us @ a # vs) \<and> y \<noteq> a" using d by auto
      also have "\<dots> \<longleftrightarrow> (\<exists>f. m f = Some y \<and> hash_fd f = h) \<and> y \<noteq> a" using x True by (auto simp: row_rep_def)
      also have "\<dots> \<longleftrightarrow> (\<exists>f. (m(fd := None)) f = Some y \<and> hash_fd f = h)" using ain m by (metis fun_upd_apply option.distinct(1) option.inject)
      finally show ?thesis .
    qed
    then show ?thesis using p unfolding row_rep_def True by blast
  next
    case False
    obtain xs where xs: "row_rep hash mem m h xs" using hash_rep_row [OF r h] by blast
    have "y \<notin> set us" if "y \<in> set xs" for y
    proof
      assume "y \<in> set us"
      then obtain f f' where "m f = Some y" "hash_fd f = hash_fd fd" "m f' = Some y" "hash_fd f' = h"
        using row_in [OF x, of y] row_in [OF xs \<open>y \<in> set xs\<close>] by auto
      then show False using hash_rep_inj [OF r] False by metis
    qed
    then have "path (uc_nx mem') (hash ! h) xs None" using xs mem'(1) path_cong [of xs "uc_nx mem'" "uc_nx mem"] by (auto simp: row_rep_def uc_nx_def)
    moreover have "y \<in> set xs \<longleftrightarrow> (\<exists>f. (m(fd := None)) f = Some y \<and> hash_fd f = h)" for y
      using xs False unfolding row_rep_def by auto
    ultimately show ?thesis using hash'(2) [OF False] unfolding row_rep_def by metis
  qed
  moreover have "\<exists>uc. mem' b = Some uc \<and> np_id (uc_pack uc) = f" if "(m(fd := None)) f = Some b" for f b
  proof -
    have "m f = Some b" using that by (simp split: if_splits)
    then obtain uc where "mem b = Some uc" "np_id (uc_pack uc) = f" using hash_rep_id [OF r] by blast
    then show ?thesis using mem'(2) [of b] by (auto simp: map_option_eq_Some) (metis uc_core_simps(2))
  qed
  ultimately show ?thesis using hash'(1) by (simp add: hash_rep_def)
qed

lemma row_ids:
  assumes "hash_rep hash mem m" "row_rep hash mem m h xs" "x \<in> set xs"
  shows "\<exists>uc. mem x = Some uc \<and> m (np_id (uc_pack uc)) = Some x"
  using assms hash_rep_id [OF assms(1)] by (fastforce simp: row_rep_def)

lemma find_none:
  assumes s: "np_stack st = Some q" and r: "hash_rep (nq_hash q) (np_mem st) m" and m: "m fd = None"
  shows "find_uncomplete fd st = Some (None, st)"
proof -
  obtain xs where x: "row_rep (nq_hash q) (np_mem st) m (hash_fd fd) xs" using hash_rep_row [OF r hash_fd_less] by blast
  have l: "length (nq_hash q) = HASHSIZE" using r by (simp add: hash_rep_def)
  have ne: "np_id (uc_pack uc) \<noteq> fd" if "y \<in> set xs" "np_mem st y = Some uc" for y uc using row_ids [OF r x that(1)] that(2) m by auto
  show ?thesis
  proof (cases xs)
    case Nil
    then show ?thesis using s x l by (simp add: find_uncomplete_def row_rep_def)
  next
    case (Cons a ys)
    then obtain uc where a: "nq_hash q ! hash_fd fd = Some a" "np_mem st a = Some uc" "path (uc_nx (np_mem st)) (Some a) (a # ys @ []) None" using x by (auto simp: row_rep_def)
    have "find_loop fd a (np_mem st) = Some (None, np_mem st)" by (rule find_loop_path(1) [OF a(3)]) (use ne Cons in auto)
    then show ?thesis using s a l ne [of a uc] Cons by (simp add: find_uncomplete_def)
  qed
qed

lemma find_some:
  assumes s: "np_stack st = Some q" and r: "hash_rep (nq_hash q) (np_mem st) m" and m: "m fd = Some a"
  shows "\<exists>hash' mem'. find_uncomplete fd st = Some (Some a, st\<lparr>np_stack := Some (q\<lparr>nq_hash := hash'\<rparr>), np_mem := mem'\<rparr>) \<and>
    hash_rep hash' mem' (m(fd := None)) \<and> (\<forall>x. map_option uc_core (mem' x) = map_option uc_core (np_mem st x))"
proof -
  let ?mem = "np_mem st" and ?h = "hash_fd fd"
  obtain xs where x: "row_rep (nq_hash q) ?mem m ?h xs" using hash_rep_row [OF r hash_fd_less] by blast
  have l: "length (nq_hash q) = HASHSIZE" using r by (simp add: hash_rep_def)
  obtain uc where uc: "?mem a = Some uc" "np_id (uc_pack uc) = fd" using hash_rep_id [OF r m] by blast
  have "a \<in> set xs" using x m by (auto simp: row_rep_def)
  then obtain us vs where xs: "xs = us @ a # vs" by (auto dest: split_list)
  have d: "distinct xs" using x path_distinct unfolding row_rep_def by blast
  have ne: "np_id (uc_pack u) \<noteq> fd" if "y \<in> set us" "?mem y = Some u" for y u
    using row_ids [OF r x, of y] that m d xs by auto
  have pth: "path (uc_nx ?mem) (nq_hash q ! ?h) (us @ a # vs) None" using x xs by (simp add: row_rep_def)
  then have pv: "path (uc_nx ?mem) (uc_next uc) vs None" using uc by (auto simp: path_append)
  show ?thesis
  proof (cases us)
    case Nil
    then have a: "nq_hash q ! ?h = Some a" using pth by simp
    have "hash_rep ((nq_hash q)[?h := uc_next uc]) ?mem (m(fd := None))"
      by (rule hash_rep_unlink [OF r m x [unfolded xs]]) (use pv l Nil in simp_all)
    moreover have "find_uncomplete fd st = Some (Some a, st\<lparr>np_stack := Some (q\<lparr>nq_hash := (nq_hash q)[?h := uc_next uc]\<rparr>), np_mem := ?mem\<rparr>)"
      using s l a uc by (simp add: find_uncomplete_def)
    ultimately show ?thesis by blast
  next
    case (Cons u us')
    have a: "nq_hash q ! ?h = Some u" using pth Cons by simp
    have pu: "path (uc_nx ?mem) (Some u) (u # us' @ a # vs) None" using pth Cons a by simp
    obtain uu where uu: "?mem u = Some uu" using pu by auto
    obtain k where k: "?mem (last us) = Some k" "find_loop fd u ?mem = Some (Some a, ?mem(last us \<mapsto> k\<lparr>uc_next := uc_next uc\<rparr>))"
      using find_loop_path(2) [OF pu _ refl uc] ne Cons by auto
    let ?mem' = "?mem(last us \<mapsto> k\<lparr>uc_next := uc_next uc\<rparr>)"
    have find: "find_uncomplete fd st = Some (Some a, st\<lparr>np_stack := Some (q\<lparr>nq_hash := nq_hash q\<rparr>), np_mem := ?mem'\<rparr>)"
      using s l a uu ne [of u uu] k(2) Cons by (simp add: find_uncomplete_def)
    have us: "us = butlast us @ [last us]" "last us \<in> set us" using Cons by simp_all
    have "path (uc_nx ?mem') (nq_hash q ! ?h) (us @ vs) None"
    proof -
      have n: "last us \<notin> set (butlast us)" "last us \<notin> set vs" using d xs us distinct_butlast [of us] by (metis distinct_append not_distinct_conv_prefix append.assoc) (use d xs us(2) in auto)
      have "path (uc_nx ?mem) (nq_hash q ! ?h) (butlast us) (Some (last us))" using pth us(1) path_append [of _ _ "butlast us" "last us # a # vs"] by (metis append.assoc append_Cons append_Nil path.simps(2))
      then have "path (uc_nx ?mem') (nq_hash q ! ?h) (butlast us) (Some (last us))" "path (uc_nx ?mem') (uc_next uc) vs None"
        using n pv by (simp_all add: uc_nx_upd)
      then have "path (uc_nx ?mem') (nq_hash q ! ?h) (butlast us @ last us # vs) None" by (auto simp: path_append)
      then show ?thesis using us(1) by (metis append.assoc append_Cons append_Nil)
    qed
    then have "hash_rep (nq_hash q) ?mem' (m(fd := None))"
      by (rule hash_rep_unlink [OF r m x [unfolded xs]]) (use us(2) k(1) l in auto)
    moreover have "map_option uc_core (?mem' y) = map_option uc_core (?mem y)" for y using k(1) by simp
    ultimately show ?thesis using find by blast
  qed
qed

subsection \<open>Packets in a stream\<close>

function split_packets :: "u8 list \<Rightarrow> u8 list list \<times> u8 list" where
  "split_packets bs =
     (case read_size bs of
        None \<Rightarrow> ([], bs)
      | Some n \<Rightarrow>
          if length bs < 2 + n then ([], bs)
          else (let (ps, r) = split_packets (drop (2 + n) bs) in (take n (drop 2 bs) # ps, r)))"
  by pat_completeness auto
termination by (relation "measure length") auto

declare split_packets.simps [simp del] push_more.simps [simp del]

lemma read_size_None [simp]: "read_size bs = None \<longleftrightarrow> length bs < 2"
  by (auto simp: read_size_def split: list.splits)

lemma read_size_append: "read_size bs = Some n \<Longrightarrow> read_size (bs @ cs) = Some n"
  by (auto simp: read_size_def split: list.splits)

lemma read_size_length: "read_size bs = Some n \<Longrightarrow> 2 \<le> length bs"
  by (metis not_less option.distinct(1) read_size_None)

lemma split_short: "read_size bs = Some n \<Longrightarrow> length bs < 2 + n \<Longrightarrow> split_packets bs = ([], bs)"
  by (subst split_packets.simps) simp

lemma split_tiny: "length bs < 2 \<Longrightarrow> split_packets bs = ([], bs)"
  by (subst split_packets.simps) (simp flip: read_size_None)

lemma split_long:
  "read_size bs = Some n \<Longrightarrow> 2 + n \<le> length bs \<Longrightarrow> split_packets bs = (take n (drop 2 bs) # fst (split_packets (drop (2 + n) bs)), snd (split_packets (drop (2 + n) bs)))"
  by (subst split_packets.simps) (simp add: case_prod_unfold Let_def)

text \<open>The rest holds no whole packet.\<close>

lemma split_rest: "split_packets (snd (split_packets bs)) = ([], snd (split_packets bs))"
proof (induction bs rule: split_packets.induct)
  case (1 bs)
  show ?case
  proof (cases "read_size bs")
    case None
    then show ?thesis using split_tiny by simp
  next
    case (Some n)
    then show ?thesis using 1 [OF Some] split_short [OF Some] split_long [OF Some] by (cases "length bs < 2 + n") auto
  qed
qed

lemma split_append:
  "split_packets (bs @ cs) = (let (ps, r) = split_packets bs; (ps', r') = split_packets (r @ cs) in (ps @ ps', r'))"
proof (induction bs rule: split_packets.induct)
  case (1 bs)
  show ?case
  proof (cases "read_size bs")
    case None
    then show ?thesis using split_tiny [of bs] by (simp add: case_prod_unfold)
  next
    case (Some n)
    show ?thesis
    proof (cases "length bs < 2 + n")
      case True
      then show ?thesis using split_short [OF Some] by (simp add: case_prod_unfold)
    next
      case False
      then have "split_packets (bs @ cs) = (take n (drop 2 bs) # fst (split_packets (drop (2 + n) bs @ cs)), snd (split_packets (drop (2 + n) bs @ cs)))"
        using split_long [OF read_size_append [OF Some]] by simp
      then show ?thesis using 1 [OF Some False] False split_long [OF Some] by (simp add: case_prod_unfold Let_def)
    qed
  qed
qed

lemma split_nil_rest: "split_packets bs = ([], r) \<Longrightarrow> r = bs"
  by (subst (asm) split_packets.simps) (auto simp: case_prod_unfold Let_def split: option.splits if_splits)

lemma read_write_size:
  assumes "length p < 65536"
  shows "read_size (write_size (length p) @ r) = Some (length p)"
proof -
  have a: "drop_bit 8 (length p) AND 0xff = length p div 256" "length p AND 0xff = length p mod 256"
    using assms take_bit_eq_mask [of 8 "length p div 256"] take_bit_eq_mask [of 8 "length p"]
    by (simp_all add: drop_bit_eq_div mask_eq_exp_minus_1 take_bit_eq_mod)
  have "length p div 256 < 256" using assms by (simp add: less_mult_imp_div_less)
  then have "unat (of_nat (length p div 256) :: u8) = length p div 256" "unat (of_nat (length p mod 256) :: u8) = length p mod 256"
    by (simp_all add: unsigned_of_nat take_bit_nat_eq_self)
  then show ?thesis by (simp add: read_size_def write_size_def a)
qed

text \<open>Cutting the packets that \<open>lpack\<close> makes gives the texts that were packed.\<close>

lemma split_packed:
  assumes "list_all (\<lambda>p. length p < 65536) ps"
  shows "split_packets (concat (map (\<lambda>p. write_size (length p) @ p) ps) @ r) = (ps @ fst (split_packets r), snd (split_packets r))"
  using assms
proof (induction ps)
  case (Cons p ps)
  let ?rest = "concat (map (\<lambda>p. write_size (length p) @ p) ps) @ r"
  have s: "read_size (write_size (length p) @ p @ ?rest) = Some (length p)" using Cons.prems by (intro read_write_size) simp
  have l: "length (write_size (length p)) = 2" by (simp add: write_size_def)
  show ?case using split_long [OF s] Cons l by simp
qed simp

subsection \<open>What a state stands for\<close>

text \<open>A node holds the bytes of an incomplete packet, its length included.\<close>

definition uc_ok :: "uncomplete \<Rightarrow> u8 list \<Rightarrow> bool" where
  "uc_ok uc bs \<longleftrightarrow>
     (uc_read uc = -1 \<and> (\<exists>b. bs = [b] \<and> uc_header uc = uint b)) \<or>
     (\<exists>n. read_size bs = Some n \<and> length bs < 2 + n \<and> uc_read uc = int (length bs - 2) \<and> np_size (uc_pack uc) = n \<and>
        np_buffer (uc_pack uc) = map Some (drop 2 bs) @ replicate (2 + n - length bs) None)"

lemma uc_ok_core [simp]: "uc_ok (uc_core uc) bs = uc_ok uc bs"
  by (simp add: uc_ok_def)

definition stack_q :: "np_state \<Rightarrow> np_queue" where
  "stack_q st = (case np_stack st of None \<Rightarrow> new_queue | Some q \<Rightarrow> q)"

definition pack_of :: "int \<times> u8 list \<Rightarrow> netpack" where
  "pack_of x = \<lparr>np_id = fst x, np_size = length (snd x), np_buffer = map Some (snd x)\<rparr>"

definition pend_ok :: "(addr \<rightharpoonup> uncomplete) \<Rightarrow> (int \<rightharpoonup> addr) \<Rightarrow> (int \<Rightarrow> u8 list) \<Rightarrow> bool" where
  "pend_ok mem m pend \<longleftrightarrow> (\<forall>fd. case m fd of None \<Rightarrow> pend fd = [] | Some a \<Rightarrow> (\<exists>uc. mem a = Some uc \<and> uc_ok uc (pend fd)))"

text \<open>The bytes that wait for each socket, and the packets in the queue; \<open>X\<close> are nodes outside the table.\<close>

definition np_inv :: "np_state \<Rightarrow> (int \<rightharpoonup> addr) \<Rightarrow> addr set \<Rightarrow> (int \<Rightarrow> u8 list) \<Rightarrow> (int \<times> u8 list) list \<Rightarrow> bool" where
  "np_inv st m X pend que \<longleftrightarrow>
     nq_wf (stack_q st) \<and> nq_list (stack_q st) = map pack_of que \<and> hash_rep (nq_hash (stack_q st)) (np_mem st) m \<and>
     dom (np_mem st) = ran m \<union> X \<and> X \<inter> ran m = {} \<and> (\<forall>a \<in> dom (np_mem st). a < np_brk st) \<and>
     pend_ok (np_mem st) m pend"

lemma nq_set_hash [simp]: "nq_wf (q\<lparr>nq_hash := h\<rparr>) = nq_wf q" "nq_list (q\<lparr>nq_hash := h\<rparr>) = nq_list q"
proof -
  have "nq_length (q\<lparr>nq_hash := h\<rparr>) = nq_length q" by (simp add: nq_length_def)
  then have "nq_ring (q\<lparr>nq_hash := h\<rparr>) = nq_ring q" by (simp add: nq_ring_def)
  then show "nq_wf (q\<lparr>nq_hash := h\<rparr>) = nq_wf q" "nq_list (q\<lparr>nq_hash := h\<rparr>) = nq_list q" by (simp_all add: nq_wf_def nq_list_def)
qed

lemma get_queue_eq: "get_queue st = (stack_q st, st\<lparr>np_stack := Some (stack_q st)\<rparr>)"
  by (cases st) (simp add: get_queue_def stack_q_def Let_def split: option.split)

lemma stack_q_upd [simp]: "stack_q (st\<lparr>np_stack := Some q\<rparr>) = q" "stack_q (st\<lparr>np_mem := mem\<rparr>) = stack_q st" "stack_q (st\<lparr>np_brk := b\<rparr>) = stack_q st"
  "stack_q (st\<lparr>np_stack := Some q, np_mem := mem\<rparr>) = q" "stack_q (st\<lparr>np_stack := Some q, np_mem := mem, np_brk := b\<rparr>) = q"
  by (simp_all add: stack_q_def)

lemma memcpy_start: "np_memcpy (np_malloc (length p)) 0 (map Some (p @ r)) (length p) = Some (map Some p)"
  by (simp add: np_memcpy_def np_malloc_def)

lemma push_data_ok:
  assumes inv: "np_inv st m X pend que" and b: "clone = False \<and> buf = map Some p \<or> clone \<and> buf = map Some (p @ r)"
  shows "\<exists>st'. push_data fd buf (length p) clone st = Some st' \<and> np_inv st' m X pend (que @ [(fd, p)]) \<and> np_mem st' = np_mem st \<and> np_brk st' = np_brk st"
proof -
  have i: "nq_wf (stack_q st)" "nq_list (stack_q st) = map pack_of que" using inv by (simp_all add: np_inv_def)
  obtain q where q: "queue_put (pack_of (fd, p)) (stack_q st) = Some q" "nq_wf q" "nq_list q = nq_list (stack_q st) @ [pack_of (fd, p)]" "nq_hash q = nq_hash (stack_q st)"
    using queue_put_ok [OF i(1), of "pack_of (fd, p)"] by blast
  have "(if clone then np_memcpy (np_malloc (length p)) 0 buf (length p) else Some buf) = Some (map Some p)"
    using b memcpy_start [of p r] by auto
  then have "push_data fd buf (length p) clone st = Some (st\<lparr>np_stack := Some q\<rparr>)"
    using q(1) by (simp add: push_data_def get_queue_eq pack_of_def)
  then show ?thesis using inv q i by (intro exI [of _ "st\<lparr>np_stack := Some q\<rparr>"]) (simp add: np_inv_def)
qed

lemma save_ok:
  assumes inv: "np_inv st m {} pend que" and m: "m fd = None"
    and f: "\<And>uc. uc_next (f uc) = uc_next uc" "\<And>uc. np_id (uc_pack (f uc)) = np_id (uc_pack uc)" "\<And>uc. uc_ok (f uc) bs"
  shows "\<exists>a st1 st' m'. save_uncomplete fd st = Some (a, st1) \<and> upd_uc a f st1 = Some st' \<and> np_inv st' m' {} (pend(fd := bs)) que"
proof -
  let ?q = "stack_q st" and ?a = "np_brk st" and ?h = "hash_fd fd"
  have r: "hash_rep (nq_hash ?q) (np_mem st) m" "dom (np_mem st) = ran m" "\<forall>a \<in> dom (np_mem st). a < np_brk st"
    and wf: "nq_wf ?q" "nq_list ?q = map pack_of que"
    and pd: "pend_ok (np_mem st) m pend"
    using inv by (simp_all add: np_inv_def)
  have l: "length (nq_hash ?q) = HASHSIZE" using r(1) by (simp add: hash_rep_def)
  have fresh: "?a \<notin> ran m" using r(2,3) by blast
  define uc where "uc = \<lparr>uc_pack = \<lparr>np_id = fd, np_size = 0, np_buffer = []\<rparr>, uc_next = nq_hash ?q ! ?h, uc_read = 0, uc_header = 0\<rparr>"
  let ?q' = "?q\<lparr>nq_hash := (nq_hash ?q)[?h := Some ?a]\<rparr>"
  define st1 where "st1 = st\<lparr>np_stack := Some ?q', np_mem := (np_mem st)(?a \<mapsto> uc), np_brk := ?a + 1\<rparr>"
  define st' where "st' = st\<lparr>np_stack := Some ?q', np_mem := (np_mem st)(?a \<mapsto> f uc), np_brk := ?a + 1\<rparr>"
  have "save_uncomplete fd st = Some (?a, st1)" using l by (simp add: save_uncomplete_def get_queue_eq st1_def uc_def Let_def)
  moreover have "upd_uc ?a f st1 = Some st'" by (simp add: upd_uc_def st1_def st'_def)
  moreover have "np_inv st' (m(fd \<mapsto> ?a)) {} (pend(fd := bs)) que"
  proof -
    have 1: "hash_rep ((nq_hash ?q)[?h := Some ?a]) ((np_mem st)(?a \<mapsto> f uc)) (m(fd \<mapsto> ?a))"
      by (rule hash_rep_link [OF r(1) m fresh]) (simp_all add: f uc_def)
    have 2: "ran (m(fd \<mapsto> ?a)) = insert ?a (ran m)" using m by (rule ran_map_upd)
    have "case (m(fd \<mapsto> ?a)) fd' of None \<Rightarrow> (pend(fd := bs)) fd' = []
        | Some a \<Rightarrow> (\<exists>u. ((np_mem st)(?a \<mapsto> f uc)) a = Some u \<and> uc_ok u ((pend(fd := bs)) fd'))" for fd'
      using pd [unfolded pend_ok_def, rule_format, of fd'] fresh f(3) by (auto simp: ran_def split: option.splits)
    then have 3: "pend_ok ((np_mem st)(?a \<mapsto> f uc)) (m(fd \<mapsto> ?a)) (pend(fd := bs))" unfolding pend_ok_def by blast
    show ?thesis unfolding np_inv_def using 1 2 3 r(2,3) wf by (auto simp: st'_def)
  qed
  ultimately show ?thesis by blast
qed

lemma save_header_ok:
  assumes "np_inv st m {} pend que" "m fd = None"
  shows "\<exists>st' m'. save_header fd [b] st = Some st' \<and> np_inv st' m' {} (pend(fd := [b])) que"
proof -
  have "\<exists>a st1 st' m'. save_uncomplete fd st = Some (a, st1) \<and> upd_uc a (\<lambda>uc. uc\<lparr>uc_read := -1, uc_header := uint b\<rparr>) st1 = Some st' \<and> np_inv st' m' {} (pend(fd := [b])) que"
    by (rule save_ok [OF assms]) (simp_all add: uc_ok_def)
  then show ?thesis by (auto simp: save_header_def)
qed

lemma save_start_ok:
  assumes "np_inv st m {} pend que" "m fd = None" and bs: "read_size bs = Some n" "length bs < 2 + n"
  shows "\<exists>st' m'. save_start fd n (drop 2 bs) st = Some st' \<and> np_inv st' m' {} (pend(fd := bs)) que"
proof -
  let ?buf = "map Some (drop 2 bs) @ replicate (2 + n - length bs) None"
  let ?f = "\<lambda>uc. uc\<lparr>uc_read := int (length (drop 2 bs)), uc_pack := (uc_pack uc)\<lparr>np_size := n, np_buffer := ?buf\<rparr>\<rparr>"
  have "np_memcpy (np_malloc n) 0 (map Some (drop 2 bs)) (length (drop 2 bs)) = Some ?buf"
    using bs read_size_length [OF bs(1)] by (simp add: np_memcpy_def np_malloc_def)
  moreover have "\<exists>a st1 st' m'. save_uncomplete fd st = Some (a, st1) \<and> upd_uc a ?f st1 = Some st' \<and> np_inv st' m' {} (pend(fd := bs)) que"
    by (rule save_ok [OF assms(1,2)]) (use bs in \<open>simp_all add: uc_ok_def\<close>)
  ultimately show ?thesis by (auto simp: save_start_def)
qed

lemma push_more_ok:
  assumes "np_inv st m {} pend que" "m fd = None" "buffer \<noteq> []" "pend fd = []"
  shows "\<exists>st' m'. push_more fd buffer st = Some st' \<and>
    np_inv st' m' {} (pend(fd := snd (split_packets buffer))) (que @ map (Pair fd) (fst (split_packets buffer)))"
  using assms
proof (induction "length buffer" arbitrary: buffer st que rule: less_induct)
  case less
  note prems = less.prems
  show ?case
  proof (cases "length buffer = 1")
    case True
    then obtain b where b: "buffer = [b]" by (auto simp: length_Suc_conv)
    then show ?thesis using save_header_ok [OF prems(1,2), of b] split_tiny [of buffer] by (subst push_more.simps) simp
  next
    case False
    then have "2 \<le> length buffer" using prems(3) by (cases buffer) (auto simp: Suc_le_eq)
    then obtain n where n: "read_size buffer = Some n" by (metis not_less option.exhaust read_size_None)
    show ?thesis
    proof (cases "length buffer < 2 + n")
      case True
      then have "length buffer - 2 < n" using \<open>2 \<le> length buffer\<close> by linarith
      then have "push_more fd buffer st = save_start fd n (drop 2 buffer) st" using False n by (subst push_more.simps) simp
      then show ?thesis using save_start_ok [OF prems(1,2) n True] split_short [OF n True] by simp
    next
      case l: False
      define p where "p = take n (drop 2 buffer)"
      define r where "r = drop (2 + n) buffer"
      have "r = drop n (drop 2 buffer)" by (simp add: r_def add.commute)
      then have p: "length p = n" "drop 2 buffer = p @ r" using l by (simp_all add: p_def del: drop_drop)
      have sp: "split_packets buffer = (p # fst (split_packets r), snd (split_packets r))" using split_long [OF n] l by (simp add: p_def r_def)
      obtain st1 where st1: "push_data fd (map Some (drop 2 buffer)) n True st = Some st1" "np_inv st1 m {} pend (que @ [(fd, p)])"
        using push_data_ok [OF prems(1), of True "map Some (p @ r)" p r fd] p by auto
      have pm: "push_more fd buffer st = (if r = [] then Some st1 else push_more fd r st1)"
        using False n l st1(1) by (subst push_more.simps) (auto simp: r_def)
      show ?thesis
      proof (cases "r = []")
        case True
        then show ?thesis using pm st1(2) sp split_tiny [of "[]"] prems(4) by (auto simp: fun_upd_idem)
      next
        case False
        have "length r < length buffer" using \<open>2 \<le> length buffer\<close> by (simp add: r_def)
        from less.hyps [OF this st1(2) prems(2) False prems(4)] show ?thesis using pm False sp by simp
      qed
    qed
  qed
qed

subsection \<open>Receiving\<close>

text \<open>What a call does when the bytes \<open>s\<close> are all that is known of the stream: no packet is complete, or the bytes are one
  packet, or all complete packets go to the queue.\<close>

definition spec_result :: "int \<Rightarrow> u8 list \<Rightarrow> (int \<Rightarrow> u8 list) \<Rightarrow> (int \<times> u8 list) list \<Rightarrow> np_result \<times> (int \<Rightarrow> u8 list) \<times> (int \<times> u8 list) list" where
  "spec_result fd s pend que =
     (let (ps, r) = split_packets s; pend' = pend(fd := r)
      in if ps = [] then (Np_none, pend', que)
         else if length ps = 1 \<and> r = [] then (Np_data fd (map Some (hd ps)) (length (hd ps)), pend', que)
         else (Np_more, pend', que @ map (Pair fd) ps))"

definition matches :: "(np_result \<times> np_state) option \<Rightarrow> np_result \<times> (int \<Rightarrow> u8 list) \<times> (int \<times> u8 list) list \<Rightarrow> bool" where
  "matches res spec \<longleftrightarrow> (\<exists>st' m'. res = Some (fst spec, st') \<and> np_inv st' m' {} (fst (snd spec)) (snd (snd spec)))"

lemma header_join: "nat (uint (b1 :: u8) OR push_bit 8 (uint (b0 :: u8))) = unat b0 * 256 + unat b1"
proof -
  have "take_bit 8 (uint b1) = uint b1" using bintr_uint [of 8 b1] by simp
  then have "uint b1 OR push_bit 8 (uint b0) = uint b1 + push_bit 8 (uint b0)"
    using concat_bit_eq [of 8 "uint b1" "uint b0"] by (simp add: concat_bit_def)
  also have "\<dots> = int (unat b0 * 256 + unat b1)" by (simp add: push_bit_eq_mult)
  finally show ?thesis by (simp only: nat_int)
qed

lemma fill_header_ok:
  assumes "uc_ok uc bs" "buffer \<noteq> []"
  shows "\<exists>uc' buffer' n pre. fill_header uc buffer = Some (uc', buffer') \<and> read_size (bs @ buffer) = Some n \<and>
    np_id (uc_pack uc') = np_id (uc_pack uc) \<and> uc_read uc' = int (length pre) \<and> np_size (uc_pack uc') = n \<and>
    np_buffer (uc_pack uc') = map Some pre @ replicate (n - length pre) None \<and> drop 2 (bs @ buffer) = pre @ buffer' \<and> length pre \<le> n"
  using assms(1) unfolding uc_ok_def
proof (elim disjE exE conjE)
  fix b assume b: "uc_read uc = -1" "bs = [b]" "uc_header uc = uint b"
  obtain c cs where c: "buffer = c # cs" using assms(2) by (cases buffer) auto
  let ?n = "unat b * 256 + unat c"
  have "fill_header uc buffer = Some (uc\<lparr>uc_pack := (uc_pack uc)\<lparr>np_size := ?n, np_buffer := np_malloc ?n\<rparr>, uc_read := 0\<rparr>, cs)"
    using b c header_join [of c b] by (simp add: fill_header_def Let_def)
  moreover have "read_size (bs @ buffer) = Some ?n" using b c by (simp add: read_size_def)
  moreover have "drop 2 (bs @ buffer) = [] @ cs" using b c by simp
  ultimately show ?thesis
    by (intro exI [of _ "uc\<lparr>uc_pack := (uc_pack uc)\<lparr>np_size := ?n, np_buffer := np_malloc ?n\<rparr>, uc_read := 0\<rparr>"] exI [of _ cs] exI [of _ ?n] exI [of _ "[]"])
      (simp add: np_malloc_def)
next
  fix n assume n: "read_size bs = Some n" "length bs < 2 + n" "uc_read uc = int (length bs - 2)" "np_size (uc_pack uc) = n"
    "np_buffer (uc_pack uc) = map Some (drop 2 bs) @ replicate (2 + n - length bs) None"
  note l = read_size_length [OF n(1)]
  have e: "2 + n - length bs = n - length (drop 2 bs)" using l n(2) by simp
  have "fill_header uc buffer = Some (uc, buffer)" using n(3) by (simp add: fill_header_def)
  moreover have "np_buffer (uc_pack uc) = map Some (drop 2 bs) @ replicate (n - length (drop 2 bs)) None" using n(5) by (simp only: e)
  moreover have "uc_read uc = int (length (drop 2 bs))" "drop 2 (bs @ buffer) = drop 2 bs @ buffer" "length (drop 2 bs) \<le> n" using n(2,3) l by simp_all
  ultimately show ?thesis using n(4) read_size_append [OF n(1), of buffer] by blast
qed

lemma memcpy_fill:
  assumes "length pre + k \<le> n" "k \<le> length buffer"
  shows "np_memcpy (map Some pre @ replicate (n - length pre) None) (length pre) (map Some buffer) k =
    Some (map Some (pre @ take k buffer) @ replicate (n - length pre - k) None)"
  using assms by (simp add: np_memcpy_def take_map)

lemma np_inv_free:
  assumes "np_inv st m {a} pend que"
  shows "np_inv (st\<lparr>np_mem := (np_mem st)(a := None)\<rparr>) m {} pend que"
proof -
  have i: "hash_rep (nq_hash (stack_q st)) (np_mem st) m" "a \<notin> ran m" "dom (np_mem st) = ran m \<union> {a}" "pend_ok (np_mem st) m pend"
    using assms by (simp_all add: np_inv_def)
  have "case m fd of None \<Rightarrow> pend fd = [] | Some x \<Rightarrow> (\<exists>u. ((np_mem st)(a := None)) x = Some u \<and> uc_ok u (pend fd))" for fd
    using i(4) [unfolded pend_ok_def, rule_format, of fd] i(2) by (auto simp: ran_def split: option.splits)
  then have "pend_ok ((np_mem st)(a := None)) m pend" unfolding pend_ok_def by blast
  then show ?thesis using assms i hash_rep_other [OF i(1,2)] by (auto simp: np_inv_def)
qed

lemma np_inv_relink:
  assumes inv: "np_inv st m {a} pend que" and s: "np_stack st = Some q" and m: "m fd = None"
    and uc: "np_id (uc_pack uc) = fd" "uc_next uc = nq_hash q ! hash_fd fd" "uc_ok uc bs"
  shows "np_inv (st\<lparr>np_stack := Some (q\<lparr>nq_hash := (nq_hash q)[hash_fd fd := Some a]\<rparr>), np_mem := (np_mem st)(a \<mapsto> uc)\<rparr>)
    (m(fd \<mapsto> a)) {} (pend(fd := bs)) que"
proof -
  have q: "stack_q st = q" using s by (simp add: stack_q_def)
  have i: "hash_rep (nq_hash q) (np_mem st) m" "a \<notin> ran m" "dom (np_mem st) = ran m \<union> {a}" "pend_ok (np_mem st) m pend" "nq_wf q" "nq_list q = map pack_of que"
      "\<forall>a \<in> dom (np_mem st). a < np_brk st"
    using inv by (simp_all add: np_inv_def q)
  have "case (m(fd \<mapsto> a)) fd' of None \<Rightarrow> (pend(fd := bs)) fd' = []
      | Some x \<Rightarrow> (\<exists>u. ((np_mem st)(a \<mapsto> uc)) x = Some u \<and> uc_ok u ((pend(fd := bs)) fd'))" for fd'
    using i(4) [unfolded pend_ok_def, rule_format, of fd'] i(2) uc(3) by (auto simp: ran_def split: option.splits)
  then have "pend_ok ((np_mem st)(a \<mapsto> uc)) (m(fd \<mapsto> a)) (pend(fd := bs))" unfolding pend_ok_def by blast
  then show ?thesis using i hash_rep_link [OF i(1) m i(2) uc(1,2)] ran_map_upd [of m fd a] m by (simp add: np_inv_def)
qed

lemma fill_uncomplete_ok:
  assumes inv: "np_inv st m {a} pend que" and s: "np_stack st = Some q" and m: "m fd = None"
    and uc: "np_mem st a = Some uc" "np_id (uc_pack uc) = fd" "uc_ok uc bs" and b: "buffer \<noteq> []"
  shows "matches (fill_uncomplete fd a buffer st) (spec_result fd (bs @ buffer) pend que)"
proof -
  obtain uc' buffer' n pre where f: "fill_header uc buffer = Some (uc', buffer')" "read_size (bs @ buffer) = Some n"
      "np_id (uc_pack uc') = fd" "uc_read uc' = int (length pre)" "np_size (uc_pack uc') = n"
      "np_buffer (uc_pack uc') = map Some pre @ replicate (n - length pre) None" "drop 2 (bs @ buffer) = pre @ buffer'" "length pre \<le> n"
    using fill_header_ok [OF uc(3) b] uc(2) by metis
  have ls: "length (bs @ buffer) = 2 + length pre + length buffer'"
    using read_size_length [OF f(2)] arg_cong [OF f(7), of length] by (simp add: length_drop)
  have pd: "pend fd = []" using inv m by (auto simp: np_inv_def pend_ok_def dest: spec [of _ fd])
  have lh: "length (nq_hash q) = HASHSIZE" using inv s by (simp add: np_inv_def stack_q_def hash_rep_def)
  show ?thesis
  proof (cases "length buffer' < n - length pre")
    case True
    let ?uc = "uc'\<lparr>uc_pack := (uc_pack uc')\<lparr>np_buffer := map Some (pre @ buffer') @ replicate (n - length pre - length buffer') None\<rparr>,
      uc_read := uc_read uc' + int (length buffer'), uc_next := nq_hash q ! hash_fd fd\<rparr>"
    let ?st = "st\<lparr>np_stack := Some (q\<lparr>nq_hash := (nq_hash q)[hash_fd fd := Some a]\<rparr>), np_mem := (np_mem st)(a \<mapsto> ?uc)\<rparr>"
    have cpy: "np_memcpy (np_buffer (uc_pack uc')) (length pre) (map Some buffer') (length buffer') =
        Some (map Some (pre @ buffer') @ replicate (n - length pre - length buffer') None)"
      using memcpy_fill [of pre "length buffer'" n buffer'] True f(6) by simp
    have "fill_uncomplete fd a buffer st = Some (Np_none, ?st)"
      using uc(1) f(1,4,5) True cpy s lh by (simp add: fill_uncomplete_def Let_def)
    moreover have "uc_ok ?uc (bs @ buffer)"
      unfolding uc_ok_def using f(2,4,5,7) True ls by (intro disjI2 exI [of _ n]) simp
    then have "np_inv ?st (m(fd \<mapsto> a)) {} (pend(fd := bs @ buffer)) que"
      by (intro np_inv_relink [OF inv s m]) (simp_all add: f(3))
    moreover have "split_packets (bs @ buffer) = ([], bs @ buffer)" using split_short [OF f(2)] True ls by simp
    ultimately show ?thesis by (auto simp: matches_def spec_result_def)
  next
    case False
    let ?need = "n - length pre"
    define p where "p = pre @ take ?need buffer'"
    define r where "r = drop ?need buffer'"
    have p: "length p = n" using False f(8) by (simp add: p_def)
    have d: "take n (drop 2 (bs @ buffer)) = p" "drop (2 + n) (bs @ buffer) = r"
    proof -
      show "take n (drop 2 (bs @ buffer)) = p" unfolding f(7) using f(8) by (simp add: p_def)
      have "drop (2 + n) (bs @ buffer) = drop n (drop 2 (bs @ buffer))" by (simp only: drop_drop add.commute)
      then show "drop (2 + n) (bs @ buffer) = r" unfolding f(7) using f(8) by (simp add: r_def)
    qed
    have sp: "split_packets (bs @ buffer) = (p # fst (split_packets r), snd (split_packets r))"
      using split_long [OF f(2)] False ls f(8) d by simp
    have cpy: "np_memcpy (np_buffer (uc_pack uc')) (length pre) (map Some buffer') ?need = Some (map Some p)"
      using memcpy_fill [of pre ?need n buffer'] False f(6,8) by (simp add: p_def)
    show ?thesis
    proof (cases "r = []")
      case True
      then have "fill_uncomplete fd a buffer st = Some (Np_data fd (map Some p) n, st\<lparr>np_mem := (np_mem st)(a := None)\<rparr>)"
        using uc(1) f(1,4,5) False cpy by (simp add: fill_uncomplete_def Let_def r_def)
      then show ?thesis using np_inv_free [OF inv] True sp p pd split_tiny [of "[]"] by (auto simp: matches_def spec_result_def fun_upd_idem)
    next
      case ne: False
      obtain st1 where st1: "push_data fd (map Some p) n False st = Some st1" "np_inv st1 m {a} pend (que @ [(fd, p)])" "np_mem st1 = np_mem st"
        using push_data_ok [OF inv, of False "map Some p" p r fd] p by auto
      obtain st2 m2 where st2: "push_more fd r (st1\<lparr>np_mem := (np_mem st1)(a := None)\<rparr>) = Some st2"
          "np_inv st2 m2 {} (pend(fd := snd (split_packets r))) ((que @ [(fd, p)]) @ map (Pair fd) (fst (split_packets r)))"
        using push_more_ok [OF np_inv_free [OF st1(2)] m ne pd] by blast
      have "fill_uncomplete fd a buffer st = Some (Np_more, st2)"
        using uc(1) f(1,4,5) False cpy ne st1(1) st2(1) by (simp add: fill_uncomplete_def Let_def r_def)
      moreover have "\<not> (fst (split_packets r) = [] \<and> snd (split_packets r) = [])" using ne split_nil_rest [of r "[]"] by (auto simp: prod_eq_iff)
      ultimately show ?thesis using st2(2) sp by (auto simp: matches_def spec_result_def)
    qed
  qed
qed

lemma hash_new_empty: "hash_rep (replicate HASHSIZE None) mem m \<Longrightarrow> m fd = None"
proof (rule ccontr)
  assume r: "hash_rep (replicate HASHSIZE None) mem m" and "m fd \<noteq> None"
  then obtain a where a: "m fd = Some a" by blast
  obtain xs where "row_rep (replicate HASHSIZE None) mem m (hash_fd fd) xs" using hash_rep_row [OF r hash_fd_less] by blast
  then show False using a by (auto simp: row_rep_def)
qed

lemma pend_of_None: "np_inv st m X pend que \<Longrightarrow> m fd = None \<Longrightarrow> pend fd = []"
  by (auto simp: np_inv_def pend_ok_def dest: spec [of _ fd])

lemma find_none_inv:
  assumes "np_inv st m {} pend que" "m fd = None"
  shows "find_uncomplete fd st = Some (None, st)"
proof (cases "np_stack st")
  case None
  then show ?thesis by (simp add: find_uncomplete_def)
next
  case (Some q)
  then show ?thesis using assms find_none [OF Some, of m fd] by (simp add: np_inv_def stack_q_def)
qed

lemma find_some_inv:
  assumes inv: "np_inv st m {} pend que" and m: "m fd = Some a"
  shows "\<exists>st' q uc. find_uncomplete fd st = Some (Some a, st') \<and> np_inv st' (m(fd := None)) {a} (pend(fd := [])) que \<and> np_stack st' = Some q \<and>
    np_mem st' a = Some uc \<and> np_id (uc_pack uc) = fd \<and> uc_ok uc (pend fd)"
proof -
  have i: "hash_rep (nq_hash (stack_q st)) (np_mem st) m" "dom (np_mem st) = ran m" "pend_ok (np_mem st) m pend" "\<forall>a \<in> dom (np_mem st). a < np_brk st"
    using inv by (simp_all add: np_inv_def)
  obtain q where q: "np_stack st = Some q"
  proof (cases "np_stack st")
    case None
    then have "m fd = None" using i(1) hash_new_empty by (simp add: stack_q_def new_queue_def)
    then show ?thesis using m by simp
  qed
  then have sq: "stack_q st = q" by (simp add: stack_q_def)
  obtain hash' mem' where f: "find_uncomplete fd st = Some (Some a, st\<lparr>np_stack := Some (q\<lparr>nq_hash := hash'\<rparr>), np_mem := mem'\<rparr>)"
      "hash_rep hash' mem' (m(fd := None))" "\<forall>x. map_option uc_core (mem' x) = map_option uc_core (np_mem st x)"
    using find_some [OF q i(1) [unfolded sq] m] by blast
  have core: "\<exists>uc'. mem' x = Some uc' \<and> uc_core uc' = uc_core uc" if "np_mem st x = Some uc" for x uc
    using f(3) [rule_format, of x] that by (auto simp: map_option_eq_Some)
  have ok: "\<exists>uc'. mem' x = Some uc' \<and> uc_ok uc' (pend fd')" if x: "m fd' = Some x" for x fd'
  proof -
    obtain uc where "np_mem st x = Some uc" "uc_ok uc (pend fd')" using i(3) [unfolded pend_ok_def, rule_format, of fd'] x by auto
    then show ?thesis using core by (metis uc_ok_core)
  qed
  have ai: "m fd' = Some a \<longleftrightarrow> fd' = fd" for fd' using hash_rep_inj [OF i(1) m, of fd'] m by blast
  have dm: "dom mem' = dom (np_mem st)"
  proof (rule set_eqI)
    fix x show "x \<in> dom mem' \<longleftrightarrow> x \<in> dom (np_mem st)" using f(3) [rule_format, of x] by (cases "mem' x"; cases "np_mem st x") auto
  qed
  have rn: "ran m = insert a (ran (m(fd := None)))" "a \<notin> ran (m(fd := None))"
  proof -
    show "a \<notin> ran (m(fd := None))" using ai by (auto simp: ran_def)
    show "ran m = insert a (ran (m(fd := None)))"
    proof (rule set_eqI)
      fix x show "x \<in> ran m \<longleftrightarrow> x \<in> insert a (ran (m(fd := None)))" using m by (auto simp: ran_def) (metis option.inject)
    qed
  qed
  have "case (m(fd := None)) fd' of None \<Rightarrow> (pend(fd := [])) fd' = [] | Some x \<Rightarrow> (\<exists>u. mem' x = Some u \<and> uc_ok u ((pend(fd := [])) fd'))" for fd'
    using i(3) [unfolded pend_ok_def, rule_format, of fd'] ok [of fd'] by (auto split: option.splits)
  then have "pend_ok mem' (m(fd := None)) (pend(fd := []))" unfolding pend_ok_def by blast
  then have inv': "np_inv (st\<lparr>np_stack := Some (q\<lparr>nq_hash := hash'\<rparr>), np_mem := mem'\<rparr>) (m(fd := None)) {a} (pend(fd := [])) que"
    using inv f(2) dm rn i(2,4) sq by (simp add: np_inv_def)
  obtain uc where uc: "np_mem st a = Some uc" "np_id (uc_pack uc) = fd" using hash_rep_id [OF i(1) m] by blast
  obtain uc' where uc': "mem' a = Some uc'" "uc_ok uc' (pend fd)" using ok [OF m] by blast
  have "np_id (uc_pack uc') = fd" using core [OF uc(1)] uc' uc(2) by (metis option.inject uc_core_simps(2))
  then show ?thesis using f(1) inv' uc' by auto
qed

lemma split_single:
  assumes "read_size bs = Some n" "length bs = 2 + n"
  shows "split_packets bs = ([drop 2 bs], [])"
  using split_long [OF assms(1)] assms(2) split_tiny [of "[]"] by simp

lemma filter_data_ok:
  assumes inv: "np_inv st m {} pend que" and b: "buffer \<noteq> []"
  shows "matches (filter_data fd buffer st) (spec_result fd (pend fd @ buffer) pend que)"
proof (cases "m fd")
  case (Some a)
  obtain st' q uc where f: "find_uncomplete fd st = Some (Some a, st')" "np_inv st' (m(fd := None)) {a} (pend(fd := [])) que" "np_stack st' = Some q"
      "np_mem st' a = Some uc" "np_id (uc_pack uc) = fd" "uc_ok uc (pend fd)" using find_some_inv [OF inv Some] by blast
  have "matches (fill_uncomplete fd a buffer st') (spec_result fd (pend fd @ buffer) (pend(fd := [])) que)"
    by (rule fill_uncomplete_ok [OF f(2,3) _ f(4-6) b]) simp
  then show ?thesis using f(1) by (simp add: filter_data_def spec_result_def)
next
  case None
  note find = find_none_inv [OF inv None]
  have pd: "pend fd = []" using pend_of_None [OF inv None] .
  show ?thesis
  proof (cases "length buffer = 1")
    case True
    then obtain c where c: "buffer = [c]" by (auto simp: length_Suc_conv)
    then show ?thesis using find save_header_ok [OF inv None, of c] split_tiny [of buffer] pd by (auto simp: filter_data_def matches_def spec_result_def)
  next
    case False
    then have l: "2 \<le> length buffer" using b by (cases buffer) (auto simp: Suc_le_eq)
    then obtain n where n: "read_size buffer = Some n" by (metis not_less option.exhaust read_size_None)
    consider "length buffer < 2 + n" | "length buffer = 2 + n" | "2 + n < length buffer" by linarith
    then show ?thesis
    proof cases
      case 1
      then have "length (drop 2 buffer) < n" using l by simp
      then show ?thesis using find False n save_start_ok [OF inv None n 1] split_short [OF n 1] pd
        by (auto simp: filter_data_def matches_def spec_result_def simp del: length_drop)
    next
      case 2
      then have "length (drop 2 buffer) = n" by simp
      moreover have "np_memcpy (np_malloc n) 0 (map Some (drop 2 buffer)) n = Some (map Some (drop 2 buffer))"
        using memcpy_start [of "drop 2 buffer" "[]"] 2 by simp
      ultimately show ?thesis using find False n split_single [OF n 2] pd inv
        by (auto simp: filter_data_def matches_def spec_result_def fun_upd_idem simp del: length_drop)
    next
      case 3
      define p where "p = take n (drop 2 buffer)"
      define r where "r = drop n (drop 2 buffer)"
      have p: "length p = n" "drop 2 buffer = p @ r" "r \<noteq> []" using 3 by (simp_all add: p_def r_def del: drop_drop)
      have sp: "split_packets buffer = (p # fst (split_packets r), snd (split_packets r))" using split_long [OF n] 3 by (simp add: p_def r_def add.commute)
      obtain st1 where st1: "push_data fd (map Some (drop 2 buffer)) n True st = Some st1" "np_inv st1 m {} pend (que @ [(fd, p)])"
        using push_data_ok [OF inv, of True "map Some (p @ r)" p r fd] p by auto
      obtain st2 m2 where st2: "push_more fd r st1 = Some st2" "np_inv st2 m2 {} (pend(fd := snd (split_packets r))) ((que @ [(fd, p)]) @ map (Pair fd) (fst (split_packets r)))"
        using push_more_ok [OF st1(2) None p(3) pd] by blast
      have "filter_data fd buffer st = Some (Np_more, st2)"
      proof -
        have "\<not> length buffer - 2 < n" "length buffer - 2 \<noteq> n" using 3 by linarith+
        then show ?thesis using find False n st1(1) st2(1) by (simp add: filter_data_def r_def Let_def)
      qed
      moreover have "\<not> (fst (split_packets r) = [] \<and> snd (split_packets r) = [])" using p(3) split_nil_rest [of r "[]"] by (auto simp: prod_eq_iff)
      ultimately show ?thesis using st2(2) sp pd by (auto simp: matches_def spec_result_def)
    qed
  qed
qed

lemma close_ok:
  assumes inv: "np_inv st m {} pend que"
  shows "\<exists>st' m'. close_uncomplete fd st = Some st' \<and> np_inv st' m' {} (pend(fd := [])) que"
proof (cases "m fd")
  case None
  then show ?thesis using find_none_inv [OF inv None] inv pend_of_None [OF inv None] by (auto simp: close_uncomplete_def fun_upd_idem)
next
  case (Some a)
  obtain st' where "find_uncomplete fd st = Some (Some a, st')" "np_inv st' (m(fd := None)) {a} (pend(fd := [])) que" using find_some_inv [OF inv Some] by blast
  then show ?thesis using np_inv_free [of st' "m(fd := None)" a] by (auto simp: close_uncomplete_def)
qed

lemma pop_ok:
  assumes inv: "np_inv st m {} pend que"
  shows "\<exists>st'. lpop st = Some (case que of [] \<Rightarrow> None | x # _ \<Rightarrow> Some (fst x, map Some (snd x), length (snd x)), st') \<and> np_inv st' m {} pend (tl que)"
proof (cases "np_stack st")
  case None
  then have "que = []" using inv by (simp add: np_inv_def stack_q_def)
  then show ?thesis using None inv by (simp add: lpop_def)
next
  case (Some q)
  have i: "nq_wf q" "nq_list q = map pack_of que" using inv Some by (simp_all add: np_inv_def stack_q_def)
  show ?thesis
  proof (cases que)
    case Nil
    then have "lpop st = Some (None, st\<lparr>np_stack := Some q\<rparr>)" using Some queue_take_nil [OF i(1)] i(2) by (simp add: lpop_def)
    moreover have "np_inv (st\<lparr>np_stack := Some q\<rparr>) m {} pend que" using inv Some by (simp add: np_inv_def stack_q_def)
    ultimately show ?thesis using Nil by simp
  next
    case (Cons x xs)
    then have "nq_list q \<noteq> []" using i(2) by simp
    then obtain q' where q': "queue_take q = Some (Some (hd (nq_list q)), q')" "nq_wf q'" "nq_list q' = tl (nq_list q)" "nq_hash q' = nq_hash q"
      using queue_take_cons [OF i(1)] by blast
    then have "lpop st = Some (Some (fst x, map Some (snd x), length (snd x)), st\<lparr>np_stack := Some q'\<rparr>)"
      using Some i(2) Cons by (simp add: lpop_def pack_of_def)
    moreover have "np_inv (st\<lparr>np_stack := Some q'\<rparr>) m {} pend xs" using inv Some q' i(2) Cons by (simp add: np_inv_def stack_q_def)
    ultimately show ?thesis using Cons by simp
  qed
qed

subsection \<open>Clearing\<close>

lemma clear_list_path: "path (uc_nx mem) p xs None \<Longrightarrow> clear_list p mem = Some (mem |` (- set xs))"
proof (induction xs arbitrary: p mem)
  case Nil
  then show ?case by (subst clear_list.simps) (simp add: restrict_map_def)
next
  case (Cons x xs)
  then obtain uc where uc: "p = Some x" "mem x = Some uc" "path (uc_nx mem) (uc_next uc) xs None" by auto
  have "x \<notin> set xs" using path_distinct [OF Cons.prems] by simp
  then have "path (uc_nx (mem(x := None))) (uc_next uc) xs None = path (uc_nx mem) (uc_next uc) xs None" by (intro path_cong) (auto simp: uc_nx_def)
  then have "path (uc_nx (mem(x := None))) (uc_next uc) xs None" using uc(3) by simp
  then have "clear_list (uc_next uc) (mem(x := None)) = Some ((mem(x := None)) |` (- set xs))" by (rule Cons.IH)
  moreover have "(mem(x := None)) |` (- set xs) = mem |` (- set (x # xs))" by (auto simp: restrict_map_def fun_eq_iff)
  ultimately show ?case using uc(1,2) by (subst clear_list.simps) simp
qed

lemma clear_rows_paths:
  assumes "list_all2 (\<lambda>p xs. path (uc_nx mem) p xs None) ps xss" "sorted_wrt (\<lambda>xs ys. set xs \<inter> set ys = {}) xss"
  shows "clear_rows ps mem = Some (mem |` (- \<Union> (set ` set xss)))"
  using assms
proof (induction ps arbitrary: xss mem)
  case Nil
  then show ?case by (simp add: restrict_map_def)
next
  case (Cons p ps)
  then obtain xs yss where x: "xss = xs # yss" "path (uc_nx mem) p xs None" "list_all2 (\<lambda>p xs. path (uc_nx mem) p xs None) ps yss" by (auto simp: list_all2_Cons1)
  let ?mem = "mem |` (- set xs)"
  have "list_all2 (\<lambda>p xs. path (uc_nx ?mem) p xs None) ps yss"
  proof -
    have "path (uc_nx ?mem) p ys None = path (uc_nx mem) p ys None" if "ys \<in> set yss" for p ys
    proof -
      have "set xs \<inter> set ys = {}" using Cons.prems(2) x(1) that by simp
      then show ?thesis by (intro path_cong) (auto simp: uc_nx_def restrict_map_def)
    qed
    then show ?thesis using x(3) by (simp add: list_all2_conv_all_nth)
  qed
  then have "clear_rows ps ?mem = Some (?mem |` (- \<Union> (set ` set yss)))" using Cons.IH Cons.prems(2) x(1) by simp
  moreover have "?mem |` (- \<Union> (set ` set yss)) = mem |` (- \<Union> (set ` set xss))" using x(1) by (auto simp: restrict_map_def fun_eq_iff)
  ultimately show ?case using clear_list_path [OF x(2)] by simp
qed

lemma clear_rows_all:
  assumes r: "hash_rep hash mem m" and d: "dom mem = ran m"
  shows "clear_rows hash mem = Some Map.empty"
proof -
  have l: "length hash = HASHSIZE" using r by (simp add: hash_rep_def)
  obtain row where row: "\<And>h. h < HASHSIZE \<Longrightarrow> row_rep hash mem m h (row h)" using hash_rep_row [OF r] by metis
  let ?xss = "map row [0..<HASHSIZE]"
  have "list_all2 (\<lambda>p xs. path (uc_nx mem) p xs None) hash ?xss"
    using l row by (auto simp: list_all2_conv_all_nth row_rep_def)
  moreover have "set (row i) \<inter> set (row j) = {}" if "i < j" "j < HASHSIZE" for i j
  proof -
    have "i < HASHSIZE" using that by simp
    then have ri: "row_rep hash mem m i (row i)" and rj: "row_rep hash mem m j (row j)" using row that(2) by blast+
    have False if x: "x \<in> set (row i)" "x \<in> set (row j)" for x
    proof -
      obtain f f' where "m f = Some x" "hash_fd f = i" "m f' = Some x" "hash_fd f' = j" using row_in [OF ri x(1)] row_in [OF rj x(2)] by blast
      then show False using hash_rep_inj [OF r, of f x f'] \<open>i < j\<close> by simp
    qed
    then show ?thesis by blast
  qed
  then have "sorted_wrt (\<lambda>xs ys. set xs \<inter> set ys = {}) ?xss" by (simp add: sorted_wrt_iff_nth_less)
  ultimately have "clear_rows hash mem = Some (mem |` (- \<Union> (set ` set ?xss)))" by (rule clear_rows_paths)
  moreover have "\<Union> (set ` set ?xss) = ran m"
  proof (rule set_eqI)
    fix x show "x \<in> \<Union> (set ` set ?xss) \<longleftrightarrow> x \<in> ran m"
      using row by (auto simp: row_rep_def ran_def)
  qed
  ultimately have "clear_rows hash mem = Some (mem |` (- ran m))" by (simp only:)
  moreover have "mem |` (- ran m) = Map.empty" using d by (auto simp: restrict_map_def fun_eq_iff)
  ultimately show ?thesis by (simp only:)
qed

lemma ring_cells:
  assumes wf: "nq_wf q"
  defines "t \<equiv> (if nq_head q > nq_tail q then nq_tail q + nq_cap q else nq_tail q)"
  shows "\<exists>freed. those (map (\<lambda>i. array_get (nq_queue q) (i mod nq_cap q)) [nq_head q..<t]) = Some (nq_ring q) \<and> those (nq_ring q) = Some freed"
proof -
  have w: "length (nq_queue q) = nq_cap q" "nq_head q < nq_cap q" "None \<notin> set (nq_ring q)" using wf by (simp_all add: nq_wf_def)
  have t: "t = nq_head q + nq_length q" using wf by (auto simp: t_def nq_length_def nq_wf_def)
  have "[nq_head q..<t] = map (\<lambda>i. nq_head q + i) [0..<nq_length q]" unfolding t by (rule nth_equalityI) simp_all
  then have "those (map (\<lambda>i. array_get (nq_queue q) (i mod nq_cap q)) [nq_head q..<t]) = Some (nq_ring q)"
    unfolding nq_ring_def ring_def using w by (simp add: o_def) (rule those_map_Some, simp)
  moreover have "nq_ring q = map (\<lambda>x. Some (the x)) (nq_ring q)" using w(3) by (intro nth_equalityI) (auto simp: in_set_conv_nth)
  then have "those (nq_ring q) = Some (map the (nq_ring q))" using those_map_Some [of "nq_ring q" "\<lambda>x. Some (the x)" the] by simp
  ultimately show ?thesis by blast
qed

lemma clear_ok:
  assumes inv: "np_inv st m {} pend que"
  shows "\<exists>st'. lclear st = Some st' \<and> np_inv st' Map.empty {} (\<lambda>_. []) [] \<and> np_mem st' = Map.empty"
proof (cases "np_stack st")
  case None
  have i: "hash_rep (replicate HASHSIZE None) (np_mem st) m" "dom (np_mem st) = ran m" "pend_ok (np_mem st) m pend" "que = []" using inv None
    by (simp_all add: np_inv_def stack_q_def) (simp_all add: new_queue_def)
  have m: "m = Map.empty" using hash_new_empty [OF i(1)] by (simp add: fun_eq_iff)
  have "dom (np_mem st) = {}" using i(2) m by simp
  moreover have "pend = (\<lambda>_. [])" using i(3) m by (simp add: pend_ok_def fun_eq_iff)
  ultimately have "pend = (\<lambda>_. [])" "np_mem st = Map.empty" by (simp_all only: dom_eq_empty_conv)
  then show ?thesis using None inv m i(4) by (simp add: lclear_def)
next
  case (Some q)
  have i: "hash_rep (nq_hash q) (np_mem st) m" "dom (np_mem st) = ran m" "nq_wf q" using inv Some by (simp_all add: np_inv_def stack_q_def)
  obtain freed where fr: "those (map (\<lambda>i. array_get (nq_queue q) (i mod nq_cap q)) [nq_head q..<(if nq_head q > nq_tail q then nq_tail q + nq_cap q else nq_tail q)]) = Some (nq_ring q)"
      "those (nq_ring q) = Some freed" using ring_cells [OF i(3)] by blast
  let ?q = "q\<lparr>nq_hash := replicate HASHSIZE None, nq_head := 0, nq_tail := 0\<rparr>"
  have "lclear st = Some (st\<lparr>np_stack := Some ?q, np_mem := Map.empty\<rparr>)"
    using Some clear_rows_all [OF i(1,2)] fr by (cases "nq_head q > nq_tail q") (simp_all add: lclear_def Let_def)
  moreover have "nq_wf ?q" "nq_list ?q = []" using i(3) by (simp_all add: nq_wf_def nq_list_def nq_ring_def nq_length_def)
  then have "np_inv (st\<lparr>np_stack := Some ?q, np_mem := Map.empty\<rparr>) Map.empty {} (\<lambda>_. []) []"
    by (simp add: np_inv_def hash_rep_new pend_ok_def)
  ultimately show ?thesis by simp
qed

subsection \<open>Properties\<close>

text \<open>The calls of the module on a queue, and what they do to the bytes that wait and the packets in the queue.\<close>

datatype np_op = Filter socket_message | Pop | Clear

datatype np_out = Filtered np_result | Popped "(int \<times> u8 option list \<times> nat) option" | Cleared

fun np_step :: "np_op \<Rightarrow> np_state \<Rightarrow> (np_out \<times> np_state) option" where
  "np_step (Filter msg) st = map_option (map_prod Filtered id) (lfilter msg st)"
| "np_step Pop st = map_option (map_prod Popped id) (lpop st)"
| "np_step Clear st = map_option (Pair Cleared) (lclear st)"

type_synonym np_abs = "(int \<Rightarrow> u8 list) \<times> (int \<times> u8 list) list"

definition spec_filter :: "socket_message \<Rightarrow> np_abs \<Rightarrow> np_result \<times> np_abs" where
  "spec_filter msg s =
     (let (pend, que) = s; fd = sm_id msg; closed = (pend(fd := []), que)
      in if sm_type msg = SKYNET_SOCKET_TYPE_DATA then spec_result fd (pend fd @ sm_buffer msg) pend que
         else if sm_type msg = SKYNET_SOCKET_TYPE_CONNECT then (Np_init fd (sm_padding msg) (sm_ud msg), s)
         else if sm_type msg = SKYNET_SOCKET_TYPE_CLOSE then (Np_close fd, closed)
         else if sm_type msg = SKYNET_SOCKET_TYPE_ACCEPT then (Np_open (sm_ud msg) (sm_padding msg), s)
         else if sm_type msg = SKYNET_SOCKET_TYPE_ERROR then (Np_error fd (sm_padding msg), closed)
         else if sm_type msg = SKYNET_SOCKET_TYPE_WARNING then (Np_warning fd (sm_ud msg), s)
         else (Np_none, s))"

fun np_spec :: "np_op \<Rightarrow> np_abs \<Rightarrow> np_out \<times> np_abs" where
  "np_spec (Filter msg) s = map_prod Filtered id (spec_filter msg s)"
| "np_spec Pop (pend, que) = (Popped (case que of [] \<Rightarrow> None | x # _ \<Rightarrow> Some (fst x, map Some (snd x), length (snd x))), pend, tl que)"
| "np_spec Clear s = (Cleared, (\<lambda>_. []), [])"

fun np_run :: "np_op list \<Rightarrow> np_state \<Rightarrow> (np_out list \<times> np_state) option" where
  "np_run [] st = Some ([], st)"
| "np_run (x # xs) st = do { (r, st) \<leftarrow> np_step x st; (rs, st) \<leftarrow> np_run xs st; Some (r # rs, st) }"

fun np_spec_run :: "np_op list \<Rightarrow> np_abs \<Rightarrow> np_out list \<times> np_abs" where
  "np_spec_run [] s = ([], s)"
| "np_spec_run (x # xs) s = (let (r, s) = np_spec x s; (rs, s) = np_spec_run xs s in (r # rs, s))"

text \<open>The socket server sends no empty block.\<close>

fun op_ok :: "np_op \<Rightarrow> bool" where
  "op_ok (Filter msg) = (sm_type msg = SKYNET_SOCKET_TYPE_DATA \<longrightarrow> sm_buffer msg \<noteq> [])"
| "op_ok _ = True"

definition np_start :: np_state where "np_start = \<lparr>np_stack = None, np_mem = Map.empty, np_brk = 0\<rparr>"

definition np_rep :: "np_state \<Rightarrow> np_abs \<Rightarrow> bool" where
  "np_rep st s \<longleftrightarrow> (\<exists>m. np_inv st m {} (fst s) (snd s))"

lemma np_start_rep: "np_rep np_start ((\<lambda>_. []), [])"
proof -
  have "hash_rep (nq_hash new_queue) Map.empty Map.empty" using hash_rep_new by (simp add: new_queue_def)
  then have "np_inv np_start Map.empty {} (\<lambda>_. []) []" by (simp add: np_inv_def np_start_def stack_q_def pend_ok_def)
  then show ?thesis by (auto simp: np_rep_def)
qed

lemma lfilter_ok:
  assumes rep: "np_rep st s" and ok: "op_ok (Filter msg)"
  shows "\<exists>st'. lfilter msg st = Some (fst (spec_filter msg s), st') \<and> np_rep st' (snd (spec_filter msg s))"
proof -
  obtain pend que m where s: "s = (pend, que)" "np_inv st m {} pend que" using rep by (cases s) (auto simp: np_rep_def)
  obtain st' m' where c: "close_uncomplete (sm_id msg) st = Some st'" "np_inv st' m' {} (pend(sm_id msg := [])) que" using close_ok [OF s(2)] by blast
  show ?thesis
  proof (cases "sm_type msg = SKYNET_SOCKET_TYPE_DATA")
    case True
    then show ?thesis using filter_data_ok [OF s(2), of "sm_buffer msg" "sm_id msg"] ok s(1) by (auto simp: lfilter_def spec_filter_def matches_def np_rep_def Let_def)
  next
    case False
    then show ?thesis using c s rep unfolding lfilter_def spec_filter_def by (auto simp: np_rep_def Let_def)
  qed
qed

lemma np_step_ok:
  assumes rep: "np_rep st s" and ok: "op_ok x"
  shows "\<exists>st'. np_step x st = Some (fst (np_spec x s), st') \<and> np_rep st' (snd (np_spec x s))"
proof (cases x)
  case (Filter msg)
  then show ?thesis using lfilter_ok [OF rep, of msg] ok by auto
next
  case Pop
  obtain pend que m where "s = (pend, que)" "np_inv st m {} pend que" using rep by (cases s) (auto simp: np_rep_def)
  then show ?thesis using Pop pop_ok [of st m pend que] by (auto simp: np_rep_def)
next
  case Clear
  obtain pend que m where "np_inv st m {} pend que" using rep by (auto simp: np_rep_def)
  then show ?thesis using Clear clear_ok [of st m pend que] by (auto simp: np_rep_def)
qed

lemma np_run_ok:
  assumes "np_rep st s" "list_all op_ok xs"
  shows "\<exists>st'. np_run xs st = Some (fst (np_spec_run xs s), st') \<and> np_rep st' (snd (np_spec_run xs s))"
  using assms
proof (induction xs arbitrary: st s)
  case (Cons x xs)
  obtain st1 where 1: "np_step x st = Some (fst (np_spec x s), st1)" "np_rep st1 (snd (np_spec x s))" using np_step_ok [OF Cons.prems(1), of x] Cons.prems(2) by auto
  obtain st2 where "np_run xs st1 = Some (fst (np_spec_run xs (snd (np_spec x s))), st2)" "np_rep st2 (snd (np_spec_run xs (snd (np_spec x s))))"
    using Cons.IH [OF 1(2)] Cons.prems(2) by auto
  then show ?case using 1(1) by (simp add: case_prod_unfold Let_def)
qed simp

lemma np_clear_frees:
  assumes "np_rep st s"
  shows "\<exists>st'. lclear st = Some st' \<and> np_mem st' = Map.empty"
  using assms clear_ok by (fastforce simp: np_rep_def)

text \<open>C6: from a NULL queue on, every sequence of filter, pop and clear calls with non-empty data blocks returns what the
  specification returns, in which each socket has the bytes received since its last whole packet and whole packets that
  are not handed over at once wait in one list; no call touches a node that is not allocated, a cell that was not
  written or memory outside an array, and a final clear frees every node.\<close>

theorem netpack_refines:
  assumes "list_all op_ok xs"
  shows "\<exists>st st'. np_run xs np_start = Some (fst (np_spec_run xs ((\<lambda>_. []), [])), st) \<and> lclear st = Some st' \<and> np_mem st' = Map.empty"
proof -
  obtain st where st: "np_run xs np_start = Some (fst (np_spec_run xs ((\<lambda>_. []), [])), st)" "np_rep st (snd (np_spec_run xs ((\<lambda>_. []), [])))"
    using np_run_ok [OF np_start_rep assms] by blast
  then show ?thesis using np_clear_frees [OF st(2)] by blast
qed

definition demo_ops :: "np_op list" where
  "demo_ops =
     [Filter \<lparr>sm_type = SKYNET_SOCKET_TYPE_DATA, sm_id = 7, sm_ud = 1, sm_buffer = [0], sm_padding = []\<rparr>,
      Filter \<lparr>sm_type = SKYNET_SOCKET_TYPE_DATA, sm_id = 8, sm_ud = 4, sm_buffer = [0, 2, 5, 6], sm_padding = []\<rparr>,
      Filter \<lparr>sm_type = SKYNET_SOCKET_TYPE_DATA, sm_id = 7, sm_ud = 5, sm_buffer = [1, 9, 0, 0, 0], sm_padding = []\<rparr>,
      Pop,
      Filter \<lparr>sm_type = SKYNET_SOCKET_TYPE_CLOSE, sm_id = 7, sm_ud = 0, sm_buffer = [], sm_padding = []\<rparr>,
      Pop, Pop, Clear]"

theorem netpack_refines_witness:
  "list_all op_ok demo_ops \<and>
   (\<exists>st st'. np_run demo_ops np_start =
      Some ([Filtered Np_none, Filtered (Np_data 8 [Some 5, Some 6] 2), Filtered Np_more, Popped (Some (7, [Some 9], 1)),
             Filtered (Np_close 7), Popped (Some (7, [], 0)), Popped None, Cleared], st) \<and>
      lclear st = Some st' \<and> np_mem st' = Map.empty)"
proof -
  have ok: "list_all op_ok demo_ops" by code_simp
  have "fst (np_spec_run demo_ops ((\<lambda>_. []), [])) =
      [Filtered Np_none, Filtered (Np_data 8 [Some 5, Some 6] 2), Filtered Np_more, Popped (Some (7, [Some 9], 1)),
       Filtered (Np_close 7), Popped (Some (7, [], 0)), Popped None, Cleared]" by code_simp
  then show ?thesis using netpack_refines [OF ok] ok by (simp only:)
qed

text \<open>A service that takes all packets after each block, as the Lua gate server does.\<close>

partial_function (option) drain :: "(int \<times> u8 list) list \<Rightarrow> np_state \<Rightarrow> ((int \<times> u8 list) list \<times> np_state) option" where
  "drain acc st = do {
     (r, st) \<leftarrow> lpop st;
     (case r of
        None \<Rightarrow> Some (acc, st)
      | Some (fd, buf, sz) \<Rightarrow> do { p \<leftarrow> ltostring (Some buf) sz; drain (acc @ [(fd, p)]) st }) }"

definition data_msg :: "int \<times> u8 list \<Rightarrow> socket_message" where
  "data_msg x = \<lparr>sm_type = SKYNET_SOCKET_TYPE_DATA, sm_id = fst x, sm_ud = int (length (snd x)), sm_buffer = snd x, sm_padding = []\<rparr>"

fun take_packets :: "np_result \<Rightarrow> np_state \<Rightarrow> ((int \<times> u8 list) list \<times> np_state) option" where
  "take_packets (Np_data fd buf sz) st = do { p \<leftarrow> ltostring (Some buf) sz; Some ([(fd, p)], st) }"
| "take_packets Np_more st = drain [] st"
| "take_packets _ st = Some ([], st)"

fun deliver :: "(int \<times> u8 list) list \<Rightarrow> np_state \<Rightarrow> ((int \<times> u8 list) list \<times> np_state) option" where
  "deliver [] st = Some ([], st)"
| "deliver (x # xs) st = do {
     (r, st) \<leftarrow> lfilter (data_msg x) st;
     (out, st) \<leftarrow> take_packets r st;
     (rest, st) \<leftarrow> deliver xs st;
     Some (out @ rest, st) }"

lemma ltostring_packet [simp]: "ltostring (Some (map Some p)) (length p) = Some p"
proof -
  have "those (map Some p) = Some p" by (induction p) simp_all
  then show ?thesis by (simp add: ltostring_def)
qed

lemma drain_ok:
  assumes "np_rep st (pend, que)"
  shows "\<exists>st'. drain acc st = Some (acc @ que, st') \<and> np_rep st' (pend, [])"
  using assms
proof (induction que arbitrary: acc st)
  case Nil
  then obtain m where "np_inv st m {} pend []" by (auto simp: np_rep_def)
  then obtain st' where "lpop st = Some (None, st')" "np_inv st' m {} pend []" using pop_ok by fastforce
  then show ?case by (subst drain.simps) (auto simp: np_rep_def)
next
  case (Cons x que)
  then obtain m where "np_inv st m {} pend (x # que)" by (auto simp: np_rep_def)
  then obtain st1 where st1: "lpop st = Some (Some (fst x, map Some (snd x), length (snd x)), st1)" "np_inv st1 m {} pend que" using pop_ok by fastforce
  then have "np_rep st1 (pend, que)" by (auto simp: np_rep_def)
  from Cons.IH [OF this, of "acc @ [x]"] show ?case using st1(1) by (subst drain.simps) simp
qed

lemma take_packets_ok:
  assumes sp: "split_packets bs = (ps, r)" and rep: "np_rep st (snd (spec_result fd bs pend []))"
  shows "\<exists>st'. take_packets (fst (spec_result fd bs pend [])) st = Some (map (Pair fd) ps, st') \<and> np_rep st' (pend(fd := r), [])"
proof -
  consider "ps = []" | p where "ps = [p]" "r = []" | "ps \<noteq> []" "\<not> (length ps = 1 \<and> r = [])" by (cases ps) (auto simp: length_Suc_conv)
  then show ?thesis
  proof cases
    case 3
    then have "spec_result fd bs pend [] = (Np_more, pend(fd := r), map (Pair fd) ps)" using sp by (auto simp: spec_result_def)
    then show ?thesis using rep drain_ok [of st "pend(fd := r)" "map (Pair fd) ps" "[]"] by simp
  qed (use rep sp in \<open>simp_all add: spec_result_def\<close>)
qed

lemma deliver_ok:
  assumes "np_rep st (pend, [])" "\<forall>x \<in> set xs. snd x \<noteq> []"
  shows "\<exists>out st' pend'. deliver xs st = Some (out, st') \<and> np_rep st' (pend', []) \<and>
    (\<forall>fd. split_packets (pend fd) = ([], pend fd) \<longrightarrow>
      split_packets (pend fd @ concat (map snd (filter (\<lambda>x. fst x = fd) xs))) = (map snd (filter (\<lambda>x. fst x = fd) out), pend' fd))"
  using assms
proof (induction xs arbitrary: st pend)
  case (Cons x xs)
  obtain fd bs where x: "x = (fd, bs)" by (cases x)
  obtain ps r where sp: "split_packets (pend fd @ bs) = (ps, r)" by (cases "split_packets (pend fd @ bs)")
  have ok: "op_ok (Filter (data_msg x))" using Cons.prems(2) by (simp add: data_msg_def)
  have sr: "split_packets r = ([], r)" using split_rest [of "pend fd @ bs"] sp by simp
  obtain st1 where 1: "lfilter (data_msg x) st = Some (fst (spec_result fd (pend fd @ bs) pend []), st1)" "np_rep st1 (snd (spec_result fd (pend fd @ bs) pend []))"
    using lfilter_ok [OF Cons.prems(1) ok] by (auto simp: spec_filter_def data_msg_def x Let_def)
  have "\<exists>st2. take_packets (fst (spec_result fd (pend fd @ bs) pend [])) st1 = Some (map (Pair fd) ps, st2) \<and> np_rep st2 (pend(fd := r), [])"
    using 1(2) take_packets_ok [OF sp] by blast
  then obtain st2 where 2: "take_packets (fst (spec_result fd (pend fd @ bs) pend [])) st1 = Some (map (Pair fd) ps, st2)" "np_rep st2 (pend(fd := r), [])"
    by blast
  obtain out st3 pend' where 3: "deliver xs st2 = Some (out, st3)" "np_rep st3 (pend', [])"
      "\<And>fd'. split_packets ((pend(fd := r)) fd') = ([], (pend(fd := r)) fd') \<Longrightarrow>
        split_packets ((pend(fd := r)) fd' @ concat (map snd (filter (\<lambda>x. fst x = fd') xs))) = (map snd (filter (\<lambda>x. fst x = fd') out), pend' fd')"
    using Cons.IH [OF 2(2)] Cons.prems(2) by auto
  have "deliver (x # xs) st = Some (map (Pair fd) ps @ out, st3)" using 1(1) 2(1) 3(1) by simp
  moreover have "split_packets (pend fd' @ concat (map snd (filter (\<lambda>x. fst x = fd') (x # xs)))) =
      (map snd (filter (\<lambda>x. fst x = fd') (map (Pair fd) ps @ out)), pend' fd')" if "split_packets (pend fd') = ([], pend fd')" for fd'
  proof (cases "fd' = fd")
    case True
    have "split_packets ((pend fd @ bs) @ concat (map snd (filter (\<lambda>x. fst x = fd) xs))) = (ps @ map snd (filter (\<lambda>x. fst x = fd) out), pend' fd)"
      using split_append [of "pend fd @ bs"] sp 3(3) [of fd] sr by simp
    then show ?thesis using True by (simp add: x o_def filter_map)
  next
    case False
    then show ?thesis using 3(3) [of fd'] that by (simp add: x o_def filter_map)
  qed
  ultimately show ?case using 3(2) by blast
qed (auto simp: np_rep_def)

lemma lpack_all:
  assumes "map lpack ps = map Ret es"
  shows "list_all (\<lambda>p. length p < 65536) ps \<and> es = map (\<lambda>p. write_size (length p) @ p) ps"
  using assms
proof (induction ps arbitrary: es)
  case (Cons p ps)
  then obtain e es' where "es = e # es'" "lpack p = Ret e" "map lpack ps = map Ret es'" by (cases es) auto
  moreover from this(2) have "length p < 65536" "e = write_size (length p) @ p" by (auto simp: lpack_def split: if_splits)
  ultimately show ?case using Cons.IH [of es'] by simp
qed simp

text \<open>C13: several sockets send streams of packets made by pack, and the blocks of the streams arrive cut at any places and
  interleaved in any order; a service that pops all packets after each block receives from each socket exactly the
  texts that were packed, whole and in order.\<close>

theorem netpack_streams:
  assumes "\<And>x. x \<in> set xs \<Longrightarrow> snd x \<noteq> []" and "\<And>fd. map lpack (ps fd) = map Ret (enc fd)"
    and "\<And>fd. concat (map snd (filter (\<lambda>x. fst x = fd) xs)) = concat (enc fd)"
  shows "\<exists>out st. deliver xs np_start = Some (out, st) \<and> (\<forall>fd. map snd (filter (\<lambda>x. fst x = fd) out) = ps fd)"
proof -
  obtain out st pend' where d: "deliver xs np_start = Some (out, st)"
      "\<And>fd. split_packets (concat (map snd (filter (\<lambda>x. fst x = fd) xs))) = (map snd (filter (\<lambda>x. fst x = fd) out), pend' fd)"
    using deliver_ok [OF np_start_rep, of xs] assms(1) split_tiny [of "[]"] by auto
  have "map snd (filter (\<lambda>x. fst x = fd) out) = ps fd" for fd
    using d(2) [of fd] assms(3) [of fd] split_packed [OF lpack_all [OF assms(2) [of fd], THEN conjunct1], of "[]"] split_tiny [of "[]"] lpack_all [OF assms(2) [of fd]] by simp
  then show ?thesis using d(1) by blast
qed

theorem netpack_streams_witness:
  "\<exists>out st. deliver [(3, [0]), (4, [0, 1, 7]), (3, [2, 5, 6])] np_start = Some (out, st) \<and>
     map snd (filter (\<lambda>x. fst x = 3) out) = [[5, 6]] \<and> map snd (filter (\<lambda>x. fst x = 4) out) = [[7]]"
proof -
  let ?xs = "[(3, [0]), (4, [0, 1, 7]), (3, [2, 5, 6])] :: (int \<times> u8 list) list"
  let ?ps = "(\<lambda>_. [])(3 := [[5, 6]], 4 := [[7]]) :: int \<Rightarrow> u8 list list"
  let ?enc = "(\<lambda>_. [])(3 := [[0, 2, 5, 6]], 4 := [[0, 1, 7]]) :: int \<Rightarrow> u8 list list"
  have l: "lpack [5, 6] = Ret [0, 2, 5, 6]" "lpack [7] = Ret [0, 1, 7]" by (simp_all add: lpack_def write_size_def drop_bit_eq_div flip: numeral_2_eq_2)
  have "\<exists>out st. deliver ?xs np_start = Some (out, st) \<and> (\<forall>fd. map snd (filter (\<lambda>x. fst x = fd) out) = ?ps fd)"
  proof (rule netpack_streams [of ?xs ?ps ?enc], goal_cases)
    case (1 x) then show ?case by auto
  next
    case (2 fd) then show ?case using l by simp
  next
    case (3 fd) then show ?case by simp
  qed
  then obtain out st where d: "deliver ?xs np_start = Some (out, st)" "\<forall>fd. map snd (filter (\<lambda>x. fst x = fd) out) = ?ps fd" by blast
  have "map snd (filter (\<lambda>x. fst x = 3) out) = [[5, 6]]" "map snd (filter (\<lambda>x. fst x = 4) out) = [[7]]"
    using d(2) [rule_format, of 3] d(2) [rule_format, of 4] by simp_all
  then show ?thesis using d(1) by (intro exI [of _ out] exI [of _ st]) (simp only:)
qed

end
