(* ===== verification/C_Memory.thy ===== *)
theory C_Memory
  imports Prelude
begin

text \<open>
  Arrays of bytes as C code uses them: storing and fetching bytes at an index, and integers of 16 and 32 bits on a
  little-endian machine.  \<open>None\<close> is an access outside the array.
\<close>

fun store_bytes :: "u8 list \<Rightarrow> nat \<Rightarrow> u8 list \<Rightarrow> u8 list option" where
  "store_bytes buf i [] = Some buf"
| "store_bytes buf i (b # bs) = do { buf \<leftarrow> array_set buf i b; store_bytes buf (i + 1) bs }"

definition load_bytes :: "u8 list \<Rightarrow> nat \<Rightarrow> nat \<Rightarrow> u8 list option" where
  "load_bytes buf i n = (if i + n \<le> length buf then Some (take n (drop i buf)) else None)"

definition u32_bytes :: "u32 \<Rightarrow> u8 list" where
  "u32_bytes w = [ucast w, ucast (drop_bit 8 w), ucast (drop_bit 16 w), ucast (drop_bit 24 w)]"

definition bytes_u32 :: "u8 list \<Rightarrow> u32 option" where
  "bytes_u32 bs = (case bs of
      a # b # c # d # _ \<Rightarrow> Some (ucast a OR push_bit 8 (ucast b) OR push_bit 16 (ucast c) OR push_bit 24 (ucast d))
    | _ \<Rightarrow> None)"

definition u16_bytes :: "u16 \<Rightarrow> u8 list" where
  "u16_bytes w = [ucast w, ucast (drop_bit 8 w)]"

definition bytes_u16 :: "u8 list \<Rightarrow> u16 option" where
  "bytes_u16 bs = (case bs of a # b # _ \<Rightarrow> Some (ucast a OR push_bit 8 (ucast b)) | _ \<Rightarrow> None)"

lemma unat_u8_less: "unat (b :: u8) < 256"
  by (rule order_less_le_trans [OF unsigned_less]) simp

lemma store_bytes_eq:
  "i + length bs \<le> length buf \<Longrightarrow> store_bytes buf i bs = Some (take i buf @ bs @ drop (i + length bs) buf)"
proof (induction bs arbitrary: buf i)
  case (Cons b bs)
  then have "i < length buf" by simp
  then have "array_set buf i b = Some (buf[i := b])" by simp
  moreover have "take (Suc i) (buf[i := b]) = take i buf @ [b]" using \<open>i < length buf\<close> by (simp add: take_Suc_conv_app_nth)
  ultimately show ?case using Cons.IH [of "i + 1" "buf[i := b]"] Cons.prems by simp
qed simp

lemma u32_bytes_join:
  "u32_bytes (ucast a OR push_bit 8 (ucast b) OR push_bit 16 (ucast c) OR push_bit 24 (ucast d)) = [a, b, c, d]"
  unfolding u32_bytes_def list.inject
  by (intro conjI bit_word_eqI; auto simp: bit_simps word_high_bits)

lemma bytes_u32_bytes: "bytes_u32 bs = Some w \<Longrightarrow> u32_bytes w = take 4 bs"
  by (auto simp: bytes_u32_def u32_bytes_join split: list.splits)

lemma bytes_of_u32: "bytes_u32 (u32_bytes w @ r) = Some w"
proof -
  have "ucast (ucast w :: u8) OR push_bit 8 (ucast (ucast (drop_bit 8 w) :: u8)) OR push_bit 16 (ucast (ucast (drop_bit 16 w) :: u8)) OR
      push_bit 24 (ucast (ucast (drop_bit 24 w) :: u8)) = w" (is "?l = w")
  proof (rule bit_word_eqI)
    fix n assume "n < LENGTH(32)"
    moreover have "n < 8 \<or> 8 \<le> n \<and> n < 16 \<or> 16 \<le> n \<and> n < 24 \<or> 24 \<le> n" by linarith
    ultimately show "bit ?l n = bit w n" by (elim disjE conjE) (auto simp: bit_simps less_diff_conv2)
  qed
  then show ?thesis by (simp add: bytes_u32_def u32_bytes_def)
qed

lemma bytes_of_u16: "bytes_u16 (u16_bytes w @ r) = Some w"
  unfolding bytes_u16_def u16_bytes_def
  by (simp, rule bit_word_eqI) (auto simp: bit_simps)

lemma length_u32_bytes [simp]: "length (u32_bytes w) = 4"
  by (simp add: u32_bytes_def)

lemma length_u16_bytes [simp]: "length (u16_bytes w) = 2"
  by (simp add: u16_bytes_def)

end
