(* ===== verification/Lua_Value.thy ===== *)
theory Lua_Value
  imports C_Memory "HOL-Library.AList"
begin

unbundle bit_operations_syntax

text \<open>
  Values of Lua as C code sees them.  Integers and pointers are words of 64 bits, numbers are the 64 bits of a double
  and strings are lists of bytes.  A table is an object of the store of tables, so that two tables with the same entries differ and a table
  may contain itself; \<open>LOther\<close> is a value of any other type, with the name of the type.

  The entries of a table are in the order in which \<open>lua_next\<close> visits them.  A metatable with a field \<open>__pairs\<close> is
  given by what iterating over the table yields: the pairs, and the error that ends the iteration, if any.
\<close>

datatype lval = LNil | LBool bool | LInt u64 | LReal u64 | LStr "u8 list" | LPtr u64 | LTab addr | LOther string

record ltable =
  t_entries :: "(lval \<times> lval) list"
  t_pairs :: "((lval \<times> lval) list \<times> string option) option"

type_synonym lheap = "addr \<rightharpoonup> ltable"

subsection \<open>Results\<close>

text \<open>The result of a function called from Lua: a value or an error (which leaves the function at once); \<open>None\<close>
  is undefined behaviour or a loop that does not end.\<close>

type_synonym 'a res = "(string + 'a) option"

definition lbind :: "'a res \<Rightarrow> ('a \<Rightarrow> 'b res) \<Rightarrow> 'b res" where
  "lbind m f = Option.bind m (case_sum (\<lambda>e. Some (Inl e)) f)"

lemma lbind_simps [simp]: "lbind (Some (Inr x)) f = f x" "lbind (Some (Inl e)) f = Some (Inl e)" "lbind None f = None"
  by (simp_all add: lbind_def)

lemma lbind_mono [partial_function_mono]:
  assumes "mono_option B" "\<And>y. mono_option (\<lambda>f. C y f)"
  shows "mono_option (\<lambda>f. lbind (B f) (\<lambda>y. C y f))"
  unfolding lbind_def
proof (rule Partial_Function.bind_mono [OF assms(1)])
  fix y show "mono_option (\<lambda>f. case y of Inl e \<Rightarrow> Some (Inl e) | Inr x \<Rightarrow> C x f)"
    using assms(2) by (cases y) (simp_all add: option.const_mono)
qed

subsection \<open>Tables\<close>

text \<open>A number whose value is an integer is that integer when it is a key; \<open>flt_int\<close> reads the bits of a double.\<close>

definition flt_nan :: "u64 \<Rightarrow> bool" where
  "flt_nan w \<longleftrightarrow> drop_bit 52 w AND 0x7FF = 0x7FF \<and> w AND 0xFFFFFFFFFFFFF \<noteq> 0"

definition flt_int :: "u64 \<Rightarrow> u64 option" where
  "flt_int w =
     (let e = unat (drop_bit 52 w AND 0x7FF); f = unat (w AND 0xFFFFFFFFFFFFF); m = 2 ^ 52 + f;
          signed = (\<lambda>n. if bit w 63 then (if n \<le> 2 ^ 63 then Some (- of_nat n) else None) else (if n < 2 ^ 63 then Some (of_nat n) else None))
      in if e = 0 then (if f = 0 then Some 0 else None)
         else if e \<ge> 1075 then (if e < 1139 then signed (m * 2 ^ (e - 1075)) else None)
         else if e \<ge> 1023 \<and> 2 ^ (1075 - e) dvd m then signed (m div 2 ^ (1075 - e))
         else None)"

fun norm_key :: "lval \<Rightarrow> lval" where
  "norm_key (LReal w) = (case flt_int w of Some i \<Rightarrow> LInt i | None \<Rightarrow> LReal w)"
| "norm_key k = k"

definition rawget :: "ltable \<Rightarrow> lval \<Rightarrow> lval" where
  "rawget t k = (case map_of (t_entries t) (norm_key k) of Some v \<Rightarrow> v | None \<Rightarrow> LNil)"

definition rawset :: "ltable \<Rightarrow> lval \<Rightarrow> lval \<Rightarrow> string + ltable" where
  "rawset t k v =
     (case norm_key k of
        LNil \<Rightarrow> Inl ''table index is nil''
      | LReal w \<Rightarrow>
          if flt_nan w then Inl ''table index is NaN''
          else Inr (t\<lparr>t_entries := (if v = LNil then AList.delete (LReal w) (t_entries t) else AList.update (LReal w) v (t_entries t))\<rparr>)
      | k \<Rightarrow> Inr (t\<lparr>t_entries := (if v = LNil then AList.delete k (t_entries t) else AList.update k v (t_entries t))\<rparr>))"

text \<open>What Lua guarantees of the keys and values in a table.\<close>

definition key_ok :: "lval \<Rightarrow> bool" where
  "key_ok k \<longleftrightarrow> k \<noteq> LNil \<and> norm_key k = k \<and> (case k of LReal w \<Rightarrow> \<not> flt_nan w | _ \<Rightarrow> True)"

definition pairs_ok :: "(lval \<times> lval) list \<Rightarrow> bool" where
  "pairs_ok es \<longleftrightarrow> distinct (map fst es) \<and> list_all (\<lambda>(k, v). key_ok k \<and> v \<noteq> LNil) es"

lemma rawset_ok:
  assumes "key_ok k"
  shows "rawset t k v = Inr (t\<lparr>t_entries := (if v = LNil then AList.delete k (t_entries t) else AList.update k v (t_entries t))\<rparr>)"
  using assms by (cases k) (auto simp: rawset_def key_ok_def split: option.splits)

lemma update_fresh: "k \<notin> fst ` set es \<Longrightarrow> AList.update k v es = es @ [(k, v)]"
  by (induction es) auto

lemma delete_fresh: "k \<notin> fst ` set es \<Longrightarrow> AList.delete k es = es"
  by (simp add: AList.delete_eq filter_id_conv image_iff) force

lemma rawset_fresh:
  "key_ok k \<Longrightarrow> k \<notin> fst ` set (t_entries t) \<Longrightarrow> rawset t k v = Inr (t\<lparr>t_entries := t_entries t @ (if v = LNil then [] else [(k, v)])\<rparr>)"
  by (simp add: rawset_ok update_fresh delete_fresh)

lemma key_ok_int [simp]: "key_ok (LInt i)"
  by (simp add: key_ok_def)

text \<open>\<open>1.0\<close>, \<open>-2.0\<close> and \<open>0.5\<close>.\<close>

lemma flt_int_examples:
  "flt_int 0x3FF0000000000000 = Some 1" "flt_int 0xC000000000000000 = Some (- 2)" "flt_int 0x3FE0000000000000 = None"
  by (simp_all add: flt_int_def Let_def)

end
