(* ===== verification/Skynet_Seri.thy ===== *)
theory Skynet_Seri
  imports Lua_Value "HOL-Library.Multiset"
begin

unbundle bit_operations_syntax

text \<open>
  Serialisation of the values that services send to each other (\<^verbatim>\<open>009_skynet_demo/skynet/lualib-src/lua-seri.c\<close>).

  Packing writes into a chain of blocks of 128 bytes, the first on the C stack and the others allocated, which are
  copied into one message at the end; the blocks are kept in an explicit memory, in which a byte that has not been
  written is \<open>None\<close>.  Unpacking reads a message and builds tables in the store of tables.  The length of a table
  (\<open>lua_rawlen\<close>, which depends on how Lua lays the table out) is an argument.  The result \<open>None\<close> is a failed assertion, an access
  outside a block or the message, to a block that is not allocated or to an unwritten byte, or a loop that does not end.

  Counts of bytes that are written are natural numbers: messages stay below 2 GiB.  The C stack, the limit of the Lua
  stack and the order in which Lua lays out the entries of a new table are not modelled; errors for invalid streams are without the
  numbers in their text.
\<close>

subsection \<open>Data\<close>

definition TYPE_NIL :: int where "TYPE_NIL = 0"
definition TYPE_BOOLEAN :: int where "TYPE_BOOLEAN = 1"
definition TYPE_NUMBER :: int where "TYPE_NUMBER = 2"
definition TYPE_NUMBER_ZERO :: int where "TYPE_NUMBER_ZERO = 0"
definition TYPE_NUMBER_BYTE :: int where "TYPE_NUMBER_BYTE = 1"
definition TYPE_NUMBER_WORD :: int where "TYPE_NUMBER_WORD = 2"
definition TYPE_NUMBER_DWORD :: int where "TYPE_NUMBER_DWORD = 4"
definition TYPE_NUMBER_QWORD :: int where "TYPE_NUMBER_QWORD = 6"
definition TYPE_NUMBER_REAL :: int where "TYPE_NUMBER_REAL = 8"
definition TYPE_USERDATA :: int where "TYPE_USERDATA = 3"
definition TYPE_SHORT_STRING :: int where "TYPE_SHORT_STRING = 4"
definition TYPE_LONG_STRING :: int where "TYPE_LONG_STRING = 5"
definition TYPE_TABLE :: int where "TYPE_TABLE = 6"
definition MAX_COOKIE :: int where "MAX_COOKIE = 32"
definition BLOCK_SIZE :: nat where "BLOCK_SIZE = 128"
definition MAX_DEPTH :: nat where "MAX_DEPTH = 32"

definition COMBINE_TYPE :: "int \<Rightarrow> int \<Rightarrow> u8" where
  "COMBINE_TYPE t v = of_int (t OR push_bit 3 v)"

record block =
  b_next :: ptr
  b_buffer :: "u8 option list"

record write_block =
  wb_head :: ptr
  wb_current :: ptr
  wb_len :: int
  wb_ptr :: nat
  wb_mem :: "addr \<rightharpoonup> block"
  wb_brk :: addr

record read_block =
  rb_len :: int
  rb_ptr :: int
  rb_tabs :: lheap
  rb_brk :: addr

text \<open>How packing a value ends: in order, with the return value 1 and a message on the stack, or by an error.\<close>

datatype pk_out = Fine | Failed string | Raised string

subsection \<open>The chain of blocks\<close>

definition blk_alloc :: "write_block \<Rightarrow> addr \<times> write_block" where
  "blk_alloc w = (let a = wb_brk w in (a, w\<lparr>wb_mem := (wb_mem w)(a \<mapsto> \<lparr>b_next = None, b_buffer = replicate BLOCK_SIZE None\<rparr>), wb_brk := a + 1\<rparr>))"

definition wb_grow :: "write_block \<Rightarrow> write_block option" where
  "wb_grow w = do {
     let (a, w) = blk_alloc w;
     c \<leftarrow> wb_current w;
     b \<leftarrow> wb_mem w c;
     Some (w\<lparr>wb_mem := (wb_mem w)(c \<mapsto> b\<lparr>b_next := Some a\<rparr>), wb_current := Some a, wb_ptr := 0\<rparr>) }"

definition wb_memcpy :: "u8 list \<Rightarrow> write_block \<Rightarrow> write_block option" where
  "wb_memcpy bs w = do {
     c \<leftarrow> wb_current w;
     b \<leftarrow> wb_mem w c;
     (if wb_ptr w + length bs \<le> length (b_buffer b)
      then Some (w\<lparr>wb_mem := (wb_mem w)(c \<mapsto> b\<lparr>b_buffer := take (wb_ptr w) (b_buffer b) @ map Some bs @ drop (wb_ptr w + length bs) (b_buffer b)\<rparr>)\<rparr>)
      else None) }"

text \<open>\<open>b->len += sz\<close>: the length is an \<open>int\<close>, so there is no result from 2 GiB on.\<close>

definition wb_count :: "nat \<Rightarrow> write_block \<Rightarrow> write_block option" where
  "wb_count sz w = (if wb_len w + int sz < 2 ^ 31 then Some (w\<lparr>wb_len := wb_len w + int sz\<rparr>) else None)"

text \<open>The flag tells that the label \<open>_again\<close> is reached by the jump.\<close>

partial_function (option) wb_push_loop :: "bool \<Rightarrow> u8 list \<Rightarrow> write_block \<Rightarrow> write_block option" where
  "wb_push_loop again buffer w = do {
     w \<leftarrow> (if again \<or> wb_ptr w = BLOCK_SIZE then wb_grow w else Some w);
     (if wb_ptr w + length buffer \<le> BLOCK_SIZE then do {
        w \<leftarrow> wb_memcpy buffer w;
        wb_count (length buffer) (w\<lparr>wb_ptr := wb_ptr w + length buffer\<rparr>) }
      else do {
        let copy = BLOCK_SIZE - wb_ptr w;
        w \<leftarrow> wb_memcpy (take copy buffer) w;
        w \<leftarrow> wb_count copy w;
        wb_push_loop True (drop copy buffer) w }) }"

definition wb_push :: "u8 list \<Rightarrow> write_block \<Rightarrow> write_block option" where
  "wb_push buffer w = wb_push_loop False buffer w"

definition wb_init :: "addr \<Rightarrow> write_block \<Rightarrow> write_block option" where
  "wb_init b w = do {
     blk \<leftarrow> wb_mem w b;
     _ \<leftarrow> assert_opt (b_next blk = None);
     Some (w\<lparr>wb_head := Some b, wb_len := 0, wb_current := Some b, wb_ptr := 0\<rparr>) }"

partial_function (option) free_blocks :: "ptr \<Rightarrow> (addr \<rightharpoonup> block) \<Rightarrow> (addr \<rightharpoonup> block) option" where
  "free_blocks blk mem =
     (case blk of
        None \<Rightarrow> Some mem
      | Some a \<Rightarrow> do { b \<leftarrow> mem a; free_blocks (b_next b) (mem(a := None)) })"

definition wb_free :: "write_block \<Rightarrow> write_block option" where
  "wb_free w = do {
     h \<leftarrow> wb_head w;
     b \<leftarrow> wb_mem w h;
     mem \<leftarrow> free_blocks (b_next b) (wb_mem w);
     Some (w\<lparr>wb_mem := mem, wb_head := None, wb_current := None, wb_ptr := 0, wb_len := 0\<rparr>) }"

function seri :: "ptr \<Rightarrow> int \<Rightarrow> (addr \<rightharpoonup> block) \<Rightarrow> u8 list option" where
  "seri p len mem =
     (if len > 0 then do {
        a \<leftarrow> p;
        b \<leftarrow> mem a;
        (if len \<ge> int BLOCK_SIZE then do {
           bs \<leftarrow> those (take BLOCK_SIZE (b_buffer b));
           rest \<leftarrow> seri (b_next b) (len - int BLOCK_SIZE) mem;
           Some (bs @ rest) }
         else those (take (nat len) (b_buffer b))) }
      else Some [])"
  by pat_completeness auto
termination by (relation "measure (\<lambda>(p, len, mem). nat len)") (auto simp: BLOCK_SIZE_def)

subsection \<open>Packing\<close>

definition u64_bytes :: "u64 \<Rightarrow> u8 list" where
  "u64_bytes w = u32_bytes (ucast w) @ u32_bytes (ucast (drop_bit 32 w))"

definition wb_nil :: "write_block \<Rightarrow> write_block option" where
  "wb_nil w = wb_push [of_int TYPE_NIL] w"

definition wb_boolean :: "bool \<Rightarrow> write_block \<Rightarrow> write_block option" where
  "wb_boolean boolean w = wb_push [COMBINE_TYPE TYPE_BOOLEAN (if boolean then 1 else 0)] w"

definition wb_integer :: "u64 \<Rightarrow> write_block \<Rightarrow> write_block option" where
  "wb_integer v w =
     (if v = 0 then wb_push [COMBINE_TYPE TYPE_NUMBER TYPE_NUMBER_ZERO] w
      else if v \<noteq> scast (ucast v :: u32) then do {
        w \<leftarrow> wb_push [COMBINE_TYPE TYPE_NUMBER TYPE_NUMBER_QWORD] w;
        wb_push (u64_bytes v) w }
      else if sint v < 0 then do {
        w \<leftarrow> wb_push [COMBINE_TYPE TYPE_NUMBER TYPE_NUMBER_DWORD] w;
        wb_push (u32_bytes (ucast v)) w }
      else if sint v < 0x100 then do {
        w \<leftarrow> wb_push [COMBINE_TYPE TYPE_NUMBER TYPE_NUMBER_BYTE] w;
        wb_push [ucast v] w }
      else if sint v < 0x10000 then do {
        w \<leftarrow> wb_push [COMBINE_TYPE TYPE_NUMBER TYPE_NUMBER_WORD] w;
        wb_push (u16_bytes (ucast v)) w }
      else do {
        w \<leftarrow> wb_push [COMBINE_TYPE TYPE_NUMBER TYPE_NUMBER_DWORD] w;
        wb_push (u32_bytes (ucast v)) w })"

definition wb_real :: "u64 \<Rightarrow> write_block \<Rightarrow> write_block option" where
  "wb_real v w = do { w \<leftarrow> wb_push [COMBINE_TYPE TYPE_NUMBER TYPE_NUMBER_REAL] w; wb_push (u64_bytes v) w }"

definition wb_pointer :: "u64 \<Rightarrow> write_block \<Rightarrow> write_block option" where
  "wb_pointer v w = do { w \<leftarrow> wb_push [of_int TYPE_USERDATA] w; wb_push (u64_bytes v) w }"

text \<open>A size converted to \<open>int\<close>.\<close>

definition c_int :: "nat \<Rightarrow> int" where "c_int n = sint (of_nat n :: u32)"

definition wb_string :: "u8 list \<Rightarrow> write_block \<Rightarrow> write_block option" where
  "wb_string str w =
     (let len = c_int (length str)
      in if len < MAX_COOKIE then do {
           w \<leftarrow> wb_push [COMBINE_TYPE TYPE_SHORT_STRING len] w;
           (if len > 0 then wb_push (take (nat len) str) w else Some w) }
         else do {
           w \<leftarrow>
             (if len < 0x10000 then do {
                w \<leftarrow> wb_push [COMBINE_TYPE TYPE_LONG_STRING 2] w;
                wb_push (u16_bytes (of_int len)) w }
              else do {
                w \<leftarrow> wb_push [COMBINE_TYPE TYPE_LONG_STRING 4] w;
                wb_push (u32_bytes (of_int len)) w });
           wb_push (take (nat len) str) w })"

type_synonym packer = "lval \<Rightarrow> write_block \<Rightarrow> (pk_out \<times> write_block) option"

definition pk_fine :: "write_block option \<Rightarrow> (pk_out \<times> write_block) option" where
  "pk_fine m = map_option (Pair Fine) m"

definition pk_then :: "(pk_out \<times> write_block) option \<Rightarrow> (write_block \<Rightarrow> (pk_out \<times> write_block) option) \<Rightarrow> (pk_out \<times> write_block) option" where
  "pk_then m f = do { (r, w) \<leftarrow> m; (if r = Fine then f w else Some (r, w)) }"

text \<open>The functions for tables, over the function that packs one value.\<close>

fun pack_each :: "packer \<Rightarrow> lval list \<Rightarrow> write_block \<Rightarrow> (pk_out \<times> write_block) option" where
  "pack_each pack_one [] w = Some (Fine, w)"
| "pack_each pack_one (v # vs) w = pk_then (pack_one v w) (pack_each pack_one vs)"

definition wb_table_array :: "packer \<Rightarrow> ltable \<Rightarrow> int \<Rightarrow> write_block \<Rightarrow> (pk_out \<times> write_block) option" where
  "wb_table_array pack_one t array_size w = do {
     w \<leftarrow>
       (if array_size \<ge> MAX_COOKIE - 1 then do {
          w \<leftarrow> wb_push [COMBINE_TYPE TYPE_TABLE (MAX_COOKIE - 1)] w;
          wb_integer (of_int array_size) w }
        else wb_push [COMBINE_TYPE TYPE_TABLE array_size] w);
     pack_each pack_one (map (\<lambda>i. rawget t (LInt (of_int i))) [1..array_size]) w }"

definition in_array :: "int \<Rightarrow> lval \<Rightarrow> bool" where
  "in_array array_size k = (case k of LInt x \<Rightarrow> 0 < sint x \<and> sint x \<le> array_size | _ \<Rightarrow> False)"

fun hash_loop :: "packer \<Rightarrow> int \<Rightarrow> (lval \<times> lval) list \<Rightarrow> write_block \<Rightarrow> (pk_out \<times> write_block) option" where
  "hash_loop pack_one array_size [] w = pk_fine (wb_nil w)"
| "hash_loop pack_one array_size ((k, v) # es) w =
     (if in_array array_size k then hash_loop pack_one array_size es w
      else pk_then (pack_one k w) (\<lambda>w. pk_then (pack_one v w) (hash_loop pack_one array_size es)))"

definition wb_table_hash :: "packer \<Rightarrow> ltable \<Rightarrow> int \<Rightarrow> write_block \<Rightarrow> (pk_out \<times> write_block) option" where
  "wb_table_hash pack_one t array_size w = hash_loop pack_one array_size (t_entries t) w"

fun metapairs_loop :: "packer \<Rightarrow> (lval \<times> lval) list \<Rightarrow> string option \<Rightarrow> write_block \<Rightarrow> (pk_out \<times> write_block) option" where
  "metapairs_loop pack_one [] err w = (case err of Some msg \<Rightarrow> Some (Failed msg, w) | None \<Rightarrow> pk_fine (wb_nil w))"
| "metapairs_loop pack_one ((k, v) # es) err w =
     (if k = LNil then pk_fine (wb_nil w)
      else pk_then (pack_one k w) (\<lambda>w. pk_then (pack_one v w) (metapairs_loop pack_one es err)))"

definition wb_table_metapairs :: "packer \<Rightarrow> (lval \<times> lval) list \<Rightarrow> string option \<Rightarrow> write_block \<Rightarrow> (pk_out \<times> write_block) option" where
  "wb_table_metapairs pack_one es err w = do {
     w \<leftarrow> wb_push [COMBINE_TYPE TYPE_TABLE 0] w;
     metapairs_loop pack_one es err w }"

definition wb_table :: "(ltable \<Rightarrow> nat) \<Rightarrow> packer \<Rightarrow> ltable \<Rightarrow> write_block \<Rightarrow> (pk_out \<times> write_block) option" where
  "wb_table rawlen pack_one t w =
     (case t_pairs t of
        Some (es, err) \<Rightarrow> wb_table_metapairs pack_one es err w
      | None \<Rightarrow>
          (let array_size = c_int (rawlen t)
           in pk_then (wb_table_array pack_one t array_size w) (wb_table_hash pack_one t array_size)))"

definition pk_raise :: "string \<Rightarrow> write_block \<Rightarrow> (pk_out \<times> write_block) option" where
  "pk_raise msg w = do { w \<leftarrow> wb_free w; Some (Raised msg, w) }"

function pack_one :: "(ltable \<Rightarrow> nat) \<Rightarrow> lheap \<Rightarrow> nat \<Rightarrow> packer" where
  "pack_one rawlen H depth v w =
     (if depth > MAX_DEPTH then pk_raise ''serialize can't pack too depth table'' w
      else case v of
        LNil \<Rightarrow> pk_fine (wb_nil w)
      | LInt x \<Rightarrow> pk_fine (wb_integer x w)
      | LReal x \<Rightarrow> pk_fine (wb_real x w)
      | LBool b \<Rightarrow> pk_fine (wb_boolean b w)
      | LStr s \<Rightarrow> pk_fine (wb_string s w)
      | LPtr p \<Rightarrow> pk_fine (wb_pointer p w)
      | LTab a \<Rightarrow> do {
          t \<leftarrow> H a;
          (r, w) \<leftarrow> wb_table rawlen (\<lambda>v w. pack_one rawlen H (depth + 1) v w) t w;
          (case r of Failed msg \<Rightarrow> pk_raise msg w | _ \<Rightarrow> Some (r, w)) }
      | LOther type \<Rightarrow> pk_raise (''Unsupport type '' @ type @ '' to serialize'') w)"
  by pat_completeness auto
termination by (relation "measure (\<lambda>(rawlen, H, depth, v, w). MAX_DEPTH + 1 - depth)") auto

definition pack_from :: "(ltable \<Rightarrow> nat) \<Rightarrow> lheap \<Rightarrow> lval list \<Rightarrow> write_block \<Rightarrow> (pk_out \<times> write_block) option" where
  "pack_from rawlen H vs w = pack_each (pack_one rawlen H 0) vs w"

text \<open>The first block is on the C stack: it is gone when the function is left, by returning or by an error.\<close>

definition luaseri_pack :: "(ltable \<Rightarrow> nat) \<Rightarrow> lheap \<Rightarrow> lval list \<Rightarrow> (addr \<rightharpoonup> block) \<Rightarrow> addr \<Rightarrow> ((string + u8 list) \<times> (addr \<rightharpoonup> block)) option" where
  "luaseri_pack rawlen H vs mem brk = do {
     let temp = brk;
     let w = \<lparr>wb_head = None, wb_current = None, wb_len = 0, wb_ptr = 0,
              wb_mem = mem(temp \<mapsto> \<lparr>b_next = None, b_buffer = replicate BLOCK_SIZE None\<rparr>), wb_brk = brk + 1\<rparr>;
     w \<leftarrow> wb_init temp w;
     (r, w) \<leftarrow> pack_from rawlen H vs w;
     (case r of
        Fine \<Rightarrow> do {
          _ \<leftarrow> assert_opt (wb_head w = Some temp);
          msg \<leftarrow> seri (Some temp) (wb_len w) (wb_mem w);
          w \<leftarrow> wb_free w;
          Some (Inr msg, (wb_mem w)(temp := None)) }
      | Raised e \<Rightarrow> Some (Inl e, (wb_mem w)(temp := None))
      | Failed e \<Rightarrow> None) }"

subsection \<open>Unpacking\<close>

definition rb_read :: "int \<Rightarrow> read_block \<Rightarrow> int option \<times> read_block" where
  "rb_read sz rb = (if rb_len rb < sz then (None, rb) else (Some (rb_ptr rb), rb\<lparr>rb_ptr := rb_ptr rb + sz, rb_len := rb_len rb - sz\<rparr>))"

definition invalid_stream :: "'a res" where "invalid_stream = Some (Inl ''Invalid serialize stream'')"

text \<open>Bytes of the message at a position that \<open>rb_read\<close> returned.\<close>

definition rb_fetch :: "u8 list \<Rightarrow> int \<Rightarrow> nat \<Rightarrow> u8 list option" where
  "rb_fetch buffer p n = (if 0 \<le> p then load_bytes buffer (nat p) n else None)"

definition rb_take :: "u8 list \<Rightarrow> nat \<Rightarrow> read_block \<Rightarrow> (u8 list \<times> read_block) res" where
  "rb_take buffer n rb =
     (case rb_read (int n) rb of
        (None, _) \<Rightarrow> invalid_stream
      | (Some p, rb) \<Rightarrow> do { bs \<leftarrow> rb_fetch buffer p n; Some (Inr (bs, rb)) })"

definition bytes_u64 :: "u8 list \<Rightarrow> u64 option" where
  "bytes_u64 bs = do { lo \<leftarrow> bytes_u32 bs; hi \<leftarrow> bytes_u32 (drop 4 bs); Some (ucast lo OR push_bit 32 (ucast hi)) }"

definition rb_word :: "u8 list \<Rightarrow> nat \<Rightarrow> (u8 list \<Rightarrow> 'w option) \<Rightarrow> read_block \<Rightarrow> ('w \<times> read_block) res" where
  "rb_word buffer n decode rb =
     lbind (rb_take buffer n rb) (\<lambda>(bs, rb). do { x \<leftarrow> decode bs; Some (Inr (x, rb)) })"

definition get_integer :: "u8 list \<Rightarrow> int \<Rightarrow> read_block \<Rightarrow> (u64 \<times> read_block) res" where
  "get_integer buffer cookie rb =
     (if cookie = TYPE_NUMBER_ZERO then Some (Inr (0, rb))
      else if cookie = TYPE_NUMBER_BYTE then rb_word buffer 1 (\<lambda>bs. map_option ucast (array_get bs 0)) rb
      else if cookie = TYPE_NUMBER_WORD then rb_word buffer 2 (\<lambda>bs. map_option ucast (bytes_u16 bs)) rb
      else if cookie = TYPE_NUMBER_DWORD then rb_word buffer 4 (\<lambda>bs. map_option scast (bytes_u32 bs)) rb
      else if cookie = TYPE_NUMBER_QWORD then rb_word buffer 8 bytes_u64 rb
      else invalid_stream)"

definition get_real :: "u8 list \<Rightarrow> read_block \<Rightarrow> (u64 \<times> read_block) res" where
  "get_real buffer rb = rb_word buffer 8 bytes_u64 rb"

definition get_pointer :: "u8 list \<Rightarrow> read_block \<Rightarrow> (u64 \<times> read_block) res" where
  "get_pointer buffer rb = rb_word buffer 8 bytes_u64 rb"

text \<open>A negative length is not less than the bytes left, so \<open>rb_read\<close> accepts it; as a \<open>size_t\<close> it is then
  more than Lua allows for a string.  (The fields of the reader may leave the range of \<open>int\<close> before that error.)\<close>

definition get_buffer :: "u8 list \<Rightarrow> int \<Rightarrow> read_block \<Rightarrow> (lval \<times> read_block) res" where
  "get_buffer buffer len rb =
     (case rb_read len rb of
        (None, _) \<Rightarrow> invalid_stream
      | (Some p, rb) \<Rightarrow>
          if len < 0 then Some (Inl ''memory allocation error: block too big'')
          else do { bs \<leftarrow> rb_fetch buffer p (nat len); Some (Inr (LStr bs, rb)) })"

definition table_size :: "u8 list \<Rightarrow> int \<Rightarrow> read_block \<Rightarrow> (int \<times> read_block) res" where
  "table_size buffer array_size rb =
     (if array_size = MAX_COOKIE - 1 then
        lbind (rb_word buffer 1 (\<lambda>bs. array_get bs 0) rb) (\<lambda>(type, rb).
          let cookie = uint (drop_bit 3 type)
          in if uint (type AND 7) \<noteq> TYPE_NUMBER \<or> cookie = TYPE_NUMBER_REAL then invalid_stream
             else lbind (get_integer buffer cookie rb) (\<lambda>(n, rb). Some (Inr (sint (ucast n :: u32), rb))))
      else Some (Inr (array_size, rb)))"

definition lua_createtable :: "read_block \<Rightarrow> addr \<times> read_block" where
  "lua_createtable rb =
     (let a = rb_brk rb in (a, rb\<lparr>rb_tabs := (rb_tabs rb)(a \<mapsto> \<lparr>t_entries = [], t_pairs = None\<rparr>), rb_brk := a + 1\<rparr>))"

definition lua_rawset :: "addr \<Rightarrow> lval \<Rightarrow> lval \<Rightarrow> read_block \<Rightarrow> read_block res" where
  "lua_rawset a k v rb = do {
     t \<leftarrow> rb_tabs rb a;
     Some (map_sum id (\<lambda>t. rb\<lparr>rb_tabs := (rb_tabs rb)(a \<mapsto> t)\<rparr>) (rawset t k v)) }"

text \<open>\<open>unpack_table\<close> is the function that \<open>push_value\<close> calls for tables.\<close>

definition push_value :: "(int \<Rightarrow> read_block \<Rightarrow> (lval \<times> read_block) res) \<Rightarrow> u8 list \<Rightarrow> int \<Rightarrow> int \<Rightarrow> read_block \<Rightarrow> (lval \<times> read_block) res" where
  "push_value unpack_table buffer type cookie rb =
     (if type = TYPE_NIL then Some (Inr (LNil, rb))
      else if type = TYPE_BOOLEAN then Some (Inr (LBool (cookie \<noteq> 0), rb))
      else if type = TYPE_NUMBER then
        (if cookie = TYPE_NUMBER_REAL then lbind (get_real buffer rb) (\<lambda>(x, rb). Some (Inr (LReal x, rb)))
         else lbind (get_integer buffer cookie rb) (\<lambda>(x, rb). Some (Inr (LInt x, rb))))
      else if type = TYPE_USERDATA then lbind (get_pointer buffer rb) (\<lambda>(x, rb). Some (Inr (LPtr x, rb)))
      else if type = TYPE_SHORT_STRING then get_buffer buffer cookie rb
      else if type = TYPE_LONG_STRING then
        (if cookie = 2 then lbind (rb_word buffer 2 bytes_u16 rb) (\<lambda>(n, rb). get_buffer buffer (uint n) rb)
         else if cookie \<noteq> 4 then invalid_stream
         else lbind (rb_word buffer 4 bytes_u32 rb) (\<lambda>(n, rb). get_buffer buffer (sint n) rb))
      else if type = TYPE_TABLE then unpack_table cookie rb
      else invalid_stream)"

lemma push_value_mono [partial_function_mono]:
  assumes "\<And>n rb. mono_option (\<lambda>f. T f n rb)"
  shows "mono_option (\<lambda>f. push_value (T f) buffer type cookie rb)"
  unfolding push_value_def by (intro partial_function_mono if_mono option.const_mono) (rule assms)

text \<open>The functions that call each other, and their loops, as the cases of one function.\<close>

datatype unpack_job = Unpack_one | Unpack_table int | Array_loop addr int int | Hash_loop addr

partial_function (option) unpack :: "u8 list \<Rightarrow> unpack_job \<Rightarrow> read_block \<Rightarrow> (lval \<times> read_block) res" where
  "unpack buffer job rb =
     (case job of
        Unpack_one \<Rightarrow>
          lbind (rb_word buffer 1 (\<lambda>bs. array_get bs 0) rb) (\<lambda>(type, rb).
            push_value (\<lambda>n rb. unpack buffer (Unpack_table n) rb) buffer (uint (type AND 7)) (uint (drop_bit 3 type)) rb)
      | Unpack_table n \<Rightarrow>
          lbind (table_size buffer n rb) (\<lambda>(n, rb).
            let (a, rb) = lua_createtable rb in unpack buffer (Array_loop a 1 n) rb)
      | Array_loop a i n \<Rightarrow>
          if i \<le> n then
            lbind (unpack buffer Unpack_one rb) (\<lambda>(v, rb).
              lbind (lua_rawset a (LInt (of_int i)) v rb) (\<lambda>rb. unpack buffer (Array_loop a (i + 1) n) rb))
          else unpack buffer (Hash_loop a) rb
      | Hash_loop a \<Rightarrow>
          lbind (unpack buffer Unpack_one rb) (\<lambda>(k, rb).
            if k = LNil then Some (Inr (LTab a, rb))
            else lbind (unpack buffer Unpack_one rb) (\<lambda>(v, rb).
              lbind (lua_rawset a k v rb) (\<lambda>rb. unpack buffer (Hash_loop a) rb))))"

partial_function (option) unpack_all :: "u8 list \<Rightarrow> lval list \<Rightarrow> read_block \<Rightarrow> (lval list \<times> read_block) res" where
  "unpack_all buffer acc rb =
     (case rb_read 1 rb of
        (None, rb) \<Rightarrow> Some (Inr (acc, rb))
      | (Some p, rb) \<Rightarrow> do {
          bs \<leftarrow> rb_fetch buffer p 1;
          type \<leftarrow> array_get bs 0;
          lbind (push_value (\<lambda>n rb. unpack buffer (Unpack_table n) rb) buffer (uint (type AND 7)) (uint (drop_bit 3 type)) rb)
            (\<lambda>(v, rb). unpack_all buffer (acc @ [v]) rb) })"

datatype msg_arg = No_message | Message_string "u8 list" | Message_data "u8 list option" int

definition luaseri_unpack :: "msg_arg \<Rightarrow> lheap \<Rightarrow> addr \<Rightarrow> (lval list \<times> lheap) res" where
  "luaseri_unpack msg tabs brk =
     (case msg of
        No_message \<Rightarrow> Some (Inr ([], tabs))
      | _ \<Rightarrow>
          (let (buffer, len) = (case msg of Message_string s \<Rightarrow> (Some s, c_int (length s)) | Message_data p n \<Rightarrow> (p, n) | No_message \<Rightarrow> (None, 0))
           in if len = 0 then Some (Inr ([], tabs))
              else case buffer of
                None \<Rightarrow> Some (Inl ''deserialize null pointer'')
              | Some buffer \<Rightarrow>
                  lbind (unpack_all buffer [] \<lparr>rb_len = len, rb_ptr = 0, rb_tabs = tabs, rb_brk = brk\<rparr>) (\<lambda>(vs, rb). Some (Inr (vs, rb_tabs rb)))))"

declare wb_push_loop.simps [code] free_blocks.simps [code] unpack.simps [code] unpack_all.simps [code]
declare seri.simps [simp del] pack_one.simps [simp del]

subsection \<open>The chain holds the bytes that were written\<close>

definition b_nx :: "(addr \<rightharpoonup> block) \<Rightarrow> addr \<Rightarrow> ptr option" where
  "b_nx mem a = map_option b_next (mem a)"

lemma b_nx_Some [simp]: "b_nx mem a = Some r \<longleftrightarrow> (\<exists>b. mem a = Some b \<and> b_next b = r)"
  by (auto simp: b_nx_def)

definition contents :: "(addr \<rightharpoonup> block) \<Rightarrow> addr list \<Rightarrow> u8 option list" where
  "contents mem xs = concat (map (\<lambda>x. b_buffer (the (mem x))) xs)"

definition blocks_ok :: "(addr \<rightharpoonup> block) \<Rightarrow> addr list \<Rightarrow> bool" where
  "blocks_ok mem xs \<longleftrightarrow> (\<forall>x \<in> set xs. \<exists>b. mem x = Some b \<and> length (b_buffer b) = BLOCK_SIZE)"

lemma contents_simps [simp]:
  "contents mem [] = []" "contents mem (x # xs) = b_buffer (the (mem x)) @ contents mem xs" "contents mem (xs @ ys) = contents mem xs @ contents mem ys"
  by (simp_all add: contents_def)

lemma contents_cong:
  assumes "\<And>x. x \<in> set xs \<Longrightarrow> map_option b_buffer (mem' x) = map_option b_buffer (mem x)" "blocks_ok mem xs"
  shows "contents mem' xs = contents mem xs"
proof -
  have "b_buffer (the (mem' x)) = b_buffer (the (mem x))" if "x \<in> set xs" for x
    using assms(1) [OF that] assms(2) that by (cases "mem' x"; cases "mem x") (auto simp: blocks_ok_def)
  then show ?thesis unfolding contents_def by (metis (mono_tags, lifting) map_eq_conv)
qed

lemma blocks_ok_simps [simp]:
  "blocks_ok mem []" "blocks_ok mem (x # xs) \<longleftrightarrow> (\<exists>b. mem x = Some b \<and> length (b_buffer b) = BLOCK_SIZE) \<and> blocks_ok mem xs"
  "blocks_ok mem (xs @ ys) \<longleftrightarrow> blocks_ok mem xs \<and> blocks_ok mem ys"
  by (auto simp: blocks_ok_def)

lemma length_contents: "blocks_ok mem xs \<Longrightarrow> length (contents mem xs) = BLOCK_SIZE * length xs"
  by (induction xs) auto

lemma chain_blocks_cong:
  assumes "\<And>x. x \<in> set xs \<Longrightarrow> map_option b_buffer (mem' x) = map_option b_buffer (mem x)"
  shows "blocks_ok mem' xs = blocks_ok mem xs"
  unfolding blocks_ok_def
proof (intro ball_cong refl)
  fix x assume "x \<in> set xs"
  then show "(\<exists>b. mem' x = Some b \<and> length (b_buffer b) = BLOCK_SIZE) \<longleftrightarrow> (\<exists>b. mem x = Some b \<and> length (b_buffer b) = BLOCK_SIZE)"
    using assms [of x] by (cases "mem' x"; cases "mem x") auto
qed

text \<open>The blocks \<open>ys @ [c]\<close> hold the bytes \<open>bs\<close>; the rest of the memory is as before.\<close>

definition wrep :: "(addr \<rightharpoonup> block) \<Rightarrow> addr \<Rightarrow> write_block \<Rightarrow> u8 list \<Rightarrow> bool" where
  "wrep mem0 temp w bs \<longleftrightarrow> (\<exists>ys c.
     path (b_nx (wb_mem w)) (Some temp) (ys @ [c]) None \<and> wb_head w = Some temp \<and> wb_current w = Some c \<and> blocks_ok (wb_mem w) (ys @ [c]) \<and>
     wb_len w = int (length bs) \<and> length bs = BLOCK_SIZE * length ys + wb_ptr w \<and> wb_ptr w \<le> BLOCK_SIZE \<and>
     take (length bs) (contents (wb_mem w) (ys @ [c])) = map Some bs \<and>
     (\<forall>a. a \<notin> set (ys @ [c]) \<longrightarrow> wb_mem w a = mem0 a) \<and> (\<forall>a. wb_mem w a \<noteq> None \<longrightarrow> a < wb_brk w) \<and>
     (\<forall>a \<in> set (ys @ [c]). mem0 a = None))"

lemma wb_grow_ok:
  assumes w: "wrep mem0 temp w bs" "wb_ptr w = BLOCK_SIZE"
  shows "\<exists>w'. wb_grow w = Some w' \<and> wrep mem0 temp w' bs \<and> wb_ptr w' = 0"
proof -
  obtain ys c where r: "path (b_nx (wb_mem w)) (Some temp) (ys @ [c]) None" "wb_head w = Some temp" "wb_current w = Some c" "blocks_ok (wb_mem w) (ys @ [c])"
      "wb_len w = int (length bs)" "length bs = BLOCK_SIZE * length ys + wb_ptr w" "take (length bs) (contents (wb_mem w) (ys @ [c])) = map Some bs"
      "\<forall>a. a \<notin> set (ys @ [c]) \<longrightarrow> wb_mem w a = mem0 a" "\<forall>a. wb_mem w a \<noteq> None \<longrightarrow> a < wb_brk w" "\<forall>a \<in> set (ys @ [c]). mem0 a = None"
    using w(1) by (auto simp: wrep_def)
  obtain b where b: "wb_mem w c = Some b" using r(4) by auto
  let ?a = "wb_brk w"
  let ?blk = "\<lparr>b_next = None, b_buffer = replicate BLOCK_SIZE None\<rparr> :: block"
  let ?mem = "(wb_mem w)(?a \<mapsto> ?blk, c \<mapsto> b\<lparr>b_next := Some ?a\<rparr>)"
  let ?w = "w\<lparr>wb_mem := ?mem, wb_brk := ?a + 1, wb_current := Some ?a, wb_ptr := 0\<rparr>"
  have fresh: "?a \<notin> set (ys @ [c])" "wb_mem w ?a = None" using r(4,9) by (auto simp: blocks_ok_def)
  have d: "c \<notin> set ys" using path_distinct [OF r(1)] by simp
  have "path (b_nx ?mem) (Some temp) (ys @ [c]) (Some ?a)"
  proof -
    obtain p where "path (b_nx (wb_mem w)) (Some temp) ys p" "p = Some c" using r(1) by (auto simp: path_append)
    moreover have "path (b_nx ?mem) (Some temp) ys p = path (b_nx (wb_mem w)) (Some temp) ys p"
      using d fresh by (intro path_cong) (auto simp: b_nx_def)
    ultimately show ?thesis by (auto simp: path_append)
  qed
  moreover have "b_nx ?mem ?a = Some None" using fresh by auto
  ultimately have p: "path (b_nx ?mem) (Some temp) ((ys @ [c]) @ [?a]) None" by (subst path_append) auto
  have bufs: "map_option b_buffer (?mem x) = map_option b_buffer (wb_mem w x)" if "x \<in> set (ys @ [c])" for x using that b fresh by auto
  have ok: "blocks_ok ?mem (ys @ [c])" using chain_blocks_cong [of "ys @ [c]" ?mem "wb_mem w", OF bufs] r(4) by simp
  have "contents ?mem (ys @ [c]) = contents (wb_mem w) (ys @ [c])" using bufs r(4) by (intro contents_cong) simp_all
  then have "take (length bs) (contents ?mem ((ys @ [c]) @ [?a])) = map Some bs"
    using r(6,7) w(2) length_contents [OF r(4)] by (simp del: append_assoc contents_simps(2) add: contents_simps(3) [of _ "ys @ [c]"])
  moreover have "a \<in> dom ?mem \<Longrightarrow> a < ?a + 1" for a using r(9) b by (auto split: if_splits)
  moreover have "\<forall>a. a \<notin> set ((ys @ [c]) @ [?a]) \<longrightarrow> ?mem a = mem0 a" using r(8) by simp
  moreover have "mem0 ?a = None" using r(8) fresh by (metis)
  ultimately have "wrep mem0 temp ?w bs" unfolding wrep_def
    using p ok r w(2) fresh by (intro exI [of _ "ys @ [c]"] exI [of _ ?a]) (auto simp: dom_def)
  moreover have "wb_grow w = Some ?w" using r(3) b fresh by (auto simp: wb_grow_def blk_alloc_def Let_def)
  ultimately show ?thesis by simp
qed

lemma wb_memcpy_ok:
  assumes w: "wrep mem0 temp w bs" "wb_ptr w + length ds \<le> BLOCK_SIZE"
  shows "\<exists>w'. wb_memcpy ds w = Some w' \<and> wb_ptr w' = wb_ptr w \<and> wb_len w' = wb_len w \<and>
    wrep mem0 temp (w'\<lparr>wb_ptr := wb_ptr w + length ds, wb_len := wb_len w + int (length ds)\<rparr>) (bs @ ds)"
proof -
  obtain ys c where r: "path (b_nx (wb_mem w)) (Some temp) (ys @ [c]) None" "wb_head w = Some temp" "wb_current w = Some c" "blocks_ok (wb_mem w) (ys @ [c])"
      "wb_len w = int (length bs)" "length bs = BLOCK_SIZE * length ys + wb_ptr w" "take (length bs) (contents (wb_mem w) (ys @ [c])) = map Some bs"
      "\<forall>a. a \<notin> set (ys @ [c]) \<longrightarrow> wb_mem w a = mem0 a" "\<forall>a. wb_mem w a \<noteq> None \<longrightarrow> a < wb_brk w" "\<forall>a \<in> set (ys @ [c]). mem0 a = None"
    using w(1) by (auto simp: wrep_def)
  obtain b where b: "wb_mem w c = Some b" "length (b_buffer b) = BLOCK_SIZE" using r(4) by auto
  have d: "c \<notin> set ys" using path_distinct [OF r(1)] by simp
  define buf where "buf = take (wb_ptr w) (b_buffer b) @ map Some ds @ drop (wb_ptr w + length ds) (b_buffer b)"
  define mem where "mem = (wb_mem w)(c \<mapsto> b\<lparr>b_buffer := buf\<rparr>)"
  let ?w = "w\<lparr>wb_mem := mem\<rparr>"
  have lb: "length buf = BLOCK_SIZE" using b(2) w(2) by (simp add: buf_def)
  have ok: "blocks_ok (wb_mem w) ys" using r(4) by simp
  have same: "map_option b_buffer (mem x) = map_option b_buffer (wb_mem w x)" if "x \<in> set ys" for x using that d by (auto simp: mem_def)
  have ys: "contents mem ys = contents (wb_mem w) ys" using same ok by (rule contents_cong)
  have l: "length (contents (wb_mem w) ys) = BLOCK_SIZE * length ys" using ok by (rule length_contents)
  have pre: "contents (wb_mem w) ys @ take (wb_ptr w) (b_buffer b) = map Some bs" using r(6,7) b l by simp
  have "take (length (bs @ ds)) (contents mem (ys @ [c])) = contents (wb_mem w) ys @ take (wb_ptr w) (b_buffer b) @ map Some ds"
    using ys l r(6) b(2) w(2) by (simp add: mem_def buf_def)
  then have "take (length (bs @ ds)) (contents mem (ys @ [c])) = map Some (bs @ ds)" using pre by simp
  moreover have "b_nx mem = b_nx (wb_mem w)" using b by (auto simp: b_nx_def mem_def)
  moreover have "blocks_ok mem (ys @ [c])" using chain_blocks_cong [of ys mem, OF same] ok lb by (simp add: mem_def)
  ultimately have "wrep mem0 temp (?w\<lparr>wb_ptr := wb_ptr w + length ds, wb_len := wb_len w + int (length ds)\<rparr>) (bs @ ds)"
    unfolding wrep_def using r w(2) b by (intro exI [of _ ys] exI [of _ c]) (auto simp: mem_def)
  moreover have "wb_memcpy ds w = Some ?w" using r(3) b w(2) by (simp add: wb_memcpy_def mem_def buf_def)
  ultimately show ?thesis by simp
qed

lemma wb_grow_ptr: "wb_grow (w\<lparr>wb_ptr := p\<rparr>) = wb_grow w"
  by (simp add: wb_grow_def blk_alloc_def Let_def)

lemma wrep_ptr: "wrep mem0 temp w bs \<Longrightarrow> wb_ptr w \<le> BLOCK_SIZE"
  unfolding wrep_def by blast

text \<open>Writing fails only when the length leaves the range of \<open>int\<close>.\<close>

definition writes :: "(addr \<rightharpoonup> block) \<Rightarrow> addr \<Rightarrow> u8 list \<Rightarrow> u8 list \<Rightarrow> write_block option \<Rightarrow> bool" where
  "writes mem0 temp bs ds m \<longleftrightarrow> (\<exists>w. m = Some w \<and> wrep mem0 temp w (bs @ ds)) \<or> m = None \<and> 2 ^ 31 \<le> length bs + length ds"

lemma wb_push_loop_ok:
  assumes "if again then wrep mem0 temp (w\<lparr>wb_ptr := BLOCK_SIZE\<rparr>) bs else wrep mem0 temp w bs"
  shows "writes mem0 temp bs ds (wb_push_loop again ds w)"
  using assms
proof (induction ds arbitrary: again w bs rule: length_induct)
  case (1 ds)
  obtain w1 where w1: "(if again \<or> wb_ptr w = BLOCK_SIZE then wb_grow w else Some w) = Some w1" "wrep mem0 temp w1 bs" "wb_ptr w1 < BLOCK_SIZE"
  proof (cases "again \<or> wb_ptr w = BLOCK_SIZE")
    case True
    have "wrep mem0 temp (w\<lparr>wb_ptr := BLOCK_SIZE\<rparr>) bs"
    proof (cases again)
      case True then show ?thesis using 1(2) by simp
    next
      case False
      then have "w\<lparr>wb_ptr := BLOCK_SIZE\<rparr> = w" using \<open>again \<or> wb_ptr w = BLOCK_SIZE\<close> by (cases w) simp
      then show ?thesis using 1(2) False by simp
    qed
    then show ?thesis using that True wb_grow_ok [of mem0 temp "w\<lparr>wb_ptr := BLOCK_SIZE\<rparr>" bs] by (auto simp: wb_grow_ptr BLOCK_SIZE_def)
  next
    case False
    then have "wrep mem0 temp w bs" "wb_ptr w < BLOCK_SIZE" using 1(2) wrep_ptr [of mem0 temp w bs] by simp_all
    then show ?thesis using that False by simp
  qed
  have len: "wb_len w1 = int (length bs)" using w1(2) by (auto simp: wrep_def)
  show ?case
  proof (cases "wb_ptr w1 + length ds \<le> BLOCK_SIZE")
    case True
    obtain w2 where w2: "wb_memcpy ds w1 = Some w2" "wb_ptr w2 = wb_ptr w1" "wb_len w2 = wb_len w1"
        "wrep mem0 temp (w2\<lparr>wb_ptr := wb_ptr w1 + length ds, wb_len := wb_len w1 + int (length ds)\<rparr>) (bs @ ds)"
      using wb_memcpy_ok [OF w1(2) True] by blast
    then have "writes mem0 temp bs ds (wb_count (length ds) (w2\<lparr>wb_ptr := wb_ptr w2 + length ds\<rparr>))"
      using len by (cases w2) (auto simp: writes_def wb_count_def)
    then show ?thesis using w1(1) w2(1) True by (subst wb_push_loop.simps) simp
  next
    case False
    define copy where "copy = BLOCK_SIZE - wb_ptr w1"
    have c: "wb_ptr w1 + length (take copy ds) = BLOCK_SIZE" "length (take copy ds) = copy" using False w1(3) by (auto simp: copy_def)
    obtain w2 where w2: "wb_memcpy (take copy ds) w1 = Some w2" "wb_len w2 = wb_len w1"
        "wrep mem0 temp (w2\<lparr>wb_ptr := BLOCK_SIZE, wb_len := wb_len w1 + int copy\<rparr>) (bs @ take copy ds)"
      using wb_memcpy_ok [OF w1(2), of "take copy ds"] c by auto
    have d: "length (drop copy ds) < length ds" using False w1(3) by (simp add: copy_def)
    have u: "wb_push_loop again ds w = do { w \<leftarrow> wb_count copy w2; wb_push_loop True (drop copy ds) w }"
      using w1(1) w2(1) False by (subst wb_push_loop.simps) (simp add: copy_def Let_def)
    show ?thesis
    proof (cases "wb_count copy w2")
      case None
      then have "2 ^ 31 \<le> length bs + copy" using w2(2) len by (simp add: wb_count_def split: if_splits)
      then show ?thesis using None u c(2) by (auto simp: writes_def)
    next
      case (Some w3)
      then have "wrep mem0 temp (w3\<lparr>wb_ptr := BLOCK_SIZE\<rparr>) (bs @ take copy ds)"
        using w2(2,3) by (cases w2) (auto simp: wb_count_def split: if_splits)
      then have "writes mem0 temp (bs @ take copy ds) (drop copy ds) (wb_push_loop True (drop copy ds) w3)"
        using 1(1) [rule_format, OF d, of True w3 "bs @ take copy ds"] by simp
      then show ?thesis using Some u c(2) d by (auto simp: writes_def)
    qed
  qed
qed

lemma writes_push: "wrep mem0 temp w bs \<Longrightarrow> writes mem0 temp bs ds (wb_push ds w)"
  using wb_push_loop_ok [of False mem0 temp w bs ds] by (simp add: wb_push_def)

lemma free_blocks_path: "path (b_nx mem) p xs None \<Longrightarrow> free_blocks p mem = Some (mem |` (- set xs))"
proof (induction xs arbitrary: p mem)
  case Nil
  then show ?case by (subst free_blocks.simps) (simp add: restrict_map_def)
next
  case (Cons x xs)
  then obtain b where b: "p = Some x" "mem x = Some b" "path (b_nx mem) (b_next b) xs None" by auto
  have "x \<notin> set xs" using path_distinct [OF Cons.prems] by simp
  then have "path (b_nx (mem(x := None))) (b_next b) xs None = path (b_nx mem) (b_next b) xs None" by (intro path_cong) (auto simp: b_nx_def)
  then have "free_blocks (b_next b) (mem(x := None)) = Some ((mem(x := None)) |` (- set xs))" using Cons.IH b(3) by blast
  moreover have "(mem(x := None)) |` (- set xs) = mem |` (- set (x # xs))" by (auto simp: restrict_map_def fun_eq_iff)
  ultimately show ?case using b(1,2) by (subst free_blocks.simps) simp
qed

lemma wb_free_ok:
  assumes "wrep mem0 temp w bs"
  shows "\<exists>w'. wb_free w = Some w' \<and> (wb_mem w')(temp := None) = mem0"
proof -
  obtain zs where z: "path (b_nx (wb_mem w)) (Some temp) zs None" "wb_head w = Some temp"
      "\<forall>a. a \<notin> set zs \<longrightarrow> wb_mem w a = mem0 a" "\<forall>a \<in> set zs. mem0 a = None"
    using assms unfolding wrep_def by blast
  obtain xs where "zs = temp # xs" using path_Some_Nil [OF z(1)] by blast
  note r = z [unfolded this]
  obtain b where b: "wb_mem w temp = Some b" "path (b_nx (wb_mem w)) (b_next b) xs None" using r(1) by auto
  have "(wb_mem w |` (- set xs))(temp := None) = mem0" using r(3,4) by (auto simp: restrict_map_def fun_eq_iff)
  then show ?thesis using r(2) b(1) free_blocks_path [OF b(2)] by (auto simp: wb_free_def)
qed

lemma those_Some [simp]: "those (map Some xs) = Some xs"
  by (induction xs) simp_all

lemma seri_path:
  assumes "path (b_nx mem) p xs None" "blocks_ok mem xs" "length bs \<le> BLOCK_SIZE * length xs" "take (length bs) (contents mem xs) = map Some bs"
  shows "seri p (int (length bs)) mem = Some bs"
  using assms
proof (induction xs arbitrary: p bs)
  case Nil
  then show ?case by (subst seri.simps) simp
next
  case (Cons x xs)
  then obtain b where b: "p = Some x" "mem x = Some b" "path (b_nx mem) (b_next b) xs None" "length (b_buffer b) = BLOCK_SIZE" by auto
  show ?case
  proof (cases "length bs \<ge> BLOCK_SIZE")
    case True
    have t: "b_buffer b @ take (length bs - BLOCK_SIZE) (contents mem xs) = map Some bs" using Cons.prems(4) b True by simp
    have 1: "b_buffer b = map Some (take BLOCK_SIZE bs)" using arg_cong [OF t, of "take BLOCK_SIZE"] b(4) by (simp add: take_map)
    have 2: "take (length (drop BLOCK_SIZE bs)) (contents mem xs) = map Some (drop BLOCK_SIZE bs)" using arg_cong [OF t, of "drop BLOCK_SIZE"] b(4) by (simp add: drop_map)
    have "length (drop BLOCK_SIZE bs) \<le> BLOCK_SIZE * length xs" using Cons.prems(3) by simp
    then have "seri (b_next b) (int (length (drop BLOCK_SIZE bs))) mem = Some (drop BLOCK_SIZE bs)" using Cons.IH [OF b(3) _ _ 2] Cons.prems(2) by simp
    then show ?thesis using True b(1,2) 1 by (subst seri.simps) (auto simp: BLOCK_SIZE_def of_nat_diff)
  next
    case False
    then have "take (length bs) (b_buffer b) = map Some bs" using Cons.prems(4) b by simp
    then show ?thesis using False b by (subst seri.simps) simp
  qed
qed

lemma seri_ok: "wrep mem0 temp w bs \<Longrightarrow> seri (Some temp) (wb_len w) (wb_mem w) = Some bs"
  unfolding wrep_def using seri_path [of "wb_mem w" "Some temp" _ bs] by auto

subsection \<open>Reading\<close>

text \<open>The bytes that are still to be read.\<close>

definition reading :: "u8 list \<Rightarrow> read_block \<Rightarrow> u8 list \<Rightarrow> bool" where
  "reading buffer rb bs \<longleftrightarrow> 0 \<le> rb_ptr rb \<and> nat (rb_ptr rb) \<le> length buffer \<and> drop (nat (rb_ptr rb)) buffer = bs \<and> rb_len rb = int (length bs)"

definition skip :: "nat \<Rightarrow> read_block \<Rightarrow> read_block" where
  "skip n rb = rb\<lparr>rb_ptr := rb_ptr rb + int n, rb_len := rb_len rb - int n\<rparr>"

lemma skip_simps [simp]: "rb_tabs (skip n rb) = rb_tabs rb" "rb_brk (skip n rb) = rb_brk rb"
  by (simp_all add: skip_def)

lemma reading_skip: "reading buffer rb bs \<Longrightarrow> n \<le> length bs \<Longrightarrow> reading buffer (skip n rb) (drop n bs)"
  by (auto simp: reading_def skip_def nat_add_distrib add.commute)

lemma reading_heap: "reading buffer (rb\<lparr>rb_tabs := T, rb_brk := a\<rparr>) bs = reading buffer rb bs" "reading buffer (rb\<lparr>rb_tabs := T\<rparr>) bs = reading buffer rb bs"
  by (simp_all add: reading_def)

lemma rb_read_eq: "reading buffer rb bs \<Longrightarrow> rb_read (int n) rb = (if length bs < n then (None, rb) else (Some (rb_ptr rb), skip n rb))"
  by (simp add: rb_read_def reading_def skip_def)

lemma rb_fetch_eq: "reading buffer rb bs \<Longrightarrow> n \<le> length bs \<Longrightarrow> rb_fetch buffer (rb_ptr rb) n = Some (take n bs)"
  by (auto simp: rb_fetch_def load_bytes_def reading_def)

lemma rb_take_eq: "reading buffer rb bs \<Longrightarrow> rb_take buffer n rb = (if length bs < n then invalid_stream else Some (Inr (take n bs, skip n rb)))"
  by (simp add: rb_take_def rb_read_eq rb_fetch_eq)

lemma rb_word_eq:
  "reading buffer rb bs \<Longrightarrow> rb_word buffer n decode rb =
    (if length bs < n then invalid_stream else map_option (\<lambda>x. Inr (x, skip n rb)) (decode (take n bs)))"
  by (cases "decode (take n bs)") (simp_all add: rb_word_def rb_take_eq invalid_stream_def)

lemma get_buffer_eq:
  assumes "reading buffer rb bs"
  shows "get_buffer buffer len rb = (if len < 0 then Some (Inl ''memory allocation error: block too big'') else if int (length bs) < len then invalid_stream
    else Some (Inr (LStr (take (nat len) bs), skip (nat len) rb)))"
proof (cases "len < 0")
  case True
  then show ?thesis using assms by (simp add: get_buffer_def rb_read_def reading_def)
next
  case False
  then show ?thesis using rb_read_eq [OF assms, of "nat len"] rb_fetch_eq [OF assms, of "nat len"] by (auto simp: get_buffer_def)
qed

subsection \<open>Unpacking is safe\<close>

text \<open>The outcome is an error or a value, with fewer than \<open>n\<close> bytes left and no table lost.\<close>

definition goes :: "u8 list \<Rightarrow> read_block \<Rightarrow> nat \<Rightarrow> ('a \<times> read_block) res \<Rightarrow> bool" where
  "goes buffer rb n r \<longleftrightarrow> (\<exists>e. r = Some (Inl e)) \<or>
     (\<exists>x rb' bs. r = Some (Inr (x, rb')) \<and> reading buffer rb' bs \<and> length bs < n \<and> dom (rb_tabs rb) \<subseteq> dom (rb_tabs rb'))"

lemma goes_error [simp]: "goes buffer rb n invalid_stream" "goes buffer rb n (Some (Inl e))"
  by (simp_all add: goes_def invalid_stream_def)

lemma goes_bind:
  assumes "goes buffer rb n m"
    and "\<And>x rb' bs. reading buffer rb' bs \<Longrightarrow> length bs < n \<Longrightarrow> dom (rb_tabs rb) \<subseteq> dom (rb_tabs rb') \<Longrightarrow> goes buffer rb' k (f (x, rb'))"
  shows "goes buffer rb k (lbind m f)"
  using assms(1) unfolding goes_def
proof (elim disjE exE conjE)
  fix x rb' bs assume m: "m = Some (Inr (x, rb'))" and r: "reading buffer rb' bs" "length bs < n" "dom (rb_tabs rb) \<subseteq> dom (rb_tabs rb')"
  show "(\<exists>e. lbind m f = Some (Inl e)) \<or> (\<exists>x rb' bs. lbind m f = Some (Inr (x, rb')) \<and> reading buffer rb' bs \<and> length bs < k \<and> dom (rb_tabs rb) \<subseteq> dom (rb_tabs rb'))"
    using assms(2) [OF r, of x] r(3) unfolding goes_def m by fastforce
qed simp

lemma goes_skip: "reading buffer rb bs \<Longrightarrow> n \<le> length bs \<Longrightarrow> length bs - n < k \<Longrightarrow> goes buffer rb k (Some (Inr (x, skip n rb)))"
  unfolding goes_def using reading_skip by fastforce

lemma goes_word:
  assumes "reading buffer rb bs" "length bs < k + n" "\<And>xs. length xs = n \<Longrightarrow> decode xs \<noteq> None"
  shows "goes buffer rb k (rb_word buffer n decode rb)"
proof (cases "length bs < n")
  case False
  then obtain x where "decode (take n bs) = Some x" using assms(3) [of "take n bs"] by auto
  then show ?thesis using False assms by (simp add: rb_word_eq goes_skip)
qed (simp add: rb_word_eq [OF assms(1)])

lemma decode_total: "length xs = 2 \<Longrightarrow> bytes_u16 xs \<noteq> None" "length xs = 4 \<Longrightarrow> bytes_u32 xs \<noteq> None" "length xs = 8 \<Longrightarrow> bytes_u64 xs \<noteq> None"
  by (auto simp: bytes_u16_def bytes_u32_def bytes_u64_def length_Suc_conv numeral_eq_Suc)

lemma goes_word_more: "reading buffer rb bs \<Longrightarrow> length bs < k \<Longrightarrow> (\<And>xs. length xs = n \<Longrightarrow> decode xs \<noteq> None) \<Longrightarrow> goes buffer rb k (rb_word buffer n decode rb)"
  by (rule goes_word, assumption) (rule trans_less_add1, assumption+)

lemma goes_get_integer: "reading buffer rb bs \<Longrightarrow> length bs < k \<Longrightarrow> goes buffer rb k (get_integer buffer cookie rb)"
  unfolding get_integer_def using decode_total
  by (auto intro!: goes_word_more) (auto simp: goes_def)

lemma goes_get_buffer: "reading buffer rb bs \<Longrightarrow> length bs < k \<Longrightarrow> goes buffer rb k (get_buffer buffer len rb)"
  by (auto simp: get_buffer_eq intro!: goes_skip)

lemma goes_return: "reading buffer rb bs \<Longrightarrow> length bs < k \<Longrightarrow> goes buffer rb k (Some (Inr (x, rb)))"
  by (auto simp: goes_def)

lemma goes_push_value:
  assumes rb: "reading buffer rb bs" "length bs < k" and T: "\<And>n. goes buffer rb k (T n rb)"
  shows "goes buffer rb k (push_value T buffer type cookie rb)"
proof -
  have word: "goes buffer rb k (rb_word buffer 8 bytes_u64 rb)" "goes buffer rb k (rb_word buffer 4 bytes_u32 rb)" "goes buffer rb k (rb_word buffer 2 bytes_u16 rb)"
    using decode_total by (auto intro!: goes_word_more [OF rb])
  have ret: "goes buffer rb k (lbind m (\<lambda>(x, rb). Some (Inr (g x, rb))))" if "goes buffer rb k m" for m and g :: "'x \<Rightarrow> lval"
    by (rule goes_bind [OF that]) (auto intro: goes_return)
  have buf: "goes buffer rb k (lbind m (\<lambda>(n, rb). get_buffer buffer (g n) rb))" if "goes buffer rb k m" for m and g :: "'x \<Rightarrow> int"
    by (rule goes_bind [OF that]) (auto intro: goes_get_buffer)
  show ?thesis unfolding push_value_def get_real_def get_pointer_def
    by (simp add: T ret [OF word(1)] buf [OF word(2)] buf [OF word(3)] ret [OF goes_get_integer [OF rb]] goes_get_buffer [OF rb] goes_return [OF rb])
qed

lemma goes_table_size:
  assumes rb: "reading buffer rb bs" "length bs < k"
  shows "goes buffer rb k (table_size buffer n rb)"
proof -
  have "goes buffer rb k (rb_word buffer 1 (\<lambda>bs. array_get bs 0) rb)" by (rule goes_word_more [OF rb]) simp
  then have "goes buffer rb k (lbind (rb_word buffer 1 (\<lambda>bs. array_get bs 0) rb) (\<lambda>(type, rb).
          let cookie = uint (drop_bit 3 type)
          in if uint (type AND 7) \<noteq> TYPE_NUMBER \<or> cookie = TYPE_NUMBER_REAL then invalid_stream
             else lbind (get_integer buffer cookie rb) (\<lambda>(n, rb). Some (Inr (sint (ucast n :: u32), rb)))))"
    by (rule goes_bind) (auto simp: Let_def intro!: goes_bind [OF goes_get_integer] goes_return)
  then show ?thesis using goes_return [OF rb, of n] by (simp add: table_size_def)
qed

lemma goes_rawset:
  assumes "reading buffer rb bs" "a \<in> dom (rb_tabs rb)"
    and f: "\<And>rb'. reading buffer rb' bs \<Longrightarrow> dom (rb_tabs rb') = dom (rb_tabs rb) \<Longrightarrow> goes buffer rb' k (f rb')"
  shows "goes buffer rb k (lbind (lua_rawset a key v rb) f)"
proof -
  obtain t where t: "rb_tabs rb a = Some t" using assms(2) by blast
  show ?thesis
  proof (cases "rawset t key v")
    case (Inr t')
    let ?rb = "rb\<lparr>rb_tabs := (rb_tabs rb)(a \<mapsto> t')\<rparr>"
    have d: "dom (rb_tabs ?rb) = dom (rb_tabs rb)" using t by auto
    have "goes buffer ?rb k (f ?rb)" using f [of ?rb] assms(1) d by (simp add: reading_heap)
    then show ?thesis using t Inr unfolding goes_def by (auto simp: lua_rawset_def)
  qed (use t in \<open>simp add: lua_rawset_def\<close>)
qed

fun job_rank :: "unpack_job \<Rightarrow> nat" where
  "job_rank Unpack_one = 0"
| "job_rank (Hash_loop _) = 1"
| "job_rank (Array_loop _ _ _) = 2"
| "job_rank (Unpack_table _) = 3"

fun job_ok :: "unpack_job \<Rightarrow> lheap \<Rightarrow> bool" where
  "job_ok (Hash_loop a) T = (a \<in> dom T)"
| "job_ok (Array_loop a _ _) T = (a \<in> dom T)"
| "job_ok _ T = True"

lemma goes_unpack:
  assumes "reading buffer rb bs" "job_ok job (rb_tabs rb)"
  shows "goes buffer rb (if job = Unpack_one then length bs else Suc (length bs)) (unpack buffer job rb)"
  using assms
proof (induction "4 * length bs + job_rank job" arbitrary: job rb bs rule: less_induct)
  case less
  have IH: "goes buffer rb' k (unpack buffer job' rb')" if "reading buffer rb' bs'" "job_ok job' (rb_tabs rb')"
      "4 * length bs' + job_rank job' < 4 * length bs + job_rank job" "length bs' < k" for k rb' bs' job'
  proof -
    have "goes buffer rb' (if job' = Unpack_one then length bs' else Suc (length bs')) (unpack buffer job' rb')" using less(1) that by blast
    then show ?thesis using that(4) unfolding goes_def by (fastforce split: if_splits)
  qed
  have one: "goes buffer rb' (length bs') (unpack buffer Unpack_one rb')" if "reading buffer rb' bs'"
      "4 * length bs' < 4 * length bs + job_rank job" for rb' bs'
    using less(1) [of bs' Unpack_one rb'] that by simp
  show ?case
  proof (cases job)
    case Unpack_one
    have "goes buffer rb (length bs) (rb_word buffer 1 (\<lambda>bs. array_get bs 0) rb)" by (rule goes_word [OF less(2)]) simp_all
    then have "goes buffer rb (length bs) (lbind (rb_word buffer 1 (\<lambda>bs. array_get bs 0) rb) (\<lambda>(type, rb).
            push_value (\<lambda>n rb. unpack buffer (Unpack_table n) rb) buffer (uint (type AND 7)) (uint (drop_bit 3 type)) rb))"
      by (rule goes_bind) (auto intro!: goes_push_value IH simp: Unpack_one)
    then show ?thesis using Unpack_one by (subst unpack.simps) simp
  next
    case (Unpack_table n)
    have "goes buffer rb (Suc (length bs)) (lbind (table_size buffer n rb) (\<lambda>(n, rb). let (a, rb) = lua_createtable rb in unpack buffer (Array_loop a 1 n) rb))"
    proof (rule goes_bind [OF goes_table_size [OF less(2), of "Suc (length bs)"]])
      fix n rb' bs' assume r: "reading buffer rb' bs'" "length bs' < Suc (length bs)"
      let ?rb = "snd (lua_createtable rb')"
      have "goes buffer ?rb (Suc (length bs)) (unpack buffer (Array_loop (rb_brk rb') 1 n) ?rb)"
        using r by (intro IH) (auto simp: lua_createtable_def Let_def reading_heap Unpack_table)
      moreover have "dom (rb_tabs rb') \<subseteq> dom (rb_tabs ?rb)" by (auto simp: lua_createtable_def Let_def)
      ultimately show "goes buffer rb' (Suc (length bs)) (case (n, rb') of (n, rb) \<Rightarrow> let (a, rb) = lua_createtable rb in unpack buffer (Array_loop a 1 n) rb)"
        unfolding goes_def by (auto simp: lua_createtable_def Let_def)
    qed simp
    then show ?thesis using Unpack_table by (subst unpack.simps) simp
  next
    case (Array_loop a i n)
    have "goes buffer rb (Suc (length bs)) (lbind (unpack buffer Unpack_one rb) (\<lambda>(v, rb).
              lbind (lua_rawset a (LInt (of_int i)) v rb) (\<lambda>rb. unpack buffer (Array_loop a (i + 1) n) rb)))"
    proof (rule goes_bind [OF one [OF less(2)]])
      fix v rb' bs' assume r: "reading buffer rb' bs'" "length bs' < length bs" "dom (rb_tabs rb) \<subseteq> dom (rb_tabs rb')"
      have a: "a \<in> dom (rb_tabs rb')" using less(3) Array_loop r(3) by auto
      have "goes buffer rb2 (Suc (length bs)) (unpack buffer (Array_loop a (i + 1) n) rb2)" if "reading buffer rb2 bs'" "dom (rb_tabs rb2) = dom (rb_tabs rb')" for rb2
        by (rule IH [OF that(1)]) (use a that r Array_loop in \<open>simp_all only: job_ok.simps job_rank.simps\<close>)
      then show "goes buffer rb' (Suc (length bs)) (case (v, rb') of (v, rb) \<Rightarrow>
          lbind (lua_rawset a (LInt (of_int i)) v rb) (\<lambda>rb. unpack buffer (Array_loop a (i + 1) n) rb))"
        unfolding prod.case by (rule goes_rawset [OF r(1) a])
    qed (simp add: Array_loop)
    moreover have "goes buffer rb (Suc (length bs)) (unpack buffer (Hash_loop a) rb)" using less(2,3) Array_loop by (intro IH) auto
    ultimately show ?thesis using Array_loop by (subst unpack.simps) simp
  next
    case (Hash_loop a)
    have "goes buffer rb (Suc (length bs)) (lbind (unpack buffer Unpack_one rb) (\<lambda>(k, rb).
            if k = LNil then Some (Inr (LTab a, rb))
            else lbind (unpack buffer Unpack_one rb) (\<lambda>(v, rb).
              lbind (lua_rawset a k v rb) (\<lambda>rb. unpack buffer (Hash_loop a) rb))))"
    proof (rule goes_bind [OF one [OF less(2)]])
      fix k rb' bs' assume r: "reading buffer rb' bs'" "length bs' < length bs" "dom (rb_tabs rb) \<subseteq> dom (rb_tabs rb')"
      have "goes buffer rb' (Suc (length bs)) (lbind (unpack buffer Unpack_one rb') (\<lambda>(v, rb). lbind (lua_rawset a k v rb) (\<lambda>rb. unpack buffer (Hash_loop a) rb)))"
      proof (rule goes_bind [OF one [OF r(1)]])
        fix v rb2 bs2 assume r2: "reading buffer rb2 bs2" "length bs2 < length bs'" "dom (rb_tabs rb') \<subseteq> dom (rb_tabs rb2)"
        have a: "a \<in> dom (rb_tabs rb2)" using less(3) Hash_loop r(3) r2(3) by auto
        have "goes buffer rb3 (Suc (length bs)) (unpack buffer (Hash_loop a) rb3)" if "reading buffer rb3 bs2" "dom (rb_tabs rb3) = dom (rb_tabs rb2)" for rb3
          by (rule IH [OF that(1)]) (use a that r(2) r2(2) Hash_loop in \<open>simp_all only: job_ok.simps job_rank.simps\<close>)
        then show "goes buffer rb2 (Suc (length bs)) (case (v, rb2) of (v, rb) \<Rightarrow> lbind (lua_rawset a k v rb) (\<lambda>rb. unpack buffer (Hash_loop a) rb))"
          unfolding prod.case by (rule goes_rawset [OF r2(1) a])
      qed (use r(2) in simp)
      then show "goes buffer rb' (Suc (length bs)) (case (k, rb') of (k, rb) \<Rightarrow> if k = LNil then Some (Inr (LTab a, rb))
            else lbind (unpack buffer Unpack_one rb) (\<lambda>(v, rb). lbind (lua_rawset a k v rb) (\<lambda>rb. unpack buffer (Hash_loop a) rb)))"
        using goes_return [OF r(1), of "Suc (length bs)" "LTab a"] r(2) by simp
    qed (simp add: Hash_loop)
    then show ?thesis using Hash_loop by (subst unpack.simps) simp
  qed
qed

lemma unpack_all_safe:
  assumes "reading buffer rb bs"
  shows "\<exists>r. unpack_all buffer acc rb = Some r"
  using assms
proof (induction bs arbitrary: rb acc rule: length_induct)
  case (1 bs)
  show ?case
  proof (cases bs)
    case Nil
    then show ?thesis using rb_read_eq [OF 1(2), of 1] by (subst unpack_all.simps) simp
  next
    case (Cons b cs)
    have f: "rb_read 1 rb = (Some (rb_ptr rb), skip 1 rb)" "rb_fetch buffer (rb_ptr rb) 1 = Some [b]"
      using rb_read_eq [OF 1(2), of 1] rb_fetch_eq [OF 1(2), of 1] Cons by simp_all
    have r: "reading buffer (skip 1 rb) cs" using reading_skip [OF 1(2), of 1] Cons by simp
    have "goes buffer (skip 1 rb) (length bs) (push_value (\<lambda>n rb. unpack buffer (Unpack_table n) rb) buffer (uint (b AND 7)) (uint (drop_bit 3 b)) (skip 1 rb))"
      using goes_unpack [OF r, of "Unpack_table _"] Cons by (intro goes_push_value [OF r]) simp_all
    then show ?thesis using f 1(1) unfolding goes_def by (subst unpack_all.simps) auto
  qed
qed

subsection \<open>Reading back single values\<close>

lemma combine_eq: "0 \<le> t \<Longrightarrow> t < 8 \<Longrightarrow> COMBINE_TYPE t v = of_int (t + 8 * v)"
proof -
  assume "0 \<le> t" "t < 8"
  then have "take_bit 3 t = t" by (simp add: take_bit_int_eq_self)
  then have "t OR push_bit 3 v = t + push_bit 3 v" using concat_bit_eq [of 3 t v] by (simp add: concat_bit_def)
  then show ?thesis by (simp add: COMBINE_TYPE_def push_bit_eq_mult)
qed

lemma combine_split:
  assumes "0 \<le> t" "t < 8" "0 \<le> v" "v < 32"
  shows "uint (COMBINE_TYPE t v AND 7) = t" "uint (drop_bit 3 (COMBINE_TYPE t v)) = v"
proof -
  have u: "uint (COMBINE_TYPE t v) = t + 8 * v" unfolding combine_eq [OF assms(1,2)] using assms by (subst uint_word_of_int) simp
  have "uint (COMBINE_TYPE t v AND 7) = uint (COMBINE_TYPE t v) mod 8"
    using take_bit_eq_mask [of 3 "uint (COMBINE_TYPE t v)"] by (simp add: unsigned_and_eq mask_eq_exp_minus_1 take_bit_eq_mod)
  then show "uint (COMBINE_TYPE t v AND 7) = t" using u assms by simp
  have "uint (drop_bit 3 (COMBINE_TYPE t v)) = uint (COMBINE_TYPE t v) div 8" using bintr_uint [of 8 "COMBINE_TYPE t v"] by (subst unsigned_drop_bit_eq) (simp add: drop_bit_eq_div)
  then show "uint (drop_bit 3 (COMBINE_TYPE t v)) = v" using u assms by simp
qed

lemma bytes_of_u64: "bytes_u64 (u64_bytes w @ r) = Some w"
proof -
  have "ucast (ucast w :: u32) OR push_bit 32 (ucast (ucast (drop_bit 32 w) :: u32)) = w" (is "?l = w")
  proof (rule bit_word_eqI)
    fix n assume "n < LENGTH(64)"
    then show "bit ?l n = bit w n" by (cases "n < 32") (auto simp: bit_simps)
  qed
  then show ?thesis by (simp add: bytes_u64_def u64_bytes_def bytes_of_u32)
qed

lemma length_u64_bytes [simp]: "length (u64_bytes w) = 8"
  by (simp add: u64_bytes_def)

lemma c_int_small [simp]: "n < 2 ^ 31 \<Longrightarrow> c_int n = int n"
  by (simp add: c_int_def signed_of_nat signed_take_bit_int_eq_self)

lemmas seri_types = TYPE_NIL_def TYPE_BOOLEAN_def TYPE_NUMBER_def TYPE_USERDATA_def TYPE_SHORT_STRING_def TYPE_LONG_STRING_def TYPE_TABLE_def
  TYPE_NUMBER_ZERO_def TYPE_NUMBER_BYTE_def TYPE_NUMBER_WORD_def TYPE_NUMBER_DWORD_def TYPE_NUMBER_QWORD_def TYPE_NUMBER_REAL_def MAX_COOKIE_def

definition int_bytes :: "u64 \<Rightarrow> int \<times> u8 list" where
  "int_bytes v =
     (if v = 0 then (TYPE_NUMBER_ZERO, [])
      else if v \<noteq> scast (ucast v :: u32) then (TYPE_NUMBER_QWORD, u64_bytes v)
      else if sint v < 0 then (TYPE_NUMBER_DWORD, u32_bytes (ucast v))
      else if sint v < 0x100 then (TYPE_NUMBER_BYTE, [ucast v])
      else if sint v < 0x10000 then (TYPE_NUMBER_WORD, u16_bytes (ucast v))
      else (TYPE_NUMBER_DWORD, u32_bytes (ucast v)))"

lemma ucast_small: "0 \<le> sint x \<Longrightarrow> sint x < 2 ^ 8 \<Longrightarrow> ucast (ucast x :: u8) = x" "0 \<le> sint x \<Longrightarrow> sint x < 2 ^ 16 \<Longrightarrow> ucast (ucast x :: u16) = x" for x :: u64
proof -
  have u: "uint x = sint x" if "0 \<le> sint x"
    using that sint_lt [of x] by (simp add: uint_sint take_bit_int_eq_self del: sint_lt)
  show "0 \<le> sint x \<Longrightarrow> sint x < 2 ^ 8 \<Longrightarrow> ucast (ucast x :: u8) = x"
    using u by (intro word_uint_eqI) (simp add: unsigned_ucast_eq unsigned_take_bit_eq take_bit_int_eq_self)
  show "0 \<le> sint x \<Longrightarrow> sint x < 2 ^ 16 \<Longrightarrow> ucast (ucast x :: u16) = x"
    using u by (intro word_uint_eqI) (simp add: unsigned_ucast_eq unsigned_take_bit_eq take_bit_int_eq_self)
qed

lemma int_bytes_cookie: "0 \<le> fst (int_bytes v)" "fst (int_bytes v) < 8"
  by (simp_all add: int_bytes_def seri_types)

lemma rb_word_bytes:
  "reading buffer rb (bs @ rest) \<Longrightarrow> length bs = n \<Longrightarrow> decode bs = Some x \<Longrightarrow> rb_word buffer n decode rb = Some (Inr (x, skip n rb))"
  by (simp add: rb_word_eq)

lemma get_integer_bytes:
  assumes "reading buffer rb (snd (int_bytes v) @ rest)"
  shows "get_integer buffer (fst (int_bytes v)) rb = Some (Inr (v, skip (length (snd (int_bytes v))) rb))"
proof -
  consider "v = 0" | "int_bytes v = (TYPE_NUMBER_QWORD, u64_bytes v)" | "int_bytes v = (TYPE_NUMBER_DWORD, u32_bytes (ucast v))" "scast (ucast v :: u32) = v"
    | "int_bytes v = (TYPE_NUMBER_BYTE, [ucast v])" "ucast (ucast v :: u8) = v" | "int_bytes v = (TYPE_NUMBER_WORD, u16_bytes (ucast v))" "ucast (ucast v :: u16) = v"
  proof (cases "v = 0 \<or> v \<noteq> scast (ucast v :: u32)")
    case True
    then show ?thesis using that(1,2) unfolding int_bytes_def by (cases "v = 0") (simp_all only: if_True if_False simp_thms)
  next
    case False
    then have c: "scast (ucast v :: u32) = v" and i: "int_bytes v = (if sint v < 0 then (TYPE_NUMBER_DWORD, u32_bytes (ucast v))
        else if sint v < 0x100 then (TYPE_NUMBER_BYTE, [ucast v]) else if sint v < 0x10000 then (TYPE_NUMBER_WORD, u16_bytes (ucast v))
        else (TYPE_NUMBER_DWORD, u32_bytes (ucast v)))" by (simp_all only: int_bytes_def if_True if_False simp_thms de_Morgan_disj)
    then show ?thesis using that(3,4,5) ucast_small [of v] by (cases "sint v < 0"; cases "sint v < 0x100"; cases "sint v < 0x10000") simp_all
  qed
  then show ?thesis
  proof cases
    case 1
    then show ?thesis by (simp add: int_bytes_def get_integer_def skip_def)
  next
    case 2
    then show ?thesis using assms bytes_of_u64 [of v "[]"] by (simp add: get_integer_def seri_types rb_word_bytes)
  next
    case 3
    then show ?thesis using assms bytes_of_u32 [of "ucast v" "[]"] by (simp add: get_integer_def seri_types rb_word_bytes)
  next
    case 4
    then show ?thesis using assms rb_word_bytes [of buffer rb "[ucast v]" rest 1 "\<lambda>bs. map_option ucast (array_get bs 0)" v] by (simp add: get_integer_def seri_types)
  next
    case 5
    then show ?thesis using assms bytes_of_u16 [of "ucast v" "[]"] by (simp add: get_integer_def seri_types rb_word_bytes)
  qed
qed

subsection \<open>Copies\<close>

text \<open>What is sent of a table.\<close>

definition sent :: "ltable \<Rightarrow> (lval \<times> lval) list" where
  "sent t = (case t_pairs t of Some (es, _) \<Rightarrow> es | None \<Rightarrow> t_entries t)"

text \<open>
  \<open>v'\<close> in the store \<open>T\<close> is a copy of \<open>v\<close> in \<open>H\<close>: equal, or a table whose entries are copies of what is
  sent of the other table, one for one in any order.  The tables of a copy lie from \<open>lo\<close> below \<open>hi\<close>, those inside a table above it; \<open>d\<close>
  limits the depth.
\<close>

primrec copied :: "nat \<Rightarrow> lheap \<Rightarrow> lheap \<Rightarrow> addr \<Rightarrow> addr \<Rightarrow> lval \<Rightarrow> lval \<Rightarrow> bool" where
  "copied 0 H T lo hi v v' \<longleftrightarrow> v' = v \<and> (\<forall>a. v \<noteq> LTab a)"
| "copied (Suc d) H T lo hi v v' \<longleftrightarrow>
     (case v of
        LTab a \<Rightarrow> (\<exists>a' t t' es. v' = LTab a' \<and> lo \<le> a' \<and> a' < hi \<and> H a = Some t \<and> T a' = Some t' \<and> t_pairs t' = None \<and>
          mset es = mset (t_entries t') \<and>
          list_all2 (\<lambda>(k, v) (k', v'). copied d H T (a' + 1) hi k k' \<and> copied d H T (a' + 1) hi v v') (sent t) es)
      | _ \<Rightarrow> v' = v)"

definition cp :: "nat \<Rightarrow> lheap \<Rightarrow> lheap \<Rightarrow> addr \<Rightarrow> addr \<Rightarrow> lval \<times> lval \<Rightarrow> lval \<times> lval \<Rightarrow> bool" where
  "cp d H T lo hi x y \<longleftrightarrow> copied d H T lo hi (fst x) (fst y) \<and> copied d H T lo hi (snd x) (snd y)"

lemma copied_table:
  "copied (Suc d) H T lo hi (LTab a) v' \<longleftrightarrow> (\<exists>a' t t' es. v' = LTab a' \<and> lo \<le> a' \<and> a' < hi \<and> H a = Some t \<and> T a' = Some t' \<and> t_pairs t' = None \<and>
          mset es = mset (t_entries t') \<and> list_all2 (cp d H T (a' + 1) hi) (sent t) es)"
  by (simp add: cp_def [abs_def] case_prod_unfold)

lemma copied_scalar:
  assumes "\<And>a. v \<noteq> LTab a"
  shows "copied d H T lo hi v v' \<longleftrightarrow> v' = v"
proof -
  have "\<forall>a. v \<noteq> LTab a" using assms by blast
  then show ?thesis by (cases d; cases v) simp_all
qed

lemma copied_kind:
  assumes "copied d H T lo hi v v'"
  shows "(\<forall>a. v \<noteq> LTab a) \<and> v' = v \<or> (\<exists>a a'. v = LTab a \<and> v' = LTab a' \<and> lo \<le> a' \<and> a' < hi)"
  using assms by (cases d; cases v) (auto split: lval.splits)

lemma copied_mono:
  assumes "copied d H T lo hi v v'" "\<And>b. lo \<le> b \<Longrightarrow> b < hi \<Longrightarrow> T' b = T b" "lo' \<le> lo" "hi \<le> hi'"
  shows "copied d H T' lo' hi' v v'"
  using assms
proof (induction d arbitrary: lo lo' v v')
  case (Suc d)
  show ?case
  proof (cases "\<exists>a. v = LTab a")
    case True
    then obtain a where v: "v = LTab a" ..
    obtain a' t t' es where c: "v' = LTab a'" "lo \<le> a'" "a' < hi" "H a = Some t" "T a' = Some t'" "t_pairs t' = None"
        "mset es = mset (t_entries t')" "list_all2 (cp d H T (a' + 1) hi) (sent t) es"
      using Suc.prems(1) unfolding v copied_table by blast
    have "copied d H T' (a' + 1) hi' x y" if "copied d H T (a' + 1) hi x y" for x y
      by (rule Suc.IH [OF that]) (use Suc.prems c(2) in auto)
    then have "list_all2 (cp d H T' (a' + 1) hi') (sent t) es" by (intro list_all2_mono [OF c(8)]) (simp add: cp_def)
    moreover have "T' a' = Some t'" using Suc.prems(2) c(2,3,5) by simp
    ultimately show ?thesis unfolding v copied_table using c Suc.prems(3,4) by (intro exI [of _ a'] exI [of _ t] exI [of _ t'] exI [of _ es]) auto
  next
    case False
    then have "\<And>a. v \<noteq> LTab a" by blast
    note scalar = copied_scalar [OF this]
    show ?thesis using Suc.prems(1) unfolding scalar .
  qed
qed simp

lemma cp_mono:
  "cp d H T lo hi x y \<Longrightarrow> (\<And>b. lo \<le> b \<Longrightarrow> b < hi \<Longrightarrow> T' b = T b) \<Longrightarrow> lo' \<le> lo \<Longrightarrow> hi \<le> hi' \<Longrightarrow> cp d H T' lo' hi' x y"
  by (auto simp: cp_def intro: copied_mono)

subsection \<open>The bytes of a value\<close>

text \<open>Wherever the bytes stand in a message, reading them yields a copy made of new tables.\<close>

definition decodes :: "lheap \<Rightarrow> nat \<Rightarrow> lval \<Rightarrow> u8 list \<Rightarrow> bool" where
  "decodes H d v ds \<longleftrightarrow> (\<forall>buffer rb rest. reading buffer rb (ds @ rest) \<longrightarrow>
     (\<exists>v' rb'. unpack buffer Unpack_one rb = Some (Inr (v', rb')) \<and> reading buffer rb' rest \<and> rb_brk rb \<le> rb_brk rb' \<and>
        (\<forall>a < rb_brk rb. rb_tabs rb' a = rb_tabs rb a) \<and> copied d H (rb_tabs rb') (rb_brk rb) (rb_brk rb') v v'))"

lemma unpack_head:
  assumes "reading buffer rb (COMBINE_TYPE t c # bs)" "0 \<le> t" "t < 8" "0 \<le> c" "c < 32"
  shows "unpack buffer Unpack_one rb = push_value (\<lambda>n rb. unpack buffer (Unpack_table n) rb) buffer t c (skip 1 rb)"
    "reading buffer (skip 1 rb) bs"
proof -
  have "rb_word buffer 1 (\<lambda>bs. array_get bs 0) rb = Some (Inr (COMBINE_TYPE t c, skip 1 rb))"
    using assms(1) by (intro rb_word_bytes [of _ _ "[COMBINE_TYPE t c]" bs]) simp_all
  then show "unpack buffer Unpack_one rb = push_value (\<lambda>n rb. unpack buffer (Unpack_table n) rb) buffer t c (skip 1 rb)"
    using combine_split [OF assms(2-5)] by (subst unpack.simps) simp
  show "reading buffer (skip 1 rb) bs" using reading_skip [OF assms(1), of 1] by simp
qed

lemma decodes_scalar:
  assumes "\<And>a. v \<noteq> LTab a" "0 \<le> t" "t < 8" "0 \<le> c" "c < 32"
    and "\<And>buffer rb rest. reading buffer rb (ds @ rest) \<Longrightarrow> push_value (\<lambda>n rb. unpack buffer (Unpack_table n) rb) buffer t c rb = Some (Inr (v, skip (length ds) rb))"
  shows "decodes H d v (COMBINE_TYPE t c # ds)"
  unfolding decodes_def
proof (intro allI impI)
  fix buffer rb rest assume r: "reading buffer rb ((COMBINE_TYPE t c # ds) @ rest)"
  then have h: "unpack buffer Unpack_one rb = push_value (\<lambda>n rb. unpack buffer (Unpack_table n) rb) buffer t c (skip 1 rb)" "reading buffer (skip 1 rb) (ds @ rest)"
    using unpack_head [of buffer rb t c "ds @ rest"] assms(2-5) by simp_all
  then have "unpack buffer Unpack_one rb = Some (Inr (v, skip (length ds) (skip 1 rb)))" using assms(6) by simp
  moreover have "reading buffer (skip (length ds) (skip 1 rb)) rest" using reading_skip [OF h(2), of "length ds"] by simp
  ultimately show "\<exists>v' rb'. unpack buffer Unpack_one rb = Some (Inr (v', rb')) \<and> reading buffer rb' rest \<and> rb_brk rb \<le> rb_brk rb' \<and>
        (\<forall>a < rb_brk rb. rb_tabs rb' a = rb_tabs rb a) \<and> copied d H (rb_tabs rb') (rb_brk rb) (rb_brk rb') v v'"
    using assms(1) by (simp add: copied_scalar)
qed

lemma skip_0 [simp]: "skip 0 rb = rb"
  by (simp add: skip_def)

lemma skip_skip [simp]: "skip m (skip n rb) = skip (n + m) rb"
  by (simp add: skip_def algebra_simps)

lemma decodes_nil: "decodes H d LNil [COMBINE_TYPE TYPE_NIL 0]"
  by (rule decodes_scalar) (simp_all add: push_value_def seri_types)

lemma decodes_boolean: "decodes H d (LBool b) [COMBINE_TYPE TYPE_BOOLEAN (if b then 1 else 0)]"
  by (rule decodes_scalar) (simp_all add: push_value_def seri_types)

lemma decodes_integer: "decodes H d (LInt v) (COMBINE_TYPE TYPE_NUMBER (fst (int_bytes v)) # snd (int_bytes v))"
proof (rule decodes_scalar)
  fix buffer rb rest assume "reading buffer rb (snd (int_bytes v) @ rest)"
  from get_integer_bytes [OF this] int_bytes_cookie [of v]
  show "push_value (\<lambda>n rb. unpack buffer (Unpack_table n) rb) buffer TYPE_NUMBER (fst (int_bytes v)) rb = Some (Inr (LInt v, skip (length (snd (int_bytes v))) rb))"
    by (simp add: push_value_def seri_types)
qed (use int_bytes_cookie [of v] in \<open>simp_all add: seri_types\<close>)

lemma decodes_word64:
  "decodes H d (LReal v) (COMBINE_TYPE TYPE_NUMBER TYPE_NUMBER_REAL # u64_bytes v)" "decodes H d (LPtr v) (COMBINE_TYPE TYPE_USERDATA 0 # u64_bytes v)"
  by (rule decodes_scalar; simp add: push_value_def seri_types get_real_def get_pointer_def rb_word_bytes [of _ _ "u64_bytes v"] bytes_of_u64 [of v "[]", simplified])+

definition str_bytes :: "u8 list \<Rightarrow> u8 list" where
  "str_bytes str =
     (let len = int (length str)
      in if len < MAX_COOKIE then COMBINE_TYPE TYPE_SHORT_STRING len # str
         else if len < 0x10000 then COMBINE_TYPE TYPE_LONG_STRING 2 # u16_bytes (of_int len) @ str
         else COMBINE_TYPE TYPE_LONG_STRING 4 # u32_bytes (of_int len) @ str)"

lemma get_buffer_bytes: "reading buffer rb (str @ rest) \<Longrightarrow> n = int (length str) \<Longrightarrow> get_buffer buffer n rb = Some (Inr (LStr str, skip (length str) rb))"
  by (simp add: get_buffer_eq)

lemma decodes_string:
  assumes "length str < 2 ^ 31"
  shows "decodes H d (LStr str) (str_bytes str)"
proof -
  let ?len = "int (length str)"
  consider "?len < MAX_COOKIE" | "\<not> ?len < MAX_COOKIE" "?len < 0x10000" | "\<not> ?len < MAX_COOKIE" "\<not> ?len < 0x10000" by blast
  then show ?thesis
  proof cases
    case 1
    have "decodes H d (LStr str) (COMBINE_TYPE TYPE_SHORT_STRING ?len # str)"
      by (rule decodes_scalar) (use 1 in \<open>simp_all add: push_value_def seri_types get_buffer_bytes\<close>)
    then show ?thesis using 1 by (simp add: str_bytes_def)
  next
    case 2
    have "decodes H d (LStr str) (COMBINE_TYPE TYPE_LONG_STRING 2 # u16_bytes (of_int ?len) @ str)"
    proof (rule decodes_scalar)
      fix buffer rb rest assume r: "reading buffer rb ((u16_bytes (of_int ?len) @ str) @ rest)"
      have w: "rb_word buffer 2 bytes_u16 rb = Some (Inr (of_int ?len, skip 2 rb))"
        using r bytes_of_u16 [of "of_int ?len" "[]"] by (intro rb_word_bytes [of _ _ "u16_bytes (of_int ?len)" "str @ rest"]) simp_all
      have "uint (of_int ?len :: u16) = ?len" using 2(2) by (subst uint_word_of_int) simp
      then show "push_value (\<lambda>n rb. unpack buffer (Unpack_table n) rb) buffer TYPE_LONG_STRING 2 rb =
          Some (Inr (LStr str, skip (length (u16_bytes (of_int ?len) @ str)) rb))"
        using w reading_skip [OF r, of 2] get_buffer_bytes [of buffer "skip 2 rb" str rest ?len] by (simp add: push_value_def seri_types)
    qed (simp_all add: seri_types)
    then show ?thesis using 2 by (simp add: str_bytes_def)
  next
    case 3
    have "decodes H d (LStr str) (COMBINE_TYPE TYPE_LONG_STRING 4 # u32_bytes (of_int ?len) @ str)"
    proof (rule decodes_scalar)
      fix buffer rb rest assume r: "reading buffer rb ((u32_bytes (of_int ?len) @ str) @ rest)"
      have w: "rb_word buffer 4 bytes_u32 rb = Some (Inr (of_int ?len, skip 4 rb))"
        using r bytes_of_u32 [of "of_int ?len" "[]"] by (intro rb_word_bytes [of _ _ "u32_bytes (of_int ?len)" "str @ rest"]) simp_all
      have "sint (of_int ?len :: u32) = ?len" using c_int_small [OF assms] by (simp add: c_int_def)
      then show "push_value (\<lambda>n rb. unpack buffer (Unpack_table n) rb) buffer TYPE_LONG_STRING 4 rb =
          Some (Inr (LStr str, skip (length (u32_bytes (of_int ?len) @ str)) rb))"
        using w reading_skip [OF r, of 4] get_buffer_bytes [of buffer "skip 4 rb" str rest ?len] by (simp add: push_value_def seri_types)
    qed (simp_all add: seri_types)
    then show ?thesis using 3 by (simp add: str_bytes_def)
  qed
qed

subsection \<open>The bytes of a table\<close>

lemma copied_key:
  assumes "copied d H T lo hi k k'" "key_ok k"
  shows "key_ok k'"
  using copied_kind [OF assms(1)] assms(2) by (auto simp: key_ok_def)

lemma copied_nil: "copied d H T lo hi v v' \<Longrightarrow> v' = LNil \<longleftrightarrow> v = LNil"
  using copied_kind by fastforce

lemma copied_fresh:
  assumes es: "list_all2 (cp d H T lo hi) done es" and k: "k \<notin> fst ` set done" and c: "copied d H T' hi hi' k k'"
  shows "k' \<notin> fst ` set es"
proof
  assume "k' \<in> fst ` set es"
  then obtain i where i: "i < length es" "fst (es ! i) = k'" by (auto simp: in_set_conv_nth)
  then have cp: "copied d H T lo hi (fst (done ! i)) k'" and m: "fst (done ! i) \<in> fst ` set done"
    using es by (auto simp: list_all2_conv_all_nth cp_def)
  show False using copied_kind [OF cp] copied_kind [OF c] k m by auto
qed

text \<open>The table \<open>a\<close> of the reader holds the copies \<open>es\<close> of the entries \<open>done\<close>.\<close>

definition building :: "lheap \<Rightarrow> nat \<Rightarrow> addr \<Rightarrow> read_block \<Rightarrow> (lval \<times> lval) list \<Rightarrow> bool" where
  "building H d a rb done \<longleftrightarrow> a < rb_brk rb \<and>
     (\<exists>es. rb_tabs rb a = Some \<lparr>t_entries = es, t_pairs = None\<rparr> \<and> list_all2 (cp d H (rb_tabs rb) (a + 1) (rb_brk rb)) done es)"

text \<open>\<open>rb'\<close> is a later state than \<open>rb\<close> in which no older table than \<open>a\<close> has changed.\<close>

definition later :: "addr \<Rightarrow> read_block \<Rightarrow> read_block \<Rightarrow> bool" where
  "later a rb rb' \<longleftrightarrow> rb_brk rb \<le> rb_brk rb' \<and> (\<forall>b < rb_brk rb. b \<noteq> a \<longrightarrow> rb_tabs rb' b = rb_tabs rb b)"

lemma later_trans: "later a rb1 rb2 \<Longrightarrow> later a rb2 rb3 \<Longrightarrow> later a rb1 rb3"
  by (auto simp: later_def)

lemma building_set:
  assumes b: "building H d a rb done" and k: "key_ok k" "k \<notin> fst ` set done"
    and rb1: "rb_brk rb \<le> rb_brk rb1" "\<forall>x < rb_brk rb. rb_tabs rb1 x = rb_tabs rb x" "copied d H (rb_tabs rb1) (rb_brk rb) (rb_brk rb1) k k'"
    and rb2: "rb_brk rb1 \<le> rb_brk rb2" "\<forall>x < rb_brk rb1. rb_tabs rb2 x = rb_tabs rb1 x" "copied d H (rb_tabs rb2) (rb_brk rb1) (rb_brk rb2) v v'"
  shows "\<exists>rb3. lua_rawset a k' v' rb2 = Some (Inr rb3) \<and> building H d a rb3 (done @ (if v = LNil then [] else [(k, v)])) \<and> later a rb rb3 \<and>
    (\<forall>bs. reading buffer rb3 bs = reading buffer rb2 bs)"
proof -
  obtain es where a: "a < rb_brk rb" "rb_tabs rb a = Some \<lparr>t_entries = es, t_pairs = None\<rparr>" "list_all2 (cp d H (rb_tabs rb) (a + 1) (rb_brk rb)) done es"
    using b by (auto simp: building_def)
  have a2: "rb_tabs rb2 a = Some \<lparr>t_entries = es, t_pairs = None\<rparr>" using a rb1(1,2) rb2(2) by simp
  have fresh: "k' \<notin> fst ` set es" using copied_fresh [OF a(3) k(2) rb1(3)] .
  define es' where "es' = es @ (if v = LNil then [] else [(k', v')])"
  define rb3 where "rb3 = rb2\<lparr>rb_tabs := (rb_tabs rb2)(a \<mapsto> \<lparr>t_entries = es', t_pairs = None\<rparr>)\<rparr>"
  have set: "lua_rawset a k' v' rb2 = Some (Inr rb3)"
    using a2 rawset_fresh [OF copied_key [OF rb1(3) k(1)], of "\<lparr>t_entries = es, t_pairs = None\<rparr>" v'] fresh copied_nil [OF rb2(3)]
    by (simp add: lua_rawset_def rb3_def es'_def)
  have same: "rb_tabs rb3 x = rb_tabs rb x" if "a + 1 \<le> x" "x < rb_brk rb" for x using that rb1(1,2) rb2(2) by (simp add: rb3_def)
  have "list_all2 (cp d H (rb_tabs rb3) (a + 1) (rb_brk rb3)) done es"
    by (rule list_all2_mono [OF a(3)], erule cp_mono) (use same rb1(1) rb2(1) in \<open>simp_all add: rb3_def\<close>)
  moreover have "copied d H (rb_tabs rb3) (a + 1) (rb_brk rb3) k k'"
    by (rule copied_mono [OF rb1(3)]) (use a(1) rb2(1,2) in \<open>simp_all add: rb3_def\<close>)
  moreover have "copied d H (rb_tabs rb3) (a + 1) (rb_brk rb3) v v'"
    by (rule copied_mono [OF rb2(3)]) (use a(1) rb1(1) in \<open>simp_all add: rb3_def\<close>)
  ultimately have "list_all2 (cp d H (rb_tabs rb3) (a + 1) (rb_brk rb3)) (done @ (if v = LNil then [] else [(k, v)])) es'"
    by (simp add: es'_def list_all2_appendI cp_def)
  then have "building H d a rb3 (done @ (if v = LNil then [] else [(k, v)]))" using a(1) rb1(1) rb2(1) by (simp add: building_def rb3_def)
  moreover have "later a rb rb3" using rb1(1,2) rb2(1,2) by (simp add: later_def rb3_def)
  moreover have "reading buffer rb3 bs = reading buffer rb2 bs" for bs by (simp add: rb3_def reading_heap)
  ultimately show ?thesis using set by blast
qed

lemma decodesD:
  assumes "decodes H d v ds" "reading buffer rb (ds @ rest)"
  obtains v' rb' where "unpack buffer Unpack_one rb = Some (Inr (v', rb'))" "reading buffer rb' rest" "rb_brk rb \<le> rb_brk rb'"
    "\<forall>a < rb_brk rb. rb_tabs rb' a = rb_tabs rb a" "copied d H (rb_tabs rb') (rb_brk rb) (rb_brk rb') v v'"
  using assms unfolding decodes_def by blast

definition pair_decodes :: "lheap \<Rightarrow> nat \<Rightarrow> lval \<times> lval \<Rightarrow> u8 list \<times> u8 list \<Rightarrow> bool" where
  "pair_decodes H d x ds \<longleftrightarrow> decodes H d (fst x) (fst ds) \<and> decodes H d (snd x) (snd ds)"

lemma decode_pairs:
  assumes "list_all2 (pair_decodes H d) kvs dss" "pairs_ok (done @ kvs)" "building H d a rb done"
    "reading buffer rb (concat (map (\<lambda>(x, y). x @ y) dss) @ COMBINE_TYPE TYPE_NIL 0 # rest)"
  shows "\<exists>rb'. unpack buffer (Hash_loop a) rb = Some (Inr (LTab a, rb')) \<and> reading buffer rb' rest \<and> building H d a rb' (done @ kvs) \<and> later a rb rb'"
  using assms
proof (induction kvs arbitrary: dss "done" rb)
  case Nil
  then have r: "reading buffer rb ([COMBINE_TYPE TYPE_NIL 0] @ rest)" by simp
  obtain v' rb' where u: "unpack buffer Unpack_one rb = Some (Inr (v', rb'))" "reading buffer rb' rest" "rb_brk rb \<le> rb_brk rb'"
      "\<forall>a < rb_brk rb. rb_tabs rb' a = rb_tabs rb a" "copied d H (rb_tabs rb') (rb_brk rb) (rb_brk rb') LNil v'"
    using decodes_nil r by (rule decodesD)
  have "v' = LNil" using u(5) copied_nil by blast
  then have "unpack buffer (Hash_loop a) rb = Some (Inr (LTab a, rb'))" using u(1) by (subst unpack.simps) simp
  moreover have "building H d a rb' done"
  proof -
    obtain es where es: "a < rb_brk rb" "rb_tabs rb a = Some \<lparr>t_entries = es, t_pairs = None\<rparr>" "list_all2 (cp d H (rb_tabs rb) (a + 1) (rb_brk rb)) done es"
      using Nil.prems(3) by (auto simp: building_def)
    have "list_all2 (cp d H (rb_tabs rb') (a + 1) (rb_brk rb')) done es"
      by (rule list_all2_mono [OF es(3)], erule cp_mono) (use u(3,4) in simp_all)
    then show ?thesis using es(1,2) u(3,4) by (simp add: building_def)
  qed
  ultimately show ?case using u(2,3,4) by (auto simp: later_def)
next
  case (Cons kv kvs)
  obtain k v where kv: "kv = (k, v)" by (cases kv)
  obtain ds es dss' where dss: "dss = (ds, es) # dss'" "pair_decodes H d kv (ds, es)" "list_all2 (pair_decodes H d) kvs dss'"
    using Cons.prems(1) by (auto simp: list_all2_Cons1)
  note kv = kv dss(1) dss(2) [unfolded pair_decodes_def kv fst_conv snd_conv, THEN conjunct1] dss(2) [unfolded pair_decodes_def kv fst_conv snd_conv, THEN conjunct2] dss(3)
  have k: "key_ok k" "k \<notin> fst ` set done" "v \<noteq> LNil" using Cons.prems(2) by (auto simp: pairs_ok_def kv(1))
  have "reading buffer rb (ds @ es @ concat (map (\<lambda>(x, y). x @ y) dss') @ COMBINE_TYPE TYPE_NIL 0 # rest)" using Cons.prems(4) by (simp add: kv(2))
  with kv(3) obtain k' rb1 where u1: "unpack buffer Unpack_one rb = Some (Inr (k', rb1))"
      "reading buffer rb1 (es @ concat (map (\<lambda>(x, y). x @ y) dss') @ COMBINE_TYPE TYPE_NIL 0 # rest)" "rb_brk rb \<le> rb_brk rb1"
      "\<forall>a < rb_brk rb. rb_tabs rb1 a = rb_tabs rb a" "copied d H (rb_tabs rb1) (rb_brk rb) (rb_brk rb1) k k'"
    by (rule decodesD)
  from kv(4) u1(2) obtain v' rb2 where u2: "unpack buffer Unpack_one rb1 = Some (Inr (v', rb2))"
      "reading buffer rb2 (concat (map (\<lambda>(x, y). x @ y) dss') @ COMBINE_TYPE TYPE_NIL 0 # rest)" "rb_brk rb1 \<le> rb_brk rb2"
      "\<forall>a < rb_brk rb1. rb_tabs rb2 a = rb_tabs rb1 a" "copied d H (rb_tabs rb2) (rb_brk rb1) (rb_brk rb2) v v'"
    by (rule decodesD)
  obtain rb3 where u3: "lua_rawset a k' v' rb2 = Some (Inr rb3)" "building H d a rb3 (done @ [(k, v)])" "later a rb rb3"
      "reading buffer rb3 (concat (map (\<lambda>(x, y). x @ y) dss') @ COMBINE_TYPE TYPE_NIL 0 # rest)"
    using building_set [OF Cons.prems(3) k(1,2) u1(3-5) u2(3-5)] k(3) u2(2) by auto
  have ok: "pairs_ok ((done @ [(k, v)]) @ kvs)" using Cons.prems(2) by (simp add: kv(1))
  obtain rb' where u4: "unpack buffer (Hash_loop a) rb3 = Some (Inr (LTab a, rb'))" "reading buffer rb' rest" "building H d a rb' ((done @ [(k, v)]) @ kvs)" "later a rb3 rb'"
    using Cons.IH [OF kv(5) ok u3(2,4)] by blast
  have "k' \<noteq> LNil" using k(1) copied_nil [OF u1(5)] by (auto simp: key_ok_def)
  then have "unpack buffer (Hash_loop a) rb = Some (Inr (LTab a, rb'))" using u1(1) u2(1) u3(1) u4(1) by (subst unpack.simps) simp
  then show ?case using u4(2,3) later_trans [OF u3(3) u4(4)] kv(1) by auto
qed

fun array_pairs :: "int \<Rightarrow> lval list \<Rightarrow> (lval \<times> lval) list" where
  "array_pairs i [] = []"
| "array_pairs i (v # vs) = (if v = LNil then [] else [(LInt (of_int i), v)]) @ array_pairs (i + 1) vs"

lemma of_int_distinct: "(of_int i :: u64) = of_int j \<Longrightarrow> 0 \<le> i \<Longrightarrow> i < 2 ^ 32 \<Longrightarrow> 0 \<le> j \<Longrightarrow> j < 2 ^ 32 \<Longrightarrow> i = j"
  by (drule arg_cong [of _ _ uint]) (simp add: uint_word_of_int)

lemma decode_array:
  assumes "list_all2 (decodes H d) vs dss" "fst ` set done \<subseteq> (\<lambda>j. LInt (of_int j)) ` {1..<i}" "1 \<le> i" "i + int (length vs) < 2 ^ 32" "n = i + int (length vs) - 1"
    "building H d a rb done" "reading buffer rb (concat dss @ rest)"
  shows "\<exists>rb'. unpack buffer (Array_loop a i n) rb = unpack buffer (Hash_loop a) rb' \<and> reading buffer rb' rest \<and>
    building H d a rb' (done @ array_pairs i vs) \<and> later a rb rb'"
  using assms
proof (induction vs arbitrary: i dss "done" rb)
  case Nil
  then have "unpack buffer (Array_loop a i n) rb = unpack buffer (Hash_loop a) rb" by (subst unpack.simps) simp
  then show ?case using Nil.prems by (intro exI [of _ rb]) (simp add: later_def)
next
  case (Cons v vs)
  obtain ds dss' where ds: "dss = ds # dss'" "decodes H d v ds" "list_all2 (decodes H d) vs dss'" using Cons.prems(1) by (auto simp: list_all2_Cons1)
  have "reading buffer rb (ds @ concat dss' @ rest)" using Cons.prems(7) by (simp add: ds(1))
  with ds(2) obtain v' rb1 where u: "unpack buffer Unpack_one rb = Some (Inr (v', rb1))" "reading buffer rb1 (concat dss' @ rest)" "rb_brk rb \<le> rb_brk rb1"
      "\<forall>a < rb_brk rb. rb_tabs rb1 a = rb_tabs rb a" "copied d H (rb_tabs rb1) (rb_brk rb) (rb_brk rb1) v v'"
    by (rule decodesD)
  let ?k = "LInt (of_int i)"
  have fresh: "?k \<notin> fst ` set done"
  proof
    assume "?k \<in> fst ` set done"
    then have "?k \<in> (\<lambda>j. LInt (of_int j)) ` {1..<i}" using Cons.prems(2) by blast
    then obtain j where "1 \<le> j" "j < i" "(of_int i :: u64) = of_int j" by auto
    then show False using of_int_distinct [of i j] Cons.prems(3,4) by simp
  qed
  have same: "rb_brk rb \<le> rb_brk rb" "\<forall>x < rb_brk rb. rb_tabs rb x = rb_tabs rb x" "copied d H (rb_tabs rb) (rb_brk rb) (rb_brk rb) ?k ?k"
    by (simp_all add: copied_scalar)
  obtain rb2 where s: "lua_rawset a ?k v' rb1 = Some (Inr rb2)" "building H d a rb2 (done @ (if v = LNil then [] else [(?k, v)]))" "later a rb rb2"
      "reading buffer rb2 (concat dss' @ rest)"
    using building_set [OF Cons.prems(6) key_ok_int fresh same u(3-5)] u(2) by blast
  have "fst ` set (done @ (if v = LNil then [] else [(?k, v)])) \<subseteq> (\<lambda>j. LInt (of_int j)) ` {1..<i + 1}"
    using Cons.prems(2,3) by (auto split: if_splits)
  then obtain rb' where u4: "unpack buffer (Array_loop a (i + 1) n) rb2 = unpack buffer (Hash_loop a) rb'" "reading buffer rb' rest"
      "building H d a rb' ((done @ (if v = LNil then [] else [(?k, v)])) @ array_pairs (i + 1) vs)" "later a rb2 rb'"
    using Cons.IH [OF ds(3) _ _ _ _ s(2,4), of "i + 1"] Cons.prems(3-5) by auto
  have "unpack buffer (Array_loop a i n) rb = unpack buffer (Hash_loop a) rb'"
    using u(1) s(1) u4(1) Cons.prems(5) by (subst unpack.simps) simp
  then show ?case using u4(2,3) later_trans [OF s(3) u4(4)] by auto
qed

definition table_head :: "int \<Rightarrow> u8 list" where
  "table_head n =
     (if n \<ge> MAX_COOKIE - 1
      then COMBINE_TYPE TYPE_TABLE (MAX_COOKIE - 1) # COMBINE_TYPE TYPE_NUMBER (fst (int_bytes (of_int n))) # snd (int_bytes (of_int n))
      else [COMBINE_TYPE TYPE_TABLE n])"

lemma ucast_wi: "ucast (word_of_int n :: u64) = (word_of_int n :: u32)"
  by (rule bit_word_eqI) (simp add: bit_simps)

lemma decode_head:
  assumes n: "0 \<le> n" "n < 2 ^ 31" and r: "reading buffer rb (table_head n @ rest)"
  shows "\<exists>m. unpack buffer Unpack_one rb = (let (a, rb) = lua_createtable (skip m rb) in unpack buffer (Array_loop a 1 n) rb) \<and> reading buffer (skip m rb) rest"
proof (cases "n \<ge> MAX_COOKIE - 1")
  case True
  let ?i = "int_bytes (of_int n)"
  have r: "reading buffer rb (COMBINE_TYPE TYPE_TABLE (MAX_COOKIE - 1) # COMBINE_TYPE TYPE_NUMBER (fst ?i) # snd ?i @ rest)"
    using r True by (simp add: table_head_def)
  have h: "unpack buffer Unpack_one rb = unpack buffer (Unpack_table (MAX_COOKIE - 1)) (skip 1 rb)"
      "reading buffer (skip 1 rb) ([COMBINE_TYPE TYPE_NUMBER (fst ?i)] @ snd ?i @ rest)"
    using unpack_head [OF r] by (simp_all add: seri_types push_value_def)
  have w: "rb_word buffer 1 (\<lambda>bs. array_get bs 0) (skip 1 rb) = Some (Inr (COMBINE_TYPE TYPE_NUMBER (fst ?i), skip 1 (skip 1 rb)))"
    by (rule rb_word_bytes [OF h(2)]) simp_all
  have r2: "reading buffer (skip 1 (skip 1 rb)) (snd ?i @ rest)" using reading_skip [OF h(2), of 1] by simp
  have c: "0 \<le> fst ?i" "fst ?i < 8" by (rule int_bytes_cookie)+
  have "uint (COMBINE_TYPE TYPE_NUMBER (fst ?i) AND 7) = TYPE_NUMBER" "uint (drop_bit 3 (COMBINE_TYPE TYPE_NUMBER (fst ?i))) = fst ?i"
    using combine_split [of TYPE_NUMBER "fst ?i"] c by (simp_all add: seri_types)
  moreover have "sint (ucast (of_int n :: u64) :: u32) = n" using c_int_small [of "nat n"] n by (simp add: c_int_def ucast_wi)
  ultimately have "table_size buffer (MAX_COOKIE - 1) (skip 1 rb) = Some (Inr (n, skip (length (snd ?i)) (skip 1 (skip 1 rb))))"
    using w get_integer_bytes [OF r2] c by (simp add: table_size_def seri_types)
  then have "unpack buffer Unpack_one rb = (let (a, rb) = lua_createtable (skip (1 + 1 + length (snd ?i)) rb) in unpack buffer (Array_loop a 1 n) rb)"
    unfolding h(1) by (subst unpack.simps) simp
  moreover have "reading buffer (skip (1 + 1 + length (snd ?i)) rb) rest" using reading_skip [OF r2, of "length (snd ?i)"] by simp
  ultimately show ?thesis by blast
next
  case False
  then have r: "reading buffer rb (COMBINE_TYPE TYPE_TABLE n # rest)" using r by (simp add: table_head_def)
  have "unpack buffer Unpack_one rb = unpack buffer (Unpack_table n) (skip 1 rb)" "reading buffer (skip 1 rb) rest"
    using unpack_head [OF r] n False by (simp_all add: seri_types push_value_def)
  moreover have "unpack buffer (Unpack_table n) (skip 1 rb) = (let (a, rb) = lua_createtable (skip 1 rb) in unpack buffer (Array_loop a 1 n) rb)"
    using False by (subst unpack.simps) (simp add: table_size_def)
  ultimately show ?thesis by auto
qed

lemma decodes_table:
  assumes H: "H a0 = Some t" and n: "0 \<le> n" "n < 2 ^ 31" "length vs = nat n"
    and arr: "list_all2 (decodes H d) vs arr" and prs: "list_all2 (pair_decodes H d) kvs dss"
    and ok: "pairs_ok (array_pairs 1 vs @ kvs)" and m: "mset (array_pairs 1 vs @ kvs) = mset (sent t)"
  shows "decodes H (Suc d) (LTab a0) (table_head n @ concat arr @ concat (map (\<lambda>(x, y). x @ y) dss) @ [COMBINE_TYPE TYPE_NIL 0])"
  unfolding decodes_def
proof (intro allI impI)
  fix buffer rb rest
  let ?rest = "concat (map (\<lambda>(x, y). x @ y) dss) @ COMBINE_TYPE TYPE_NIL 0 # rest"
  assume "reading buffer rb ((table_head n @ concat arr @ concat (map (\<lambda>(x, y). x @ y) dss) @ [COMBINE_TYPE TYPE_NIL 0]) @ rest)"
  then have "reading buffer rb (table_head n @ concat arr @ ?rest)" by simp
  from decode_head [OF n(1,2) this] obtain k where
    u: "unpack buffer Unpack_one rb = (let (a, rb) = lua_createtable (skip k rb) in unpack buffer (Array_loop a 1 n) rb)" and r: "reading buffer (skip k rb) (concat arr @ ?rest)" by blast
  define a where "a = rb_brk rb"
  define rb1 where "rb1 = (skip k rb)\<lparr>rb_tabs := (rb_tabs rb)(a \<mapsto> \<lparr>t_entries = [], t_pairs = None\<rparr>), rb_brk := a + 1\<rparr>"
  have u1: "unpack buffer Unpack_one rb = unpack buffer (Array_loop a 1 n) rb1" using u by (simp add: lua_createtable_def Let_def a_def rb1_def)
  have r1: "reading buffer rb1 (concat arr @ ?rest)" using r by (simp add: rb1_def reading_heap)
  have b1: "building H d a rb1 []" by (simp add: building_def rb1_def)
  have "fst ` set [] \<subseteq> (\<lambda>j. LInt (of_int j)) ` {1..<1 :: int}" "(1::int) \<le> 1" "1 + int (length vs) < 2 ^ 32" "n = 1 + int (length vs) - 1"
    using n by simp_all
  note array = decode_array [OF arr this b1 r1, unfolded append_Nil]
  obtain rb2 where u2: "unpack buffer (Array_loop a 1 n) rb1 = unpack buffer (Hash_loop a) rb2" "reading buffer rb2 ?rest"
      "building H d a rb2 (array_pairs 1 vs)" "later a rb1 rb2"
    using array by (elim exE conjE)
  obtain rb3 where u3: "unpack buffer (Hash_loop a) rb2 = Some (Inr (LTab a, rb3))" "reading buffer rb3 rest" "building H d a rb3 (array_pairs 1 vs @ kvs)" "later a rb2 rb3"
    using decode_pairs [OF prs ok u2(3,2)] by blast
  have l: "later a rb1 rb3" using later_trans [OF u2(4) u3(4)] .
  obtain es where es: "a < rb_brk rb3" "rb_tabs rb3 a = Some \<lparr>t_entries = es, t_pairs = None\<rparr>"
      "list_all2 (cp d H (rb_tabs rb3) (a + 1) (rb_brk rb3)) (array_pairs 1 vs @ kvs) es"
    using u3(3) by (auto simp: building_def)
  obtain es' where "list_all2 (cp d H (rb_tabs rb3) (a + 1) (rb_brk rb3)) (sent t) es'" "mset es' = mset es"
    using list_all2_reorder_left_invariance [OF es(3) m [symmetric]] by blast
  then have "copied (Suc d) H (rb_tabs rb3) (rb_brk rb) (rb_brk rb3) (LTab a0) (LTab a)"
    unfolding copied_table using H es(1,2) by (auto simp: a_def)
  moreover have "rb_brk rb \<le> rb_brk rb3" "\<forall>x < rb_brk rb. rb_tabs rb3 x = rb_tabs rb x" using l by (auto simp: later_def rb1_def a_def)
  ultimately show "\<exists>v' rb'. unpack buffer Unpack_one rb = Some (Inr (v', rb')) \<and> reading buffer rb' rest \<and> rb_brk rb \<le> rb_brk rb' \<and>
        (\<forall>a < rb_brk rb. rb_tabs rb' a = rb_tabs rb a) \<and> copied (Suc d) H (rb_tabs rb') (rb_brk rb) (rb_brk rb') (LTab a0) v'"
    using u1 u2(1) u3(1,2) by (intro exI [of _ "LTab a"] exI [of _ rb3]) simp
qed

text \<open>The array part and the rest are all entries of a table, whatever its length is taken to be.\<close>

lemma in_array_pairs: "x \<in> set (array_pairs i vs) \<longleftrightarrow> (\<exists>j < length vs. x = (LInt (of_int (i + int j)), vs ! j) \<and> vs ! j \<noteq> LNil)"
proof (induction vs arbitrary: i)
  case (Cons v vs)
  have e: "(i + 1) + int j = i + int (Suc j)" for j by simp
  have "x \<in> set (array_pairs i (v # vs)) \<longleftrightarrow> (x = (LInt (of_int i), v) \<and> v \<noteq> LNil) \<or> x \<in> set (array_pairs (i + 1) vs)" by auto
  then show ?case unfolding Cons.IH e length_Cons Ex_less_Suc2 by (simp del: of_nat_Suc of_int_add)
qed simp

lemma distinct_array_pairs: "0 \<le> i \<Longrightarrow> i + int (length vs) < 2 ^ 32 \<Longrightarrow> distinct (map fst (array_pairs i vs))"
proof (induction vs arbitrary: i)
  case (Cons v vs)
  have "LInt (of_int i) \<notin> fst ` set (array_pairs (i + 1) vs)"
  proof
    assume "LInt (of_int i) \<in> fst ` set (array_pairs (i + 1) vs)"
    then obtain j where "j < length vs" "(of_int i :: u64) = of_int (i + 1 + int j)" by (auto simp: in_array_pairs simp del: of_int_add)
    then show False using of_int_distinct [of i "i + 1 + int j"] Cons.prems by simp
  qed
  then show ?case using Cons by simp
qed simp

lemma in_array_int: "0 \<le> n \<Longrightarrow> n < 2 ^ 31 \<Longrightarrow> in_array n k \<longleftrightarrow> (\<exists>i. 1 \<le> i \<and> i \<le> n \<and> k = LInt (of_int i))"
proof -
  assume n: "0 \<le> n" "n < 2 ^ 31"
  have "sint (of_int i :: u64) = i" if "1 \<le> i" "i \<le> n" for i using that n by (simp add: signed_of_int signed_take_bit_int_eq_self)
  moreover have "\<exists>i. 1 \<le> i \<and> i \<le> n \<and> x = of_int i" if "0 < sint x" "sint x \<le> n" for x :: u64 using that by (intro exI [of _ "sint x"]) simp
  ultimately show ?thesis by (cases k) (auto simp: in_array_def)
qed

lemma array_and_rest:
  assumes ok: "pairs_ok (t_entries t)" and n: "0 \<le> n" "n < 2 ^ 31"
  defines "vs \<equiv> map (\<lambda>i. rawget t (LInt (of_int i))) [1..n]"
  shows "mset (array_pairs 1 vs @ filter (\<lambda>x. \<not> in_array n (fst x)) (t_entries t)) = mset (t_entries t)"
    "pairs_ok (array_pairs 1 vs @ filter (\<lambda>x. \<not> in_array n (fst x)) (t_entries t))"
proof -
  let ?es = "t_entries t"
  have d: "distinct (map fst ?es)" and nil: "\<And>k v. (k, v) \<in> set ?es \<Longrightarrow> v \<noteq> LNil" using ok by (auto simp: pairs_ok_def list_all_iff)
  have get: "rawget t (LInt i) = v \<and> v \<noteq> LNil \<longleftrightarrow> (LInt i, v) \<in> set ?es" for i v
    using map_of_eq_Some_iff [OF d, of "LInt i" v] nil by (auto simp: rawget_def split: option.splits)
  have set: "set (array_pairs 1 vs) = {x \<in> set ?es. in_array n (fst x)}"
  proof (rule set_eqI)
    fix x :: "lval \<times> lval"
    have "x \<in> set (array_pairs 1 vs) \<longleftrightarrow> (\<exists>i. 1 \<le> i \<and> i \<le> n \<and> fst x = LInt (of_int i) \<and> rawget t (LInt (of_int i)) = snd x \<and> snd x \<noteq> LNil)"
    proof
      assume "x \<in> set (array_pairs 1 vs)"
      then obtain j where "j < nat n" "x = (LInt (of_int (1 + int j)), rawget t (LInt (of_int (1 + int j))))" "snd x \<noteq> LNil"
        unfolding in_array_pairs by (auto simp: vs_def simp del: of_int_add)
      then show "\<exists>i. 1 \<le> i \<and> i \<le> n \<and> fst x = LInt (of_int i) \<and> rawget t (LInt (of_int i)) = snd x \<and> snd x \<noteq> LNil" by (intro exI [of _ "1 + int j"]) auto
    next
      assume "\<exists>i. 1 \<le> i \<and> i \<le> n \<and> fst x = LInt (of_int i) \<and> rawget t (LInt (of_int i)) = snd x \<and> snd x \<noteq> LNil"
      then obtain i where "1 \<le> i" "i \<le> n" "x = (LInt (of_int i), rawget t (LInt (of_int i)))" "snd x \<noteq> LNil" by (cases x) auto
      then show "x \<in> set (array_pairs 1 vs)" unfolding in_array_pairs by (intro exI [of _ "nat (i - 1)"]) (auto simp: vs_def)
    qed
    also have "\<dots> \<longleftrightarrow> x \<in> {x \<in> set ?es. in_array n (fst x)}"
      using in_array_int [OF n, of "fst x"] get by (cases x) auto
    finally show "x \<in> set (array_pairs 1 vs) \<longleftrightarrow> x \<in> {x \<in> set ?es. in_array n (fst x)}" .
  qed
  have "distinct (array_pairs 1 vs)" using distinct_array_pairs [of 1 vs] n by (simp add: vs_def distinct_map)
  moreover have "distinct ?es" using d by (simp add: distinct_map)
  ultimately have "distinct (array_pairs 1 vs @ filter (\<lambda>x. \<not> in_array n (fst x)) ?es)" using set by auto
  then show m: "mset (array_pairs 1 vs @ filter (\<lambda>x. \<not> in_array n (fst x)) ?es) = mset ?es"
    using \<open>distinct ?es\<close> set by (intro set_eq_iff_mset_eq_distinct [THEN iffD1]) auto
  have "mset (map fst (array_pairs 1 vs @ filter (\<lambda>x. \<not> in_array n (fst x)) ?es)) = mset (map fst ?es)" using m by (metis mset_map)
  then have "distinct (map fst (array_pairs 1 vs @ filter (\<lambda>x. \<not> in_array n (fst x)) ?es))" using d by (rule mset_eq_imp_distinct_iff [THEN iffD2])
  moreover have "set (array_pairs 1 vs @ filter (\<lambda>x. \<not> in_array n (fst x)) ?es) = set ?es" using m by (rule mset_eq_setD)
  ultimately show "pairs_ok (array_pairs 1 vs @ filter (\<lambda>x. \<not> in_array n (fst x)) ?es)" using ok unfolding pairs_ok_def list_all_iff by simp
qed

subsection \<open>Packing\<close>

text \<open>Writing appends bytes; packing a value appends bytes with the property \<open>Q\<close>, or frees all blocks and raises an error.\<close>

definition packs :: "(addr \<rightharpoonup> block) \<Rightarrow> addr \<Rightarrow> nat \<Rightarrow> (u8 list \<Rightarrow> bool) \<Rightarrow> u8 list \<Rightarrow> (pk_out \<times> write_block) option \<Rightarrow> bool" where
  "packs mem0 temp n Q bs m \<longleftrightarrow>
     (\<exists>ds w. m = Some (Fine, w) \<and> wrep mem0 temp w (bs @ ds) \<and> Q ds \<and> length ds \<le> n) \<or>
     (\<exists>e w. m = Some (Raised e, w) \<and> (wb_mem w)(temp := None) = mem0) \<or>
     (\<exists>e ds w. m = Some (Failed e, w) \<and> wrep mem0 temp w (bs @ ds)) \<or>
     m = None \<and> 2 ^ 31 \<le> length bs + n"

lemma writes_then:
  assumes "writes mem0 temp bs ds m" "\<And>w. wrep mem0 temp w (bs @ ds) \<Longrightarrow> writes mem0 temp (bs @ ds) es (f w)"
  shows "writes mem0 temp bs (ds @ es) (Option.bind m f)"
proof (cases m)
  case (Some w)
  then show ?thesis using assms(1) assms(2) [of w] by (auto simp: writes_def)
qed (use assms(1) in \<open>simp add: writes_def\<close>)

lemma writes_two: "wrep mem0 temp w bs \<Longrightarrow> writes mem0 temp bs (ds @ es) (do { w \<leftarrow> wb_push ds w; wb_push es w })"
  by (rule writes_then [OF writes_push]) (auto intro: writes_push)

lemma writes_same: "wrep mem0 temp w bs \<Longrightarrow> writes mem0 temp bs [] (Some w)"
  by (simp add: writes_def)

lemma packs_fine: "writes mem0 temp bs ds m \<Longrightarrow> Q ds \<Longrightarrow> length ds \<le> n \<Longrightarrow> packs mem0 temp n Q bs (pk_fine m)"
  by (auto simp: writes_def packs_def pk_fine_def)

lemma packs_more: "packs mem0 temp n Q (bs @ ds) m \<Longrightarrow> (\<And>es. Q es \<Longrightarrow> R (ds @ es)) \<Longrightarrow> length ds + n \<le> k \<Longrightarrow> packs mem0 temp k R bs m"
  unfolding packs_def append_assoc
proof (elim disjE exE conjE)
  fix es w assume "m = Some (Fine, w)" "wrep mem0 temp w (bs @ ds @ es)" "Q es" "length es \<le> n"
    and "\<And>es. Q es \<Longrightarrow> R (ds @ es)" "length ds + n \<le> k"
  then show "(\<exists>ds w. m = Some (Fine, w) \<and> wrep mem0 temp w (bs @ ds) \<and> R ds \<and> length ds \<le> k) \<or>
     (\<exists>e w. m = Some (Raised e, w) \<and> (wb_mem w)(temp := None) = mem0) \<or>
     (\<exists>e ds w. m = Some (Failed e, w) \<and> wrep mem0 temp w (bs @ ds)) \<or>
     m = None \<and> 2 ^ 31 \<le> length bs + k"
    by (intro disjI1 exI [of _ "ds @ es"] exI [of _ w]) simp
qed auto

lemma packs_after:
  assumes "writes mem0 temp bs ds m" "\<And>w. wrep mem0 temp w (bs @ ds) \<Longrightarrow> packs mem0 temp k (\<lambda>es. Q (ds @ es)) (bs @ ds) (f w)" "length ds + k \<le> n"
  shows "packs mem0 temp n Q bs (Option.bind m f)"
proof (cases m)
  case None
  then show ?thesis using assms(1,3) by (auto simp: writes_def packs_def)
next
  case (Some w)
  then have "packs mem0 temp k (\<lambda>es. Q (ds @ es)) (bs @ ds) (f w)" using assms(1,2) by (simp add: writes_def)
  then show ?thesis using Some assms(3) by (auto intro: packs_more)
qed

lemma packs_then:
  assumes "packs mem0 temp n P bs m"
    and "\<And>w ds. wrep mem0 temp w (bs @ ds) \<Longrightarrow> P ds \<Longrightarrow> packs mem0 temp k (\<lambda>es. Q (ds @ es)) (bs @ ds) (f w)"
  shows "packs mem0 temp (n + k) Q bs (pk_then m f)"
  using assms(1) unfolding packs_def [of mem0 temp n P]
proof (elim disjE exE conjE)
  fix ds w assume m: "m = Some (Fine, w)" "wrep mem0 temp w (bs @ ds)" "P ds" "length ds \<le> n"
  then show ?thesis using packs_more [OF assms(2) [OF m(2,3)], of Q "n + k"] by (simp add: pk_then_def)
qed (auto simp: packs_def pk_then_def)

lemma packs_mono: "packs mem0 temp n P bs m \<Longrightarrow> (\<And>ds. P ds \<Longrightarrow> Q ds) \<Longrightarrow> packs mem0 temp n Q bs m"
  unfolding packs_def by blast

lemma packs_raise: "wrep mem0 temp w bs \<Longrightarrow> packs mem0 temp n Q bs (pk_raise e w)"
  using wb_free_ok [of mem0 temp w bs] by (auto simp: packs_def pk_raise_def)

lemma pk_raise_Raised: "pk_raise e w \<noteq> Some (Failed e', w')"
  by (auto simp: pk_raise_def bind_Some_iff)

lemma wb_integer_eq:
  "wb_integer v w = (if v = 0 then wb_push [COMBINE_TYPE TYPE_NUMBER (fst (int_bytes v))] w
    else do { w \<leftarrow> wb_push [COMBINE_TYPE TYPE_NUMBER (fst (int_bytes v))] w; wb_push (snd (int_bytes v)) w })"
proof -
  obtain b where b: "(v \<noteq> scast (ucast v :: u32)) = b" by blast
  show ?thesis unfolding wb_integer_def int_bytes_def b by (cases b) simp_all
qed

lemma writes_integer:
  assumes "wrep mem0 temp w bs"
  shows "writes mem0 temp bs (COMBINE_TYPE TYPE_NUMBER (fst (int_bytes v)) # snd (int_bytes v)) (wb_integer v w)"
proof (cases "v = 0")
  case True
  then show ?thesis using writes_push [OF assms] by (simp add: wb_integer_eq int_bytes_def)
next
  case False
  then show ?thesis using writes_two [OF assms, of "[COMBINE_TYPE TYPE_NUMBER (fst (int_bytes v))]" "snd (int_bytes v)"] by (simp add: wb_integer_eq)
qed

lemma wb_string_bytes:
  assumes "length str < 2 ^ 31" "wrep mem0 temp w bs"
  shows "writes mem0 temp bs (str_bytes str) (wb_string str w)"
proof -
  have l: "c_int (length str) = int (length str)" using assms(1) by simp
  have s: "writes mem0 temp bs ([c] @ str) (do { w \<leftarrow> wb_push [c] w; (if int (length str) > 0 then wb_push str w else Some w) })" for c
    by (rule writes_then [OF writes_push [OF assms(2)]]) (cases "str = []"; simp add: writes_push writes_same)
  have t: "writes mem0 temp bs (ds @ es @ str) (do { w \<leftarrow> (do { w \<leftarrow> wb_push ds w; wb_push es w }); wb_push str w })" for ds es
    using writes_then [OF writes_two [OF assms(2)], of ds es str "\<lambda>w. wb_push str w"] writes_push by auto
  show ?thesis using s t [of "[_]"] unfolding wb_string_def str_bytes_def l Let_def nat_int take_all [OF order_refl] by simp
qed

lemma wb_string_defined: "wrep mem0 temp w bs \<Longrightarrow> \<exists>ds. writes mem0 temp bs ds (wb_string str w) \<and> length ds \<le> 5 + length str"
proof -
  assume w: "wrep mem0 temp w bs"
  let ?str = "take (nat (c_int (length str))) str"
  have t: "writes mem0 temp bs (ds @ es @ ?str) (do { w \<leftarrow> (do { w \<leftarrow> wb_push ds w; wb_push es w }); wb_push ?str w })" for ds es
    using writes_then [OF writes_two [OF w], of ds es ?str "\<lambda>w. wb_push ?str w"] writes_push by auto
  have u: "writes mem0 temp bs (ds @ []) (do { w \<leftarrow> wb_push ds w; Some w })" for ds
    by (rule writes_then [OF writes_push [OF w]]) (rule writes_same)
  let ?len = "c_int (length str)"
  consider "?len < MAX_COOKIE" "?len > 0" | "?len < MAX_COOKIE" "\<not> ?len > 0" | "\<not> ?len < MAX_COOKIE" "?len < 0x10000" | "\<not> ?len < MAX_COOKIE" "\<not> ?len < 0x10000" by blast
  then show ?thesis
  proof cases
    case 1
    have "writes mem0 temp bs ([COMBINE_TYPE TYPE_SHORT_STRING ?len] @ ?str) (wb_string str w)"
      using 1 writes_two [OF w, of "[COMBINE_TYPE TYPE_SHORT_STRING ?len]" ?str] by (simp add: wb_string_def Let_def)
    then show ?thesis by (intro exI conjI, assumption) simp
  next
    case 2
    have "writes mem0 temp bs ([COMBINE_TYPE TYPE_SHORT_STRING ?len] @ []) (wb_string str w)"
      using 2 u [of "[COMBINE_TYPE TYPE_SHORT_STRING ?len]"] by (simp add: wb_string_def Let_def)
    then show ?thesis by (intro exI conjI, assumption) simp
  next
    case 3
    have "writes mem0 temp bs ([COMBINE_TYPE TYPE_LONG_STRING 2] @ u16_bytes (of_int ?len) @ ?str) (wb_string str w)"
      using 3 t [of "[COMBINE_TYPE TYPE_LONG_STRING 2]" "u16_bytes (of_int ?len)"] by (simp add: wb_string_def Let_def)
    then show ?thesis by (intro exI conjI, assumption) (simp add: u16_bytes_def)
  next
    case 4
    have "writes mem0 temp bs ([COMBINE_TYPE TYPE_LONG_STRING 4] @ u32_bytes (of_int ?len) @ ?str) (wb_string str w)"
      using 4 t [of "[COMBINE_TYPE TYPE_LONG_STRING 4]" "u32_bytes (of_int ?len)"] by (simp add: wb_string_def Let_def)
    then show ?thesis by (intro exI conjI, assumption) (simp add: u32_bytes_def)
  qed
qed

text \<open>A function that packs each of some values.\<close>

lemma packs_each:
  assumes "\<And>v w bs. v \<in> set vs \<Longrightarrow> wrep mem0 temp w bs \<Longrightarrow> packs mem0 temp (S v) (D v) bs (pk v w)" "wrep mem0 temp w bs"
  shows "packs mem0 temp (sum_list (map S vs)) (\<lambda>ds. \<exists>dss. ds = concat dss \<and> list_all2 D vs dss) bs (pack_each pk vs w)"
  using assms
proof (induction vs arbitrary: w bs)
  case Nil
  then show ?case by (auto simp: packs_def intro!: exI [of _ "[]"])
next
  case (Cons v vs)
  show ?case unfolding pack_each.simps list.map sum_list.Cons
  proof (rule packs_then)
    show "packs mem0 temp (S v) (D v) bs (pk v w)" using Cons.prems by simp
    fix w' ds assume w: "wrep mem0 temp w' (bs @ ds)" "D v ds"
    have "packs mem0 temp (sum_list (map S vs)) (\<lambda>es. \<exists>dss. es = concat dss \<and> list_all2 D vs dss) (bs @ ds) (pack_each pk vs w')"
      using Cons.IH [OF _ w(1)] Cons.prems(1) by simp
    then show "packs mem0 temp (sum_list (map S vs)) (\<lambda>es. \<exists>dss. ds @ es = concat dss \<and> list_all2 D (v # vs) dss) (bs @ ds) (pack_each pk vs w')"
    proof (rule packs_mono)
      fix es assume "\<exists>dss. es = concat dss \<and> list_all2 D vs dss"
      then obtain dss where "es = concat dss" "list_all2 D vs dss" by blast
      then show "\<exists>dss. ds @ es = concat dss \<and> list_all2 D (v # vs) dss" using w(2) by (intro exI [of _ "ds # dss"]) simp
    qed
  qed
qed

text \<open>How many bytes the pairs of a table take, with the \<open>nil\<close> behind them.\<close>

definition pairs_size :: "(lval \<Rightarrow> nat) \<Rightarrow> (lval \<times> lval) list \<Rightarrow> nat" where
  "pairs_size S es = sum_list (map (\<lambda>(k, v). S k + S v) es) + 1"

lemma pairs_size_simps [simp]: "pairs_size S [] = 1" "pairs_size S ((k, v) # es) = S k + (S v + pairs_size S es)"
  by (simp_all add: pairs_size_def)

definition pairs_bytes :: "(lval \<Rightarrow> u8 list \<Rightarrow> bool) \<Rightarrow> (lval \<times> lval) list \<Rightarrow> u8 list \<Rightarrow> bool" where
  "pairs_bytes D es ds \<longleftrightarrow> (\<exists>dss. ds = concat (map (\<lambda>(x, y). x @ y) dss) @ [COMBINE_TYPE TYPE_NIL 0] \<and> list_all2 (\<lambda>x y. D (fst x) (fst y) \<and> D (snd x) (snd y)) es dss)"

lemma pairs_bytes_Nil: "pairs_bytes D [] [COMBINE_TYPE TYPE_NIL 0]"
  by (simp add: pairs_bytes_def)

lemma pairs_bytes_Cons: "D k ds \<Longrightarrow> D v es \<Longrightarrow> pairs_bytes D kvs fs \<Longrightarrow> pairs_bytes D ((k, v) # kvs) (ds @ es @ fs)"
  unfolding pairs_bytes_def by (elim exE conjE) (rule_tac x = "(ds, es) # dss" in exI, simp)

lemma writes_nil: "wrep mem0 temp w bs \<Longrightarrow> writes mem0 temp bs [COMBINE_TYPE TYPE_NIL 0] (wb_nil w)"
  using writes_push [of mem0 temp w bs "[COMBINE_TYPE TYPE_NIL 0]"] by (simp add: wb_nil_def COMBINE_TYPE_def TYPE_NIL_def)

lemma packs_nil: "wrep mem0 temp w bs \<Longrightarrow> packs mem0 temp (pairs_size S []) (pairs_bytes D []) bs (pk_fine (wb_nil w))"
  by (rule packs_fine [OF writes_nil]) (simp_all add: pairs_bytes_Nil)

lemma packs_pair:
  assumes "\<And>w bs. wrep mem0 temp w bs \<Longrightarrow> packs mem0 temp (S k) (D k) bs (pk k w)" "\<And>w bs. wrep mem0 temp w bs \<Longrightarrow> packs mem0 temp (S v) (D v) bs (pk v w)"
    and "\<And>w bs. wrep mem0 temp w bs \<Longrightarrow> packs mem0 temp (pairs_size S kvs) (pairs_bytes D kvs) bs (f w)" "wrep mem0 temp w bs"
  shows "packs mem0 temp (pairs_size S ((k, v) # kvs)) (pairs_bytes D ((k, v) # kvs)) bs (pk_then (pk k w) (\<lambda>w. pk_then (pk v w) f))"
  unfolding pairs_size_simps
proof (rule packs_then [OF assms(1) [OF assms(4)]])
  fix w ds assume k: "wrep mem0 temp w (bs @ ds)" "D k ds"
  show "packs mem0 temp (S v + pairs_size S kvs) (\<lambda>es. pairs_bytes D ((k, v) # kvs) (ds @ es)) (bs @ ds) (pk_then (pk v w) f)"
  proof (rule packs_then [OF assms(2) [OF k(1)]])
    fix w es assume v: "wrep mem0 temp w ((bs @ ds) @ es)" "D v es"
    show "packs mem0 temp (pairs_size S kvs) (\<lambda>fs. pairs_bytes D ((k, v) # kvs) (ds @ es @ fs)) ((bs @ ds) @ es) (f w)"
      by (rule packs_mono [OF assms(3) [OF v(1)]]) (rule pairs_bytes_Cons [OF k(2) v(2)])
  qed
qed

lemma packs_hash:
  assumes "\<And>k v w bs. (k, v) \<in> set es \<Longrightarrow> wrep mem0 temp w bs \<Longrightarrow> packs mem0 temp (S k) (D k) bs (pk k w) \<and> packs mem0 temp (S v) (D v) bs (pk v w)" "wrep mem0 temp w bs"
  shows "packs mem0 temp (pairs_size S (filter (\<lambda>x. \<not> in_array n (fst x)) es)) (pairs_bytes D (filter (\<lambda>x. \<not> in_array n (fst x)) es)) bs (hash_loop pk n es w)"
  using assms
proof (induction es arbitrary: w bs)
  case Nil
  then show ?case by (simp add: packs_nil del: pairs_size_simps)
next
  case (Cons kv es)
  have IH: "packs mem0 temp (pairs_size S (filter (\<lambda>x. \<not> in_array n (fst x)) es)) (pairs_bytes D (filter (\<lambda>x. \<not> in_array n (fst x)) es)) bs (hash_loop pk n es w)" if "wrep mem0 temp w bs" for w bs
    by (rule Cons.IH [OF _ that]) (rule Cons.prems(1), simp_all)
  obtain k v where kv: "kv = (k, v)" by (cases kv)
  show ?case
  proof (cases "in_array n k")
    case True
    then show ?thesis using IH [OF Cons.prems(2)] by (simp add: kv)
  next
    case False
    have "packs mem0 temp (pairs_size S ((k, v) # filter (\<lambda>x. \<not> in_array n (fst x)) es)) (pairs_bytes D ((k, v) # filter (\<lambda>x. \<not> in_array n (fst x)) es)) bs (pk_then (pk k w) (\<lambda>w. pk_then (pk v w) (hash_loop pk n es)))"
      using Cons.prems(1) [of k v] IH Cons.prems(2) by (intro packs_pair) (simp_all add: kv)
    then show ?thesis using False by (simp add: kv)
  qed
qed

lemma packs_metapairs:
  assumes "\<And>k v w bs. (k, v) \<in> set es \<Longrightarrow> wrep mem0 temp w bs \<Longrightarrow> packs mem0 temp (S k) (D k) bs (pk k w) \<and> packs mem0 temp (S v) (D v) bs (pk v w)" "wrep mem0 temp w bs"
  shows "packs mem0 temp (pairs_size S (takeWhile (\<lambda>x. fst x \<noteq> LNil) es)) (pairs_bytes D (takeWhile (\<lambda>x. fst x \<noteq> LNil) es)) bs (metapairs_loop pk es err w)"
  using assms
proof (induction es arbitrary: w bs)
  case Nil
  show ?case
  proof (cases err)
    case None
    then show ?thesis using Nil.prems(2) by (simp add: packs_nil del: pairs_size_simps)
  next
    case (Some e)
    then show ?thesis using Nil.prems(2) by (auto simp: packs_def intro!: exI [of _ "[]"])
  qed
next
  case (Cons kv es)
  have IH: "packs mem0 temp (pairs_size S (takeWhile (\<lambda>x. fst x \<noteq> LNil) es)) (pairs_bytes D (takeWhile (\<lambda>x. fst x \<noteq> LNil) es)) bs (metapairs_loop pk es err w)" if "wrep mem0 temp w bs" for w bs
    by (rule Cons.IH [OF _ that]) (rule Cons.prems(1), simp_all)
  obtain k v where kv: "kv = (k, v)" by (cases kv)
  show ?case
  proof (cases "k = LNil")
    case True
    then show ?thesis using packs_nil [OF Cons.prems(2), of S D] by (simp add: kv)
  next
    case False
    have "packs mem0 temp (pairs_size S ((k, v) # takeWhile (\<lambda>x. fst x \<noteq> LNil) es)) (pairs_bytes D ((k, v) # takeWhile (\<lambda>x. fst x \<noteq> LNil) es)) bs (pk_then (pk k w) (\<lambda>w. pk_then (pk v w) (metapairs_loop pk es err)))"
      using Cons.prems(1) [of k v] IH Cons.prems(2) by (intro packs_pair) (simp_all add: kv)
    then show ?thesis using False by (simp add: kv)
  qed
qed

subsection \<open>Packing a value\<close>

definition val_closed :: "lheap \<Rightarrow> lval \<Rightarrow> bool" where
  "val_closed H v \<longleftrightarrow> (\<forall>a. v = LTab a \<longrightarrow> a \<in> dom H)"

definition pairs_closed :: "lheap \<Rightarrow> (lval \<times> lval) list \<Rightarrow> bool" where
  "pairs_closed H es \<longleftrightarrow> (\<forall>(k, v) \<in> set es. val_closed H k \<and> val_closed H v)"

text \<open>Every table that a table refers to exists.\<close>

definition heap_closed :: "lheap \<Rightarrow> bool" where
  "heap_closed H \<longleftrightarrow> (\<forall>a t. H a = Some t \<longrightarrow> pairs_closed H (t_entries t) \<and> pairs_closed H (sent t))"

text \<open>Keys and values are as Lua has them in tables, also those that \<open>__pairs\<close> yields, and strings and tables are below 2 GiB.\<close>

definition str_ok :: "lval \<Rightarrow> bool" where
  "str_ok v \<longleftrightarrow> (\<forall>s. v = LStr s \<longrightarrow> length s < 2 ^ 31)"

definition heap_good :: "(ltable \<Rightarrow> nat) \<Rightarrow> lheap \<Rightarrow> bool" where
  "heap_good rawlen H \<longleftrightarrow> (\<forall>a t. H a = Some t \<longrightarrow> pairs_ok (sent t) \<and> (\<forall>(k, v) \<in> set (sent t). str_ok k \<and> str_ok v) \<and> rawlen t < 2 ^ 31)"

lemma heap_goodD:
  assumes "heap_good rawlen H" "H a = Some t"
  shows "pairs_ok (sent t)" "\<forall>(k, v) \<in> set (sent t). str_ok k \<and> str_ok v" "rawlen t < 2 ^ 31"
  using assms unfolding heap_good_def by blast+

lemma pack_one_not_failed: "pack_one rawlen H depth v w \<noteq> Some (Failed e, w')"
proof
  assume "pack_one rawlen H depth v w = Some (Failed e, w')"
  then show False by (subst (asm) pack_one.simps)
    (auto simp: pk_raise_def pk_fine_def bind_Some_iff split: if_splits lval.splits pk_out.splits, metis pk_out.exhaust)
qed

lemma packs_failed: "packs mem0 temp n Q bs m \<Longrightarrow> packs mem0 temp n Q bs (do { (r, w) \<leftarrow> m; (case r of Failed msg \<Rightarrow> pk_raise msg w | _ \<Rightarrow> Some (r, w)) })"
  unfolding packs_def [of mem0 temp n Q bs m]
proof (elim disjE exE conjE)
  fix e ds w assume "m = Some (Failed e, w)" "wrep mem0 temp w (bs @ ds)"
  then show ?thesis using wb_free_ok [of mem0 temp w "bs @ ds"] by (auto simp: packs_def pk_raise_def)
qed (auto simp: packs_def)

lemma writes_head:
  assumes "wrep mem0 temp w bs"
  shows "writes mem0 temp bs (table_head n) (if n \<ge> MAX_COOKIE - 1 then do { w \<leftarrow> wb_push [COMBINE_TYPE TYPE_TABLE (MAX_COOKIE - 1)] w; wb_integer (of_int n) w }
      else wb_push [COMBINE_TYPE TYPE_TABLE n] w)"
  using writes_then [OF writes_push [OF assms], of "[COMBINE_TYPE TYPE_TABLE (MAX_COOKIE - 1)]" _ "wb_integer (of_int n)", OF writes_integer] writes_push [OF assms]
  by (auto simp: table_head_def)

definition all_bytes :: "(lval \<Rightarrow> u8 list \<Rightarrow> bool) \<Rightarrow> lval list \<Rightarrow> u8 list \<Rightarrow> bool" where
  "all_bytes D vs ds \<longleftrightarrow> (\<exists>dss. ds = concat dss \<and> list_all2 D vs dss)"

lemma table_head_length: "length (table_head n) \<le> 10"
proof -
  have "length (snd (int_bytes v)) \<le> 8" for v by (simp add: int_bytes_def u32_bytes_def u16_bytes_def)
  then show ?thesis by (simp add: table_head_def)
qed

lemma packs_array:
  assumes "\<And>v w bs. val_closed H v \<Longrightarrow> wrep mem0 temp w bs \<Longrightarrow> packs mem0 temp (S v) (D v) bs (pk v w)" "pairs_closed H (t_entries t)" "wrep mem0 temp w bs"
  shows "packs mem0 temp (10 + sum_list (map (\<lambda>i. S (rawget t (LInt (of_int i)))) [1..n]))
    (\<lambda>ds. \<exists>es. ds = table_head n @ es \<and> all_bytes D (map (\<lambda>i. rawget t (LInt (of_int i))) [1..n]) es) bs (wb_table_array pk t n w)"
  unfolding wb_table_array_def
proof (rule packs_after [OF writes_head [OF assms(3)]])
  let ?vs = "map (\<lambda>i. rawget t (LInt (of_int i))) [1..n]"
  fix w assume w: "wrep mem0 temp w (bs @ table_head n)"
  have "val_closed H (rawget t k)" for k
    using assms(2) by (auto simp: rawget_def val_closed_def pairs_closed_def split: option.splits dest!: map_of_SomeD)
  then have "packs mem0 temp (sum_list (map S ?vs)) (all_bytes D ?vs) (bs @ table_head n) (pack_each pk ?vs w)"
    unfolding all_bytes_def [abs_def] using assms(1) w by (intro packs_each) auto
  then show "packs mem0 temp (sum_list (map S ?vs)) (\<lambda>fs. \<exists>es. table_head n @ fs = table_head n @ es \<and> all_bytes D ?vs es)
      (bs @ table_head n) (pack_each pk ?vs w)" by (rule packs_mono) simp
qed (use table_head_length [of n] in \<open>simp add: comp_def\<close>)

text \<open>How many bytes packing a value takes at most: \<open>d\<close> is the number of levels of tables that are still admitted.\<close>

primrec pack_size :: "(ltable \<Rightarrow> nat) \<Rightarrow> lheap \<Rightarrow> nat \<Rightarrow> lval \<Rightarrow> nat" where
  "pack_size rawlen H 0 v = 0"
| "pack_size rawlen H (Suc d) v =
     (case v of
        LNil \<Rightarrow> 1
      | LInt x \<Rightarrow> 9
      | LReal x \<Rightarrow> 9
      | LBool b \<Rightarrow> 1
      | LStr s \<Rightarrow> 5 + length s
      | LPtr p \<Rightarrow> 9
      | LTab a \<Rightarrow>
          (case H a of
             None \<Rightarrow> 0
           | Some t \<Rightarrow>
               (case t_pairs t of
                  Some (es, err) \<Rightarrow> 1 + pairs_size (pack_size rawlen H d) (takeWhile (\<lambda>x. fst x \<noteq> LNil) es)
                | None \<Rightarrow>
                    let n = c_int (rawlen t) in
                    10 + sum_list (map (\<lambda>i. pack_size rawlen H d (rawget t (LInt (of_int i)))) [1..n]) +
                    pairs_size (pack_size rawlen H d) (filter (\<lambda>x. \<not> in_array n (fst x)) (t_entries t))))
      | LOther type \<Rightarrow> 0)"

definition goal_bytes :: "(ltable \<Rightarrow> nat) \<Rightarrow> lheap \<Rightarrow> nat \<Rightarrow> lval \<Rightarrow> u8 list \<Rightarrow> bool" where
  "goal_bytes rawlen H d v ds \<longleftrightarrow> (heap_good rawlen H \<and> str_ok v \<longrightarrow> decodes H d v ds)"

lemma pairs_bytes_goal:
  assumes "pairs_bytes (goal_bytes rawlen H d) es ds" "heap_good rawlen H" "\<forall>(k, v) \<in> set es. str_ok k \<and> str_ok v"
  shows "\<exists>dss. ds = concat (map (\<lambda>(x, y). x @ y) dss) @ [COMBINE_TYPE TYPE_NIL 0] \<and> list_all2 (pair_decodes H d) es dss"
proof -
  obtain dss where d: "ds = concat (map (\<lambda>(x, y). x @ y) dss) @ [COMBINE_TYPE TYPE_NIL 0]"
      "list_all2 (\<lambda>x y. goal_bytes rawlen H d (fst x) (fst y) \<and> goal_bytes rawlen H d (snd x) (snd y)) es dss"
    using assms(1) by (auto simp: pairs_bytes_def)
  have "list_all2 (pair_decodes H d) es dss"
    using d(2) assms(2,3) by (auto simp: list_all2_conv_all_nth goal_bytes_def pair_decodes_def case_prod_unfold)
  then show ?thesis using d(1) by blast
qed

lemma table_goal:
  assumes H: "H a = Some t" and n: "n = c_int (rawlen t)" and arr: "all_bytes (goal_bytes rawlen H d) (map (\<lambda>i. rawget t (LInt (of_int i))) [1..n]) es"
    and prs: "pairs_bytes (goal_bytes rawlen H d) (filter (\<lambda>x. \<not> in_array n (fst x)) (t_entries t)) fs" and t: "t_pairs t = None"
  shows "goal_bytes rawlen H (Suc d) (LTab a) ((table_head n @ es) @ fs)"
  unfolding goal_bytes_def
proof (intro impI, elim conjE)
  assume good: "heap_good rawlen H"
  have g: "pairs_ok (t_entries t)" "\<forall>(k, v) \<in> set (t_entries t). str_ok k \<and> str_ok v" "rawlen t < 2 ^ 31"
    using heap_goodD [OF good H] t by (simp_all add: sent_def)
  have n: "0 \<le> n" "n < 2 ^ 31" using n g(3) by simp_all
  let ?vs = "map (\<lambda>i. rawget t (LInt (of_int i))) [1..n]"
  have "str_ok (rawget t k)" for k using g(2) by (auto simp: rawget_def str_ok_def split: option.splits dest!: map_of_SomeD)
  moreover obtain arr where "es = concat arr" "list_all2 (goal_bytes rawlen H d) ?vs arr" using arr by (auto simp: all_bytes_def)
  ultimately have e: "es = concat arr" "list_all2 (decodes H d) ?vs arr" using good by (auto simp: list_all2_conv_all_nth goal_bytes_def)
  obtain dss where f: "fs = concat (map (\<lambda>(x, y). x @ y) dss) @ [COMBINE_TYPE TYPE_NIL 0]"
      "list_all2 (pair_decodes H d) (filter (\<lambda>x. \<not> in_array n (fst x)) (t_entries t)) dss"
    using pairs_bytes_goal [OF prs good] g(2) by auto
  show "decodes H (Suc d) (LTab a) ((table_head n @ es) @ fs)"
    using decodes_table [OF H n _ e(2) f(2)] array_and_rest [OF g(1) n] e(1) f(1) t by (simp add: sent_def)
qed

lemma metatable_goal:
  assumes H: "H a = Some t" and t: "t_pairs t = Some (es, err)" and prs: "pairs_bytes (goal_bytes rawlen H d) (takeWhile (\<lambda>x. fst x \<noteq> LNil) es) fs"
  shows "goal_bytes rawlen H (Suc d) (LTab a) ([COMBINE_TYPE TYPE_TABLE 0] @ fs)"
  unfolding goal_bytes_def
proof (intro impI, elim conjE)
  assume good: "heap_good rawlen H"
  have g: "pairs_ok es" "\<forall>(k, v) \<in> set es. str_ok k \<and> str_ok v" using heap_goodD [OF good H] t by (simp_all add: sent_def)
  have "takeWhile (\<lambda>x. fst x \<noteq> LNil) es = es" using g(1) by (auto simp: takeWhile_eq_all_conv pairs_ok_def list_all_iff key_ok_def)
  note all = this
  obtain dss where f: "fs = concat (map (\<lambda>(x, y). x @ y) dss) @ [COMBINE_TYPE TYPE_NIL 0]" "list_all2 (pair_decodes H d) es dss"
    using pairs_bytes_goal [OF prs [unfolded all] good g(2)] by blast
  have "decodes H (Suc d) (LTab a) (table_head 0 @ concat [] @ concat (map (\<lambda>(x, y). x @ y) dss) @ [COMBINE_TYPE TYPE_NIL 0])"
    by (rule decodes_table [of H a t 0 "[]" d "[]" es dss]) (use H f(2) g(1) t in \<open>simp_all add: sent_def\<close>)
  then show "decodes H (Suc d) (LTab a) ([COMBINE_TYPE TYPE_TABLE 0] @ fs)" using f(1) by (simp add: table_head_def MAX_COOKIE_def)
qed

lemma int_bytes_length: "length (snd (int_bytes v)) \<le> 8"
  by (simp add: int_bytes_def u32_bytes_def u16_bytes_def)

lemma str_bytes_length: "length (str_bytes str) \<le> 5 + length str"
  by (simp add: str_bytes_def u32_bytes_def u16_bytes_def Let_def)

lemma pack_one_packs:
  assumes hc: "heap_closed H"
  shows "val_closed H v \<Longrightarrow> wrep mem0 temp w bs \<Longrightarrow> packs mem0 temp (pack_size rawlen H (MAX_DEPTH + 1 - depth) v) (goal_bytes rawlen H (MAX_DEPTH + 1 - depth) v) bs (pack_one rawlen H depth v w)"
proof (induction "MAX_DEPTH + 1 - depth" arbitrary: depth v w bs)
  case 0
  then have "depth > MAX_DEPTH" by simp
  then show ?case using packs_raise [OF 0(3)] by (subst pack_one.simps) simp
next
  case (Suc k)
  have k: "k = MAX_DEPTH + 1 - (depth + 1)" and d: "\<not> depth > MAX_DEPTH" using Suc(2) by simp_all
  let ?D = "goal_bytes rawlen H k"
  let ?S = "pack_size rawlen H k"
  let ?pk = "\<lambda>v w. pack_one rawlen H (depth + 1) v w"
  have IH: "packs mem0 temp (?S v) (?D v) bs (?pk v w)" if "val_closed H v" "wrep mem0 temp w bs" for v w bs
    using Suc(1) [OF k that] k by simp
  have scalar: ?case if "pack_one rawlen H depth v w = pk_fine m" "writes mem0 temp bs ds m" "str_ok v \<Longrightarrow> decodes H (Suc k) v ds" "length ds \<le> pack_size rawlen H (Suc k) v" for m ds
    using that Suc(2) [symmetric] by (auto simp: goal_bytes_def intro!: packs_fine)
  show ?case
  proof (cases v)
    case LNil
    show ?thesis by (rule scalar [OF _ writes_nil [OF Suc(4)]]) (use d LNil decodes_nil in \<open>simp_all add: pack_one.simps\<close>)
  next
    case (LBool b)
    show ?thesis by (rule scalar [OF _ writes_push [OF Suc(4), of "[COMBINE_TYPE TYPE_BOOLEAN (if b then 1 else 0)]"]]) (use d LBool decodes_boolean in \<open>simp_all add: pack_one.simps wb_boolean_def\<close>)
  next
    case (LInt x)
    show ?thesis by (rule scalar [OF _ writes_integer [OF Suc(4)]]) (use d LInt decodes_integer int_bytes_length [of x] in \<open>simp_all add: pack_one.simps\<close>)
  next
    case (LReal x)
    then show ?thesis using scalar [OF _ writes_two [OF Suc(4), of "[COMBINE_TYPE TYPE_NUMBER TYPE_NUMBER_REAL]" "u64_bytes x"]] decodes_word64(1) [of H "Suc k" x] d
      by (simp add: pack_one.simps wb_real_def)
  next
    case (LPtr x)
    have "COMBINE_TYPE TYPE_USERDATA 0 = of_int TYPE_USERDATA" by (simp add: COMBINE_TYPE_def)
    then show ?thesis using scalar [OF _ writes_two [OF Suc(4), of "[COMBINE_TYPE TYPE_USERDATA 0]" "u64_bytes x"]] LPtr decodes_word64(2) [of H "Suc k" x] d
      by (simp add: pack_one.simps wb_pointer_def)
  next
    case (LStr s)
    obtain ds where ds: "writes mem0 temp bs ds (wb_string s w)" "length s < 2 ^ 31 \<Longrightarrow> ds = str_bytes s" "length ds \<le> 5 + length s"
      using wb_string_bytes [OF _ Suc(4), of s] wb_string_defined [OF Suc(4), of s] str_bytes_length [of s] by blast
    have "str_ok v \<Longrightarrow> decodes H (Suc k) v ds" using ds(2) decodes_string LStr by (auto simp: str_ok_def)
    then show ?thesis using scalar [OF _ ds(1)] ds(3) LStr d by (simp add: pack_one.simps)
  next
    case (LOther ty)
    then show ?thesis using packs_raise [OF Suc(4)] d by (subst pack_one.simps) simp
  next
    case (LTab a)
    obtain t where t: "H a = Some t" using Suc(3) LTab by (auto simp: val_closed_def)
    have pc: "pairs_closed H (t_entries t)" "pairs_closed H (sent t)" using hc t by (auto simp: heap_closed_def)
    have "packs mem0 temp (pack_size rawlen H (Suc k) (LTab a)) (goal_bytes rawlen H (Suc k) (LTab a)) bs (wb_table rawlen ?pk t w)"
    proof (cases "t_pairs t")
      case None
      define n where "n = c_int (rawlen t)"
      have sz: "pack_size rawlen H (Suc k) (LTab a) = 10 + sum_list (map (\<lambda>i. ?S (rawget t (LInt (of_int i)))) [1..n]) + pairs_size ?S (filter (\<lambda>x. \<not> in_array n (fst x)) (t_entries t))"
        using t None by (simp add: n_def Let_def)
      have "packs mem0 temp (pack_size rawlen H (Suc k) (LTab a)) (goal_bytes rawlen H (Suc k) (LTab a)) bs (pk_then (wb_table_array ?pk t n w) (wb_table_hash ?pk t n))"
        unfolding sz
      proof (rule packs_then [OF packs_array [OF IH pc(1) Suc(4)]])
        fix w ds assume w: "wrep mem0 temp w (bs @ ds)" and "\<exists>es. ds = table_head n @ es \<and> all_bytes ?D (map (\<lambda>i. rawget t (LInt (of_int i))) [1..n]) es"
        then obtain es where es: "ds = table_head n @ es" "all_bytes ?D (map (\<lambda>i. rawget t (LInt (of_int i))) [1..n]) es" by blast
        have "packs mem0 temp (pairs_size ?S (filter (\<lambda>x. \<not> in_array n (fst x)) (t_entries t))) (pairs_bytes ?D (filter (\<lambda>x. \<not> in_array n (fst x)) (t_entries t))) (bs @ ds) (wb_table_hash ?pk t n w)"
          unfolding wb_table_hash_def using IH pc(1) w by (intro packs_hash) (auto simp: pairs_closed_def)
        then show "packs mem0 temp (pairs_size ?S (filter (\<lambda>x. \<not> in_array n (fst x)) (t_entries t))) (\<lambda>fs. goal_bytes rawlen H (Suc k) (LTab a) (ds @ fs)) (bs @ ds) (wb_table_hash ?pk t n w)"
          unfolding es(1) by (rule packs_mono) (rule table_goal [of H a t, OF t n_def es(2) _ None])
      qed
      then show ?thesis using None by (simp add: wb_table_def n_def Let_def)
    next
      case (Some x)
      obtain es err where x: "t_pairs t = Some (es, err)" using Some by (cases x) simp
      have c: "pairs_closed H es" using pc(2) x by (simp add: sent_def)
      have "packs mem0 temp (pack_size rawlen H (Suc k) (LTab a)) (goal_bytes rawlen H (Suc k) (LTab a)) bs (wb_table_metapairs ?pk es err w)"
        unfolding wb_table_metapairs_def
      proof (rule packs_after [OF writes_push [OF Suc(4)]])
        fix w assume w: "wrep mem0 temp w (bs @ [COMBINE_TYPE TYPE_TABLE 0])"
        have "packs mem0 temp (pairs_size ?S (takeWhile (\<lambda>x. fst x \<noteq> LNil) es)) (pairs_bytes ?D (takeWhile (\<lambda>x. fst x \<noteq> LNil) es)) (bs @ [COMBINE_TYPE TYPE_TABLE 0]) (metapairs_loop ?pk es err w)"
          using IH c w by (intro packs_metapairs) (auto simp: pairs_closed_def)
        then show "packs mem0 temp (pairs_size ?S (takeWhile (\<lambda>x. fst x \<noteq> LNil) es)) (\<lambda>fs. goal_bytes rawlen H (Suc k) (LTab a) ([COMBINE_TYPE TYPE_TABLE 0] @ fs)) (bs @ [COMBINE_TYPE TYPE_TABLE 0]) (metapairs_loop ?pk es err w)"
          by (rule packs_mono) (rule metatable_goal [of H a t, OF t x])
      qed (use t x in simp)
      then show ?thesis using x by (simp add: wb_table_def)
    qed
    from packs_failed [OF this] show ?thesis using LTab t d Suc(2) by (subst pack_one.simps) (simp del: pack_size.simps)
  qed
qed

subsection \<open>Packing and unpacking messages\<close>

definition vals_closed :: "lheap \<Rightarrow> lval list \<Rightarrow> bool" where
  "vals_closed H vs \<longleftrightarrow> list_all (val_closed H) vs"

text \<open>The allocator gives addresses from \<open>brk\<close> on.\<close>

definition mem_below :: "(addr \<rightharpoonup> block) \<Rightarrow> addr \<Rightarrow> bool" where
  "mem_below mem brk \<longleftrightarrow> (\<forall>a. mem a \<noteq> None \<longrightarrow> a < brk)"

lemma wb_init_ok:
  assumes "mem_below mem brk"
  shows "\<exists>w. wb_init brk \<lparr>wb_head = None, wb_current = None, wb_len = 0, wb_ptr = 0,
      wb_mem = mem(brk \<mapsto> \<lparr>b_next = None, b_buffer = replicate BLOCK_SIZE None\<rparr>), wb_brk = brk + 1\<rparr> = Some w \<and> wrep mem brk w []"
proof -
  have "mem brk = None" using assms by (auto simp: mem_below_def)
  moreover have "a < brk + 1" if "mem a \<noteq> None" for a using assms that by (fastforce simp: mem_below_def)
  ultimately show ?thesis
    by (auto simp: wb_init_def wrep_def b_nx_def intro!: exI [of _ "[]"])
qed

lemma pack_each_not_failed: "(\<And>v w e w'. pk v w \<noteq> Some (Failed e, w')) \<Longrightarrow> pack_each pk vs w \<noteq> Some (Failed e, w')"
  by (induction vs arbitrary: w) (auto simp: pk_then_def bind_Some_iff)

lemma pack_outcome:
  assumes "heap_closed H" "vals_closed H vs" "mem_below mem brk"
  shows "(\<exists>msg. luaseri_pack rawlen H vs mem brk = Some (Inr msg, mem) \<and> all_bytes (goal_bytes rawlen H (MAX_DEPTH + 1)) vs msg) \<or>
    (\<exists>e. luaseri_pack rawlen H vs mem brk = Some (Inl e, mem)) \<or>
    luaseri_pack rawlen H vs mem brk = None \<and> 2 ^ 31 \<le> sum_list (map (pack_size rawlen H (MAX_DEPTH + 1)) vs)"
proof -
  obtain w where w: "wb_init brk \<lparr>wb_head = None, wb_current = None, wb_len = 0, wb_ptr = 0,
      wb_mem = mem(brk \<mapsto> \<lparr>b_next = None, b_buffer = replicate BLOCK_SIZE None\<rparr>), wb_brk = brk + 1\<rparr> = Some w" "wrep mem brk w []"
    using wb_init_ok [OF assms(3)] by blast
  have "packs mem brk (pack_size rawlen H (MAX_DEPTH + 1) v) (goal_bytes rawlen H (MAX_DEPTH + 1) v) bs (pack_one rawlen H 0 v w)" if "v \<in> set vs" "wrep mem brk w bs" for v w bs
    using pack_one_packs [OF assms(1) _ that(2), of v rawlen 0] assms(2) that(1) by (simp del: pack_size.simps add: vals_closed_def list_all_iff)
  then have p: "packs mem brk (sum_list (map (pack_size rawlen H (MAX_DEPTH + 1)) vs)) (all_bytes (goal_bytes rawlen H (MAX_DEPTH + 1)) vs) [] (pack_from rawlen H vs w)"
    unfolding pack_from_def all_bytes_def [abs_def] using w(2) by (intro packs_each) auto
  have "pack_from rawlen H vs w \<noteq> Some (Failed e, w')" for e w'
    unfolding pack_from_def using pack_one_not_failed by (rule pack_each_not_failed)
  then consider ds w' where "pack_from rawlen H vs w = Some (Fine, w')" "wrep mem brk w' ds" "all_bytes (goal_bytes rawlen H (MAX_DEPTH + 1)) vs ds"
    | e w' where "pack_from rawlen H vs w = Some (Raised e, w')" "(wb_mem w')(brk := None) = mem"
    | "pack_from rawlen H vs w = None" "2 ^ 31 \<le> sum_list (map (pack_size rawlen H (MAX_DEPTH + 1)) vs)"
    using p unfolding packs_def append_Nil list.size(3) add_0 by (elim disjE exE conjE) (simp_all, blast)
  then show ?thesis
  proof cases
    case 1
    have "wb_head w' = Some brk" using 1(2) unfolding wrep_def by blast
    then show ?thesis using 1(1,3) w(1) seri_ok [OF 1(2)] wb_free_ok [OF 1(2)] by (auto simp: luaseri_pack_def Let_def)
  next
    case 2
    then show ?thesis using w(1) by (simp add: luaseri_pack_def Let_def)
  next
    case 3
    then show ?thesis using w(1) by (simp add: luaseri_pack_def Let_def del: pack_size.simps)
  qed
qed

lemma decodes_not_Nil: "\<not> decodes H d v []"
proof
  assume d: "decodes H d v []"
  let ?rb = "\<lparr>rb_len = 0, rb_ptr = 0, rb_tabs = Map.empty, rb_brk = 0\<rparr>"
  have r: "reading [] ?rb ([] @ [])" by (simp add: reading_def)
  have "unpack [] Unpack_one ?rb = invalid_stream" using rb_word_eq [of "[]" ?rb "[]" 1 "\<lambda>bs. array_get bs 0"] r by (subst unpack.simps) (simp add: invalid_stream_def)
  then show False using decodesD [OF d r] by (simp add: invalid_stream_def)
qed

lemma unpack_all_step:
  assumes "reading buffer rb bs" "bs \<noteq> []"
  shows "unpack_all buffer acc rb = lbind (unpack buffer Unpack_one rb) (\<lambda>(v, rb). unpack_all buffer (acc @ [v]) rb)"
proof -
  obtain b cs where b: "bs = b # cs" using assms(2) by (cases bs) auto
  have "rb_read 1 rb = (Some (rb_ptr rb), skip 1 rb)" "rb_fetch buffer (rb_ptr rb) 1 = Some [b]"
    using rb_read_eq [OF assms(1), of 1] rb_fetch_eq [OF assms(1), of 1] b by simp_all
  moreover have "rb_word buffer 1 (\<lambda>bs. array_get bs 0) rb = Some (Inr (b, skip 1 rb))"
    using assms(1) b by (intro rb_word_bytes [of _ _ "[b]" cs]) simp_all
  ultimately show ?thesis by (subst unpack_all.simps, subst unpack.simps) simp
qed

lemma unpack_all_decodes:
  assumes "list_all2 (decodes H d) vs dss" "reading buffer rb (concat dss)"
  shows "\<exists>vs' rb'. unpack_all buffer acc rb = Some (Inr (acc @ vs', rb')) \<and> rb_brk rb \<le> rb_brk rb' \<and> (\<forall>a < rb_brk rb. rb_tabs rb' a = rb_tabs rb a) \<and>
    list_all2 (copied d H (rb_tabs rb') (rb_brk rb) (rb_brk rb')) vs vs'"
  using assms
proof (induction vs arbitrary: dss rb acc)
  case Nil
  then have "unpack_all buffer acc rb = Some (Inr (acc, rb))" using rb_read_eq [of buffer rb "[]" 1] by (subst unpack_all.simps) simp
  then show ?case by simp
next
  case (Cons v vs)
  obtain ds dss' where ds: "dss = ds # dss'" "decodes H d v ds" "list_all2 (decodes H d) vs dss'" using Cons.prems(1) by (auto simp: list_all2_Cons1)
  have r: "reading buffer rb (ds @ concat dss')" using Cons.prems(2) by (simp add: ds(1))
  obtain v' rb1 where u: "unpack buffer Unpack_one rb = Some (Inr (v', rb1))" "reading buffer rb1 (concat dss')" "rb_brk rb \<le> rb_brk rb1"
      "\<forall>a < rb_brk rb. rb_tabs rb1 a = rb_tabs rb a" "copied d H (rb_tabs rb1) (rb_brk rb) (rb_brk rb1) v v'"
    using ds(2) r by (rule decodesD)
  obtain vs' rb2 where u2: "unpack_all buffer (acc @ [v']) rb1 = Some (Inr ((acc @ [v']) @ vs', rb2))" "rb_brk rb1 \<le> rb_brk rb2"
      "\<forall>a < rb_brk rb1. rb_tabs rb2 a = rb_tabs rb1 a" "list_all2 (copied d H (rb_tabs rb2) (rb_brk rb1) (rb_brk rb2)) vs vs'"
    using Cons.IH [OF ds(3) u(2)] by blast
  have "ds \<noteq> []" using ds(2) decodes_not_Nil by auto
  then have "unpack_all buffer acc rb = Some (Inr (acc @ v' # vs', rb2))" using unpack_all_step [OF r] u(1) u2(1) by simp
  moreover have "copied d H (rb_tabs rb2) (rb_brk rb) (rb_brk rb2) v v'"
    by (rule copied_mono [OF u(5)]) (use u2(2,3) in simp_all)
  moreover have "list_all2 (copied d H (rb_tabs rb2) (rb_brk rb) (rb_brk rb2)) vs vs'"
    by (rule list_all2_mono [OF u2(4)], erule copied_mono) (use u(3) in simp_all)
  ultimately show ?case using u(3,4) u2(2,3) by (intro exI [of _ "v' # vs'"] exI [of _ rb2]) simp
qed

lemma unpack_message:
  assumes "msg = Message_string bs \<or> msg = Message_data (Some bs) (int (length bs))" "length bs < 2 ^ 31" "bs \<noteq> []"
  shows "luaseri_unpack msg tabs brk = lbind (unpack_all bs [] \<lparr>rb_len = int (length bs), rb_ptr = 0, rb_tabs = tabs, rb_brk = brk\<rparr>) (\<lambda>(vs, rb). Some (Inr (vs, rb_tabs rb)))"
  using assms by (auto simp: luaseri_unpack_def Let_def)

lemma reading_start: "reading bs \<lparr>rb_len = int (length bs), rb_ptr = 0, rb_tabs = tabs, rb_brk = brk\<rparr> bs"
  by (simp add: reading_def)

text \<open>Tables that are in another one, directly or as a key.\<close>

definition inside :: "lheap \<Rightarrow> (addr \<times> addr) set" where
  "inside H = {(a, b). \<exists>t. H a = Some t \<and> (\<exists>(k, v) \<in> set (sent t). k = LTab b \<or> v = LTab b)}"

lemma copied_not_cyclic:
  assumes "copied d H T lo hi (LTab a) v'" "(a, b) \<in> (inside H)\<^sup>*" "(b, b) \<in> (inside H)\<^sup>+"
  shows False
  using assms
proof (induction d arbitrary: a lo v')
  case (Suc d)
  obtain c where c: "(a, c) \<in> inside H" "(c, b) \<in> (inside H)\<^sup>*"
  proof (cases "a = b")
    case True
    then show ?thesis using that tranclD [OF Suc.prems(3)] by blast
  next
    case False
    then show ?thesis using that Suc.prems(2) by (blast elim: converse_rtranclE)
  qed
  obtain a' t t' es where t: "H a = Some t" "list_all2 (cp d H T (a' + 1) hi) (sent t) es" using Suc.prems(1) unfolding copied_table by blast
  obtain k v where kv: "(k, v) \<in> set (sent t)" "k = LTab c \<or> v = LTab c" using c(1) t(1) by (auto simp: inside_def)
  obtain i where i: "i < length (sent t)" "sent t ! i = (k, v)" using kv(1) by (auto simp: in_set_conv_nth)
  have "cp d H T (a' + 1) hi (k, v) (es ! i)" using list_all2_nthD [OF t(2) i(1)] i(2) by simp
  then have "\<exists>v'. copied d H T (a' + 1) hi (LTab c) v'" using kv(2) by (auto simp: cp_def)
  then show ?case using Suc.IH c(2) Suc.prems(3) by blast
qed simp

subsection \<open>Properties\<close>

text \<open>C18: packing values of a store of tables returns a message or raises a Lua error and frees every block that it
  allocated, also when tables contain themselves, as long as what the values take, a shared table counted as often as it is met,
  is below 2 GiB; and where a table that can be reached from the values contains itself, the result is an error.\<close>

theorem seri_pack_total:
  assumes "heap_closed H" "vals_closed H vs" "mem_below mem brk" "sum_list (map (pack_size rawlen H (MAX_DEPTH + 1)) vs) < 2 ^ 31"
  shows "\<exists>r. luaseri_pack rawlen H vs mem brk = Some (r, mem) \<and>
    (heap_good rawlen H \<and> LTab a \<in> set vs \<and> (a, b) \<in> (inside H)\<^sup>* \<and> (b, b) \<in> (inside H)\<^sup>+ \<longrightarrow> (\<exists>e. r = Inl e))"
  using pack_outcome [OF assms(1-3), of rawlen]
proof (elim disjE exE conjE)
  fix msg assume m: "luaseri_pack rawlen H vs mem brk = Some (Inr msg, mem)" "all_bytes (goal_bytes rawlen H (MAX_DEPTH + 1)) vs msg"
  have False if g: "heap_good rawlen H" "LTab a \<in> set vs" "(a, b) \<in> (inside H)\<^sup>*" "(b, b) \<in> (inside H)\<^sup>+"
  proof -
    obtain dss where "list_all2 (goal_bytes rawlen H (MAX_DEPTH + 1)) vs dss" using m(2) by (auto simp: all_bytes_def)
    then obtain ds where "goal_bytes rawlen H (MAX_DEPTH + 1) (LTab a) ds" using g(2) by (auto simp: list_all2_conv_all_nth in_set_conv_nth)
    then have d: "decodes H (MAX_DEPTH + 1) (LTab a) ds" using g(1) by (simp add: goal_bytes_def str_ok_def)
    show False using decodesD [OF d, of ds "\<lparr>rb_len = int (length ds), rb_ptr = 0, rb_tabs = Map.empty, rb_brk = 0\<rparr>" "[]"] copied_not_cyclic [OF _ g(3,4)]
        reading_start [of ds Map.empty 0] by (metis append_Nil2)
  qed
  then show ?thesis using m(1) by blast
next
  fix e assume "luaseri_pack rawlen H vs mem brk = Some (Inl e, mem)"
  then show ?thesis by blast
next
  assume "2 ^ 31 \<le> sum_list (map (pack_size rawlen H (MAX_DEPTH + 1)) vs)"
  then show ?thesis using assms(4) not_le by blast
qed

text \<open>C10: unpacking any message below 2 GiB, whatever its bytes are, ends with values or a Lua error: no read leaves the message and no loop or recursion goes on
  for ever.\<close>

theorem seri_unpack_safe:
  assumes "length bs < 2 ^ 31" "msg = Message_string bs \<or> msg = Message_data (Some bs) (int (length bs))"
  shows "\<exists>r. luaseri_unpack msg tabs brk = Some r"
proof (cases "bs = []")
  case True
  then show ?thesis using assms(2) by (auto simp: luaseri_unpack_def Let_def)
next
  case False
  obtain r where "unpack_all bs [] \<lparr>rb_len = int (length bs), rb_ptr = 0, rb_tabs = tabs, rb_brk = brk\<rparr> = Some r"
    using unpack_all_safe [OF reading_start] by blast
  then show ?thesis using unpack_message [OF assms(2,1) False] by (cases r) auto
qed

text \<open>C7: values that were packed into a message are read from it again: numbers, strings, booleans and pointers equal, tables as
  copies, made of new tables, with copies of the same entries (of those that \<open>__pairs\<close> yields, where a table has it), down to
  the depth that packing admits; all tables that existed stay as they are.\<close>

theorem seri_roundtrip:
  assumes "heap_closed H" "vals_closed H vs" "mem_below mem brk" "heap_good rawlen H" "list_all str_ok vs"
    and "luaseri_pack rawlen H vs mem brk = Some (Inr bs, mem')" "length bs < 2 ^ 31"
    and "msg = Message_string bs \<or> msg = Message_data (Some bs) (int (length bs))"
  shows "\<exists>vs' T' hi. luaseri_unpack msg T lo = Some (Inr (vs', T')) \<and> (\<forall>a < lo. T' a = T a) \<and> list_all2 (copied (MAX_DEPTH + 1) H T' lo hi) vs vs'"
proof -
  let ?rb = "\<lparr>rb_len = int (length bs), rb_ptr = 0, rb_tabs = T, rb_brk = lo\<rparr>"
  obtain dss where d: "bs = concat dss" "list_all2 (goal_bytes rawlen H (MAX_DEPTH + 1)) vs dss"
    using pack_outcome [OF assms(1-3), of rawlen] assms(6) by (auto simp: all_bytes_def)
  have "list_all2 (decodes H (MAX_DEPTH + 1)) vs dss"
    using d(2) assms(4,5) by (auto simp: list_all2_conv_all_nth list_all_length goal_bytes_def)
  moreover have "reading bs ?rb (concat dss)" using reading_start d(1) by simp
  ultimately obtain vs' rb' where u: "unpack_all bs [] ?rb = Some (Inr (vs', rb'))" "\<forall>a < lo. rb_tabs rb' a = T a"
      "list_all2 (copied (MAX_DEPTH + 1) H (rb_tabs rb') lo (rb_brk rb')) vs vs'"
    using unpack_all_decodes [of H "MAX_DEPTH + 1" vs dss bs ?rb "[]"] by auto
  show ?thesis
  proof (cases "bs = []")
    case True
    have "vs' = [] \<and> rb_tabs rb' = T" using u(1) rb_read_eq [OF reading_start [of bs T lo], of 1] True by (subst (asm) unpack_all.simps) auto
    then show ?thesis using True assms(8) u(3) by (intro exI [of _ "[]"] exI [of _ T] exI [of _ lo]) (auto simp: luaseri_unpack_def Let_def)
  next
    case False
    then show ?thesis using unpack_message [OF assms(8,7) False] u by (intro exI [of _ vs'] exI [of _ "rb_tabs rb'"] exI [of _ "rb_brk rb'"]) simp
  qed
qed

text \<open>A table that contains itself, and one with a list part and a named entry.\<close>

definition knot :: lheap where
  "knot = [0 \<mapsto> \<lparr>t_entries = [(LInt 1, LTab 0)], t_pairs = None\<rparr>]"

definition demo_table :: lheap where
  "demo_table = [0 \<mapsto> \<lparr>t_entries = [(LInt 1, LBool True), (LStr [97], LInt 300)], t_pairs = None\<rparr>]"

lemmas demo_simps = heap_closed_def heap_good_def pairs_closed_def vals_closed_def val_closed_def pairs_ok_def key_ok_def str_ok_def sent_def mem_below_def

lemma knot_size: "pack_size (\<lambda>t. length (t_entries t)) knot d (LTab 0) = 11 * d"
proof (induction d)
  case (Suc d)
  have "[1..1::int] = [1]" by simp
  then show ?case using Suc by (simp add: knot_def Let_def rawget_def in_array_def pairs_size_def)
qed simp

theorem seri_pack_total_witness:
  "\<exists>e. luaseri_pack (\<lambda>t. length (t_entries t)) knot [LTab 0] Map.empty 0 = Some (Inl e, Map.empty)"
proof -
  have "(0, 0) \<in> inside knot" by (simp add: inside_def knot_def sent_def)
  then have "(0, 0) \<in> (inside knot)\<^sup>+" "(0, 0) \<in> (inside knot)\<^sup>*" by auto
  moreover have "heap_closed knot" "vals_closed knot [LTab 0]" "mem_below Map.empty 0" "heap_good (\<lambda>t. length (t_entries t)) knot"
    by (simp_all add: demo_simps knot_def)
  moreover have "sum_list (map (pack_size (\<lambda>t. length (t_entries t)) knot (MAX_DEPTH + 1)) [LTab 0]) < 2 ^ 31"
    by (simp only: list.map sum_list.Cons sum_list.Nil knot_size) (simp add: MAX_DEPTH_def)
  ultimately show ?thesis using seri_pack_total [of knot "[LTab 0]" Map.empty 0 "\<lambda>t. length (t_entries t)" 0 0] by auto
qed

theorem seri_unpack_safe_witness:
  "\<exists>r. luaseri_unpack (Message_string [0x25, 0xFF, 0xFF, 0xFF, 0xFF]) Map.empty 0 = Some r"
  by (rule seri_unpack_safe [of "[0x25, 0xFF, 0xFF, 0xFF, 0xFF]"]) simp_all

lemma demo_message: "map_option fst (luaseri_pack (\<lambda>t. 1) demo_table [LTab 0, LNil] Map.empty 0) = Some (Inr [14, 9, 12, 97, 18, 44, 1, 0, 0])"
  by code_simp

theorem seri_roundtrip_witness:
  "\<exists>vs' T' hi. luaseri_unpack (Message_string [14, 9, 12, 97, 18, 44, 1, 0, 0]) Map.empty 5 = Some (Inr (vs', T')) \<and>
     list_all2 (copied (MAX_DEPTH + 1) demo_table T' 5 hi) [LTab 0, LNil] vs'"
proof -
  obtain mem where m: "luaseri_pack (\<lambda>t. 1) demo_table [LTab 0, LNil] Map.empty 0 = Some (Inr [14, 9, 12, 97, 18, 44, 1, 0, 0], mem)"
    using demo_message by auto
  have "heap_closed demo_table" "vals_closed demo_table [LTab 0, LNil]" "mem_below Map.empty 0" "heap_good (\<lambda>t. 1) demo_table" "list_all str_ok [LTab 0, LNil]"
    by (simp_all add: demo_simps demo_table_def)
  from seri_roundtrip [OF this m, of "Message_string [14, 9, 12, 97, 18, 44, 1, 0, 0]" Map.empty 5] show ?thesis by auto
qed

end
