(* ===== verification/Crypt_DES.thy ===== *)
theory Crypt_DES
  imports Lua_Call
begin

unbundle bit_operations_syntax

text \<open>
  DES encryption of \<^verbatim>\<open>009_skynet_demo/skynet/lualib-src/lua-crypt.c\<close>: the S-boxes and macros, the key
  schedule \<open>des_main_ks\<close>, the block function \<open>des_crypt\<close>, the two padding modes, and the Lua functions
  \<open>desencode\<close> and \<open>desdecode\<close>.
\<close>

subsection \<open>Tables\<close>

definition SB1 :: "u32 list" where
  "SB1 = [
     0x01010400, 0x00000000, 0x00010000, 0x01010404, 0x01010004, 0x00010404, 0x00000004, 0x00010000,
     0x00000400, 0x01010400, 0x01010404, 0x00000400, 0x01000404, 0x01010004, 0x01000000, 0x00000004,
     0x00000404, 0x01000400, 0x01000400, 0x00010400, 0x00010400, 0x01010000, 0x01010000, 0x01000404,
     0x00010004, 0x01000004, 0x01000004, 0x00010004, 0x00000000, 0x00000404, 0x00010404, 0x01000000,
     0x00010000, 0x01010404, 0x00000004, 0x01010000, 0x01010400, 0x01000000, 0x01000000, 0x00000400,
     0x01010004, 0x00010000, 0x00010400, 0x01000004, 0x00000400, 0x00000004, 0x01000404, 0x00010404,
     0x01010404, 0x00010004, 0x01010000, 0x01000404, 0x01000004, 0x00000404, 0x00010404, 0x01010400,
     0x00000404, 0x01000400, 0x01000400, 0x00000000, 0x00010004, 0x00010400, 0x00000000, 0x01010004]"

definition SB2 :: "u32 list" where
  "SB2 = [
     0x80108020, 0x80008000, 0x00008000, 0x00108020, 0x00100000, 0x00000020, 0x80100020, 0x80008020,
     0x80000020, 0x80108020, 0x80108000, 0x80000000, 0x80008000, 0x00100000, 0x00000020, 0x80100020,
     0x00108000, 0x00100020, 0x80008020, 0x00000000, 0x80000000, 0x00008000, 0x00108020, 0x80100000,
     0x00100020, 0x80000020, 0x00000000, 0x00108000, 0x00008020, 0x80108000, 0x80100000, 0x00008020,
     0x00000000, 0x00108020, 0x80100020, 0x00100000, 0x80008020, 0x80100000, 0x80108000, 0x00008000,
     0x80100000, 0x80008000, 0x00000020, 0x80108020, 0x00108020, 0x00000020, 0x00008000, 0x80000000,
     0x00008020, 0x80108000, 0x00100000, 0x80000020, 0x00100020, 0x80008020, 0x80000020, 0x00100020,
     0x00108000, 0x00000000, 0x80008000, 0x00008020, 0x80000000, 0x80100020, 0x80108020, 0x00108000]"

definition SB3 :: "u32 list" where
  "SB3 = [
     0x00000208, 0x08020200, 0x00000000, 0x08020008, 0x08000200, 0x00000000, 0x00020208, 0x08000200,
     0x00020008, 0x08000008, 0x08000008, 0x00020000, 0x08020208, 0x00020008, 0x08020000, 0x00000208,
     0x08000000, 0x00000008, 0x08020200, 0x00000200, 0x00020200, 0x08020000, 0x08020008, 0x00020208,
     0x08000208, 0x00020200, 0x00020000, 0x08000208, 0x00000008, 0x08020208, 0x00000200, 0x08000000,
     0x08020200, 0x08000000, 0x00020008, 0x00000208, 0x00020000, 0x08020200, 0x08000200, 0x00000000,
     0x00000200, 0x00020008, 0x08020208, 0x08000200, 0x08000008, 0x00000200, 0x00000000, 0x08020008,
     0x08000208, 0x00020000, 0x08000000, 0x08020208, 0x00000008, 0x00020208, 0x00020200, 0x08000008,
     0x08020000, 0x08000208, 0x00000208, 0x08020000, 0x00020208, 0x00000008, 0x08020008, 0x00020200]"

definition SB4 :: "u32 list" where
  "SB4 = [
     0x00802001, 0x00002081, 0x00002081, 0x00000080, 0x00802080, 0x00800081, 0x00800001, 0x00002001,
     0x00000000, 0x00802000, 0x00802000, 0x00802081, 0x00000081, 0x00000000, 0x00800080, 0x00800001,
     0x00000001, 0x00002000, 0x00800000, 0x00802001, 0x00000080, 0x00800000, 0x00002001, 0x00002080,
     0x00800081, 0x00000001, 0x00002080, 0x00800080, 0x00002000, 0x00802080, 0x00802081, 0x00000081,
     0x00800080, 0x00800001, 0x00802000, 0x00802081, 0x00000081, 0x00000000, 0x00000000, 0x00802000,
     0x00002080, 0x00800080, 0x00800081, 0x00000001, 0x00802001, 0x00002081, 0x00002081, 0x00000080,
     0x00802081, 0x00000081, 0x00000001, 0x00002000, 0x00800001, 0x00002001, 0x00802080, 0x00800081,
     0x00002001, 0x00002080, 0x00800000, 0x00802001, 0x00000080, 0x00800000, 0x00002000, 0x00802080]"

definition SB5 :: "u32 list" where
  "SB5 = [
     0x00000100, 0x02080100, 0x02080000, 0x42000100, 0x00080000, 0x00000100, 0x40000000, 0x02080000,
     0x40080100, 0x00080000, 0x02000100, 0x40080100, 0x42000100, 0x42080000, 0x00080100, 0x40000000,
     0x02000000, 0x40080000, 0x40080000, 0x00000000, 0x40000100, 0x42080100, 0x42080100, 0x02000100,
     0x42080000, 0x40000100, 0x00000000, 0x42000000, 0x02080100, 0x02000000, 0x42000000, 0x00080100,
     0x00080000, 0x42000100, 0x00000100, 0x02000000, 0x40000000, 0x02080000, 0x42000100, 0x40080100,
     0x02000100, 0x40000000, 0x42080000, 0x02080100, 0x40080100, 0x00000100, 0x02000000, 0x42080000,
     0x42080100, 0x00080100, 0x42000000, 0x42080100, 0x02080000, 0x00000000, 0x40080000, 0x42000000,
     0x00080100, 0x02000100, 0x40000100, 0x00080000, 0x00000000, 0x40080000, 0x02080100, 0x40000100]"

definition SB6 :: "u32 list" where
  "SB6 = [
     0x20000010, 0x20400000, 0x00004000, 0x20404010, 0x20400000, 0x00000010, 0x20404010, 0x00400000,
     0x20004000, 0x00404010, 0x00400000, 0x20000010, 0x00400010, 0x20004000, 0x20000000, 0x00004010,
     0x00000000, 0x00400010, 0x20004010, 0x00004000, 0x00404000, 0x20004010, 0x00000010, 0x20400010,
     0x20400010, 0x00000000, 0x00404010, 0x20404000, 0x00004010, 0x00404000, 0x20404000, 0x20000000,
     0x20004000, 0x00000010, 0x20400010, 0x00404000, 0x20404010, 0x00400000, 0x00004010, 0x20000010,
     0x00400000, 0x20004000, 0x20000000, 0x00004010, 0x20000010, 0x20404010, 0x00404000, 0x20400000,
     0x00404010, 0x20404000, 0x00000000, 0x20400010, 0x00000010, 0x00004000, 0x20400000, 0x00404010,
     0x00004000, 0x00400010, 0x20004010, 0x00000000, 0x20404000, 0x20000000, 0x00400010, 0x20004010]"

definition SB7 :: "u32 list" where
  "SB7 = [
     0x00200000, 0x04200002, 0x04000802, 0x00000000, 0x00000800, 0x04000802, 0x00200802, 0x04200800,
     0x04200802, 0x00200000, 0x00000000, 0x04000002, 0x00000002, 0x04000000, 0x04200002, 0x00000802,
     0x04000800, 0x00200802, 0x00200002, 0x04000800, 0x04000002, 0x04200000, 0x04200800, 0x00200002,
     0x04200000, 0x00000800, 0x00000802, 0x04200802, 0x00200800, 0x00000002, 0x04000000, 0x00200800,
     0x04000000, 0x00200800, 0x00200000, 0x04000802, 0x04000802, 0x04200002, 0x04200002, 0x00000002,
     0x00200002, 0x04000000, 0x04000800, 0x00200000, 0x04200800, 0x00000802, 0x00200802, 0x04200800,
     0x00000802, 0x04000002, 0x04200802, 0x04200000, 0x00200800, 0x00000000, 0x00000002, 0x04200802,
     0x00000000, 0x00200802, 0x04200000, 0x00000800, 0x04000002, 0x04000800, 0x00000800, 0x00200002]"

definition SB8 :: "u32 list" where
  "SB8 = [
     0x10001040, 0x00001000, 0x00040000, 0x10041040, 0x10000000, 0x10001040, 0x00000040, 0x10000000,
     0x00040040, 0x10040000, 0x10041040, 0x00041000, 0x10041000, 0x00041040, 0x00001000, 0x00000040,
     0x10040000, 0x10000040, 0x10001000, 0x00001040, 0x00041000, 0x00040040, 0x10040040, 0x10041000,
     0x00001040, 0x00000000, 0x00000000, 0x10040040, 0x10000040, 0x10001000, 0x00041040, 0x00040000,
     0x00041040, 0x00040000, 0x10041000, 0x00001000, 0x00000040, 0x10040040, 0x00001000, 0x00041040,
     0x10001000, 0x00000040, 0x10000040, 0x10040000, 0x10040040, 0x10000000, 0x00040000, 0x10001040,
     0x00000000, 0x10041040, 0x00040040, 0x10000040, 0x10040000, 0x10001000, 0x10001040, 0x00000000,
     0x10041040, 0x00041000, 0x00041000, 0x00001040, 0x00001040, 0x00040040, 0x10000000, 0x10041000]"

definition LHs :: "u32 list" where
  "LHs = [
     0x00000000, 0x00000001, 0x00000100, 0x00000101, 0x00010000, 0x00010001, 0x00010100, 0x00010101,
     0x01000000, 0x01000001, 0x01000100, 0x01000101, 0x01010000, 0x01010001, 0x01010100, 0x01010101]"

definition RHs :: "u32 list" where
  "RHs = [
     0x00000000, 0x01000000, 0x00010000, 0x01010000, 0x00000100, 0x01000100, 0x00010100, 0x01010100,
     0x00000001, 0x01000001, 0x00010001, 0x01010001, 0x00000101, 0x01000101, 0x00010101, 0x01010101]"

subsection \<open>Macros\<close>

definition GET_UINT32 :: "u8 list \<Rightarrow> nat \<Rightarrow> u32" where
  "GET_UINT32 b i = push_bit 24 (ucast (b ! i)) OR push_bit 16 (ucast (b ! (i + 1))) OR
     push_bit 8 (ucast (b ! (i + 2))) OR ucast (b ! (i + 3))"

definition PUT_UINT32 :: "u32 \<Rightarrow> u8 list" where
  "PUT_UINT32 n = [ucast (drop_bit 24 n), ucast (drop_bit 16 n), ucast (drop_bit 8 n), ucast n]"

text \<open>\<open>T = ((A >> n) ^ B) & m; B ^= T; A ^= (T << n)\<close>, the step both permutations are made of.\<close>

definition swapmove :: "nat \<Rightarrow> u32 \<Rightarrow> u32 \<times> u32 \<Rightarrow> u32 \<times> u32" where
  "swapmove n m = (\<lambda>(A, B). let T = (drop_bit n A XOR B) AND m in (A XOR push_bit n T, B XOR T))"

definition rol1 :: "u32 \<Rightarrow> u32" where "rol1 x = (push_bit 1 x OR drop_bit 31 x) AND 0xFFFFFFFF"
definition ror1 :: "u32 \<Rightarrow> u32" where "ror1 x = (push_bit 31 x OR drop_bit 1 x) AND 0xFFFFFFFF"

definition DES_IP :: "u32 \<times> u32 \<Rightarrow> u32 \<times> u32" where
  "DES_IP XY =
     (let (X, Y) = swapmove 4 0x0F0F0F0F XY;
          (X, Y) = swapmove 16 0x0000FFFF (X, Y);
          (Y, X) = swapmove 2 0x33333333 (Y, X);
          (Y, X) = swapmove 8 0x00FF00FF (Y, X);
          Y = rol1 Y;
          (X, Y) = swapmove 0 0xAAAAAAAA (X, Y);
          X = rol1 X
      in (X, Y))"

definition DES_FP :: "u32 \<times> u32 \<Rightarrow> u32 \<times> u32" where
  "DES_FP XY =
     (let (X, Y) = XY;
          X = ror1 X;
          (X, Y) = swapmove 0 0xAAAAAAAA (X, Y);
          Y = ror1 Y;
          (Y, X) = swapmove 8 0x00FF00FF (Y, X);
          (Y, X) = swapmove 2 0x33333333 (Y, X);
          (X, Y) = swapmove 16 0x0000FFFF (X, Y);
          (X, Y) = swapmove 4 0x0F0F0F0F (X, Y)
      in (X, Y))"

definition sbox :: "u32 list \<Rightarrow> u32 \<Rightarrow> nat \<Rightarrow> u32" where
  "sbox SB T n = SB ! unat (drop_bit n T AND 0x3F)"

text \<open>\<open>DES_ROUND(X,Y)\<close> xors this value, made of \<open>X\<close> and the next two subkeys, into \<open>Y\<close>.\<close>

definition DES_ROUND :: "u32 \<Rightarrow> u32 \<Rightarrow> u32 \<Rightarrow> u32" where
  "DES_ROUND K1 K2 X =
     (let T = K1 XOR X; U = K2 XOR (push_bit 28 X OR drop_bit 4 X) in
      sbox SB8 T 0 XOR sbox SB6 T 8 XOR sbox SB4 T 16 XOR sbox SB2 T 24 XOR
      sbox SB7 U 0 XOR sbox SB5 U 8 XOR sbox SB3 U 16 XOR sbox SB1 U 24)"

subsection \<open>Key schedule\<close>

definition nib :: "u32 list \<Rightarrow> u32 \<Rightarrow> nat \<Rightarrow> u32" where
  "nib tbl X n = tbl ! unat (drop_bit n X AND 0xF)"

definition des_pc1 :: "u32 \<Rightarrow> u32 \<Rightarrow> u32 \<times> u32" where
  "des_pc1 X Y =
     (let (Y, X) = swapmove 4 0x0F0F0F0F (Y, X);
          (Y, X) = swapmove 0 0x10101010 (Y, X);
          X = push_bit 3 (nib LHs X 0) OR push_bit 2 (nib LHs X 8) OR push_bit 1 (nib LHs X 16) OR nib LHs X 24 OR
              push_bit 7 (nib LHs X 5) OR push_bit 6 (nib LHs X 13) OR push_bit 5 (nib LHs X 21) OR push_bit 4 (nib LHs X 29);
          Y = push_bit 3 (nib RHs Y 1) OR push_bit 2 (nib RHs Y 9) OR push_bit 1 (nib RHs Y 17) OR nib RHs Y 25 OR
              push_bit 7 (nib RHs Y 4) OR push_bit 6 (nib RHs Y 12) OR push_bit 5 (nib RHs Y 20) OR push_bit 4 (nib RHs Y 28)
      in (X AND 0x0FFFFFFF, Y AND 0x0FFFFFFF))"

definition des_rot :: "nat \<Rightarrow> u32 \<Rightarrow> u32" where
  "des_rot i X = (if i < 2 \<or> i = 8 \<or> i = 15 then (push_bit 1 X OR drop_bit 27 X) AND 0x0FFFFFFF
     else (push_bit 2 X OR drop_bit 26 X) AND 0x0FFFFFFF)"

definition des_subkey1 :: "u32 \<Rightarrow> u32 \<Rightarrow> u32" where
  "des_subkey1 X Y =
     (push_bit 4 X AND 0x24000000) OR (push_bit 28 X AND 0x10000000) OR (push_bit 14 X AND 0x08000000) OR
     (push_bit 18 X AND 0x02080000) OR (push_bit 6 X AND 0x01000000) OR (push_bit 9 X AND 0x00200000) OR
     (drop_bit 1 X AND 0x00100000) OR (push_bit 10 X AND 0x00040000) OR (push_bit 2 X AND 0x00020000) OR
     (drop_bit 10 X AND 0x00010000) OR (drop_bit 13 Y AND 0x00002000) OR (drop_bit 4 Y AND 0x00001000) OR
     (push_bit 6 Y AND 0x00000800) OR (drop_bit 1 Y AND 0x00000400) OR (drop_bit 14 Y AND 0x00000200) OR
     (Y AND 0x00000100) OR (drop_bit 5 Y AND 0x00000020) OR (drop_bit 10 Y AND 0x00000010) OR
     (drop_bit 3 Y AND 0x00000008) OR (drop_bit 18 Y AND 0x00000004) OR (drop_bit 26 Y AND 0x00000002) OR
     (drop_bit 24 Y AND 0x00000001)"

definition des_subkey2 :: "u32 \<Rightarrow> u32 \<Rightarrow> u32" where
  "des_subkey2 X Y =
     (push_bit 15 X AND 0x20000000) OR (push_bit 17 X AND 0x10000000) OR (push_bit 10 X AND 0x08000000) OR
     (push_bit 22 X AND 0x04000000) OR (drop_bit 2 X AND 0x02000000) OR (push_bit 1 X AND 0x01000000) OR
     (push_bit 16 X AND 0x00200000) OR (push_bit 11 X AND 0x00100000) OR (push_bit 3 X AND 0x00080000) OR
     (drop_bit 6 X AND 0x00040000) OR (push_bit 15 X AND 0x00020000) OR (drop_bit 4 X AND 0x00010000) OR
     (drop_bit 2 Y AND 0x00002000) OR (push_bit 8 Y AND 0x00001000) OR (drop_bit 14 Y AND 0x00000808) OR
     (drop_bit 9 Y AND 0x00000400) OR (Y AND 0x00000200) OR (push_bit 7 Y AND 0x00000100) OR
     (drop_bit 7 Y AND 0x00000020) OR (drop_bit 3 Y AND 0x00000011) OR (push_bit 2 Y AND 0x00000004) OR
     (drop_bit 21 Y AND 0x00000002)"

fun des_subkeys :: "nat \<Rightarrow> nat \<Rightarrow> u32 \<Rightarrow> u32 \<Rightarrow> u32 list" where
  "des_subkeys i 0 X Y = []"
| "des_subkeys i (Suc n) X Y =
     (let X = des_rot i X; Y = des_rot i Y in des_subkey1 X Y # des_subkey2 X Y # des_subkeys (i + 1) n X Y)"

definition des_main_ks :: "u8 list \<Rightarrow> u32 list" where
  "des_main_ks key = (let (X, Y) = des_pc1 (GET_UINT32 key 0) (GET_UINT32 key 4) in des_subkeys 0 16 X Y)"

subsection \<open>Blocks\<close>

text \<open>The sixteen rounds, two at a time: \<open>DES_ROUND( Y, X ); DES_ROUND( X, Y );\<close>, consuming the subkeys.\<close>

fun des_rounds :: "u32 list \<Rightarrow> u32 \<times> u32 \<Rightarrow> u32 \<times> u32" where
  "des_rounds (k1 # k2 # k3 # k4 # SK) (X, Y) =
     (let X = X XOR DES_ROUND k1 k2 Y; Y = Y XOR DES_ROUND k3 k4 X in des_rounds SK (X, Y))"
| "des_rounds _ XY = XY"

definition des_crypt :: "u32 list \<Rightarrow> u8 list \<Rightarrow> u8 list" where
  "des_crypt SK input =
     (let (X, Y) = DES_IP (GET_UINT32 input 0, GET_UINT32 input 4);
          (X, Y) = des_rounds SK (X, Y);
          (Y, X) = DES_FP (Y, X)
      in PUT_UINT32 Y @ PUT_UINT32 X)"

subsection \<open>Padding\<close>

definition PADDING_MODE_ISO7816_4 :: int where "PADDING_MODE_ISO7816_4 = 0"
definition PADDING_MODE_PKCS7 :: int where "PADDING_MODE_PKCS7 = 1"
definition PADDING_MODE_COUNT :: int where "PADDING_MODE_COUNT = 2"

definition padding_add_iso7816_4 :: "u8 list \<Rightarrow> u8 list" where
  "padding_add_iso7816_4 rest = rest @ 0x80 # replicate (7 - length rest) 0"

text \<open>The loops that remove the padding read the buffer backwards; \<open>r\<close> is the reversed buffer from \<open>last\<close> on.
  Running out of it is reading in front of the buffer.\<close>

fun iso7816_4_loop :: "nat \<Rightarrow> u8 list \<Rightarrow> int \<Rightarrow> int lua" where
  "iso7816_4_loop 0 r padding = Ret 0"
| "iso7816_4_loop (Suc n) [] padding = Undef"
| "iso7816_4_loop (Suc n) (x # r) padding =
     (if x = 0 then iso7816_4_loop n r (padding + 1) else if x = 0x80 then Ret padding else Ret 0)"

definition padding_remove_iso7816_4 :: "u8 list \<Rightarrow> int lua" where
  "padding_remove_iso7816_4 r = iso7816_4_loop 8 r 1"

definition padding_add_pkcs7 :: "u8 list \<Rightarrow> u8 list" where
  "padding_add_pkcs7 rest = rest @ replicate (8 - length rest) (of_nat (8 - length rest))"

fun pkcs7_loop :: "nat \<Rightarrow> u8 list \<Rightarrow> int \<Rightarrow> int lua" where
  "pkcs7_loop 0 r padding = Ret padding"
| "pkcs7_loop (Suc n) [] padding = Undef"
| "pkcs7_loop (Suc n) (x # r) padding = (if uint x \<noteq> padding then Ret 0 else pkcs7_loop n r padding)"

definition padding_remove_pkcs7 :: "u8 list \<Rightarrow> int lua" where
  "padding_remove_pkcs7 r = (case r of
      [] \<Rightarrow> Undef
    | x # r' \<Rightarrow> pkcs7_loop (unat x - 1) r' (uint x))"

definition check_padding_mode :: "int \<Rightarrow> unit lua" where
  "check_padding_mode mode = (if mode < 0 \<or> mode \<ge> PADDING_MODE_COUNT then Err (''Invalid padding mode '' @ show_int mode) else Ret ())"

text \<open>\<open>memcpy\<close> takes a negative \<open>offset\<close> for a huge size.\<close>

definition add_padding :: "u8 list \<Rightarrow> int \<Rightarrow> int \<Rightarrow> u8 list lua" where
  "add_padding src offset mode = lua_bind (check_padding_mode mode) (\<lambda>_.
     if offset \<ge> 8 then Err ''Invalid padding''
     else if offset < 0 then Undef
     else let buf = take (nat offset) src in
       Ret (if mode = PADDING_MODE_ISO7816_4 then padding_add_iso7816_4 buf else padding_add_pkcs7 buf))"

definition remove_padding :: "u8 list \<Rightarrow> int \<Rightarrow> int lua" where
  "remove_padding r mode = lua_bind (check_padding_mode mode) (\<lambda>_.
     if mode = PADDING_MODE_ISO7816_4 then padding_remove_iso7816_4 r else padding_remove_pkcs7 r)"

subsection \<open>Texts\<close>

definition des_key :: "u8 list \<Rightarrow> u32 list lua" where
  "des_key key = (if length key \<noteq> 8 then Err (''Invalid key size '' @ show_int (long_to_int (int (length key))) @ '', need 8 bytes'') else Ret (des_main_ks key))"

text \<open>The optional argument with the padding mode, a \<open>lua_Integer\<close> stored in an \<open>int\<close>.\<close>

definition opt_padding_mode :: "int option \<Rightarrow> int" where
  "opt_padding_mode mode = long_to_int (case mode of Some m \<Rightarrow> m | None \<Rightarrow> PADDING_MODE_ISO7816_4)"

text \<open>The loop over the blocks: \<open>txt\<close> is the text from index \<open>i\<close> on, \<open>lim\<close> the bound that \<open>i\<close> is compared with.  It
  returns the blocks written and the text that is left.\<close>

function des_loop :: "u32 list \<Rightarrow> int \<Rightarrow> int \<Rightarrow> u8 list \<Rightarrow> u8 list \<times> u8 list" where
  "des_loop SK lim i txt =
     (if i < lim then let (out, rest) = des_loop SK lim (i + 8) (drop 8 txt) in (des_crypt SK (take 8 txt) @ out, rest)
      else ([], txt))"
  by pat_completeness auto
termination by (relation "measure (\<lambda>(SK, lim, i, txt). nat (lim - i))") auto

declare des_loop.simps [simp del]

text \<open>\<open>chunksz\<close> is the size of the buffer and of the result; the bytes between the last block written and its end
  are unspecified.\<close>

definition ldesencode :: "u8 list \<Rightarrow> u8 list \<Rightarrow> int option \<Rightarrow> u8 list lua" where
  "ldesencode key txt mode = lua_bind (des_key key) (\<lambda>SK.
     let textsz = int (length txt); chunksz = (textsz + 8) div 8 * 8; padding_mode = opt_padding_mode mode in
     if long_to_int textsz - 7 < - (2 ^ 31) then Undef
     else let (out, rest) = des_loop SK (long_to_int textsz - 7) 0 txt in
       lua_bind (add_padding rest (long_to_int (int (length rest))) padding_mode) (\<lambda>tail.
         push_buffer (out @ des_crypt SK tail) chunksz))"

text \<open>\<open>SK[i] = ESK[30 - i]; SK[i + 1] = ESK[31 - i];\<close> for even \<open>i\<close>.\<close>

definition des_reverse_keys :: "u32 list \<Rightarrow> u32 list" where
  "des_reverse_keys ESK = concat (map (\<lambda>i. [ESK ! (30 - 2 * i), ESK ! (31 - 2 * i)]) [0..<16])"

text \<open>Here the \<open>int\<close> \<open>i\<close> is compared with a \<open>size_t\<close>: for a text of 2 GiB or more \<open>i += 8\<close> runs over.\<close>

definition ldesdecode :: "u8 list \<Rightarrow> u8 list \<Rightarrow> int option \<Rightarrow> u8 list lua" where
  "ldesdecode key txt mode = lua_bind (des_key key) (\<lambda>ESK.
     let SK = des_reverse_keys ESK; textsz = int (length txt) in
     if length txt mod 8 \<noteq> 0 \<or> length txt = 0 then Err (''Invalid des crypt text length '' @ show_int (long_to_int textsz))
     else if textsz \<ge> 2 ^ 31 then Undef
     else
       let padding_mode = opt_padding_mode mode; buffer = fst (des_loop SK textsz 0 txt)
       in lua_bind (remove_padding (rev buffer) padding_mode) (\<lambda>padding.
            if padding \<le> 0 \<or> padding > 8 then Err ''Invalid des crypt text''
            else push_buffer buffer (textsz - padding)))"

subsection \<open>Decryption inverts encryption\<close>

lemma swapmove_invol:
  assumes "drop_bit n (push_bit n m) = m"
  shows "swapmove n m (swapmove n m XY) = XY"
proof -
  obtain A B where XY: "XY = (A, B)" by (cases XY)
  define T where "T = (drop_bit n A XOR B) AND m"
  have hi: "n + k < 32" if "bit m k" for k
    using that bit_drop_push [of n m k] assms by simp
  have "bit T k \<Longrightarrow> bit m k" for k by (simp add: T_def bit_and_iff)
  then have dp: "drop_bit n (push_bit n T) = T"
    by (intro bit_word_eqI) (use hi in \<open>auto simp: bit_drop_push\<close>)
  have "drop_bit n (A XOR push_bit n T) XOR (B XOR T) = drop_bit n A XOR B"
    by (rule bit_word_eqI) (simp add: bit_xor_iff drop_bit_xor dp, blast)
  then have T2: "(drop_bit n (A XOR push_bit n T) XOR (B XOR T)) AND m = T" by (simp only: T_def)
  have "swapmove n m (A, B) = (A XOR push_bit n T, B XOR T)" by (simp only: swapmove_def T_def Let_def prod.case)
  moreover have "swapmove n m (A XOR push_bit n T, B XOR T) = (A, B)"
    unfolding swapmove_def Let_def prod.case T2 by (simp add: xor.assoc)
  ultimately show ?thesis by (simp only: XY)
qed

lemma swapmove_masks [simp]:
  "swapmove 4 0x0F0F0F0F (swapmove 4 0x0F0F0F0F XY) = XY" "swapmove 16 0x0000FFFF (swapmove 16 0x0000FFFF XY) = XY"
  "swapmove 2 0x33333333 (swapmove 2 0x33333333 XY) = XY" "swapmove 8 0x00FF00FF (swapmove 8 0x00FF00FF XY) = XY"
  "swapmove 0 0xAAAAAAAA (swapmove 0 0xAAAAAAAA XY) = XY"
  by (rule swapmove_invol; simp)+

lemma rol_ror [simp]: "ror1 (rol1 x) = x" "rol1 (ror1 x) = x"
  using rotl_shifts [of 1] rotr_shifts [of 1] by (simp_all add: rol1_def ror1_def)

text \<open>Both permutations as compositions.\<close>

lemma DES_IP_comp: "DES_IP = map_prod rol1 (\<lambda>y. y) \<circ> swapmove 0 0xAAAAAAAA \<circ> map_prod (\<lambda>x. x) rol1 \<circ>
    prod.swap \<circ> swapmove 8 0x00FF00FF \<circ> swapmove 2 0x33333333 \<circ> prod.swap \<circ> swapmove 16 0x0000FFFF \<circ> swapmove 4 0x0F0F0F0F"
  by (auto simp: fun_eq_iff DES_IP_def Let_def split_def prod.swap_def map_prod_def)

lemma DES_FP_comp: "DES_FP = swapmove 4 0x0F0F0F0F \<circ> swapmove 16 0x0000FFFF \<circ> prod.swap \<circ> swapmove 2 0x33333333 \<circ>
    swapmove 8 0x00FF00FF \<circ> prod.swap \<circ> map_prod (\<lambda>x. x) ror1 \<circ> swapmove 0 0xAAAAAAAA \<circ> map_prod ror1 (\<lambda>y. y)"
  by (auto simp: fun_eq_iff DES_FP_def Let_def split_def prod.swap_def map_prod_def)

lemma map_prod_rol_ror [simp]:
  "map_prod (\<lambda>x. x) ror1 (map_prod (\<lambda>x. x) rol1 p) = p" "map_prod ror1 (\<lambda>y. y) (map_prod rol1 (\<lambda>y. y) p) = p"
  "map_prod (\<lambda>x. x) rol1 (map_prod (\<lambda>x. x) ror1 p) = p" "map_prod rol1 (\<lambda>y. y) (map_prod ror1 (\<lambda>y. y) p) = p"
  by (cases p; simp)+

lemma FP_IP [simp]: "DES_FP (DES_IP XY) = XY"
  by (simp add: DES_IP_comp DES_FP_comp)

lemma IP_FP [simp]: "DES_IP (DES_FP XY) = XY"
  by (simp add: DES_IP_comp DES_FP_comp)

lemma word_of_bytes:
  fixes x :: u32
  shows "(push_bit 24 (ucast (ucast (drop_bit 24 x) :: u8)) OR push_bit 16 (ucast (ucast (drop_bit 16 x) :: u8)) OR
     push_bit 8 (ucast (ucast (drop_bit 8 x) :: u8)) OR ucast (ucast x :: u8) :: u32) = x"
proof (rule bit_word_eqI)
  fix k assume k: "k < LENGTH(32)"
  consider "k < 8" | "8 \<le> k" "k < 16" | "16 \<le> k" "k < 24" | "24 \<le> k" by linarith
  then show "bit (push_bit 24 (ucast (ucast (drop_bit 24 x) :: u8)) OR push_bit 16 (ucast (ucast (drop_bit 16 x) :: u8)) OR
     push_bit 8 (ucast (ucast (drop_bit 8 x) :: u8)) OR ucast (ucast x :: u8) :: u32) k = bit x k"
    using k by cases (auto simp: bit_simps)
qed

lemma GET_PUT [simp]: "GET_UINT32 (PUT_UINT32 x @ r) 0 = x" "GET_UINT32 (PUT_UINT32 y @ PUT_UINT32 x @ r) 4 = x"
  using word_of_bytes [of x] by (simp_all add: GET_UINT32_def PUT_UINT32_def)

lemma PUT_GET_bytes:
  fixes a b c d :: u8
  defines "w \<equiv> push_bit 24 (ucast a) OR push_bit 16 (ucast b) OR push_bit 8 (ucast c) OR ucast d :: u32"
  shows "PUT_UINT32 w = [a, b, c, d]"
proof -
  have "\<not> bit x (8 + n)" "\<not> bit x (16 + n)" "\<not> bit x (24 + n)" for x :: u8 and n
    using bit_imp_le_length [of x] by fastforce+
  then show ?thesis unfolding PUT_UINT32_def w_def by (auto intro!: bit_word_eqI simp: bit_simps)
qed

lemma PUT_GET:
  assumes "length bs = 8"
  shows "PUT_UINT32 (GET_UINT32 bs 0) @ PUT_UINT32 (GET_UINT32 bs 4) = bs"
proof -
  obtain a b c d e f g h where "bs = [a, b, c, d, e, f, g, h]"
    using assms by (auto simp: length_Suc_conv numeral_eq_Suc)
  then show ?thesis by (simp add: GET_UINT32_def PUT_GET_bytes)
qed

text \<open>Undoing two rounds at a time.\<close>

lemma des_rounds_append:
  "length K mod 4 = 0 \<Longrightarrow> des_rounds (K @ K') XY = des_rounds K' (des_rounds K XY)"
proof (induction K XY rule: des_rounds.induct)
  case (1 k1 k2 k3 k4 SK X Y)
  then show ?case by (simp add: Let_def)
qed auto

text \<open>The keys in the order of decryption, pair by pair.\<close>

fun rev_pairs :: "'a list \<Rightarrow> 'a list" where
  "rev_pairs (a # b # xs) = rev_pairs xs @ [a, b]"
| "rev_pairs _ = []"

lemma mod_4_step: "(n + 4) mod 4 = 0 \<Longrightarrow> n mod 4 = 0 \<and> n mod 2 = 0" for n :: nat
  by presburger

lemma length_rev_pairs: "length xs mod 2 = 0 \<Longrightarrow> length (rev_pairs xs) = length xs"
  by (induction xs rule: rev_pairs.induct) auto

lemma length_Cons_4: "length (a # b # c # d # xs) = length xs + 4"
  by simp

text \<open>Decrypting runs with the halves exchanged.\<close>

lemma des_rounds_rev:
  "length K mod 4 = 0 \<Longrightarrow> des_rounds (rev_pairs K) (prod.swap (des_rounds K XY)) = prod.swap XY"
proof (induction K XY rule: des_rounds.induct)
  case (1 k1 k2 k3 k4 SK X Y)
  have len: "length (rev_pairs SK) mod 4 = 0"
  proof -
    have "(length SK + 4) mod 4 = 0" using "1.prems" by (metis length_Cons_4)
    then have "length SK mod 4 = 0 \<and> length SK mod 2 = 0" by (rule mod_4_step)
    then show ?thesis using length_rev_pairs [of SK] by metis
  qed
  define X1 where "X1 = X XOR DES_ROUND k1 k2 Y"
  define Y1 where "Y1 = Y XOR DES_ROUND k3 k4 X1"
  have fwd: "des_rounds (k1 # k2 # k3 # k4 # SK) (X, Y) = des_rounds SK (X1, Y1)" by (simp add: Let_def X1_def Y1_def)
  have rv: "rev_pairs (k1 # k2 # k3 # k4 # SK) = rev_pairs SK @ [k3, k4, k1, k2]" by simp
  have "des_rounds (rev_pairs (k1 # k2 # k3 # k4 # SK)) (prod.swap (des_rounds (k1 # k2 # k3 # k4 # SK) (X, Y))) =
      des_rounds [k3, k4, k1, k2] (des_rounds (rev_pairs SK) (prod.swap (des_rounds SK (X1, Y1))))"
    unfolding fwd rv by (rule des_rounds_append [OF len])
  also have "\<dots> = des_rounds [k3, k4, k1, k2] (Y1, X1)"
    using "1.IH" [OF X1_def Y1_def] "1.prems" by simp
  also have "\<dots> = (Y, X)" by (simp add: X1_def Y1_def Let_def xor.assoc)
  finally show ?case by simp
qed auto

lemma des_subkeys_length: "length (des_subkeys i n X Y) = 2 * n"
  by (induction n arbitrary: i X Y) (auto simp: Let_def)

lemma des_main_ks_length: "length (des_main_ks key) = 32"
  by (simp add: des_main_ks_def des_subkeys_length split: prod.split)

lemma des_reverse_keys_pairs: "length SK = 32 \<Longrightarrow> des_reverse_keys SK = rev_pairs SK"
proof -
  assume "length SK = 32"
  then have "rev_pairs SK = rev_pairs (map (nth SK) [0..<32])" by (metis map_nth)
  also have "\<dots> = des_reverse_keys SK" by (simp add: des_reverse_keys_def upt_rec eval_nat_numeral)
  finally show ?thesis by simp
qed

lemma des_crypt_length [simp]: "length (des_crypt SK b) = 8"
  by (simp add: des_crypt_def PUT_UINT32_def split: prod.split)

lemma des_crypt_inverse:
  assumes "length SK = 32" "length b = 8"
  shows "des_crypt (des_reverse_keys SK) (des_crypt SK b) = b"
proof -
  obtain l r where lr: "DES_IP (GET_UINT32 b 0, GET_UINT32 b 4) = (l, r)" by force
  obtain x y where xy: "des_rounds SK (l, r) = (x, y)" by force
  obtain p q where pq: "DES_FP (y, x) = (p, q)" by force
  have C: "des_crypt SK b = PUT_UINT32 p @ PUT_UINT32 q" by (simp add: des_crypt_def lr xy pq)
  have "DES_IP (p, q) = (y, x)" using IP_FP [of "(y, x)"] pq by simp
  moreover have "des_rounds (des_reverse_keys SK) (y, x) = (r, l)"
    using des_rounds_rev [of SK "(l, r)"] assms(1) xy by (simp add: des_reverse_keys_pairs)
  moreover have "DES_FP (l, r) = (GET_UINT32 b 0, GET_UINT32 b 4)" using FP_IP lr by metis
  moreover have "GET_UINT32 (des_crypt SK b) 0 = p" "GET_UINT32 (des_crypt SK b) 4 = q"
    using GET_PUT(1) [of p "PUT_UINT32 q"] GET_PUT(2) [of p q "[]"] by (simp_all add: C)
  ultimately show ?thesis using PUT_GET [OF assms(2)] by (simp add: des_crypt_def [of "des_reverse_keys SK"])
qed

subsection \<open>Padding and whole texts\<close>

lemma iso7816_4_loop_pad: "k < n \<Longrightarrow> iso7816_4_loop n (replicate k 0 @ 0x80 # r) p = Ret (p + int k)"
proof (induction k arbitrary: n p)
  case 0
  then show ?case by (cases n) auto
next
  case (Suc k)
  then show ?case by (cases n) auto
qed

lemma pkcs7_loop_pad: "n \<le> m \<Longrightarrow> uint x = p \<Longrightarrow> pkcs7_loop n (replicate m x @ r) p = Ret p"
proof (induction n arbitrary: m)
  case (Suc n)
  then show ?case by (cases m) auto
qed simp

lemma padding_remove_iso7816_4_add:
  assumes "length rest < 8"
  shows "padding_remove_iso7816_4 (rev (pre @ padding_add_iso7816_4 rest)) = Ret (8 - int (length rest))"
  using assms iso7816_4_loop_pad [of "7 - length rest" 8 "rev rest @ rev pre" 1]
  by (simp add: padding_remove_iso7816_4_def padding_add_iso7816_4_def)

lemma padding_remove_pkcs7_add:
  assumes "length rest < 8"
  shows "padding_remove_pkcs7 (rev (pre @ padding_add_pkcs7 rest)) = Ret (8 - int (length rest))"
proof -
  obtain k where k: "8 - length rest = Suc k" using assms by (metis Suc_diff_Suc)
  then have lt: "Suc k < 2 ^ 8" by simp
  then have u: "uint (of_nat (Suc k) :: u8) = int (Suc k)" "unat (of_nat (Suc k) :: u8) = Suc k"
    by (simp_all add: take_bit_nat_eq_self unat_of_nat uint_nat del: of_nat_Suc)
  have "int (Suc k) = 8 - int (length rest)" using k by linarith
  then show ?thesis
    using pkcs7_loop_pad [OF order_refl u(1), of k "rev rest @ rev pre"]
    unfolding padding_add_pkcs7_def padding_remove_pkcs7_def k rev_append rev_replicate
    by (simp add: u del: of_nat_Suc)
qed

lemma remove_add_padding:
  assumes "length rest < 8" "mode \<in> {0, 1}"
  obtains b where "add_padding rest (int (length rest)) mode = Ret b" "length b = 8" "take (length rest) b = rest"
    "\<And>pre. remove_padding (rev (pre @ b)) mode = Ret (8 - int (length rest))"
proof
  let ?b = "if mode = 0 then padding_add_iso7816_4 rest else padding_add_pkcs7 rest"
  show "add_padding rest (int (length rest)) mode = Ret ?b" using assms
    by (auto simp: add_padding_def check_padding_mode_def PADDING_MODE_ISO7816_4_def PADDING_MODE_COUNT_def)
  show "length ?b = 8" "take (length rest) ?b = rest"
    using assms(1) by (simp_all add: padding_add_iso7816_4_def padding_add_pkcs7_def)
  show "remove_padding (rev (pre @ ?b)) mode = Ret (8 - int (length rest))" for pre
    using assms padding_remove_iso7816_4_add [OF assms(1), of pre] padding_remove_pkcs7_add [OF assms(1), of pre]
    by (auto simp: remove_padding_def check_padding_mode_def PADDING_MODE_ISO7816_4_def PADDING_MODE_COUNT_def)
qed

text \<open>The whole blocks of a text, and what is left over: both loops.\<close>

function des_chunks :: "u32 list \<Rightarrow> u8 list \<Rightarrow> u8 list \<times> u8 list" where
  "des_chunks SK txt =
     (if length txt \<ge> 8 then let (out, rest) = des_chunks SK (drop 8 txt) in (des_crypt SK (take 8 txt) @ out, rest)
      else ([], txt))"
  by pat_completeness auto
termination by (relation "measure (\<lambda>(SK, txt). length txt)") auto

declare des_chunks.simps [simp del]

lemma des_loop_chunks:
  "lim = i + int (length txt) - 7 \<or> lim = i + int (length txt) \<and> length txt mod 8 = 0 \<Longrightarrow>
   des_loop SK lim i txt = des_chunks SK txt"
proof (induction SK lim i "txt" rule: des_loop.induct)
  case (1 SK lim i t)
  have "i < lim \<longleftrightarrow> length t \<ge> 8" using "1.prems" by (cases "length t < 8") auto
  then show ?case using 1
    by (cases "i < lim") (auto simp: des_loop.simps [of SK lim i t] des_chunks.simps [of SK t] le_mod_geq)
qed

lemma des_chunks_block: "length b = 8 \<Longrightarrow> des_chunks SK (b @ z) = (let (out, rest) = des_chunks SK z in (des_crypt SK b @ out, rest))"
  by (simp add: des_chunks.simps [of SK "b @ z"])

lemma des_chunks_nil [simp]: "des_chunks SK [] = ([], [])"
  by (simp add: des_chunks.simps)

lemma des_chunks_inverse:
  assumes "length SK = 32" "des_chunks SK txt = (out, rest)"
  shows "\<exists>pre. txt = pre @ rest \<and> length rest < 8 \<and> length out = length pre \<and> length out mod 8 = 0 \<and>
    (\<forall>z. fst (des_chunks (des_reverse_keys SK) (out @ z)) = pre @ fst (des_chunks (des_reverse_keys SK) z))"
  using assms
proof (induction SK "txt" arbitrary: out rest rule: des_chunks.induct)
  case (1 SK msg)
  show ?case
  proof (cases "length msg \<ge> 8")
    case True
    obtain out' where out': "des_chunks SK (drop 8 msg) = (out', rest)" "out = des_crypt SK (take 8 msg) @ out'"
      using "1.prems"(2) True by (auto simp: des_chunks.simps [of SK msg] split: prod.splits)
    obtain pre where "drop 8 msg = pre @ rest" "length rest < 8" "length out' = length pre" "length out' mod 8 = 0"
        "\<forall>z. fst (des_chunks (des_reverse_keys SK) (out' @ z)) = pre @ fst (des_chunks (des_reverse_keys SK) z)"
      using "1.IH" [OF True "1.prems"(1) out'(1)] by (elim exE conjE) (rule that)
    note pre = this
    have "msg = (take 8 msg @ pre) @ rest" using pre(1) by (metis append.assoc append_take_drop_id)
    moreover have "fst (des_chunks (des_reverse_keys SK) (out @ z)) =
        (take 8 msg @ pre) @ fst (des_chunks (des_reverse_keys SK) z)" for z
      using des_crypt_inverse [OF "1.prems"(1), of "take 8 msg"] True pre(5)
      by (simp add: out'(2) des_chunks_block split_def)
    moreover have "length out mod 8 = 0" using pre(4) out'(2) by simp
    ultimately show ?thesis using pre(2,3) out'(2) True by (intro exI [of _ "take 8 msg @ pre"]) simp
  next
    case False
    with "1.prems"(2) show ?thesis by (intro exI [of _ "[]"]) (auto simp: des_chunks.simps [of SK msg])
  qed
qed

text \<open>C15: decrypting what desencode produced with the same key and padding mode gives back the text, for every
  key of eight bytes, every text shorter than 2 GiB less eight bytes and both padding modes (the default one
  included).\<close>

theorem desdecode_desencode:
  assumes "length key = 8" "mode \<in> {None, Some 0, Some 1}" "length txt + 8 < 2 ^ 31"
  shows "lua_bind (ldesencode key txt mode) (\<lambda>c. ldesdecode key c mode) = Ret txt"
proof -
  let ?SK = "des_main_ks key"
  define m where "m = opt_padding_mode mode"
  have m: "m \<in> {0, 1}" using assms(2) by (auto simp: m_def opt_padding_mode_def PADDING_MODE_ISO7816_4_def long_to_int_id)
  obtain out rest where c: "des_chunks ?SK txt = (out, rest)" by force
  obtain pre where pre: "txt = pre @ rest" "length rest < 8" "length out = length pre" "length out mod 8 = 0"
      "\<forall>z. fst (des_chunks (des_reverse_keys ?SK) (out @ z)) = pre @ fst (des_chunks (des_reverse_keys ?SK) z)"
    using des_chunks_inverse [OF des_main_ks_length c] by (elim exE conjE) (rule that)
  obtain b where b: "add_padding rest (int (length rest)) m = Ret b" "length b = 8" "take (length rest) b = rest"
      "\<And>pre. remove_padding (rev (pre @ b)) m = Ret (8 - int (length rest))"
    using remove_add_padding [OF pre(2) m] by blast
  let ?c = "out @ des_crypt ?SK b"
  have len: "length ?c = length pre + 8" "length ?c mod 8 = 0" using pre(3,4) by simp_all
  obtain k where "length pre = 8 * k" using pre(3,4) by auto
  moreover have "(8 * K + r + 8) div 8 * 8 = 8 * K + 8" if "0 \<le> r" "r < 8" for K r :: int using that by presburger
  ultimately have sz: "(int (length txt) + 8) div 8 * 8 = int (length ?c)"
    using pre(1,2) by (simp add: len(1) del: length_append) simp
  have "des_loop ?SK (int (length txt) - 7) 0 txt = (out, rest)" using c by (subst des_loop_chunks) simp_all
  moreover have "long_to_int (int (length txt)) = int (length txt)" "long_to_int (int (length rest)) = int (length rest)"
    using assms(3) pre(2) by (simp_all add: long_to_int_id)
  ultimately have enc: "ldesencode key txt mode = Ret ?c"
    using assms(1) b(1) push_buffer_all [of ?c] by (simp add: ldesencode_def des_key_def Let_def sz flip: m_def)
  have "fst (des_chunks (des_reverse_keys ?SK) ?c) = pre @ b"
    using des_chunks_block [of "des_crypt ?SK b" "des_reverse_keys ?SK" "[]"] b(2)
    by (simp add: pre(5) des_crypt_inverse des_main_ks_length)
  then have dec: "fst (des_loop (des_reverse_keys ?SK) (int (length pre) + 8) 0 ?c) = pre @ b"
    using len by (subst des_loop_chunks) simp_all
  have "take (length pre + length rest) (pre @ b) = txt" using pre(1,2) b(3) by simp
  moreover have "nat (int (length pre) + 8 - (8 - int (length rest))) = length pre + length rest" "int (length ?c) < 2 ^ 31"
    using len(1) assms(3) pre(1) by simp_all
  ultimately have "ldesdecode key ?c mode = Ret txt"
    using assms(1) b(2) b(4) [of pre] pre(2) len
    by (simp add: ldesdecode_def des_key_def Let_def dec push_buffer_def flip: m_def)
  with enc show ?thesis by simp
qed

theorem desdecode_desencode_witness:
  "lua_bind (ldesencode (replicate 8 1) (replicate 3 7) (Some 1)) (\<lambda>c. ldesdecode (replicate 8 1) c (Some 1)) = Ret (replicate 3 7)"
  by (rule desdecode_desencode) simp_all

text \<open>Removing PKCS7 padding never looks at how long the buffer is: it reads in front of a buffer of one block
  exactly when all its bytes are equal and larger than eight, before the length check of ldesdecode rejects the
  count.\<close>

lemma padding_remove_pkcs7_overread:
  assumes "length r = 8"
  shows "padding_remove_pkcs7 r = Undef \<longleftrightarrow> (\<exists>x. unat x > 8 \<and> r = replicate 8 x)"
proof -
  have loop: "pkcs7_loop n r p = Undef \<longleftrightarrow> length r < n \<and> (\<forall>x\<in>set r. uint x = p)" for n r p
    by (induction n r p rule: pkcs7_loop.induct) auto
  obtain x r' where r: "r = x # r'" "length r' = 7" using assms by (cases r) auto
  have "padding_remove_pkcs7 r = Undef \<longleftrightarrow> unat x > 8 \<and> (\<forall>y\<in>set r'. y = x)"
    using r by (auto simp: padding_remove_pkcs7_def loop word_uint_eq_iff)
  also have "\<dots> \<longleftrightarrow> (\<exists>x. unat x > 8 \<and> r = replicate 8 x)"
    using r replicate_length_same [of r' x] by (auto simp: numeral_eq_Suc)
  finally show ?thesis .
qed

lemma padding_remove_pkcs7_overread_witness: "padding_remove_pkcs7 (replicate 8 9) = Undef"
  by (subst padding_remove_pkcs7_overread) (simp, rule exI [of _ 9], simp)

end
