(* ===== verification/Crypt_Codec.thy ===== *)
theory Crypt_Codec
  imports Lua_Call
begin

unbundle bit_operations_syntax

text \<open>
  The text encodings of \<^verbatim>\<open>009_skynet_demo/skynet/lualib-src/lua-crypt.c\<close>: \<open>hexencode\<close>/\<open>hexdecode\<close>,
  \<open>base64encode\<close>/\<open>base64decode\<close>, \<open>xor_str\<close> and \<open>randomkey\<close>.  The loops over a text are recursions over
  the list of its bytes; \<open>char\<close> is signed, so a byte above 127 is below every digit.  Sizes are \<open>size_t\<close>, the
  indices and the sizes of the buffers are \<open>int\<close>: an index that runs over, a write behind the buffer and the
  unwritten part of a buffer are \<open>Undef\<close>.
\<close>

subsection \<open>Hexadecimal\<close>

definition hex :: "u8 list" where "hex = bytes_of ''0123456789abcdef''"

text \<open>The index \<open>i * 2 + 1\<close> has to be an \<open>int\<close>.\<close>

fun tohex_loop :: "u8 list \<Rightarrow> u8 list" where
  "tohex_loop [] = []"
| "tohex_loop (x # t) = hex ! unat (drop_bit 4 x) # hex ! unat (x AND 0xf) # tohex_loop t"

definition ltohex :: "u8 list \<Rightarrow> u8 list lua" where
  "ltohex t = (if length t > 2 ^ 30 then Undef else Ret (tohex_loop t))"

definition HEX :: "u8 \<Rightarrow> u8" where
  "HEX c = (if 48 \<le> sint c \<and> sint c \<le> 57 then c - 48 else c - 97 + 10)"

fun fromhex_loop :: "int \<Rightarrow> u8 list \<Rightarrow> u8 list lua" where
  "fromhex_loop i (x # y # t) =
     (let hi = HEX x; low = HEX y in
      if hi > 16 \<or> low > 16 then Err ''Invalid hex text''
      else if i + 2 \<ge> 2 ^ 31 then Undef
      else lua_bind (fromhex_loop (i + 2) t) (\<lambda>out. Ret ((push_bit 4 hi OR low) # out)))"
| "fromhex_loop i _ = Ret []"

definition lfromhex :: "u8 list \<Rightarrow> u8 list lua" where
  "lfromhex t = (if odd (length t) then Err (''Invalid hex text size '' @ show_int (long_to_int (int (length t))))
     else fromhex_loop 0 t)"

subsection \<open>Base64\<close>

definition encoding :: "u8 list" where
  "encoding = bytes_of ''ABCDEFGHIJKLMNOPQRSTUVWXYZabcdefghijklmnopqrstuvwxyz0123456789+/''"

abbreviation EQ_SIGN :: u8 where "EQ_SIGN \<equiv> 61"

text \<open>The groups of three from index \<open>i\<close> on, as long as \<open>i < (int)sz - 2\<close>: the characters written, and what is left
  of the text.\<close>

fun b64_groups :: "int \<Rightarrow> int \<Rightarrow> u8 list \<Rightarrow> u8 list \<times> u8 list" where
  "b64_groups lim i (x # y # z # t) =
     (if i < lim then
        let v = (push_bit 16 (ucast x) OR push_bit 8 (ucast y) OR ucast z :: u32);
            (out, r) = b64_groups lim (i + 3) t in
        (encoding ! unat (drop_bit 18 v) # encoding ! unat (drop_bit 12 v AND 0x3f) #
         encoding ! unat (drop_bit 6 v AND 0x3f) # encoding ! unat (v AND 0x3f) # out, r)
      else ([], x # y # z # t))"
| "b64_groups lim i t = ([], t)"

text \<open>The last characters; \<open>r\<close> is the text from \<open>i\<close> on.\<close>

definition b64_padding :: "int \<Rightarrow> u8 list \<Rightarrow> u8 list" where
  "b64_padding padding r =
     (if padding = 1 then
        let v = (ucast (r ! 0) :: u32) in
        [encoding ! unat (drop_bit 2 v), encoding ! unat (push_bit 4 (v AND 3)), EQ_SIGN, EQ_SIGN]
      else if padding = 2 then
        let v = (push_bit 8 (ucast (r ! 0)) OR ucast (r ! 1) :: u32) in
        [encoding ! unat (drop_bit 10 v), encoding ! unat (drop_bit 4 v AND 0x3f),
         encoding ! unat (push_bit 2 (v AND 0xf)), EQ_SIGN]
      else [])"

definition lb64encode :: "u8 list \<Rightarrow> u8 list lua" where
  "lb64encode txt = (let sz = int (length txt); encode_sz = long_to_int ((sz + 2) div 3 * 4) in
     if long_to_int sz - 2 < - (2 ^ 31) then Undef
     else let (out, r) = b64_groups (long_to_int sz - 2) 0 txt; out = out @ b64_padding (long_to_int (int (length r))) r in
       if int (length out) > buffer_size encode_sz then Undef else push_buffer out encode_sz)"

definition decoding :: "int list" where
  "decoding = [62,-1,-1,-1,63,52,53,54,55,56,57,58,59,60,61,-1,-1,-1,-2,-1,-1,-1,0,1,2,3,4,5,6,7,8,9,10,11,12,13,
     14,15,16,17,18,19,20,21,22,23,24,25,-1,-1,-1,-1,-1,-1,26,27,28,29,30,31,32,33,34,35,36,37,38,39,40,41,42,43,
     44,45,46,47,48,49,50,51]"

definition b64index :: "u8 \<Rightarrow> int" where
  "b64index c = (if c < 43 then -1
     else let c = c - 43 in if unat c \<ge> length decoding then -1 else decoding ! unat c)"

text \<open>The inner loop over \<open>j\<close>: fills \<open>c[j]\<close> for the next \<open>n\<close> indices, skipping the characters outside the
  alphabet; behind the end of the text it fills in \<open>-2\<close>, the value of an equal sign.\<close>

fun b64_quad :: "nat \<Rightarrow> u8 list \<Rightarrow> int list \<times> u8 list" where
  "b64_quad 0 t = ([], t)"
| "b64_quad (Suc n) [] = (let (c, t) = b64_quad n [] in (-2 # c, t))"
| "b64_quad (Suc n) (x # t) =
     (if b64index x = -1 then b64_quad (Suc n) t else let (c, t) = b64_quad n t in (b64index x # c, t))"

text \<open>How often the loop increments \<open>i\<close>.\<close>

fun b64_steps :: "nat \<Rightarrow> u8 list \<Rightarrow> nat" where
  "b64_steps 0 t = 0"
| "b64_steps (Suc n) [] = Suc (b64_steps n [])"
| "b64_steps (Suc n) (x # t) = Suc (b64_steps (if b64index x = -1 then Suc n else n) t)"

definition b64_bytes :: "int list \<Rightarrow> u8 list lua" where
  "b64_bytes c = (let padding = length (filter (\<lambda>i. i = -2) c); w = (\<lambda>i. word_of_int (c ! i) :: u32) in
     if padding = 0 then
       let v = push_bit 18 (w 0) OR push_bit 12 (w 1) OR push_bit 6 (w 2) OR w 3 in
       Ret [ucast (drop_bit 16 v), ucast (drop_bit 8 v AND 0xff), ucast (v AND 0xff)]
     else if padding = 1 then
       if c ! 3 \<noteq> -2 \<or> c ! 2 AND 3 \<noteq> 0 then Err ''Invalid base64 text''
       else let v = push_bit 10 (w 0) OR push_bit 4 (w 1) OR drop_bit 2 (w 2) in
         Ret [ucast (drop_bit 8 v), ucast (v AND 0xff)]
     else if padding = 2 then
       if c ! 3 \<noteq> -2 \<or> c ! 2 \<noteq> -2 \<or> c ! 1 AND 0xf \<noteq> 0 then Err ''Invalid base64 text''
       else let v = push_bit 2 (w 0) OR drop_bit 4 (w 1) in Ret [ucast v]
     else Err ''Invalid base64 text'')"

lemma b64_quad_length: "length (snd (b64_quad n t)) \<le> length t"
  by (induction n t rule: b64_quad.induct) (auto simp: split_def Let_def)

lemma b64_quad_shorter: "0 < n \<Longrightarrow> t \<noteq> [] \<Longrightarrow> length (snd (b64_quad n t)) < length t"
proof (induction n t rule: b64_quad.induct)
  case (3 n x t)
  then show ?case using b64_quad_length [of n t] b64_quad_length [of "Suc n" t] by (auto simp: split_def Let_def)
qed auto

text \<open>The outer loop, from index \<open>i\<close> on, with \<open>output\<close> bytes in a buffer of \<open>cap\<close> bytes.\<close>

function b64decode_loop :: "int \<Rightarrow> int \<Rightarrow> int \<Rightarrow> u8 list \<Rightarrow> u8 list lua" where
  "b64decode_loop cap i output t =
     (if t = [] then Ret []
      else let (c, r) = b64_quad 4 t; i = i + int (b64_steps 4 t) in
        if i \<ge> 2 ^ 31 then Undef
        else lua_bind (b64_bytes c) (\<lambda>out. let output = output + int (length out) in
          if output > cap then Undef
          else lua_bind (b64decode_loop cap i output r) (\<lambda>rest. Ret (out @ rest))))"
  by pat_completeness auto
termination by (relation "measure (\<lambda>(cap, i, output, t). length t)") (auto dest!: sym [of _ "b64_quad _ _"] simp: b64_quad_shorter prod_eq_iff)

declare b64decode_loop.simps [simp del]

definition lb64decode :: "u8 list \<Rightarrow> u8 list lua" where
  "lb64decode t = (let decode_sz = long_to_int ((int (length t) + 3) div 4 * 3) in
     b64decode_loop (buffer_size decode_sz) 0 0 t)"

subsection \<open>Exclusive or, random keys\<close>

definition lxor_str :: "u8 list \<Rightarrow> u8 list \<Rightarrow> u8 list lua" where
  "lxor_str s1 s2 = (if s2 = [] then Err (''Can'' @ [CHR 0x27] @ ''t xor empty string'')
     else if length s1 \<ge> 2 ^ 31 then Undef else Ret (map (\<lambda>i. s1 ! i XOR s2 ! (i mod length s2)) [0..<length s1]))"

text \<open>\<open>rs\<close> are the values of the eight calls of \<open>random\<close>.\<close>

definition lrandomkey :: "u64 list \<Rightarrow> u8 list" where
  "lrandomkey rs = (let tmp = map (\<lambda>r. ucast (r AND 0xff)) (take 8 rs); x = foldl (XOR) 0 tmp in
     if x = 0 then tmp[0 := tmp ! 0 OR 1] else tmp)"

subsection \<open>Properties\<close>

lemma encoding_length [simp]: "length encoding = 64" and hex_length [simp]: "length hex = 16"
  by (simp_all add: encoding_def hex_def bytes_of_def)

lemma nat_less_64: "i < 64 \<Longrightarrow> i \<in> set [0..<64]" for i :: nat
  by simp

lemma b64index_encoding: "i < 64 \<Longrightarrow> b64index (encoding ! i) = int i"
proof -
  have "\<forall>i\<in>set [0..<64]. b64index (encoding ! i) = int i" by code_simp
  then show "i < 64 \<Longrightarrow> b64index (encoding ! i) = int i" using nat_less_64 by blast
qed

lemma b64index_eq [simp]: "b64index EQ_SIGN = -2"
  by code_simp

lemma HEX_hex: "i < 16 \<Longrightarrow> HEX (hex ! i) = of_nat i"
proof -
  have "\<forall>i\<in>set [0..<16]. HEX (hex ! i) = of_nat i" by code_simp
  then show "i < 16 \<Longrightarrow> HEX (hex ! i) = of_nat i" by simp
qed

text \<open>The halves of a byte.\<close>

lemma nibble_bounds: "unat (drop_bit 4 x) < 16" "unat (x AND 0xf) < 16" for x :: u8
proof -
  have "unat x < 256" using unsigned_less [of x] by simp
  then show "unat (drop_bit 4 x) < 16" by (simp add: drop_bit_eq_div unat_div)
  have "x AND 0xf \<le> 0xf" by (rule word_and_le1)
  then show "unat (x AND 0xf) < 16" by (simp add: word_le_nat_alt)
qed

lemma concat_bit_halves: "push_bit n (drop_bit n x) OR take_bit n x = (x :: 'a::len word)"
  by (rule bit_word_eqI) (auto simp: bit_simps)

lemma nibbles: "push_bit 4 (drop_bit 4 x) OR (x AND 0xf) = x" for x :: u8
proof -
  have "x AND 0xf = take_bit 4 x" by (simp add: take_bit_eq_mask mask_eq_exp_minus_1)
  then show ?thesis by (simp add: concat_bit_halves)
qed

text \<open>hexdecode undoes hexencode on every byte string below 1 GiB.\<close>

theorem fromhex_tohex:
  assumes "length t < 2 ^ 30"
  shows "lua_bind (ltohex t) lfromhex = Ret t"
proof -
  have "even (length (tohex_loop t))" by (induction t) auto
  moreover have "i + 2 * int (length t) < 2 ^ 31 \<Longrightarrow> fromhex_loop i (tohex_loop t) = Ret t" for i
    using nibble_bounds by (induction t arbitrary: i) (simp_all add: HEX_hex nibbles Let_def not_less word_le_nat_alt less_imp_le)
  ultimately show ?thesis using assms by (simp add: lfromhex_def ltohex_def)
qed

text \<open>The characters hexdecode takes for digits: besides the hexadecimal ones, the letters \<open>W\<close> to \<open>Z\<close>, the five
  characters \<open>[\<close>, \<open>\\<close>, \<open>]\<close>, \<open>^\<close>, \<open>_\<close>, the back quote and the letter \<open>g\<close>; upper case digits are refused.\<close>

definition hexdecode_accepts :: "u8 \<Rightarrow> bool" where
  "hexdecode_accepts c = (48 \<le> c \<and> c \<le> 57 \<or> 87 \<le> c \<and> c \<le> 103)"

lemma signed_byte: "0 \<le> u \<Longrightarrow> u < 256 \<Longrightarrow> signed_take_bit 7 u = (if u < 128 then u else u - 256)" for u :: int
proof (cases "u < 128")
  case False
  assume "0 \<le> u" "u < 256"
  with False have "signed_take_bit 7 (u - 256) = u - 256" by (intro signed_take_bit_int_eq_self) auto
  moreover have "signed_take_bit 7 (u - 256) = signed_take_bit 7 u"
    by (simp add: signed_take_bit_eq_iff_take_bit_eq take_bit_eq_mod mod_diff_right_eq [symmetric, of u 256])
  ultimately show ?thesis using False by simp
qed (simp add: signed_take_bit_int_eq_self)

lemma HEX_accepts: "HEX c \<le> 16 \<longleftrightarrow> hexdecode_accepts c"
proof -
  have u: "unat c < 256" "int (unat c) = uint c" using unsigned_less [of c] by simp_all
  then have "uint c < 256" by linarith
  then have "sint c = (if uint c < 128 then uint c else uint c - 256)"
    using signed_byte [of "uint c"] unfolding sint_uint by simp
  then have "48 \<le> sint c \<and> sint c \<le> 57 \<longleftrightarrow> 48 \<le> uint c \<and> uint c \<le> 57" using \<open>uint c < 256\<close> by (simp split: if_split)
  also have "\<dots> \<longleftrightarrow> 48 \<le> unat c \<and> unat c \<le> 57" unfolding u(2) [symmetric] by linarith
  finally have d: "48 \<le> sint c \<and> sint c \<le> 57 \<longleftrightarrow> 48 \<le> unat c \<and> unat c \<le> 57" .
  have "unat (c - 97 + 10) = (if 87 \<le> unat c then unat c - 87 else unat c + 169)"
    using unat_sub_if_size [of c 87] u by (simp add: word_le_nat_alt word_size)
  moreover have "48 \<le> unat c \<Longrightarrow> unat (c - 48) = unat c - 48"
    using unat_sub_if_size [of c 48] by (simp add: word_le_nat_alt)
  ultimately show ?thesis unfolding HEX_def hexdecode_accepts_def d word_le_nat_alt
    using u by (cases "48 \<le> unat c \<and> unat c \<le> 57") auto
qed

lemma lfromhex_accepts:
  assumes "length t < 2 ^ 31"
  shows "(\<exists>out. lfromhex t = Ret out) \<longleftrightarrow> even (length t) \<and> list_all hexdecode_accepts t"
proof -
  have "even (length t) \<Longrightarrow> i + int (length t) < 2 ^ 31 \<Longrightarrow>
      (\<exists>out. fromhex_loop i t = Ret out) \<longleftrightarrow> list_all hexdecode_accepts t" for i
  proof (induction i t rule: fromhex_loop.induct)
    case (1 i x y t)
    then show ?case
      by (cases "fromhex_loop (i + 2) t") (auto simp: Let_def not_less simp flip: HEX_accepts)
  qed auto
  from this [of 0] show ?thesis using assms by (auto simp: lfromhex_def)
qed

lemma lfromhex_accepts_other: "lfromhex (bytes_of ''gW'') = Ret [0]"
  by code_simp

subsection \<open>Base64\<close>

lemma and_masks: "(w :: u32) AND 0x3f = take_bit 6 w" "w AND 0xff = take_bit 8 w" "w AND 0xf = take_bit 4 w" "w AND 3 = take_bit 2 w"
  by (simp_all add: take_bit_eq_mask mask_eq_exp_minus_1)

lemma b64index_word: "w < 64 \<Longrightarrow> b64index (encoding ! unat w) = uint w" for w :: u32
proof -
  assume "w < 64"
  then have "unat w < 64" by (simp add: word_less_nat_alt)
  then show ?thesis by (simp add: b64index_encoding)
qed

lemma uint_not_neg: "uint w \<noteq> -1" "uint w \<noteq> -2"
  using uint_ge_0 [of w] by linarith+

lemma b64_quad_word [simp]:
  "w < 64 \<Longrightarrow> b64_quad (Suc n) (encoding ! unat (w :: u32) # t) = (let (c, t) = b64_quad n t in (uint w # c, t))"
  by (simp add: b64index_word uint_not_neg)

lemma b64_quad_eq [simp]: "b64_quad (Suc n) (EQ_SIGN # t) = (let (c, t) = b64_quad n t in (-2 # c, t))"
  by simp

lemma take_bit_6_less [simp]: "take_bit 6 (w :: u32) < 64"
  using take_bit_nat_less_exp [of 6 "unat w"] by (simp add: word_less_nat_alt unsigned_take_bit_eq)

text \<open>The three groups of a text: the number made of their bytes, cut in sextets and put together again.\<close>

lemma group3:
  fixes x y z :: u8
  defines "v \<equiv> push_bit 16 (ucast x) OR push_bit 8 (ucast y) OR ucast z :: u32"
  shows "drop_bit 18 v < 64"
    "push_bit 18 (drop_bit 18 v) OR push_bit 12 (take_bit 6 (drop_bit 12 v)) OR push_bit 6 (take_bit 6 (drop_bit 6 v)) OR take_bit 6 v = v"
    "ucast (drop_bit 16 v) = x" "ucast (take_bit 8 (drop_bit 8 v)) = y" "ucast (take_bit 8 v) = z"
proof -
  have "take_bit 6 (drop_bit 18 v) = drop_bit 18 v"
    by (rule bit_word_eqI) (auto simp: v_def bit_simps dest: bit_imp_le_length)
  then show "drop_bit 18 v < 64" using take_bit_6_less by metis
  show "push_bit 18 (drop_bit 18 v) OR push_bit 12 (take_bit 6 (drop_bit 12 v)) OR push_bit 6 (take_bit 6 (drop_bit 6 v)) OR take_bit 6 v = v"
  proof (rule bit_word_eqI)
    fix n assume n: "n < LENGTH(32)"
    consider "n < 6" | "6 \<le> n" "n < 12" | "12 \<le> n" "n < 18" | "18 \<le> n" by linarith
    then show "bit (push_bit 18 (drop_bit 18 v) OR push_bit 12 (take_bit 6 (drop_bit 12 v)) OR
        push_bit 6 (take_bit 6 (drop_bit 6 v)) OR take_bit 6 v) n = bit v n"
      using n by cases (auto simp: bit_simps)
  qed
  show "ucast (drop_bit 16 v) = x" "ucast (take_bit 8 (drop_bit 8 v)) = y" "ucast (take_bit 8 v) = z"
    by (auto simp: v_def bit_simps word_high_bits intro!: bit_word_eqI)
qed

lemma group2:
  fixes x y :: u8
  defines "v \<equiv> push_bit 8 (ucast x) OR ucast y :: u32"
  shows "drop_bit 10 v < 64" "push_bit 2 (take_bit 4 v) < 64" "take_bit 2 (push_bit 2 (take_bit 4 v)) = 0"
    "push_bit 10 (drop_bit 10 v) OR push_bit 4 (take_bit 6 (drop_bit 4 v)) OR drop_bit 2 (push_bit 2 (take_bit 4 v)) = v"
    "ucast (drop_bit 8 v) = x" "ucast (take_bit 8 v) = y"
proof -
  have "take_bit 6 (drop_bit 10 v) = drop_bit 10 v" "take_bit 6 (push_bit 2 (take_bit 4 v)) = push_bit 2 (take_bit 4 v)"
    by (rule bit_word_eqI, auto simp: v_def bit_simps dest: bit_imp_le_length)+
  then show "drop_bit 10 v < 64" "push_bit 2 (take_bit 4 v) < 64" using take_bit_6_less by metis+
  show "push_bit 10 (drop_bit 10 v) OR push_bit 4 (take_bit 6 (drop_bit 4 v)) OR drop_bit 2 (push_bit 2 (take_bit 4 v)) = v"
  proof (rule bit_word_eqI)
    fix n assume n: "n < LENGTH(32)"
    consider "n < 4" | "4 \<le> n" "n < 10" | "10 \<le> n" by linarith
    then show "bit (push_bit 10 (drop_bit 10 v) OR push_bit 4 (take_bit 6 (drop_bit 4 v)) OR
        drop_bit 2 (push_bit 2 (take_bit 4 v))) n = bit v n"
      using n by cases (auto simp: bit_simps)
  qed
  show "take_bit 2 (push_bit 2 (take_bit 4 v)) = 0" by (rule bit_word_eqI) (auto simp: bit_simps)
  show "ucast (drop_bit 8 v) = x" "ucast (take_bit 8 v) = y"
    by (auto simp: v_def bit_simps word_high_bits intro!: bit_word_eqI)
qed

lemma group1:
  fixes x :: u8
  defines "v \<equiv> ucast x :: u32"
  shows "drop_bit 2 v < 64" "push_bit 4 (take_bit 2 v) < 64" "take_bit 4 (push_bit 4 (take_bit 2 v)) = 0"
    "push_bit 2 (drop_bit 2 v) OR drop_bit 4 (push_bit 4 (take_bit 2 v)) = v" "ucast v = x"
proof -
  have "take_bit 6 (drop_bit 2 v) = drop_bit 2 v" "take_bit 6 (push_bit 4 (take_bit 2 v)) = push_bit 4 (take_bit 2 v)"
    by (rule bit_word_eqI, auto simp: v_def bit_simps dest: bit_imp_le_length)+
  then show "drop_bit 2 v < 64" "push_bit 4 (take_bit 2 v) < 64" using take_bit_6_less by metis+
  show "push_bit 2 (drop_bit 2 v) OR drop_bit 4 (push_bit 4 (take_bit 2 v)) = v"
  proof (rule bit_word_eqI)
    fix n assume n: "n < LENGTH(32)"
    consider "n < 2" | m where "n = Suc (Suc m)" by (metis add_2_eq_Suc le_Suc_ex not_less)
    then show "bit (push_bit 2 (drop_bit 2 v) OR drop_bit 4 (push_bit 4 (take_bit 2 v))) n = bit v n"
      using n by cases (auto simp: bit_simps)
  qed
  show "take_bit 4 (push_bit 4 (take_bit 2 v)) = 0" by (rule bit_word_eqI) (auto simp: bit_simps)
  show "ucast v = x" by (rule bit_word_eqI) (auto simp: v_def bit_simps)
qed

lemma uint_and_low: "uint w AND 3 = uint (take_bit 2 w)" "uint w AND 0xf = uint (take_bit 4 w)" for w :: u32
proof -
  have "uint w AND 3 = take_bit 2 (uint w)" "uint w AND 0xf = take_bit 4 (uint w)"
    by (simp_all add: take_bit_eq_mask mask_eq_exp_minus_1)
  then show "uint w AND 3 = uint (take_bit 2 w)" "uint w AND 0xf = uint (take_bit 4 w)"
    by (simp_all add: unsigned_take_bit_eq)
qed

lemma uint_eq_0: "uint w = 0 \<longleftrightarrow> w = 0"
  by (simp add: word_uint_eq_iff)

lemma b64_bytes_word:
  "b64_bytes [uint w0, uint w1, uint w2, uint (w3 :: u32)] =
     (let v = push_bit 18 w0 OR push_bit 12 w1 OR push_bit 6 w2 OR w3 in
      Ret [ucast (drop_bit 16 v), ucast (take_bit 8 (drop_bit 8 v)), ucast (take_bit 8 v)])"
  "b64_bytes [uint w0, uint w1, uint w2, -2] =
     (if take_bit 2 w2 \<noteq> 0 then Err ''Invalid base64 text''
      else let v = push_bit 10 w0 OR push_bit 4 w1 OR drop_bit 2 w2 in Ret [ucast (drop_bit 8 v), ucast (take_bit 8 v)])"
  "b64_bytes [uint w0, uint w1, -2, -2] =
     (if take_bit 4 w1 \<noteq> 0 then Err ''Invalid base64 text''
      else let v = push_bit 2 w0 OR drop_bit 4 w1 in Ret [ucast v])"
  by (simp_all add: b64_bytes_def Let_def uint_not_neg uint_and_low uint_eq_0 and_masks numeral_2_eq_2 numeral_3_eq_3)

abbreviation enc :: "u32 \<Rightarrow> u8" where "enc w \<equiv> encoding ! unat w"

lemma nat_4: "(4 :: nat) = Suc (Suc (Suc (Suc 0)))"
  by simp

lemma b64_quads:
  assumes "w0 < 64" "w1 < 64"
  shows "w2 < 64 \<Longrightarrow> w3 < 64 \<Longrightarrow> b64_quad 4 (enc w0 # enc w1 # enc w2 # enc w3 # t) = ([uint w0, uint w1, uint w2, uint w3], t)"
    "w2 < 64 \<Longrightarrow> b64_quad 4 [enc w0, enc w1, enc w2, EQ_SIGN] = ([uint w0, uint w1, uint w2, -2], [])"
    "w2 < 64 \<Longrightarrow> b64_quad 4 [enc w0, enc w1, enc w2] = ([uint w0, uint w1, uint w2, -2], [])"
    "b64_quad 4 [enc w0, enc w1, EQ_SIGN, EQ_SIGN] = ([uint w0, uint w1, -2, -2], [])"
    "b64_quad 4 [enc w0, enc w1] = ([uint w0, uint w1, -2, -2], [])"
  using assms by (simp_all only: nat_4 b64_quad_word b64_quad_eq b64_quad.simps(1,2) Let_def prod.case)

text \<open>The encoding and the decoding of a text, without indices and buffers.\<close>

fun b64_code :: "u8 list \<Rightarrow> u8 list" where
  "b64_code (x # y # z # t) =
     (let v = (push_bit 16 (ucast x) OR push_bit 8 (ucast y) OR ucast z :: u32) in
      encoding ! unat (drop_bit 18 v) # encoding ! unat (drop_bit 12 v AND 0x3f) #
      encoding ! unat (drop_bit 6 v AND 0x3f) # encoding ! unat (v AND 0x3f) # b64_code t)"
| "b64_code [x, y] =
     (let v = (push_bit 8 (ucast x) OR ucast y :: u32) in
      [encoding ! unat (drop_bit 10 v), encoding ! unat (drop_bit 4 v AND 0x3f),
       encoding ! unat (push_bit 2 (v AND 0xf)), EQ_SIGN])"
| "b64_code [x] =
     (let v = (ucast x :: u32) in
      [encoding ! unat (drop_bit 2 v), encoding ! unat (push_bit 4 (v AND 3)), EQ_SIGN, EQ_SIGN])"
| "b64_code [] = []"

function b64_text :: "u8 list \<Rightarrow> u8 list lua" where
  "b64_text t =
     (if t = [] then Ret []
      else lua_bind (b64_bytes (fst (b64_quad 4 t))) (\<lambda>out.
           lua_bind (b64_text (snd (b64_quad 4 t))) (\<lambda>rest. Ret (out @ rest))))"
  by pat_completeness auto
termination by (relation "measure length") (auto simp: b64_quad_shorter)

declare b64_text.simps [simp del]

definition b64_size :: "u8 list \<Rightarrow> nat" where "b64_size t = (length t + 3) div 4 * 3"

lemma b64_text_Nil [simp]: "b64_text [] = Ret []"
  by (simp add: b64_text.simps)

lemma b64_text_Cons:
  "b64_quad 4 (x # xs) = (c, t) \<Longrightarrow>
   b64_text (x # xs) = lua_bind (b64_bytes c) (\<lambda>out. lua_bind (b64_text t) (\<lambda>rest. Ret (out @ rest)))"
  by (simp add: b64_text.simps [of "x # xs"])

lemmas b64_decode_simps = b64_text_Cons [OF b64_quads(1)] b64_text_Cons [OF b64_quads(2)] b64_text_Cons [OF b64_quads(3)]
  b64_text_Cons [OF b64_quads(4)] b64_text_Cons [OF b64_quads(5)] b64_bytes_word

lemma enc_not_eq: "w < 64 \<Longrightarrow> enc w \<noteq> EQ_SIGN"
  using b64index_word [of w] uint_not_neg(2) [of w] by fastforce

lemma b64_text_code:
  "b64_text (b64_code t) = Ret t \<and> b64_text (filter (\<lambda>c. c \<noteq> EQ_SIGN) (b64_code t)) = Ret t"
proof (induction t rule: b64_code.induct)
  case (1 x y z t)
  define v where "v = (push_bit 16 (ucast x) OR push_bit 8 (ucast y) OR ucast z :: u32)"
  show ?case using 1 group3 [of x y z, folded v_def]
    by (simp add: Let_def and_masks b64_decode_simps enc_not_eq flip: v_def)
next
  case (2 x y)
  define v where "v = (push_bit 8 (ucast x) OR ucast y :: u32)"
  show ?case using group2 [of x y, folded v_def]
    by (simp add: Let_def and_masks b64_decode_simps enc_not_eq flip: v_def)
next
  case (3 x)
  define v where "v = (ucast x :: u32)"
  show ?case using group1 [of x, folded v_def]
    by (simp add: Let_def and_masks b64_decode_simps enc_not_eq flip: v_def)
qed simp

text \<open>How far the inner loop reads: up to and including the \<open>n\<close>th character of the alphabet, or the whole text.\<close>

abbreviation b64_char :: "u8 \<Rightarrow> bool" where "b64_char c \<equiv> b64index c \<noteq> -1"

lemma b64_quad_reads:
  assumes "b64_quad n t = (c, r)"
  shows "\<exists>p. t = p @ r \<and> (n \<le> length (filter b64_char t) \<longrightarrow> length (filter b64_char p) = n \<and> (p \<noteq> [] \<longrightarrow> b64_char (last p)))
     \<and> (length (filter b64_char t) < n \<longrightarrow> r = [])"
  using assms
proof (induction n t arbitrary: c r rule: b64_quad.induct)
  case (3 n x t)
  show ?case
  proof (cases "b64_char x")
    case True
    then obtain c' where c': "b64_quad n t = (c', r)" using 3 by (auto split: prod.splits)
    obtain p where "t = p @ r" "n \<le> length (filter b64_char t) \<longrightarrow> length (filter b64_char p) = n \<and> (p \<noteq> [] \<longrightarrow> b64_char (last p))"
        "length (filter b64_char t) < n \<longrightarrow> r = []"
      using "3.IH"(2) [OF True c'] by (elim exE conjE) (rule that)
    note p = this
    show ?thesis
    proof (intro exI conjI impI)
      show "x # t = (x # p) @ r" using p(1) by simp
      have l: "length (filter b64_char (x # s)) = Suc (length (filter b64_char s))" for s using True by simp
      show "length (filter b64_char (x # p)) = Suc n" "b64_char (last (x # p))"
        if "Suc n \<le> length (filter b64_char (x # t))"
        using that p(2) True unfolding l Suc_le_mono by (simp, simp)
      show "r = []" if "length (filter b64_char (x # t)) < Suc n" using that p(3) unfolding l Suc_less_eq by blast
    qed
  next
    case False
    then have x: "b64index x = -1" "b64_quad (Suc n) t = (c, r)" using "3.prems" by simp_all
    obtain p where p: "t = p @ r" "Suc n \<le> length (filter b64_char t) \<longrightarrow> length (filter b64_char p) = Suc n \<and> (p \<noteq> [] \<longrightarrow> b64_char (last p))"
        "length (filter b64_char t) < Suc n \<longrightarrow> r = []"
      using "3.IH"(1) [OF x] by (elim exE conjE) (rule that)
    have l: "filter b64_char (x # s) = filter b64_char s" for s using False by simp
    show ?thesis
    proof (intro exI conjI impI)
      show "x # t = (x # p) @ r" using p(1) by simp
      show "r = []" if "length (filter b64_char (x # t)) < Suc n" using that p(3) unfolding l by blast
      assume "Suc n \<le> length (filter b64_char (x # t))"
      then have f: "length (filter b64_char p) = Suc n" "p \<noteq> [] \<longrightarrow> b64_char (last p)" using p(2) unfolding l by blast+
      then have "p \<noteq> []" by auto
      with f show "length (filter b64_char (x # p)) = Suc n" "b64_char (last (x # p))" unfolding l by simp_all
    qed
  qed
qed (auto split: prod.splits)

lemma b64_quad_filter:
  "b64_quad n (filter b64_char t) = (fst (b64_quad n t), filter b64_char (snd (b64_quad n t)))"
  by (induction n t rule: b64_quad.induct) (auto simp: Let_def split: prod.splits)

lemma b64_quad_nil: "b64_quad n [] = (replicate n (-2), [])"
  by (induction n) auto

lemma b64_bytes_cases:
  obtains out where "b64_bytes c = Ret out" "length out \<le> 3" | "b64_bytes c = Err ''Invalid base64 text''"
  by (force simp: b64_bytes_def Let_def split: if_splits)

lemma b64_size_step: "p @ r \<noteq> [] \<Longrightarrow> r = [] \<or> 4 \<le> length p \<Longrightarrow> 3 + b64_size r \<le> b64_size (p @ r)"
proof -
  assume "p @ r \<noteq> []" and d: "r = [] \<or> 4 \<le> length p"
  then have "0 < length p" by auto
  then have "1 + (length r + 3) div 4 \<le> (length p + length r + 3) div 4" using d by (cases "r = []") (auto simp: Suc_le_eq div_greater_zero_iff)
  then show "3 + b64_size r \<le> b64_size (p @ r)" by (simp add: b64_size_def)
qed

lemma b64_size_next:
  assumes "b64_quad 4 t = (c, r)" "t \<noteq> []"
  shows "3 + b64_size r \<le> b64_size t"
proof -
  obtain p where p: "t = p @ r" "4 \<le> length (filter b64_char t) \<longrightarrow> length (filter b64_char p) = 4 \<and> (p \<noteq> [] \<longrightarrow> b64_char (last p))"
      "length (filter b64_char t) < 4 \<longrightarrow> r = []"
    using b64_quad_reads [OF assms(1)] by (elim exE conjE) (rule that)
  have "r = [] \<or> 4 \<le> length p" using p(2,3) length_filter_le [of b64_char p] by force
  then show ?thesis using p(1) assms(2) by (auto simp: b64_size_step)
qed

lemma b64_text_cases: "(\<exists>out. b64_text t = Ret out \<and> length out \<le> b64_size t) \<or> b64_text t = Err ''Invalid base64 text''"
proof (induction t rule: b64_text.induct)
  case (1 t)
  show ?case
  proof (cases "t = []")
    case False
    obtain c r where q: "b64_quad 4 t = (c, r)" by force
    then have "3 + b64_size r \<le> b64_size t" using False by (rule b64_size_next)
    with 1 [OF False] q False show ?thesis
      by (cases c rule: b64_bytes_cases) (auto simp: b64_text.simps [of t])
  qed simp
qed

text \<open>base64decode leaves characters outside the alphabet out of account, except behind a complete text: when
  the text ends with such a character and the other characters fill up their last group of four, the text is
  rejected, otherwise the result is the one for the text without these characters.\<close>

lemma b64_text_skips:
  "b64_text t = (if t \<noteq> [] \<and> \<not> b64_char (last t) \<and> 4 dvd length (filter b64_char t) then Err ''Invalid base64 text''
     else b64_text (filter b64_char t))"
proof (induction t rule: b64_text.induct)
  case (1 t)
  define junk where "junk s \<longleftrightarrow> s \<noteq> [] \<and> \<not> b64_char (last s) \<and> 4 dvd length (filter b64_char s)" for s
  have "b64_text t = (if junk t then Err ''Invalid base64 text'' else b64_text (filter b64_char t))"
  proof (cases "filter b64_char t = []")
    case True
    then have "fst (b64_quad 4 t) = replicate 4 (-2)" "t \<noteq> [] \<Longrightarrow> \<not> b64_char (last t)"
      using b64_quad_filter [of 4 t] by (auto simp: b64_quad_nil filter_empty_conv)
    with True show ?thesis by (auto simp: junk_def b64_text.simps [of t] b64_bytes_def)
  next
    case False
    obtain c r where q: "b64_quad 4 t = (c, r)" by force
    obtain p where p: "t = p @ r" "4 \<le> length (filter b64_char t) \<longrightarrow> length (filter b64_char p) = 4 \<and> (p \<noteq> [] \<longrightarrow> b64_char (last p))"
        "length (filter b64_char t) < 4 \<longrightarrow> r = []"
      using b64_quad_reads [OF q] by (elim exE conjE) (rule that)
    have "junk t = junk r"
    proof (cases "length (filter b64_char t) < 4")
      case True
      with p False show ?thesis by (auto simp: junk_def dest: dvd_imp_le)
    next
      case False
      then have f: "length (filter b64_char p) = 4" "p \<noteq> [] \<longrightarrow> b64_char (last p)" using p(2) by auto
      then have "b64_char (last p)" by auto
      with f(1) show ?thesis unfolding p(1) by (cases "r = []") (simp_all add: junk_def)
    qed
    moreover have "t \<noteq> []" using False by auto
    moreover have "b64_text r = (if junk r then Err ''Invalid base64 text'' else b64_text (filter b64_char r))"
      using 1 [OF \<open>t \<noteq> []\<close>] q by (simp add: junk_def)
    ultimately show ?thesis
      using q False b64_quad_filter [of 4 t] b64_text.simps [of t] b64_text.simps [of "filter b64_char t"]
      by (cases c rule: b64_bytes_cases) simp_all
  qed
  then show ?case by (simp add: junk_def)
qed

text \<open>The code, as long as its indices and sizes are below \<open>2 ^ 31\<close>.\<close>

lemma b64_code_length: "length (b64_code t) = (length t + 2) div 3 * 4"
proof (induction t rule: b64_code.induct)
  case (1 x y z t)
  have "(length (x # y # z # t) + 2) div 3 = Suc ((length t + 2) div 3)" by (simp add: div_eq_dividend_iff)
  with 1 show ?case by (simp add: Let_def)
qed (simp_all add: Let_def)

lemma b64_groups_code:
  "lim = i + int (length t) - 2 \<Longrightarrow>
   (let (out, r) = b64_groups lim i t in length r < 3 \<and> out @ b64_padding (int (length r)) r = b64_code t)"
proof (induction lim i t rule: b64_groups.induct)
  case (1 lim i x y z t)
  then show ?case by (auto simp: Let_def split: prod.splits)
qed (auto simp: b64_padding_def Let_def)

lemma lb64encode_code:
  assumes "(length t + 2) div 3 * 4 < 2 ^ 31"
  shows "lb64encode t = Ret (b64_code t)"
proof -
  have l: "length t < 2 ^ 31" using assms by linarith
  obtain out r where g: "b64_groups (int (length t) - 2) 0 t = (out, r)" by force
  then have c: "length r < 3" "out @ b64_padding (int (length r)) r = b64_code t"
    using b64_groups_code [of "int (length t) - 2" 0 t] by auto
  have sz: "(int (length t) + 2) div 3 * 4 = int (length (b64_code t))"
    by (simp add: b64_code_length zdiv_int)
  then have "int (length (b64_code t)) < 2 ^ 31" using assms by (simp add: b64_code_length)
  then have "long_to_int (int (length t)) = int (length t)" "long_to_int (int (length r)) = int (length r)"
      "long_to_int (int (length (b64_code t))) = int (length (b64_code t))"
    using l c(1) by (simp_all add: long_to_int_id)
  moreover have "int (length out) + int (length (b64_padding (int (length r)) r)) = int (length (b64_code t))"
    by (simp flip: c(2))
  ultimately show ?thesis using g c(2) by (simp add: lb64encode_def sz buffer_size_def Let_def)
qed

lemma b64_steps_bound:
  "length (snd (b64_quad n t)) + b64_steps n t \<le> length t + n \<and>
   (snd (b64_quad n t) \<noteq> [] \<longrightarrow> length (snd (b64_quad n t)) + b64_steps n t \<le> length t)"
  by (induction n t rule: b64_steps.induct) (auto simp: Let_def split: prod.splits)

lemma b64decode_loop_text:
  assumes "t \<noteq> [] \<Longrightarrow> i + int (length t) + 4 < 2 ^ 31" "output + int (b64_size t) \<le> cap"
  shows "b64decode_loop cap i output t = b64_text t"
  using assms
proof (induction cap i "output" t rule: b64decode_loop.induct)
  case (1 cap i n t)
  show ?case
  proof (cases "t = []")
    case True
    then show ?thesis by (simp add: b64decode_loop.simps [of cap i n "[]"])
  next
    case False
    obtain c r where q: "b64_quad 4 t = (c, r)" by force
    have i: "int (b64_steps 4 t) \<le> int (length t) + 4" "r \<noteq> [] \<Longrightarrow> int (length r) + int (b64_steps 4 t) \<le> int (length t)"
      using b64_steps_bound [of 4 t] q by (simp_all flip: of_nat_add)
    have sz: "int (length out) + int (b64_size r) \<le> int (b64_size t)" if "b64_bytes c = Ret out" for out
      using b64_size_next [OF q False] b64_bytes_cases [of c] that by force
    show ?thesis
    proof (cases c rule: b64_bytes_cases)
      case (1 out)
      have "b64decode_loop cap (i + int (b64_steps 4 t)) (n + int (length out)) r = b64_text r"
        using i sz [OF 1(1)] "1.prems" False
        by (intro "1.IH" [OF False q [symmetric] refl refl _ refl]) (auto simp: not_le)
      then show ?thesis
        using False q 1(1) i sz [OF 1(1)] "1.prems" by (simp add: b64decode_loop.simps [of cap i n t] b64_text.simps [of t] Let_def)
    next
      case 2
      then show ?thesis using False q i "1.prems" by (simp add: b64decode_loop.simps [of cap i n t] b64_text.simps [of t] Let_def)
    qed
  qed
qed

lemma lb64decode_text:
  assumes "int (length t) + 4 < 2 ^ 31"
  shows "lb64decode t = b64_text t"
proof -
  have sz: "(int (length t) + 3) div 4 * 3 = int (b64_size t)" by (simp add: b64_size_def zdiv_int)
  moreover have "int (b64_size t) < 2 ^ 31" using assms unfolding sz [symmetric] by linarith
  ultimately show ?thesis using assms
    by (simp add: lb64decode_def long_to_int_id buffer_size_def b64decode_loop_text)
qed

lemma b64decode_skips:
  assumes "int (length t) + 4 < 2 ^ 31"
  shows "lb64decode t = (if t \<noteq> [] \<and> \<not> b64_char (last t) \<and> 4 dvd length (filter b64_char t) then Err ''Invalid base64 text''
     else lb64decode (filter b64_char t))"
proof -
  have "int (length (filter b64_char t)) + 4 < 2 ^ 31" using assms length_filter_le [of b64_char t] by linarith
  with assms show ?thesis using b64_text_skips [of t] by (simp add: lb64decode_text)
qed

text \<open>C24: base64decode undoes base64encode, with the equal signs at the end or without them, for every text whose
  encoding is shorter than 2 GiB less four bytes (a text of about 1.5 GiB); no index and no write leaves its bounds.\<close>

theorem b64decode_b64encode:
  assumes "(length t + 2) div 3 * 4 + 4 < 2 ^ 31"
  shows "lua_bind (lb64encode t) lb64decode = Ret t \<and>
    lua_bind (lb64encode t) (\<lambda>c. lb64decode (filter (\<lambda>c. c \<noteq> EQ_SIGN) c)) = Ret t"
proof -
  have "lb64decode (filter P (b64_code t)) = b64_text (filter P (b64_code t))" for P
  proof (rule lb64decode_text)
    have "length (filter P (b64_code t)) + 4 < 2 ^ 31"
      using length_filter_le [of P "b64_code t"] assms unfolding b64_code_length by linarith
    then show "int (length (filter P (b64_code t))) + 4 < 2 ^ 31" by simp
  qed
  from this [of "\<lambda>_. True"] this [of "\<lambda>c. c \<noteq> EQ_SIGN"] show ?thesis
    using lb64encode_code [of t] assms b64_text_code [of t] by simp
qed

theorem b64decode_b64encode_witness:
  "lua_bind (lb64encode [0, 255, 7, 9]) lb64decode = Ret [0, 255, 7, 9] \<and>
   lua_bind (lb64encode [0, 255, 7, 9]) (\<lambda>c. lb64decode (filter (\<lambda>c. c \<noteq> EQ_SIGN) c)) = Ret [0, 255, 7, 9]"
  by (rule b64decode_b64encode) simp

text \<open>From a text of about 1.5 GiB on the size of the encoding is no positive \<open>int\<close>: the buffer on the stack is
  chosen and overrun.\<close>

lemma lb64encode_overruns:
  assumes "2 ^ 31 \<le> (length t + 2) div 3 * 4" "length t < 2 ^ 31"
  shows "lb64encode t = Undef"
proof -
  define n where "n = (int (length t) + 2) div 3 * 4"
  have "n = int ((length t + 2) div 3 * 4)" by (simp add: n_def zdiv_int)
  moreover have "(length t + 2) div 3 * 4 < 2 ^ 32" using assms(2) by (simp add: div_less_iff_less_mult)
  ultimately have n: "2 ^ 31 \<le> n" "n < 2 ^ 32" using assms(1) by (simp_all add: nat_le_iff)
  have "signed_take_bit 31 n = n - 2 ^ 32"
  proof -
    have "signed_take_bit 31 (n - 2 ^ 32) = n - 2 ^ 32" using n by (intro signed_take_bit_int_eq_self) auto
    moreover have "signed_take_bit 31 (n - 2 ^ 32) = signed_take_bit 31 n"
      by (simp add: signed_take_bit_eq_iff_take_bit_eq take_bit_eq_mod mod_diff_right_eq [symmetric, of n "2 ^ 32"])
    ultimately show ?thesis by simp
  qed
  then have neg: "long_to_int n < 0" using n by (simp add: long_to_int_def)
  have "long_to_int (int (length t)) = int (length t)" using assms(2) by (simp add: long_to_int_id)
  with neg show ?thesis unfolding lb64encode_def Let_def n_def by (simp add: push_buffer_def split: prod.splits)
qed

subsection \<open>Exclusive or and random keys\<close>

lemma lxor_str_involution: "k \<noteq> [] \<Longrightarrow> length s < 2 ^ 31 \<Longrightarrow> lua_bind (lxor_str s k) (\<lambda>x. lxor_str x k) = Ret s"
  by (auto simp: lxor_str_def xor.assoc intro!: nth_equalityI)

lemma foldl_xor_zero: "foldl (XOR) (a :: u8) (replicate n 0) = a"
  by (induction n arbitrary: a) auto

lemma byte_or_1: "(x :: u8) OR 1 \<noteq> 0"
proof
  assume "x OR 1 = 0"
  then have "bit (x OR 1) 0 = bit (0 :: u8) 0" by simp
  then show False by (simp add: bit_simps)
qed

lemma lrandomkey_length: "length rs = 8 \<Longrightarrow> length (lrandomkey rs) = 8"
  by (simp add: lrandomkey_def Let_def)

text \<open>The key that \<open>randomkey\<close> draws is never zero.\<close>

lemma lrandomkey_nonzero:
  assumes "length rs = 8"
  shows "\<exists>x\<in>set (lrandomkey rs). x \<noteq> 0"
proof -
  define tmp where "tmp = map (\<lambda>r. ucast (r AND 0xff) :: u8) (take 8 rs)"
  have l: "length tmp = 8" using assms by (simp add: tmp_def)
  show ?thesis
  proof (cases "foldl (XOR) 0 tmp = 0")
    case True
    then have "lrandomkey rs = tmp[0 := tmp ! 0 OR 1]" by (simp add: lrandomkey_def tmp_def Let_def)
    then have "tmp ! 0 OR 1 \<in> set (lrandomkey rs)" using l by (simp add: set_update_memI)
    then show ?thesis using byte_or_1 by blast
  next
    case False
    then have k: "lrandomkey rs = tmp" by (simp add: lrandomkey_def tmp_def Let_def)
    have "\<not> (\<forall>x\<in>set tmp. x = 0)"
      using False foldl_xor_zero [of 0 8] replicate_length_same [of tmp 0] l by auto
    then show ?thesis using k by auto
  qed
qed

end
