(* ===== verification/Crypt_MD5.thy ===== *)
theory Crypt_MD5
  imports Crypt_Codec
begin

unbundle bit_operations_syntax

text \<open>
  The keyed hashes of \<^verbatim>\<open>009_skynet_demo/skynet/lualib-src/lua-crypt.c\<close>: \<open>hashkey\<close>, the compression function
  of MD5 (\<open>digest_md5\<close>), \<open>hmac64\<close>, \<open>hmac64_md5\<close> and \<open>hmac_hash\<close>, with the conversions between 8-byte
  strings and pairs of words.  The comment on \<open>hmac64_md5\<close> states it in terms of the MD5 of a message; that MD5 is
  defined here as RFC 1321 has it, and the two are proved equal.
\<close>

type_synonym u32_2 = "u32 \<times> u32"
type_synonym md5_state = "u32 \<times> u32 \<times> u32 \<times> u32"

subsection \<open>Words and bytes\<close>

definition le32 :: "u8 list \<Rightarrow> nat \<Rightarrow> u32" where
  "le32 x i = ucast (x ! i) OR push_bit 8 (ucast (x ! (i + 1))) OR push_bit 16 (ucast (x ! (i + 2))) OR
     push_bit 24 (ucast (x ! (i + 3)))"

definition read64 :: "u8 list \<Rightarrow> u8 list \<Rightarrow> (u32_2 \<times> u32_2) lua" where
  "read64 x y =
     (if length x \<noteq> 8 then Err ''Invalid uint64 x''
      else if length y \<noteq> 8 then Err ''Invalid uint64 y''
      else Ret ((le32 x 0, le32 x 4), (le32 y 0, le32 y 4)))"

definition bytes_le :: "u32 \<Rightarrow> u8 list" where
  "bytes_le w = [ucast (w AND 0xff), ucast (drop_bit 8 w AND 0xff), ucast (drop_bit 16 w AND 0xff),
     ucast (drop_bit 24 w AND 0xff)]"

definition pushqword :: "u32_2 \<Rightarrow> u8 list" where
  "pushqword r = bytes_le (fst r) @ bytes_le (snd r)"

subsection \<open>Hash of a text\<close>

definition Hash_step :: "u32 \<times> u32 \<Rightarrow> u8 \<Rightarrow> u32 \<times> u32" where
  "Hash_step h c = (let (djb_hash, js_hash) = h in
     (djb_hash + (push_bit 5 djb_hash + ucast c), js_hash XOR (push_bit 5 js_hash + ucast c + drop_bit 2 js_hash)))"

definition Hash :: "u8 list \<Rightarrow> u8 list" where
  "Hash str = pushqword (foldl Hash_step (5381, 1315423911) str)"

text \<open>The size is passed as an \<open>int\<close>; the loop does nothing for a negative one.\<close>

definition lhashkey :: "u8 list \<Rightarrow> u8 list" where
  "lhashkey key = Hash (take (nat (long_to_int (int (length key)))) key)"

subsection \<open>The compression function\<close>

definition md5_k :: "u32 list" where
  "md5_k = [
     0xd76aa478, 0xe8c7b756, 0x242070db, 0xc1bdceee, 0xf57c0faf, 0x4787c62a, 0xa8304613, 0xfd469501,
     0x698098d8, 0x8b44f7af, 0xffff5bb1, 0x895cd7be, 0x6b901122, 0xfd987193, 0xa679438e, 0x49b40821,
     0xf61e2562, 0xc040b340, 0x265e5a51, 0xe9b6c7aa, 0xd62f105d, 0x02441453, 0xd8a1e681, 0xe7d3fbc8,
     0x21e1cde6, 0xc33707d6, 0xf4d50d87, 0x455a14ed, 0xa9e3e905, 0xfcefa3f8, 0x676f02d9, 0x8d2a4c8a,
     0xfffa3942, 0x8771f681, 0x6d9d6122, 0xfde5380c, 0xa4beea44, 0x4bdecfa9, 0xf6bb4b60, 0xbebfbc70,
     0x289b7ec6, 0xeaa127fa, 0xd4ef3085, 0x04881d05, 0xd9d4d039, 0xe6db99e5, 0x1fa27cf8, 0xc4ac5665,
     0xf4292244, 0x432aff97, 0xab9423a7, 0xfc93a039, 0x655b59c3, 0x8f0ccc92, 0xffeff47d, 0x85845dd1,
     0x6fa87e4f, 0xfe2ce6e0, 0xa3014314, 0x4e0811a1, 0xf7537e82, 0xbd3af235, 0x2ad7d2bb, 0xeb86d391]"

definition md5_r :: "nat list" where
  "md5_r = [7, 12, 17, 22, 7, 12, 17, 22, 7, 12, 17, 22, 7, 12, 17, 22,
     5, 9, 14, 20, 5, 9, 14, 20, 5, 9, 14, 20, 5, 9, 14, 20,
     4, 11, 16, 23, 4, 11, 16, 23, 4, 11, 16, 23, 4, 11, 16, 23,
     6, 10, 15, 21, 6, 10, 15, 21, 6, 10, 15, 21, 6, 10, 15, 21]"

definition LEFTROTATE :: "u32 \<Rightarrow> nat \<Rightarrow> u32" where
  "LEFTROTATE x c = push_bit c x OR drop_bit (32 - c) x"

definition digest_step :: "u32 list \<Rightarrow> nat \<Rightarrow> md5_state \<Rightarrow> md5_state" where
  "digest_step w i abcd = (let (a, b, c, d) = abcd;
     (f, g) = (if i < 16 then ((b AND c) OR (NOT b AND d), i)
               else if i < 32 then ((d AND b) OR (NOT d AND c), (5 * i + 1) mod 16)
               else if i < 48 then (b XOR c XOR d, (3 * i + 5) mod 16)
               else (c XOR (b OR NOT d), (7 * i) mod 16));
     temp = d; d = c; c = b; b = b + LEFTROTATE (a + f + md5_k ! i + w ! g) (md5_r ! i); a = temp
   in (a, b, c, d))"

definition digest_md5 :: "u32 list \<Rightarrow> md5_state" where
  "digest_md5 w = foldl (\<lambda>s i. digest_step w i s) (0x67452301, 0xefcdab89, 0x98badcfe, 0x10325476) [0..<64]"

subsection \<open>Keyed hashes\<close>

definition hmac :: "u32_2 \<Rightarrow> u32_2 \<Rightarrow> u32_2" where
  "hmac x y = (let w = concat (replicate 4 [snd x, fst x, snd y, fst y]);
                   (r0, r1, r2, r3) = digest_md5 w
               in (r2 XOR r3, r0 XOR r1))"

definition hmac_md5 :: "u32_2 \<Rightarrow> u32_2 \<Rightarrow> u32_2" where
  "hmac_md5 x y = (let w = concat (replicate 3 [fst x, snd x, fst y, snd y]) @ [0x80, 0, 384, 0];
                       (r0, r1, r2, r3) = digest_md5 w
     in ((r0 + 0x67452301) XOR (r2 + 0x98badcfe), (r1 + 0xefcdab89) XOR (r3 + 0x10325476)))"

definition lhmac64 :: "u8 list \<Rightarrow> u8 list \<Rightarrow> u8 list lua" where
  "lhmac64 x y = lua_bind (read64 x y) (\<lambda>(x, y). Ret (pushqword (hmac x y)))"

definition lhmac64_md5 :: "u8 list \<Rightarrow> u8 list \<Rightarrow> u8 list lua" where
  "lhmac64_md5 x y = lua_bind (read64 x y) (\<lambda>(x, y). Ret (pushqword (hmac_md5 x y)))"

definition lhmac_hash :: "u8 list \<Rightarrow> u8 list \<Rightarrow> u8 list lua" where
  "lhmac_hash x txt =
     (if length x \<noteq> 8 then Err ''Invalid uint64 key''
      else let key = (le32 x 0, le32 x 4); h = Hash txt; htext = (le32 h 0, le32 h 4)
           in Ret (pushqword (hmac htext key)))"

subsection \<open>MD5 as RFC 1321 defines it\<close>

definition md5_F :: "u32 \<Rightarrow> u32 \<Rightarrow> u32 \<Rightarrow> u32" where "md5_F x y z = (x AND y) OR (NOT x AND z)"
definition md5_G :: "u32 \<Rightarrow> u32 \<Rightarrow> u32 \<Rightarrow> u32" where "md5_G x y z = (x AND z) OR (y AND NOT z)"
definition md5_H :: "u32 \<Rightarrow> u32 \<Rightarrow> u32 \<Rightarrow> u32" where "md5_H x y z = x XOR y XOR z"
definition md5_I :: "u32 \<Rightarrow> u32 \<Rightarrow> u32 \<Rightarrow> u32" where "md5_I x y z = y XOR (x OR NOT z)"

text \<open>One operation \<open>[abcd k s i]\<close>, its result in the role of the next operation.\<close>

definition md5_op :: "(u32 \<Rightarrow> u32 \<Rightarrow> u32 \<Rightarrow> u32) \<Rightarrow> u32 list \<Rightarrow> nat \<Rightarrow> nat \<Rightarrow> u32 \<Rightarrow> md5_state \<Rightarrow> md5_state" where
  "md5_op fn X k s t abcd = (let (a, b, c, d) = abcd in (d, b + word_rotl s (a + fn b c d + X ! k + t), b, c))"

definition md5_round :: "(u32 \<Rightarrow> u32 \<Rightarrow> u32 \<Rightarrow> u32) \<Rightarrow> u32 list \<Rightarrow> (nat \<Rightarrow> nat) \<Rightarrow> nat list \<Rightarrow> u32 list \<Rightarrow> md5_state \<Rightarrow> md5_state" where
  "md5_round fn X pos shifts T s =
     foldl (\<lambda>s j. md5_op fn X (pos j) (shifts ! (j mod 4)) (T ! j) s) s [0..<16]"

definition md5_compress :: "md5_state \<Rightarrow> u32 list \<Rightarrow> md5_state" where
  "md5_compress s X =
     (let s1 = md5_round md5_F X (\<lambda>j. j) [7, 12, 17, 22] (take 16 md5_k) s;
          s2 = md5_round md5_G X (\<lambda>j. (1 + 5 * j) mod 16) [5, 9, 14, 20] (take 16 (drop 16 md5_k)) s1;
          s3 = md5_round md5_H X (\<lambda>j. (5 + 3 * j) mod 16) [4, 11, 16, 23] (take 16 (drop 32 md5_k)) s2;
          (a, b, c, d) = md5_round md5_I X (\<lambda>j. 7 * j mod 16) [6, 10, 15, 21] (drop 48 md5_k) s3;
          (a0, b0, c0, d0) = s
      in (a0 + a, b0 + b, c0 + c, d0 + d))"

definition md5_pad :: "u8 list \<Rightarrow> u8 list" where
  "md5_pad m = m @ 0x80 # replicate ((119 - length m mod 64) mod 64) 0 @
     bytes_le (of_nat (8 * length m)) @ bytes_le (of_nat (8 * length m div 2 ^ 32))"

function md5_blocks :: "md5_state \<Rightarrow> u8 list \<Rightarrow> md5_state" where
  "md5_blocks s m = (if length m < 64 then s
     else md5_blocks (md5_compress s (map (\<lambda>i. le32 m (4 * i)) [0..<16])) (drop 64 m))"
  by pat_completeness auto
termination by (relation "measure (\<lambda>(s, m). length m)") auto

declare md5_blocks.simps [simp del]

definition md5_sum :: "u8 list \<Rightarrow> u8 list" where
  "md5_sum m = (let (a, b, c, d) = md5_blocks (0x67452301, 0xefcdab89, 0x98badcfe, 0x10325476) (md5_pad m)
     in bytes_le a @ bytes_le b @ bytes_le c @ bytes_le d)"

subsection \<open>The compression function is the one of RFC 1321\<close>

lemma LEFTROTATE_rotl: "0 < n \<Longrightarrow> n < 32 \<Longrightarrow> LEFTROTATE x n = word_rotl n x"
  by (simp add: LEFTROTATE_def rotl_shifts)

text \<open>The table of shift amounts repeats four numbers in each round.\<close>

lemma md5_r_rounds:
  "j \<in> set [0..<16] \<Longrightarrow> md5_r ! j = [7, 12, 17, 22] ! (j mod 4)" "j \<in> set [0..<16] \<Longrightarrow> md5_r ! (16 + j) = [5, 9, 14, 20] ! (j mod 4)"
  "j \<in> set [0..<16] \<Longrightarrow> md5_r ! (32 + j) = [4, 11, 16, 23] ! (j mod 4)" "j \<in> set [0..<16] \<Longrightarrow> md5_r ! (48 + j) = [6, 10, 15, 21] ! (j mod 4)"
proof -
  have "\<forall>j\<in>set [0..<16]. md5_r ! j = [7, 12, 17, 22] ! (j mod 4)" "\<forall>j\<in>set [0..<16]. md5_r ! (16 + j) = [5, 9, 14, 20] ! (j mod 4)"
    "\<forall>j\<in>set [0..<16]. md5_r ! (32 + j) = [4, 11, 16, 23] ! (j mod 4)" "\<forall>j\<in>set [0..<16]. md5_r ! (48 + j) = [6, 10, 15, 21] ! (j mod 4)"
    by code_simp+
  then show "j \<in> set [0..<16] \<Longrightarrow> md5_r ! j = [7, 12, 17, 22] ! (j mod 4)" "j \<in> set [0..<16] \<Longrightarrow> md5_r ! (16 + j) = [5, 9, 14, 20] ! (j mod 4)"
    "j \<in> set [0..<16] \<Longrightarrow> md5_r ! (32 + j) = [4, 11, 16, 23] ! (j mod 4)" "j \<in> set [0..<16] \<Longrightarrow> md5_r ! (48 + j) = [6, 10, 15, 21] ! (j mod 4)"
    by blast+
qed

lemma md5_r_range: "\<forall>i<64. 0 < md5_r ! i \<and> md5_r ! i < 32"
proof -
  have "list_all (\<lambda>n. 0 < n \<and> n < 32) md5_r" "length md5_r = 64" by (simp_all add: md5_r_def)
  then show ?thesis by (simp add: list_all_length)
qed

lemma digest_step_op:
  assumes "i < 64"
  shows "i < 16 \<Longrightarrow> digest_step w i = md5_op md5_F w i (md5_r ! i) (md5_k ! i)"
    "16 \<le> i \<Longrightarrow> i < 32 \<Longrightarrow> digest_step w i = md5_op md5_G w ((5 * i + 1) mod 16) (md5_r ! i) (md5_k ! i)"
    "32 \<le> i \<Longrightarrow> i < 48 \<Longrightarrow> digest_step w i = md5_op md5_H w ((3 * i + 5) mod 16) (md5_r ! i) (md5_k ! i)"
    "48 \<le> i \<Longrightarrow> digest_step w i = md5_op md5_I w ((7 * i) mod 16) (md5_r ! i) (md5_k ! i)"
  using assms md5_r_range
  by (auto simp: fun_eq_iff digest_step_def md5_op_def md5_F_def md5_G_def md5_H_def md5_I_def LEFTROTATE_rotl
      ac_simps)

lemma foldl_upt_shift: "foldl f s [k..<k + n] = foldl (\<lambda>s j. f s (k + j)) s [0..<n]"
  by (induction n) (simp_all add: upt_Suc_append)

lemma md5_pos: "(81 + 5 * j) mod 16 = Suc (5 * j) mod 16" "(101 + 3 * j) mod 16 = (5 + 3 * j) mod 16"
  "(336 + 7 * j) mod 16 = 7 * j mod (16::nat)" for j :: nat
  using mod_mult_self1 [of "1 + 5 * j" 5 16] mod_mult_self1 [of "5 + 3 * j" 6 16] mod_mult_self1 [of "7 * j" 21 16]
  by (simp_all add: add.commute [of 336])

lemma md5_k_length: "length md5_k = 64"
  by (simp add: md5_k_def)

lemma digest_rounds:
  "foldl (\<lambda>s i. digest_step w i s) s [0..<16] = md5_round md5_F w (\<lambda>j. j) [7, 12, 17, 22] (take 16 md5_k) s"
  "foldl (\<lambda>s i. digest_step w i s) s [16..<16 + 16] =
    md5_round md5_G w (\<lambda>j. (1 + 5 * j) mod 16) [5, 9, 14, 20] (take 16 (drop 16 md5_k)) s"
  "foldl (\<lambda>s i. digest_step w i s) s [32..<32 + 16] =
    md5_round md5_H w (\<lambda>j. (5 + 3 * j) mod 16) [4, 11, 16, 23] (take 16 (drop 32 md5_k)) s"
  "foldl (\<lambda>s i. digest_step w i s) s [48..<48 + 16] =
    md5_round md5_I w (\<lambda>j. 7 * j mod 16) [6, 10, 15, 21] (drop 48 md5_k) s"
  unfolding foldl_upt_shift md5_round_def
  by (auto intro!: foldl_cong simp: digest_step_op md5_pos md5_k_length md5_r_rounds)

lemma upt_64: "[0..<64] = [0..<16] @ [16..<16 + 16] @ [32..<32 + 16] @ [48..<48 + 16]"
  by (simp add: upt_add_eq_append [of 0 16 16, simplified] upt_rec)

lemma md5_compress_digest:
  "md5_compress (0x67452301, 0xefcdab89, 0x98badcfe, 0x10325476) w =
     (let (a, b, c, d) = digest_md5 w in (0x67452301 + a, 0xefcdab89 + b, 0x98badcfe + c, 0x10325476 + d))"
  unfolding digest_md5_def upt_64 foldl_append digest_rounds md5_compress_def Let_def by simp

subsection \<open>Keyed hash of two keys\<close>

lemma bytes_le_xor: "bytes_le (x XOR y) = map2 (XOR) (bytes_le x) (bytes_le y)"
  by (simp add: bytes_le_def and_masks drop_bit_xor take_bit_xor unsigned_xor_eq)

lemma length_bytes_le [simp]: "length (bytes_le w) = 4"
  by (simp add: bytes_le_def)

lemma bytes_le_not_Nil [simp]: "bytes_le w \<noteq> []"
  by (simp add: bytes_le_def)

lemma lxor_str_same: "length a = length b \<Longrightarrow> length b < 2 ^ 31 \<Longrightarrow> b \<noteq> [] \<Longrightarrow> lxor_str a b = Ret (map2 (XOR) a b)"
  by (auto simp: lxor_str_def intro!: nth_equalityI)

lemma list_8:
  assumes "length x = 8"
  obtains x0 x1 x2 x3 x4 x5 x6 x7 where "x = [x0, x1, x2, x3, x4, x5, x6, x7]"
proof -
  have "8 = Suc (Suc (Suc (Suc (Suc (Suc (Suc (Suc 0)))))))" by simp
  with assms that show thesis by (auto simp: length_Suc_conv)
qed

text \<open>The message of the comment, three times the two keys, fills one block with its padding.\<close>

lemma md5_pad_block:
  assumes "length a = 8" "length b = 8"
  shows "length (md5_pad (concat (replicate 3 (a @ b)))) = 64"
    "map (\<lambda>i. le32 (md5_pad (concat (replicate 3 (a @ b)))) (4 * i)) [0..<16] =
      concat (replicate 3 [le32 a 0, le32 a 4, le32 b 0, le32 b 4]) @ [0x80, 0, 384, 0]"
proof -
  obtain a0 a1 a2 a3 a4 a5 a6 a7 where a: "a = [a0, a1, a2, a3, a4, a5, a6, a7]" using list_8 [OF assms(1)] .
  obtain b0 b1 b2 b3 b4 b5 b6 b7 where b: "b = [b0, b1, b2, b3, b4, b5, b6, b7]" using list_8 [OF assms(2)] .
  have u: "[0..<16] = [0, 1, 2, 3, 4, 5, 6, 7, 8, 9, 10, 11, 12, 13, 14, 15]" by (simp add: upt_rec)
  have r: "replicate 3 x = [x, x, x]" "replicate 7 y = [y, y, y, y, y, y, y]" for x y by (simp_all add: numeral_eq_Suc)
  have l: "bytes_le 384 = [128, 1, 0, 0]" "bytes_le 0 = [0, 0, 0, 0]" by (simp_all add: bytes_le_def)
  have p: "md5_pad (concat (replicate 3 (a @ b))) = a @ b @ a @ b @ a @ b @ [0x80, 0, 0, 0, 0, 0, 0, 0, 128, 1, 0, 0, 0, 0, 0, 0]"
    using assms by (simp add: md5_pad_def r l)
  show "length (md5_pad (concat (replicate 3 (a @ b)))) = 64" using assms by (simp add: p)
  show "map (\<lambda>i. le32 (md5_pad (concat (replicate 3 (a @ b)))) (4 * i)) [0..<16] =
      concat (replicate 3 [le32 a 0, le32 a 4, le32 b 0, le32 b 4]) @ [0x80, 0, 384, 0]"
    unfolding p unfolding u r a b by (simp add: le32_def)
qed

text \<open>C27: hmac64_md5 of two keys is what its comment says: the MD5 of the two keys written three times one after the
  other, with its two halves combined by exclusive or.\<close>

theorem hmac64_md5_md5:
  assumes "length a = 8" "length b = 8"
  shows "lhmac64_md5 a b = lxor_str (take 8 (md5_sum (concat (replicate 3 (a @ b))))) (drop 8 (md5_sum (concat (replicate 3 (a @ b)))))"
proof -
  let ?w = "concat (replicate 3 [le32 a 0, le32 a 4, le32 b 0, le32 b 4]) @ [0x80, 0, 384, 0]"
  obtain r0 r1 r2 r3 where r: "digest_md5 ?w = (r0, r1, r2, r3)" by (metis prod_cases4)
  have "md5_blocks s (drop 64 (md5_pad (concat (replicate 3 (a @ b))))) = s" for s
    using md5_pad_block(1) [OF assms] by (simp add: md5_blocks.simps)
  then have "md5_blocks (0x67452301, 0xefcdab89, 0x98badcfe, 0x10325476) (md5_pad (concat (replicate 3 (a @ b)))) =
      (0x67452301 + r0, 0xefcdab89 + r1, 0x98badcfe + r2, 0x10325476 + r3)"
    using md5_pad_block [OF assms] by (subst md5_blocks.simps) (simp add: md5_compress_digest r)
  then have "md5_sum (concat (replicate 3 (a @ b))) =
      bytes_le (0x67452301 + r0) @ bytes_le (0xefcdab89 + r1) @ bytes_le (0x98badcfe + r2) @ bytes_le (0x10325476 + r3)"
    by (simp add: md5_sum_def)
  moreover have "lhmac64_md5 a b = Ret (pushqword ((r0 + 0x67452301) XOR (r2 + 0x98badcfe), (r1 + 0xefcdab89) XOR (r3 + 0x10325476)))"
    using assms r by (simp add: lhmac64_md5_def read64_def hmac_md5_def)
  ultimately show ?thesis
    by (simp add: lxor_str_same pushqword_def bytes_le_xor add.commute)
qed

theorem hmac64_md5_md5_witness:
  "lhmac64_md5 (replicate 8 1) (replicate 8 2) =
     lxor_str (take 8 (md5_sum (concat (replicate 3 (replicate 8 1 @ replicate 8 2)))))
       (drop 8 (md5_sum (concat (replicate 3 (replicate 8 1 @ replicate 8 2)))))"
  by (rule hmac64_md5_md5) simp_all

end
