(* ===== verification/Crypt_DH.thy ===== *)
theory Crypt_DH
  imports Crypt_MD5
begin

unbundle bit_operations_syntax

text \<open>
  The Diffie-Hellman key exchange of \<^verbatim>\<open>009_skynet_demo/skynet/lualib-src/lua-crypt.c\<close>: arithmetic modulo the
  largest 64-bit prime on 64-bit words (\<open>mul_mod_p\<close>, \<open>pow_mod_p\<close>, \<open>powmodp\<close>) and the Lua functions
  \<open>dhexchange\<close> and \<open>dhsecret\<close>.  \<open>pow_mod_p\<close> recurses for ever on an exponent of zero, so it is a partial
  function; its callers exclude zero.
\<close>

definition P :: u64 where "P = 0xffffffffffffffc5"
definition G :: u64 where "G = 5"

lemma drop_bit_1_less: "b \<noteq> 0 \<Longrightarrow> unat (drop_bit 1 b) < unat b" for b :: u64
  by (simp add: drop_bit_eq_div unat_div unat_gt_0)

function mul_mod_p_loop :: "u64 \<Rightarrow> u64 \<Rightarrow> u64 \<Rightarrow> u64" where
  "mul_mod_p_loop m a b =
     (if b = 0 then m
      else
        let m = (if b AND 1 \<noteq> 0 then let t = P - a in if m \<ge> t then m - t else m + a else m);
            a = (if a \<ge> P - a then a * 2 - P else a * 2)
        in mul_mod_p_loop m a (drop_bit 1 b))"
  by pat_completeness auto
termination by (relation "measure (\<lambda>(m, a, b). unat b)") (auto simp: drop_bit_1_less simp del: One_nat_def)

declare mul_mod_p_loop.simps [simp del]

definition mul_mod_p :: "u64 \<Rightarrow> u64 \<Rightarrow> u64" where "mul_mod_p a b = mul_mod_p_loop 0 a b"

partial_function (option) pow_mod_p :: "u64 \<Rightarrow> u64 \<Rightarrow> u64 option" where
  "pow_mod_p a b =
     (if b = 1 then Some a
      else do {
        t \<leftarrow> pow_mod_p a (drop_bit 1 b);
        let t = mul_mod_p t t;
        Some (if b mod 2 \<noteq> 0 then mul_mod_p t a else t) })"

declare pow_mod_p.simps [code]

definition powmodp :: "u64 \<Rightarrow> u64 \<Rightarrow> u64 option" where
  "powmodp a b = (let a = (if a > P then a mod P else a) in pow_mod_p a b)"

definition push64 :: "u64 \<Rightarrow> u8 list" where
  "push64 r = map (\<lambda>i. ucast (drop_bit (8 * i) r AND 0xff)) [0..<8]"

definition join64 :: "u32_2 \<Rightarrow> u64" where
  "join64 x = ucast (fst x) OR push_bit 32 (ucast (snd x))"

text \<open>\<open>Undef\<close> stands for the recursion that never returns.\<close>

definition dh_result :: "u64 option \<Rightarrow> u8 list lua" where
  "dh_result r = (case r of Some r \<Rightarrow> Ret (push64 r) | None \<Rightarrow> Undef)"

definition cant_be_0 :: string where "cant_be_0 = ''Can'' @ [CHR 0x27] @ ''t be 0''"

definition ldhsecret :: "u8 list \<Rightarrow> u8 list \<Rightarrow> u8 list lua" where
  "ldhsecret x y = lua_bind (read64 x y) (\<lambda>(x, y).
     let xx = join64 x; yy = join64 y in
     if xx = 0 \<or> yy = 0 then Err cant_be_0 else dh_result (powmodp xx yy))"

definition ldhexchange :: "u8 list \<Rightarrow> u8 list lua" where
  "ldhexchange x =
     (if length x \<noteq> 8 then Err ''Invalid dh uint64 key''
      else let x64 = join64 (le32 x 0, le32 x 4) in
        if x64 = 0 then Err cant_be_0 else dh_result (powmodp G x64))"

subsection \<open>Arithmetic modulo the prime\<close>

lemma P_val: "unat P = 18446744073709551557"
  by (simp add: P_def)

lemma unat_64: "unat (x :: u64) < 18446744073709551616"
  using unsigned_less [of x] by simp

text \<open>Adding two numbers below the prime without leaving 64 bits.\<close>

lemma add_mod_p:
  assumes "unat a \<le> unat P" "unat m < unat P"
  shows "unat (if m \<ge> P - a then m - (P - a) else m + a) = (unat m + unat a) mod unat P"
proof -
  have t: "unat (P - a) = unat P - unat a" using assms(1) by (simp add: unat_sub word_le_nat_alt)
  show ?thesis
  proof (cases "m \<ge> P - a")
    case True
    then have "unat (m - (P - a)) = unat m - (unat P - unat a)" by (simp add: unat_sub t)
    moreover have "unat P - unat a \<le> unat m" using True t by (simp add: word_le_nat_alt)
    moreover have "(unat m + unat a) mod unat P = unat m + unat a - unat P"
      using assms \<open>unat P - unat a \<le> unat m\<close> by (subst le_mod_geq) auto
    ultimately show ?thesis using True assms(1) by simp
  next
    case False
    then have "unat m < unat P - unat a" by (simp add: word_le_nat_alt t not_le)
    then have lt: "unat m + unat a < unat P" by simp
    then have "unat (m + a) = unat m + unat a" using P_val by (subst unat_add_lem [THEN iffD1]) auto
    then show ?thesis using False lt by simp
  qed
qed

lemma double_mod_p:
  assumes "unat a \<le> unat P"
  shows "unat (if a \<ge> P - a then a * 2 - P else a * 2) mod unat P = 2 * unat a mod unat P"
    "unat (if a \<ge> P - a then a * 2 - P else a * 2) \<le> unat P"
proof -
  have t: "unat (P - a) = unat P - unat a" using assms by (simp add: unat_sub word_le_nat_alt)
  have e: "a * 2 - P = a - (P - a)" by simp
  have "unat (if a \<ge> P - a then a * 2 - P else a * 2) = (if unat P \<le> 2 * unat a then 2 * unat a - unat P else 2 * unat a)"
  proof (cases "a \<ge> P - a")
    case True
    then have "unat (a * 2 - P) = unat a - unat (P - a)" "unat (P - a) \<le> unat a"
      unfolding e by (simp_all only: unat_sub word_le_nat_alt)
    moreover from this(2) have "unat P \<le> 2 * unat a" using t by linarith
    ultimately show ?thesis using True assms t by auto
  next
    case False
    then have lt: "2 * unat a < unat P" using t by (simp add: word_le_nat_alt)
    then have "unat (a * 2) = unat a * 2" using P_val by (subst unat_mult_lem [THEN iffD1]) auto
    then show ?thesis using False lt by simp
  qed
  then show "unat (if a \<ge> P - a then a * 2 - P else a * 2) mod unat P = 2 * unat a mod unat P"
    "unat (if a \<ge> P - a then a * 2 - P else a * 2) \<le> unat P"
    using assms by (auto simp: le_mod_geq)
qed

lemma unat_halves: "unat b = 2 * unat (drop_bit 1 b) + (if b AND 1 \<noteq> 0 then 1 else 0)" for b :: u64
proof -
  have "b AND 1 \<noteq> 0 \<longleftrightarrow> odd (unat b)" by (simp add: and_one_eq odd_iff_mod_2_eq_one flip: unat_eq_zero) (simp add: unat_mod)
  then show ?thesis by (simp add: drop_bit_eq_div unat_div)
qed

lemma mul_mod_p_loop_correct:
  assumes "unat m < unat P" "unat a \<le> unat P"
  shows "unat (mul_mod_p_loop m a b) = (unat m + unat a * unat b) mod unat P"
  using assms
proof (induction m a b rule: mul_mod_p_loop.induct)
  case (1 m a b)
  show ?case
  proof (cases "b = 0")
    case False
    define m' where "m' = (if b AND 1 \<noteq> 0 then let t = P - a in if m \<ge> t then m - t else m + a else m)"
    define a' where "a' = (if a \<ge> P - a then a * 2 - P else a * 2)"
    define bit0 where "bit0 = (if b AND 1 \<noteq> 0 then 1 else 0 :: nat)"
    have m': "unat m' = (unat m + unat a * bit0) mod unat P"
      using add_mod_p [OF "1.prems"(2,1)] "1.prems"(1) by (simp add: m'_def bit0_def Let_def)
    have a': "unat a' mod unat P = 2 * unat a mod unat P" "unat a' \<le> unat P"
      using double_mod_p [OF "1.prems"(2)] by (simp_all only: a'_def)
    have "unat (mul_mod_p_loop m' a' (drop_bit 1 b)) = (unat m' + unat a' * unat (drop_bit 1 b)) mod unat P"
    proof (rule "1.IH" [OF False m'_def a'_def])
      show "unat m' < unat P" unfolding m' by (rule mod_less_divisor) (simp add: P_val)
    qed (rule a'(2))
    also have "\<dots> = (unat m + unat a * bit0 + 2 * unat a * unat (drop_bit 1 b)) mod unat P"
      by (metis (no_types, lifting) m' a'(1) mod_add_cong mod_mod_trivial mod_mult_cong)
    also have "unat m + unat a * bit0 + 2 * unat a * unat (drop_bit 1 b) = unat m + unat a * unat b"
      using unat_halves [of b] by (simp add: bit0_def algebra_simps)
    finally show ?thesis
      using False by (subst mul_mod_p_loop.simps) (simp add: m'_def a'_def Let_def)
  qed (use "1.prems" in \<open>simp add: mul_mod_p_loop.simps\<close>)
qed

lemma mul_mod_p_correct: "unat a \<le> unat P \<Longrightarrow> unat (mul_mod_p a b) = unat a * unat b mod unat P"
  using mul_mod_p_loop_correct [of 0 a b] by (simp add: mul_mod_p_def P_val)

text \<open>The power terminates on every exponent but zero; it is reduced unless the base is the prime and the exponent
  is one.\<close>

lemma pow_mod_p_correct:
  assumes "b \<noteq> 0" "unat a \<le> unat P"
  shows "\<exists>r. pow_mod_p a b = Some r \<and> unat r mod unat P = unat a ^ unat b mod unat P \<and> unat r \<le> unat P \<and>
    (unat a < unat P \<or> b \<noteq> 1 \<longrightarrow> unat r < unat P)"
  using assms
proof (induction "unat b" arbitrary: b rule: less_induct)
  case less
  show ?case
  proof (cases "b = 1")
    case True
    with less.prems show ?thesis by (subst pow_mod_p.simps) auto
  next
    case False
    let ?h = "drop_bit 1 b"
    have "?h \<noteq> 0"
    proof
      assume "?h = 0"
      then have "unat b \<le> 1" using unat_halves [of b] by (simp split: if_splits)
      with False less.prems(1) show False by (metis le_neq_implies_less less_one unat_1 unat_eq_zero word_unat_eq_iff)
    qed
    then obtain t where t: "pow_mod_p a ?h = Some t" "unat t mod unat P = unat a ^ unat ?h mod unat P" "unat t \<le> unat P"
      using less.hyps [OF drop_bit_1_less [OF less.prems(1)] _ less.prems(2)] by blast
    define q where "q = mul_mod_p t t"
    define r where "r = (if b mod 2 \<noteq> 0 then mul_mod_p q a else q)"
    have "pow_mod_p a b = Some r" using False t(1) by (subst pow_mod_p.simps) (simp add: r_def q_def Let_def)
    have P0: "0 < unat P" by (simp add: P_val)
    have q: "unat q = unat t * unat t mod unat P" "unat q < unat P"
      using mul_mod_p_correct [OF t(3)] P0 by (simp_all add: q_def)
    then have q2: "unat q mod unat P = unat a ^ (2 * unat ?h) mod unat P"
      by (metis (no_types, lifting) mod_mod_trivial mod_mult_cong mult_2 power_add t(2))
    have bm: "b mod 2 = b AND 1" by (simp add: and_one_eq)
    have "unat r = unat a ^ unat b mod unat P"
    proof (cases "b AND 1 = 0")
      case True
      then show ?thesis using q2 q(2) unat_halves [of b] by (simp add: r_def bm)
    next
      case odd: False
      then have "unat r = unat q * unat a mod unat P" using mul_mod_p_correct [of q a] q(2) by (simp add: r_def bm)
      also have "\<dots> = unat a ^ (2 * unat ?h) * unat a mod unat P" by (rule mod_mult_cong [OF q2 refl])
      also have "\<dots> = unat a ^ unat b mod unat P" using unat_halves [of b] odd by (simp add: mult.commute)
      finally show ?thesis .
    qed
    then show ?thesis using \<open>pow_mod_p a b = Some r\<close> P0 by (simp add: less_imp_le)
  qed
qed

lemma powmodp_correct:
  assumes "b \<noteq> 0" "a \<noteq> P"
  shows "\<exists>r. powmodp a b = Some r \<and> unat r = unat a ^ unat b mod unat P"
proof -
  define a' where "a' = (if a > P then a mod P else a)"
  have "unat a' = unat a mod unat P" "unat a' < unat P"
    using assms(2) by (auto simp: a'_def unat_mod word_less_nat_alt P_val not_less le_less word_unat_eq_iff)
  moreover obtain r where "pow_mod_p a' b = Some r" "unat r mod unat P = unat a' ^ unat b mod unat P" "unat r < unat P"
    using pow_mod_p_correct [OF assms(1), of a'] calculation(2) by auto
  moreover have "powmodp a b = pow_mod_p a' b" by (simp add: powmodp_def a'_def Let_def)
  ultimately show ?thesis by (simp add: power_mod)
qed

text \<open>The comparison \<open>a > P\<close> leaves the prime itself unreduced.\<close>

lemma powmodp_P_1: "powmodp P 1 = Some P"
  by (simp add: powmodp_def pow_mod_p.simps)

subsection \<open>Bytes of a 64-bit number\<close>

lemma push64_length [simp]: "length (push64 r) = 8"
  by (simp add: push64_def)

lemma and_0xff_64: "(w :: u64) AND 0xff = take_bit 8 w"
  by (simp add: take_bit_eq_mask mask_eq_exp_minus_1)

lemma push64_list: "push64 r = [ucast r, ucast (drop_bit 8 r), ucast (drop_bit 16 r), ucast (drop_bit 24 r),
    ucast (drop_bit 32 r), ucast (drop_bit 40 r), ucast (drop_bit 48 r), ucast (drop_bit 56 r)]"
proof -
  have "(ucast (drop_bit n r AND 0xff) :: u8) = ucast (drop_bit n r)" for n
    unfolding and_0xff_64 by (rule bit_word_eqI) (simp add: bit_simps)
  moreover have "[0..<8] = [0, 1, 2, 3, 4, 5, 6, 7]" by (simp add: upt_rec)
  ultimately show ?thesis unfolding push64_def by simp
qed

definition u64_of :: "u8 list \<Rightarrow> u64" where "u64_of x = join64 (le32 x 0, le32 x 4)"

lemma bit_le32: "length x = 8 \<Longrightarrow> i \<in> {0, 4} \<Longrightarrow> k < 32 \<Longrightarrow> bit (le32 x i) k \<longleftrightarrow> bit (x ! (i + k div 8)) (k mod 8)"
proof -
  assume k: "k < 32"
  have w: "\<not> bit y j" if "8 \<le> j" for y :: u8 and j using that bit_imp_le_length [of y j] by auto
  consider "k < 8" | "8 \<le> k" "k < 16" | "16 \<le> k" "k < 24" | "24 \<le> k" by linarith
  then show ?thesis
  proof cases
    case 1
    then show ?thesis using k by (auto simp: le32_def bit_simps)
  next
    case 2
    then have d: "k div 8 = 1" using k by (intro div_nat_eqI) auto
    then have "k mod 8 = k - 8" using minus_div_mult_eq_mod [of k 8] by simp
    with d show ?thesis using 2 k by (auto simp: le32_def bit_simps w)
  next
    case 3
    then have d: "k div 8 = 2" using k by (intro div_nat_eqI) auto
    then have "k mod 8 = k - 16" using minus_div_mult_eq_mod [of k 8] by simp
    with d show ?thesis using 3 k by (auto simp: le32_def bit_simps w)
  next
    case 4
    then have d: "k div 8 = 3" using k by (intro div_nat_eqI) auto
    then have "k mod 8 = k - 24" using minus_div_mult_eq_mod [of k 8] by simp
    with d show ?thesis using 4 k by (auto simp: le32_def bit_simps w)
  qed
qed

lemma bit_u64_of: "length x = 8 \<Longrightarrow> k < 64 \<Longrightarrow> bit (u64_of x) k \<longleftrightarrow> bit (x ! (k div 8)) (k mod 8)"
proof (cases "k < 32")
  case True
  assume "length x = 8"
  then show ?thesis using True bit_le32 [of x 0 k] by (auto simp: u64_of_def join64_def bit_simps)
next
  case False
  assume "length x = 8" "k < 64"
  moreover obtain j where j: "k = 32 + j" using False by (metis le_Suc_ex not_less)
  moreover have "(32 + j) div 8 = 4 + j div 8" "(32 + j) mod 8 = j mod 8" by presburger+
  moreover have "\<not> bit (le32 x 0) (32 + j)" using bit_imp_le_length [of "le32 x 0" "32 + j"] by auto
  ultimately show ?thesis using bit_le32 [of x 4 j] by (auto simp: u64_of_def join64_def bit_simps)
qed

lemma u64_of_push64 [simp]: "u64_of (push64 r) = r"
proof (rule bit_word_eqI)
  fix k assume k: "k < LENGTH(64)"
  then have "k div 8 < 8" by auto
  then have "push64 r ! (k div 8) = ucast (drop_bit (8 * (k div 8)) r AND 0xff)" by (simp add: push64_def)
  moreover have "8 * (k div 8) + k mod 8 = k" by simp
  ultimately show "bit (u64_of (push64 r)) k = bit r k"
    using k by (simp add: bit_u64_of and_0xff_64 bit_simps)
qed

lemma push64_u64_of: "length x = 8 \<Longrightarrow> push64 (u64_of x) = x"
proof (rule nth_equalityI)
  fix i assume x: "length x = 8" and "i < length (push64 (u64_of x))"
  then have i: "i < 8" by simp
  have "ucast (drop_bit (8 * i) (u64_of x) AND 0xff) = x ! i"
    using i x by (intro bit_word_eqI) (auto simp: and_0xff_64 bit_simps bit_u64_of)
  then show "push64 (u64_of x) ! i = x ! i" using i by (simp add: push64_def)
qed simp

lemma u64_of_zero: "length x = 8 \<Longrightarrow> u64_of x = 0 \<longleftrightarrow> x = replicate 8 0"
proof
  assume x: "length x = 8" "u64_of x = 0"
  then have "x = push64 0" using push64_u64_of by metis
  then show "x = replicate 8 0" by (simp add: push64_list numeral_eq_Suc)
next
  assume "x = replicate 8 0"
  then show "u64_of x = 0" by (simp add: u64_of_def join64_def le32_def)
qed

subsection \<open>The exchange\<close>

lemma ldhexchange_correct:
  assumes "length x = 8" "u64_of x \<noteq> 0"
  shows "\<exists>r. ldhexchange x = Ret (push64 r) \<and> unat r = 5 ^ unat (u64_of x) mod unat P"
proof -
  have "G \<noteq> P" "unat G = 5" by (simp_all add: G_def P_def)
  with powmodp_correct [OF assms(2), of G] obtain r where "powmodp G (u64_of x) = Some r" "unat r = 5 ^ unat (u64_of x) mod unat P"
    by auto
  then show ?thesis using assms by (auto simp: ldhexchange_def dh_result_def Let_def simp flip: u64_of_def)
qed

lemma ldhsecret_correct:
  assumes "length y = 8" "u64_of y \<noteq> 0" "r \<noteq> 0" "unat r < unat P"
  shows "\<exists>s. ldhsecret (push64 r) y = Ret (push64 s) \<and> unat s = unat r ^ unat (u64_of y) mod unat P"
proof -
  have "r \<noteq> P" using assms(4) by auto
  then obtain s where "powmodp r (u64_of y) = Some s" "unat s = unat r ^ unat (u64_of y) mod unat P"
    using powmodp_correct [OF assms(2)] by auto
  then show ?thesis using assms u64_of_push64 [of r]
    by (auto simp: ldhsecret_def read64_def dh_result_def Let_def simp flip: u64_of_def)
qed

lemma power_5_mod_P: "5 ^ n mod unat P \<noteq> 0"
proof
  assume "5 ^ n mod unat P = 0"
  then have "unat P dvd 5 ^ n" by auto
  moreover have "coprime (unat P) 5" unfolding P_val by (simp add: coprime_iff_gcd_eq_1 gcd_nat.simps)
  then have "coprime (unat P) (5 ^ n)" by simp
  ultimately have "unat P = 1" using coprime_absorb_left by (metis nat_dvd_1_iff_1)
  then show False by (simp add: P_val)
qed

text \<open>C14: two sides that draw their keys with randomkey and exchange dhexchange of them compute the same secret with
  dhsecret, whatever the random numbers are: neither call fails, and both secrets are the same eight bytes.\<close>

theorem dh_agreement:
  assumes "length rs1 = 8" "length rs2 = 8"
  shows "\<exists>A B s. ldhexchange (lrandomkey rs1) = Ret A \<and> ldhexchange (lrandomkey rs2) = Ret B \<and>
    ldhsecret B (lrandomkey rs1) = Ret s \<and> ldhsecret A (lrandomkey rs2) = Ret s \<and> length s = 8"
proof -
  let ?x = "lrandomkey rs1" and ?y = "lrandomkey rs2"
  have key: "length (lrandomkey rs) = 8" "u64_of (lrandomkey rs) \<noteq> 0" if "length rs = 8" for rs
    using that lrandomkey_length lrandomkey_nonzero [OF that] by (auto simp: u64_of_zero)
  obtain a where a: "ldhexchange ?x = Ret (push64 a)" "unat a = 5 ^ unat (u64_of ?x) mod unat P"
    using ldhexchange_correct [OF key [OF assms(1)]] by auto
  obtain b where b: "ldhexchange ?y = Ret (push64 b)" "unat b = 5 ^ unat (u64_of ?y) mod unat P"
    using ldhexchange_correct [OF key [OF assms(2)]] by auto
  have nz: "w \<noteq> 0" "unat w < unat P" if "unat w = 5 ^ n mod unat P" for w :: u64 and n
    using that power_5_mod_P [of n] P_val by (auto simp: unat_eq_zero [symmetric] simp del: unat_eq_zero)
  obtain s where s: "ldhsecret (push64 b) ?x = Ret (push64 s)" "unat s = unat b ^ unat (u64_of ?x) mod unat P"
    using ldhsecret_correct [OF key [OF assms(1)] nz [OF b(2)]] by auto
  obtain t where t: "ldhsecret (push64 a) ?y = Ret (push64 t)" "unat t = unat a ^ unat (u64_of ?y) mod unat P"
    using ldhsecret_correct [OF key [OF assms(2)] nz [OF a(2)]] by auto
  have "unat s = unat t" unfolding s(2) t(2) a(2) b(2) by (simp add: power_mod power_mult [symmetric] mult.commute)
  then have "s = t" by (simp add: word_unat_eq_iff)
  with a(1) b(1) s(1) t(1) show ?thesis by auto
qed

theorem dh_agreement_witness:
  "\<exists>A B s. ldhexchange (lrandomkey (replicate 8 0)) = Ret A \<and> ldhexchange (lrandomkey (replicate 8 77)) = Ret B \<and>
    ldhsecret B (lrandomkey (replicate 8 0)) = Ret s \<and> ldhsecret A (lrandomkey (replicate 8 77)) = Ret s \<and> length s = 8"
  by (rule dh_agreement) simp_all

end
