(* ===== verification/Crypt_SHA1.thy ===== *)
theory Crypt_SHA1
  imports Crypt_MD5
begin

unbundle bit_operations_syntax

text \<open>
  SHA-1 and HMAC-SHA1 of \<^verbatim>\<open>009_skynet_demo/skynet/lualib-src/lsha1.c\<close> on a little-endian machine: the
  unrolled compression function over a circular block of 16 words, the streaming context with its two-word bit
  counter, and the Lua functions \<open>sha1\<close> and \<open>hmac_sha1\<close>.  The standard's definition (FIPS 180-4: schedule of 80
  words, padding, block by block) is the specification they are compared with.
\<close>

subsection \<open>Compression function\<close>

definition rol :: "u32 \<Rightarrow> nat \<Rightarrow> u32" where "rol value bits = push_bit bits value OR drop_bit (32 - bits) value"

definition blk0 :: "u32 list \<Rightarrow> nat \<Rightarrow> u32 list" where
  "blk0 block i = block[i := (rol (block ! i) 24 AND 0xFF00FF00) OR (rol (block ! i) 8 AND 0x00FF00FF)]"

definition blk :: "u32 list \<Rightarrow> nat \<Rightarrow> u32 list" where
  "blk block i = block[i mod 16 := rol (block ! ((i + 13) mod 16) XOR block ! ((i + 8) mod 16) XOR
     block ! ((i + 2) mod 16) XOR block ! (i mod 16)) 1]"

type_synonym sha1_vars = "u32 \<times> u32 \<times> u32 \<times> u32 \<times> u32"

text \<open>The macros \<open>R0\<close> to \<open>R4\<close> on the variables in the order \<open>v, w, x, y, z\<close> of their parameters, giving the
  variables in the order in which the next macro of the unrolled loop takes them: \<open>R(a,b,c,d,e,i)\<close> is followed
  by \<open>R(e,a,b,c,d,i+1)\<close>.\<close>

definition R0 :: "nat \<Rightarrow> sha1_vars \<times> u32 list \<Rightarrow> sha1_vars \<times> u32 list" where
  "R0 i s = (let ((v, w, x, y, z), block) = s; block = blk0 block i;
     z = z + (((w AND (x XOR y)) XOR y) + block ! i + 0x5A827999 + rol v 5); w = rol w 30 in ((z, v, w, x, y), block))"

definition R1 :: "nat \<Rightarrow> sha1_vars \<times> u32 list \<Rightarrow> sha1_vars \<times> u32 list" where
  "R1 i s = (let ((v, w, x, y, z), block) = s; block = blk block i;
     z = z + (((w AND (x XOR y)) XOR y) + block ! (i mod 16) + 0x5A827999 + rol v 5); w = rol w 30 in ((z, v, w, x, y), block))"

definition R2 :: "nat \<Rightarrow> sha1_vars \<times> u32 list \<Rightarrow> sha1_vars \<times> u32 list" where
  "R2 i s = (let ((v, w, x, y, z), block) = s; block = blk block i;
     z = z + ((w XOR x XOR y) + block ! (i mod 16) + 0x6ED9EBA1 + rol v 5); w = rol w 30 in ((z, v, w, x, y), block))"

definition R3 :: "nat \<Rightarrow> sha1_vars \<times> u32 list \<Rightarrow> sha1_vars \<times> u32 list" where
  "R3 i s = (let ((v, w, x, y, z), block) = s; block = blk block i;
     z = z + ((((w OR x) AND y) OR (w AND x)) + block ! (i mod 16) + 0x8F1BBCDC + rol v 5); w = rol w 30 in ((z, v, w, x, y), block))"

definition R4 :: "nat \<Rightarrow> sha1_vars \<times> u32 list \<Rightarrow> sha1_vars \<times> u32 list" where
  "R4 i s = (let ((v, w, x, y, z), block) = s; block = blk block i;
     z = z + ((w XOR x XOR y) + block ! (i mod 16) + 0xCA62C1D6 + rol v 5); w = rol w 30 in ((z, v, w, x, y), block))"

definition R_unrolled :: "nat \<Rightarrow> sha1_vars \<times> u32 list \<Rightarrow> sha1_vars \<times> u32 list" where
  "R_unrolled i = (if i < 16 then R0 i else if i < 20 then R1 i else if i < 40 then R2 i else if i < 60 then R3 i else R4 i)"

definition SHA1_Transform :: "sha1_vars \<Rightarrow> u8 list \<Rightarrow> sha1_vars" where
  "SHA1_Transform s buffer =
     (let block = map (\<lambda>i. le32 buffer (4 * i)) [0..<16];
          ((a, b, c, d, e), _) = foldl (\<lambda>s i. R_unrolled i s) (s, block) [0..<80];
          (s0, s1, s2, s3, s4) = s
      in (s0 + a, s1 + b, s2 + c, s3 + d, s4 + e))"

subsection \<open>Streaming\<close>

record SHA1_CTX =
  ctx_state :: sha1_vars
  ctx_count :: "u32 \<times> u32"
  ctx_buffer :: "u8 list"

definition sha1_init :: sha1_vars where
  "sha1_init = (0x67452301, 0xEFCDAB89, 0x98BADCFE, 0x10325476, 0xC3D2E1F0)"

definition sat_SHA1_Init :: "SHA1_CTX \<Rightarrow> SHA1_CTX" where
  "sat_SHA1_Init context = context\<lparr>ctx_state := sha1_init, ctx_count := (0, 0)\<rparr>"

definition memcpy_at :: "u8 list \<Rightarrow> nat \<Rightarrow> u8 list \<Rightarrow> u8 list" where
  "memcpy_at buf j xs = take j buf @ xs @ drop (j + length xs) buf"

text \<open>\<open>for ( ; i + 63 < len; i += 64) SHA1_Transform(context->state, data + i)\<close>, over the rest of the data from \<open>i\<close> on.\<close>

function transform_loop :: "sha1_vars \<Rightarrow> u8 list \<Rightarrow> sha1_vars \<times> u8 list" where
  "transform_loop s data = (if length data > 63 then transform_loop (SHA1_Transform s data) (drop 64 data) else (s, data))"
  by pat_completeness auto
termination by (relation "measure (\<lambda>(s, data). length data)") auto

declare transform_loop.simps [simp del]

definition sat_SHA1_Update :: "SHA1_CTX \<Rightarrow> u8 list \<Rightarrow> SHA1_CTX" where
  "sat_SHA1_Update context data =
     (let len = of_nat (length data) :: u64;
          (count0, count1) = ctx_count context;
          j = unat (drop_bit 3 count0 AND 63);
          count0 = count0 + ucast (push_bit 3 len);
          count1 = (if ucast count0 < push_bit 3 len then count1 + 1 else count1);
          count1 = count1 + ucast (drop_bit 29 len);
          context = context\<lparr>ctx_count := (count0, count1)\<rparr>
      in if j + length data > 63 then
           let i = 64 - j;
               buffer = memcpy_at (ctx_buffer context) j (take i data);
               state = SHA1_Transform (ctx_state context) buffer;
               (state, rest) = transform_loop state (drop i data)
           in context\<lparr>ctx_state := state, ctx_buffer := memcpy_at buffer 0 rest\<rparr>
         else context\<lparr>ctx_buffer := memcpy_at (ctx_buffer context) j data\<rparr>)"

partial_function (option) sha1_pad_loop :: "SHA1_CTX \<Rightarrow> SHA1_CTX option" where
  "sha1_pad_loop context =
     (if fst (ctx_count context) AND 504 \<noteq> 448 then sha1_pad_loop (sat_SHA1_Update context [0]) else Some context)"

declare sha1_pad_loop.simps [code]

definition bytes_be :: "u32 \<Rightarrow> u8 list" where
  "bytes_be w = map (\<lambda>i. ucast (drop_bit ((3 - i) * 8) w AND 255)) [0..<4]"

definition sat_SHA1_Final :: "SHA1_CTX \<Rightarrow> u8 list option" where
  "sat_SHA1_Final context = do {
     let (count0, count1) = ctx_count context;
     let finalcount = bytes_be count1 @ bytes_be count0;
     let context = sat_SHA1_Update context [128];
     context \<leftarrow> sha1_pad_loop context;
     let context = sat_SHA1_Update context finalcount;
     let (s0, s1, s2, s3, s4) = ctx_state context;
     Some (bytes_be s0 @ bytes_be s1 @ bytes_be s2 @ bytes_be s3 @ bytes_be s4) }"

text \<open>The contexts are local variables: \<open>ctx\<close> is what is on the stack before they are initialised.\<close>

definition lsha1 :: "SHA1_CTX \<Rightarrow> u8 list \<Rightarrow> u8 list option" where
  "lsha1 ctx buffer = sat_SHA1_Final (sat_SHA1_Update (sat_SHA1_Init ctx) buffer)"

subsection \<open>HMAC\<close>

definition BLOCKSIZE :: nat where "BLOCKSIZE = 64"

definition xor_key :: "u8 list \<Rightarrow> u32 \<Rightarrow> u8 list" where
  "xor_key key x = concat (map (\<lambda>i. bytes_le (le32 key (4 * i) XOR x)) [0..<16])"

definition lhmac_sha1 :: "SHA1_CTX \<Rightarrow> SHA1_CTX \<Rightarrow> SHA1_CTX \<Rightarrow> u8 list \<Rightarrow> u8 list \<Rightarrow> u8 list option" where
  "lhmac_sha1 ctx ctx1 ctx2 key txt = do {
     rkey \<leftarrow> (if length key > BLOCKSIZE
       then do { d \<leftarrow> sat_SHA1_Final (sat_SHA1_Update (sat_SHA1_Init ctx) key); Some (memcpy_at (replicate BLOCKSIZE 0) 0 d) }
       else Some (memcpy_at (replicate BLOCKSIZE 0) 0 key));
     let rkey = xor_key rkey 0x5c5c5c5c;
     let ctx1 = sat_SHA1_Update (sat_SHA1_Init ctx1) rkey;
     let rkey = xor_key rkey (0x5c5c5c5c XOR 0x36363636);
     let ctx2 = sat_SHA1_Update (sat_SHA1_Init ctx2) rkey;
     let ctx2 = sat_SHA1_Update ctx2 txt;
     digest2 \<leftarrow> sat_SHA1_Final ctx2;
     let ctx1 = sat_SHA1_Update ctx1 digest2;
     sat_SHA1_Final ctx1 }"

subsection \<open>SHA-1 as FIPS 180-4 defines it\<close>

fun sha1_W :: "u32 list \<Rightarrow> nat \<Rightarrow> u32" where
  "sha1_W M t = (if t < 16 then M ! t
     else word_rotl 1 (sha1_W M (t - 3) XOR sha1_W M (t - 8) XOR sha1_W M (t - 14) XOR sha1_W M (t - 16)))"

declare sha1_W.simps [simp del]

definition sha1_f :: "nat \<Rightarrow> u32 \<Rightarrow> u32 \<Rightarrow> u32 \<Rightarrow> u32" where
  "sha1_f t x y z = (if t < 20 then (x AND y) XOR (NOT x AND z) else if t < 40 then x XOR y XOR z
     else if t < 60 then (x AND y) XOR (x AND z) XOR (y AND z) else x XOR y XOR z)"

definition sha1_K :: "nat \<Rightarrow> u32" where
  "sha1_K t = (if t < 20 then 0x5a827999 else if t < 40 then 0x6ed9eba1 else if t < 60 then 0x8f1bbcdc else 0xca62c1d6)"

definition sha1_step :: "u32 list \<Rightarrow> nat \<Rightarrow> sha1_vars \<Rightarrow> sha1_vars" where
  "sha1_step M t s = (let (a, b, c, d, e) = s;
     T = word_rotl 5 a + sha1_f t b c d + e + sha1_K t + sha1_W M t in (T, a, word_rotl 30 b, c, d))"

definition be32 :: "u8 list \<Rightarrow> nat \<Rightarrow> u32" where
  "be32 x i = push_bit 24 (ucast (x ! i)) OR push_bit 16 (ucast (x ! (i + 1))) OR push_bit 8 (ucast (x ! (i + 2))) OR
     ucast (x ! (i + 3))"

definition sha1_compress :: "sha1_vars \<Rightarrow> u8 list \<Rightarrow> sha1_vars" where
  "sha1_compress s m = (let M = map (\<lambda>i. be32 m (4 * i)) [0..<16];
     (a, b, c, d, e) = foldl (\<lambda>s t. sha1_step M t s) s [0..<80]; (h0, h1, h2, h3, h4) = s
   in (h0 + a, h1 + b, h2 + c, h3 + d, h4 + e))"

function sha1_blocks :: "sha1_vars \<Rightarrow> u8 list \<Rightarrow> sha1_vars" where
  "sha1_blocks s m = (if length m < 64 then s else sha1_blocks (sha1_compress s (take 64 m)) (drop 64 m))"
  by pat_completeness auto
termination by (relation "measure (\<lambda>(s, m). length m)") auto

declare sha1_blocks.simps [simp del]

definition sha1_pad :: "u8 list \<Rightarrow> u8 list" where
  "sha1_pad m = m @ 0x80 # replicate ((119 - length m mod 64) mod 64) 0 @
     bytes_be (of_nat (8 * length m div 2 ^ 32)) @ bytes_be (of_nat (8 * length m))"

definition sha1 :: "u8 list \<Rightarrow> u8 list" where
  "sha1 m = (let (a, b, c, d, e) = sha1_blocks sha1_init (sha1_pad m)
     in bytes_be a @ bytes_be b @ bytes_be c @ bytes_be d @ bytes_be e)"

text \<open>HMAC as RFC 2104 defines it, with blocks of 64 bytes.\<close>

definition hmac_key :: "(u8 list \<Rightarrow> u8 list) \<Rightarrow> u8 list \<Rightarrow> u8 list" where
  "hmac_key H K = (let K = (if length K > 64 then H K else K) in K @ replicate (64 - length K) 0)"

definition hmac_spec :: "(u8 list \<Rightarrow> u8 list) \<Rightarrow> u8 list \<Rightarrow> u8 list \<Rightarrow> u8 list" where
  "hmac_spec H K m = H (map (\<lambda>x. x XOR 0x5c) (hmac_key H K) @ H (map (\<lambda>x. x XOR 0x36) (hmac_key H K) @ m))"

subsection \<open>The compression function implements the standard's\<close>

lemma rol_rotl [simp]: "0 < n \<Longrightarrow> n < 32 \<Longrightarrow> rol x n = word_rotl n x"
  by (simp add: rol_def rotl_shifts)

text \<open>Loading a word little-endian and swapping its bytes is loading it big-endian.\<close>

lemma swap_masks: "(0xFF00FF00 :: u32) = push_bit 24 (mask 8) OR push_bit 8 (mask 8)"
  "(0x00FF00FF :: u32) = push_bit 16 (mask 8) OR mask 8"
  by (simp_all add: mask_eq_exp_minus_1)

lemma blk0_be32: "(rol (le32 x i) 24 AND 0xFF00FF00) OR (rol (le32 x i) 8 AND 0x00FF00FF) = be32 x i"
proof (rule bit_word_eqI)
  fix k assume k: "k < LENGTH(32)"
  have w: "\<not> bit y j" if "8 \<le> j" for y :: u8 and j using that bit_imp_le_length [of y j] by auto
  consider "k < 8" | "8 \<le> k" "k < 16" | "16 \<le> k" "k < 24" | "24 \<le> k" by linarith
  then show "bit ((rol (le32 x i) 24 AND 0xFF00FF00) OR (rol (le32 x i) 8 AND 0x00FF00FF)) k = bit (be32 x i) k"
    using k unfolding swap_masks rol_def be32_def le32_def
    by cases (auto simp: bit_simps w)
qed

definition block_inv :: "u8 list \<Rightarrow> nat \<Rightarrow> u32 list \<Rightarrow> bool" where
  "block_inv m i block \<longleftrightarrow> length block = 16 \<and>
     (\<forall>t<i. i \<le> t + 16 \<longrightarrow> block ! (t mod 16) = sha1_W (map (\<lambda>i. be32 m (4 * i)) [0..<16]) t) \<and>
     (\<forall>t<16. i \<le> t \<longrightarrow> block ! t = le32 m (4 * t))"

lemma mod_16_neq:
  assumes "t < i" "i < t + 16"
  shows "t mod 16 \<noteq> i mod (16::nat)"
proof
  assume "t mod 16 = i mod 16"
  then have "16 dvd i - t" using assms(1) mod_eq_dvd_iff_nat [of t i 16] by simp
  then have "16 \<le> i - t" using assms(1) by (intro dvd_imp_le) auto
  then show False using assms by linarith
qed

lemma mod_16_back:
  assumes "16 \<le> (i::nat)"
  shows "(i + 13) mod 16 = (i - 3) mod 16" "(i + 8) mod 16 = (i - 8) mod 16" "(i + 2) mod 16 = (i - 14) mod 16"
    "i mod 16 = (i - 16) mod 16"
proof -
  have cyc: "(j + 16) mod 16 = j mod 16" for j :: nat by simp
  obtain j where i: "i = j + 16" using assms by (metis add.commute le_Suc_ex)
  show "(i + 13) mod 16 = (i - 3) mod 16" "(i + 8) mod 16 = (i - 8) mod 16" "(i + 2) mod 16 = (i - 14) mod 16"
    "i mod 16 = (i - 16) mod 16"
    using cyc [of "13 + j"] cyc [of "8 + j"] cyc [of "2 + j"] by (simp_all add: i)
qed

lemma block_inv_start: "block_inv m 0 (map (\<lambda>i. le32 m (4 * i)) [0..<16])"
  by (simp add: block_inv_def)

lemma block_inv_upd:
  assumes "block_inv m i block" "x = sha1_W (map (\<lambda>i. be32 m (4 * i)) [0..<16]) i"
  shows "block_inv m (Suc i) (block[i mod 16 := x])" "block[i mod 16 := x] ! (i mod 16) = x"
proof -
  have "block[i mod 16 := x] ! (t mod 16) = sha1_W (map (\<lambda>i. be32 m (4 * i)) [0..<16]) t" if "t < Suc i" "Suc i \<le> t + 16" for t
  proof (cases "t = i")
    case False
    then have "t mod 16 \<noteq> i mod 16" using that by (intro mod_16_neq) auto
    with that False assms(1) show ?thesis by (simp add: block_inv_def)
  qed (use assms in \<open>simp add: block_inv_def\<close>)
  moreover have "block[i mod 16 := x] ! t = le32 m (4 * t)" if "t < 16" "Suc i \<le> t" for t
    using that assms(1) by (simp add: block_inv_def)
  ultimately show "block_inv m (Suc i) (block[i mod 16 := x])" "block[i mod 16 := x] ! (i mod 16) = x"
    using assms(1) by (auto simp: block_inv_def)
qed

lemma blk_schedule:
  assumes "block_inv m i block"
  shows "i < 16 \<Longrightarrow> block_inv m (Suc i) (blk0 block i)" "i < 16 \<Longrightarrow> blk0 block i ! i = sha1_W (map (\<lambda>i. be32 m (4 * i)) [0..<16]) i"
    "16 \<le> i \<Longrightarrow> block_inv m (Suc i) (blk block i)" "16 \<le> i \<Longrightarrow> blk block i ! (i mod 16) = sha1_W (map (\<lambda>i. be32 m (4 * i)) [0..<16]) i"
proof -
  let ?M = "map (\<lambda>i. be32 m (4 * i)) [0..<16]"
  {
    assume i: "i < 16"
    then have "(rol (block ! i) 24 AND 0xFF00FF00) OR (rol (block ! i) 8 AND 0x00FF00FF) = sha1_W ?M i"
      using assms by (simp add: block_inv_def blk0_be32 sha1_W.simps [of _ i] del: rol_rotl)
    then show "block_inv m (Suc i) (blk0 block i)" "blk0 block i ! i = sha1_W ?M i"
      using block_inv_upd [OF assms, of "sha1_W ?M i"] i by (simp_all add: blk0_def del: rol_rotl)
  next
    assume i: "16 \<le> i"
    have "block ! (t mod 16) = sha1_W ?M t" if "t < i" "i \<le> t + 16" for t using that assms by (simp add: block_inv_def)
    then have "rol (block ! ((i + 13) mod 16) XOR block ! ((i + 8) mod 16) XOR block ! ((i + 2) mod 16) XOR block ! (i mod 16)) 1 = sha1_W ?M i"
      unfolding mod_16_back [OF i] using i by (simp add: sha1_W.simps [of _ i])
    then show "block_inv m (Suc i) (blk block i)" "blk block i ! (i mod 16) = sha1_W ?M i"
      using block_inv_upd [OF assms, of "sha1_W ?M i"] by (simp_all add: blk_def)
  }
qed

lemma sha1_choose: "(w AND (x XOR y)) XOR y = (w AND x) XOR (NOT w AND y)" for w x y :: u32
  by (rule bit_word_eqI) (auto simp: bit_simps)

lemma sha1_majority: "((w OR x) AND y) OR (w AND x) = (w AND x) XOR (w AND y) XOR (x AND y)" for w x y :: u32
  by (rule bit_word_eqI) (auto simp: bit_simps)

lemma R_unrolled_step:
  assumes "block_inv m i block" "i < 80"
  shows "\<exists>block'. R_unrolled i (s, block) = (sha1_step (map (\<lambda>i. be32 m (4 * i)) [0..<16]) i s, block') \<and> block_inv m (Suc i) block'"
proof -
  obtain v w x y z where s: "s = (v, w, x, y, z)" by (metis prod_cases5)
  note [simp] = s R_unrolled_def R0_def R1_def R2_def R3_def R4_def sha1_step_def sha1_f_def sha1_K_def Let_def sha1_choose sha1_majority
  show ?thesis
  proof (cases "i < 16")
    case True
    then show ?thesis using blk_schedule(1,2) [OF assms(1)] by (simp add: add_ac)
  next
    case False
    then have b: "block_inv m (Suc i) (blk block i)" "blk block i ! (i mod 16) = sha1_W (map (\<lambda>i. be32 m (4 * i)) [0..<16]) i"
      using blk_schedule(3,4) [OF assms(1)] by simp_all
    consider "i < 20" | "20 \<le> i" "i < 40" | "40 \<le> i" "i < 60" | "60 \<le> i" by linarith
    then show ?thesis using b False by cases (simp_all add: add_ac)
  qed
qed

lemma R_unrolled_fold:
  "n \<le> 80 \<Longrightarrow> \<exists>block'. foldl (\<lambda>s i. R_unrolled i s) (s, map (\<lambda>i. le32 m (4 * i)) [0..<16]) [0..<n] =
     (foldl (\<lambda>s t. sha1_step (map (\<lambda>i. be32 m (4 * i)) [0..<16]) t s) s [0..<n], block') \<and> block_inv m n block'"
proof (induction n)
  case 0
  then show ?case using block_inv_start by simp
next
  case (Suc n)
  then obtain b where b: "foldl (\<lambda>s i. R_unrolled i s) (s, map (\<lambda>i. le32 m (4 * i)) [0..<16]) [0..<n] =
     (foldl (\<lambda>s t. sha1_step (map (\<lambda>i. be32 m (4 * i)) [0..<16]) t s) s [0..<n], b)" "block_inv m n b"
    by auto
  show ?case using R_unrolled_step [OF b(2)] Suc.prems b(1) by simp
qed

text \<open>The unrolled compression function, which expands the message schedule in place in a circular buffer of
  sixteen words, computes the compression function of the standard.\<close>

lemma SHA1_Transform_eq: "SHA1_Transform s m = sha1_compress s m"
  using R_unrolled_fold [of 80 s m] by (auto simp: SHA1_Transform_def sha1_compress_def Let_def split: prod.split)

subsection \<open>Streaming\<close>

lemma sha1_compress_take: "64 \<le> length m \<Longrightarrow> sha1_compress s (take 64 m) = sha1_compress s m"
proof -
  assume "64 \<le> length m"
  then have "map (\<lambda>i. be32 (take 64 m) (4 * i)) [0..<16] = map (\<lambda>i. be32 m (4 * i)) [0..<16]"
    by (auto simp: be32_def)
  then show ?thesis by (simp only: sha1_compress_def)
qed

lemma sha1_blocks_short [simp]: "length m < 64 \<Longrightarrow> sha1_blocks s m = s"
  by (simp add: sha1_blocks.simps)

lemma sha1_blocks_block: "length b = 64 \<Longrightarrow> sha1_blocks s (b @ m) = sha1_blocks (sha1_compress s b) m"
  by (simp add: sha1_blocks.simps [of s])

text \<open>What is left of a message behind its whole blocks.\<close>

definition sha1_rest :: "u8 list \<Rightarrow> u8 list" where "sha1_rest m = drop (64 * (length m div 64)) m"

lemma sha1_rest_short [simp]: "length m < 64 \<Longrightarrow> sha1_rest m = m"
  by (simp add: sha1_rest_def)

lemma length_sha1_rest [simp]: "length (sha1_rest m) = length m mod 64"
  by (simp add: sha1_rest_def minus_mult_div_eq_mod)

lemma sha1_rest_block: "length b = 64 \<Longrightarrow> sha1_rest (b @ m) = sha1_rest m"
proof -
  have "(64 + length m) div 64 = 1 + length m div 64" by presburger
  then show "length b = 64 \<Longrightarrow> sha1_rest (b @ m) = sha1_rest m" by (simp add: sha1_rest_def)
qed

lemma block_induct [case_names short block]:
  assumes "\<And>m. length m < 64 \<Longrightarrow> Q m" "\<And>b m. length b = 64 \<Longrightarrow> Q m \<Longrightarrow> Q (b @ m)"
  shows "Q (m :: u8 list)"
proof (induction m rule: length_induct)
  case (1 m)
  show ?case
  proof (cases "length m < 64")
    case False
    then have "Q (take 64 m @ drop 64 m)" using 1 by (intro assms(2)) auto
    then show ?thesis by simp
  qed (rule assms(1))
qed

lemma sha1_append:
  "sha1_blocks s (m @ d) = sha1_blocks (sha1_blocks s m) (sha1_rest m @ d) \<and> sha1_rest (m @ d) = sha1_rest (sha1_rest m @ d)"
proof (induction m arbitrary: s rule: block_induct)
  case (block b m)
  then show ?case by (simp add: sha1_blocks_block sha1_rest_block)
qed simp

lemma transform_loop_blocks: "transform_loop s data = (sha1_blocks s data, sha1_rest data)"
proof (induction data arbitrary: s rule: block_induct)
  case (short m)
  then show ?case by (subst transform_loop.simps) simp
next
  case (block b m)
  then have "SHA1_Transform s (b @ m) = sha1_compress s b"
    using sha1_compress_take [of "b @ m" s] by (simp add: SHA1_Transform_eq)
  with block show ?case by (subst transform_loop.simps) (simp add: sha1_blocks_block sha1_rest_block)
qed

definition sha1_repr :: "SHA1_CTX \<Rightarrow> u8 list \<Rightarrow> bool" where
  "sha1_repr ctx m \<longleftrightarrow> length (ctx_buffer ctx) = 64 \<and> ctx_state ctx = sha1_blocks sha1_init m \<and>
     take (length m mod 64) (ctx_buffer ctx) = sha1_rest m \<and>
     ctx_count ctx = (of_nat (8 * length m), of_nat (8 * length m div 2 ^ 32))"

lemma sha1_repr_Init: "length (ctx_buffer ctx) = 64 \<Longrightarrow> sha1_repr (sat_SHA1_Init ctx) []"
  by (simp add: sha1_repr_def sat_SHA1_Init_def)

text \<open>The bit counter of two words.\<close>

lemma carry_iff: "(a + b) mod N < b \<longleftrightarrow> N \<le> a mod N + b" if "b < N" for a b N :: nat
proof -
  have "0 < N" using that by simp
  then have a: "a mod N < N" by simp
  have m: "(a + b) mod N = (a mod N + b) mod N" by (simp add: mod_add_left_eq)
  show ?thesis
  proof (cases "N \<le> a mod N + b")
    case True
    then have "(a mod N + b) mod N = a mod N + b - N" using a that le_mod_geq [OF True] mod_less [of "a mod N + b - N" N] by linarith
    then show ?thesis unfolding m using True a by linarith
  next
    case False
    then show ?thesis unfolding m by simp
  qed
qed

lemma count_div_carry: "(a + b) div N = a div N + (if (a + b) mod N < b then 1 else 0)" if "b < N" for a b N :: nat
proof -
  have N: "0 < N" "a mod N < N" using that by simp_all
  have "a + b = (a mod N + b) + a div N * N" using div_mult_mod_eq [of a N] by linarith
  then have "(a + b) div N = a div N + (a mod N + b) div N" using N(1) by (metis add.commute div_mult_self1 not_gr_zero)
  moreover have "(a mod N + b) div N = (if N \<le> a mod N + b then 1 else 0)"
  proof (cases "N \<le> a mod N + b")
    case True
    have "a mod N + b < N * Suc 1" using add_strict_mono [OF N(2) that] by simp
    then show ?thesis using True by (simp add: div_nat_eqI)
  qed simp
  ultimately show ?thesis by (simp only: carry_iff [OF that])
qed

lemma count_carry:
  fixes a b :: nat
  assumes "b < 2 ^ 32"
  defines "c \<equiv> (of_nat a + of_nat b :: u32)"
  shows "c = of_nat (a + b)"
    "(of_nat (a div 2 ^ 32) :: u32) + (if unat c < b then 1 else 0) = of_nat ((a + b) div 2 ^ 32)"
proof -
  show c: "c = of_nat (a + b)" by (simp add: c_def)
  have u: "unat c = (a + b) mod 2 ^ 32" unfolding c unat_of_nat by simp
  have "(a + b) div 2 ^ 32 = a div 2 ^ 32 + (if unat c < b then 1 else 0)"
    unfolding u by (rule count_div_carry [OF assms(1)])
  then show "(of_nat (a div 2 ^ 32) :: u32) + (if unat c < b then 1 else 0) = of_nat ((a + b) div 2 ^ 32)"
    by simp
qed

lemma memcpy_at_take:
  assumes "j + length xs \<le> length buf"
  shows "take (j + length xs) (memcpy_at buf j xs) = take j buf @ xs" "length (memcpy_at buf j xs) = length buf"
  using assms by (simp_all add: memcpy_at_def)

lemma count_index: "unat (drop_bit 3 (of_nat (8 * n) :: u32) AND 63) = n mod 64"
proof -
  have "drop_bit 3 (of_nat (8 * n) :: u32) AND 63 = take_bit 6 (drop_bit 3 (of_nat (8 * n)))"
    by (simp add: take_bit_eq_mask mask_eq_exp_minus_1)
  also have "unat \<dots> = (8 * n mod 2 ^ 32) div 8 mod 64"
    unfolding unsigned_take_bit_eq unsigned_drop_bit_eq unat_of_nat
    unfolding take_bit_eq_mod drop_bit_eq_div by simp
  also have "\<dots> = n mod 64"
  proof -
    have "8 * n mod 2 ^ 32 = 8 * (n mod 2 ^ 29)" using mult_mod_right [of 8 n "2 ^ 29"] by simp
    then show ?thesis by (simp add: mod_mod_cancel)
  qed
  finally show ?thesis .
qed

text \<open>The counter of \<open>sat_SHA1_Update\<close>; the comparison with the 64-bit length loses the carry of longer data.\<close>

definition count_add :: "u32 \<times> u32 \<Rightarrow> nat \<Rightarrow> u32 \<times> u32" where
  "count_add c n = (let len = of_nat n :: u64; (count0, count1) = c; count0 = count0 + ucast (push_bit 3 len);
     count1 = (if ucast count0 < push_bit 3 len then count1 + 1 else count1) in (count0, count1 + ucast (drop_bit 29 len)))"

lemma count_add_correct:
  assumes "n < 2 ^ 29"
  shows "count_add (of_nat (8 * k), of_nat (8 * k div 2 ^ 32)) n = (of_nat (8 * (k + n)), of_nat (8 * (k + n) div 2 ^ 32))"
proof -
  let ?len = "of_nat n :: u64"
  have bits: "unat (push_bit 3 ?len) = 8 * n" "drop_bit 29 ?len = 0"
    using assms by (simp_all add: push_bit_eq_mult unat_word_ariths unat_of_nat drop_bit_eq_div word_unat_eq_iff unat_div)
  then have len3: "push_bit 3 ?len = of_nat (8 * n)" by (metis of_nat_unat ucast_id)
  have "take_bit 64 (8 * n) = 8 * n" using assms by (simp add: take_bit_nat_eq_self)
  then have c0: "ucast (push_bit 3 ?len) = (of_nat (8 * n) :: u32)"
    unfolding len3 by (simp only: unsigned_of_nat) simp
  have lt: "ucast c < push_bit 3 ?len \<longleftrightarrow> unat c < 8 * n" for c :: u32
    by (simp add: word_less_nat_alt bits(1) unsigned_ucast_eq take_bit_nat_eq_self order_less_trans [OF unat_u32_less])
  have "8 * n < 2 ^ 32" using assms by simp
  note carry = count_carry [OF this, of "8 * k"]
  have if_add: "(if b then x + 1 else x) = x + (if b then 1 else 0)" for b and x :: u32 by simp
  show ?thesis unfolding count_add_def Let_def prod.case lt bits(2) c0 distrib_left if_add
    unfolding carry(2) unfolding carry(1) by simp
qed

lemma sat_SHA1_Update_count: "ctx_count (sat_SHA1_Update ctx d) = count_add (ctx_count ctx) (length d)"
  by (simp add: sat_SHA1_Update_def count_add_def Let_def split: prod.split)

lemma sha1_repr_Update:
  assumes "sha1_repr ctx m" "length d < 2 ^ 29"
  shows "sha1_repr (sat_SHA1_Update ctx d) (m @ d)"
proof -
  let ?j = "length m mod 64" and ?buf = "ctx_buffer ctx" and ?ctx = "sat_SHA1_Update ctx d"
  have buf: "length ?buf = 64" "take ?j ?buf = sha1_rest m" and st: "ctx_state ctx = sha1_blocks sha1_init m"
    and ct: "ctx_count ctx = (of_nat (8 * length m), of_nat (8 * length m div 2 ^ 32))"
    using assms(1) by (simp_all add: sha1_repr_def)
  have j: "unat (drop_bit 3 (fst (ctx_count ctx)) AND 63) = ?j" unfolding ct fst_conv by (rule count_index)
  have "ctx_count ?ctx = (of_nat (8 * length (m @ d)), of_nat (8 * length (m @ d) div 2 ^ 32))"
    unfolding sat_SHA1_Update_count ct using count_add_correct [OF assms(2)] by simp
  moreover have "length (ctx_buffer ?ctx) = 64 \<and> ctx_state ?ctx = sha1_blocks sha1_init (m @ d) \<and>
      take (length (m @ d) mod 64) (ctx_buffer ?ctx) = sha1_rest (m @ d)"
  proof (cases "?j + length d > 63")
    case True
    let ?i = "64 - ?j" and ?b = "memcpy_at ?buf ?j (take (64 - ?j) d)"
    have b: "?b = sha1_rest m @ take ?i d" "length ?b = 64"
      using memcpy_at_take [of ?j "take ?i d" ?buf] buf True by auto
    have tl: "sha1_rest m @ d = ?b @ drop ?i d" using b(1) by simp
    have e: "sha1_blocks sha1_init (m @ d) = sha1_blocks (sha1_compress (ctx_state ctx) ?b) (drop ?i d)"
      "sha1_rest (m @ d) = sha1_rest (drop ?i d)"
      using sha1_append [of sha1_init m d] b(2) unfolding tl by (simp_all add: sha1_blocks_block sha1_rest_block st)
    have u: "ctx_state ?ctx = sha1_blocks (sha1_compress (ctx_state ctx) ?b) (drop ?i d)"
      "ctx_buffer ?ctx = memcpy_at ?b 0 (sha1_rest (drop ?i d))"
      using True j by (simp_all add: sat_SHA1_Update_def Let_def split_def transform_loop_blocks SHA1_Transform_eq)
    have l: "length (m @ d) mod 64 = length (sha1_rest (drop ?i d))" using e(2) length_sha1_rest by metis
    have "length (sha1_rest (drop ?i d)) \<le> 64" by (simp add: less_imp_le)
    then show ?thesis using memcpy_at_take [of 0 "sha1_rest (drop ?i d)" ?b] b(2) unfolding u e l by simp
  next
    case False
    have u: "ctx_state ?ctx = ctx_state ctx" "ctx_buffer ?ctx = memcpy_at ?buf ?j d"
      using False j by (simp_all add: sat_SHA1_Update_def Let_def split_def)
    have "length (sha1_rest m @ d) < 64" using False by simp
    then have e: "sha1_blocks sha1_init (m @ d) = ctx_state ctx" "sha1_rest (m @ d) = sha1_rest m @ d"
      using sha1_append [of sha1_init m d] by (simp_all add: st)
    have l: "length (m @ d) mod 64 = ?j + length d" using False by (metis length_append length_sha1_rest e(2))
    show ?thesis using memcpy_at_take [of ?j d ?buf] False buf unfolding u e l by simp
  qed
  ultimately show ?thesis by (simp add: sha1_repr_def)
qed

subsection \<open>Padding and digest\<close>

lemma count_504: "fst (ctx_count ctx) AND 504 = 448 \<longleftrightarrow> length m mod 64 = 56" if "sha1_repr ctx m"
proof -
  define w where "w = (of_nat (8 * length m) :: u32)"
  have m: "(504 :: u32) = push_bit 3 (mask 6)" by (simp add: mask_eq_exp_minus_1)
  have "w AND 504 = push_bit 3 (take_bit 6 (drop_bit 3 w))"
    unfolding m by (rule bit_word_eqI) (auto simp: bit_simps)
  moreover have "drop_bit 3 w AND 63 = take_bit 6 (drop_bit 3 w)" by (simp add: take_bit_eq_mask mask_eq_exp_minus_1)
  ultimately have "w AND 504 = push_bit 3 (drop_bit 3 w AND 63)" by simp
  moreover have "unat (drop_bit 3 w AND 63) = length m mod 64" unfolding w_def by (rule count_index)
  then have "drop_bit 3 w AND 63 = of_nat (length m mod 64)" by (metis of_nat_unat ucast_id)
  ultimately have "w AND 504 = of_nat (8 * (length m mod 64))" by (simp add: push_bit_eq_mult)
  moreover have "8 * (length m mod 64) < 2 ^ 32" by (rule order_less_trans [of _ "8 * 64"]) simp_all
  ultimately have "unat (w AND 504) = 8 * (length m mod 64)" by (simp only: unat_of_nat) (simp add: take_bit_nat_eq_self)
  then have "w AND 504 = 448 \<longleftrightarrow> 8 * (length m mod 64) = 448" by (simp add: word_unat_eq_iff)
  then show ?thesis using that by (simp add: sha1_repr_def w_def)
qed

lemma pad_length_step: "(120 - Suc n mod 64) mod 64 = (119 - n mod 64) mod (64::nat)"
proof (cases "n mod 64 = 63")
  case True
  then have "Suc n mod 64 = 0" by (simp add: mod_Suc)
  with True show ?thesis by simp
next
  case False
  then have "Suc n mod 64 = Suc (n mod 64)" by (simp add: mod_Suc)
  then show ?thesis by simp
qed

lemma pad_length_pred:
  assumes "Suc k = (120 - n mod 64) mod (64::nat)"
  shows "k = (120 - Suc n mod 64) mod 64"
proof -
  have "n mod 64 < 64" by simp
  then have "120 - n mod 64 = Suc (119 - n mod 64)" by linarith
  then have "Suc k = Suc (119 - n mod 64) mod 64" using assms by simp
  then have "k = (119 - n mod 64) mod 64" by (simp add: mod_Suc split: if_splits)
  then show ?thesis by (simp only: pad_length_step)
qed

lemma sha1_pad_loop_repr:
  assumes "sha1_repr ctx m" "k = (120 - length m mod 64) mod 64"
  shows "\<exists>ctx'. sha1_pad_loop ctx = Some ctx' \<and> sha1_repr ctx' (m @ replicate k 0)"
  using assms
proof (induction k arbitrary: ctx m)
  case 0
  have "length m mod 64 = 56"
  proof -
    have "(120 - r) mod 64 = 0 \<Longrightarrow> r < 64 \<Longrightarrow> r = (56::nat)" for r by presburger
    then show ?thesis using "0.prems"(2) by simp
  qed
  then show ?case using "0.prems"(1) count_504 [OF "0.prems"(1)] by (subst sha1_pad_loop.simps) simp
next
  case (Suc k)
  have ne: "length m mod 64 \<noteq> 56" using Suc.prems(2) by auto
  have "sha1_repr (sat_SHA1_Update ctx [0]) (m @ [0])" by (rule sha1_repr_Update [OF Suc.prems(1)]) simp
  moreover have "k = (120 - length (m @ [0]) mod 64) mod 64" using pad_length_pred [OF Suc.prems(2)] by simp
  ultimately obtain ctx' where "sha1_pad_loop (sat_SHA1_Update ctx [0]) = Some ctx'" "sha1_repr ctx' ((m @ [0]) @ replicate k 0)"
    using Suc.IH by blast
  then show ?case using ne count_504 [OF Suc.prems(1)] by (subst sha1_pad_loop.simps) simp
qed

lemma length_bytes_be [simp]: "length (bytes_be w) = 4"
  by (simp add: bytes_be_def)

lemma sha1_Final_repr:
  assumes "sha1_repr ctx m"
  shows "sat_SHA1_Final ctx = Some (sha1 m)"
proof -
  have "sha1_repr (sat_SHA1_Update ctx [128]) (m @ [128])" by (rule sha1_repr_Update [OF assms]) simp
  moreover have "(120 - length (m @ [128]) mod 64) mod 64 = (119 - length m mod 64) mod 64" by (simp add: pad_length_step)
  ultimately obtain ctx' where p: "sha1_pad_loop (sat_SHA1_Update ctx [128]) = Some ctx'"
      "sha1_repr ctx' ((m @ [128]) @ replicate ((119 - length m mod 64) mod 64) 0)"
    using sha1_pad_loop_repr by metis
  let ?fc = "bytes_be (of_nat (8 * length m div 2 ^ 32)) @ bytes_be (of_nat (8 * length m))"
  have "sha1_repr (sat_SHA1_Update ctx' ?fc) (((m @ [128]) @ replicate ((119 - length m mod 64) mod 64) 0) @ ?fc)"
    by (rule sha1_repr_Update [OF p(2)]) simp
  then have "ctx_state (sat_SHA1_Update ctx' ?fc) = sha1_blocks sha1_init (sha1_pad m)"
    by (simp add: sha1_repr_def sha1_pad_def)
  moreover have "ctx_count ctx = (of_nat (8 * length m), of_nat (8 * length m div 2 ^ 32))"
    using assms by (simp add: sha1_repr_def)
  ultimately show ?thesis using p(1) by (simp add: sat_SHA1_Final_def sha1_def Let_def split_def)
qed

subsection \<open>Streaming hashes and HMAC\<close>

text \<open>What HMAC needs of a hash function that is fed piece by piece: contexts stand for the message so far, updating
  appends, and the digest is the hash of the whole message.  \<open>limit\<close> bounds one piece.\<close>

locale streaming_hash =
  fixes repr :: "'ctx \<Rightarrow> u8 list \<Rightarrow> bool"
    and fresh :: "'ctx \<Rightarrow> bool"
    and initialise :: "'ctx \<Rightarrow> 'ctx"
    and update :: "'ctx \<Rightarrow> u8 list \<Rightarrow> 'ctx"
    and final :: "'ctx \<Rightarrow> u8 list option"
    and H :: "u8 list \<Rightarrow> u8 list"
    and limit :: nat
  assumes init_repr: "fresh c \<Longrightarrow> repr (initialise c) []"
    and update_repr: "repr c m \<Longrightarrow> length d < limit \<Longrightarrow> repr (update c d) (m @ d)"
    and final_repr: "repr c m \<Longrightarrow> final c = Some (H m)"
begin

lemma hash_one: "fresh c \<Longrightarrow> length m < limit \<Longrightarrow> final (update (initialise c) m) = Some (H m)"
  using update_repr [OF init_repr] final_repr by fastforce

lemma hash_two:
  "fresh c \<Longrightarrow> length k < limit \<Longrightarrow> length m < limit \<Longrightarrow> final (update (update (initialise c) k) m) = Some (H (k @ m))"
  using update_repr [OF update_repr [OF init_repr]] final_repr by fastforce

text \<open>HMAC built from an inner and an outer context.\<close>

lemma hmac_two_contexts:
  assumes "fresh c" "fresh c1" "fresh c2" "\<And>m. length (H m) \<le> 64" "64 < limit" "length K < limit" "length m < limit"
  defines "K' \<equiv> hmac_key H K"
  shows "do {
      rkey \<leftarrow> (if length K > 64 then do { d \<leftarrow> final (update (initialise c) K); Some (d @ replicate (64 - length d) 0) }
        else Some (K @ replicate (64 - length K) 0));
      d2 \<leftarrow> final (update (update (initialise c2) (map (\<lambda>x. x XOR 0x36) rkey)) m);
      final (update (update (initialise c1) (map (\<lambda>x. x XOR 0x5c) rkey)) d2) } = Some (hmac_spec H K m)"
proof -
  have len: "length K' = 64" using assms(4) by (simp add: K'_def hmac_key_def Let_def)
  have "(if length K > 64 then do { d \<leftarrow> final (update (initialise c) K); Some (d @ replicate (64 - length d) 0) }
        else Some (K @ replicate (64 - length K) 0)) = Some K'"
    using hash_one [OF assms(1,6)] by (simp add: K'_def hmac_key_def Let_def)
  moreover have "length (H x) < limit" for x using assms(4) [of x] assms(5) by linarith
  ultimately show ?thesis using hash_two assms(2,3,5,7) len by (simp add: hmac_spec_def flip: K'_def)
qed

end

interpretation sha1_stream: streaming_hash sha1_repr "\<lambda>ctx. length (ctx_buffer ctx) = 64" sat_SHA1_Init sat_SHA1_Update
  sat_SHA1_Final sha1 "2 ^ 29"
  by unfold_locales (auto intro: sha1_repr_Init sha1_repr_Update sha1_Final_repr)

text \<open>C11: sha1 of a string shorter than 512 MiB returns the SHA-1 of the standard, whatever the uninitialised context
  on the stack holds.\<close>

theorem lsha1_standard:
  assumes "length (ctx_buffer ctx) = 64" "length m < 2 ^ 29"
  shows "lsha1 ctx m = Some (sha1 m)"
  unfolding lsha1_def using assms by (rule sha1_stream.hash_one)

theorem lsha1_standard_witness:
  "lsha1 \<lparr>ctx_state = sha1_init, ctx_count = (3, 4), ctx_buffer = replicate 64 7\<rparr> (bytes_of ''abc'') = Some (sha1 (bytes_of ''abc''))"
  by (rule lsha1_standard) (simp_all add: bytes_of_def)

text \<open>From 512 MiB on the counter of the bits is wrong after the first piece of data: its high word is one larger than
  that of the number of bits.\<close>

theorem SHA1_Update_long_count:
  assumes "2 ^ 29 \<le> length d" "length d < 2 ^ 61"
  shows "ctx_count (sat_SHA1_Update (sat_SHA1_Init ctx) d) = (of_nat (8 * length d), of_nat (8 * length d div 2 ^ 32) + 1)"
proof -
  let ?len = "of_nat (length d) :: u64"
  have "unat (push_bit 3 ?len) = 8 * length d"
    using assms(2) by (simp add: push_bit_eq_mult unat_word_ariths unat_of_nat)
  moreover from this have len3: "push_bit 3 ?len = of_nat (8 * length d)" by (metis of_nat_unat ucast_id)
  ultimately have "ucast c < push_bit 3 ?len" for c :: u32
    using unat_u32_less [of c] assms(1) by (simp add: word_less_nat_alt unsigned_ucast_eq take_bit_nat_eq_self order_less_trans [OF unat_u32_less])
  moreover have "ucast (push_bit 3 ?len) = (of_nat (8 * length d) :: u32)"
    unfolding len3 using assms(2) by (simp only: unsigned_of_nat) (simp add: take_bit_nat_eq_self)
  moreover have "ucast (drop_bit 29 ?len) = (of_nat (8 * length d div 2 ^ 32) :: u32)"
  proof -
    have "unat (drop_bit 29 ?len) = length d div 2 ^ 29"
      using assms(2) by (simp add: drop_bit_eq_div unat_div unat_of_nat take_bit_nat_eq_self)
    then have "drop_bit 29 ?len = of_nat (length d div 2 ^ 29)" by (metis of_nat_unat ucast_id)
    moreover have "length d div 2 ^ 29 < 2 ^ 64" using assms(2) by (simp add: less_mult_imp_div_less)
    ultimately show ?thesis by (simp only: unsigned_of_nat) (simp add: take_bit_nat_eq_self)
  qed
  ultimately show ?thesis
    by (simp add: sat_SHA1_Update_count count_add_def sat_SHA1_Init_def Let_def add.commute)
qed

theorem SHA1_Update_long_count_witness:
  "ctx_count (sat_SHA1_Update (sat_SHA1_Init \<lparr>ctx_state = sha1_init, ctx_count = (3, 4), ctx_buffer = replicate 64 7\<rparr>)
     (replicate (2 ^ 29) 0)) = (0, 2)"
  using SHA1_Update_long_count [of "replicate (2 ^ 29) 0" "\<lparr>ctx_state = sha1_init, ctx_count = (3, 4), ctx_buffer = replicate 64 7\<rparr>"]
  by simp

lemma bytes_le_le32: "bytes_le (le32 x i) = [x ! i, x ! (i + 1), x ! (i + 2), x ! (i + 3)]"
proof -
  have w: "\<not> bit y (8 + j)" "\<not> bit y (16 + j)" "\<not> bit y (24 + j)" for y :: u8 and j by (rule word_high_bits)+
  show ?thesis unfolding bytes_le_def le32_def and_masks by (auto intro!: bit_word_eqI simp: bit_simps w)
qed

lemma concat_quads: "concat (map (\<lambda>i. [f (4 * i), f (4 * i + 1), f (4 * i + 2), f (4 * i + 3)]) [0..<n]) = map f [0..<4 * n]"
proof (induction n)
  case (Suc n)
  have q: "[k..<k + 4] = [k, k + 1, k + 2, k + 3]" for k :: nat by (simp add: upt_rec)
  have "4 * Suc n = 4 * n + 4" by simp
  then have "[0..<4 * Suc n] = [0..<4 * n] @ [4 * n, 4 * n + 1, 4 * n + 2, 4 * n + 3]"
    using upt_add_eq_append [of 0 "4 * n" 4] q [of "4 * n"] by (metis le0)
  with Suc show ?case by simp
qed simp

lemma xor_key_bytes:
  assumes "bytes_le w = [b, b, b, b]" "length key = 64"
  shows "xor_key key w = map (\<lambda>x. x XOR b) key"
proof -
  have "xor_key key w = map (\<lambda>i. key ! i XOR b) [0..<64]"
    unfolding xor_key_def bytes_le_xor assms(1) bytes_le_le32 using concat_quads [of "\<lambda>i. key ! i XOR b" 16] by simp
  then show ?thesis using assms(2) by (auto intro!: nth_equalityI)
qed

lemma pad_constants: "bytes_le 0x5c5c5c5c = [0x5c, 0x5c, 0x5c, 0x5c]"
  "bytes_le (0x5c5c5c5c XOR 0x36363636) = [0x6a, 0x6a, 0x6a, 0x6a]"
  by (simp_all add: bytes_le_def)

lemma ipad_from_opad: "map (\<lambda>x. x XOR 0x6a) (map (\<lambda>x. x XOR 0x5c) k) = map (\<lambda>x. x XOR 0x36) (k :: u8 list)"
  by (simp add: xor.assoc)

lemma sha1_length: "length (sha1 m) = 20"
  by (simp add: sha1_def split: prod.split)

text \<open>C25: hmac_sha1 of a key and a text shorter than 512 MiB returns the HMAC of RFC 2104 over the SHA-1 of the
  standard.\<close>

theorem lhmac_sha1_standard:
  assumes "length (ctx_buffer ctx) = 64" "length (ctx_buffer ctx1) = 64" "length (ctx_buffer ctx2) = 64"
    "length key < 2 ^ 29" "length m < 2 ^ 29"
  shows "lhmac_sha1 ctx ctx1 ctx2 key m = Some (hmac_spec sha1 key m)"
proof -
  let ?rkey = "if length key > 64
    then do { d \<leftarrow> sat_SHA1_Final (sat_SHA1_Update (sat_SHA1_Init ctx) key); Some (d @ replicate (64 - length d) 0) }
    else Some (key @ replicate (64 - length key) 0)"
  have spec: "do { rkey \<leftarrow> ?rkey;
      d2 \<leftarrow> sat_SHA1_Final (sat_SHA1_Update (sat_SHA1_Update (sat_SHA1_Init ctx2) (map (\<lambda>x. x XOR 0x36) rkey)) m);
      sat_SHA1_Final (sat_SHA1_Update (sat_SHA1_Update (sat_SHA1_Init ctx1) (map (\<lambda>x. x XOR 0x5c) rkey)) d2) }
      = Some (hmac_spec sha1 key m)"
    by (rule sha1_stream.hmac_two_contexts) (use assms in \<open>simp_all add: sha1_length\<close>)
  then obtain rkey where rkey: "?rkey = Some rkey" by (auto simp: bind_Some_iff simp del: if_split)
  have "length rkey = 64"
    using rkey sha1_stream.hash_one [OF assms(1,4)] by (auto simp: sha1_length split: if_splits)
  then have xk: "xor_key rkey 0x5c5c5c5c = map (\<lambda>x. x XOR 0x5c) rkey"
    "xor_key (map (\<lambda>x. x XOR 0x5c) rkey) (0x5c5c5c5c XOR 0x36363636) = map (\<lambda>x. x XOR 0x36) rkey"
    using xor_key_bytes [OF pad_constants(1), of rkey] xor_key_bytes [OF pad_constants(2), of "map (\<lambda>x. x XOR 0x5c) rkey"]
    by (simp_all only: ipad_from_opad length_map)
  have mc: "memcpy_at (replicate 64 0) 0 x = x @ replicate (64 - length x) 0" for x
    by (simp add: memcpy_at_def)
  show ?thesis using spec rkey unfolding lhmac_sha1_def BLOCKSIZE_def mc by (simp only: Let_def xk bind.bind_lunit)
qed

theorem lhmac_sha1_standard_witness:
  "lhmac_sha1 \<lparr>ctx_state = sha1_init, ctx_count = (3, 4), ctx_buffer = replicate 64 7\<rparr>
     \<lparr>ctx_state = sha1_init, ctx_count = (5, 6), ctx_buffer = replicate 64 8\<rparr>
     \<lparr>ctx_state = sha1_init, ctx_count = (7, 8), ctx_buffer = replicate 64 9\<rparr> (replicate 80 1) (bytes_of ''abc'') =
   Some (hmac_spec sha1 (replicate 80 1) (bytes_of ''abc''))"
  by (rule lhmac_sha1_standard) (simp_all add: bytes_of_def)

end
