(* ===== verification/Ecos_Config_File.thy ===== *)
theory Ecos_Config_File
  imports C_String C_Memory "HOL-Library.Sublist"
begin

text \<open>
  The configuration files of \<^verbatim>\<open>041_ecos_mib/apps/ecos/ecos_config_file.c\<close>: writing keys and values as lines of text,
  reading a line back into \<open>s_line_info\<close>, and the version check.  A file system maps paths to contents; the stream that
  \<open>s_config_file_fd\<close> points to either holds what is still to be read or the path it writes to.  \<open>sscanf\<close> reads numbers
  as the GNU C library does: an unsigned 64 bit value cut to the width of the argument.  The machine is little-endian.
  \<open>None\<close> is undefined behaviour: writing behind an array, or printing to a stream that is not open.
\<close>

subsection \<open>Data\<close>

record config_file =
  cf_key :: string
  cf_mib :: u32
  cf_type :: int
  cf_index :: u8
  cf_comment :: string
  cf_pdata :: "u8 list"
  cf_len :: u32

datatype cfile = Reading string | Writing string

record cf_state =
  cf_fs :: "string \<rightharpoonup> string"
  cf_writable :: "string \<Rightarrow> bool"
  cf_fd :: "cfile option"
  cf_line_info :: config_file

definition CF_MAX_BUF :: nat where "CF_MAX_BUF = 20480"
definition CF_ENTER :: string where "CF_ENTER = [CHR 0x0D, CHR 0x0A]"
definition CF_VER_KEY :: string where "CF_VER_KEY = ''ecos_version''"
definition CF_DEF_KEY :: string where "CF_DEF_KEY = ''key''"
definition CF_DEF_MIB :: string where "CF_DEF_MIB = ''mib''"
definition CF_DEF_TYPE :: string where "CF_DEF_TYPE = ''type''"
definition CF_DEF_VAL :: string where "CF_DEF_VAL = ''val''"
definition CF_DEF_INDEX :: string where "CF_DEF_INDEX = ''index''"
definition CF_DEF_COMMENT :: string where "CF_DEF_COMMENT = ''comment''"

definition ECOS_CF_U32 :: int where "ECOS_CF_U32 = 0"
definition ECOS_CF_IP :: int where "ECOS_CF_IP = 1"
definition ECOS_CF_MAC :: int where "ECOS_CF_MAC = 2"
definition ECOS_CF_STRING :: int where "ECOS_CF_STRING = 3"
definition ECOS_CF_HEX :: int where "ECOS_CF_HEX = 4"

definition s_key_list :: "(int \<times> string) list" where
  "s_key_list = [(ECOS_CF_U32, ''u32''), (ECOS_CF_IP, ''ip''), (ECOS_CF_MAC, ''mac''), (ECOS_CF_STRING, ''string''), (ECOS_CF_HEX, ''hex'')]"

definition ECOS_VERSION_STRING :: string where "ECOS_VERSION_STRING = ''3.3.1''"
definition ECOS_CONFIG_FILE_NO_INDEX :: u8 where "ECOS_CONFIG_FILE_NO_INDEX = NOT 0"
definition ECOS_CONFIG_FILE_VERSION_HEAD :: int where "ECOS_CONFIG_FILE_VERSION_HEAD = 0"
definition ECOS_CONFIG_FILE_VERSION_OK :: int where "ECOS_CONFIG_FILE_VERSION_OK = 0"
definition ECOS_CONFIG_FILE_VERSION_ERROR :: int where "ECOS_CONFIG_FILE_VERSION_ERROR = 1"

definition LINE_INFO :: int where "LINE_INFO = 0"
definition LINE_EOF :: int where "LINE_EOF = -1"
definition LINE_NO_INFO :: int where "LINE_NO_INFO = -2"

subsection \<open>The C library\<close>

text \<open>\<open>strstr\<close>: the rest of the string from the first occurrence on.\<close>

fun strstr :: "string \<Rightarrow> string \<Rightarrow> string option" where
  "strstr s pat = (if prefix pat s then Some s else case s of [] \<Rightarrow> None | c # cs \<Rightarrow> strstr cs pat)"

declare strstr.simps [simp del]

text \<open>\<open>fgets\<close> into an array of \<open>n\<close> characters: a line with its newline, or \<open>n - 1\<close> characters of it.\<close>

definition fgets :: "nat \<Rightarrow> string \<Rightarrow> (string \<times> string) option" where
  "fgets n s = (if s = [] then None
     else let l = takeWhile (\<lambda>c. c \<noteq> CHR 0x0A) s;
              k = min (n - 1) (if length l < length s then length l + 1 else length l)
          in Some (take k s, drop k s))"

lemma fgets_split:
  assumes "fgets n s = Some (line, rest)" "1 < n"
  shows "s = line @ rest" "length rest < length s"
proof -
  let ?l = "takeWhile (\<lambda>c. c \<noteq> CHR 0x0A) s"
  let ?k = "min (n - 1) (if length ?l < length s then length ?l + 1 else length ?l)"
  have s: "s \<noteq> []" "line = take ?k s" "rest = drop ?k s" using assms(1) by (auto simp: fgets_def Let_def split: if_splits)
  have "0 < ?k" using s(1) assms(2) by auto
  then show "length rest < length s" using s by (simp add: length_greater_0_conv [symmetric] del: length_greater_0_conv)
  show "s = line @ rest" using s(2,3) by simp
qed

text \<open>One \<open>%u\<close> (base 10) or \<open>%x\<close> (base 16) of \<open>sscanf\<close>: the number and what follows it.\<close>

definition scan_uint :: "nat \<Rightarrow> string \<Rightarrow> (u64 \<times> string) option" where
  "scan_uint base s =
     (let (neg, t) = strip_sign (dropWhile c_isspace s);
          t = (if base = 16 \<and> (prefix ''0x'' t \<or> prefix ''0X'' t) then drop 2 t else t);
          ds = takeWhile (is_digit base) t;
          v = digits_val base ds
      in if ds = [] then None
         else Some (if v \<ge> 2 ^ 64 then 2 ^ 64 - 1 else if neg then - of_nat v else of_nat v, drop (length ds) t))"

text \<open>\<open>%02x\<close> and \<open>%08x\<close>.\<close>

definition show_hex_pad :: "nat \<Rightarrow> nat \<Rightarrow> string" where
  "show_hex_pad k n = replicate (k - length (show_hex_nat n)) (CHR ''0'') @ show_hex_nat n"

definition chars_of :: "u8 list \<Rightarrow> string" where "chars_of bs = map (\<lambda>b. char_of (unat b)) bs"

subsection \<open>Reading\<close>

fun content_loop :: "string \<Rightarrow> (string \<times> string) option" where
  "content_loop [] = None"
| "content_loop (c # cs) =
     (if c = CHR 0x5C \<and> cs \<noteq> [] \<and> hd cs = CHR 0x22 then map_option (map_prod (Cons (CHR 0x22)) id) (content_loop (tl cs))
      else if c = CHR 0x22 then Some ([], cs)
      else map_option (map_prod (Cons c) id) (content_loop cs))"

definition read_content :: "string \<Rightarrow> (string \<times> string) option" where
  "read_content buf = do { pos \<leftarrow> strstr buf [CHR 0x22]; content_loop (tl pos) }"

text \<open>The four numbers of an address: the fields read before the text stops matching.\<close>

fun scan_ip :: "nat \<Rightarrow> nat \<Rightarrow> string \<Rightarrow> u8 list \<Rightarrow> u8 list option" where
  "scan_ip i 0 content pdata = Some pdata"
| "scan_ip i (Suc n) content pdata =
     (case scan_uint 10 content of
        None \<Rightarrow> Some pdata
      | Some (v, rest) \<Rightarrow> do {
          pdata \<leftarrow> array_set pdata i (ucast v);
          (if n \<noteq> 0 \<and> rest \<noteq> [] \<and> hd rest = CHR ''.'' then scan_ip (i + 1) n (tl rest) pdata else Some pdata) })"

function hex_loop :: "string \<Rightarrow> u8 list \<Rightarrow> u32 \<Rightarrow> (u8 list \<times> u32) option" where
  "hex_loop content pdata ln =
     (case content of
        [] \<Rightarrow> Some (pdata, ln)
      | c # cs \<Rightarrow>
          if c = CHR '' '' then hex_loop cs pdata ln
          else do {
            pdata \<leftarrow> (case scan_uint 16 content of None \<Rightarrow> Some pdata | Some (v, _) \<Rightarrow> array_set pdata (unat ln) (ucast v));
            hex_loop (dropWhile (\<lambda>c. c \<noteq> CHR '' '') content) pdata (ln + 1) })"
  by auto
termination
  by (relation "measure (\<lambda>(content, _). length content)") (auto simp: le_imp_less_Suc length_dropWhile_le)

declare hex_loop.simps [simp del]

definition read_type_val :: "config_file \<Rightarrow> string \<Rightarrow> config_file option" where
  "read_type_val info content =
     (if cf_type info = ECOS_CF_U32 then do {
        pdata \<leftarrow> (case scan_uint 10 content of
            None \<Rightarrow> Some (cf_pdata info)
          | Some (v, _) \<Rightarrow> store_bytes (cf_pdata info) 0 (u32_bytes (ucast v)));
        Some (info\<lparr>cf_pdata := pdata, cf_len := 4\<rparr>) }
      else if cf_type info = ECOS_CF_IP then do {
        pdata \<leftarrow> scan_ip 0 4 content (cf_pdata info);
        Some (info\<lparr>cf_pdata := pdata, cf_len := 4\<rparr>) }
      else if cf_type info = ECOS_CF_STRING then do {
        pdata \<leftarrow> store_bytes (cf_pdata info) 0 (bytes_of (content @ [NUL]));
        Some (info\<lparr>cf_pdata := pdata, cf_len := of_nat (length content + 1)\<rparr>) }
      else if cf_type info = ECOS_CF_MAC \<or> cf_type info = ECOS_CF_HEX then do {
        (pdata, ln) \<leftarrow> hex_loop content (cf_pdata info) (cf_len info);
        Some (info\<lparr>cf_pdata := pdata, cf_len := ln\<rparr>) }
      else Some info)"

text \<open>The type named by a text; the last match counts, and without a match the old type stays.\<close>

definition type_of_text :: "int \<Rightarrow> string \<Rightarrow> int" where
  "type_of_text old content = fold (\<lambda>(t, k) ty. if k = content then t else ty) s_key_list old"

definition key_line :: "config_file \<Rightarrow> string \<Rightarrow> config_file option" where
  "key_line info buf =
     (case read_content buf of
        None \<Rightarrow> Some info
      | Some (content, buf) \<Rightarrow>
          if length content \<ge> 64 then None
          else let info = info\<lparr>cf_key := content @ NUL # drop (length content + 1) (cf_key info)\<rparr> in
            Some (if strstr buf CF_DEF_MIB = None then info
            else (case read_content buf of
                None \<Rightarrow> info
              | Some (content, buf) \<Rightarrow>
                  let info = (case scan_uint 16 content of None \<Rightarrow> info | Some (v, _) \<Rightarrow> info\<lparr>cf_mib := ucast v\<rparr>) in
                  if strstr buf CF_DEF_TYPE = None then info
                  else (case read_content buf of
                      None \<Rightarrow> info
                    | Some (content, _) \<Rightarrow> info\<lparr>cf_type := type_of_text (cf_type info) content\<rparr>))))"

definition val_line :: "config_file \<Rightarrow> string \<Rightarrow> (int \<times> config_file) option" where
  "val_line info buf =
     (case read_content buf of
        None \<Rightarrow> Some (LINE_NO_INFO, info)
      | Some (content, buf) \<Rightarrow> do {
          info \<leftarrow> read_type_val info content;
          Some (if strstr buf CF_DEF_INDEX = None then (LINE_INFO, info)
           else (case read_content buf of
               None \<Rightarrow> (LINE_NO_INFO, info)
             | Some (content, _) \<Rightarrow>
                 (LINE_INFO, case scan_uint 16 content of None \<Rightarrow> info | Some (v, _) \<Rightarrow> info\<lparr>cf_index := ucast v\<rparr>))) })"

definition parse_line :: "config_file \<Rightarrow> string \<Rightarrow> (int \<times> config_file) option" where
  "parse_line info buf =
     (case strstr buf (''<'' @ CF_DEF_KEY @ '' '') of
        Some pos \<Rightarrow> map_option (\<lambda>info. (LINE_NO_INFO, info)) (key_line info (tl pos))
      | None \<Rightarrow>
          (case strstr buf (''<'' @ CF_DEF_VAL @ '' '') of
             Some pos \<Rightarrow> val_line info (tl pos)
           | None \<Rightarrow> Some (LINE_NO_INFO, info)))"

definition file_get_line :: "cf_state \<Rightarrow> (int \<times> cf_state) option" where
  "file_get_line st =
     (case cf_fd st of
        None \<Rightarrow> None
      | Some (Writing p) \<Rightarrow> Some (LINE_EOF, st)
      | Some (Reading s) \<Rightarrow>
          (case fgets CF_MAX_BUF s of
             None \<Rightarrow> Some (LINE_EOF, st)
           | Some (line, rest) \<Rightarrow> do {
               (r, info) \<leftarrow> parse_line (cf_line_info st) (cstr line);
               Some (r, st\<lparr>cf_fd := Some (Reading rest), cf_line_info := info\<rparr>) }))"

datatype load_result = Cf_Eof | Cf_Null | Cf_Info config_file

definition ecos_config_file_load_data :: "cf_state \<Rightarrow> (load_result \<times> cf_state) option" where
  "ecos_config_file_load_data st = do {
     let st = st\<lparr>cf_line_info := (cf_line_info st)\<lparr>cf_index := 0, cf_len := 0\<rparr>\<rparr>;
     (result, st) \<leftarrow> file_get_line st;
     Some (if result = LINE_EOF then Cf_Eof else if result = LINE_INFO then Cf_Info (cf_line_info st) else Cf_Null, st) }"

subsection \<open>Writing\<close>

definition ecos_config_file_fprintf :: "cf_state \<Rightarrow> string \<Rightarrow> cf_state option" where
  "ecos_config_file_fprintf st s =
     (case cf_fd st of
        None \<Rightarrow> None
      | Some (Reading _) \<Rightarrow> Some st
      | Some (Writing p) \<Rightarrow> Some (st\<lparr>cf_fs := (cf_fs st)(p \<mapsto> (case cf_fs st p of None \<Rightarrow> [] | Some t \<Rightarrow> t) @ s)\<rparr>))"

definition ecos_config_file_save_key :: "cf_state \<Rightarrow> config_file option \<Rightarrow> cf_state option" where
  "ecos_config_file_save_key st config_db =
     (case config_db of
        Some c \<Rightarrow> do {
          key \<leftarrow> cstr_at (cf_key c) 0;
          st \<leftarrow> ecos_config_file_fprintf st (''<'' @ CF_DEF_KEY @ '' '' @ [CHR 0x22] @ key @ [CHR 0x22]);
          st \<leftarrow> ecos_config_file_fprintf st ('' '' @ CF_DEF_MIB @ '' '' @ [CHR 0x22] @ ''0x'' @ show_hex_pad 8 (unat (cf_mib c)) @ [CHR 0x22]);
          ty \<leftarrow> (if 0 \<le> cf_type c then array_get s_key_list (nat (cf_type c)) else None);
          st \<leftarrow> ecos_config_file_fprintf st ('' '' @ CF_DEF_TYPE @ '' '' @ [CHR 0x22] @ snd ty @ [CHR 0x22]);
          ecos_config_file_fprintf st (''>'' @ CF_ENTER) }
      | None \<Rightarrow> ecos_config_file_fprintf st (''</'' @ CF_DEF_KEY @ ''>'' @ CF_ENTER @ CF_ENTER))"

text \<open>The text between the quotes; \<open>Some None\<close> is the type error.\<close>

definition val_text :: "config_file \<Rightarrow> string option option" where
  "val_text c =
     (if cf_type c = ECOS_CF_U32 then map_option (\<lambda>w. Some (show_nat (unat w))) (bytes_u32 (cf_pdata c))
      else if cf_type c = ECOS_CF_IP then
        (case cf_pdata c of
           b0 # b1 # b2 # b3 # _ \<Rightarrow> Some (Some (show_nat (unat b3) @ ''.'' @ show_nat (unat b2) @ ''.'' @ show_nat (unat b1) @ ''.'' @ show_nat (unat b0)))
         | _ \<Rightarrow> None)
      else if cf_type c = ECOS_CF_STRING then map_option Some (cstr_at (chars_of (cf_pdata c)) 0)
      else if cf_type c = ECOS_CF_MAC \<or> cf_type c = ECOS_CF_HEX then
        (if unat (cf_len c) \<le> length (cf_pdata c)
         then Some (Some (concat (map (\<lambda>b. show_hex_pad 2 (unat b) @ '' '') (take (unat (cf_len c)) (cf_pdata c)))))
         else None)
      else Some None)"

definition ecos_config_file_save_val :: "cf_state \<Rightarrow> config_file \<Rightarrow> (config_file \<times> cf_state) option" where
  "ecos_config_file_save_val st config_db = do {
     st \<leftarrow> ecos_config_file_fprintf st ([CHR 0x09] @ ''<'' @ CF_DEF_VAL @ '' '' @ [CHR 0x22]);
     let c = (if cf_type config_db = ECOS_CF_MAC then config_db\<lparr>cf_len := 6\<rparr> else config_db);
     v \<leftarrow> val_text c;
     (case v of
        None \<Rightarrow> Some (c, st)
      | Some s \<Rightarrow> do {
          st \<leftarrow> ecos_config_file_fprintf st s;
          st \<leftarrow> ecos_config_file_fprintf st [CHR 0x22];
          st \<leftarrow> (if cf_index c \<noteq> ECOS_CONFIG_FILE_NO_INDEX
            then ecos_config_file_fprintf st ('' '' @ CF_DEF_INDEX @ '' '' @ [CHR 0x22] @ ''0x'' @ show_hex_pad 2 (unat (cf_index c)) @ [CHR 0x22])
            else Some st);
          comment \<leftarrow> cstr_at (cf_comment c) 0;
          st \<leftarrow> (if comment \<noteq> []
            then ecos_config_file_fprintf st ('' '' @ CF_DEF_COMMENT @ '' '' @ [CHR 0x22] @ comment @ [CHR 0x22])
            else Some st);
          st \<leftarrow> ecos_config_file_fprintf st (''>'' @ CF_ENTER);
          Some (c, st) }) }"

subsection \<open>Versions, opening and closing\<close>

definition version_head :: string where "version_head = ''<'' @ CF_VER_KEY @ '' '' @ ECOS_VERSION_STRING @ ''>''"
definition version_tail :: string where "version_tail = ''</'' @ CF_VER_KEY @ ''>''"

definition ecos_config_file_save_version :: "cf_state \<Rightarrow> int \<Rightarrow> cf_state option" where
  "ecos_config_file_save_version st flag =
     (if flag \<noteq> ECOS_CONFIG_FILE_VERSION_HEAD then ecos_config_file_fprintf st (version_tail @ CF_ENTER @ CF_ENTER)
      else do {
        st \<leftarrow> ecos_config_file_fprintf st (''<!-- config data base -->'' @ CF_ENTER);
        st \<leftarrow> ecos_config_file_fprintf st (''<!-- note: make sure you should not modify index valude -->'' @ CF_ENTER);
        st \<leftarrow> ecos_config_file_fprintf st (''<!--       if you need add character '' @ [CHR 0x22] @ '', please set escape code '' @
                [CHR 0x5C, CHR 0x22] @ '' -->'' @ CF_ENTER @ CF_ENTER);
        ecos_config_file_fprintf st (version_head @ CF_ENTER @ CF_ENTER) })"

function version_loop :: "string \<Rightarrow> bool \<times> bool \<Rightarrow> bool \<times> bool" where
  "version_loop s flags =
     (case fgets CF_MAX_BUF s of
        None \<Rightarrow> flags
      | Some (line, rest) \<Rightarrow>
          if prefix version_head (cstr line) then version_loop rest (True, snd flags)
          else if prefix version_tail (cstr line) then version_loop rest (fst flags, True)
          else version_loop rest flags)"
  by auto
termination
  by (relation "measure (\<lambda>(s, _). length s)") (auto simp: CF_MAX_BUF_def dest: fgets_split)

declare version_loop.simps [simp del]

definition ecos_config_file_check_version :: "cf_state \<Rightarrow> string \<Rightarrow> int" where
  "ecos_config_file_check_version st fname =
     (case cf_fs st fname of
        None \<Rightarrow> ECOS_CONFIG_FILE_VERSION_ERROR
      | Some s \<Rightarrow> (if version_loop s (False, False) = (True, True) then ECOS_CONFIG_FILE_VERSION_OK else ECOS_CONFIG_FILE_VERSION_ERROR))"

text \<open>Opening for reading or writing; the code uses no other mode.\<close>

definition ecos_config_file_open :: "cf_state \<Rightarrow> string \<Rightarrow> string \<Rightarrow> int \<times> cf_state" where
  "ecos_config_file_open st fname mode =
     (let st = (if mode = ''r'' then st\<lparr>cf_fd := map_option Reading (cf_fs st fname)\<rparr>
                else if mode = ''w'' \<and> cf_writable st fname then st\<lparr>cf_fs := (cf_fs st)(fname \<mapsto> []), cf_fd := Some (Writing fname)\<rparr>
                else st\<lparr>cf_fd := None\<rparr>)
      in (if cf_fd st = None then -1 else 0, st))"

definition ecos_config_file_close :: "cf_state \<Rightarrow> cf_state" where
  "ecos_config_file_close st = (if cf_fd st \<noteq> None then st\<lparr>cf_fd := None\<rparr> else st)"

definition ecos_config_file_init :: "cf_state \<Rightarrow> int \<times> cf_state" where
  "ecos_config_file_init st = (0, st\<lparr>cf_fd := None\<rparr>)"

definition ecos_config_file_free :: "cf_state \<Rightarrow> cf_state" where
  "ecos_config_file_free st = ecos_config_file_close st"

text \<open>The loop of \<open>ecos_config_file_load\<close> (\<^verbatim>\<open>ecos_oem_database.c\<close>), with what it does with a value as an argument.\<close>

partial_function (option) load_loop ::
  "(config_file \<Rightarrow> 'm \<Rightarrow> 'm option) \<Rightarrow> 'm \<times> cf_state \<Rightarrow> ('m \<times> cf_state) option" where
  "load_loop handle s = do {
     (config_file, st) \<leftarrow> ecos_config_file_load_data (snd s);
     (case config_file of
        Cf_Eof \<Rightarrow> Some (fst s, st)
      | Cf_Null \<Rightarrow> load_loop handle (fst s, st)
      | Cf_Info info \<Rightarrow> do { m \<leftarrow> handle info (fst s); load_loop handle (m, st) }) }"

declare load_loop.simps [code]

subsection \<open>Scanning what was printed\<close>

lemma fgets_line:
  assumes "CHR 0x0A \<notin> set l" "length l + 1 < n"
  shows "fgets n (l @ CHR 0x0A # rest) = Some (l @ [CHR 0x0A], rest)"
proof -
  have t: "takeWhile (\<lambda>c. c \<noteq> CHR 0x0A) (l @ CHR 0x0A # rest) = l"
    by (subst takeWhile_append2) (use assms(1) in auto)
  have "min (n - 1) (length l + 1) = length l + 1" using assms(2) by simp
  then show ?thesis by (simp add: fgets_def t Let_def)
qed

lemma strstr_prefix: "prefix pat s \<Longrightarrow> strstr s pat = Some s"
  by (subst strstr.simps) simp

lemma strstr_skip: "\<not> prefix pat (c # s) \<Longrightarrow> strstr (c # s) pat = strstr s pat"
  by (subst strstr.simps) simp

lemma strstr_Nil: "pat \<noteq> [] \<Longrightarrow> strstr [] pat = None"
  by (subst strstr.simps) simp

lemma strstr_hd: "c \<noteq> d \<Longrightarrow> strstr (c # s) (d # pat) = strstr s (d # pat)"
  by (simp add: strstr_skip)

text \<open>A pattern whose first character does not occur.\<close>

lemma strstr_notin: "d \<notin> set s \<Longrightarrow> strstr (s @ t) (d # pat) = strstr t (d # pat)"
  by (induction s) (auto simp: strstr_hd)

lemma strstr_none: "d \<notin> set s \<Longrightarrow> strstr s (d # pat) = None"
  using strstr_notin [of d s "[]" pat] by (simp add: strstr_Nil)

lemma content_loop_text:
  assumes "CHR 0x22 \<notin> set v" "v = [] \<or> last v \<noteq> CHR 0x5C"
  shows "content_loop (v @ CHR 0x22 # rest) = Some (v, rest)"
  using assms
proof (induction v)
  case (Cons c v)
  have "\<not> (c = CHR 0x5C \<and> hd (v @ CHR 0x22 # rest) = CHR 0x22)"
    using Cons.prems by (cases v) auto
  moreover have "content_loop (v @ CHR 0x22 # rest) = Some (v, rest)" using Cons by (cases "v = []") auto
  ultimately show ?case using Cons.prems by auto
qed simp

lemma read_content_text:
  assumes "CHR 0x22 \<notin> set pre" "CHR 0x22 \<notin> set v" "v = [] \<or> last v \<noteq> CHR 0x5C"
  shows "read_content (pre @ CHR 0x22 # v @ CHR 0x22 # rest) = Some (v, rest)"
  using assms by (simp add: read_content_def strstr_notin strstr_prefix content_loop_text)

lemma hex_digit_char: "d < 16 \<Longrightarrow> digit_val (''0123456789abcdef'' ! d) = Some d"
  by (auto simp: digit_val_def less_Suc_eq numeral_eq_Suc)

lemma show_hex_nat_digits: "list_all (is_digit 16) (show_hex_nat n) \<and> digits_val 16 (show_hex_nat n) = n \<and> show_hex_nat n \<noteq> []"
proof (induction n rule: show_hex_nat.induct)
  case (1 n)
  have d: "digit_val (''0123456789abcdef'' ! (n mod 16)) = Some (n mod 16)" by (rule hex_digit_char) simp
  show ?case
  proof (cases "n < 16")
    case True
    then show ?thesis using hex_digit_char [of n] by (simp add: show_hex_nat.simps [of n] is_digit_def digits_val_def del: One_nat_def)
  next
    case False
    with 1 [OF False] d show ?thesis
      by (simp add: show_hex_nat.simps [of n] is_digit_def digits_val_snoc del: One_nat_def)
  qed
qed

lemma digits_val_zeros: "digits_val b (replicate k (CHR ''0'') @ s) = digits_val b s"
proof -
  have z: "digit_val (CHR ''0'') = Some 0" by (simp add: digit_val_def)
  have "foldl (\<lambda>a c. a * b + the (digit_val c)) 0 (replicate k (CHR ''0'')) = 0" by (induction k) (simp_all add: z)
  then show ?thesis by (simp add: digits_val_def)
qed

lemma show_hex_pad_digits: "list_all (is_digit 16) (show_hex_pad k n) \<and> digits_val 16 (show_hex_pad k n) = n \<and> show_hex_pad k n \<noteq> []"
  using show_hex_nat_digits [of n]
  by (auto simp: show_hex_pad_def digits_val_zeros list_all_iff is_digit_def digit_val_def)

lemma is_digit_chars: "is_digit b c \<Longrightarrow> c \<noteq> CHR ''-'' \<and> c \<noteq> CHR ''+'' \<and> c \<noteq> CHR ''x'' \<and> c \<noteq> CHR ''X'' \<and> c \<noteq> CHR '' '' \<and> \<not> c_isspace c \<and>
    c \<noteq> CHR 0x22 \<and> c \<noteq> CHR 0x5C \<and> c \<noteq> CHR 0x0A \<and> c \<noteq> CHR ''<'' \<and> c \<noteq> NUL"
  by (auto simp: is_digit_def digit_val_def c_isspace_def split: if_splits option.splits)

lemma takeWhile_digits:
  assumes "list_all (is_digit b) ds" "rest = [] \<or> \<not> is_digit b (hd rest)"
  shows "takeWhile (is_digit b) (ds @ rest) = ds"
  using assms by (cases rest) (auto simp: takeWhile_append list_all_iff)

lemma scan_uint_digits:
  assumes ds: "list_all (is_digit b) ds" "ds \<noteq> []" "digits_val b ds < 2 ^ 64" and r: "rest = [] \<or> \<not> is_digit b (hd rest) \<and> hd rest \<noteq> CHR ''x'' \<and> hd rest \<noteq> CHR ''X''"
  shows "scan_uint b (ds @ rest) = Some (of_nat (digits_val b ds), rest)"
proof -
  obtain c cs where c: "ds = c # cs" "is_digit b c" using ds by (cases ds) auto
  have sp: "dropWhile c_isspace (ds @ rest) = ds @ rest" "strip_sign (ds @ rest) = (False, ds @ rest)"
    using is_digit_chars [OF c(2)] c by (auto simp: strip_sign_def)
  have x: "\<not> prefix ''0x'' (ds @ rest) \<and> \<not> prefix ''0X'' (ds @ rest)"
  proof (cases cs)
    case Nil
    then show ?thesis using c r by (cases rest) auto
  next
    case (Cons d ds')
    then have "is_digit b d" using ds c by simp
    then show ?thesis using c Cons is_digit_chars [of b d] by auto
  qed
  have tw: "takeWhile (is_digit b) (ds @ rest) = ds" using takeWhile_digits [OF ds(1)] r by auto
  show ?thesis unfolding scan_uint_def Let_def sp using x tw ds(2,3) by simp
qed

lemma scan_uint_0x:
  assumes ds: "list_all (is_digit 16) ds" "ds \<noteq> []" "digits_val 16 ds < 2 ^ 64" and r: "rest = [] \<or> \<not> is_digit 16 (hd rest)"
  shows "scan_uint 16 (''0x'' @ ds @ rest) = Some (of_nat (digits_val 16 ds), rest)"
proof -
  have sp: "dropWhile c_isspace (''0x'' @ ds @ rest) = ''0x'' @ ds @ rest" "strip_sign (''0x'' @ ds @ rest) = (False, ''0x'' @ ds @ rest)"
    by (simp_all add: c_isspace_def strip_sign_def)
  show ?thesis unfolding scan_uint_def Let_def sp using takeWhile_digits [OF ds(1) r] ds(2,3) by simp
qed

lemma scan_uint_show_nat:
  assumes "n < 2 ^ 64" "rest = [] \<or> \<not> is_digit 10 (hd rest) \<and> hd rest \<noteq> CHR ''x'' \<and> hd rest \<noteq> CHR ''X''"
  shows "scan_uint 10 (show_nat n @ rest) = Some (of_nat n, rest)"
  using scan_uint_digits [of 10 "show_nat n" rest] show_nat_digits [of n] assms by simp

lemma scan_uint_show_hex:
  assumes "n < 2 ^ 64" "rest = [] \<or> \<not> is_digit 16 (hd rest)"
  shows "scan_uint 16 (''0x'' @ show_hex_pad k n @ rest) = Some (of_nat n, rest)"
  using scan_uint_0x [of "show_hex_pad k n" rest] show_hex_pad_digits [of k n] assms by simp

lemma ucast_u8_u64 [simp]: "ucast (ucast (b :: u8) :: u64) = b"
  by (simp add: unsigned_ucast_eq bit_eq_iff) (auto simp: bit_simps)

text \<open>Hexadecimal bytes.\<close>

lemma show_hex_pad_chars: "c \<in> set (show_hex_pad k n) \<Longrightarrow> is_digit 16 c"
  using show_hex_pad_digits [of k n] by (auto simp: list_all_iff)

lemma show_nat_chars: "c \<in> set (show_nat n) \<Longrightarrow> is_digit 10 c"
  using show_nat_digits [of n] by (auto simp: list_all_iff)

definition hex_text :: "u8 list \<Rightarrow> string" where
  "hex_text bs = concat (map (\<lambda>b. show_hex_pad 2 (unat b) @ '' '') bs)"

lemma dropWhile_hex: "dropWhile (\<lambda>c. c \<noteq> CHR '' '') (show_hex_pad k n @ '' '' @ rest) = '' '' @ rest"
  using is_digit_chars [OF show_hex_pad_chars] by (subst dropWhile_append2) auto

lemma hex_loop_text:
  assumes "unat ln + length bs \<le> length pdata" "length pdata < 2 ^ 32"
  shows "hex_loop (hex_text bs) pdata ln = map_option (\<lambda>p. (p, ln + of_nat (length bs))) (store_bytes pdata (unat ln) bs)"
  using assms
proof (induction bs arbitrary: pdata ln)
  case Nil
  then show ?case by (subst hex_loop.simps) (simp add: hex_text_def)
next
  case (Cons b bs)
  let ?d = "show_hex_pad 2 (unat b)"
  obtain c cs where c: "?d = c # cs" using show_hex_pad_digits [of 2 "unat b"] by (cases ?d) auto
  have "c \<noteq> CHR '' ''" using show_hex_pad_chars [of c 2 "unat b"] is_digit_chars c by simp
  have t: "hex_text (b # bs) = ?d @ '' '' @ hex_text bs" by (simp add: hex_text_def)
  have "unat b < 256" by (rule unat_u8_less)
  then have "scan_uint 16 (hex_text (b # bs)) = Some (ucast b, '' '' @ hex_text bs)"
    unfolding t using scan_uint_digits [of 16 ?d "'' '' @ hex_text bs"] show_hex_pad_digits [of 2 "unat b"]
    by (simp add: is_digit_def digit_val_def)
  moreover have "unat ln < length pdata" using Cons.prems by simp
  moreover have "hex_loop ('' '' @ hex_text bs) p (ln + 1) = hex_loop (hex_text bs) p (ln + 1)" for p
    by (subst hex_loop.simps) simp
  moreover have u: "unat (ln + 1) = unat ln + 1" using Cons.prems unat_u32_less [of ln] by (simp add: unat_word_ariths)
  ultimately have "hex_loop (hex_text (b # bs)) pdata ln = hex_loop (hex_text bs) (pdata[unat ln := b]) (ln + 1)"
    using \<open>c \<noteq> CHR '' ''\<close> dropWhile_hex [of 2 "unat b" "hex_text bs"] c
    by (subst hex_loop.simps) (simp add: t)
  then show ?case using Cons.IH [of "ln + 1" "pdata[unat ln := b]"] Cons.prems u by (simp add: algebra_simps)
qed

text \<open>Addresses.\<close>

lemma scan_ip_step:
  assumes "i < length pdata" "n = 0 \<or> rest \<noteq> [] \<and> hd rest = CHR ''.''" "n = 0 \<longrightarrow> rest = []"
  shows "scan_ip i (Suc n) (show_nat (unat (b :: u8)) @ rest) pdata =
    (if n = 0 then Some (pdata[i := b]) else scan_ip (i + 1) n (tl rest) (pdata[i := b]))"
proof -
  have "unat b < 256" by (rule unat_u8_less)
  then have "scan_uint 10 (show_nat (unat b) @ rest) = Some (ucast b, rest)"
    using scan_uint_show_nat [of "unat b" rest] assms(2,3) by (auto simp: is_digit_def digit_val_def)
  then show ?thesis using assms by auto
qed

lemma scan_ip_text:
  assumes "4 \<le> length pdata"
  shows "scan_ip 0 4 (show_nat (unat b3) @ ''.'' @ show_nat (unat b2) @ ''.'' @ show_nat (unat b1) @ ''.'' @ show_nat (unat b0)) pdata =
    store_bytes pdata 0 [b3, b2, b1, b0]"
proof -
  have n: "(4::nat) = Suc (Suc (Suc (Suc 0)))" by simp
  have s: "scan_ip i (Suc (Suc n)) (show_nat (unat b) @ ''.'' @ t) p = scan_ip (i + 1) (Suc n) t (p[i := b])"
    if "i < length p" for i n t p and b :: u8
    using scan_ip_step [of i p "Suc n" "''.'' @ t" b] that by (simp del: scan_ip.simps)
  have e: "scan_ip i (Suc 0) (show_nat (unat b)) p = Some (p[i := b])" if "i < length p" for i p and b :: u8
    using scan_ip_step [of i p 0 "[]" b] that by (simp del: scan_ip.simps)
  obtain a0 a1 a2 a3 r where "pdata = a0 # a1 # a2 # a3 # r"
    using assms by (auto simp: Suc_le_length_iff numeral_eq_Suc)
  then show ?thesis unfolding n using s e by (simp del: scan_ip.simps append_Cons append_Nil)
qed

subsection \<open>Values\<close>

lemma bytes_chars [simp]: "bytes_of (chars_of bs) = bs"
proof -
  have "(of_char (char_of (unat b) :: char) :: u8) = of_nat (of_char (char_of (unat b) :: char))" for b :: u8
    by (simp only: of_nat_of_char)
  then have "(of_char (char_of (unat b) :: char) :: u8) = b" for b :: u8 using unat_u8_less [of b] by simp
  then show ?thesis by (induction bs) (simp_all add: bytes_of_def chars_of_def)
qed

lemma chars_bytes [simp]: "chars_of (bytes_of s) = s"
proof -
  have "unat (of_char c :: u8) = of_char c" for c
  proof -
    have "(of_char c :: nat) < 256" by simp
    moreover have "(of_char c :: u8) = of_nat (of_char c)" by (simp only: of_nat_of_char)
    ultimately show ?thesis by (simp add: unsigned_of_nat take_bit_nat_eq_self del: of_nat_of_char)
  qed
  then have "char_of (unat (of_char c :: u8)) = c" for c by simp
  then show ?thesis by (induction s) (simp_all add: chars_of_def bytes_of_def)
qed

text \<open>Texts that can stand between the quotes.\<close>

definition quotable :: "string \<Rightarrow> bool" where
  "quotable s \<longleftrightarrow> CHR 0x22 \<notin> set s \<and> CHR 0x0A \<notin> set s \<and> NUL \<notin> set s \<and> (s = [] \<or> last s \<noteq> CHR 0x5C)"

text \<open>The bytes of \<open>pdata\<close> that \<open>ecos_config_file_save_val\<close> prints.\<close>

definition saved_data :: "config_file \<Rightarrow> u8 list" where
  "saved_data c =
     (if cf_type c = ECOS_CF_U32 \<or> cf_type c = ECOS_CF_IP then take 4 (cf_pdata c)
      else if cf_type c = ECOS_CF_STRING then bytes_of (cstr (chars_of (cf_pdata c)) @ [NUL])
      else if cf_type c = ECOS_CF_MAC then take 6 (cf_pdata c)
      else take (unat (cf_len c)) (cf_pdata c))"

text \<open>The bytes that \<open>ecos_config_file_load_data\<close> delivers for them.  They are the same except for an address: saving
  takes \<open>pdata\<close> for a word of the little-endian machine and prints its high byte, \<open>pdata[3]\<close>, first, while loading stores the
  number printed first in \<open>pdata[0]\<close>, so the four bytes come back in the opposite order, that of the network.\<close>

definition delivered_data :: "config_file \<Rightarrow> u8 list" where
  "delivered_data c = (if cf_type c = ECOS_CF_IP then rev (saved_data c) else saved_data c)"

lemma delivered_data_eq:
  "delivered_data c =
     (if cf_type c = ECOS_CF_U32 then take 4 (cf_pdata c)
      else if cf_type c = ECOS_CF_IP then rev (take 4 (cf_pdata c))
      else if cf_type c = ECOS_CF_STRING then bytes_of (cstr (chars_of (cf_pdata c)) @ [NUL])
      else if cf_type c = ECOS_CF_MAC then take 6 (cf_pdata c)
      else take (unat (cf_len c)) (cf_pdata c))"
  by (simp add: delivered_data_def saved_data_def ECOS_CF_U32_def ECOS_CF_IP_def)

definition value_ok :: "config_file \<Rightarrow> bool" where
  "value_ok c =
     (if cf_type c = ECOS_CF_U32 \<or> cf_type c = ECOS_CF_IP then 4 \<le> length (cf_pdata c)
      else if cf_type c = ECOS_CF_STRING
        then NUL \<in> set (chars_of (cf_pdata c)) \<and> quotable (cstr (chars_of (cf_pdata c))) \<and> CHR ''<'' \<notin> set (cstr (chars_of (cf_pdata c)))
      else if cf_type c = ECOS_CF_MAC then 6 \<le> length (cf_pdata c)
      else cf_type c = ECOS_CF_HEX \<and> unat (cf_len c) \<le> length (cf_pdata c))"

definition with_len :: "config_file \<Rightarrow> config_file" where
  "with_len c = (if cf_type c = ECOS_CF_MAC then c\<lparr>cf_len := 6\<rparr> else c)"

lemmas cf_types = ECOS_CF_U32_def ECOS_CF_IP_def ECOS_CF_MAC_def ECOS_CF_STRING_def ECOS_CF_HEX_def

lemma value_cases:
  assumes "value_ok c"
  obtains
    (u32) w where "cf_type c = ECOS_CF_U32" "bytes_u32 (cf_pdata c) = Some w" "val_text (with_len c) = Some (Some (show_nat (unat w)))"
  | (ip) b0 b1 b2 b3 r where "cf_type c = ECOS_CF_IP" "cf_pdata c = b0 # b1 # b2 # b3 # r" "val_text (with_len c) =
      Some (Some (show_nat (unat b3) @ ''.'' @ show_nat (unat b2) @ ''.'' @ show_nat (unat b1) @ ''.'' @ show_nat (unat b0)))"
  | (str) s where "cf_type c = ECOS_CF_STRING" "s = cstr (chars_of (cf_pdata c))" "quotable s" "CHR ''<'' \<notin> set s" "val_text (with_len c) = Some (Some s)"
  | (hex) "cf_type c = ECOS_CF_MAC \<or> cf_type c = ECOS_CF_HEX" "length (delivered_data c) = unat (cf_len (with_len c))"
      "val_text (with_len c) = Some (Some (hex_text (delivered_data c)))"
proof -
  consider "cf_type c = ECOS_CF_U32" | "cf_type c = ECOS_CF_IP" | "cf_type c = ECOS_CF_STRING" | "cf_type c = ECOS_CF_MAC \<or> cf_type c = ECOS_CF_HEX"
    using assms by (auto simp: value_ok_def split: if_splits)
  then show thesis
  proof cases
    case 1
    then obtain w where "bytes_u32 (cf_pdata c) = Some w"
      using assms by (auto simp: value_ok_def bytes_u32_def Suc_le_length_iff numeral_eq_Suc)
    with 1 u32 show thesis by (simp add: val_text_def with_len_def cf_types)
  next
    case 2
    then obtain b0 b1 b2 b3 r where "cf_pdata c = b0 # b1 # b2 # b3 # r"
      using assms by (auto simp: value_ok_def Suc_le_length_iff numeral_eq_Suc)
    with 2 ip show thesis by (simp add: val_text_def with_len_def cf_types)
  next
    case 3
    with assms str show thesis by (simp add: val_text_def with_len_def value_ok_def cstr_at_def cf_types)
  next
    case 4
    with assms hex show thesis
      by (auto simp: val_text_def with_len_def value_ok_def delivered_data_eq hex_text_def cf_types min_absorb2 split: if_splits)
  qed
qed

lemma hex_text_chars: "c \<in> set (hex_text bs) \<Longrightarrow> is_digit 16 c \<or> c = CHR '' ''"
  by (auto simp: hex_text_def dest: show_hex_pad_chars split: if_splits)

lemma length_hex_text: "length bs \<le> length (hex_text bs)"
  by (induction bs) (auto simp: hex_text_def)

lemma quotable_chars:
  assumes "\<And>c. c \<in> set s \<Longrightarrow> is_digit b c \<or> c \<in> {CHR '' '', CHR ''.''}"
  shows "quotable s" "CHR ''<'' \<notin> set s"
proof -
  have "c \<noteq> CHR 0x22 \<and> c \<noteq> CHR 0x0A \<and> c \<noteq> NUL \<and> c \<noteq> CHR 0x5C \<and> c \<noteq> CHR ''<''" if "c \<in> set s" for c
    using assms [OF that] is_digit_chars [of b c] by auto
  then show "quotable s" "CHR ''<'' \<notin> set s" using last_in_set [of s] unfolding quotable_def by blast+
qed

lemma value_text:
  assumes "value_ok c"
  shows "\<exists>v. val_text (with_len c) = Some (Some v) \<and> quotable v \<and> CHR ''<'' \<notin> set v"
  using assms
proof (cases rule: value_cases)
  case (u32 w)
  then show ?thesis using quotable_chars [of "show_nat (unat w)" 10] show_nat_chars by auto
next
  case (ip b0 b1 b2 b3 r)
  let ?s = "show_nat (unat b3) @ ''.'' @ show_nat (unat b2) @ ''.'' @ show_nat (unat b1) @ ''.'' @ show_nat (unat b0)"
  have "is_digit 10 x \<or> x \<in> {CHR '' '', CHR ''.''}" if "x \<in> set ?s" for x
    using that by (auto dest: show_nat_chars)
  with ip show ?thesis using quotable_chars [of ?s 10] by blast
next
  case str
  then show ?thesis by simp
next
  case hex
  then show ?thesis using quotable_chars [of "hex_text (delivered_data c)" 16] hex_text_chars by blast
qed

text \<open>Reading the printed value gives the data back.\<close>

lemma read_valueI:
  assumes "read_type_val info v = Some (info\<lparr>cf_pdata := bs @ rest, cf_len := ln\<rparr>)" "unat ln = length bs" "delivered_data c = bs"
    "length bs + length rest = CF_MAX_BUF"
  shows "\<exists>pdata ln. read_type_val info v = Some (info\<lparr>cf_pdata := pdata, cf_len := ln\<rparr>) \<and> length pdata = CF_MAX_BUF \<and>
    take (unat ln) pdata = delivered_data c \<and> unat ln = length (delivered_data c)"
  using assms by (intro exI [of _ "bs @ rest"] exI [of _ ln]) simp

lemma read_value:
  assumes ok: "value_ok c" and v: "val_text (with_len c) = Some (Some v)" "length v + 1 < CF_MAX_BUF"
    and info: "cf_type info = cf_type c" "cf_len info = 0" "length (cf_pdata info) = CF_MAX_BUF"
  shows "\<exists>pdata ln. read_type_val info v = Some (info\<lparr>cf_pdata := pdata, cf_len := ln\<rparr>) \<and> length pdata = CF_MAX_BUF \<and>
    take (unat ln) pdata = delivered_data c \<and> unat ln = length (delivered_data c)"
  using ok
proof (cases rule: value_cases)
  case (u32 w)
  have "unat w < 2 ^ 64" using unat_u32_less [of w] by simp
  then have "scan_uint 10 v = Some (ucast w, [])" using scan_uint_show_nat [of "unat w" "[]"] u32 v by simp
  moreover have "(ucast (ucast w :: u64) :: u32) = w" by (rule bit_word_eqI) (auto simp: bit_simps)
  moreover have "length (u32_bytes w) = 4" by (simp add: u32_bytes_def)
  moreover have "delivered_data c = u32_bytes w" using bytes_u32_bytes [OF u32(2)] u32(1) by (simp add: delivered_data_eq)
  ultimately have "read_type_val info v = Some (info\<lparr>cf_pdata := u32_bytes w @ drop 4 (cf_pdata info), cf_len := 4\<rparr>)"
    "length (u32_bytes w) = 4" "delivered_data c = u32_bytes w"
    using u32(1) info by (simp_all add: read_type_val_def store_bytes_eq CF_MAX_BUF_def)
  with info show ?thesis by (intro exI conjI) (assumption, auto simp: CF_MAX_BUF_def)
next
  case (ip b0 b1 b2 b3 r)
  have l: "length [b3, b2, b1, b0] = 4" by simp
  from ip have "read_type_val info v = Some (info\<lparr>cf_pdata := [b3, b2, b1, b0] @ drop 4 (cf_pdata info), cf_len := 4\<rparr>)"
    using scan_ip_text [of "cf_pdata info" b3 b2 b1 b0] v info store_bytes_eq [of 0 "[b3, b2, b1, b0]" "cf_pdata info", unfolded l]
    by (simp add: read_type_val_def CF_MAX_BUF_def cf_types del: store_bytes.simps)
  moreover have "delivered_data c = [b3, b2, b1, b0]" using ip(1,2) by (simp add: delivered_data_eq cf_types)
  ultimately show ?thesis using info by (intro exI conjI) (assumption, auto simp: CF_MAX_BUF_def)
next
  case (str s)
  have d: "delivered_data c = bytes_of (s @ [NUL])" using str(1,2) by (simp add: delivered_data_eq cf_types)
  have "length (bytes_of (s @ [NUL])) = length s + 1" by (simp add: bytes_of_def)
  moreover have "length s + 1 < 2 ^ 32" using v str(5) by (simp add: CF_MAX_BUF_def)
  then have "unat (of_nat (length s + 1) :: u32) = length s + 1"
    by (simp add: unsigned_of_nat take_bit_nat_eq_self del: of_nat_add of_nat_Suc)
  ultimately show ?thesis using str v info d
    by (intro read_valueI [where bs = "bytes_of (s @ [NUL])" and rest = "drop (length s + 1) (cf_pdata info)" and ln = "of_nat (length s + 1)"])
      (simp_all add: read_type_val_def store_bytes_eq cf_types del: of_nat_add of_nat_Suc)
next
  case hex
  have l: "length (delivered_data c) < CF_MAX_BUF" using length_hex_text [of "delivered_data c"] v hex(3) by simp
  then have "unat (of_nat (length (delivered_data c)) :: u32) = length (delivered_data c)"
    by (simp add: CF_MAX_BUF_def unat_of_nat take_bit_nat_eq_self)
  moreover have "hex_loop v (cf_pdata info) 0 = Some (delivered_data c @ drop (length (delivered_data c)) (cf_pdata info), of_nat (length (delivered_data c)))"
    using hex_loop_text [of 0 "delivered_data c" "cf_pdata info"] l v hex(3) info by (simp add: store_bytes_eq CF_MAX_BUF_def)
  ultimately show ?thesis using l hex(1) info
    by (intro read_valueI [where bs = "delivered_data c" and rest = "drop (length (delivered_data c)) (cf_pdata info)" and ln = "of_nat (length (delivered_data c))"])
      (auto simp: read_type_val_def cf_types)
qed

subsection \<open>Lines\<close>

lemma length_show_hex_nat: "n < 16 ^ Suc k \<Longrightarrow> length (show_hex_nat n) \<le> Suc k"
proof (induction k arbitrary: n)
  case (Suc k)
  then have "n div 16 < 16 ^ Suc k" by (simp add: div_less_iff_less_mult)
  with Suc.IH [of "n div 16"] show ?case by (subst show_hex_nat.simps) simp
qed (subst show_hex_nat.simps, simp)

lemma length_mib: "length (show_hex_pad 8 (unat (w :: u32))) = 8"
  using length_show_hex_nat [of "unat w" 7] unat_u32_less [of w] by (simp add: show_hex_pad_def)

definition key_text :: "config_file \<Rightarrow> string" where
  "key_text c = ''<key '' @ CHR 0x22 # cstr (cf_key c) @ CHR 0x22 # '' mib '' @ CHR 0x22 # ''0x'' @ show_hex_pad 8 (unat (cf_mib c)) @
     CHR 0x22 # '' type '' @ CHR 0x22 # snd (s_key_list ! nat (cf_type c)) @ CHR 0x22 # ''>'' @ [CHR 0x0D]"

definition index_text :: "config_file \<Rightarrow> string" where
  "index_text c = (if cf_index c \<noteq> ECOS_CONFIG_FILE_NO_INDEX
     then '' index '' @ CHR 0x22 # ''0x'' @ show_hex_pad 2 (unat (cf_index c)) @ [CHR 0x22] else [])"

definition comment_text :: "config_file \<Rightarrow> string" where
  "comment_text c = (if cstr (cf_comment c) \<noteq> [] then '' comment '' @ CHR 0x22 # cstr (cf_comment c) @ [CHR 0x22] else [])"

definition value_text :: "config_file \<Rightarrow> string" where
  "value_text c = CHR 0x09 # ''<val '' @ CHR 0x22 # the (the (val_text (with_len c))) @ CHR 0x22 # index_text c @ comment_text c @ ''>'' @ [CHR 0x0D]"

text \<open>A configuration that can be saved and read back: the key is shorter than 64 characters; key and string values have no
  quote, newline or final backslash; string values and the comment have no \<open><\<close> (which starts a new element), the comment no
  newline; there is an index (one of 0xff is not written); and the value line fits into the buffer of a line.\<close>

definition saved_ok :: "config_file \<Rightarrow> bool" where
  "saved_ok c \<longleftrightarrow> NUL \<in> set (cf_key c) \<and> quotable (cstr (cf_key c)) \<and> length (cstr (cf_key c)) < 64 \<and> value_ok c \<and> cf_index c \<noteq> ECOS_CONFIG_FILE_NO_INDEX \<and>
     NUL \<in> set (cf_comment c) \<and> CHR 0x0A \<notin> set (cstr (cf_comment c)) \<and> CHR ''<'' \<notin> set (cstr (cf_comment c)) \<and>
     length (value_text c) + 1 < CF_MAX_BUF"

lemma type_range: "value_ok c \<Longrightarrow> cf_type c \<in> {0, 1, 2, 3, 4}"
  by (auto simp: value_ok_def cf_types split: if_splits)

lemma type_text:
  assumes "value_ok c"
  shows "type_of_text t (snd (s_key_list ! nat (cf_type c))) = cf_type c" "quotable (snd (s_key_list ! nat (cf_type c)))"
    "length (snd (s_key_list ! nat (cf_type c))) < 8"
  using type_range [OF assms] by (auto simp: type_of_text_def s_key_list_def cf_types quotable_def)

lemma hex_quotable: "quotable (''0x'' @ show_hex_pad k n)"
proof -
  have "c \<noteq> CHR 0x22 \<and> c \<noteq> CHR 0x0A \<and> c \<noteq> NUL \<and> c \<noteq> CHR 0x5C" if "c \<in> set (''0x'' @ show_hex_pad k n)" for c
    using that is_digit_chars [OF show_hex_pad_chars [of c k n]] by auto
  then show ?thesis using last_in_set [of "''0x'' @ show_hex_pad k n"] unfolding quotable_def by blast
qed

lemma read_quotable:
  assumes "quotable v" "CHR 0x22 \<notin> set pre"
  shows "read_content (pre @ CHR 0x22 # v @ CHR 0x22 # rest) = Some (v, rest)"
  using assms read_content_text [of pre v rest] by (simp add: quotable_def)

lemma key_line_text:
  assumes ok: "saved_ok c"
  shows "parse_line info (key_text c @ rest) = Some (LINE_NO_INFO,
    info\<lparr>cf_key := cstr (cf_key c) @ NUL # drop (length (cstr (cf_key c)) + 1) (cf_key info), cf_mib := cf_mib c, cf_type := cf_type c\<rparr>)"
proof -
  define k where "k = cstr (cf_key c)"
  define m where "m = ''0x'' @ show_hex_pad 8 (unat (cf_mib c))"
  define t where "t = snd (s_key_list ! nat (cf_type c))"
  define r3 where "r3 = ''>'' @ [CHR 0x0D] @ rest"
  define r2 where "r2 = '' type '' @ CHR 0x22 # t @ CHR 0x22 # r3"
  define r1 where "r1 = '' mib '' @ CHR 0x22 # m @ CHR 0x22 # r2"
  have v: "value_ok c" "quotable k" "length k < 64" using ok by (simp_all add: saved_ok_def k_def)
  have "key_text c @ rest = ''<key '' @ CHR 0x22 # k @ CHR 0x22 # r1" by (simp add: key_text_def k_def m_def t_def r1_def r2_def r3_def)
  then have "strstr (key_text c @ rest) (''<'' @ CF_DEF_KEY @ '' '') = Some (''<key '' @ CHR 0x22 # k @ CHR 0x22 # r1)"
    by (simp add: strstr_prefix CF_DEF_KEY_def)
  moreover have "read_content (''key '' @ CHR 0x22 # k @ CHR 0x22 # r1) = Some (k, r1)" by (rule read_quotable [OF v(2)]) simp
  moreover have "strstr r1 CF_DEF_MIB \<noteq> None" by (simp add: r1_def CF_DEF_MIB_def strstr_hd strstr_prefix)
  moreover have "read_content r1 = Some (m, r2)" unfolding r1_def m_def by (rule read_quotable [OF hex_quotable]) simp
  moreover have "unat (cf_mib c) < 2 ^ 64" using unat_u32_less [of "cf_mib c"] by simp
  then have "scan_uint 16 m = Some (ucast (cf_mib c), [])" using scan_uint_show_hex [of "unat (cf_mib c)" "[]" 8] by (simp add: m_def)
  moreover have "(ucast (ucast (cf_mib c) :: u64) :: u32) = cf_mib c" by (rule bit_word_eqI) (auto simp: bit_simps)
  moreover have "strstr r2 CF_DEF_TYPE \<noteq> None" by (simp add: r2_def CF_DEF_TYPE_def strstr_hd strstr_prefix)
  moreover have "read_content r2 = Some (t, r3)" unfolding r2_def t_def by (rule read_quotable [OF type_text(2) [OF v(1)]]) simp
  ultimately show ?thesis using v(3) type_text(1) [OF v(1), folded t_def] unfolding k_def [symmetric]
    by (auto simp: parse_line_def key_line_def Let_def)
qed

lemma value_line_text:
  assumes ok: "saved_ok c" and info: "cf_type info = cf_type c" "cf_len info = 0" "length (cf_pdata info) = CF_MAX_BUF"
    and rest: "CHR ''<'' \<notin> set rest"
  shows "\<exists>pdata ln. parse_line info (value_text c @ rest) = Some (LINE_INFO, info\<lparr>cf_pdata := pdata, cf_len := ln, cf_index := cf_index c\<rparr>) \<and>
    length pdata = CF_MAX_BUF \<and> take (unat ln) pdata = delivered_data c \<and> unat ln = length (delivered_data c)"
proof -
  have vo: "value_ok c" "cf_index c \<noteq> ECOS_CONFIG_FILE_NO_INDEX" using ok by (simp_all add: saved_ok_def)
  obtain v where v: "val_text (with_len c) = Some (Some v)" "quotable v" "CHR ''<'' \<notin> set v" using value_text [OF vo(1)] by blast
  define x where "x = ''0x'' @ show_hex_pad 2 (unat (cf_index c))"
  define r2 where "r2 = comment_text c @ ''>'' @ [CHR 0x0D] @ rest"
  define r1 where "r1 = '' index '' @ CHR 0x22 # x @ CHR 0x22 # r2"
  have len: "length v + 1 < CF_MAX_BUF" using ok v by (simp add: saved_ok_def value_text_def)
  have t: "value_text c @ rest = [CHR 0x09] @ ''<val '' @ CHR 0x22 # v @ CHR 0x22 # r1"
    using vo(2) v by (simp add: value_text_def index_text_def x_def r1_def r2_def)
  have "c' \<noteq> CHR ''<''" if "c' \<in> set x" for c'
    using that is_digit_chars [OF show_hex_pad_chars [of c' 2 "unat (cf_index c)"]] by (auto simp: x_def)
  moreover have "CHR ''<'' \<notin> set (comment_text c)" using ok by (auto simp: comment_text_def saved_ok_def)
  ultimately have "CHR ''<'' \<notin> set (''val '' @ CHR 0x22 # v @ CHR 0x22 # r1)"
    using v(3) rest by (auto simp: r1_def r2_def)
  moreover have "\<not> prefix ''<key '' (''<val '' @ s)" for s by simp
  ultimately have no_key: "strstr (value_text c @ rest) (''<'' @ CF_DEF_KEY @ '' '') = None"
    unfolding t by (simp add: CF_DEF_KEY_def strstr_hd strstr_skip strstr_none)
  have "strstr (value_text c @ rest) (''<'' @ CF_DEF_VAL @ '' '') = Some (''<val '' @ CHR 0x22 # v @ CHR 0x22 # r1)"
    unfolding t by (simp add: CF_DEF_VAL_def strstr_hd strstr_prefix)
  moreover have "read_content (''val '' @ CHR 0x22 # v @ CHR 0x22 # r1) = Some (v, r1)" by (rule read_quotable [OF v(2)]) simp
  moreover have "strstr r1 CF_DEF_INDEX \<noteq> None" by (simp add: r1_def CF_DEF_INDEX_def strstr_hd strstr_prefix)
  moreover have "read_content r1 = Some (x, r2)" unfolding r1_def x_def by (rule read_quotable [OF hex_quotable]) simp
  moreover have "unat (cf_index c) < 2 ^ 64" using unat_u8_less [of "cf_index c"] by simp
  then have "scan_uint 16 x = Some (ucast (cf_index c), [])" using scan_uint_show_hex [of "unat (cf_index c)" "[]" 2] by (simp add: x_def)
  moreover obtain pdata ln where rd: "read_type_val info v = Some (info\<lparr>cf_pdata := pdata, cf_len := ln\<rparr>)" "length pdata = CF_MAX_BUF"
      "take (unat ln) pdata = delivered_data c" "unat ln = length (delivered_data c)"
    using read_value [OF vo(1) v(1) len info] by (elim exE conjE) (rule that)
  ultimately have "parse_line info (value_text c @ rest) = Some (LINE_INFO, info\<lparr>cf_pdata := pdata, cf_len := ln, cf_index := cf_index c\<rparr>)"
    using no_key by (auto simp: parse_line_def val_line_def)
  then show ?thesis using rd(2-4) by blast
qed

subsection \<open>Files\<close>

text \<open>The state when the file \<open>p\<close> holds \<open>t\<close>.\<close>

definition written :: "cf_state \<Rightarrow> string \<Rightarrow> string \<Rightarrow> cf_state" where
  "written st p t = st\<lparr>cf_fs := (cf_fs st)(p \<mapsto> t)\<rparr>"

lemma fprintf_written:
  "cf_fd st = Some (Writing p) \<Longrightarrow> ecos_config_file_fprintf (written st p t) s = Some (written st p (t @ s))"
  by (simp add: ecos_config_file_fprintf_def written_def)

definition lines_text :: "string list \<Rightarrow> string" where "lines_text ls = concat (map (\<lambda>l. l @ [CHR 0x0A]) ls)"

lemma lines_text_simps [simp]: "lines_text [] = []" "lines_text (l # ls) = l @ CHR 0x0A # lines_text ls"
  "lines_text (ls @ ls') = lines_text ls @ lines_text ls'"
  by (simp_all add: lines_text_def)

lemma save_key_text:
  assumes "saved_ok c" "cf_fd st = Some (Writing p)"
  shows "ecos_config_file_save_key (written st p t) (Some c) = Some (written st p (t @ lines_text [key_text c]))"
proof -
  have "cf_type c \<in> {0, 1, 2, 3, 4}" using assms(1) type_range by (simp add: saved_ok_def)
  then have "0 \<le> cf_type c" "array_get s_key_list (nat (cf_type c)) = Some (s_key_list ! nat (cf_type c))"
    by (auto simp: s_key_list_def)
  moreover have "cstr_at (cf_key c) 0 = Some (cstr (cf_key c))" using assms(1) by (simp add: cstr_at_def saved_ok_def)
  ultimately show ?thesis
    by (simp add: ecos_config_file_save_key_def fprintf_written [OF assms(2)] key_text_def CF_DEF_KEY_def CF_DEF_MIB_def CF_DEF_TYPE_def CF_ENTER_def)
qed

lemma save_val_text:
  assumes "saved_ok c" "cf_fd st = Some (Writing p)"
  shows "ecos_config_file_save_val (written st p t) c = Some (with_len c, written st p (t @ lines_text [value_text c]))"
proof -
  have ok: "value_ok c" "cf_index c \<noteq> ECOS_CONFIG_FILE_NO_INDEX" "NUL \<in> set (cf_comment c)" using assms(1) by (simp_all add: saved_ok_def)
  obtain v where v: "val_text (with_len c) = Some (Some v)" using value_text [OF ok(1)] by blast
  moreover have "cf_index (with_len c) = cf_index c" "cf_comment (with_len c) = cf_comment c" by (simp_all add: with_len_def)
  moreover have "cstr_at (cf_comment c) 0 = Some (cstr (cf_comment c))" using ok(3) by (simp add: cstr_at_def)
  ultimately show ?thesis using ok(2) unfolding ecos_config_file_save_val_def with_len_def [symmetric] Let_def
    by (simp add: fprintf_written [OF assms(2)] value_text_def index_text_def comment_text_def CF_DEF_VAL_def CF_DEF_INDEX_def CF_DEF_COMMENT_def CF_ENTER_def)
qed

text \<open>Writing a whole file: the version, a key with its value for each configuration, the end mark.\<close>

fun save_configs :: "config_file list \<Rightarrow> cf_state \<Rightarrow> cf_state option" where
  "save_configs [] st = Some st"
| "save_configs (c # cs) st = do {
     st \<leftarrow> ecos_config_file_save_key st (Some c);
     (_, st) \<leftarrow> ecos_config_file_save_val st c;
     st \<leftarrow> ecos_config_file_save_key st None;
     save_configs cs st }"

definition save_file :: "config_file list \<Rightarrow> string \<Rightarrow> cf_state \<Rightarrow> cf_state option" where
  "save_file cs p st = do {
     let (r, st) = ecos_config_file_open st p ''w'';
     st \<leftarrow> ecos_config_file_save_version st ECOS_CONFIG_FILE_VERSION_HEAD;
     st \<leftarrow> save_configs cs st;
     st \<leftarrow> ecos_config_file_save_version st 1;
     Some (ecos_config_file_close st) }"

definition entry_lines :: "config_file \<Rightarrow> string list" where
  "entry_lines c = [key_text c, value_text c, ''</key>'' @ [CHR 0x0D], [CHR 0x0D]]"

definition head_lines :: "string list" where
  "head_lines = [''<!-- config data base -->'' @ [CHR 0x0D], ''<!-- note: make sure you should not modify index valude -->'' @ [CHR 0x0D],
     ''<!--       if you need add character '' @ [CHR 0x22] @ '', please set escape code '' @ [CHR 0x5C, CHR 0x22] @ '' -->'' @ [CHR 0x0D],
     [CHR 0x0D], version_head @ [CHR 0x0D], [CHR 0x0D]]"

definition tail_lines :: "string list" where "tail_lines = [version_tail @ [CHR 0x0D], [CHR 0x0D]]"

lemma save_configs_text:
  assumes "cf_fd st = Some (Writing p)" "\<And>c. c \<in> set cs \<Longrightarrow> saved_ok c"
  shows "save_configs cs (written st p t) = Some (written st p (t @ lines_text (concat (map entry_lines cs))))"
  using assms(2)
proof (induction cs arbitrary: t)
  case (Cons c cs)
  have "ecos_config_file_save_key (written st p s) None = Some (written st p (s @ lines_text [''</key>'' @ [CHR 0x0D], [CHR 0x0D]]))" for s
    by (simp add: ecos_config_file_save_key_def fprintf_written [OF assms(1)] CF_DEF_KEY_def CF_ENTER_def)
  then show ?case using Cons
    by (simp add: save_key_text [OF _ assms(1)] save_val_text [OF _ assms(1)] entry_lines_def)
qed simp

lemma save_file_text:
  assumes "cf_writable st p" "\<And>c. c \<in> set cs \<Longrightarrow> saved_ok c"
  shows "save_file cs p st = Some (written st p (lines_text (head_lines @ concat (map entry_lines cs) @ tail_lines))\<lparr>cf_fd := None\<rparr>)"
proof -
  let ?st = "st\<lparr>cf_fd := Some (Writing p)\<rparr>"
  have o: "ecos_config_file_open st p ''w'' = (0, written ?st p [])" using assms(1) by (simp add: ecos_config_file_open_def written_def)
  have fd: "cf_fd ?st = Some (Writing p)" by simp
  have h: "ecos_config_file_save_version (written ?st p t) ECOS_CONFIG_FILE_VERSION_HEAD = Some (written ?st p (t @ lines_text head_lines))" for t
    by (simp add: ecos_config_file_save_version_def fprintf_written [OF fd] head_lines_def CF_ENTER_def)
  have e: "ecos_config_file_save_version (written ?st p t) 1 = Some (written ?st p (t @ lines_text tail_lines))" for t
    by (simp add: ecos_config_file_save_version_def fprintf_written [OF fd] tail_lines_def CF_ENTER_def ECOS_CONFIG_FILE_VERSION_HEAD_def)
  show ?thesis unfolding save_file_def o
    using h [of "[]"] save_configs_text [OF fd assms(2), of cs "lines_text head_lines"] e
    by (simp add: ecos_config_file_close_def written_def)
qed

text \<open>Reading a file line by line.\<close>

definition line_ok :: "string \<Rightarrow> bool" where
  "line_ok l \<longleftrightarrow> CHR 0x0A \<notin> set l \<and> NUL \<notin> set l \<and> length l + 1 < CF_MAX_BUF"

definition reading :: "cf_state \<Rightarrow> config_file \<Rightarrow> string list \<Rightarrow> cf_state" where
  "reading st info ls = st\<lparr>cf_fd := Some (Reading (lines_text ls)), cf_line_info := info\<rparr>"

abbreviation reset :: "config_file \<Rightarrow> config_file" where
  "reset info \<equiv> info\<lparr>cf_index := 0, cf_len := 0\<rparr>"

lemma load_data_line:
  assumes "line_ok l" "parse_line (reset info) (l @ [CHR 0x0A]) = Some (r, info')" "r \<noteq> LINE_EOF"
  shows "ecos_config_file_load_data (reading st info (l # ls)) =
    Some (if r = LINE_INFO then Cf_Info info' else Cf_Null, reading st info' ls)"
proof -
  have "fgets CF_MAX_BUF (l @ CHR 0x0A # lines_text ls) = Some (l @ [CHR 0x0A], lines_text ls)"
    using assms(1) by (intro fgets_line) (simp_all add: line_ok_def)
  moreover have "cstr (l @ [CHR 0x0A]) = l @ [CHR 0x0A]" using assms(1) by (intro cstr_id) (auto simp: line_ok_def)
  ultimately show ?thesis using assms(2,3)
    by (simp add: ecos_config_file_load_data_def file_get_line_def reading_def)
qed

lemma load_loop_skip:
  assumes "line_ok l" "parse_line (reset info) (l @ [CHR 0x0A]) = Some (LINE_NO_INFO, info')"
  shows "load_loop h (m, reading st info (l # ls)) = load_loop h (m, reading st info' ls)"
  using load_data_line [OF assms] by (subst load_loop.simps) (simp add: LINE_NO_INFO_def LINE_EOF_def LINE_INFO_def)

lemma load_loop_value:
  assumes "line_ok l" "parse_line (reset info) (l @ [CHR 0x0A]) = Some (LINE_INFO, info')"
  shows "load_loop h (m, reading st info (l # ls)) = do { m \<leftarrow> h info' m; load_loop h (m, reading st info' ls) }"
  using load_data_line [OF assms] by (subst load_loop.simps) (simp add: LINE_EOF_def LINE_INFO_def)

lemma load_loop_eof: "\<exists>st'. load_loop h (m, reading st info []) = Some (m, st')"
  by (subst load_loop.simps)
    (simp add: ecos_config_file_load_data_def file_get_line_def reading_def fgets_def)

text \<open>Lines without a key or a value.\<close>

lemma other_lines:
  assumes "l \<in> set (head_lines @ tail_lines @ [''</key>'' @ [CHR 0x0D], [CHR 0x0D]])"
  shows "line_ok l" "parse_line info (l @ [CHR 0x0A]) = Some (LINE_NO_INFO, info)"
  using assms unfolding head_lines_def tail_lines_def version_head_def version_tail_def
  by (auto simp: line_ok_def CF_MAX_BUF_def CF_VER_KEY_def ECOS_VERSION_STRING_def parse_line_def CF_DEF_KEY_def CF_DEF_VAL_def
      strstr_hd strstr_skip strstr_Nil)

lemma load_loop_other:
  assumes "l \<in> set (head_lines @ tail_lines @ [''</key>'' @ [CHR 0x0D], [CHR 0x0D]])"
  shows "load_loop h (m, reading st info (l # ls)) = load_loop h (m, reading st (reset info) ls)"
  by (rule load_loop_skip [OF other_lines(1) [OF assms] other_lines(2) [OF assms]])

lemma load_loop_others:
  assumes "set ls \<subseteq> set (head_lines @ tail_lines @ [''</key>'' @ [CHR 0x0D], [CHR 0x0D]])"
  shows "\<exists>i n. load_loop h (m, reading st info (ls @ ls')) = load_loop h (m, reading st (info\<lparr>cf_index := i, cf_len := n\<rparr>) ls')"
  using assms
proof (induction ls arbitrary: info)
  case Nil
  show ?case by (rule exI [of _ "cf_index info"], rule exI [of _ "cf_len info"]) simp
next
  case (Cons l ls)
  have "load_loop h (m, reading st info ((l # ls) @ ls')) = load_loop h (m, reading st (reset info) (ls @ ls'))"
    using load_loop_other [of l] Cons.prems by simp
  with Cons.IH [of "reset info"] Cons.prems show ?case by simp
qed

lemma entry_lines_ok:
  assumes "saved_ok c"
  shows "line_ok (key_text c)" "line_ok (value_text c)"
proof -
  have v: "value_ok c" "quotable (cstr (cf_key c))" "length (cstr (cf_key c)) < 64" "CHR 0x0A \<notin> set (cstr (cf_comment c))"
    "length (value_text c) + 1 < CF_MAX_BUF"
    using assms by (simp_all add: saved_ok_def)
  have h: "CHR 0x0A \<notin> set (show_hex_pad k n)" "NUL \<notin> set (show_hex_pad k n)" for k n
    using is_digit_chars [OF show_hex_pad_chars] by blast+
  show "line_ok (key_text c)"
    using v(2,3) h type_text(2,3) [OF v(1)] length_mib [of "cf_mib c"] by (auto simp: line_ok_def key_text_def quotable_def CF_MAX_BUF_def)
  obtain t where "val_text (with_len c) = Some (Some t)" "quotable t" using value_text [OF v(1)] by blast
  then show "line_ok (value_text c)" using v(4,5) h cstr_no_NUL [of "cf_comment c"]
    by (auto simp: line_ok_def value_text_def index_text_def comment_text_def quotable_def)
qed

text \<open>What was saved and what is read.\<close>

definition loaded_as :: "config_file \<Rightarrow> config_file \<Rightarrow> bool" where
  "loaded_as c info \<longleftrightarrow> cstr_at (cf_key info) 0 = Some (cstr (cf_key c)) \<and> cf_mib info = cf_mib c \<and> cf_type info = cf_type c \<and>
     cf_index info = cf_index c \<and> unat (cf_len info) = length (delivered_data c) \<and> take (length (delivered_data c)) (cf_pdata info) = delivered_data c"

definition info_ok :: "config_file \<Rightarrow> bool" where
  "info_ok info \<longleftrightarrow> length (cf_pdata info) = CF_MAX_BUF"

lemma load_entry:
  assumes ok: "saved_ok c" and i: "info_ok info"
  shows "\<exists>info' info''. load_loop h (m, reading st info (entry_lines c @ ls)) =
      do { m \<leftarrow> h info' m; load_loop h (m, reading st info'' ls) } \<and> loaded_as c info' \<and> info_ok info' \<and> info_ok info''"
proof -
  let ?k = "cstr (cf_key c)"
  let ?i1 = "(reset info)\<lparr>cf_key := ?k @ NUL # drop (length ?k + 1) (cf_key info), cf_mib := cf_mib c, cf_type := cf_type c\<rparr>"
  have 1: "load_loop h (m, reading st info (entry_lines c @ ls)) = load_loop h (m, reading st ?i1 (tl (entry_lines c) @ ls))"
    using load_loop_skip [OF entry_lines_ok(1) [OF ok] key_line_text [OF ok]] by (simp add: entry_lines_def)
  obtain pdata ln where p: "parse_line (reset ?i1) (value_text c @ [CHR 0x0A]) =
        Some (LINE_INFO, (reset ?i1)\<lparr>cf_pdata := pdata, cf_len := ln, cf_index := cf_index c\<rparr>)"
      "length pdata = CF_MAX_BUF" "take (unat ln) pdata = delivered_data c" "unat ln = length (delivered_data c)"
    using value_line_text [OF ok, of "reset ?i1" "[CHR 0x0A]"] i by (auto simp: info_ok_def)
  define i2 where "i2 = (reset ?i1)\<lparr>cf_pdata := pdata, cf_len := ln, cf_index := cf_index c\<rparr>"
  have 2: "load_loop h (m, reading st ?i1 (tl (entry_lines c) @ ls)) = do { m \<leftarrow> h i2 m; load_loop h (m, reading st i2 (tl (tl (entry_lines c)) @ ls)) }"
    using load_loop_value [OF entry_lines_ok(2) [OF ok] p(1)] by (simp add: entry_lines_def i2_def)
  have 3: "load_loop h (m', reading st i2 (tl (tl (entry_lines c)) @ ls)) = load_loop h (m', reading st (reset i2) ls)" for m'
    by (simp add: entry_lines_def load_loop_other)
  have "takeWhile (\<lambda>c. c \<noteq> NUL) (?k @ NUL # r) = ?k" for r
    using cstr_no_NUL [of "cf_key c"] by (subst takeWhile_append2) auto
  then have "cstr_at (?k @ NUL # r) 0 = Some ?k" for r by (simp add: cstr_at_def cstr_def [of "?k @ NUL # r"])
  then have "loaded_as c i2" "info_ok i2" "info_ok (reset i2)" using p(2-4) by (simp_all add: loaded_as_def i2_def info_ok_def)
  with 1 2 3 show ?thesis by auto
qed

lemma load_entries:
  assumes "\<And>c. c \<in> set cs \<Longrightarrow> saved_ok c" "info_ok info"
  shows "\<exists>infos info'. load_loop (\<lambda>i acc. Some (acc @ [i])) (acc, reading st info (concat (map entry_lines cs) @ ls)) =
      load_loop (\<lambda>i acc. Some (acc @ [i])) (acc @ infos, reading st info' ls) \<and> list_all2 loaded_as cs infos \<and> info_ok info'"
  using assms
proof (induction cs arbitrary: acc info)
  case Nil
  then show ?case by (intro exI [of _ "[]"] exI [of _ info]) simp
next
  case (Cons c cs)
  obtain i1 i2 where 1: "load_loop (\<lambda>i acc. Some (acc @ [i])) (acc, reading st info (entry_lines c @ concat (map entry_lines cs) @ ls)) =
        load_loop (\<lambda>i acc. Some (acc @ [i])) (acc @ [i1], reading st i2 (concat (map entry_lines cs) @ ls))"
      "loaded_as c i1" "info_ok i2"
    using load_entry [of c info "\<lambda>i acc. Some (acc @ [i])" acc st "concat (map entry_lines cs) @ ls"] Cons.prems by auto
  obtain infos info' where 2: "load_loop (\<lambda>i acc. Some (acc @ [i])) (acc @ [i1], reading st i2 (concat (map entry_lines cs) @ ls)) =
        load_loop (\<lambda>i acc. Some (acc @ [i])) ((acc @ [i1]) @ infos, reading st info' ls)" "list_all2 loaded_as cs infos" "info_ok info'"
    using Cons.IH [of i2 "acc @ [i1]"] Cons.prems 1(3) by auto
  show ?case using 1 2 by (intro exI [of _ "i1 # infos"] exI [of _ info']) simp
qed

lemma version_loop_line:
  assumes "line_ok l"
  shows "version_loop (l @ CHR 0x0A # rest) flags = version_loop rest
    (fst flags \<or> prefix version_head (l @ [CHR 0x0A]), snd flags \<or> \<not> prefix version_head (l @ [CHR 0x0A]) \<and> prefix version_tail (l @ [CHR 0x0A]))"
proof -
  have "fgets CF_MAX_BUF (l @ CHR 0x0A # rest) = Some (l @ [CHR 0x0A], rest)"
    using assms by (intro fgets_line) (simp_all add: line_ok_def)
  moreover have "cstr (l @ [CHR 0x0A]) = l @ [CHR 0x0A]" using assms by (intro cstr_id) (auto simp: line_ok_def)
  ultimately show ?thesis by (cases flags) (subst version_loop.simps, simp)
qed

lemma version_loop_lines:
  assumes "\<And>l. l \<in> set ls \<Longrightarrow> line_ok l"
  shows "\<exists>a b. version_loop (lines_text (ls @ ls')) flags = version_loop (lines_text ls') (fst flags \<or> a, snd flags \<or> b)"
  using assms
proof (induction ls arbitrary: flags)
  case (Cons l ls)
  from Cons.prems have "line_ok l" by simp
  then obtain a b where 1: "version_loop (lines_text ((l # ls) @ ls')) flags = version_loop (lines_text (ls @ ls')) (fst flags \<or> a, snd flags \<or> b)"
    using version_loop_line [of l "lines_text (ls @ ls')" flags] by auto
  obtain a' b' where "version_loop (lines_text (ls @ ls')) (fst flags \<or> a, snd flags \<or> b) =
      version_loop (lines_text ls') (fst (fst flags \<or> a, snd flags \<or> b) \<or> a', snd (fst flags \<or> a, snd flags \<or> b) \<or> b')"
    using Cons.IH [of "(fst flags \<or> a, snd flags \<or> b)"] Cons.prems by auto
  with 1 show ?case by (intro exI [of _ "a \<or> a'"] exI [of _ "b \<or> b'"]) (simp add: disj_assoc)
qed (rule exI [of _ False], rule exI [of _ False], simp)

lemma version_ok:
  assumes "\<And>c. c \<in> set cs \<Longrightarrow> saved_ok c"
  shows "version_loop (lines_text (head_lines @ concat (map entry_lines cs) @ tail_lines)) (False, False) = (True, True)"
proof -
  let ?es = "concat (map entry_lines cs)"
  have h: "line_ok l" if "l \<in> set (head_lines @ tail_lines)" for l using that by (intro other_lines(1)) auto
  have e: "line_ok l" if "l \<in> set ?es" for l
    using that entry_lines_ok [OF assms] other_lines(1) by (auto simp: entry_lines_def)
  have hd: "head_lines = take 4 head_lines @ [version_head @ [CHR 0x0D]] @ [[CHR 0x0D]]" by (simp add: head_lines_def)
  obtain a b where 1: "version_loop (lines_text (take 4 head_lines @ [version_head @ [CHR 0x0D]] @ [[CHR 0x0D]] @ ?es @ tail_lines)) (False, False) =
      version_loop (lines_text ([version_head @ [CHR 0x0D]] @ [[CHR 0x0D]] @ ?es @ tail_lines)) (a, b)"
    using version_loop_lines [of "take 4 head_lines" "[version_head @ [CHR 0x0D]] @ [[CHR 0x0D]] @ ?es @ tail_lines" "(False, False)"] h
    by (auto dest: in_set_takeD)
  have 2: "version_loop (lines_text ([version_head @ [CHR 0x0D]] @ [[CHR 0x0D]] @ ?es @ tail_lines)) (a, b) =
      version_loop (lines_text ([[CHR 0x0D]] @ ?es @ tail_lines)) (True, b)"
    using version_loop_line [OF h [of "version_head @ [CHR 0x0D]"]] by (simp add: head_lines_def)
  obtain b' where 3: "version_loop (lines_text (([[CHR 0x0D]] @ ?es) @ tail_lines)) (True, b) = version_loop (lines_text tail_lines) (True, b')"
    using version_loop_lines [of "[[CHR 0x0D]] @ ?es" tail_lines "(True, b)"] h e by (force simp: head_lines_def)
  have "\<not> prefix version_head (version_tail @ s)" for s
    by (simp add: version_head_def version_tail_def CF_VER_KEY_def)
  then have "version_loop (lines_text tail_lines) (True, b') = version_loop (lines_text [[CHR 0x0D]]) (True, True)"
    using version_loop_line [OF h [of "version_tail @ [CHR 0x0D]"]] by (simp add: tail_lines_def)
  moreover have "version_loop (lines_text [[CHR 0x0D]]) (True, True) = version_loop [] (True, True)"
    using version_loop_line [OF h [of "[CHR 0x0D]"], of "[]" "(True, True)"] by (simp add: tail_lines_def)
  moreover have "version_loop [] (True, True) = (True, True)" by (subst version_loop.simps) (simp add: fgets_def)
  moreover have "head_lines @ ?es @ tail_lines = take 4 head_lines @ [version_head @ [CHR 0x0D]] @ [[CHR 0x0D]] @ ?es @ tail_lines"
    by (subst hd) simp
  ultimately show ?thesis using 1 2 3 by (simp only: append_assoc)
qed

subsection \<open>Properties\<close>

text \<open>C23: a configuration file written with the version head, a key line and a value line for each configuration and
  the version tail passes the version check, and reading it until the end of the file delivers, in the same order, one
  value for each configuration with the key, mib, type and index that were saved and the bytes that were saved, those of an
  address in the opposite order.  This holds for configurations that meet \<open>saved_ok\<close>; a quote, for one, is lost.\<close>

theorem config_file_save_load:
  assumes "cf_writable st p" and "\<forall>c \<in> set cs. saved_ok c" and "info_ok (cf_line_info st)"
  shows "\<exists>st1 st2 infos. save_file cs p st = Some st1 \<and>
    ecos_config_file_check_version st1 p = ECOS_CONFIG_FILE_VERSION_OK \<and>
    load_loop (\<lambda>info acc. Some (acc @ [info])) ([], snd (ecos_config_file_open st1 p ''r'')) = Some (infos, st2) \<and>
    list_all2 loaded_as cs infos"
proof -
  let ?es = "concat (map entry_lines cs)" and ?h = "\<lambda>i acc. Some (acc @ [i])"
  let ?ls = "head_lines @ ?es @ tail_lines"
  let ?st1 = "written st p (lines_text ?ls)\<lparr>cf_fd := None\<rparr>"
  have ok: "\<And>c. c \<in> set cs \<Longrightarrow> saved_ok c" using assms(2) by blast
  have s: "save_file cs p st = Some ?st1" using save_file_text [OF assms(1) ok] .
  have v: "ecos_config_file_check_version ?st1 p = ECOS_CONFIG_FILE_VERSION_OK"
    using version_ok [OF ok, of cs] by (simp add: ecos_config_file_check_version_def written_def)
  have o: "snd (ecos_config_file_open ?st1 p ''r'') = reading ?st1 (cf_line_info st) ?ls"
    by (simp add: ecos_config_file_open_def reading_def written_def)
  obtain i n where 1: "load_loop ?h ([], reading ?st1 (cf_line_info st) ?ls) =
      load_loop ?h ([], reading ?st1 ((cf_line_info st)\<lparr>cf_index := i, cf_len := n\<rparr>) (?es @ tail_lines))"
    using load_loop_others [of head_lines ?h "[]" ?st1 "cf_line_info st" "?es @ tail_lines"] by auto
  obtain infos info' where 2: "load_loop ?h ([], reading ?st1 ((cf_line_info st)\<lparr>cf_index := i, cf_len := n\<rparr>) (?es @ tail_lines)) =
      load_loop ?h (infos, reading ?st1 info' tail_lines)" "list_all2 loaded_as cs infos"
    using load_entries [OF ok, of cs "(cf_line_info st)\<lparr>cf_index := i, cf_len := n\<rparr>" "[]" ?st1 tail_lines] assms(3)
    by (auto simp: info_ok_def)
  obtain i' n' where 3: "load_loop ?h (infos, reading ?st1 info' (tail_lines @ [])) = load_loop ?h (infos, reading ?st1 (info'\<lparr>cf_index := i', cf_len := n'\<rparr>) [])"
    using load_loop_others [of tail_lines ?h infos ?st1 info' "[]"] by auto
  obtain st2 where "load_loop ?h (infos, reading ?st1 (info'\<lparr>cf_index := i', cf_len := n'\<rparr>) []) = Some (infos, st2)"
    using load_loop_eof [of ?h infos ?st1] by blast
  with 1 2(1) 3 have "load_loop ?h ([], reading ?st1 (cf_line_info st) ?ls) = Some (infos, st2)" by simp
  with s v o 2(2) show ?thesis by auto
qed

definition blank_info :: config_file where
  "blank_info = \<lparr>cf_key = replicate 64 NUL, cf_mib = 0, cf_type = ECOS_CF_U32, cf_index = 0, cf_comment = replicate 64 NUL,
     cf_pdata = replicate CF_MAX_BUF 0, cf_len = 0\<rparr>"

definition empty_disk :: cf_state where
  "empty_disk = \<lparr>cf_fs = Map.empty, cf_writable = (\<lambda>_. True), cf_fd = None, cf_line_info = blank_info\<rparr>"

definition sample_config :: config_file where
  "sample_config = \<lparr>cf_key = ''ip'' @ [NUL], cf_mib = 0x33110002, cf_type = ECOS_CF_IP, cf_index = 0x21, cf_comment = [NUL],
     cf_pdata = [1, 70, 168, 192], cf_len = 4\<rparr>"

lemma loaded_again_reversed:
  assumes "loaded_as c info" "loaded_as info info'" "cf_type c = ECOS_CF_IP" "4 \<le> length (cf_pdata c)" "4 \<le> length (cf_pdata info)"
  shows "take 4 (cf_pdata info) = rev (take 4 (cf_pdata c))" "take 4 (cf_pdata info') = take 4 (cf_pdata c)"
  using assms by (simp_all add: loaded_as_def delivered_data_def saved_data_def)

lemma show_nat_less_10: "n < 10 \<Longrightarrow> show_nat n = [char_of (48 + n)]"
  by (subst show_nat.simps) simp

lemma length_show_nat: "n < 10 ^ Suc k \<Longrightarrow> length (show_nat n) \<le> Suc k"
proof (induction k arbitrary: n)
  case (Suc k)
  then have "n div 10 < 10 ^ Suc k" by (simp add: div_less_iff_less_mult)
  with Suc.IH [of "n div 10"] show ?case by (subst show_nat.simps) simp
qed (simp add: show_nat_less_10)

lemma sample_config_ok: "saved_ok sample_config"
proof -
  have "length (show_nat n) \<le> 3" if "n < 1000" for n using length_show_nat [of n 2] that by simp
  then have l: "length (show_nat 1) \<le> 3" "length (show_nat 70) \<le> 3" "length (show_nat 168) \<le> 3" "length (show_nat 192) \<le> 3" by simp_all
  have "length (show_hex_pad 2 33) \<le> 2" using length_show_hex_nat [of 33 1] by (simp add: show_hex_pad_def)
  with l show ?thesis
    by (simp add: saved_ok_def sample_config_def cstr_def quotable_def value_ok_def cf_types value_text_def val_text_def with_len_def index_text_def
        comment_text_def CF_MAX_BUF_def ECOS_CONFIG_FILE_NO_INDEX_def)
qed

theorem config_file_save_load_witness:
  "cf_writable empty_disk ''cfg'' \<and> saved_ok sample_config \<and> info_ok (cf_line_info empty_disk) \<and>
   (\<exists>st1 st2 info. save_file [sample_config] ''cfg'' empty_disk = Some st1 \<and>
     load_loop (\<lambda>info acc. Some (acc @ [info])) ([], snd (ecos_config_file_open st1 ''cfg'' ''r'')) = Some ([info], st2) \<and>
     take 4 (cf_pdata info) = [192, 168, 70, 1] \<and> cf_index info = 0x21)"
proof -
  have a: "cf_writable empty_disk ''cfg''" "\<forall>c \<in> set [sample_config]. saved_ok c" "info_ok (cf_line_info empty_disk)"
    using sample_config_ok by (simp_all add: empty_disk_def info_ok_def blank_info_def)
  have d: "delivered_data sample_config = [192, 168, 70, 1]" "cf_index sample_config = 0x21" by (simp_all add: delivered_data_eq sample_config_def cf_types)
  have l: "length (delivered_data sample_config) = 4" using d by simp
  have "loaded_as sample_config i \<Longrightarrow> take 4 (cf_pdata i) = [192, 168, 70, 1] \<and> cf_index i = 0x21" for i
    unfolding loaded_as_def l using d by simp
  with config_file_save_load [OF a] a show ?thesis by (fastforce simp: list_all2_Cons1)
qed

text \<open>C37: the values are written as they are, so a string with a quote in it is cut at the quote when it is read back,
  and its index is lost.\<close>

theorem config_file_quote_lost:
  assumes "cf_writable st p" and "cf_type c = ECOS_CF_STRING" and "cf_pdata c = bytes_of (a @ CHR 0x22 # b @ [NUL])"
    and "quotable a" and "quotable b" and "CHR ''<'' \<notin> set (a @ b)"
    and "cf_index c \<noteq> ECOS_CONFIG_FILE_NO_INDEX" and "cf_comment c = [NUL]"
    and "length a + length b < 10000"
    and "info_ok (cf_line_info st)" and "cf_type (cf_line_info st) = ECOS_CF_STRING"
  shows "\<exists>st1 st2 info. ecos_config_file_save_val (snd (ecos_config_file_open st p ''w'')) c = Some (c, st1) \<and>
    ecos_config_file_load_data (snd (ecos_config_file_open st1 p ''r'')) = Some (Cf_Info info, st2) \<and>
    take (unat (cf_len info)) (cf_pdata info) = bytes_of (a @ [NUL]) \<and> cf_index info = 0"
proof -
  let ?info = "reset (cf_line_info st)"
  define x where "x = ''0x'' @ show_hex_pad 2 (unat (cf_index c)) @ [CHR 0x22] @ ''>'' @ [CHR 0x0D]"
  define l where "l = CHR 0x09 # ''<val '' @ CHR 0x22 # a @ CHR 0x22 # b @ CHR 0x22 # '' index '' @ CHR 0x22 # x"
  have no: "NUL \<notin> set (a @ CHR 0x22 # b)" using assms(4,5) by (auto simp: quotable_def)
  then have "takeWhile (\<lambda>c. c \<noteq> NUL) ((a @ CHR 0x22 # b) @ [NUL]) = a @ CHR 0x22 # b" by (subst takeWhile_append2) auto
  then have vt: "val_text c = Some (Some (a @ CHR 0x22 # b))" using assms(2,3)
    by (simp add: val_text_def cf_types cstr_at_def cstr_def)
  let ?st = "st\<lparr>cf_fd := Some (Writing p)\<rparr>"
  have fd: "cf_fd ?st = Some (Writing p)" by simp
  have o: "snd (ecos_config_file_open st p ''w'') = written ?st p []" using assms(1) by (simp add: ecos_config_file_open_def written_def)
  have sv: "ecos_config_file_save_val (written ?st p []) c = Some (c, written ?st p (lines_text [l]))"
    using vt assms(2,7,8)
    by (simp add: ecos_config_file_save_val_def fprintf_written [OF fd] cf_types l_def x_def cstr_at_def cstr_def
        CF_DEF_VAL_def CF_DEF_INDEX_def CF_ENTER_def Let_def)
  have xs: "c' \<noteq> CHR ''<'' \<and> c' \<noteq> CHR 0x0A \<and> c' \<noteq> NUL" if "c' \<in> set x" for c'
    using that is_digit_chars [OF show_hex_pad_chars [of c' 2 "unat (cf_index c)"]] by (auto simp: x_def)
  have "unat (cf_index c) < 16 ^ Suc 1" using unat_u8_less [of "cf_index c"] by simp
  then have "length x \<le> 7" using length_show_hex_nat [of "unat (cf_index c)" 1] by (simp add: x_def show_hex_pad_def)
  then have ok: "line_ok l" using assms(4,5,9) xs by (auto simp: line_ok_def l_def quotable_def CF_MAX_BUF_def)
  have "strstr (l @ [CHR 0x0A]) (''<'' @ CF_DEF_KEY @ '' '') = None"
    using assms(6) xs [of "CHR ''<''"] by (auto simp: l_def CF_DEF_KEY_def strstr_hd strstr_skip intro!: strstr_none)
  moreover have "strstr (l @ [CHR 0x0A]) (''<'' @ CF_DEF_VAL @ '' '') = Some (tl l @ [CHR 0x0A])"
    by (simp add: l_def CF_DEF_VAL_def strstr_hd strstr_prefix)
  moreover have "read_content (tl (tl l) @ [CHR 0x0A]) = Some (a, b @ CHR 0x22 # '' index '' @ CHR 0x22 # x @ [CHR 0x0A])"
    using read_quotable [OF assms(4), of "''val ''"] by (simp add: l_def)
  moreover have "read_content (b @ CHR 0x22 # '' index '' @ CHR 0x22 # x @ [CHR 0x0A]) = Some ('' index '', x @ [CHR 0x0A])"
    using read_content_text [of b "'' index ''" "x @ [CHR 0x0A]"] assms(5) by (simp add: quotable_def)
  moreover have "scan_uint 16 '' index '' = None" by (simp add: scan_uint_def c_isspace_def strip_sign_def is_digit_def digit_val_def)
  moreover have "length (bytes_of (a @ [NUL])) = length a + 1" by (simp add: bytes_of_def)
  then have "read_type_val ?info a = Some (?info\<lparr>cf_pdata := bytes_of (a @ [NUL]) @ drop (length a + 1) (cf_pdata ?info), cf_len := of_nat (length a + 1)\<rparr>)"
    using assms(9,10,11) by (simp add: read_type_val_def cf_types store_bytes_eq info_ok_def CF_MAX_BUF_def del: of_nat_add of_nat_Suc)
  ultimately have p: "parse_line ?info (l @ [CHR 0x0A]) =
      Some (LINE_INFO, ?info\<lparr>cf_pdata := bytes_of (a @ [NUL]) @ drop (length a + 1) (cf_pdata ?info), cf_len := of_nat (length a + 1)\<rparr>)"
    unfolding parse_line_def val_line_def by (simp add: l_def split: option.split)
  have "unat (of_nat (length a + 1) :: u32) = length a + 1"
    using assms(9) by (simp add: unsigned_of_nat take_bit_nat_eq_self del: of_nat_add of_nat_Suc)
  moreover have "snd (ecos_config_file_open (written ?st p (lines_text [l])) p ''r'') = reading (written ?st p (lines_text [l])) (cf_line_info st) [l]"
    by (simp add: ecos_config_file_open_def reading_def written_def)
  ultimately show ?thesis using load_data_line [OF ok p, of "written ?st p (lines_text [l])" "[]"] sv o
    by (simp add: LINE_INFO_def LINE_EOF_def bytes_of_def)
qed

definition quoted_config :: config_file where
  "quoted_config = sample_config\<lparr>cf_type := ECOS_CF_STRING, cf_pdata := bytes_of (''a'' @ CHR 0x22 # ''b'' @ [NUL])\<rparr>"

definition string_disk :: cf_state where
  "string_disk = empty_disk\<lparr>cf_line_info := blank_info\<lparr>cf_type := ECOS_CF_STRING\<rparr>\<rparr>"

theorem config_file_quote_lost_witness:
  "\<exists>st1 st2 info. ecos_config_file_save_val (snd (ecos_config_file_open string_disk ''cfg'' ''w'')) quoted_config = Some (quoted_config, st1) \<and>
    ecos_config_file_load_data (snd (ecos_config_file_open st1 ''cfg'' ''r'')) = Some (Cf_Info info, st2) \<and>
    take (unat (cf_len info)) (cf_pdata info) = bytes_of (''a'' @ [NUL]) \<and> cf_index info = 0"
  by (rule config_file_quote_lost [where b = "''b''"])
    (simp_all add: string_disk_def empty_disk_def quoted_config_def sample_config_def quotable_def info_ok_def blank_info_def
      ECOS_CONFIG_FILE_NO_INDEX_def)

end
