(* ===== verification/Ecos_Net.thy ===== *)
theory Ecos_Net
  imports Ecos_Config_File
begin

text \<open>
  Addresses as text (\<^verbatim>\<open>041_ecos_mib/lib/common/ecos_string.c\<close>, over \<open>inet_aton\<close> and \<open>inet_ntoa\<close> of the GNU C library)
  and setting the address of an interface (\<^verbatim>\<open>041_ecos_mib/apps/ecos/ecos_dev_api.c\<close>).  What \<open>socket\<close> and \<open>ioctl\<close> return
  is an argument, as a function of the number of earlier calls; the requests made are recorded.  The machine is
  little-endian.
\<close>

subsection \<open>Addresses\<close>

definition htonl :: "u32 \<Rightarrow> u32" where
  "htonl w = push_bit 24 (w AND 0xFF) OR push_bit 8 (w AND 0xFF00) OR (drop_bit 8 w AND 0xFF00) OR drop_bit 24 w"

definition ntohl :: "u32 \<Rightarrow> u32" where "ntohl w = htonl w"

text \<open>A number of \<open>inet_aton\<close>: decimal, octal after \<open>0\<close>, hexadecimal after \<open>0x\<close>.\<close>

definition aton_num :: "string \<Rightarrow> (nat \<times> string) option" where
  "aton_num s =
     (case s of
        [] \<Rightarrow> None
      | c # cs \<Rightarrow>
          if \<not> is_digit 10 c then None
          else let base = (if strip_0x s \<noteq> s then 16 else if c = CHR ''0'' then 8 else 10 :: nat);
                   t = (if base = 16 then strip_0x s else s);
                   ds = takeWhile (is_digit base) t
               in Some (digits_val base ds, drop (length ds) t))"

text \<open>Up to three numbers of one byte followed by a dot, then the last number and what follows it.\<close>

fun aton_parts :: "nat \<Rightarrow> nat list \<Rightarrow> string \<Rightarrow> (nat list \<times> nat \<times> string) option" where
  "aton_parts n ps s =
     (case aton_num s of
        None \<Rightarrow> None
      | Some (v, rest) \<Rightarrow>
          if rest \<noteq> [] \<and> hd rest = CHR ''.'' then
            (case n of 0 \<Rightarrow> None | Suc m \<Rightarrow> if v > 255 then None else aton_parts m (ps @ [v]) (tl rest))
          else Some (ps, v, rest))"

declare aton_parts.simps [simp del]

text \<open>The address as a number; \<open>inet_aton\<close> stores it in network order.\<close>

definition aton_value :: "nat list \<Rightarrow> nat \<Rightarrow> nat" where
  "aton_value ps v = foldl (\<lambda>a p. a * 256 + p) 0 ps * 256 ^ (4 - length ps) + v"

definition inet_aton :: "string \<Rightarrow> u32 option" where
  "inet_aton s = do {
     (ps, v, rest) \<leftarrow> aton_parts 3 [] s;
     (if (rest = [] \<or> c_isspace (hd rest)) \<and> v < 256 ^ (4 - length ps) then Some (htonl (of_nat (aton_value ps v))) else None) }"

definition inet_ntoa :: "u32 \<Rightarrow> string" where
  "inet_ntoa w = (let bs = map (\<lambda>b. show_nat (unat b)) (u32_bytes w)
     in bs ! 0 @ ''.'' @ bs ! 1 @ ''.'' @ bs ! 2 @ ''.'' @ bs ! 3)"

definition IP2Str :: "u32 \<Rightarrow> string" where
  "IP2Str ulIP = (let ulIP = htonl ulIP in inet_ntoa ulIP)"

definition Str2IP :: "string \<Rightarrow> u32 option" where
  "Str2IP cszIP = map_option ntohl (inet_aton cszIP)"

definition IsValidIP :: "u32 \<Rightarrow> bool" where
  "IsValidIP ulIP =
     (let uchFirstOctet = ucast (drop_bit 24 ulIP AND 0xFF) :: u8
      in if uchFirstOctet < 1 then False else if uchFirstOctet > 223 then False else if uchFirstOctet = 127 then False else True)"

subsection \<open>Interfaces\<close>

record ifreq =
  ifr_name :: string
  ifr_s_addr :: u32
  ifr_request :: int

record dev_env =
  de_socket :: "nat \<Rightarrow> int"
  de_ioctl :: "nat \<Rightarrow> int"

record dev_state =
  s_socket_fd :: int
  dev_calls :: nat
  dev_log :: "ifreq list"

definition SIOCSIFADDR :: int where "SIOCSIFADDR = 0x8916"
definition IFNAMSIZ :: nat where "IFNAMSIZ = 16"

definition dev_socket_ioctl :: "dev_env \<Rightarrow> ifreq \<Rightarrow> dev_state \<Rightarrow> int \<times> dev_state" where
  "dev_socket_ioctl env req st =
     (let n = dev_calls st;
          fd = (if s_socket_fd st = -1 then de_socket env n else s_socket_fd st);
          st = st\<lparr>s_socket_fd := fd, dev_calls := n + 1\<rparr>
      in if fd = -1 then (-1, st) else (de_ioctl env n, st\<lparr>dev_log := dev_log st @ [req]\<rparr>))"

definition InterfaceSockaddrSet :: "dev_env \<Rightarrow> string \<Rightarrow> u32 \<Rightarrow> int \<Rightarrow> dev_state \<Rightarrow> bool \<times> dev_state" where
  "InterfaceSockaddrSet env cszIfName in_addr request st =
     (let (r, st) = dev_socket_ioctl env \<lparr>ifr_name = strncpy IFNAMSIZ cszIfName, ifr_s_addr = htonl in_addr, ifr_request = request\<rparr> st
      in (r \<ge> 0, st))"

text \<open>At most five attempts.\<close>

fun ip_set_loop :: "nat \<Rightarrow> dev_env \<Rightarrow> string \<Rightarrow> u32 \<Rightarrow> dev_state \<Rightarrow> bool \<times> dev_state" where
  "ip_set_loop 0 env cszIfName ulIP st = (False, st)"
| "ip_set_loop (Suc i) env cszIfName ulIP st =
     (let (ok, st) = InterfaceSockaddrSet env cszIfName ulIP SIOCSIFADDR st
      in if ok then (True, st) else ip_set_loop i env cszIfName ulIP st)"

definition InterfaceIPSet :: "dev_env \<Rightarrow> string \<Rightarrow> u32 \<Rightarrow> dev_state \<Rightarrow> bool \<times> dev_state" where
  "InterfaceIPSet env cszIfName ulIP st = ip_set_loop 5 env cszIfName ulIP st"

subsection \<open>Text and back\<close>

lemma htonl_bytes: "u32_bytes (htonl w) = rev (u32_bytes w)"
proof -
  have m: "(0xFF :: u32) = mask 8" "(0xFF00 :: u32) = push_bit 8 (mask 8)" by (simp_all add: mask_eq_exp_minus_1)
  show ?thesis unfolding u32_bytes_def htonl_def rev.simps append.simps list.inject m
    by (intro conjI bit_word_eqI; auto simp: bit_simps)
qed

lemma u32_bytes_inject: "u32_bytes v = u32_bytes w \<Longrightarrow> v = w"
  using bytes_of_u32 [of v "[]"] bytes_of_u32 [of w "[]"] by simp

lemma ntohl_htonl [simp]: "ntohl (htonl w) = w"
  by (rule u32_bytes_inject) (simp add: ntohl_def htonl_bytes)

lemma show_nat_hd: "0 < n \<Longrightarrow> hd (show_nat n) \<noteq> CHR ''0''"
proof (induction n rule: show_nat.induct)
  case (1 n)
  show ?case
  proof (cases "n < 10")
    case True
    have "of_char (CHR ''0'') = (48 :: nat)" by simp
    moreover have "of_char (char_of (48 + n) :: char) = 48 + n" using True by simp
    ultimately have "(char_of (48 + n) :: char) \<noteq> CHR ''0''" using 1(2) by (metis less_add_same_cancel1 less_irrefl)
    with True show ?thesis by (simp add: show_nat.simps [of n])
  next
    case False
    then show ?thesis using 1(1) show_nat_digits [of "n div 10"] by (simp add: show_nat.simps [of n])
  qed
qed

lemma aton_num_show:
  assumes "rest = [] \<or> hd rest = CHR ''.''"
  shows "aton_num (show_nat n @ rest) = Some (n, rest)"
proof -
  have d: "list_all (is_digit 10) (show_nat n)" "digits_val 10 (show_nat n) = n" "show_nat n \<noteq> []" using show_nat_digits by blast+
  have r: "rest = [] \<or> \<not> is_digit b (hd rest)" for b using assms by (auto simp: is_digit_def digit_val_def)
  obtain c cs where c: "show_nat n = c # cs" "is_digit 10 c" using d by (cases "show_nat n") auto
  have x: "strip_0x (show_nat n @ rest) = show_nat n @ rest"
  proof (cases cs)
    case Nil
    then show ?thesis using c assms by (cases rest) (auto simp: strip_0x_def split: list.split)
  next
    case (Cons e es)
    then have "is_digit 10 e" using d(1) c by simp
    then show ?thesis using c Cons is_digit_chars [of 10 e] by (auto simp: strip_0x_def split: list.split)
  qed
  show ?thesis
  proof (cases "n = 0")
    case True
    have "of_char (CHR ''0'') = (48 :: nat)" by simp
    then have "char_of (48 :: nat) = CHR ''0''" by (metis char_of_char)
    with True have s: "show_nat n = ''0''" by (simp add: show_nat_less_10)
    have "takeWhile (is_digit 8) (''0'' @ rest) = ''0''"
      using takeWhile_digits [of 8 "''0''" rest] r by (simp add: is_digit_def digit_val_def)
    then show ?thesis using x True s by (simp add: aton_num_def is_digit_def digit_val_def digits_val_def)
  next
    case False
    then have "c \<noteq> CHR ''0''" using show_nat_hd [of n] c by simp
    then show ?thesis using x c d takeWhile_digits [OF d(1) r] by (simp add: aton_num_def)
  qed
qed

lemma aton_parts_show:
  "aton_parts (Suc m) ps (show_nat (unat (b :: u8)) @ CHR ''.'' # s) = aton_parts m (ps @ [unat b]) s"
  "aton_parts m ps (show_nat (unat b)) = Some (ps, unat b, [])"
  using aton_num_show [of "CHR ''.'' # s" "unat b"] aton_num_show [of "[]" "unat b"] unat_u8_less [of b]
  by (subst aton_parts.simps, simp)+

lemma Str2IP_IP2Str [simp]: "Str2IP (IP2Str ip) = Some ip"
proof -
  obtain a b c d where bs: "u32_bytes ip = [d, c, b, a]" by (simp add: u32_bytes_def)
  have n: "(3::nat) = Suc (Suc (Suc 0))" by simp
  have s: "IP2Str ip = show_nat (unat a) @ CHR ''.'' # show_nat (unat b) @ CHR ''.'' # show_nat (unat c) @ CHR ''.'' # show_nat (unat d)"
    by (simp add: IP2Str_def inet_ntoa_def htonl_bytes bs Let_def)
  have "aton_parts 3 [] (IP2Str ip) = Some ([unat a, unat b, unat c], unat d, [])"
    unfolding s n by (simp add: aton_parts_show)
  moreover have "of_nat (aton_value [unat a, unat b, unat c] (unat d)) = ip"
  proof -
    have "bytes_u32 (u32_bytes ip) = Some ip" using bytes_of_u32 [of ip "[]"] by simp
    then have "ip = ucast d OR push_bit 8 (ucast c) OR push_bit 16 (ucast b) OR push_bit 24 (ucast a)" by (simp add: bs bytes_u32_def)
    also have "\<dots> = ucast d + (push_bit 8 (ucast c) + (push_bit 16 (ucast b) + push_bit 24 (ucast a)))"
    proof -
      have "push_bit 16 (ucast b) AND push_bit 24 (ucast a) = (0 :: u32)"
        "push_bit 8 (ucast c) AND (push_bit 16 (ucast b) OR push_bit 24 (ucast a)) = (0 :: u32)"
        "ucast d AND (push_bit 8 (ucast c) OR push_bit 16 (ucast b) OR push_bit 24 (ucast a)) = (0 :: u32)"
        by (rule bit_word_eqI; auto simp: bit_simps dest!: bit_imp_le_length)+
      then show ?thesis by (simp add: disjunctive_add_eq_or)
    qed
    also have "\<dots> = of_nat (unat d) + (push_bit 8 (of_nat (unat c)) + (push_bit 16 (of_nat (unat b)) + push_bit 24 (of_nat (unat a))))" by simp
    also have "\<dots> = of_nat (unat d + (push_bit 8 (unat c) + (push_bit 16 (unat b) + push_bit 24 (unat a))))" by (simp only: push_bit_of_nat of_nat_add)
    finally show ?thesis by (simp add: aton_value_def push_bit_eq_mult algebra_simps)
  qed
  ultimately show ?thesis using unat_u8_less [of d] by (simp add: Str2IP_def inet_aton_def)
qed

lemma IP2Str_text: "7 \<le> length (IP2Str ip)" "length (IP2Str ip) \<le> 15" "NUL \<notin> set (IP2Str ip)"
proof -
  obtain a b c d where bs: "u32_bytes ip = [d, c, b, a]" by (simp add: u32_bytes_def)
  have s: "IP2Str ip = show_nat (unat a) @ CHR ''.'' # show_nat (unat b) @ CHR ''.'' # show_nat (unat c) @ CHR ''.'' # show_nat (unat d)"
    by (simp add: IP2Str_def inet_ntoa_def htonl_bytes bs Let_def)
  have l: "1 \<le> length (show_nat (unat x)) \<and> length (show_nat (unat x)) \<le> 3" for x :: u8
    using length_show_nat [of "unat x" 2] unat_u8_less [of x] show_nat_digits [of "unat x"] by (cases "show_nat (unat x)") auto
  show "7 \<le> length (IP2Str ip)" "length (IP2Str ip) \<le> 15" unfolding s using l [of a] l [of b] l [of c] l [of d] by simp_all
  show "NUL \<notin> set (IP2Str ip)" unfolding s using show_nat_chars is_digit_chars by fastforce
qed

text \<open>When the interface accepts the request, one attempt is made.\<close>

lemma ip_set_ok:
  assumes "s_socket_fd st \<noteq> -1 \<or> de_socket env (dev_calls st) \<noteq> -1" "de_ioctl env (dev_calls st) \<ge> 0"
  shows "fst (ip_set_loop (Suc k) env dev ip st) \<and> dev_log (snd (ip_set_loop (Suc k) env dev ip st)) =
    dev_log st @ [\<lparr>ifr_name = strncpy IFNAMSIZ dev, ifr_s_addr = htonl ip, ifr_request = SIOCSIFADDR\<rparr>]"
  using assms by (auto simp: InterfaceSockaddrSet_def dev_socket_ioctl_def Let_def)

lemma InterfaceIPSet_ok:
  assumes "s_socket_fd st \<noteq> -1 \<or> de_socket env (dev_calls st) \<noteq> -1" "de_ioctl env (dev_calls st) \<ge> 0"
  shows "fst (InterfaceIPSet env dev ip st)"
    "dev_log (snd (InterfaceIPSet env dev ip st)) = dev_log st @ [\<lparr>ifr_name = strncpy IFNAMSIZ dev, ifr_s_addr = htonl ip, ifr_request = SIOCSIFADDR\<rparr>]"
  using ip_set_ok [OF assms, of 4] by (simp_all add: InterfaceIPSet_def)

end
