(* ===== verification/Ecos_Mib_Comm.thy ===== *)
theory Ecos_Mib_Comm
  imports C_Memory
begin

text \<open>
  The exchange of configuration requests, \<^verbatim>\<open>041_ecos_mib/lib/common/ecos_mib_comm.c\<close>: a client puts a header and data
  into a datagram, the server answers through a hook.  Each process has the static request and response buffers of the
  library; the header of 12 bytes lies at their start.  What the socket functions return and the network between the
  processes are arguments.  \<open>None\<close> is an access outside a buffer, or the exit of the process when no socket can be made.
\<close>

subsection \<open>Data\<close>

definition EXCHANGE_HDR_LEN :: nat where "EXCHANGE_HDR_LEN = 12"
definition MAX_EXCHANGE_SIZE :: nat where "MAX_EXCHANGE_SIZE = 100 * 1024"
definition INVALID_SOCKET :: int where "INVALID_SOCKET = -1"

definition CONF_REQUEST_FIELD_INFO :: u8 where "CONF_REQUEST_FIELD_INFO = 0"
definition CONF_REQUEST_READ :: u8 where "CONF_REQUEST_READ = 1"
definition CONF_REQUEST_WRITE :: u8 where "CONF_REQUEST_WRITE = 2"
definition CONF_REQUEST_REMOVE :: u8 where "CONF_REQUEST_REMOVE = 3"
definition CONF_REQUEST_PERMISSION :: u8 where "CONF_REQUEST_PERMISSION = 5"

definition CONF_RESULT_OK :: u8 where "CONF_RESULT_OK = 0"
definition CONF_RESULT_IPC_ERROR :: u8 where "CONF_RESULT_IPC_ERROR = 1"
definition CONF_RESULT_MIB_UNKNOWN :: u8 where "CONF_RESULT_MIB_UNKNOWN = 3"
definition CONF_RESULT_REQUEST_DENY :: u8 where "CONF_RESULT_REQUEST_DENY = 4"
definition CONF_RESULT_REQUEST_NOT_HANDLE :: u8 where "CONF_RESULT_REQUEST_NOT_HANDLE = 5"
definition CONF_RESULT_INDEX_OUT_OF_RANGE :: u8 where "CONF_RESULT_INDEX_OUT_OF_RANGE = 6"
definition CONF_RESULT_DATA_TOO_SHORT :: u8 where "CONF_RESULT_DATA_TOO_SHORT = 7"
definition CONF_RESULT_DATA_TOO_LONG :: u8 where "CONF_RESULT_DATA_TOO_LONG = 8"
definition CONF_RESULT_DATA_INVALID :: u8 where "CONF_RESULT_DATA_INVALID = 9"
definition CONF_RESULT_UNKNOWN :: u8 where "CONF_RESULT_UNKNOWN = 10"

record mib_comm =
  s_iSockServer :: int
  s_iSockClient :: int
  s_Request :: "u8 list"
  s_Response :: "u8 list"

text \<open>The fields of the header in a buffer.\<close>

definition hdr_mib :: "u8 list \<Rightarrow> u32 option" where "hdr_mib buf = bytes_u32 buf"
definition hdr_len :: "u8 list \<Rightarrow> u16 option" where "hdr_len buf = bytes_u16 (drop 4 buf)"
definition hdr_index :: "u8 list \<Rightarrow> u8 option" where "hdr_index buf = array_get buf 6"
definition hdr_request :: "u8 list \<Rightarrow> u8 option" where "hdr_request buf = array_get buf 7"
definition hdr_result :: "u8 list \<Rightarrow> u8 option" where "hdr_result buf = array_get buf 8"

definition put_hdr :: "u8 list \<Rightarrow> u32 \<Rightarrow> u16 \<Rightarrow> u8 \<Rightarrow> u8 \<Rightarrow> u8 \<Rightarrow> u8 list option" where
  "put_hdr buf mib ln index request result = store_bytes buf 0 (u32_bytes mib @ u16_bytes ln @ [index, request, result])"

text \<open>\<open>recvfrom\<close> into a buffer: what does not fit is lost, and an error leaves the buffer as it is.\<close>

definition recv_into :: "u8 list \<Rightarrow> u8 list option \<Rightarrow> (int \<times> u8 list) option" where
  "recv_into buf r = (case r of
      None \<Rightarrow> Some (-1, buf)
    | Some d \<Rightarrow> map_option (\<lambda>b. (int (length (take (length buf) d)), b)) (store_bytes buf 0 (take (length buf) d)))"

subsection \<open>Server\<close>

definition ECosMibCommServerRegister :: "int \<Rightarrow> mib_comm \<Rightarrow> (int \<times> mib_comm) option" where
  "ECosMibCommServerRegister sock c = (if sock < 0 then None else Some (sock, c\<lparr>s_iSockServer := sock\<rparr>))"

definition ECosMibCommServerUnregister :: "int \<Rightarrow> mib_comm \<Rightarrow> bool \<times> mib_comm" where
  "ECosMibCommServerUnregister closed c =
     (if s_iSockServer c > 0 then
        (if closed < 0 then (False, c) else (True, c\<lparr>s_iSockServer := INVALID_SOCKET\<rparr>))
      else (True, c))"

text \<open>A hook gets the state of the program and the two buffers and returns a length.\<close>

type_synonym 'w server_hook = "'w \<Rightarrow> u8 list \<Rightarrow> u8 list \<Rightarrow> (int \<times> 'w \<times> u8 list \<times> u8 list) option"

definition ECosMibCommServerExchange ::
  "'w server_hook option \<Rightarrow> u8 list option \<Rightarrow> 'w \<times> mib_comm \<Rightarrow> (bool \<times> u8 list option \<times> 'w \<times> mib_comm) option" where
  "ECosMibCommServerExchange ServerExchangeHook received s = do {
     let (w, c) = s;
     (iRequestBuffLen, req) \<leftarrow> recv_into (s_Request c) received;
     let c = c\<lparr>s_Request := req\<rparr>;
     usDataLength \<leftarrow> hdr_len req;
     (case ServerExchangeHook of
        Some hook \<Rightarrow>
          if iRequestBuffLen = int EXCHANGE_HDR_LEN + uint usDataLength then do {
            ulMIB \<leftarrow> hdr_mib req;
            uchIndex \<leftarrow> hdr_index req;
            uchRequest \<leftarrow> hdr_request req;
            resp \<leftarrow> put_hdr (s_Response c) ulMIB 0 uchIndex uchRequest CONF_RESULT_IPC_ERROR;
            (iResponseBuffLen, w, req, resp) \<leftarrow> hook w req resp;
            let c = c\<lparr>s_Request := req, s_Response := resp\<rparr>;
            (if iResponseBuffLen \<ge> 0 then do {
               d \<leftarrow> load_bytes resp 0 (nat iResponseBuffLen + EXCHANGE_HDR_LEN);
               Some (True, Some d, w, c) }
             else Some (False, None, w, c)) }
          else Some (False, None, w, c)
      | None \<Rightarrow> Some (False, None, w, c)) }"

subsection \<open>Client\<close>

definition ECosMibCommClientRegister :: "int \<Rightarrow> mib_comm \<Rightarrow> (int \<times> mib_comm) option" where
  "ECosMibCommClientRegister sock c = (if sock < 0 then None else Some (sock, c\<lparr>s_iSockClient := sock\<rparr>))"

definition ECosMibCommClientUnregister :: "int \<Rightarrow> mib_comm \<Rightarrow> bool \<times> mib_comm" where
  "ECosMibCommClientUnregister closed c =
     (if s_iSockClient c > 0 then
        (if closed < 0 then (False, c) else (True, c\<lparr>s_iSockClient := INVALID_SOCKET\<rparr>))
      else (True, c))"

text \<open>The environment of a client: the socket it is given, and what comes back for a datagram.\<close>

record 'n client_env =
  ce_sock :: int
  ce_net :: "'n \<Rightarrow> u8 list \<Rightarrow> (u8 list option \<times> 'n) option"

definition decode_response ::
  "u8 list \<Rightarrow> u8 list option \<Rightarrow> nat \<Rightarrow> u8 \<Rightarrow> (u8 \<times> u8 list option) option" where
  "decode_response resp pData ulRcvSize uchResult = do {
     usDataLength \<leftarrow> hdr_len resp;
     (case pData of
        Some p \<Rightarrow>
          if uchResult = CONF_RESULT_OK \<and> usDataLength > 0 then
            if ulRcvSize < unat usDataLength then do {
              d \<leftarrow> load_bytes resp EXCHANGE_HDR_LEN ulRcvSize;
              p \<leftarrow> store_bytes p 0 d;
              Some (CONF_RESULT_DATA_TOO_SHORT, Some p) }
            else do {
              d \<leftarrow> load_bytes resp EXCHANGE_HDR_LEN (unat usDataLength);
              p \<leftarrow> store_bytes p 0 d;
              p \<leftarrow> (if ulRcvSize > unat usDataLength then store_bytes p (unat usDataLength) [0] else Some p);
              Some (uchResult, Some p) }
          else Some (uchResult, pData)
      | None \<Rightarrow> Some (uchResult, pData)) }"

definition build_request :: "u8 list \<Rightarrow> u8 \<Rightarrow> u8 \<Rightarrow> u32 \<Rightarrow> u8 list option \<Rightarrow> u32 \<Rightarrow> u8 list option" where
  "build_request buf Request uchIndex ulMIB pData ulSndSize = do {
     req \<leftarrow> put_hdr buf ulMIB (ucast ulSndSize) uchIndex Request CONF_RESULT_IPC_ERROR;
     (if ulSndSize > 0 then do {
        p \<leftarrow> pData;
        d \<leftarrow> load_bytes p 0 (unat ulSndSize);
        store_bytes req EXCHANGE_HDR_LEN d }
      else Some req) }"

definition ConfigExchange ::
  "'n client_env \<Rightarrow> u8 \<Rightarrow> u8 \<Rightarrow> u32 \<Rightarrow> u8 list option \<Rightarrow> u32 \<Rightarrow> u32 \<Rightarrow> 'n \<times> mib_comm \<Rightarrow>
    (u8 \<times> u8 list option \<times> 'n \<times> mib_comm) option" where
  "ConfigExchange env Request uchIndex ulMIB pData ulSndSize ulRcvSize s = do {
     let (n, c) = s;
     c \<leftarrow> (if s_iSockClient c = INVALID_SOCKET then map_option snd (ECosMibCommClientRegister (ce_sock env) c) else Some c);
     (if MAX_EXCHANGE_SIZE < unat ulSndSize \<or> MAX_EXCHANGE_SIZE < unat ulRcvSize then Some (CONF_RESULT_IPC_ERROR, pData, n, c)
      else if pData = None \<and> (ulSndSize OR ulRcvSize) \<noteq> 0 then Some (CONF_RESULT_DATA_INVALID, pData, n, c)
      else do {
        req \<leftarrow> build_request (s_Request c) Request uchIndex ulMIB pData ulSndSize;
        dgram \<leftarrow> load_bytes req 0 (unat ulSndSize + EXCHANGE_HDR_LEN);
        (received, n) \<leftarrow> ce_net env n dgram;
        (_, resp) \<leftarrow> recv_into (s_Response c) received;
        respMIB \<leftarrow> hdr_mib resp;
        reqMIB \<leftarrow> hdr_mib req;
        (if respMIB \<noteq> reqMIB then do {
           resp \<leftarrow> store_bytes resp 8 [CONF_RESULT_UNKNOWN];
           Some (CONF_RESULT_UNKNOWN, pData, n, c\<lparr>s_Request := req, s_Response := resp\<rparr>) }
         else do {
           uchResult \<leftarrow> hdr_result resp;
           (r, pData) \<leftarrow> decode_response resp pData (unat ulRcvSize) uchResult;
           Some (r, pData, n, c\<lparr>s_Request := req, s_Response := resp\<rparr>) }) }) }"

definition ConfigReadString ::
  "'n client_env \<Rightarrow> u8 \<Rightarrow> u32 \<Rightarrow> u8 list \<Rightarrow> 'n \<times> mib_comm \<Rightarrow> (u8 \<times> u8 list option \<times> 'n \<times> mib_comm) option" where
  "ConfigReadString env uchIndex ulMIB szString s =
     ConfigExchange env CONF_REQUEST_READ uchIndex ulMIB (Some szString) 0 (of_nat (length szString)) s"

definition ConfigWriteString ::
  "'n client_env \<Rightarrow> u8 \<Rightarrow> u32 \<Rightarrow> u8 list \<Rightarrow> 'n \<times> mib_comm \<Rightarrow> (u8 \<times> u8 list option \<times> 'n \<times> mib_comm) option" where
  "ConfigWriteString env uchIndex ulMIB cszString s =
     (if 0 \<in> set cszString
      then ConfigExchange env CONF_REQUEST_WRITE uchIndex ulMIB (Some cszString)
             (of_nat (length (takeWhile (\<lambda>b. b \<noteq> 0) cszString) + 1)) 0 s
      else None)"

definition GetLastExchangeResponse :: "mib_comm \<Rightarrow> u32 \<Rightarrow> u8 list option \<Rightarrow> u32 \<Rightarrow> u32 \<Rightarrow> (int \<times> u8 list option) option" where
  "GetLastExchangeResponse c ulMIB pData ulOffset ulSize = do {
     usDataLength \<leftarrow> hdr_len (s_Response c);
     uchResult \<leftarrow> hdr_result (s_Response c);
     respMIB \<leftarrow> hdr_mib (s_Response c);
     let iRemainderSize = sint (ucast usDataLength - ulOffset);
     (if CONF_RESULT_OK \<noteq> uchResult \<or> usDataLength = 0 then Some (0, pData)
      else if ulMIB \<noteq> respMIB then Some (- uint CONF_RESULT_MIB_UNKNOWN, pData)
      else do {
        let iRemainderSize = (if iRemainderSize < 0 then 0 else iRemainderSize);
        let iRemainderSize = (if (ulSize AND of_int iRemainderSize) \<noteq> 0 \<and> of_int iRemainderSize > ulSize then sint ulSize else iRemainderSize);
        (case pData of
           Some p \<Rightarrow>
             if iRemainderSize \<noteq> 0 then do {
               d \<leftarrow> load_bytes (s_Response c) (EXCHANGE_HDR_LEN + unat ulOffset) (nat iRemainderSize);
               p \<leftarrow> store_bytes p 0 d;
               Some (iRemainderSize, Some p) }
             else Some (iRemainderSize, pData)
         | None \<Rightarrow> Some (iRemainderSize, pData)) }) }"

text \<open>Field information: the names of an enumeration are sent as offsets and turned into pointers into the data, which
  lies at the address \<open>base\<close>.  The array of pairs starts at byte 16, the pointer of a pair is at its byte 8.\<close>

definition CONF_FIELD_ENUM :: u32 where "CONF_FIELD_ENUM = 2"

definition add_u64 :: "u64 \<Rightarrow> u8 list \<Rightarrow> u8 list option" where
  "add_u64 base bs = do {
     lo \<leftarrow> bytes_u32 bs;
     hi \<leftarrow> bytes_u32 (drop 4 bs);
     let w = (ucast lo OR push_bit 32 (ucast hi)) + base;
     Some (u32_bytes (ucast w) @ u32_bytes (ucast (drop_bit 32 w))) }"

fun relocate :: "u64 \<Rightarrow> nat \<Rightarrow> nat \<Rightarrow> u8 list \<Rightarrow> u8 list option" where
  "relocate base ulIndex 0 p = Some p"
| "relocate base ulIndex (Suc n) p = do {
     d \<leftarrow> load_bytes p (24 + 16 * ulIndex) 8;
     d \<leftarrow> add_u64 base d;
     p \<leftarrow> store_bytes p (24 + 16 * ulIndex) d;
     relocate base (ulIndex + 1) n p }"

definition ConfigRequestFieldInfo ::
  "'n client_env \<Rightarrow> u64 \<Rightarrow> u8 \<Rightarrow> u32 \<Rightarrow> u8 list option \<Rightarrow> u32 \<Rightarrow> 'n \<times> mib_comm \<Rightarrow> (u8 \<times> u8 list option \<times> 'n \<times> mib_comm) option" where
  "ConfigRequestFieldInfo env base uchIndex ulMIB pData ulSize s = do {
     (ExchangeResult, pData, s) \<leftarrow> ConfigExchange env CONF_REQUEST_FIELD_INFO uchIndex ulMIB pData 0 ulSize s;
     (if ExchangeResult \<noteq> CONF_RESULT_OK then Some (ExchangeResult, pData, s)
      else do {
        p \<leftarrow> pData;
        ulFieldType \<leftarrow> bytes_u32 p;
        p \<leftarrow> (if ulFieldType = CONF_FIELD_ENUM then do {
               ulCount \<leftarrow> bytes_u32 (drop 8 p);
               relocate base 0 (unat ulCount) p }
             else Some p);
        Some (CONF_RESULT_OK, Some p, s) }) }"

subsection \<open>Buffers\<close>

lemma load_bytes_append: "length a = i \<Longrightarrow> length b = n \<Longrightarrow> load_bytes (a @ b @ r) i n = Some b"
  by (simp add: load_bytes_def)

lemma put_hdr_eq:
  "9 \<le> length buf \<Longrightarrow> put_hdr buf mib ln index request result = Some (u32_bytes mib @ u16_bytes ln @ [index, request, result] @ drop 9 buf)"
  by (simp add: put_hdr_def store_bytes_eq)

lemma hdr_fields:
  "hdr_mib (u32_bytes mib @ u16_bytes ln @ index # request # result # r) = Some mib"
  "hdr_len (u32_bytes mib @ u16_bytes ln @ index # request # result # r) = Some ln"
  "hdr_index (u32_bytes mib @ u16_bytes ln @ index # request # result # r) = Some index"
  "hdr_request (u32_bytes mib @ u16_bytes ln @ index # request # result # r) = Some request"
  "hdr_result (u32_bytes mib @ u16_bytes ln @ index # request # result # r) = Some result"
proof -
  have d: "drop 4 (u32_bytes mib @ u16_bytes ln @ index # request # result # r) = u16_bytes ln @ index # request # result # r" by simp
  show "hdr_mib (u32_bytes mib @ u16_bytes ln @ index # request # result # r) = Some mib" by (simp add: hdr_mib_def bytes_of_u32)
  show "hdr_len (u32_bytes mib @ u16_bytes ln @ index # request # result # r) = Some ln" by (simp add: hdr_len_def bytes_of_u16)
  show "hdr_index (u32_bytes mib @ u16_bytes ln @ index # request # result # r) = Some index"
    "hdr_request (u32_bytes mib @ u16_bytes ln @ index # request # result # r) = Some request"
    "hdr_result (u32_bytes mib @ u16_bytes ln @ index # request # result # r) = Some result"
    by (simp_all add: hdr_index_def hdr_request_def hdr_result_def nth_append)
qed

text \<open>A datagram with its header.\<close>

definition packet :: "u32 \<Rightarrow> u16 \<Rightarrow> u8 \<Rightarrow> u8 \<Rightarrow> u8 \<Rightarrow> u8 list \<Rightarrow> u8 list \<Rightarrow> u8 list" where
  "packet mib ln index request result reserved data = u32_bytes mib @ u16_bytes ln @ index # request # result # reserved @ data"

lemma packet_fields [simp]:
  "hdr_mib (packet mib ln index request result rs d) = Some mib" "hdr_len (packet mib ln index request result rs d) = Some ln"
  "hdr_index (packet mib ln index request result rs d) = Some index" "hdr_request (packet mib ln index request result rs d) = Some request"
  "hdr_result (packet mib ln index request result rs d) = Some result"
  "length (packet mib ln index request result rs d) = 9 + length rs + length d"
  "packet mib ln index request result rs d @ r = packet mib ln index request result rs (d @ r)"
  by (simp_all add: packet_def hdr_fields)

lemma put_hdr_packet:
  assumes "12 \<le> length buf"
  shows "put_hdr buf mib ln index request result = Some (packet mib ln index request result (take 3 (drop 9 buf)) (drop 12 buf))"
proof -
  have "drop 9 buf = take 3 (drop 9 buf) @ drop 12 buf" by (metis append_take_drop_id drop_drop numeral_plus_numeral add_num_simps)
  then show ?thesis using put_hdr_eq [of buf mib ln index request result] assms by (simp add: packet_def)
qed

lemma store_packet:
  assumes "length rs = 3" "length d \<le> length d0"
  shows "store_bytes (packet mib ln index request result rs d0) 12 d = Some (packet mib ln index request result rs (d @ drop (length d) d0))"
  using assms by (subst store_bytes_eq) (simp_all add: packet_def numeral_eq_Suc)

lemma load_packet:
  assumes "length rs = 3" "n \<le> length d"
  shows "load_bytes (packet mib ln index request result rs d) 12 n = Some (take n d)"
    "load_bytes (packet mib ln index request result rs d) 0 (n + 12) = Some (packet mib ln index request result rs (take n d))"
  using assms by (simp_all add: load_bytes_def packet_def numeral_eq_Suc)

lemma set_result_packet:
  "store_bytes (packet mib ln index request result rs d) 8 [r'] = Some (packet mib ln index request r' rs d)"
  by (subst store_bytes_eq) (simp_all add: packet_def)

lemma set_len_packet:
  "store_bytes (packet mib ln index request result rs d) 4 (u16_bytes ln') = Some (packet mib ln' index request result rs d)"
  by (subst store_bytes_eq) (simp_all add: packet_def)

lemma recv_packet:
  assumes "length rs = 3" "12 + length d \<le> length buf"
  shows "recv_into buf (Some (packet mib ln index request result rs d)) =
    Some (int (12 + length d), packet mib ln index request result rs (d @ drop (12 + length d) buf))"
  using assms by (simp add: recv_into_def store_bytes_eq)

subsection \<open>One exchange\<close>

definition comm_ok :: "mib_comm \<Rightarrow> bool" where
  "comm_ok c \<longleftrightarrow> length (s_Request c) = MAX_EXCHANGE_SIZE \<and> length (s_Response c) = MAX_EXCHANGE_SIZE"

text \<open>The network between a client and one server process.\<close>

definition server_net :: "'w server_hook \<Rightarrow> 'w \<times> mib_comm \<Rightarrow> u8 list \<Rightarrow> (u8 list option \<times> 'w \<times> mib_comm) option" where
  "server_net hook s d = do { (_, out, s) \<leftarrow> ECosMibCommServerExchange (Some hook) (Some d) s; Some (out, s) }"

text \<open>The hook answers a request with a result and data, whatever else is in the buffers.\<close>

definition answers :: "'w server_hook \<Rightarrow> 'w \<Rightarrow> u32 \<Rightarrow> u8 \<Rightarrow> u8 \<Rightarrow> u8 list \<Rightarrow> u8 \<Rightarrow> u8 list \<Rightarrow> 'w \<Rightarrow> bool" where
  "answers hook w mib index request d result out w' \<longleftrightarrow>
     (\<forall>res rs tl rs' d'. length rs = 3 \<longrightarrow> length rs' = 3 \<longrightarrow> length (d @ tl) = MAX_EXCHANGE_SIZE - 12 \<longrightarrow> length d' = MAX_EXCHANGE_SIZE - 12 \<longrightarrow>
        (\<exists>req' d''. hook w (packet mib (of_nat (length d)) index request res rs (d @ tl)) (packet mib 0 index request CONF_RESULT_IPC_ERROR rs' d') =
           Some (int (length out), w', req', packet mib (of_nat (length out)) index request result rs' (out @ d'')) \<and>
           length req' = MAX_EXCHANGE_SIZE \<and> length (out @ d'') = MAX_EXCHANGE_SIZE - 12))"

lemma max_size: "MAX_EXCHANGE_SIZE = 102400"
  by (simp add: MAX_EXCHANGE_SIZE_def)

lemma u16_length: "n < 65536 \<Longrightarrow> unat (of_nat n :: u16) = n"
  by (simp add: unsigned_of_nat take_bit_nat_eq_self)

lemma u32_length: "n < 65536 \<Longrightarrow> unat (of_nat n :: u32) = n"
  by (simp add: unsigned_of_nat take_bit_nat_eq_self)

lemma server_exchange:
  assumes c: "comm_ok c" and a: "answers hook w mib index request d result out w'" and d: "length d < 65536" and rs: "length rs = 3"
  shows "\<exists>c' rs'. length rs' = 3 \<and> comm_ok c' \<and> server_net hook (w, c) (packet mib (of_nat (length d)) index request res rs d) =
    Some (Some (packet mib (of_nat (length out)) index request result rs' out), w', c')"
proof -
  define tl where "tl = drop (12 + length d) (s_Request c)"
  define rs' where "rs' = take 3 (drop 9 (s_Response c))"
  define d' where "d' = drop 12 (s_Response c)"
  have len: "length (s_Request c) = 102400" "length (s_Response c) = 102400" using c by (simp_all add: comm_ok_def max_size)
  have r: "recv_into (s_Request c) (Some (packet mib (of_nat (length d)) index request res rs d)) =
      Some (int (12 + length d), packet mib (of_nat (length d)) index request res rs (d @ tl))"
    using recv_packet [OF rs, of d "s_Request c"] d len by (simp add: tl_def)
  have h: "put_hdr (s_Response c) mib 0 index request CONF_RESULT_IPC_ERROR = Some (packet mib 0 index request CONF_RESULT_IPC_ERROR rs' d')"
    using put_hdr_packet [of "s_Response c"] len by (simp add: rs'_def d'_def)
  have lens: "length rs' = 3" "length (d @ tl) = MAX_EXCHANGE_SIZE - 12" "length d' = MAX_EXCHANGE_SIZE - 12"
    using len d by (simp_all add: rs'_def d'_def tl_def max_size)
  obtain req' d'' where k: "hook w (packet mib (of_nat (length d)) index request res rs (d @ tl)) (packet mib 0 index request CONF_RESULT_IPC_ERROR rs' d') =
        Some (int (length out), w', req', packet mib (of_nat (length out)) index request result rs' (out @ d''))"
      "length req' = MAX_EXCHANGE_SIZE" "length (out @ d'') = MAX_EXCHANGE_SIZE - 12"
    using a rs lens unfolding answers_def by blast
  have "uint (of_nat (length d) :: u16) = int (length d)" using u16_length [OF d] by (metis uint_nat)
  moreover have "load_bytes (packet mib (of_nat (length out)) index request result rs' (out @ d'')) 0 (length out + 12) =
      Some (packet mib (of_nat (length out)) index request result rs' out)"
    using load_packet(2) [OF lens(1), of "length out" "out @ d''"] by simp
  ultimately show ?thesis using r h k lens(1)
    by (intro exI [of _ "c\<lparr>s_Request := req', s_Response := packet mib (of_nat (length out)) index request result rs' (out @ d'')\<rparr>"] exI [of _ rs'])
      (simp add: server_net_def ECosMibCommServerExchange_def EXCHANGE_HDR_LEN_def comm_ok_def max_size)
qed

text \<open>What the client's buffer holds after an answer.\<close>

definition received_data :: "u8 list \<Rightarrow> u8 \<Rightarrow> nat \<Rightarrow> u8 list \<Rightarrow> u8 list" where
  "received_data p result rcv out =
     (if result \<noteq> CONF_RESULT_OK \<or> out = [] then p else (let t = (if rcv > length out then out @ [0] else out) in t @ drop (length t) p))"

lemma decode_packet:
  assumes "length rs = 3" "length out < 65536" "length out \<le> rcv" "rcv \<le> length p"
  shows "decode_response (packet mib (of_nat (length out)) index request result rs (out @ r)) (Some p) rcv result =
    Some (result, Some (received_data p result rcv out))"
proof -
  have "(of_nat (length out) :: u16) > 0 \<longleftrightarrow> out \<noteq> []" using u16_length [OF assms(2)] by (simp add: word_less_nat_alt)
  moreover have "store_bytes (out @ drop (length out) p) (length out) [0] = Some ((out @ [0]) @ drop (length out + 1) p)" if "length out < rcv"
    using that assms(4) by (subst store_bytes_eq) simp_all
  ultimately show ?thesis using assms u16_length [OF assms(2)]
    by (auto simp: decode_response_def EXCHANGE_HDR_LEN_def load_packet(1) store_bytes_eq received_data_def Let_def)
qed

lemma config_exchange:
  assumes c: "comm_ok c" "comm_ok cl" and a: "answers hook w mib index request d result out w'"
    and d: "length d < 65536" "length d \<le> length p" "d = take (length d) p" and out: "length out < 65536" "length out \<le> rcv" "rcv \<le> length p" "rcv < 65536"
    and sock: "0 \<le> ce_sock env" "ce_net env = server_net hook"
  shows "\<exists>c' cl'. ConfigExchange env request index mib (Some p) (of_nat (length d)) (of_nat rcv) ((w, c), cl) =
    Some (result, Some (received_data p result rcv out), (w', c'), cl') \<and> comm_ok c' \<and> comm_ok cl'"
proof -
  obtain cl0 where cl0: "(if s_iSockClient cl = INVALID_SOCKET then map_option snd (ECosMibCommClientRegister (ce_sock env) cl) else Some cl) = Some cl0" "comm_ok cl0"
  proof (cases "s_iSockClient cl = INVALID_SOCKET")
    case True
    then show ?thesis using sock(1) c(2) by (intro that [of "cl\<lparr>s_iSockClient := ce_sock env\<rparr>"]) (simp_all add: ECosMibCommClientRegister_def comm_ok_def)
  next
    case False
    then show ?thesis using c(2) by (intro that [of cl]) simp_all
  qed
  define rs where "rs = take 3 (drop 9 (s_Request cl0))"
  define d0 where "d0 = drop 12 (s_Request cl0)"
  have len: "length (s_Request cl0) = 102400" "length (s_Response cl0) = 102400" using cl0(2) by (simp_all add: comm_ok_def max_size)
  have rs: "length rs = 3" and d0: "length d0 = 102388" using len by (simp_all add: rs_def d0_def)
  let ?req0 = "packet mib (of_nat (length d)) index request CONF_RESULT_IPC_ERROR rs"
  define snd where "snd = (of_nat (length d) :: u32)"
  define rc where "rc = (of_nat rcv :: u32)"
  have u: "unat snd = length d" "unat rc = rcv" using u32_length d(1) out(4) by (simp_all add: snd_def rc_def)
  have 1: "build_request (s_Request cl0) request index mib (Some p) snd = Some (?req0 (d @ drop (length d) d0))"
  proof -
    have "(ucast snd :: u16) = of_nat (length d)" using d(1)
      by (simp add: snd_def unsigned_of_nat take_bit_nat_eq_self)
    then have h: "put_hdr (s_Request cl0) mib (ucast snd) index request CONF_RESULT_IPC_ERROR = Some (?req0 d0)"
      using put_hdr_packet [of "s_Request cl0"] len by (simp add: rs_def d0_def)
    have z: "snd > 0 \<longleftrightarrow> d \<noteq> []" using u(1) by (simp add: word_less_nat_alt)
    have "load_bytes p 0 (length d) = Some d" using d(2,3) by (simp add: load_bytes_def)
    then show ?thesis using h z u(1) store_packet [OF rs, of d d0] d(1) d0
      by (cases "d = []") (simp_all add: build_request_def EXCHANGE_HDR_LEN_def)
  qed
  obtain c' rs' where s: "length rs' = 3" "comm_ok c'" "server_net hook (w, c) (?req0 d) = Some (Some (packet mib (of_nat (length out)) index request result rs' out), w', c')"
    using server_exchange [OF c(1) a d(1) rs] by blast
  have 3: "load_bytes (?req0 (d @ drop (length d) d0)) 0 (length d + EXCHANGE_HDR_LEN) = Some (?req0 d)"
    using load_packet(2) [OF rs, of "length d" "d @ drop (length d) d0"] by (simp add: EXCHANGE_HDR_LEN_def)
  have 4: "recv_into (s_Response cl0) (Some (packet mib (of_nat (length out)) index request result rs' out)) =
      Some (int (12 + length out), packet mib (of_nat (length out)) index request result rs' (out @ drop (12 + length out) (s_Response cl0)))"
    using recv_packet [OF s(1), of out "s_Response cl0"] out(1) len by simp
  show ?thesis
    unfolding ConfigExchange_def Let_def split_conv cl0(1) snd_def [symmetric] rc_def [symmetric]
    using 1 3 4 s decode_packet [OF s(1) out(1-3)] u sock(2) d(1) out(1,4) cl0(2) rs d0 len
    by (simp add: max_size comm_ok_def)
qed

subsection \<open>Properties\<close>

lemma small_sint: "unat (x :: u32) < 65536 \<Longrightarrow> sint x = int (unat x)"
proof -
  assume a: "unat x < 65536"
  have "int (unat x) < 65536" using a by linarith
  then have "uint x < 65536" by simp
  moreover have "- (2 ^ 31) \<le> uint x" by (rule order_trans [of _ 0]) simp_all
  ultimately have "signed_take_bit 31 (uint x) = uint x" by (intro signed_take_bit_int_eq_self) simp_all
  then show ?thesis by (simp add: sint_uint)
qed

lemma store_bytes_too_long: "length buf < i + length bs \<Longrightarrow> bs \<noteq> [] \<Longrightarrow> store_bytes buf i bs = None"
proof (induction bs arbitrary: buf i)
  case (Cons b bs)
  show ?case
  proof (cases "i < length buf")
    case True
    then have "array_set buf i b = Some (buf[i := b])" by simp
    moreover have "bs \<noteq> []" using True Cons.prems by auto
    ultimately show ?thesis using Cons.IH [of "buf[i := b]" "i + 1"] Cons.prems by simp
  qed simp
qed simp

lemma remainder_word:
  assumes "unat off < unat ln"
  shows "sint (ucast (ln :: u16) - off :: u32) = int (unat ln - unat off)"
proof -
  have l: "unat ln < 65536" using order_less_le_trans [OF unsigned_less [of ln], of 65536] by simp
  have "(ucast ln - off :: u32) = of_nat (unat ln - unat off)"
    using assms by (simp add: of_nat_diff)
  then have "unat (ucast ln - off :: u32) = unat ln - unat off" using l by (simp add: unsigned_of_nat take_bit_nat_eq_self)
  then show ?thesis using l small_sint [of "ucast ln - off"] by simp
qed

text \<open>C38: after a successful exchange, reading the rest of the response behind an offset into a buffer of the given
  size copies the smaller of size and rest only when the rest is not longer than the size or has a binary digit in
  common with it; otherwise the whole rest is copied, behind the end of the buffer.\<close>

theorem get_last_response_copy:
  assumes "s_Response c = packet mib ln index request CONF_RESULT_OK rs d" and "length rs = 3" and "unat ln \<le> length d"
    and "unat off < unat ln" and "length p = unat sz"
  shows "GetLastExchangeResponse c mib (Some p) off sz =
    (let rest = unat ln - unat off; n = min (unat sz) rest in
     if rest \<le> unat sz \<or> (sz AND of_nat rest) \<noteq> 0
     then Some (int n, Some (take n (drop (unat off) d) @ drop n p)) else None)"
proof -
  define rest where "rest = unat ln - unat off"
  have r: "sint (ucast ln - off :: u32) = int rest" using remainder_word [OF assms(4)] by (simp add: rest_def)
  have "unat ln < 65536" using order_less_le_trans [OF unsigned_less [of ln], of 65536] by simp
  then have rb: "0 < rest" "rest < 65536" "unat off + rest \<le> length d" using assms(3,4) by (simp_all add: rest_def)
  have ru: "unat (of_nat rest :: u32) = rest" using u32_length rb by simp
  have ln0: "ln \<noteq> 0" using assms(4) by auto
  have ld: "load_bytes (packet mib ln index request CONF_RESULT_OK rs d) (12 + unat off) k = Some (take k (drop (unat off) d))" if "k \<le> rest" for k
    using that assms(2) rb(3) by (simp add: load_bytes_def packet_def numeral_eq_Suc)
  have sto: "store_bytes p 0 (take k (drop (unat off) d)) = Some (take k (drop (unat off) d) @ drop k p)" if "k \<le> rest" "k \<le> unat sz" for k
  proof -
    have "length (take k (drop (unat off) d)) = k" using that rb(3) by simp
    then show ?thesis using that assms(5) by (subst store_bytes_eq) simp_all
  qed
  have no: "store_bytes p 0 (take rest (drop (unat off) d)) = None" if "unat sz < rest"
    using that rb(3) assms(5) by (subst store_bytes_too_long) simp_all
  have gt: "(of_nat rest > sz) = (rest > unat sz)" using ru by (simp add: word_less_nat_alt)
  have szi: "sint sz = int (unat sz)" if "unat sz < rest" using that rb small_sint [of sz] by simp
  note defs = GetLastExchangeResponse_def assms(1) ln0 r EXCHANGE_HDR_LEN_def CONF_RESULT_OK_def rest_def [symmetric]
  consider "rest \<le> unat sz" | "unat sz < rest" "(sz AND of_nat rest) \<noteq> 0" | "unat sz < rest" "(sz AND of_nat rest) = 0" by linarith
  then show ?thesis
  proof cases
    case 1
    then show ?thesis using rb gt ld [of rest] sto [of rest] by (simp add: defs Let_def min_absorb2)
  next
    case 2
    then have "sz \<noteq> 0" by auto
    then have "unat sz \<noteq> 0" "uint sz \<noteq> 0" by (simp_all add: unat_eq_0 uint_0_iff)
    with 2 show ?thesis using rb gt ld [of "unat sz"] sto [of "unat sz"] szi by (simp add: defs Let_def min_absorb1)
  next
    case 3
    then show ?thesis using rb gt ld [of rest] no by (simp add: defs Let_def)
  qed
qed

definition sample_comm :: mib_comm where
  "sample_comm = \<lparr>s_iSockServer = -1, s_iSockClient = 3, s_Request = [],
     s_Response = packet 1 8 0 CONF_REQUEST_READ CONF_RESULT_OK [0, 0, 0] [1, 2, 3, 4, 5, 6, 7, 8]\<rparr>"

theorem get_last_response_copy_witness:
  "GetLastExchangeResponse sample_comm 1 (Some [0, 0, 0, 0]) 0 4 = None \<and>
   GetLastExchangeResponse sample_comm 1 (Some [0, 0, 0, 0]) 4 4 = Some (4, Some [5, 6, 7, 8])"
proof -
  have r: "s_Response sample_comm = packet 1 8 0 CONF_REQUEST_READ CONF_RESULT_OK [0, 0, 0] [1, 2, 3, 4, 5, 6, 7, 8]" by (simp add: sample_comm_def)
  show ?thesis
    using get_last_response_copy [OF r, of 0 "[0, 0, 0, 0]" 4] get_last_response_copy [OF r, of 4 "[0, 0, 0, 0]" 4]
    by (simp add: Let_def)
qed

end
