(* ===== verification/Ecos_Shash32.thy ===== *)
theory Ecos_Shash32
  imports Unique_Map
begin

text \<open>
  The hash table of \<^verbatim>\<open>041_ecos_mib/apps/ecos/ecos_shash32.c\<close>: an array of row heads, each the start of a singly
  linked list of nodes from \<open>malloc\<close>.  \<open>sh_mem\<close> holds the allocated nodes and \<open>sh_brk\<close> the next address of an
  allocator that never fails (the code does not check for \<open>NULL\<close>).  A \<open>node*\<close> that may point to a row head or to a
  node is a \<open>nref\<close>.  \<open>None\<close> is an access to memory that is not allocated, or a loop that does not end.
\<close>

subsection \<open>Data and operations\<close>

record shash32_node =
  key32 :: u32
  nd_next :: ptr
  nd_arg :: ptr

record shash32 =
  row_count :: u32
  sh_node :: "shash32_node list"
  sh_mem :: "addr \<rightharpoonup> shash32_node"
  sh_brk :: addr

datatype nref = Row nat | Node addr

fun node_at :: "shash32 \<Rightarrow> nref \<Rightarrow> shash32_node option" where
  "node_at sh (Row i) = array_get (sh_node sh) i"
| "node_at sh (Node a) = sh_mem sh a"

fun set_next :: "shash32 \<Rightarrow> nref \<Rightarrow> ptr \<Rightarrow> shash32 option" where
  "set_next sh (Row i) p = do {
     n \<leftarrow> array_get (sh_node sh) i;
     Some (sh\<lparr>sh_node := (sh_node sh)[i := n\<lparr>nd_next := p\<rparr>]\<rparr>) }"
| "set_next sh (Node a) p = do {
     n \<leftarrow> sh_mem sh a;
     Some (sh\<lparr>sh_mem := (sh_mem sh)(a \<mapsto> n\<lparr>nd_next := p\<rparr>)\<rparr>) }"

definition row_index :: "shash32 \<Rightarrow> u32 \<Rightarrow> nat" where
  "row_index sh key = unat (key mod row_count sh)"

partial_function (option) search_loop :: "shash32 \<Rightarrow> u32 \<Rightarrow> ptr \<Rightarrow> ptr option" where
  "search_loop sh search node =
     (case node of
        None \<Rightarrow> Some None
      | Some a \<Rightarrow> do {
          n \<leftarrow> sh_mem sh a;
          (if key32 n = search then Some (Some a) else search_loop sh search (nd_next n)) })"

definition ecos_shash32_node_search :: "shash32 \<Rightarrow> u32 \<Rightarrow> ptr option" where
  "ecos_shash32_node_search sh search = do {
     n \<leftarrow> array_get (sh_node sh) (row_index sh search);
     search_loop sh search (nd_next n) }"

text \<open>\<open>while (node_end->next) node_end = node_end->next;\<close>\<close>

partial_function (option) end_loop :: "shash32 \<Rightarrow> nref \<Rightarrow> nref option" where
  "end_loop sh node_end = do {
     n \<leftarrow> node_at sh node_end;
     (case nd_next n of None \<Rightarrow> Some node_end | Some a \<Rightarrow> end_loop sh (Node a)) }"

definition ecos_shash32_node_insert :: "shash32 \<Rightarrow> u32 \<Rightarrow> ptr \<Rightarrow> (ptr \<times> shash32) option" where
  "ecos_shash32_node_insert sh ins arg = do {
     r \<leftarrow> ecos_shash32_node_search sh ins;
     (if r \<noteq> None then Some (None, sh)
      else do {
        node_end \<leftarrow> end_loop sh (Row (row_index sh ins));
        let node_new = sh_brk sh;
        let sh = sh\<lparr>sh_mem := (sh_mem sh)(node_new \<mapsto> \<lparr>key32 = ins, nd_next = None, nd_arg = arg\<rparr>), sh_brk := node_new + 1\<rparr>;
        sh \<leftarrow> set_next sh node_end (Some node_new);
        Some (Some node_new, sh) }) }"

definition free_node :: "shash32 \<Rightarrow> addr \<Rightarrow> shash32" where
  "free_node sh a = sh\<lparr>sh_mem := (sh_mem sh)(a := None)\<rparr>"

text \<open>\<open>node->next = node_next->next; free(node_next);\<close>\<close>

definition unlink_node :: "shash32 \<Rightarrow> nref \<Rightarrow> addr \<Rightarrow> ptr \<Rightarrow> shash32 option" where
  "unlink_node sh node a nxt = do { sh \<leftarrow> set_next sh node nxt; Some (free_node sh a) }"

text \<open>At the head of the loop \<open>node_next\<close> is \<open>node->next\<close>.\<close>

partial_function (option) remove_loop :: "shash32 \<Rightarrow> u32 \<Rightarrow> nref \<Rightarrow> shash32 option" where
  "remove_loop sh remove node = do {
     m \<leftarrow> node_at sh node;
     (case nd_next m of
        None \<Rightarrow> Some sh
      | Some a \<Rightarrow> do {
          n \<leftarrow> sh_mem sh a;
          (if key32 n = remove then unlink_node sh node a (nd_next n) else remove_loop sh remove (Node a)) }) }"

definition ecos_shash32_node_remove :: "shash32 \<Rightarrow> u32 \<Rightarrow> shash32 option" where
  "ecos_shash32_node_remove sh remove = remove_loop sh remove (Row (row_index sh remove))"

definition SHASH_ROW_COUNT_MIN :: u32 where "SHASH_ROW_COUNT_MIN = push_bit 4 1"
definition SHASH_ROW_COUNT_MAX :: u32 where "SHASH_ROW_COUNT_MAX = push_bit 16 1"

definition ecos_shash32_create :: "addr \<Rightarrow> u32 \<Rightarrow> shash32 option" where
  "ecos_shash32_create brk n =
     (if n < SHASH_ROW_COUNT_MIN \<or> n > SHASH_ROW_COUNT_MAX then None
      else Some \<lparr>row_count = n, sh_node = replicate (unat n) \<lparr>key32 = 0, nd_next = None, nd_arg = None\<rparr>,
        sh_mem = Map.empty, sh_brk = brk\<rparr>)"

text \<open>\<open>while (node->next) ecos_shash32_node_remove(shash, node->next->key32);\<close> for row \<open>i\<close>.\<close>

partial_function (option) destory_row :: "nat \<Rightarrow> shash32 \<Rightarrow> shash32 option" where
  "destory_row i sh = do {
     n \<leftarrow> array_get (sh_node sh) i;
     (case nd_next n of
        None \<Rightarrow> Some sh
      | Some a \<Rightarrow> do {
          m \<leftarrow> sh_mem sh a;
          sh \<leftarrow> ecos_shash32_node_remove sh (key32 m);
          destory_row i sh }) }"

fun destory_rows :: "nat list \<Rightarrow> shash32 \<Rightarrow> shash32 option" where
  "destory_rows [] sh = Some sh"
| "destory_rows (i # is) sh = do { sh \<leftarrow> destory_row i sh; destory_rows is sh }"

text \<open>The nodes that are still allocated when the table itself is freed.\<close>

definition ecos_shash_destory :: "shash32 \<Rightarrow> (addr \<rightharpoonup> shash32_node) option" where
  "ecos_shash_destory sh = do {
     sh \<leftarrow> destory_rows [0..<unat (row_count sh)] sh;
     Some (sh_mem sh) }"

declare search_loop.simps [code] end_loop.simps [code] remove_loop.simps [code] destory_row.simps [code]

subsection \<open>Representation\<close>

definition sh_nx :: "shash32 \<Rightarrow> addr \<Rightarrow> ptr option" where
  "sh_nx sh a = map_option nd_next (sh_mem sh a)"

abbreviation sh_key :: "shash32 \<Rightarrow> addr \<Rightarrow> u32" where "sh_key sh a \<equiv> key32 (the (sh_mem sh a))"

definition sh_rep :: "shash32 \<Rightarrow> (nat \<Rightarrow> addr list) \<Rightarrow> bool" where
  "sh_rep sh chn \<longleftrightarrow>
     0 < unat (row_count sh) \<and> length (sh_node sh) = unat (row_count sh) \<and>
     (\<forall>i < length (sh_node sh). path (sh_nx sh) (nd_next (sh_node sh ! i)) (chn i) None \<and>
        set (chn i) = {a \<in> dom (sh_mem sh). row_index sh (sh_key sh a) = i}) \<and>
     inj_on (sh_key sh) (dom (sh_mem sh)) \<and> (\<forall>a \<in> dom (sh_mem sh). a < sh_brk sh)"

definition sh_wf :: "shash32 \<Rightarrow> bool" where "sh_wf sh \<longleftrightarrow> (\<exists>chn. sh_rep sh chn)"

text \<open>The map the table stands for, read through the code's own search.\<close>

definition sh_lookup :: "shash32 \<Rightarrow> u32 \<Rightarrow> ptr option" where
  "sh_lookup sh k = do {
     r \<leftarrow> ecos_shash32_node_search sh k;
     a \<leftarrow> r;
     n \<leftarrow> sh_mem sh a;
     Some (nd_arg n) }"

lemma sh_nx_Some [simp]: "sh_nx sh a = Some r \<longleftrightarrow> (\<exists>n. sh_mem sh a = Some n \<and> nd_next n = r)"
  by (auto simp: sh_nx_def)

lemma row_index_less: "sh_rep sh chn \<Longrightarrow> row_index sh k < length (sh_node sh)"
proof -
  assume r: "sh_rep sh chn"
  then have "unat k mod unat (row_count sh) < unat (row_count sh)" by (simp add: sh_rep_def)
  then show ?thesis using r by (simp add: sh_rep_def row_index_def unat_mod)
qed

lemma sh_row:
  fixes k :: u32
  assumes "sh_rep sh chn"
  defines "i \<equiv> row_index sh k"
  shows "array_get (sh_node sh) i = Some (sh_node sh ! i)" "path (sh_nx sh) (nd_next (sh_node sh ! i)) (chn i) None"
    "distinct (chn i)" "set (chn i) = {a \<in> dom (sh_mem sh). row_index sh (sh_key sh a) = i}"
proof -
  have i: "i < length (sh_node sh)" unfolding i_def by (rule row_index_less [OF assms(1)])
  then show "array_get (sh_node sh) i = Some (sh_node sh ! i)" by simp
  show "path (sh_nx sh) (nd_next (sh_node sh ! i)) (chn i) None"
    "set (chn i) = {a \<in> dom (sh_mem sh). row_index sh (sh_key sh a) = i}"
    using assms(1) i by (auto simp: sh_rep_def)
  then show "distinct (chn i)" using path_distinct by blast
qed

lemma search_loop_path:
  "path (sh_nx sh) p xs None \<Longrightarrow> search_loop sh k p = Some (find (\<lambda>a. sh_key sh a = k) xs)"
proof (induction xs arbitrary: p)
  case Nil
  then show ?case by (simp add: search_loop.simps)
next
  case (Cons x xs)
  then obtain n where n: "p = Some x" "sh_mem sh x = Some n" "path (sh_nx sh) (nd_next n) xs None" by auto
  with Cons.IH [OF n(3)] show ?case by (subst search_loop.simps) simp
qed

lemma search_rep:
  assumes "sh_rep sh chn"
  shows "\<exists>r. ecos_shash32_node_search sh k = Some r \<and> (\<forall>a. r = Some a \<longleftrightarrow> a \<in> dom (sh_mem sh) \<and> sh_key sh a = k)"
proof -
  let ?i = "row_index sh k"
  have s: "ecos_shash32_node_search sh k = Some (find (\<lambda>a. sh_key sh a = k) (chn ?i))"
    using sh_row [OF assms, of k] search_loop_path by (simp add: ecos_shash32_node_search_def)
  have inj: "inj_on (sh_key sh) (dom (sh_mem sh))" using assms by (simp add: sh_rep_def)
  have "find (\<lambda>a. sh_key sh a = k) (chn ?i) = Some a \<longleftrightarrow> a \<in> dom (sh_mem sh) \<and> sh_key sh a = k" for a
  proof
    assume "find (\<lambda>a. sh_key sh a = k) (chn ?i) = Some a"
    then show "a \<in> dom (sh_mem sh) \<and> sh_key sh a = k"
      using sh_row(4) [OF assms, of k] by (auto simp: find_Some_iff dest: nth_mem)
  next
    assume a: "a \<in> dom (sh_mem sh) \<and> sh_key sh a = k"
    then have "a \<in> set (chn ?i)" using sh_row(4) [OF assms, of k] by auto
    then have "find (\<lambda>a. sh_key sh a = k) (chn ?i) \<noteq> None" using a by (auto simp: find_None_iff)
    then obtain b where b: "find (\<lambda>a. sh_key sh a = k) (chn ?i) = Some b" by blast
    then have "b \<in> dom (sh_mem sh)" "sh_key sh b = k"
      using sh_row(4) [OF assms, of k] by (auto simp: find_Some_iff dest: nth_mem)
    then have "b = a" using inj a by (auto simp: inj_on_def)
    with b show "find (\<lambda>a. sh_key sh a = k) (chn ?i) = Some a" by simp
  qed
  then show ?thesis using s by blast
qed

lemma sh_lookup_Some:
  assumes "sh_rep sh chn"
  shows "sh_lookup sh k = Some v \<longleftrightarrow> (\<exists>a n. sh_mem sh a = Some n \<and> key32 n = k \<and> nd_arg n = v)"
proof -
  obtain r where r: "ecos_shash32_node_search sh k = Some r" "\<And>a. r = Some a \<longleftrightarrow> a \<in> dom (sh_mem sh) \<and> sh_key sh a = k"
    using search_rep [OF assms] by blast
  show ?thesis
  proof (cases r)
    case None
    then show ?thesis using r by (force simp: sh_lookup_def)
  next
    case (Some a)
    then have a: "a \<in> dom (sh_mem sh)" "sh_key sh a = k" using r(2) by auto
    have "b = a" if "b \<in> dom (sh_mem sh)" "sh_key sh b = k" for b using r(2) [of b] that Some by simp
    then show ?thesis using Some a r(1) by (fastforce simp: sh_lookup_def)
  qed
qed

abbreviation sh_arg :: "shash32 \<Rightarrow> addr \<Rightarrow> ptr" where "sh_arg sh a \<equiv> nd_arg (the (sh_mem sh a))"

lemma sh_lookup_dom:
  "sh_rep sh chn \<Longrightarrow> sh_lookup sh k = Some v \<longleftrightarrow> (\<exists>a \<in> dom (sh_mem sh). sh_key sh a = k \<and> sh_arg sh a = v)"
  by (simp add: sh_lookup_Some) force

lemma map_eqI: "(\<And>k v. m k = Some v \<longleftrightarrow> m' k = Some v) \<Longrightarrow> m = m'" for m m' :: "'k \<rightharpoonup> 'v"
  by (metis ext option.exhaust)

subsection \<open>Insertion\<close>

lemma end_loop_path:
  "node_at sh ref = Some n \<Longrightarrow> path (sh_nx sh) (nd_next n) xs None \<Longrightarrow>
   end_loop sh ref = Some (if xs = [] then ref else Node (last xs))"
proof (induction xs arbitrary: ref n)
  case Nil
  then show ?case by (subst end_loop.simps) simp
next
  case (Cons x xs)
  then obtain m where m: "nd_next n = Some x" "sh_mem sh x = Some m" "path (sh_nx sh) (nd_next m) xs None" by auto
  with Cons.IH [of "Node x" m] Cons.prems(1) show ?case by (subst end_loop.simps) simp
qed

lemma sh_nx_upd: "sh_mem sh' = (sh_mem sh)(a \<mapsto> n) \<Longrightarrow> sh_nx sh' = (sh_nx sh)(a := Some (nd_next n))"
  by (auto simp: sh_nx_def fun_eq_iff)

lemma sh_nx_cong: "sh_mem sh' = sh_mem sh \<Longrightarrow> sh_nx sh' = sh_nx sh"
  by (simp add: sh_nx_def fun_eq_iff)

text \<open>The nodes of a row do not occur in another one.\<close>

lemma sh_rep_disjoint:
  "sh_rep sh chn \<Longrightarrow> i < length (sh_node sh) \<Longrightarrow> j < length (sh_node sh) \<Longrightarrow> i \<noteq> j \<Longrightarrow> a \<in> set (chn i) \<Longrightarrow> a \<notin> set (chn j)"
  by (auto simp: sh_rep_def)

text \<open>One new row chain together with the nodes' keys gives the representation of a changed table.\<close>

lemma sh_repI:
  assumes "sh_rep sh chn" "i < length (sh_node sh)" "row_count sh' = row_count sh" "length (sh_node sh') = length (sh_node sh)"
    and "path (sh_nx sh') (nd_next (sh_node sh' ! i)) xs None"
    and "\<And>j. j < length (sh_node sh) \<Longrightarrow> j \<noteq> i \<Longrightarrow> path (sh_nx sh') (nd_next (sh_node sh' ! j)) (chn j) None"
    and "set xs = {a \<in> dom (sh_mem sh'). row_index sh' (sh_key sh' a) = i}"
    and "\<And>a. row_index sh (sh_key sh a) \<noteq> i \<Longrightarrow> a \<in> dom (sh_mem sh) \<Longrightarrow> a \<in> dom (sh_mem sh') \<and> sh_key sh' a = sh_key sh a"
    and "\<And>a. row_index sh (sh_key sh' a) \<noteq> i \<Longrightarrow> a \<in> dom (sh_mem sh') \<Longrightarrow> a \<in> dom (sh_mem sh) \<and> sh_key sh' a = sh_key sh a"
    and "inj_on (sh_key sh') (dom (sh_mem sh'))" "\<forall>a \<in> dom (sh_mem sh'). a < sh_brk sh'"
  shows "sh_rep sh' (chn(i := xs))"
proof -
  have ri: "row_index sh' k = row_index sh k" for k by (simp add: row_index_def assms(3))
  have "set (chn j) = {a \<in> dom (sh_mem sh'). row_index sh' (sh_key sh' a) = j}" if j: "j < length (sh_node sh)" "j \<noteq> i" for j
  proof -
    have "set (chn j) = {a \<in> dom (sh_mem sh). row_index sh (sh_key sh a) = j}" using assms(1) j by (simp add: sh_rep_def)
    also have "\<dots> = {a \<in> dom (sh_mem sh'). row_index sh' (sh_key sh' a) = j}"
      using assms(8,9) j(2) unfolding ri by (intro Collect_cong) metis
    finally show ?thesis .
  qed
  then show ?thesis using assms unfolding sh_rep_def by (auto simp: fun_upd_def)
qed

lemma insert_rep:
  assumes r: "sh_rep sh chn" and none: "sh_lookup sh k = None"
  shows "\<exists>sh'. ecos_shash32_node_insert sh k arg = Some (Some (sh_brk sh), sh') \<and> sh_wf sh' \<and>
    sh_lookup sh' = (sh_lookup sh)(k \<mapsto> arg) \<and> row_count sh' = row_count sh"
proof -
  let ?i = "row_index sh k" and ?a = "sh_brk sh"
  let ?xs = "chn ?i" and ?new = "\<lparr>key32 = k, nd_next = None, nd_arg = arg\<rparr>"
  define sh1 where "sh1 = sh\<lparr>sh_mem := (sh_mem sh)(?a \<mapsto> ?new), sh_brk := ?a + 1\<rparr>"
  note row = sh_row [OF r, of k]
  have i: "?i < length (sh_node sh)" by (rule row_index_less [OF r])
  have fresh: "sh_mem sh ?a = None" using r by (auto simp: sh_rep_def)
  have nokey: "sh_key sh b \<noteq> k" if "b \<in> dom (sh_mem sh)" for b
    using none sh_lookup_dom [OF r, of k "nd_arg (the (sh_mem sh b))"] that by force
  then have search: "ecos_shash32_node_search sh k = Some None" using search_rep [OF r, of k] by (metis option.exhaust)
  have nx1: "sh_nx sh1 = (sh_nx sh)(?a := Some None)" using sh_nx_upd [of sh1 sh ?a ?new] by (simp add: sh1_def)
  have out: "?a \<notin> set (chn j)" if "j < length (sh_node sh)" for j using that r fresh by (auto simp: sh_rep_def)
  define ref where "ref = (if ?xs = [] then Row ?i else Node (last ?xs))"
  have end_ref: "end_loop sh (Row ?i) = Some ref"
    using end_loop_path [of sh "Row ?i"] row(1,2) by (simp add: ref_def)
  obtain sh' where sh': "set_next sh1 ref (Some ?a) = Some sh'" and eq: "row_count sh' = row_count sh"
      "length (sh_node sh') = length (sh_node sh)" "sh_brk sh' = ?a + 1" "dom (sh_mem sh') = insert ?a (dom (sh_mem sh))"
      "\<And>b. key32 (the (sh_mem sh' b)) = (if b = ?a then k else sh_key sh b)"
      "\<And>b. nd_arg (the (sh_mem sh' b)) = (if b = ?a then arg else nd_arg (the (sh_mem sh b)))"
      "path (sh_nx sh') (nd_next (sh_node sh' ! ?i)) (?xs @ [?a]) None"
      "\<And>j. j < length (sh_node sh) \<Longrightarrow> j \<noteq> ?i \<Longrightarrow> path (sh_nx sh') (nd_next (sh_node sh' ! j)) (chn j) None"
  proof (cases "?xs = []")
    case True
    define sh2 where "sh2 = sh1\<lparr>sh_node := (sh_node sh)[?i := (sh_node sh ! ?i)\<lparr>nd_next := Some ?a\<rparr>]\<rparr>"
    have "set_next sh1 ref (Some ?a) = Some sh2" using True i by (simp add: ref_def sh2_def sh1_def)
    moreover have "sh_nx sh2 = (sh_nx sh)(?a := Some None)" using nx1 sh_nx_cong [of sh2 sh1] by (simp add: sh2_def)
    moreover have "path (sh_nx sh) (nd_next (sh_node sh ! j)) (chn j) None" if "j < length (sh_node sh)" for j
      using that r by (simp add: sh_rep_def)
    ultimately show thesis using True i out
      by (intro that [of sh2]) (auto simp: sh2_def sh1_def)
  next
    case False
    let ?l = "last ?xs"
    have l: "?l \<in> set ?xs" using False by simp
    then obtain n where n: "sh_mem sh ?l = Some n" using row(4) by auto
    define sh2 where "sh2 = sh1\<lparr>sh_mem := (sh_mem sh1)(?l \<mapsto> n\<lparr>nd_next := Some ?a\<rparr>)\<rparr>"
    have la: "?l \<noteq> ?a" using l out [OF i] by auto
    then have "set_next sh1 ref (Some ?a) = Some sh2" using False n by (simp add: ref_def sh2_def sh1_def)
    moreover have nx2: "sh_nx sh2 = (sh_nx sh1)(?l := Some (Some ?a))" using sh_nx_upd [of sh2 sh1 ?l] by (simp add: sh2_def)
    moreover have "path (sh_nx sh1) (nd_next (sh_node sh ! ?i)) ?xs None" using row(2) out [OF i] by (simp add: nx1)
    then have "path (sh_nx sh2) (nd_next (sh_node sh ! ?i)) (?xs @ [?a]) None"
      unfolding nx2 using False out [OF i] row(3) by (intro path_snoc) (auto simp: nx1)
    moreover have "path (sh_nx sh2) (nd_next (sh_node sh ! j)) (chn j) None" if j: "j < length (sh_node sh)" "j \<noteq> ?i" for j
    proof -
      have "?l \<notin> set (chn j)" using sh_rep_disjoint [OF r i j(1) _ l] j(2) by simp
      moreover have "path (sh_nx sh) (nd_next (sh_node sh ! j)) (chn j) None" using r j by (simp add: sh_rep_def)
      ultimately show ?thesis using out [OF j(1)] by (simp add: nx2 nx1)
    qed
    moreover have "dom (sh_mem sh2) = insert ?a (dom (sh_mem sh))" using n by (auto simp: sh2_def sh1_def)
    ultimately show thesis using la n by (intro that [of sh2]) (auto simp: sh2_def sh1_def)
  qed
  have ri: "row_index sh' x = row_index sh x" for x by (simp add: row_index_def eq(1))
  have "sh_rep sh' (chn(?i := ?xs @ [?a]))"
  proof (rule sh_repI [OF r i eq(1,2,7,8)])
    show "set (?xs @ [?a]) = {a \<in> dom (sh_mem sh'). row_index sh' (sh_key sh' a) = ?i}"
      using row(4) fresh by (auto simp: eq(4,5) ri)
    show "inj_on (sh_key sh') (dom (sh_mem sh'))"
      using r nokey by (auto simp: sh_rep_def inj_on_def eq(4,5))
    show "\<forall>a \<in> dom (sh_mem sh'). a < sh_brk sh'" using r by (auto simp: sh_rep_def eq(3,4) intro: less_SucI)
  qed (use fresh in \<open>auto simp: eq(4,5)\<close>)
  note r' = this
  have "sh_lookup sh' = (sh_lookup sh)(k \<mapsto> arg)"
  proof (rule map_eqI)
    fix k' v
    have "sh_lookup sh' k' = Some v \<longleftrightarrow> (k = k' \<and> arg = v) \<or> (\<exists>a \<in> dom (sh_mem sh). sh_key sh a = k' \<and> sh_arg sh a = v)"
    proof -
      have "(\<exists>a \<in> dom (sh_mem sh). sh_key sh' a = k' \<and> sh_arg sh' a = v) \<longleftrightarrow> (\<exists>a \<in> dom (sh_mem sh). sh_key sh a = k' \<and> sh_arg sh a = v)"
        using fresh by (intro bex_cong) (auto simp: eq(5,6))
      then show ?thesis unfolding sh_lookup_dom [OF r'] eq(4) by (simp add: eq(5,6))
    qed
    also have "\<dots> \<longleftrightarrow> ((sh_lookup sh)(k \<mapsto> arg)) k' = Some v"
      using nokey by (auto simp: sh_lookup_dom [OF r])
    finally show "sh_lookup sh' k' = Some v \<longleftrightarrow> ((sh_lookup sh)(k \<mapsto> arg)) k' = Some v" .
  qed
  moreover have "ecos_shash32_node_insert sh k arg = Some (Some ?a, sh')"
    using search end_ref sh' by (simp add: ecos_shash32_node_insert_def sh1_def)
  ultimately show ?thesis using eq(1) r' by (auto simp: sh_wf_def)
qed

subsection \<open>Removal\<close>

lemma remove_loop_none:
  "node_at sh ref = Some m \<Longrightarrow> path (sh_nx sh) (nd_next m) xs None \<Longrightarrow> \<forall>a \<in> set xs. sh_key sh a \<noteq> k \<Longrightarrow>
   remove_loop sh k ref = Some sh"
proof (induction xs arbitrary: ref m)
  case Nil
  then show ?case by (subst remove_loop.simps) simp
next
  case (Cons x xs)
  then obtain n where n: "nd_next m = Some x" "sh_mem sh x = Some n" "path (sh_nx sh) (nd_next n) xs None" by auto
  with Cons.IH [of "Node x" n] Cons.prems show ?case by (subst remove_loop.simps) simp
qed

lemma remove_loop_found:
  "node_at sh ref = Some m \<Longrightarrow> path (sh_nx sh) (nd_next m) (us @ a # vs) None \<Longrightarrow> \<forall>b \<in> set us. sh_key sh b \<noteq> k \<Longrightarrow>
   sh_key sh a = k \<Longrightarrow>
   remove_loop sh k ref = unlink_node sh (if us = [] then ref else Node (last us)) a (nd_next (the (sh_mem sh a)))"
proof (induction us arbitrary: ref m)
  case Nil
  then show ?case by (subst remove_loop.simps) auto
next
  case (Cons x us)
  then obtain n where n: "nd_next m = Some x" "sh_mem sh x = Some n" "path (sh_nx sh) (nd_next n) (us @ a # vs) None" by auto
  with Cons.IH [of "Node x" n] Cons.prems show ?case by (subst remove_loop.simps) simp
qed

lemma path_remove:
  assumes "path nx p (us @ a # vs) None" "us \<noteq> []" "distinct (us @ a # vs)"
  shows "path (nx(last us := nx a, a := None)) p (us @ vs) None"
proof -
  from assms(2) obtain ws l where us: "us = ws @ [l]" by (metis append_butlast_last_id)
  obtain r where r: "nx a = Some r" "path nx r vs None" using assms(1) by (auto simp: path_append)
  have "path nx p ws (Some l)" using assms(1) by (auto simp: path_append us)
  with r us assms(3) show ?thesis by (auto simp: path_append)
qed

lemma path_remove_first:
  "path nx p (a # vs) None \<Longrightarrow> a \<notin> set vs \<Longrightarrow> \<exists>q. nx a = Some q \<and> path (nx(a := None)) q vs None"
  by auto

lemma remove_rep:
  assumes r: "sh_rep sh chn"
  shows "\<exists>sh'. ecos_shash32_node_remove sh k = Some sh' \<and> sh_wf sh' \<and> sh_lookup sh' = (sh_lookup sh)(k := None) \<and>
    row_count sh' = row_count sh \<and> sh_brk sh' = sh_brk sh \<and>
    dom (sh_mem sh') = {a \<in> dom (sh_mem sh). sh_key sh a \<noteq> k} \<and> (\<forall>a \<in> dom (sh_mem sh'). sh_key sh' a = sh_key sh a)"
proof -
  let ?i = "row_index sh k"
  let ?xs = "chn ?i"
  note row = sh_row [OF r, of k]
  have i: "?i < length (sh_node sh)" by (rule row_index_less [OF r])
  have inj: "a = b" if "a \<in> dom (sh_mem sh)" "b \<in> dom (sh_mem sh)" "sh_key sh a = sh_key sh b" for a b
    using that r by (auto simp: sh_rep_def inj_on_def)
  show ?thesis
  proof (cases "\<exists>a \<in> set ?xs. sh_key sh a = k")
    case False
    then have "sh_key sh a \<noteq> k" if "a \<in> dom (sh_mem sh)" for a using that row(4) by auto
    then have "sh_lookup sh k \<noteq> Some v" "{a \<in> dom (sh_mem sh). sh_key sh a \<noteq> k} = dom (sh_mem sh)" for v
      using sh_lookup_dom [OF r, of k] by auto
    moreover have "remove_loop sh k (Row ?i) = Some sh"
      using remove_loop_none [of sh "Row ?i" _ ?xs k] row(1,2) False by simp
    ultimately show ?thesis using r by (auto simp: ecos_shash32_node_remove_def sh_wf_def fun_eq_iff)
  next
    case True
    then obtain us a vs where xs: "?xs = us @ a # vs" "sh_key sh a = k" "\<forall>b \<in> set us. sh_key sh b \<noteq> k"
      using split_list_first_prop [of ?xs "\<lambda>a. sh_key sh a = k"] by blast
    have a: "a \<in> dom (sh_mem sh)" using row(4) xs(1) by auto
    have d: "distinct (us @ a # vs)" using row(3) xs(1) by simp
    have only: "b = a" if "b \<in> dom (sh_mem sh)" "sh_key sh b = k" for b using inj [OF that(1) a] that(2) xs(2) by simp
    define ref where "ref = (if us = [] then Row ?i else Node (last us))"
    have loop: "ecos_shash32_node_remove sh k = unlink_node sh ref a (nd_next (the (sh_mem sh a)))"
      using remove_loop_found [of sh "Row ?i" _ us a vs k] row(1,2) xs by (simp add: ref_def ecos_shash32_node_remove_def)
    obtain sh' where sh': "unlink_node sh ref a (nd_next (the (sh_mem sh a))) = Some sh'" and eq: "row_count sh' = row_count sh"
        "length (sh_node sh') = length (sh_node sh)" "sh_brk sh' = sh_brk sh" "dom (sh_mem sh') = dom (sh_mem sh) - {a}"
        "\<And>b. b \<noteq> a \<Longrightarrow> sh_key sh' b = sh_key sh b" "\<And>b. b \<noteq> a \<Longrightarrow> sh_arg sh' b = sh_arg sh b"
        "path (sh_nx sh') (nd_next (sh_node sh' ! ?i)) (us @ vs) None"
        "\<And>j. j < length (sh_node sh) \<Longrightarrow> j \<noteq> ?i \<Longrightarrow> path (sh_nx sh') (nd_next (sh_node sh' ! j)) (chn j) None"
    proof (cases "us = []")
      case True
      let ?q = "nd_next (the (sh_mem sh a))"
      define sh2 where "sh2 = free_node (sh\<lparr>sh_node := (sh_node sh)[?i := (sh_node sh ! ?i)\<lparr>nd_next := ?q\<rparr>]\<rparr>) a"
      have nx2: "sh_nx sh2 = (sh_nx sh)(a := None)" by (auto simp: sh_nx_def sh2_def free_node_def fun_eq_iff)
      have "unlink_node sh ref a ?q = Some sh2" using True i by (simp add: ref_def sh2_def unlink_node_def)
      moreover have "path ((sh_nx sh)(a := None)) ?q vs None"
        using path_remove_first [of "sh_nx sh" _ a vs] row(2) xs(1) True d by auto
      moreover have "path ((sh_nx sh)(a := None)) (nd_next (sh_node sh ! j)) (chn j) None" if j: "j < length (sh_node sh)" "j \<noteq> ?i" for j
        using sh_rep_disjoint [OF r i j(1), of a] j xs(1) r by (simp add: sh_rep_def)
      ultimately show thesis using True i
        by (intro that [of sh2]) (auto simp: nx2, auto simp: sh2_def free_node_def split: if_splits)
    next
      case False
      let ?l = "last us" and ?q = "nd_next (the (sh_mem sh a))"
      have l: "?l \<in> set us" using False by simp
      then obtain n where n: "sh_mem sh ?l = Some n" using row(4) xs(1) by auto
      have la: "?l \<noteq> a" using d l by auto
      define sh2 where "sh2 = free_node (sh\<lparr>sh_mem := (sh_mem sh)(?l \<mapsto> n\<lparr>nd_next := ?q\<rparr>)\<rparr>) a"
      have nx2: "sh_nx sh2 = (sh_nx sh)(?l := sh_nx sh a, a := None)"
        using a by (auto simp: sh_nx_def sh2_def free_node_def fun_eq_iff)
      have "unlink_node sh ref a ?q = Some sh2" using False n by (simp add: ref_def sh2_def unlink_node_def)
      moreover have "path (sh_nx sh2) (nd_next (sh_node sh ! ?i)) (us @ vs) None"
        unfolding nx2 using row(2) d False by (intro path_remove) (simp_all add: xs(1))
      moreover have "path (sh_nx sh2) (nd_next (sh_node sh ! j)) (chn j) None" if j: "j < length (sh_node sh)" "j \<noteq> ?i" for j
        using sh_rep_disjoint [OF r i j(1), of a] sh_rep_disjoint [OF r i j(1), of ?l] j xs(1) r l by (simp add: nx2 sh_rep_def)
      moreover have "dom (sh_mem sh2) = dom (sh_mem sh) - {a}" using n by (auto simp: sh2_def free_node_def)
      ultimately show thesis using n la
        by (intro that [of sh2]) (auto simp: sh2_def free_node_def)
    qed
    have ri: "row_index sh' x = row_index sh x" for x by (simp add: row_index_def eq(1))
    have r': "sh_rep sh' (chn(?i := us @ vs))"
    proof (rule sh_repI [OF r i eq(1,2,7,8)])
      have "set (us @ vs) = set ?xs - {a}" using d by (auto simp: xs(1))
      also have "\<dots> = {b \<in> dom (sh_mem sh'). row_index sh' (sh_key sh' b) = ?i}"
        unfolding row(4) eq(4) ri using eq(5) by auto
      finally show "set (us @ vs) = {b \<in> dom (sh_mem sh'). row_index sh' (sh_key sh' b) = ?i}" .
      show "inj_on (sh_key sh') (dom (sh_mem sh'))" using inj by (intro inj_onI) (auto simp: eq(4,5))
      show "\<forall>a \<in> dom (sh_mem sh'). a < sh_brk sh'" using r by (auto simp: sh_rep_def eq(3,4))
      show "b \<in> dom (sh_mem sh') \<and> sh_key sh' b = sh_key sh b"
        if "row_index sh (sh_key sh b) \<noteq> ?i" "b \<in> dom (sh_mem sh)" for b
      proof -
        have "b \<noteq> a" using that(1) xs(2) by auto
        then show ?thesis using that(2) eq(4,5) by auto
      qed
    qed (use xs(2) in \<open>auto simp: eq(4,5)\<close>)
    have "sh_lookup sh' = (sh_lookup sh)(k := None)"
    proof (rule map_eqI)
      fix k' v
      have "(\<exists>b \<in> dom (sh_mem sh) - {a}. sh_key sh' b = k' \<and> sh_arg sh' b = v) \<longleftrightarrow>
          (\<exists>b \<in> dom (sh_mem sh) - {a}. sh_key sh b = k' \<and> sh_arg sh b = v)"
        by (intro bex_cong) (auto simp: eq(5,6))
      also have "\<dots> \<longleftrightarrow> k' \<noteq> k \<and> (\<exists>b \<in> dom (sh_mem sh). sh_key sh b = k' \<and> sh_arg sh b = v)"
        using only xs(2) by blast
      finally show "sh_lookup sh' k' = Some v \<longleftrightarrow> ((sh_lookup sh)(k := None)) k' = Some v"
        unfolding sh_lookup_dom [OF r'] eq(4) by (auto simp: sh_lookup_dom [OF r])
    qed
    moreover have "dom (sh_mem sh') = {a \<in> dom (sh_mem sh). sh_key sh a \<noteq> k}" using only xs(2) by (auto simp: eq(4))
    ultimately show ?thesis using loop sh' r' eq by (auto simp: sh_wf_def)
  qed
qed

subsection \<open>Interface and destruction\<close>

lemma create_wf:
  assumes "SHASH_ROW_COUNT_MIN \<le> n" "n \<le> SHASH_ROW_COUNT_MAX"
  shows "\<exists>sh. ecos_shash32_create brk n = Some sh \<and> sh_wf sh \<and> sh_lookup sh k = None \<and> row_count sh = n"
proof -
  define sh where "sh = \<lparr>row_count = n, sh_node = replicate (unat n) \<lparr>key32 = 0, nd_next = None, nd_arg = None\<rparr>,
    sh_mem = Map.empty, sh_brk = brk\<rparr>"
  have "0 < unat n" using assms(1) by (auto simp: SHASH_ROW_COUNT_MIN_def word_le_nat_alt)
  then have r: "sh_rep sh (\<lambda>_. [])" by (simp add: sh_rep_def sh_def)
  have "sh_lookup sh k \<noteq> Some v" for v by (simp add: sh_lookup_dom [OF r]) (simp add: sh_def)
  then have "sh_lookup sh k = None" by (metis option.exhaust)
  moreover have "ecos_shash32_create brk n = Some sh" using assms by (simp add: ecos_shash32_create_def sh_def not_less)
  ultimately show ?thesis using r by (auto simp: sh_wf_def sh_def)
qed

lemma create_out_of_range: "n < SHASH_ROW_COUNT_MIN \<or> SHASH_ROW_COUNT_MAX < n \<Longrightarrow> ecos_shash32_create brk n = None"
  by (auto simp: ecos_shash32_create_def)

lemma insert_dup:
  assumes "sh_wf sh" "sh_lookup sh k \<noteq> None"
  shows "ecos_shash32_node_insert sh k arg = Some (None, sh)"
proof -
  obtain chn where r: "sh_rep sh chn" using assms(1) by (auto simp: sh_wf_def)
  obtain v where "sh_lookup sh k = Some v" using assms(2) by auto
  then obtain a where "a \<in> dom (sh_mem sh)" "sh_key sh a = k" unfolding sh_lookup_dom [OF r] by blast
  then have "ecos_shash32_node_search sh k = Some (Some a)" using search_rep [OF r, of k] by auto
  then show ?thesis by (simp add: ecos_shash32_node_insert_def)
qed

text \<open>The table of the registry, as a directory that refuses a key twice.\<close>

definition sh_insert :: "u32 \<Rightarrow> ptr \<Rightarrow> shash32 \<Rightarrow> shash32 option" where
  "sh_insert k arg sh = do { (r, sh') \<leftarrow> ecos_shash32_node_insert sh k arg; _ \<leftarrow> r; Some sh' }"

definition sh_remove :: "u32 \<Rightarrow> shash32 \<Rightarrow> shash32" where
  "sh_remove k sh = (case ecos_shash32_node_remove sh k of Some sh' \<Rightarrow> sh' | None \<Rightarrow> sh)"

definition sh_64 :: shash32 where "sh_64 = the (ecos_shash32_create 0 64)"

interpretation shash: unique_map_del sh_64 sh_insert sh_lookup sh_wf "\<lambda>_. 0" 1 sh_remove
proof
  have "\<exists>sh. ecos_shash32_create 0 64 = Some sh \<and> sh_wf sh \<and> sh_lookup sh k = None \<and> row_count sh = 64" for k
    by (rule create_wf) (simp_all add: SHASH_ROW_COUNT_MIN_def SHASH_ROW_COUNT_MAX_def)
  then have "sh_wf sh_64 \<and> sh_lookup sh_64 k = None" for k by (metis option.sel sh_64_def)
  then show "sh_wf sh_64" "sh_lookup sh_64 k = None" for k by auto
  fix sh k and v :: ptr
  assume wf: "sh_wf sh"
  then obtain chn where r: "sh_rep sh chn" by (auto simp: sh_wf_def)
  show "\<exists>sh'. sh_insert k v sh = Some sh' \<and> sh_wf sh' \<and> sh_lookup sh' = (sh_lookup sh)(k \<mapsto> v) \<and> (0::nat) \<le> Suc 0" if "sh_lookup sh k = None"
    using insert_rep [OF r that, of v] by (auto simp: sh_insert_def)
  show "sh_insert k v sh = None" if "sh_lookup sh k \<noteq> None"
    using insert_dup [OF wf that, of v] by (simp add: sh_insert_def)
  show "sh_wf (sh_remove k sh) \<and> sh_lookup (sh_remove k sh) = (sh_lookup sh)(k := None) \<and> (0::nat) \<le> 0"
    using remove_rep [OF r, of k] by (auto simp: sh_remove_def)
qed simp_all

lemma destory_row_spec:
  assumes "sh_wf sh" "i < unat (row_count sh)"
  shows "\<exists>sh'. destory_row i sh = Some sh' \<and> sh_wf sh' \<and> row_count sh' = row_count sh \<and>
    dom (sh_mem sh') = {a \<in> dom (sh_mem sh). row_index sh (sh_key sh a) \<noteq> i} \<and> (\<forall>a \<in> dom (sh_mem sh'). sh_key sh' a = sh_key sh a)"
  using assms
proof (induction "card (dom (sh_mem sh))" arbitrary: sh rule: less_induct)
  case less
  then obtain chn where r: "sh_rep sh chn" by (auto simp: sh_wf_def)
  have i: "i < length (sh_node sh)" using r less.prems(2) by (simp add: sh_rep_def)
  have row: "path (sh_nx sh) (nd_next (sh_node sh ! i)) (chn i) None" "set (chn i) = {a \<in> dom (sh_mem sh). row_index sh (sh_key sh a) = i}"
    using r i by (auto simp: sh_rep_def)
  show ?case
  proof (cases "nd_next (sh_node sh ! i)")
    case None
    then have "chn i = []" using row(1) by simp
    then have "{a \<in> dom (sh_mem sh). row_index sh (sh_key sh a) \<noteq> i} = dom (sh_mem sh)" using row(2) by auto
    then show ?thesis using None i less.prems by (subst destory_row.simps) simp
  next
    case (Some a)
    then obtain ys where "chn i = a # ys" using row(1) path_Some_Nil by fastforce
    then have a: "a \<in> dom (sh_mem sh)" "row_index sh (sh_key sh a) = i" using row(2) by auto
    then obtain m where m: "sh_mem sh a = Some m" by auto
    obtain sh1 where sh1: "ecos_shash32_node_remove sh (key32 m) = Some sh1" "sh_wf sh1" "row_count sh1 = row_count sh"
        "dom (sh_mem sh1) = {b \<in> dom (sh_mem sh). sh_key sh b \<noteq> key32 m}" "\<forall>b \<in> dom (sh_mem sh1). sh_key sh1 b = sh_key sh b"
      using remove_rep [OF r, of "key32 m"] by blast
    have fin: "finite (dom (sh_mem sh))"
      by (rule finite_subset [of _ "{..<sh_brk sh}"]) (use r in \<open>auto simp: sh_rep_def\<close>)
    have "a \<notin> dom (sh_mem sh1)" "dom (sh_mem sh1) \<subseteq> dom (sh_mem sh)" unfolding sh1(4) using m by auto
    then have "dom (sh_mem sh1) \<subset> dom (sh_mem sh)" using a(1) by blast
    then have "card (dom (sh_mem sh1)) < card (dom (sh_mem sh))" by (rule psubset_card_mono [OF fin])
    then obtain sh2 where sh2: "destory_row i sh1 = Some sh2" "sh_wf sh2" "row_count sh2 = row_count sh1"
        "dom (sh_mem sh2) = {b \<in> dom (sh_mem sh1). row_index sh1 (sh_key sh1 b) \<noteq> i}" "\<forall>b \<in> dom (sh_mem sh2). sh_key sh2 b = sh_key sh1 b"
      using less.hyps [OF _ sh1(2)] less.prems(2) sh1(3) by metis
    have ri: "row_index sh1 x = row_index sh x" for x by (simp add: row_index_def sh1(3))
    have "row_index sh (key32 m) = i" using a(2) m by simp
    then have "dom (sh_mem sh2) = {b \<in> dom (sh_mem sh). row_index sh (sh_key sh b) \<noteq> i}"
      using sh1(5) unfolding sh2(4) ri sh1(4) by auto
    moreover have "\<forall>b \<in> dom (sh_mem sh2). sh_key sh2 b = sh_key sh b" using sh2(4,5) sh1(5) by auto
    moreover have "destory_row i sh = Some sh2" using Some i m sh1(1) sh2(1) by (subst destory_row.simps) simp
    ultimately show ?thesis using sh2(2,3) sh1(3) by auto
  qed
qed

lemma destory_rows_spec:
  assumes "sh_wf sh" "\<forall>i \<in> set is. i < unat (row_count sh)"
  shows "\<exists>sh'. destory_rows is sh = Some sh' \<and> sh_wf sh' \<and> row_count sh' = row_count sh \<and>
    dom (sh_mem sh') = {a \<in> dom (sh_mem sh). row_index sh (sh_key sh a) \<notin> set is}"
  using assms
proof (induction "is" arbitrary: sh)
  case (Cons i js)
  then obtain sh1 where sh1: "destory_row i sh = Some sh1" "sh_wf sh1" "row_count sh1 = row_count sh"
      "dom (sh_mem sh1) = {a \<in> dom (sh_mem sh). row_index sh (sh_key sh a) \<noteq> i}" "\<forall>a \<in> dom (sh_mem sh1). sh_key sh1 a = sh_key sh a"
    using destory_row_spec [of sh i] by auto
  obtain sh2 where sh2: "destory_rows js sh1 = Some sh2" "sh_wf sh2" "row_count sh2 = row_count sh1"
      "dom (sh_mem sh2) = {a \<in> dom (sh_mem sh1). row_index sh1 (sh_key sh1 a) \<notin> set js}"
    using Cons.IH [OF sh1(2)] Cons.prems(2) sh1(3) by auto
  have ri: "row_index sh1 x = row_index sh x" for x by (simp add: row_index_def sh1(3))
  have "dom (sh_mem sh2) = {a \<in> dom (sh_mem sh). row_index sh (sh_key sh a) \<notin> set (i # js)}"
    unfolding sh2(4) ri using sh1(4,5) by auto
  then show ?case using sh1(1,3) sh2 by simp
qed simp

lemma destory_frees_all:
  assumes "sh_wf sh"
  shows "ecos_shash_destory sh = Some Map.empty"
proof -
  obtain chn where r: "sh_rep sh chn" using assms by (auto simp: sh_wf_def)
  obtain sh' where sh': "destory_rows [0..<unat (row_count sh)] sh = Some sh'"
      "dom (sh_mem sh') = {a \<in> dom (sh_mem sh). row_index sh (sh_key sh a) \<notin> set [0..<unat (row_count sh)]}"
    using destory_rows_spec [OF assms, of "[0..<unat (row_count sh)]"] by auto
  have "row_index sh k \<in> set [0..<unat (row_count sh)]" for k using row_index_less [OF r] r by (simp add: sh_rep_def)
  then have "dom (sh_mem sh') = {}" using sh'(2) by blast
  then show ?thesis using sh'(1) by (simp add: ecos_shash_destory_def)
qed

end
