(* ===== verification/Ecos_Mib_Reg.thy ===== *)
theory Ecos_Mib_Reg
  imports Ecos_Shash32 C_String
begin

text \<open>
  The registry of configuration nodes, \<^verbatim>\<open>041_ecos_mib/apps/ecos/ecos_mib_reg.c\<close>: a hash table from the number of a
  node (its mib) to its description, and the list of the mibs in the order of their first registration.
  \<open>mr_regs\<close> and \<open>mr_orders\<close> are the objects allocated for the two, each with an allocator that does not fail;
  function pointers and addresses are \<open>ptr\<close>s.
\<close>

subsection \<open>Data\<close>

record mib_shash_reg =
  desc :: string
  reg_type :: int
  base_addr :: ptr
  base_size :: u32
  parser_fn :: ptr
  rule_fn :: ptr
  permission :: u32
  ext_flag :: u32
  save_fn :: ptr
  load_fn :: ptr

record mib_reg_order =
  or_mib :: u32
  or_next :: ptr

text \<open>\<open>sp_reg_order_end\<close> points to the static head or to an allocated element.\<close>

datatype order_ref = Head | Order addr

record mib_registry =
  mr_shash :: "shash32 option"
  mr_regs :: "addr \<rightharpoonup> mib_shash_reg"
  mr_reg_brk :: addr
  mr_order_head :: mib_reg_order
  mr_orders :: "addr \<rightharpoonup> mib_reg_order"
  mr_order_brk :: addr
  mr_order_end :: order_ref

definition MIB_SHASH_ROW_COUNT :: u32 where "MIB_SHASH_ROW_COUNT = 64"
definition ECOS_REG_OK :: int where "ECOS_REG_OK = 0"
definition ECOS_REG_ERROR_MIB_USED :: int where "ECOS_REG_ERROR_MIB_USED = 1"

subsection \<open>Order list\<close>

partial_function (option) free_order_loop :: "mib_registry \<Rightarrow> ptr \<Rightarrow> mib_registry option" where
  "free_order_loop st p_order =
     (case p_order of
        None \<Rightarrow> Some st
      | Some a \<Rightarrow> do {
          n \<leftarrow> mr_orders st a;
          free_order_loop (st\<lparr>mr_orders := (mr_orders st)(a := None)\<rparr>) (or_next n) })"

definition free_mib_register_order :: "mib_registry \<Rightarrow> mib_registry option" where
  "free_mib_register_order st = do {
     st \<leftarrow> free_order_loop st (or_next (mr_order_head st));
     Some (st\<lparr>mr_order_head := (mr_order_head st)\<lparr>or_next := None\<rparr>\<rparr>) }"

partial_function (option) order_find :: "mib_registry \<Rightarrow> u32 \<Rightarrow> ptr \<Rightarrow> bool option" where
  "order_find st mib p =
     (case p of
        None \<Rightarrow> Some False
      | Some a \<Rightarrow> do {
          n \<leftarrow> mr_orders st a;
          (if or_mib n = mib then Some True else order_find st mib (or_next n)) })"

fun order_set_next :: "mib_registry \<Rightarrow> order_ref \<Rightarrow> ptr \<Rightarrow> mib_registry option" where
  "order_set_next st Head p = Some (st\<lparr>mr_order_head := (mr_order_head st)\<lparr>or_next := p\<rparr>\<rparr>)"
| "order_set_next st (Order a) p = do {
     n \<leftarrow> mr_orders st a;
     Some (st\<lparr>mr_orders := (mr_orders st)(a \<mapsto> n\<lparr>or_next := p\<rparr>)\<rparr>) }"

definition add_mib_register_order :: "mib_registry \<Rightarrow> u32 \<Rightarrow> mib_registry option" where
  "add_mib_register_order st mib = do {
     found \<leftarrow> order_find st mib (or_next (mr_order_head st));
     (if found then Some st
      else do {
        let a = mr_order_brk st;
        let st = st\<lparr>mr_orders := (mr_orders st)(a \<mapsto> \<lparr>or_mib = mib, or_next = None\<rparr>), mr_order_brk := a + 1\<rparr>;
        st \<leftarrow> order_set_next st (mr_order_end st) (Some a);
        Some (st\<lparr>mr_order_end := Order a\<rparr>) }) }"

subsection \<open>Lookup\<close>

definition ecos_mib_find :: "mib_registry \<Rightarrow> u32 \<Rightarrow> ptr option" where
  "ecos_mib_find st mib = do {
     sh \<leftarrow> mr_shash st;
     find_node \<leftarrow> ecos_shash32_node_search sh mib;
     (case find_node of
        None \<Rightarrow> Some None
      | Some a \<Rightarrow> do { n \<leftarrow> sh_mem sh a; Some (nd_arg n) }) }"

text \<open>\<open>strcmp(s, t) == 0\<close> for a field \<open>s\<close> of fixed size: it stops at the first difference, and \<open>None\<close> is a read behind the
  field.\<close>

fun strcmp_eq :: "string \<Rightarrow> string \<Rightarrow> bool option" where
  "strcmp_eq [] t = None"
| "strcmp_eq (c # s) t =
     (if c \<noteq> (case t of [] \<Rightarrow> NUL | d # _ \<Rightarrow> d) then Some False
      else if c = NUL then Some True else strcmp_eq s (tl t))"

lemma strcmp_eq_cstr: "NUL \<in> set s \<Longrightarrow> strcmp_eq s t = Some (cstr s = cstr t)"
proof (induction s t rule: strcmp_eq.induct)
  case (2 c s t)
  then show ?case by (cases t) (auto simp: cstr_def)
qed simp


partial_function (option) desc_row :: "shash32 \<Rightarrow> (addr \<rightharpoonup> mib_shash_reg) \<Rightarrow> string \<times> ptr \<Rightarrow> ptr option" where
  "desc_row sh regs sp =
     (case snd sp of
        None \<Rightarrow> Some None
      | Some a \<Rightarrow> do {
          n \<leftarrow> sh_mem sh a;
          reg_t \<leftarrow> nd_arg n;
          r \<leftarrow> regs reg_t;
          eq \<leftarrow> strcmp_eq (desc r) (fst sp);
          (if eq then Some (Some reg_t) else desc_row sh regs (fst sp, nd_next n)) })"

fun desc_rows :: "shash32 \<Rightarrow> (addr \<rightharpoonup> mib_shash_reg) \<Rightarrow> string \<Rightarrow> nat list \<Rightarrow> ptr option" where
  "desc_rows sh regs sz_desc [] = Some None"
| "desc_rows sh regs sz_desc (i # is) = do {
     n \<leftarrow> array_get (sh_node sh) i;
     r \<leftarrow> desc_row sh regs (sz_desc, nd_next n);
     (case r of None \<Rightarrow> desc_rows sh regs sz_desc is | Some p \<Rightarrow> Some (Some p)) }"

definition ecos_mib_find_by_desc :: "mib_registry \<Rightarrow> string \<Rightarrow> ptr option" where
  "ecos_mib_find_by_desc st sz_desc = do {
     sh \<leftarrow> mr_shash st;
     desc_rows sh (mr_regs st) sz_desc [0..<unat (row_count sh)] }"

subsection \<open>Registration\<close>

text \<open>The arguments of \<open>ecos_mib_register\<close> behind the mib.\<close>

record reg_args =
  ra_desc :: string
  ra_type :: int
  ra_base_addr :: ptr
  ra_base_size :: u32
  ra_parser_fn :: ptr
  ra_rule_fn :: ptr
  ra_save_fn :: ptr
  ra_load_fn :: ptr
  ra_permission :: u32
  ra_ext_flag :: u32

text \<open>\<open>raw\<close> is what the allocated memory holds before the fields are set: without a rule function the field
  keeps it.\<close>

definition reg_of :: "mib_shash_reg \<Rightarrow> reg_args \<Rightarrow> mib_shash_reg" where
  "reg_of raw ra = \<lparr>desc = strncpy 64 (ra_desc ra), reg_type = ra_type ra, base_addr = ra_base_addr ra,
     base_size = ra_base_size ra, parser_fn = ra_parser_fn ra,
     rule_fn = (if ra_rule_fn ra = None then rule_fn raw else ra_rule_fn ra),
     permission = ra_permission ra, ext_flag = ra_ext_flag ra, save_fn = ra_save_fn ra, load_fn = ra_load_fn ra\<rparr>"

text \<open>The two messages are printed into an array of 256 characters.\<close>

definition sprintf_256 :: "string \<Rightarrow> string option" where
  "sprintf_256 s = (if length s < 256 then Some s else None)"

definition ecos_mib_register :: "mib_registry \<Rightarrow> u32 \<Rightarrow> reg_args \<Rightarrow> mib_shash_reg \<Rightarrow> (int \<times> mib_registry) option" where
  "ecos_mib_register st mib ra raw = do {
     let reg_node = mr_reg_brk st;
     dup \<leftarrow> ecos_mib_find_by_desc st (ra_desc ra);
     (if dup \<noteq> None then map_option (\<lambda>_. ()) (sprintf_256 (''mib('' @ cstr (ra_desc ra) @ ''): desc was exist.'')) else Some ());
     let node = reg_of raw ra;
     (if ra_rule_fn ra = None
      then do {
        d \<leftarrow> cstr_at (desc node) 0;
        map_option (\<lambda>_. ()) (sprintf_256 (''mib('' @ d @ ''): must insert addr rule functions.'')) }
      else Some ());
     let st = st\<lparr>mr_regs := (mr_regs st)(reg_node \<mapsto> node), mr_reg_brk := reg_node + 1\<rparr>;
     sh \<leftarrow> mr_shash st;
     (r, sh) \<leftarrow> ecos_shash32_node_insert sh mib (Some reg_node);
     (if r = None then Some (ECOS_REG_ERROR_MIB_USED, st)
      else do {
        st \<leftarrow> add_mib_register_order (st\<lparr>mr_shash := Some sh\<rparr>) mib;
        Some (ECOS_REG_OK, st) }) }"

definition ecos_mib_unregister :: "mib_registry \<Rightarrow> u32 \<Rightarrow> mib_registry option" where
  "ecos_mib_unregister st mib = do {
     sh \<leftarrow> mr_shash st;
     del_node \<leftarrow> ecos_shash32_node_search sh mib;
     (case del_node of
        None \<Rightarrow> Some st
      | Some a \<Rightarrow> do {
          n \<leftarrow> sh_mem sh a;
          regs \<leftarrow> (case nd_arg n of
              None \<Rightarrow> Some (mr_regs st)
            | Some r \<Rightarrow> do { _ \<leftarrow> mr_regs st r; Some ((mr_regs st)(r := None)) });
          sh \<leftarrow> ecos_shash32_node_remove sh mib;
          Some (st\<lparr>mr_shash := Some sh, mr_regs := regs\<rparr>) }) }"

definition ecos_mib_reg_init :: "mib_registry \<Rightarrow> addr \<Rightarrow> int \<times> mib_registry" where
  "ecos_mib_reg_init st brk =
     (let sh = ecos_shash32_create brk MIB_SHASH_ROW_COUNT;
          st = st\<lparr>mr_order_head := \<lparr>or_mib = 0, or_next = None\<rparr>, mr_order_end := Head, mr_shash := sh\<rparr>
      in (if sh \<noteq> None then 0 else -1, st))"

text \<open>\<open>free(node->arg)\<close> for the nodes of a row.\<close>

partial_function (option) free_args_row :: "shash32 \<Rightarrow> ptr \<Rightarrow> (addr \<rightharpoonup> mib_shash_reg) \<Rightarrow> (addr \<rightharpoonup> mib_shash_reg) option" where
  "free_args_row sh node regs =
     (case node of
        None \<Rightarrow> Some regs
      | Some a \<Rightarrow> do {
          n \<leftarrow> sh_mem sh a;
          r \<leftarrow> nd_arg n;
          _ \<leftarrow> regs r;
          free_args_row sh (nd_next n) (regs(r := None)) })"

fun free_args_rows :: "shash32 \<Rightarrow> nat list \<Rightarrow> (addr \<rightharpoonup> mib_shash_reg) \<Rightarrow> (addr \<rightharpoonup> mib_shash_reg) option" where
  "free_args_rows sh [] regs = Some regs"
| "free_args_rows sh (i # is) regs = do {
     n \<leftarrow> array_get (sh_node sh) i;
     regs \<leftarrow> free_args_row sh (nd_next n) regs;
     free_args_rows sh is regs }"

definition ecos_mib_reg_free :: "mib_registry \<Rightarrow> mib_registry option" where
  "ecos_mib_reg_free st = do {
     st \<leftarrow> free_mib_register_order st;
     sh \<leftarrow> mr_shash st;
     regs \<leftarrow> free_args_rows sh [0..<unat (row_count sh)] (mr_regs st);
     _ \<leftarrow> ecos_shash_destory sh;
     Some (st\<lparr>mr_shash := None, mr_regs := regs\<rparr>) }"

declare free_order_loop.simps [code] order_find.simps [code] desc_row.simps [code] free_args_row.simps [code]

subsection \<open>The order list\<close>

definition or_nx :: "mib_registry \<Rightarrow> addr \<Rightarrow> ptr option" where
  "or_nx st a = map_option or_next (mr_orders st a)"

definition order_mib :: "mib_registry \<Rightarrow> addr \<Rightarrow> u32" where
  "order_mib st a = or_mib (the (mr_orders st a))"

definition order_rep :: "mib_registry \<Rightarrow> addr list \<Rightarrow> bool" where
  "order_rep st ords \<longleftrightarrow> path (or_nx st) (or_next (mr_order_head st)) ords None \<and> dom (mr_orders st) = set ords \<and>
     mr_order_end st = (if ords = [] then Head else Order (last ords)) \<and> (\<forall>a \<in> set ords. a < mr_order_brk st) \<and>
     distinct (map (order_mib st) ords)"

text \<open>The mibs of the order list, in order.\<close>

definition order_list :: "mib_registry \<Rightarrow> u32 list \<Rightarrow> bool" where
  "order_list st ms \<longleftrightarrow> (\<exists>ords. order_rep st ords \<and> ms = map (order_mib st) ords)"

lemma or_nx_Some [simp]: "or_nx st a = Some r \<longleftrightarrow> (\<exists>n. mr_orders st a = Some n \<and> or_next n = r)"
  by (auto simp: or_nx_def)

lemma order_find_path: "path (or_nx st) p ords None \<Longrightarrow> order_find st mib p = Some (mib \<in> order_mib st ` set ords)"
proof (induction ords arbitrary: p)
  case Nil
  then show ?case by (simp add: order_find.simps)
next
  case (Cons x ords)
  then obtain n where n: "p = Some x" "mr_orders st x = Some n" "path (or_nx st) (or_next n) ords None" by auto
  with Cons.IH [OF n(3)] show ?case by (subst order_find.simps) (auto simp: order_mib_def)
qed

lemma order_list_cong:
  "order_list st ms \<Longrightarrow> mr_orders st' = mr_orders st \<Longrightarrow> mr_order_head st' = mr_order_head st \<Longrightarrow>
   mr_order_brk st' = mr_order_brk st \<Longrightarrow> mr_order_end st' = mr_order_end st \<Longrightarrow> order_list st' ms"
proof -
  assume a: "order_list st ms" "mr_orders st' = mr_orders st" "mr_order_head st' = mr_order_head st"
    "mr_order_brk st' = mr_order_brk st" "mr_order_end st' = mr_order_end st"
  have "or_nx st' = or_nx st" "order_mib st' = order_mib st" by (auto simp: or_nx_def order_mib_def a(2) fun_eq_iff)
  then show "order_list st' ms" using a by (simp add: order_list_def order_rep_def)
qed

lemma add_order_spec:
  assumes "order_list st ms"
  shows "\<exists>st'. add_mib_register_order st mib = Some st' \<and> order_list st' (if mib \<in> set ms then ms else ms @ [mib]) \<and>
    mr_shash st' = mr_shash st \<and> mr_regs st' = mr_regs st \<and> mr_reg_brk st' = mr_reg_brk st"
proof -
  obtain ords where o: "order_rep st ords" "ms = map (order_mib st) ords" using assms by (auto simp: order_list_def)
  then have p: "path (or_nx st) (or_next (mr_order_head st)) ords None" and d: "dom (mr_orders st) = set ords"
    and e: "mr_order_end st = (if ords = [] then Head else Order (last ords))" and b: "\<forall>a \<in> set ords. a < mr_order_brk st"
    and dm: "distinct (map (order_mib st) ords)" by (auto simp: order_rep_def)
  have f: "order_find st mib (or_next (mr_order_head st)) = Some (mib \<in> set ms)" using order_find_path [OF p] o(2) by simp
  show ?thesis
  proof (cases "mib \<in> set ms")
    case True
    then show ?thesis using f assms by (simp add: add_mib_register_order_def)
  next
    case False
    let ?a = "mr_order_brk st" and ?n = "\<lparr>or_mib = mib, or_next = None\<rparr>"
    define st1 where "st1 = st\<lparr>mr_orders := (mr_orders st)(?a \<mapsto> ?n), mr_order_brk := ?a + 1\<rparr>"
    have fresh: "?a \<notin> set ords" using b by auto
    have nx1: "or_nx st1 = (or_nx st)(?a := Some None)" by (auto simp: or_nx_def st1_def fun_eq_iff)
    have p1: "path (or_nx st1) (or_next (mr_order_head st)) ords None" using p fresh by (simp add: nx1)
    obtain st2 where st2: "order_set_next st1 (mr_order_end st) (Some ?a) = Some st2"
        "path (or_nx st2) (or_next (mr_order_head st2)) (ords @ [?a]) None" "dom (mr_orders st2) = insert ?a (set ords)"
        "\<And>x. x \<in> set ords \<Longrightarrow> order_mib st2 x = order_mib st x" "order_mib st2 ?a = mib" "mr_order_brk st2 = ?a + 1"
        "mr_shash st2 = mr_shash st" "mr_regs st2 = mr_regs st" "mr_reg_brk st2 = mr_reg_brk st"
    proof (cases "ords = []")
      case True
      define st2 where "st2 = st1\<lparr>mr_order_head := (mr_order_head st)\<lparr>or_next := Some ?a\<rparr>\<rparr>"
      have "or_nx st2 = or_nx st1" by (auto simp: or_nx_def st2_def)
      then show thesis using True d e by (intro that [of st2]) (auto simp: st2_def st1_def nx1 order_mib_def)
    next
      case False
      let ?l = "last ords"
      have l: "?l \<in> set ords" "?l \<noteq> ?a" using last_in_set [OF False] fresh by auto
      then obtain n where n: "mr_orders st ?l = Some n" using d by auto
      define st2 where "st2 = st1\<lparr>mr_orders := (mr_orders st1)(?l \<mapsto> n\<lparr>or_next := Some ?a\<rparr>)\<rparr>"
      have nx2: "or_nx st2 = (or_nx st1)(?l := Some (Some ?a))" by (auto simp: or_nx_def st2_def fun_eq_iff)
      have "path (or_nx st2) (or_next (mr_order_head st)) (ords @ [?a]) None"
        unfolding nx2 using p1 False fresh path_distinct [OF p] by (intro path_snoc) (auto simp: nx1)
      moreover have "dom (mr_orders st2) = insert ?a (set ords)" using d l n by (auto simp: st2_def st1_def)
      ultimately show thesis using False e l n d fresh
        by (intro that [of st2]) (auto simp: st2_def st1_def order_mib_def)
    qed
    define st3 where "st3 = st2\<lparr>mr_order_end := Order ?a\<rparr>"
    have c: "or_nx st3 = or_nx st2" "order_mib st3 = order_mib st2" by (auto simp: or_nx_def order_mib_def st3_def fun_eq_iff)
    have m: "map (order_mib st2) (ords @ [?a]) = ms @ [mib]" using st2(4,5) o(2) by simp
    have "order_rep st3 (ords @ [?a])"
      unfolding order_rep_def c m using st2 b fresh dm False o(2) by (auto simp: st3_def)
    then have "order_list st3 (ms @ [mib])" unfolding order_list_def using m c by metis
    moreover have "add_mib_register_order st mib = Some st3"
      using False f st2(1) e by (simp add: add_mib_register_order_def st1_def st3_def)
    ultimately show ?thesis using False st2(7-9) by (auto simp: st3_def)
  qed
qed

lemma free_order_loop_path:
  "path (or_nx st) p ords None \<Longrightarrow> \<exists>st'. free_order_loop st p = Some st' \<and>
     mr_orders st' = (mr_orders st) |` (- set ords) \<and> mr_shash st' = mr_shash st \<and> mr_regs st' = mr_regs st \<and>
     mr_order_head st' = mr_order_head st"
proof (induction ords arbitrary: st p)
  case Nil
  then show ?case by (simp add: free_order_loop.simps)
next
  case (Cons x ords)
  have "x \<notin> set ords" using path_distinct [OF Cons.prems] by simp
  obtain n where n: "p = Some x" "mr_orders st x = Some n" "path (or_nx st) (or_next n) ords None" using Cons.prems by auto
  define st1 where "st1 = st\<lparr>mr_orders := (mr_orders st)(x := None)\<rparr>"
  have "or_nx st1 = (or_nx st)(x := None)" by (auto simp: or_nx_def st1_def fun_eq_iff)
  then have "path (or_nx st1) (or_next n) ords None" using n(3) \<open>x \<notin> set ords\<close> by simp
  from Cons.IH [OF this] obtain st' where "free_order_loop st1 (or_next n) = Some st'"
    "mr_orders st' = (mr_orders st1) |` (- set ords)" "mr_shash st' = mr_shash st1" "mr_regs st' = mr_regs st1"
    "mr_order_head st' = mr_order_head st1" by blast
  moreover have "((mr_orders st)(x := None)) |` (- set ords) = (mr_orders st) |` (- set (x # ords))"
    by (auto simp: restrict_map_def fun_eq_iff)
  ultimately show ?case using n(1,2) by (subst free_order_loop.simps) (simp add: st1_def)
qed

subsection \<open>The registry\<close>

text \<open>The description registered under a mib.\<close>

definition reg_view :: "mib_registry \<Rightarrow> u32 \<Rightarrow> mib_shash_reg option" where
  "reg_view st k = do { sh \<leftarrow> mr_shash st; p \<leftarrow> sh_lookup sh k; a \<leftarrow> p; mr_regs st a }"

text \<open>Every node of the table owns a description of its own, whose text ends inside its array.\<close>

definition reg_inv :: "mib_registry \<Rightarrow> u32 list \<Rightarrow> bool" where
  "reg_inv st ms \<longleftrightarrow> (\<exists>sh. mr_shash st = Some sh \<and> sh_wf sh \<and>
     (\<forall>k p. sh_lookup sh k = Some p \<longrightarrow> (\<exists>a r. p = Some a \<and> mr_regs st a = Some r \<and> NUL \<in> set (desc r))) \<and>
     (\<forall>k k' p. sh_lookup sh k = Some p \<longrightarrow> sh_lookup sh k' = Some p \<longrightarrow> k = k') \<and>
     (\<forall>k p. sh_lookup sh k = Some p \<longrightarrow> k \<in> set ms)) \<and>
   (\<forall>a \<in> dom (mr_regs st). a < mr_reg_brk st) \<and> order_list st ms"

lemma reg_invE:
  assumes "reg_inv st ms"
  obtains sh where "mr_shash st = Some sh" "sh_wf sh"
    "\<And>k p. sh_lookup sh k = Some p \<Longrightarrow> \<exists>a r. p = Some a \<and> mr_regs st a = Some r \<and> NUL \<in> set (desc r)"
    "\<And>k k' p. sh_lookup sh k = Some p \<Longrightarrow> sh_lookup sh k' = Some p \<Longrightarrow> k = k'"
    "\<And>k p. sh_lookup sh k = Some p \<Longrightarrow> k \<in> set ms"
    "\<And>a. a \<in> dom (mr_regs st) \<Longrightarrow> a < mr_reg_brk st" "order_list st ms"
  using assms unfolding reg_inv_def by (elim exE conjE) (rule that; blast)

lemma reg_inv_init:
  "\<exists>st'. ecos_mib_reg_init st brk = (0, st') \<and> mr_shash st' \<noteq> None \<and>
     (mr_orders st = Map.empty \<longrightarrow> mr_regs st = Map.empty \<longrightarrow> reg_inv st' [] \<and> reg_view st' = Map.empty)"
proof -
  have "\<exists>sh. ecos_shash32_create brk 64 = Some sh \<and> sh_wf sh \<and> sh_lookup sh k = None \<and> row_count sh = 64" for k
    by (rule create_wf) (simp_all add: SHASH_ROW_COUNT_MIN_def SHASH_ROW_COUNT_MAX_def)
  then obtain sh where sh: "ecos_shash32_create brk 64 = Some sh" "sh_wf sh" "\<And>k. sh_lookup sh k = None"
    by (metis option.inject)
  define st' where "st' = st\<lparr>mr_order_head := \<lparr>or_mib = 0, or_next = None\<rparr>, mr_order_end := Head, mr_shash := Some sh\<rparr>"
  have "ecos_mib_reg_init st brk = (0, st')"
    by (simp add: ecos_mib_reg_init_def MIB_SHASH_ROW_COUNT_def sh(1) st'_def Let_def)
  moreover have "order_list st' []" if "mr_orders st = Map.empty"
    unfolding order_list_def by (rule exI [of _ "[]"]) (use that in \<open>simp add: order_rep_def st'_def\<close>)
  ultimately show ?thesis using sh(2,3) by (auto simp: reg_inv_def reg_view_def st'_def fun_eq_iff)
qed

lemma ecos_mib_find_view:
  assumes "reg_inv st ms"
  shows "\<exists>p. ecos_mib_find st mib = Some p \<and> reg_view st mib = Option.bind p (mr_regs st) \<and>
    (p = None \<longleftrightarrow> reg_view st mib = None)"
proof -
  obtain sh where sh: "mr_shash st = Some sh" "sh_wf sh"
    and own: "\<And>k p. sh_lookup sh k = Some p \<Longrightarrow> \<exists>a r. p = Some a \<and> mr_regs st a = Some r \<and> NUL \<in> set (desc r)"
    using assms by (rule reg_invE) (rule that)
  obtain chn where "sh_rep sh chn" using sh(2) by (auto simp: sh_wf_def)
  then obtain r where r: "ecos_shash32_node_search sh mib = Some r" "\<And>a. r = Some a \<longleftrightarrow> a \<in> dom (sh_mem sh) \<and> sh_key sh a = mib"
    using search_rep by blast
  show ?thesis
  proof (cases r)
    case None
    then show ?thesis using r(1) sh(1) by (simp add: ecos_mib_find_def reg_view_def sh_lookup_def)
  next
    case (Some a)
    then obtain n where n: "sh_mem sh a = Some n" using r(2) by blast
    then have l: "sh_lookup sh mib = Some (nd_arg n)" using r(1) Some by (simp add: sh_lookup_def)
    then show ?thesis using own [OF l] n r(1) sh(1) Some by (auto simp: ecos_mib_find_def reg_view_def)
  qed
qed

subsubsection \<open>Search by description\<close>

lemma desc_row_path:
  assumes "path (sh_nx sh) p xs None"
    and "\<And>a. a \<in> set xs \<Longrightarrow> \<exists>q r. sh_arg sh a = Some q \<and> regs q = Some r \<and> NUL \<in> set (desc r)"
  shows "desc_row sh regs (d, p) =
    Some (map_option (\<lambda>a. the (sh_arg sh a)) (find (\<lambda>a. cstr (desc (the (regs (the (sh_arg sh a))))) = cstr d) xs))"
  using assms
proof (induction xs arbitrary: p)
  case Nil
  then show ?case by (simp add: desc_row.simps)
next
  case (Cons x xs)
  then obtain n where n: "p = Some x" "sh_mem sh x = Some n" "path (sh_nx sh) (nd_next n) xs None" by auto
  obtain q r where q: "nd_arg n = Some q" "regs q = Some r" "NUL \<in> set (desc r)" using Cons.prems(2) [of x] n(2) by auto
  have "strcmp_eq (desc r) d = Some (cstr (desc r) = cstr d)" using q(3) by (rule strcmp_eq_cstr)
  with Cons.IH [OF n(3)] Cons.prems(2) n q show ?case by (subst desc_row.simps) simp
qed

lemma find_by_desc_spec:
  assumes "reg_inv st ms"
  shows "\<exists>p. ecos_mib_find_by_desc st d = Some p \<and>
    (case p of None \<Rightarrow> \<forall>k r. reg_view st k = Some r \<longrightarrow> cstr (desc r) \<noteq> cstr d
     | Some a \<Rightarrow> \<exists>k r. ecos_mib_find st k = Some (Some a) \<and> reg_view st k = Some r \<and> mr_regs st a = Some r \<and> cstr (desc r) = cstr d)"
proof -
  obtain sh where sh: "mr_shash st = Some sh" "sh_wf sh"
    and own: "\<And>k p. sh_lookup sh k = Some p \<Longrightarrow> \<exists>a r. p = Some a \<and> mr_regs st a = Some r \<and> NUL \<in> set (desc r)"
    using assms by (rule reg_invE) (rule that)
  obtain chn where rep: "sh_rep sh chn" using sh(2) by (auto simp: sh_wf_def)
  let ?D = "\<lambda>a. cstr (desc (the (mr_regs st (the (sh_arg sh a)))))"
  have node: "\<exists>q r. sh_arg sh a = Some q \<and> mr_regs st q = Some r \<and> NUL \<in> set (desc r) \<and>
      sh_lookup sh (sh_key sh a) = Some (Some q) \<and> reg_view st (sh_key sh a) = Some r"
    if a: "a \<in> dom (sh_mem sh)" for a
  proof -
    have "sh_lookup sh (sh_key sh a) = Some (sh_arg sh a)" using sh_lookup_dom [OF rep] a by blast
    with own [OF this] show ?thesis using sh(1) by (auto simp: reg_view_def)
  qed
  have rows: "\<exists>p. desc_rows sh (mr_regs st) d is = Some p \<and>
      (case p of None \<Rightarrow> \<forall>a \<in> dom (sh_mem sh). row_index sh (sh_key sh a) \<in> set is \<longrightarrow> ?D a \<noteq> cstr d
       | Some q \<Rightarrow> \<exists>a \<in> dom (sh_mem sh). sh_arg sh a = Some q \<and> ?D a = cstr d)"
    if "\<forall>i \<in> set is. i < length (sh_node sh)" for "is"
    using that
  proof (induction "is")
    case (Cons i js)
    have pth: "path (sh_nx sh) (nd_next (sh_node sh ! i)) (chn i) None"
      and set_i: "set (chn i) = {a \<in> dom (sh_mem sh). row_index sh (sh_key sh a) = i}"
      using rep Cons.prems by (auto simp: sh_rep_def)
    have row: "desc_row sh (mr_regs st) (d, nd_next (sh_node sh ! i)) =
        Some (map_option (\<lambda>a. the (sh_arg sh a)) (find (\<lambda>a. ?D a = cstr d) (chn i)))"
      by (rule desc_row_path [OF pth]) (use node set_i in blast)
    obtain p where p: "desc_rows sh (mr_regs st) d js = Some p"
        "case p of None \<Rightarrow> \<forall>a \<in> dom (sh_mem sh). row_index sh (sh_key sh a) \<in> set js \<longrightarrow> ?D a \<noteq> cstr d
         | Some q \<Rightarrow> \<exists>a \<in> dom (sh_mem sh). sh_arg sh a = Some q \<and> ?D a = cstr d"
      using Cons.IH Cons.prems by auto
    show ?case
    proof (cases "find (\<lambda>a. ?D a = cstr d) (chn i)")
      case None
      then have "\<forall>a \<in> set (chn i). ?D a \<noteq> cstr d" by (auto simp: find_None_iff)
      then show ?thesis using None row p Cons.prems set_i by (cases p) auto
    next
      case (Some a)
      then have a: "a \<in> dom (sh_mem sh)" "?D a = cstr d" using set_i by (auto simp: find_Some_iff dest: nth_mem)
      obtain q where q: "sh_arg sh a = Some q" using node [OF a(1)] by blast
      have "\<exists>b \<in> dom (sh_mem sh). sh_arg sh b = Some q \<and> ?D b = cstr d" using a q by blast
      moreover have "desc_rows sh (mr_regs st) d (i # js) = Some (Some q)" using Some row q Cons.prems by simp
      ultimately show ?thesis by simp
    qed
  qed simp
  have all: "row_index sh k \<in> set [0..<unat (row_count sh)]" for k using row_index_less [OF rep, of k] rep by (simp add: sh_rep_def)
  obtain p where p: "desc_rows sh (mr_regs st) d [0..<unat (row_count sh)] = Some p"
      "case p of None \<Rightarrow> \<forall>a \<in> dom (sh_mem sh). row_index sh (sh_key sh a) \<in> set [0..<unat (row_count sh)] \<longrightarrow> ?D a \<noteq> cstr d
       | Some q \<Rightarrow> \<exists>a \<in> dom (sh_mem sh). sh_arg sh a = Some q \<and> ?D a = cstr d"
    using rows [of "[0..<unat (row_count sh)]"] rep by (auto simp: sh_rep_def)
  show ?thesis
  proof (cases p)
    case None
    have "cstr (desc r) \<noteq> cstr d" if v: "reg_view st k = Some r" for k r
    proof -
      obtain q where "sh_lookup sh k = Some (Some q)" "mr_regs st q = Some r"
        using v sh(1) by (auto simp: reg_view_def bind_Some_iff)
      then obtain a where "a \<in> dom (sh_mem sh)" "sh_arg sh a = Some q" unfolding sh_lookup_dom [OF rep] by blast
      moreover have "\<forall>a \<in> dom (sh_mem sh). ?D a \<noteq> cstr d" using p(2) None all by simp
      ultimately show ?thesis using \<open>mr_regs st q = Some r\<close> by (metis option.sel)
    qed
    then show ?thesis using p(1) None sh(1) by (simp add: ecos_mib_find_by_desc_def)
  next
    case (Some q)
    have "\<exists>a \<in> dom (sh_mem sh). sh_arg sh a = Some q \<and> ?D a = cstr d" using p(2) unfolding Some option.case .
    then obtain a where a: "a \<in> dom (sh_mem sh)" "sh_arg sh a = Some q" "?D a = cstr d" by blast
    then obtain r where r: "mr_regs st q = Some r" "sh_lookup sh (sh_key sh a) = Some (Some q)" "reg_view st (sh_key sh a) = Some r"
      using node [OF a(1)] by auto
    have "ecos_mib_find st (sh_key sh a) = Some (Some q)"
      using r(2) sh(1) by (auto simp: ecos_mib_find_def sh_lookup_def bind_Some_iff split: option.split)
    then show ?thesis using p(1) Some sh(1) a r by (auto simp: ecos_mib_find_by_desc_def)
  qed
qed

subsubsection \<open>Registering and unregistering\<close>

lemma sprintf_desc:
  assumes "length (cstr (ra_desc ra)) < 64"
  shows "sprintf_256 (''mib('' @ cstr (ra_desc ra) @ ''): desc was exist.'') \<noteq> None"
    "\<exists>s. do { d \<leftarrow> cstr_at (desc (reg_of raw ra)) 0; map_option (\<lambda>_. ()) (sprintf_256 (''mib('' @ d @ ''): must insert addr rule functions.'')) } = Some s"
  using assms strncpy_fits(3) [of "ra_desc ra" 64] by (simp_all add: sprintf_256_def reg_of_def)

lemma mib_register_spec:
  assumes "reg_inv st ms" "length (cstr (ra_desc ra)) < 64"
  shows "\<exists>st'. if reg_view st mib = None
    then ecos_mib_register st mib ra raw = Some (ECOS_REG_OK, st') \<and> reg_view st' = (reg_view st)(mib \<mapsto> reg_of raw ra) \<and>
      reg_inv st' (if mib \<in> set ms then ms else ms @ [mib])
    else ecos_mib_register st mib ra raw = Some (ECOS_REG_ERROR_MIB_USED, st') \<and> reg_view st' = reg_view st \<and> reg_inv st' ms"
proof -
  obtain sh where sh: "mr_shash st = Some sh" "sh_wf sh"
    and own: "\<And>k p. sh_lookup sh k = Some p \<Longrightarrow> \<exists>a r. p = Some a \<and> mr_regs st a = Some r \<and> NUL \<in> set (desc r)"
    and inj: "\<And>k k' p. sh_lookup sh k = Some p \<Longrightarrow> sh_lookup sh k' = Some p \<Longrightarrow> k = k'"
    and ord: "\<And>k p. sh_lookup sh k = Some p \<Longrightarrow> k \<in> set ms"
    and brk: "\<And>a. a \<in> dom (mr_regs st) \<Longrightarrow> a < mr_reg_brk st" and ol: "order_list st ms"
    using assms(1) by (rule reg_invE) (rule that)
  obtain chn where rep: "sh_rep sh chn" using sh(2) by (auto simp: sh_wf_def)
  let ?a = "mr_reg_brk st" and ?r = "reg_of raw ra"
  define st1 where "st1 = st\<lparr>mr_regs := (mr_regs st)(?a \<mapsto> ?r), mr_reg_brk := ?a + 1\<rparr>"
  have nul: "NUL \<in> set (desc ?r)" using strncpy_fits(1) [OF assms(2)] by (simp add: reg_of_def)
  have fresh: "p \<noteq> Some ?a" if "sh_lookup sh k = Some p" for k p using own [OF that] brk by (metis domI less_irrefl option.inject)
  have reg: "ecos_mib_register st mib ra raw = do {
      (r, sh) \<leftarrow> ecos_shash32_node_insert sh mib (Some ?a);
      (if r = None then Some (ECOS_REG_ERROR_MIB_USED, st1)
       else do { st \<leftarrow> add_mib_register_order (st1\<lparr>mr_shash := Some sh\<rparr>) mib; Some (ECOS_REG_OK, st) }) }"
  proof -
    obtain p where "ecos_mib_find_by_desc st (ra_desc ra) = Some p" using find_by_desc_spec [OF assms(1)] by blast
    moreover obtain x where "sprintf_256 (''mib('' @ cstr (ra_desc ra) @ ''): desc was exist.'') = Some x"
      using sprintf_desc(1) [OF assms(2)] by auto
    moreover obtain y where "do { d \<leftarrow> cstr_at (desc ?r) 0; map_option (\<lambda>_. ()) (sprintf_256 (''mib('' @ d @ ''): must insert addr rule functions.'')) } = Some y"
      using sprintf_desc(2) [OF assms(2)] by blast
    ultimately show ?thesis using sh(1) unfolding ecos_mib_register_def st1_def Let_def by (simp add: split_def)
  qed
  have look: "reg_view st mib = None \<longleftrightarrow> sh_lookup sh mib = None"
    using own [of mib] sh(1) by (cases "sh_lookup sh mib") (auto simp: reg_view_def)
  have view1: "Option.bind (sh_lookup sh k) (\<lambda>p. Option.bind p (mr_regs st1)) = reg_view st k" for k
    using own [of k] fresh [of k] sh(1) by (cases "sh_lookup sh k") (auto simp: reg_view_def st1_def split: if_splits)
  have brk1: "a < mr_reg_brk st1" if "a \<in> dom (mr_regs st1)" for a
    using that brk [of a] by (auto simp: st1_def split: if_splits intro: less_SucI)
  show ?thesis
  proof (cases "sh_lookup sh mib")
    case (Some p)
    have "ecos_mib_register st mib ra raw = Some (ECOS_REG_ERROR_MIB_USED, st1)"
      using insert_dup [OF sh(2), of mib "Some ?a"] Some by (simp add: reg)
    moreover have "mr_shash st1 = Some sh" using sh(1) by (simp add: st1_def)
    then have "reg_view st1 = reg_view st" using view1 by (simp add: reg_view_def [of st1] fun_eq_iff)
    moreover have "reg_inv st1 ms" unfolding reg_inv_def
    proof (intro conjI exI [of _ sh])
      show "\<forall>k p. sh_lookup sh k = Some p \<longrightarrow> (\<exists>a r. p = Some a \<and> mr_regs st1 a = Some r \<and> NUL \<in> set (desc r))"
        using own fresh by (fastforce simp: st1_def)
      show "order_list st1 ms" by (rule order_list_cong [OF ol]) (simp_all add: st1_def)
    qed (use sh inj ord brk1 in \<open>auto simp: st1_def\<close>)
    ultimately show ?thesis using Some look by auto
  next
    case None
    obtain sh' where sh': "ecos_shash32_node_insert sh mib (Some ?a) = Some (Some (sh_brk sh), sh')" "sh_wf sh'"
        "sh_lookup sh' = (sh_lookup sh)(mib \<mapsto> Some ?a)"
      using insert_rep [OF rep None, of "Some ?a"] by blast
    define st2 where "st2 = st1\<lparr>mr_shash := Some sh'\<rparr>"
    have "order_list st2 ms" by (rule order_list_cong [OF ol]) (simp_all add: st2_def st1_def)
    then obtain st3 where st3: "add_mib_register_order st2 mib = Some st3" "order_list st3 (if mib \<in> set ms then ms else ms @ [mib])"
        "mr_shash st3 = Some sh'" "mr_regs st3 = mr_regs st1" "mr_reg_brk st3 = mr_reg_brk st1"
      using add_order_spec [of st2 ms mib] by (auto simp: st2_def)
    have "ecos_mib_register st mib ra raw = Some (ECOS_REG_OK, st3)" using sh'(1) st3(1) by (simp add: reg st2_def)
    moreover have "reg_view st3 = (reg_view st)(mib \<mapsto> ?r)"
      using view1 by (auto simp: reg_view_def st3 sh'(3) fun_eq_iff) (simp_all add: st1_def)
    moreover have "reg_inv st3 (if mib \<in> set ms then ms else ms @ [mib])" unfolding reg_inv_def
    proof (intro conjI exI [of _ sh'])
      show "\<forall>k p. sh_lookup sh' k = Some p \<longrightarrow> (\<exists>a r. p = Some a \<and> mr_regs st3 a = Some r \<and> NUL \<in> set (desc r))"
      proof (intro allI impI)
        fix k p assume "sh_lookup sh' k = Some p"
        then have "p = Some ?a \<or> sh_lookup sh k = Some p" by (simp add: sh'(3) split: if_splits)
        then show "\<exists>a r. p = Some a \<and> mr_regs st3 a = Some r \<and> NUL \<in> set (desc r)"
        proof
          assume "p = Some ?a"
          then show ?thesis using nul by (simp add: st3 st1_def)
        next
          assume 2: "sh_lookup sh k = Some p"
          obtain a r where "p = Some a" "mr_regs st a = Some r" "NUL \<in> set (desc r)" using own [OF 2] by blast
          then show ?thesis using fresh [OF 2] by (simp add: st3 st1_def)
        qed
      qed
      show "\<forall>k k' p. sh_lookup sh' k = Some p \<longrightarrow> sh_lookup sh' k' = Some p \<longrightarrow> k = k'"
      proof -
        have "sh_lookup sh k \<noteq> Some (Some ?a)" for k using fresh by blast
        then show ?thesis using inj by (auto simp: sh'(3) split: if_splits)
      qed
      show "\<forall>k p. sh_lookup sh' k = Some p \<longrightarrow> k \<in> set (if mib \<in> set ms then ms else ms @ [mib])"
        using ord by (auto simp: sh'(3) split: if_splits)
    qed (use sh'(2) st3 brk1 in auto)
    ultimately show ?thesis using None look by auto
  qed
qed

lemma unregister_spec:
  assumes "reg_inv st ms"
  shows "\<exists>st'. ecos_mib_unregister st mib = Some st' \<and> reg_view st' = (reg_view st)(mib := None) \<and> reg_inv st' ms"
proof -
  obtain sh where sh: "mr_shash st = Some sh" "sh_wf sh"
    and own: "\<And>k p. sh_lookup sh k = Some p \<Longrightarrow> \<exists>a r. p = Some a \<and> mr_regs st a = Some r \<and> NUL \<in> set (desc r)"
    and inj: "\<And>k k' p. sh_lookup sh k = Some p \<Longrightarrow> sh_lookup sh k' = Some p \<Longrightarrow> k = k'"
    and ord: "\<And>k p. sh_lookup sh k = Some p \<Longrightarrow> k \<in> set ms"
    and brk: "\<And>a. a \<in> dom (mr_regs st) \<Longrightarrow> a < mr_reg_brk st" and ol: "order_list st ms"
    using assms(1) by (rule reg_invE) (rule that)
  obtain chn where rep: "sh_rep sh chn" using sh(2) by (auto simp: sh_wf_def)
  obtain r where r: "ecos_shash32_node_search sh mib = Some r" "\<And>a. r = Some a \<longleftrightarrow> a \<in> dom (sh_mem sh) \<and> sh_key sh a = mib"
    using search_rep [OF rep] by blast
  show ?thesis
  proof (cases r)
    case None
    then have "reg_view st mib = None" using r(1) sh(1) by (simp add: reg_view_def sh_lookup_def)
    then show ?thesis using None r(1) sh(1) assms by (auto simp: ecos_mib_unregister_def)
  next
    case (Some a)
    then obtain n where n: "sh_mem sh a = Some n" using r(2) by blast
    then have l: "sh_lookup sh mib = Some (nd_arg n)" using r(1) Some by (simp add: sh_lookup_def)
    obtain q x where q: "nd_arg n = Some q" "mr_regs st q = Some x" using own [OF l] by blast
    obtain sh' where sh': "ecos_shash32_node_remove sh mib = Some sh'" "sh_wf sh'" "sh_lookup sh' = (sh_lookup sh)(mib := None)"
      using remove_rep [OF rep, of mib] by blast
    define st' where "st' = st\<lparr>mr_shash := Some sh', mr_regs := (mr_regs st)(q := None)\<rparr>"
    have other: "p \<noteq> Some q" if "sh_lookup sh k = Some p" "k \<noteq> mib" for k p using inj [of k p mib] l q(1) that by auto
    have "ecos_mib_unregister st mib = Some st'"
      using sh(1) r(1) Some n q sh'(1) by (simp add: ecos_mib_unregister_def st'_def)
    moreover have "reg_view st' k = ((reg_view st)(mib := None)) k" for k
      using sh(1) own [of k] other [of k] by (cases "sh_lookup sh k") (auto simp: reg_view_def st'_def sh'(3))
    moreover have "reg_inv st' ms" unfolding reg_inv_def
    proof (intro conjI exI [of _ sh'])
      show "\<forall>k p. sh_lookup sh' k = Some p \<longrightarrow> (\<exists>a r. p = Some a \<and> mr_regs st' a = Some r \<and> NUL \<in> set (desc r))"
        using own other by (fastforce simp: st'_def sh'(3) split: if_splits)
      show "order_list st' ms" by (rule order_list_cong [OF ol]) (simp_all add: st'_def)
    qed (use sh'(2) inj ord brk in \<open>auto simp: st'_def sh'(3) split: if_splits\<close>)
    ultimately show ?thesis by (auto simp: fun_eq_iff)
  qed
qed

subsubsection \<open>Freeing the registry\<close>

lemma free_args_row_path:
  assumes "path (sh_nx sh) p xs None" "inj_on (sh_arg sh) (set xs)"
    and "\<And>a. a \<in> set xs \<Longrightarrow> \<exists>q. sh_arg sh a = Some q \<and> q \<in> dom regs"
  shows "free_args_row sh p regs = Some (regs |` (- {q. \<exists>a \<in> set xs. sh_arg sh a = Some q}))"
  using assms
proof (induction xs arbitrary: p regs)
  case Nil
  then show ?case by (simp add: free_args_row.simps)
next
  case (Cons x xs)
  then obtain n where n: "p = Some x" "sh_mem sh x = Some n" "path (sh_nx sh) (nd_next n) xs None" by auto
  obtain q where q: "nd_arg n = Some q" "q \<in> dom regs" using Cons.prems(3) [of x] n(2) by auto
  have x: "x \<notin> set xs" using path_distinct [OF Cons.prems(1)] by simp
  have ne: "sh_arg sh a \<noteq> Some q" if "a \<in> set xs" for a
    using inj_onD [OF Cons.prems(2), of a x] that x n(2) q(1) by auto
  have "free_args_row sh (nd_next n) (regs(q := None)) =
      Some ((regs(q := None)) |` (- {q. \<exists>a \<in> set xs. sh_arg sh a = Some q}))"
  proof (rule Cons.IH [OF n(3)])
    show "inj_on (sh_arg sh) (set xs)" using Cons.prems(2) by (simp add: inj_on_def)
    show "\<exists>q'. sh_arg sh a = Some q' \<and> q' \<in> dom (regs(q := None))" if "a \<in> set xs" for a
      using Cons.prems(3) [of a] ne [OF that] that by auto
  qed
  moreover have "(regs(q := None)) |` (- {q. \<exists>a \<in> set xs. sh_arg sh a = Some q}) =
      regs |` (- {q. \<exists>a \<in> set (x # xs). sh_arg sh a = Some q})"
    using n(2) q(1) by (auto simp: restrict_map_def fun_eq_iff)
  ultimately show ?case using n(1,2) q by (subst free_args_row.simps) auto
qed

lemma free_args_rows_spec:
  assumes "sh_rep sh chn" "inj_on (sh_arg sh) (dom (sh_mem sh))" "\<forall>i \<in> set is. i < length (sh_node sh)" "distinct is"
    and "\<And>a. a \<in> dom (sh_mem sh) \<Longrightarrow> row_index sh (sh_key sh a) \<in> set is \<Longrightarrow> \<exists>q. sh_arg sh a = Some q \<and> q \<in> dom regs"
  shows "free_args_rows sh is regs =
    Some (regs |` (- {q. \<exists>a \<in> dom (sh_mem sh). row_index sh (sh_key sh a) \<in> set is \<and> sh_arg sh a = Some q}))"
  using assms(3-5)
proof (induction "is" arbitrary: regs)
  case (Cons i js)
  have pth: "path (sh_nx sh) (nd_next (sh_node sh ! i)) (chn i) None"
    and set_i: "set (chn i) = {a \<in> dom (sh_mem sh). row_index sh (sh_key sh a) = i}"
    using assms(1) Cons.prems(1) by (auto simp: sh_rep_def)
  let ?R = "regs |` (- {q. \<exists>a \<in> set (chn i). sh_arg sh a = Some q})"
  have "free_args_row sh (nd_next (sh_node sh ! i)) regs = Some ?R"
  proof (rule free_args_row_path [OF pth])
    show "inj_on (sh_arg sh) (set (chn i))" by (rule inj_on_subset [OF assms(2)]) (auto simp: set_i)
    show "\<exists>q. sh_arg sh a = Some q \<and> q \<in> dom regs" if "a \<in> set (chn i)" for a using Cons.prems(3) [of a] that set_i by auto
  qed
  moreover have "free_args_rows sh js ?R =
      Some (?R |` (- {q. \<exists>a \<in> dom (sh_mem sh). row_index sh (sh_key sh a) \<in> set js \<and> sh_arg sh a = Some q}))"
  proof (rule Cons.IH)
    fix a assume a: "a \<in> dom (sh_mem sh)" "row_index sh (sh_key sh a) \<in> set js"
    obtain q where q: "sh_arg sh a = Some q" "q \<in> dom regs" using Cons.prems(3) [of a] a by auto
    have "sh_arg sh b \<noteq> Some q" if "b \<in> set (chn i)" for b
    proof
      assume "sh_arg sh b = Some q"
      then have "b = a" using inj_onD [OF assms(2), of b a] that a(1) q(1) set_i by auto
      then show False using that a(2) Cons.prems(2) set_i by auto
    qed
    with q show "\<exists>q. sh_arg sh a = Some q \<and> q \<in> dom ?R" by (auto simp: dom_def restrict_map_def)
  qed (use Cons.prems in auto)
  moreover have "?R |` (- {q. \<exists>a \<in> dom (sh_mem sh). row_index sh (sh_key sh a) \<in> set js \<and> sh_arg sh a = Some q}) =
      regs |` (- {q. \<exists>a \<in> dom (sh_mem sh). row_index sh (sh_key sh a) \<in> set (i # js) \<and> sh_arg sh a = Some q})"
    unfolding restrict_restrict set_i by (rule arg_cong [where f = "\<lambda>A. regs |` A"]) auto
  ultimately show ?case using Cons.prems(1) by simp
qed (simp add: restrict_map_def)

lemma reg_free_spec:
  assumes "reg_inv st ms"
  shows "\<exists>st'. ecos_mib_reg_free st = Some st' \<and> mr_shash st' = None \<and> mr_orders st' = Map.empty \<and>
    mr_regs st' = mr_regs st |` (- {q. \<exists>k. ecos_mib_find st k = Some (Some q)})"
proof -
  obtain sh where sh: "mr_shash st = Some sh" "sh_wf sh"
    and own: "\<And>k p. sh_lookup sh k = Some p \<Longrightarrow> \<exists>a r. p = Some a \<and> mr_regs st a = Some r \<and> NUL \<in> set (desc r)"
    and inj: "\<And>k k' p. sh_lookup sh k = Some p \<Longrightarrow> sh_lookup sh k' = Some p \<Longrightarrow> k = k'"
    and ol: "order_list st ms" using assms(1) by (rule reg_invE) (rule that)
  obtain chn where rep: "sh_rep sh chn" using sh(2) by (auto simp: sh_wf_def)
  obtain ords where o: "order_rep st ords" using ol by (auto simp: order_list_def)
  then obtain st1 where st1: "free_order_loop st (or_next (mr_order_head st)) = Some st1" "mr_orders st1 = mr_orders st |` (- set ords)"
      "mr_shash st1 = mr_shash st" "mr_regs st1 = mr_regs st" "mr_order_head st1 = mr_order_head st"
    using free_order_loop_path [of st "or_next (mr_order_head st)" ords] by (auto simp: order_rep_def)
  have "mr_orders st1 = Map.empty" using o st1(2) by (auto simp: order_rep_def restrict_map_def fun_eq_iff dom_def)
  have lk: "sh_lookup sh (sh_key sh a) = Some (sh_arg sh a)" if "a \<in> dom (sh_mem sh)" for a using that sh_lookup_dom [OF rep] by blast
  have key_inj: "inj_on (sh_key sh) (dom (sh_mem sh))" using rep by (simp add: sh_rep_def)
  have arg_inj: "inj_on (sh_arg sh) (dom (sh_mem sh))"
  proof (rule inj_onI)
    fix a b assume ab: "a \<in> dom (sh_mem sh)" "b \<in> dom (sh_mem sh)" "sh_arg sh a = sh_arg sh b"
    then have "sh_key sh a = sh_key sh b" using inj lk [of a] lk [of b] by metis
    then show "a = b" using inj_onD [OF key_inj] ab by blast
  qed
  have all: "row_index sh k \<in> set [0..<unat (row_count sh)]" for k using row_index_less [OF rep, of k] rep by (simp add: sh_rep_def)
  have "free_args_rows sh [0..<unat (row_count sh)] (mr_regs st) =
      Some (mr_regs st |` (- {q. \<exists>a \<in> dom (sh_mem sh). row_index sh (sh_key sh a) \<in> set [0..<unat (row_count sh)] \<and> sh_arg sh a = Some q}))"
    using free_args_rows_spec [OF rep arg_inj, of "[0..<unat (row_count sh)]" "mr_regs st"] own lk rep
    by (fastforce simp: sh_rep_def)
  moreover have "(\<exists>a \<in> dom (sh_mem sh). row_index sh (sh_key sh a) \<in> set [0..<unat (row_count sh)] \<and> sh_arg sh a = Some q) \<longleftrightarrow>
      (\<exists>k. ecos_mib_find st k = Some (Some q))" for q
  proof -
    have "ecos_mib_find st k = Some (Some q) \<longleftrightarrow> sh_lookup sh k = Some (Some q)" for k
      using sh(1) by (auto simp: ecos_mib_find_def sh_lookup_def bind_Some_iff split: option.splits)
    then show ?thesis unfolding sh_lookup_dom [OF rep] using all by blast
  qed
  ultimately show ?thesis
    using st1 sh \<open>mr_orders st1 = Map.empty\<close> destory_frees_all [OF sh(2)]
    by (simp add: ecos_mib_reg_free_def free_mib_register_order_def)
qed

subsubsection \<open>Descriptions without a terminating zero byte\<close>



subsection \<open>Properties\<close>

text \<open>A run of registrations and their abstract effect: a map from mibs to descriptions and the order of first
  registration.\<close>

datatype reg_op = Register u32 reg_args mib_shash_reg | Unregister u32

fun reg_step :: "reg_op \<Rightarrow> mib_registry \<Rightarrow> (int \<times> mib_registry) option" where
  "reg_step (Register mib ra raw) st = ecos_mib_register st mib ra raw"
| "reg_step (Unregister mib) st = map_option (\<lambda>st'. (ECOS_REG_OK, st')) (ecos_mib_unregister st mib)"

fun reg_spec :: "reg_op \<Rightarrow> (u32 \<rightharpoonup> mib_shash_reg) \<times> u32 list \<Rightarrow> int \<times> (u32 \<rightharpoonup> mib_shash_reg) \<times> u32 list" where
  "reg_spec (Register mib ra raw) (m, ms) =
     (if m mib = None then (ECOS_REG_OK, m(mib \<mapsto> reg_of raw ra), if mib \<in> set ms then ms else ms @ [mib])
      else (ECOS_REG_ERROR_MIB_USED, m, ms))"
| "reg_spec (Unregister mib) (m, ms) = (ECOS_REG_OK, m(mib := None), ms)"

fun reg_run :: "reg_op list \<Rightarrow> mib_registry \<Rightarrow> (int list \<times> mib_registry) option" where
  "reg_run [] st = Some ([], st)"
| "reg_run (x # xs) st = do { (c, st) \<leftarrow> reg_step x st; (cs, st) \<leftarrow> reg_run xs st; Some (c # cs, st) }"

fun reg_spec_run :: "reg_op list \<Rightarrow> (u32 \<rightharpoonup> mib_shash_reg) \<times> u32 list \<Rightarrow> int list \<times> (u32 \<rightharpoonup> mib_shash_reg) \<times> u32 list" where
  "reg_spec_run [] s = ([], s)"
| "reg_spec_run (x # xs) s = (let (c, s) = reg_spec x s; (cs, s) = reg_spec_run xs s in (c # cs, s))"

definition desc_fits :: "reg_op \<Rightarrow> bool" where
  "desc_fits x = (case x of Register mib ra raw \<Rightarrow> length (cstr (ra_desc ra)) < 64 | Unregister mib \<Rightarrow> True)"

lemma reg_step_spec:
  assumes "reg_inv st ms" "desc_fits x"
  shows "\<exists>st' ms'. reg_step x st = Some (fst (reg_spec x (reg_view st, ms)), st') \<and>
    snd (reg_spec x (reg_view st, ms)) = (reg_view st', ms') \<and> reg_inv st' ms'"
proof (cases x)
  case (Register mib ra raw)
  then have "length (cstr (ra_desc ra)) < 64" using assms(2) by (simp add: desc_fits_def)
  from mib_register_spec [OF assms(1) this, of mib raw] Register show ?thesis by (auto split: if_splits)
next
  case (Unregister mib)
  from unregister_spec [OF assms(1), of mib] Unregister show ?thesis by auto
qed

lemma reg_run_spec:
  assumes "reg_inv st ms" "list_all desc_fits xs"
  shows "\<exists>st' ms'. reg_run xs st = Some (fst (reg_spec_run xs (reg_view st, ms)), st') \<and>
    snd (reg_spec_run xs (reg_view st, ms)) = (reg_view st', ms') \<and> reg_inv st' ms'"
  using assms
proof (induction xs arbitrary: st ms)
  case (Cons x xs)
  obtain st1 ms1 where 1: "reg_step x st = Some (fst (reg_spec x (reg_view st, ms)), st1)"
      "snd (reg_spec x (reg_view st, ms)) = (reg_view st1, ms1)" "reg_inv st1 ms1"
    using reg_step_spec [OF Cons.prems(1), of x] Cons.prems(2) by auto
  obtain st' ms' where 2: "reg_run xs st1 = Some (fst (reg_spec_run xs (reg_view st1, ms1)), st')"
      "snd (reg_spec_run xs (reg_view st1, ms1)) = (reg_view st', ms')" "reg_inv st' ms'"
    using Cons.IH [OF 1(3)] Cons.prems(2) by auto
  have "reg_spec_run (x # xs) (reg_view st, ms) =
      (fst (reg_spec x (reg_view st, ms)) # fst (reg_spec_run xs (reg_view st1, ms1)), reg_view st', ms')"
    by (simp add: split_def Let_def 1(2) 2(2))
  then show ?case using 1(1) 2 by simp
qed auto

text \<open>A registry in which nothing is allocated.\<close>

definition blank_registry :: mib_registry where
  "blank_registry = \<lparr>mr_shash = None, mr_regs = Map.empty, mr_reg_brk = 0, mr_order_head = \<lparr>or_mib = 0, or_next = None\<rparr>,
     mr_orders = Map.empty, mr_order_brk = 0, mr_order_end = Head\<rparr>"

text \<open>C26: from ecos_mib_reg_init on, every sequence of registrations and unregistrations with descriptions shorter than
  64 characters runs without touching memory that is not allocated; the codes returned, the description found under
  each mib and the order list are those of a map and a list in which a mib is registered at most once, unregistering
  forgets it, and the list holds each mib at the place of its first registration.\<close>

theorem mib_registry_refines:
  assumes "list_all desc_fits xs"
  shows "\<exists>st' ms'. reg_run xs (snd (ecos_mib_reg_init blank_registry brk)) = Some (fst (reg_spec_run xs (Map.empty, [])), st') \<and>
    snd (reg_spec_run xs (Map.empty, [])) = (reg_view st', ms') \<and> order_list st' ms' \<and>
    (\<forall>mib. \<exists>p. ecos_mib_find st' mib = Some p \<and> Option.bind p (mr_regs st') = reg_view st' mib)"
proof -
  obtain st where st: "ecos_mib_reg_init blank_registry brk = (0, st)" "reg_inv st []" "reg_view st = Map.empty"
    using reg_inv_init [of blank_registry brk] by (auto simp: blank_registry_def)
  obtain st' ms' where r: "reg_run xs st = Some (fst (reg_spec_run xs (reg_view st, [])), st')"
      "snd (reg_spec_run xs (reg_view st, [])) = (reg_view st', ms')" "reg_inv st' ms'"
    using reg_run_spec [OF st(2) assms] by blast
  have "\<exists>p. ecos_mib_find st' mib = Some p \<and> Option.bind p (mr_regs st') = reg_view st' mib" for mib
    using ecos_mib_find_view [OF r(3), of mib] by metis
  moreover have "order_list st' ms'" using r(3) by (simp add: reg_inv_def)
  ultimately show ?thesis using r(1,2) st(1,3) by (intro exI [of _ st'] exI [of _ ms']) simp
qed

definition sample_args :: reg_args where
  "sample_args = \<lparr>ra_desc = ''net.ip'', ra_type = 0, ra_base_addr = Some 4, ra_base_size = 4, ra_parser_fn = Some 1, ra_rule_fn = Some 2,
     ra_save_fn = None, ra_load_fn = None, ra_permission = 1, ra_ext_flag = 0\<rparr>"

definition sample_raw :: mib_shash_reg where
  "sample_raw = \<lparr>desc = replicate 64 (CHR 0xAA), reg_type = 0, base_addr = None, base_size = 0, parser_fn = None, rule_fn = None,
     permission = 0, ext_flag = 0, save_fn = None, load_fn = None\<rparr>"

theorem mib_registry_refines_witness:
  "\<exists>st' ms'. reg_run [Register 7 sample_args sample_raw, Register 7 sample_args sample_raw, Unregister 7]
      (snd (ecos_mib_reg_init blank_registry 0)) = Some ([ECOS_REG_OK, ECOS_REG_ERROR_MIB_USED, ECOS_REG_OK], st') \<and> order_list st' ms' \<and> ms' = [7]"
proof -
  have "list_all desc_fits [Register 7 sample_args sample_raw, Register 7 sample_args sample_raw, Unregister 7]"
    by (simp add: desc_fits_def sample_args_def cstr_def)
  from mib_registry_refines [OF this, of 0] show ?thesis by (auto simp: Let_def)
qed

text \<open>C31: freeing the registry after such a sequence releases the hash table with all its nodes, the order list, and the
  description registered under each mib.\<close>

theorem mib_registry_free:
  assumes "list_all desc_fits xs" "reg_run xs (snd (ecos_mib_reg_init blank_registry brk)) = Some (cs, st)"
  shows "\<exists>st'. ecos_mib_reg_free st = Some st' \<and> mr_shash st' = None \<and> mr_orders st' = Map.empty \<and>
    (\<forall>mib a. ecos_mib_find st mib = Some (Some a) \<longrightarrow> mr_regs st a \<noteq> None \<and> mr_regs st' a = None) \<and>
    (\<forall>a. (\<forall>mib. ecos_mib_find st mib \<noteq> Some (Some a)) \<longrightarrow> mr_regs st' a = mr_regs st a)"
proof -
  obtain st0 where st0: "ecos_mib_reg_init blank_registry brk = (0, st0)" "reg_inv st0 []" "reg_view st0 = Map.empty"
    using reg_inv_init [of blank_registry brk] by (auto simp: blank_registry_def)
  obtain ms where inv: "reg_inv st ms" using reg_run_spec [OF st0(2) assms(1)] assms(2) st0(1) by auto
  obtain st' where st': "ecos_mib_reg_free st = Some st'" "mr_shash st' = None" "mr_orders st' = Map.empty"
      "mr_regs st' = mr_regs st |` (- {q. \<exists>k. ecos_mib_find st k = Some (Some q)})"
    using reg_free_spec [OF inv] by blast
  have "mr_regs st a \<noteq> None" if "ecos_mib_find st mib = Some (Some a)" for mib a
    using ecos_mib_find_view [OF inv, of mib] that by (auto dest: sym)
  then show ?thesis using st' by (auto simp: restrict_map_def)
qed

theorem mib_registry_free_witness:
  "\<exists>st st'. reg_run [Register 7 sample_args sample_raw] (snd (ecos_mib_reg_init blank_registry 0)) = Some ([ECOS_REG_OK], st) \<and>
     ecos_mib_reg_free st = Some st' \<and> mr_orders st' = Map.empty"
proof -
  have d: "list_all desc_fits [Register 7 sample_args sample_raw]" by (simp add: desc_fits_def sample_args_def cstr_def)
  obtain st where st: "reg_run [Register 7 sample_args sample_raw] (snd (ecos_mib_reg_init blank_registry 0)) = Some ([ECOS_REG_OK], st)"
    using reg_run_spec [of "snd (ecos_mib_reg_init blank_registry 0)" "[]" "[Register 7 sample_args sample_raw]"]
      reg_inv_init [of blank_registry 0] d by (auto simp: blank_registry_def Let_def)
  from mib_registry_free [OF d st] st show ?thesis by blast
qed



end
