(* ===== verification/Ecos_Timer.thy ===== *)
theory Ecos_Timer
  imports C_String
begin

text \<open>
  The timer list of \<^verbatim>\<open>041_ecos_mib/apps/ecos/ecos_timer.c\<close>: a doubly linked list of at most 64 timers, each known by
  a handle, and the loop that runs the timers that are due.  The uptime that \<open>sysinfo\<close> reports is an argument of the
  operations; the functions that timers call are arguments of the loop, state transformers that may use the timer
  functions themselves (the loop is not run again from inside a timer function).  \<open>None\<close> is an access to a timer that
  is not allocated.  Intervals, counts and times are integers: a count would have to pass the smallest \<open>int\<close> to wrap.
\<close>

subsection \<open>Data\<close>

record ecos_timer =
  hnd :: int
  timer_desc :: string
  func :: ptr
  p_args :: ptr
  interval :: int
  count :: int
  last_time :: int
  suspend :: bool
  tm_prev :: ptr
  tm_next :: ptr

record timer_list =
  tl_head :: ptr
  tl_tail :: ptr
  tl_mem :: "addr \<rightharpoonup> ecos_timer"
  tl_brk :: addr

definition ECOS_TIMER_FUNCTION_HANDLE_BEGIN :: int where "ECOS_TIMER_FUNCTION_HANDLE_BEGIN = 0x1097C"
definition ECOS_TIMER_FUNCTION_MAX_TIMER_NUM :: int where "ECOS_TIMER_FUNCTION_MAX_TIMER_NUM = 64"
definition ECOS_TIMER_FUNCTION_HANDLE_INVALID :: int where "ECOS_TIMER_FUNCTION_HANDLE_INVALID = -1"
definition ECOS_TIMER_FUNCTION_COUNT_FOREVER :: int where "ECOS_TIMER_FUNCTION_COUNT_FOREVER = -1"

subsection \<open>Operations\<close>

partial_function (option) timer_find :: "timer_list \<Rightarrow> int \<Rightarrow> ptr \<Rightarrow> ptr option" where
  "timer_find st h p =
     (case p of
        None \<Rightarrow> Some None
      | Some a \<Rightarrow> do { t \<leftarrow> tl_mem st a; (if hnd t = h then Some (Some a) else timer_find st h (tm_next t)) })"

definition get_timerlist_ptr_by_handle :: "timer_list \<Rightarrow> int \<Rightarrow> ptr option" where
  "get_timerlist_ptr_by_handle st h = timer_find st h (tl_head st)"

fun unused_handle :: "timer_list \<Rightarrow> int \<Rightarrow> nat \<Rightarrow> int option" where
  "unused_handle st h 0 = Some ECOS_TIMER_FUNCTION_HANDLE_INVALID"
| "unused_handle st h (Suc n) = do {
     p \<leftarrow> get_timerlist_ptr_by_handle st h;
     (if p = None then Some h else unused_handle st (h + 1) n) }"

definition get_unused_handle_id :: "timer_list \<Rightarrow> int option" where
  "get_unused_handle_id st = unused_handle st ECOS_TIMER_FUNCTION_HANDLE_BEGIN (nat ECOS_TIMER_FUNCTION_MAX_TIMER_NUM)"

definition timer_upd :: "timer_list \<Rightarrow> addr \<Rightarrow> (ecos_timer \<Rightarrow> ecos_timer) \<Rightarrow> timer_list option" where
  "timer_upd st a f = do { t \<leftarrow> tl_mem st a; Some (st\<lparr>tl_mem := (tl_mem st)(a \<mapsto> f t)\<rparr>) }"

definition ecos_timer_function_add ::
  "int \<Rightarrow> timer_list \<Rightarrow> string \<Rightarrow> ptr \<Rightarrow> ptr \<Rightarrow> int \<Rightarrow> int \<Rightarrow> (int \<times> timer_list) option" where
  "ecos_timer_function_add uptime st description fn args iv cnt = do {
     h \<leftarrow> get_unused_handle_id st;
     (if h = ECOS_TIMER_FUNCTION_HANDLE_INVALID then Some (ECOS_TIMER_FUNCTION_HANDLE_INVALID, st)
      else do {
        let a = tl_brk st;
        let t = \<lparr>hnd = h, timer_desc = strncpy 128 description, func = fn, p_args = args, interval = iv, count = cnt,
                 last_time = uptime, suspend = False, tm_prev = tl_tail st, tm_next = None\<rparr>;
        let st = st\<lparr>tl_mem := (tl_mem st)(a \<mapsto> t), tl_brk := a + 1\<rparr>;
        st \<leftarrow> (case tl_tail st of
           None \<Rightarrow> Some (st\<lparr>tl_head := Some a, tl_tail := Some a\<rparr>)
         | Some l \<Rightarrow> do { st \<leftarrow> timer_upd st l (\<lambda>t. t\<lparr>tm_next := Some a\<rparr>); Some (st\<lparr>tl_tail := Some a\<rparr>) });
        Some (h, st) }) }"

definition free_timer :: "timer_list \<Rightarrow> addr \<Rightarrow> timer_list" where
  "free_timer st a = st\<lparr>tl_mem := (tl_mem st)(a := None)\<rparr>"

definition ecos_timer_function_del :: "timer_list \<Rightarrow> int \<Rightarrow> (bool \<times> timer_list) option" where
  "ecos_timer_function_del st h = do {
     p_timer \<leftarrow> get_timerlist_ptr_by_handle st h;
     (case p_timer of
        None \<Rightarrow> Some (False, st)
      | Some a \<Rightarrow> do {
          t \<leftarrow> tl_mem st a;
          st \<leftarrow>
            (if tl_head st = tl_tail st then Some (st\<lparr>tl_head := None, tl_tail := None\<rparr>)
             else if p_timer = tl_head st then do {
               n \<leftarrow> tm_next t;
               st \<leftarrow> timer_upd st n (\<lambda>t. t\<lparr>tm_prev := None\<rparr>);
               Some (st\<lparr>tl_head := Some n\<rparr>) }
             else if p_timer = tl_tail st then do {
               p \<leftarrow> tm_prev t;
               st \<leftarrow> timer_upd st p (\<lambda>t. t\<lparr>tm_next := None\<rparr>);
               Some (st\<lparr>tl_tail := Some p\<rparr>) }
             else do {
               p \<leftarrow> tm_prev t;
               st \<leftarrow> timer_upd st p (\<lambda>s. s\<lparr>tm_next := tm_next t\<rparr>);
               t \<leftarrow> tl_mem st a;
               n \<leftarrow> tm_next t;
               timer_upd st n (\<lambda>s. s\<lparr>tm_prev := tm_prev t\<rparr>) });
          Some (True, free_timer st a) }) }"

definition timer_change :: "timer_list \<Rightarrow> int \<Rightarrow> (ecos_timer \<Rightarrow> ecos_timer) \<Rightarrow> (bool \<times> timer_list) option" where
  "timer_change st h f = do {
     p_timer \<leftarrow> get_timerlist_ptr_by_handle st h;
     (case p_timer of
        None \<Rightarrow> Some (False, st)
      | Some a \<Rightarrow> do { st \<leftarrow> timer_upd st a f; Some (True, st) }) }"

definition ecos_timer_function_set ::
  "int \<Rightarrow> timer_list \<Rightarrow> int \<Rightarrow> ptr \<Rightarrow> ptr \<Rightarrow> int \<Rightarrow> int \<Rightarrow> (bool \<times> timer_list) option" where
  "ecos_timer_function_set uptime st h fn args iv cnt =
     timer_change st h (\<lambda>t. t\<lparr>func := fn, p_args := args, interval := iv, count := cnt, last_time := uptime\<rparr>)"

definition ecos_timer_function_suspend :: "timer_list \<Rightarrow> int \<Rightarrow> (bool \<times> timer_list) option" where
  "ecos_timer_function_suspend st h = timer_change st h (\<lambda>t. t\<lparr>suspend := True\<rparr>)"

definition ecos_timer_function_resume :: "int \<Rightarrow> timer_list \<Rightarrow> int \<Rightarrow> (bool \<times> timer_list) option" where
  "ecos_timer_function_resume uptime st h = timer_change st h (\<lambda>t. t\<lparr>suspend := False, last_time := uptime\<rparr>)"

definition ecos_timer_function_init :: "timer_list \<Rightarrow> timer_list" where
  "ecos_timer_function_init st = st\<lparr>tl_head := None, tl_tail := None\<rparr>"

partial_function (option) timer_free_loop :: "timer_list \<Rightarrow> timer_list option" where
  "timer_free_loop st =
     (case tl_tail st of
        None \<Rightarrow> Some st
      | Some a \<Rightarrow> do {
          t \<leftarrow> tl_mem st a;
          r \<leftarrow> ecos_timer_function_del st (hnd t);
          timer_free_loop (snd r) })"

definition ecos_timer_function_free :: "timer_list \<Rightarrow> timer_list option" where
  "ecos_timer_function_free st = do {
     st \<leftarrow> timer_free_loop st;
     Some (st\<lparr>tl_head := None, tl_tail := None\<rparr>) }"

subsection \<open>The loop\<close>

definition timer_due :: "int \<Rightarrow> ecos_timer \<Rightarrow> bool" where
  "timer_due now t \<longleftrightarrow> \<not> suspend t \<and> func t \<noteq> None \<and> interval t > 0 \<and> count t \<noteq> 0 \<and> now \<ge> last_time t + interval t"

definition timer_fired :: "int \<Rightarrow> ecos_timer \<Rightarrow> ecos_timer" where
  "timer_fired now t = t\<lparr>last_time := now,
     count := (if count t \<noteq> ECOS_TIMER_FUNCTION_COUNT_FOREVER then count t - 1 else count t)\<rparr>"

text \<open>\<open>call f args w st\<close> is the effect of calling the function \<open>f\<close>: on the rest of the program, \<open>'w\<close>, and on the
  timer list.\<close>

partial_function (option) timer_loop ::
  "(addr \<Rightarrow> ptr \<Rightarrow> 'w \<Rightarrow> timer_list \<Rightarrow> ('w \<times> timer_list) option) \<times> int \<Rightarrow> ptr \<Rightarrow> 'w \<times> timer_list \<Rightarrow> ('w \<times> timer_list) option" where
  "timer_loop env s_p_timer s =
     (case s_p_timer of
        None \<Rightarrow> Some s
      | Some a \<Rightarrow> do {
          t \<leftarrow> tl_mem (snd s) a;
          s \<leftarrow>
            (if timer_due (snd env) t then do {
               st \<leftarrow> timer_upd (snd s) a (timer_fired (snd env));
               f \<leftarrow> func t;
               fst env f (p_args t) (fst s) st }
             else Some s);
          t \<leftarrow> tl_mem (snd s) a;
          timer_loop env (tm_next t) s })"

definition ecos_timer_function_loop ::
  "(addr \<Rightarrow> ptr \<Rightarrow> 'w \<Rightarrow> timer_list \<Rightarrow> ('w \<times> timer_list) option) \<Rightarrow> int \<Rightarrow> 'w \<Rightarrow> timer_list \<Rightarrow> ('w \<times> timer_list) option" where
  "ecos_timer_function_loop call uptime w st = timer_loop (call, uptime) (tl_head st) (w, st)"

declare timer_find.simps [code] timer_free_loop.simps [code] timer_loop.simps [code]

subsection \<open>Doubly linked lists\<close>

text \<open>\<open>dll mem p xs q\<close>: the timers \<open>xs\<close> are linked in both directions, with \<open>p\<close> in front and \<open>q\<close> behind.\<close>

fun dll :: "(addr \<rightharpoonup> ecos_timer) \<Rightarrow> ptr \<Rightarrow> addr list \<Rightarrow> ptr \<Rightarrow> bool" where
  "dll mem p [] q \<longleftrightarrow> True"
| "dll mem p (x # xs) q \<longleftrightarrow>
     (\<exists>t. mem x = Some t \<and> tm_prev t = p \<and> tm_next t = (case xs of [] \<Rightarrow> q | y # _ \<Rightarrow> Some y)) \<and> dll mem (Some x) xs q"

definition first_of :: "addr list \<Rightarrow> ptr \<Rightarrow> ptr" where "first_of xs q = (case xs of [] \<Rightarrow> q | y # _ \<Rightarrow> Some y)"
definition last_of :: "ptr \<Rightarrow> addr list \<Rightarrow> ptr" where "last_of p xs = (if xs = [] then p else Some (last xs))"

lemma first_of_simps [simp]: "first_of [] q = q" "first_of (x # xs) q = Some x"
  by (simp_all add: first_of_def)

lemma last_of_simps [simp]: "last_of p [] = p" "last_of p (xs @ [x]) = Some x" "last_of p (x # xs) = last_of (Some x) xs"
  by (simp_all add: last_of_def)

lemma dll_Cons [simp]: "dll mem p (x # xs) q \<longleftrightarrow> (\<exists>t. mem x = Some t \<and> tm_prev t = p \<and> tm_next t = first_of xs q) \<and> dll mem (Some x) xs q"
  by (simp add: first_of_def)

declare dll.simps(2) [simp del]

lemma dll_append: "dll mem p (xs @ ys) q \<longleftrightarrow> dll mem p xs (first_of ys q) \<and> dll mem (last_of p xs) ys q"
  by (induction xs arbitrary: p) (auto simp: first_of_def split: list.split)

lemma dll_cong: "(\<And>x. x \<in> set xs \<Longrightarrow> mem x = mem' x) \<Longrightarrow> dll mem p xs q \<longleftrightarrow> dll mem' p xs q"
  by (induction xs arbitrary: p) auto

lemma dll_upd_out [simp]: "a \<notin> set xs \<Longrightarrow> dll (mem(a := v)) p xs q \<longleftrightarrow> dll mem p xs q"
  by (rule dll_cong) auto

lemma dll_set_next:
  assumes "dll mem p (xs @ [l]) q" "mem l = Some t" "l \<notin> set xs"
  shows "dll (mem(l \<mapsto> t\<lparr>tm_next := q'\<rparr>)) p (xs @ [l]) q'"
  using assms by (auto simp: dll_append)

lemma dll_set_prev:
  assumes "dll mem p (h # xs) q" "mem h = Some t" "h \<notin> set xs"
  shows "dll (mem(h \<mapsto> t\<lparr>tm_prev := p'\<rparr>)) p' (h # xs) q"
  using assms by auto

text \<open>Changes that keep the links.\<close>

lemma dll_same_links:
  assumes "\<And>x t. x \<in> set xs \<Longrightarrow> mem x = Some t \<Longrightarrow> \<exists>t'. mem' x = Some t' \<and> tm_prev t' = tm_prev t \<and> tm_next t' = tm_next t"
  shows "dll mem p xs q \<Longrightarrow> dll mem' p xs q"
  using assms
proof (induction xs arbitrary: p)
  case (Cons x xs)
  then obtain t where "mem x = Some t" "tm_prev t = p" "tm_next t = first_of xs q" by auto
  with Cons.prems(2) [of x t] Cons show ?case by fastforce
qed simp

definition timer_rep :: "timer_list \<Rightarrow> addr list \<Rightarrow> bool" where
  "timer_rep st xs \<longleftrightarrow> dll (tl_mem st) None xs None \<and> tl_head st = first_of xs None \<and> tl_tail st = last_of None xs \<and>
     dom (tl_mem st) = set xs \<and> distinct xs \<and> (\<forall>a \<in> set xs. a < tl_brk st) \<and>
     distinct (map (\<lambda>a. hnd (the (tl_mem st a))) xs)"

text \<open>What a timer is apart from its links, and the list of timers a state stands for.\<close>

definition core :: "ecos_timer \<Rightarrow> ecos_timer" where "core t = t\<lparr>tm_prev := None, tm_next := None\<rparr>"

definition timers_of :: "timer_list \<Rightarrow> addr list \<Rightarrow> ecos_timer list" where
  "timers_of st xs = map (\<lambda>a. core (the (tl_mem st a))) xs"

definition timer_abs :: "timer_list \<Rightarrow> ecos_timer list \<Rightarrow> bool" where
  "timer_abs st ts \<longleftrightarrow> (\<exists>xs. timer_rep st xs \<and> ts = timers_of st xs)"

lemma core_simps [simp]: "hnd (core t) = hnd t" "core (core t) = core t" "core (t\<lparr>tm_next := q\<rparr>) = core t" "core (t\<lparr>tm_prev := p\<rparr>) = core t"
  "suspend (core t) = suspend t" "func (core t) = func t" "p_args (core t) = p_args t" "interval (core t) = interval t"
  "count (core t) = count t" "last_time (core t) = last_time t"
  by (simp_all add: core_def)

lemma timer_find_dll:
  assumes "dll (tl_mem st) p xs None"
  shows "timer_find st h (first_of xs None) = Some (find (\<lambda>a. hnd (the (tl_mem st a)) = h) xs)"
  using assms
proof (induction xs arbitrary: p)
  case Nil
  then show ?case by (simp add: timer_find.simps)
next
  case (Cons x xs)
  then obtain t where "tl_mem st x = Some t" "tm_next t = first_of xs None" "dll (tl_mem st) (Some x) xs None" by auto
  with Cons.IH [of "Some x"] show ?case by (subst timer_find.simps) simp
qed

lemma get_timer_rep:
  assumes "timer_rep st xs"
  shows "get_timerlist_ptr_by_handle st h = Some (find (\<lambda>a. hnd (the (tl_mem st a)) = h) xs)"
  using assms timer_find_dll [of st None xs h] by (simp add: timer_rep_def get_timerlist_ptr_by_handle_def)

lemma get_timer_none:
  assumes "timer_rep st xs"
  shows "get_timerlist_ptr_by_handle st h = Some None \<longleftrightarrow> h \<notin> hnd ` set (timers_of st xs)"
  using get_timer_rep [OF assms, of h] by (auto simp: timers_of_def find_None_iff image_iff)

subsection \<open>Operations on the list\<close>

fun spec_unused :: "int set \<Rightarrow> int \<Rightarrow> nat \<Rightarrow> int" where
  "spec_unused hs h 0 = -1"
| "spec_unused hs h (Suc n) = (if h \<notin> hs then h else spec_unused hs (h + 1) n)"

lemma unused_handle_rep:
  assumes "timer_rep st xs"
  shows "unused_handle st h n = Some (spec_unused (hnd ` set (timers_of st xs)) h n)"
proof (induction n arbitrary: h)
  case (Suc n)
  obtain p where "get_timerlist_ptr_by_handle st h = Some p" using get_timer_rep [OF assms] by blast
  with get_timer_none [OF assms, of h] Suc show ?case by auto
qed (simp add: ECOS_TIMER_FUNCTION_HANDLE_INVALID_def)

lemma spec_unused_cases:
  "0 \<le> h \<Longrightarrow> (spec_unused hs h n = -1 \<and> {h..<h + int n} \<subseteq> hs) \<or> (spec_unused hs h n \<in> {h..<h + int n} \<and> spec_unused hs h n \<notin> hs)"
proof (induction n arbitrary: h)
  case (Suc n)
  show ?case
  proof (cases "h \<in> hs")
    case True
    have "{h..<h + int (Suc n)} = insert h {h + 1..<h + 1 + int n}" by auto
    with Suc.IH [of "h + 1"] Suc.prems True show ?thesis by auto
  qed simp
qed simp

definition new_timer :: "int \<Rightarrow> int \<Rightarrow> string \<Rightarrow> ptr \<Rightarrow> ptr \<Rightarrow> int \<Rightarrow> int \<Rightarrow> ecos_timer" where
  "new_timer h uptime description fn args iv cnt = \<lparr>hnd = h, timer_desc = strncpy 128 description, func = fn, p_args = args,
     interval = iv, count = cnt, last_time = uptime, suspend = False, tm_prev = None, tm_next = None\<rparr>"

lemma add_rep:
  assumes r: "timer_rep st xs"
  defines "h \<equiv> spec_unused (hnd ` set (timers_of st xs)) ECOS_TIMER_FUNCTION_HANDLE_BEGIN 64"
  shows "\<exists>st'. ecos_timer_function_add uptime st description fn args iv cnt = Some (h, st') \<and>
    timer_abs st' (if h = -1 then timers_of st xs else timers_of st xs @ [new_timer h uptime description fn args iv cnt])"
proof -
  have u: "get_unused_handle_id st = Some h"
    using unused_handle_rep [OF r] by (simp add: get_unused_handle_id_def ECOS_TIMER_FUNCTION_MAX_TIMER_NUM_def h_def)
  show ?thesis
  proof (cases "h = -1")
    case True
    then show ?thesis using u r by (auto simp: ecos_timer_function_add_def ECOS_TIMER_FUNCTION_HANDLE_INVALID_def timer_abs_def)
  next
    case False
    let ?a = "tl_brk st" and ?hs = "hnd ` set (timers_of st xs)"
    define t where "t = (new_timer h uptime description fn args iv cnt)\<lparr>tm_prev := tl_tail st\<rparr>"
    have fresh: "?a \<notin> set xs" using r by (auto simp: timer_rep_def)
    have h: "h \<notin> ?hs" using spec_unused_cases [of ECOS_TIMER_FUNCTION_HANDLE_BEGIN ?hs 64] False
      by (simp add: h_def ECOS_TIMER_FUNCTION_HANDLE_BEGIN_def)
    have d: "dll (tl_mem st) None xs None" "tl_tail st = last_of None xs" "tl_head st = first_of xs None" "dom (tl_mem st) = set xs"
      "distinct xs" "distinct (map (\<lambda>a. hnd (the (tl_mem st a))) xs)" "\<forall>a \<in> set xs. a < ?a"
      using r by (auto simp: timer_rep_def)
    define mem' where "mem' = (case tl_tail st of None \<Rightarrow> (tl_mem st)(?a \<mapsto> t)
      | Some l \<Rightarrow> (tl_mem st)(?a \<mapsto> t, l \<mapsto> (the (tl_mem st l))\<lparr>tm_next := Some ?a\<rparr>))"
    define st' where "st' = st\<lparr>tl_head := first_of (xs @ [?a]) None, tl_tail := Some ?a, tl_mem := mem', tl_brk := ?a + 1\<rparr>"
    have tl: "tl_tail st = Some l \<longleftrightarrow> xs \<noteq> [] \<and> l = last xs" for l using d(2) by (auto simp: last_of_def)
    have l_in: "xs \<noteq> [] \<Longrightarrow> last xs \<in> set xs \<and> last xs \<noteq> ?a" using fresh last_in_set by metis
    have add: "ecos_timer_function_add uptime st description fn args iv cnt = Some (h, st')"
    proof (cases "xs = []")
      case True
      then show ?thesis using u False d(2,3)
        by (simp add: ecos_timer_function_add_def ECOS_TIMER_FUNCTION_HANDLE_INVALID_def st'_def mem'_def t_def new_timer_def Let_def)
    next
      case xs: False
      then have "tl_tail st = Some (last xs)" using tl by simp
      moreover have "first_of (xs @ [?a]) None = first_of xs None" using xs by (cases xs) auto
      moreover obtain s where "tl_mem st (last xs) = Some s" using d(4) l_in [OF xs] by auto
      ultimately show ?thesis using u False d(3) l_in [OF xs]
        by (simp add: ecos_timer_function_add_def ECOS_TIMER_FUNCTION_HANDLE_INVALID_def st'_def mem'_def t_def new_timer_def Let_def timer_upd_def)
    qed
    have core': "core (the (mem' x)) = (if x = ?a then new_timer h uptime description fn args iv cnt else core (the (tl_mem st x)))"
      if "x \<in> set (xs @ [?a])" for x
      using that fresh l_in tl by (auto simp: mem'_def t_def core_def new_timer_def split: option.split)
    have "dll mem' None (xs @ [?a]) None"
    proof (cases "xs = []")
      case True
      then show ?thesis using d(2) by (simp add: mem'_def t_def new_timer_def)
    next
      case xs: False
      then obtain ys l where ys: "xs = ys @ [l]" by (metis append_butlast_last_id)
      then obtain s where s: "tl_mem st l = Some s" using d(4) by (cases "tl_mem st l") auto
      have m: "mem' = (tl_mem st)(l \<mapsto> s\<lparr>tm_next := Some ?a\<rparr>, ?a \<mapsto> t)"
        using tl [of l] ys s fresh by (auto simp: mem'_def fun_eq_iff)
      have "dll ((tl_mem st)(l \<mapsto> s\<lparr>tm_next := Some ?a\<rparr>)) None (ys @ [l]) (Some ?a)"
        using d(1,5) s ys by (intro dll_set_next) auto
      then show ?thesis using fresh tl [of l] ys unfolding m dll_append [of _ _ xs] by (simp add: t_def new_timer_def)
    qed
    moreover have "dom mem' = insert ?a (set xs)" using d(4) l_in tl by (auto simp: mem'_def split: option.split)
    moreover have "distinct (map (\<lambda>a. hnd (the (mem' a))) (xs @ [?a]))"
    proof -
      have "hnd (the (mem' x)) = (if x = ?a then h else hnd (the (tl_mem st x)))" if "x \<in> set (xs @ [?a])" for x
        using arg_cong [OF core' [OF that], of hnd] by (simp add: new_timer_def split: if_splits)
      then have "map (\<lambda>a. hnd (the (mem' a))) (xs @ [?a]) = map (\<lambda>a. hnd (the (tl_mem st a))) xs @ [h]"
        using fresh by auto
      moreover have "h \<notin> (\<lambda>a. hnd (the (tl_mem st a))) ` set xs" using h by (simp add: timers_of_def image_image)
      ultimately show ?thesis using d(6) by (simp only: distinct_append set_map) simp
    qed
    ultimately have "timer_rep st' (xs @ [?a])" using d(5,7) fresh by (auto simp: timer_rep_def st'_def)
    moreover have "timers_of st' (xs @ [?a]) = timers_of st xs @ [new_timer h uptime description fn args iv cnt]"
      using core' fresh by (auto simp: timers_of_def st'_def)
    ultimately show ?thesis using add False by (auto simp: timer_abs_def)
  qed
qed

lemma find_distinct_split:
  assumes "find P xs = Some a"
  shows "\<exists>us vs. xs = us @ a # vs \<and> P a \<and> (\<forall>u \<in> set us. \<not> P u)"
  using assms
proof (induction xs)
  case (Cons x xs)
  show ?case
  proof (cases "P x")
    case True
    with Cons.prems show ?thesis by (intro exI [of _ "[]"] exI [of _ xs]) simp
  next
    case False
    with Cons obtain us vs where "xs = us @ a # vs" "P a" "\<forall>u \<in> set us. \<not> P u" by auto
    with False show ?thesis by (intro exI [of _ "x # us"] exI [of _ vs]) simp
  qed
qed simp

text \<open>Deleting: the four cases of the code are one operation on the links.\<close>

definition link_next :: "(addr \<rightharpoonup> ecos_timer) \<Rightarrow> addr list \<Rightarrow> ptr \<Rightarrow> (addr \<rightharpoonup> ecos_timer)" where
  "link_next mem us q = (if us = [] then mem else mem(last us \<mapsto> (the (mem (last us)))\<lparr>tm_next := q\<rparr>))"

definition link_prev :: "(addr \<rightharpoonup> ecos_timer) \<Rightarrow> addr list \<Rightarrow> ptr \<Rightarrow> (addr \<rightharpoonup> ecos_timer)" where
  "link_prev mem vs p = (if vs = [] then mem else mem(hd vs \<mapsto> (the (mem (hd vs)))\<lparr>tm_prev := p\<rparr>))"

lemma set_link_out [simp]:
  "x \<notin> set us \<Longrightarrow> link_next mem us q x = mem x" "x \<notin> set vs \<Longrightarrow> link_prev mem vs p x = mem x"
  by (auto simp: link_next_def link_prev_def)

lemma core_set_link [simp]:
  "core (the (link_next mem us q x)) = core (the (mem x))" "core (the (link_prev mem vs p x)) = core (the (mem x))"
  by (auto simp: link_next_def link_prev_def)

lemma dom_set_link [simp]:
  "set us \<subseteq> dom mem \<Longrightarrow> dom (link_next mem us q) = dom mem" "set vs \<subseteq> dom mem \<Longrightarrow> dom (link_prev mem vs p) = dom mem"
  by (auto simp: link_next_def link_prev_def intro: last_in_set hd_in_set)

lemma dll_link_next: "dll mem p us q \<Longrightarrow> distinct us \<Longrightarrow> dll (link_next mem us q') p us q'"
proof (cases us rule: rev_cases)
  case (snoc ys l)
  moreover assume "dll mem p us q" "distinct us"
  ultimately show ?thesis using dll_set_next [of mem p ys l q] by (auto simp: link_next_def dll_append)
qed (simp add: link_next_def)

lemma dll_link_prev: "dll mem p vs q \<Longrightarrow> distinct vs \<Longrightarrow> dll (link_prev mem vs p') p' vs q"
  by (cases vs) (auto simp: link_prev_def)

lemma dll_unlink:
  assumes "dll mem p (us @ a # vs) q" "distinct (us @ a # vs)"
  shows "dll (link_prev (link_next mem us (first_of vs q)) vs (last_of p us)) p (us @ vs) q"
proof -
  have d: "dll mem p us (Some a)" "dll mem (Some a) vs q" using assms(1) by (auto simp: dll_append)
  let ?m = "link_next mem us (first_of vs q)"
  have "dll ?m p us (first_of vs q)" using dll_link_next [OF d(1)] assms(2) by simp
  then have "dll (link_prev ?m vs (last_of p us)) p us (first_of vs q)"
    using assms(2) by (subst dll_cong [where mem' = ?m]) (auto simp: disjoint_iff)
  moreover have "dll ?m (Some a) vs q" using d(2) assms(2) by (subst dll_cong [where mem' = mem]) (auto intro!: set_link_out)
  then have "dll (link_prev ?m vs (last_of p us)) (last_of p us) vs q" using assms(2) by (intro dll_link_prev) auto
  ultimately show ?thesis by (simp add: dll_append)
qed

definition unlinked :: "timer_list \<Rightarrow> addr list \<Rightarrow> addr \<Rightarrow> addr list \<Rightarrow> timer_list" where
  "unlinked st us a vs = st\<lparr>tl_head := first_of (us @ vs) None, tl_tail := last_of None (us @ vs),
     tl_mem := (link_prev (link_next (tl_mem st) us (first_of vs None)) vs (last_of None us))(a := None)\<rparr>"

lemma unlinked_rep:
  assumes r: "timer_rep st (us @ a # vs)"
  shows "timer_rep (unlinked st us a vs) (us @ vs)" "timers_of (unlinked st us a vs) (us @ vs) = timers_of st (us @ vs)"
proof -
  let ?st = "unlinked st us a vs"
  have d: "dll (tl_mem st) None (us @ a # vs) None" "distinct (us @ a # vs)" "dom (tl_mem st) = set (us @ a # vs)"
    using r by (auto simp: timer_rep_def)
  have c: "core (the (tl_mem ?st x)) = core (the (tl_mem st x))" if "x \<in> set (us @ vs)" for x
    using that d(2) by (auto simp: unlinked_def)
  then show t: "timers_of ?st (us @ vs) = timers_of st (us @ vs)" by (simp add: timers_of_def)
  have "hnd (the (tl_mem ?st x)) = hnd (the (tl_mem st x))" if "x \<in> set (us @ vs)" for x
    using arg_cong [OF c [OF that], of hnd] by simp
  then have "map (\<lambda>x. hnd (the (tl_mem ?st x))) (us @ vs) = map (\<lambda>x. hnd (the (tl_mem st x))) (us @ vs)" by simp
  then have "distinct (map (\<lambda>x. hnd (the (tl_mem ?st x))) (us @ vs))" using r by (simp only:) (simp add: timer_rep_def)
  moreover have "dll (tl_mem ?st) None (us @ vs) None"
    using dll_unlink [OF d(1,2)] d(2) by (simp add: unlinked_def)
  moreover have "dom (tl_mem ?st) = set (us @ vs)"
  proof -
    have "dom (link_prev (link_next (tl_mem st) us (first_of vs None)) vs (last_of None us)) = set (us @ a # vs)"
      by (subst dom_set_link; subst dom_set_link) (use d(3) in auto)
    then show ?thesis using d(2) by (auto simp: unlinked_def)
  qed
  ultimately show "timer_rep ?st (us @ vs)"
    using r by (simp add: timer_rep_def unlinked_def)
qed

lemma del_unlinked:
  assumes r: "timer_rep st (us @ a # vs)" and g: "get_timerlist_ptr_by_handle st h = Some (Some a)"
  shows "ecos_timer_function_del st h = Some (True, unlinked st us a vs)"
proof -
  have d: "dll (tl_mem st) None (us @ a # vs) None" "distinct (us @ a # vs)" "dom (tl_mem st) = set (us @ a # vs)"
    "tl_head st = first_of (us @ a # vs) None" "tl_tail st = last_of None (us @ a # vs)"
    using r by (auto simp: timer_rep_def)
  obtain t where t: "tl_mem st a = Some t" "tm_prev t = last_of None us" "tm_next t = first_of vs None"
    using d(1) by (auto simp: dll_append)
  note defs = ecos_timer_function_del_def unlinked_def free_timer_def link_next_def link_prev_def timer_upd_def
  show ?thesis
  proof (cases us rule: rev_cases)
    case Nil
    show ?thesis
    proof (cases vs)
      case Nil
      then show ?thesis using \<open>us = []\<close> d g t by (simp add: defs)
    next
      case (Cons v ws)
      then obtain s where "tl_mem st v = Some s" using d(3) by (cases "tl_mem st v") auto
      moreover have "last_of None (us @ vs) = last_of None (us @ a # vs)" using Cons by (cases ws rule: rev_cases) (auto simp: last_of_def)
      moreover have "Some a \<noteq> last_of None (us @ a # vs)" using Cons d(2) by (auto simp: last_of_def)
      ultimately show ?thesis using \<open>us = []\<close> Cons d g t by (simp add: defs)
    qed
  next
    case (snoc ys l)
    then obtain s where s: "tl_mem st l = Some s" using d(3) by (cases "tl_mem st l") auto
    have h: "tl_head st = first_of us None" "first_of us None \<noteq> Some a" "first_of (us @ vs) None = first_of us None"
      using d(2,4) snoc by (cases ys; auto)+
    show ?thesis
    proof (cases vs)
      case Nil
      moreover have "last_of None (us @ a # vs) = Some a" using Nil by (simp add: last_of_def)
      ultimately show ?thesis using snoc d(2,5) g t s h by (simp add: defs)
    next
      case (Cons v ws)
      then obtain u where "tl_mem st v = Some u" using d(3) by (cases "tl_mem st v") auto
      moreover have tl: "tl_tail st = last_of None (us @ vs)" using d(5) Cons by (auto simp: last_of_def)
      moreover have "last_of None (us @ vs) \<noteq> Some a" using Cons d(2) by (auto simp: last_of_def)
      moreover have "last_of None (us @ vs) \<noteq> first_of us None" using Cons d(2) snoc by (cases ys) (auto simp: last_of_def)
      ultimately show ?thesis using snoc Cons d(2) g t s h by (simp add: defs)
    qed
  qed
qed

lemma del_rep:
  assumes r: "timer_rep st xs"
  shows "\<exists>st'. ecos_timer_function_del st h = Some (h \<in> hnd ` set (timers_of st xs), st') \<and>
    timer_abs st' (filter (\<lambda>t. hnd t \<noteq> h) (timers_of st xs))"
proof (cases "find (\<lambda>a. hnd (the (tl_mem st a)) = h) xs")
  case None
  then have "\<forall>t \<in> set (timers_of st xs). hnd t \<noteq> h" by (auto simp: find_None_iff timers_of_def)
  moreover have "get_timerlist_ptr_by_handle st h = Some None" using get_timer_rep [OF r] None by simp
  ultimately show ?thesis using r
    by (intro exI [of _ st]) (auto simp: ecos_timer_function_del_def timer_abs_def filter_id_conv)
next
  case (Some a)
  obtain us vs where x: "xs = us @ a # vs" "hnd (the (tl_mem st a)) = h" using find_distinct_split [OF Some] by auto
  have "ecos_timer_function_del st h = Some (True, unlinked st us a vs)"
    using del_unlinked [of st us a vs h] r x get_timer_rep [OF r, of h] Some by simp
  moreover have "timers_of st (us @ vs) = filter (\<lambda>t. hnd t \<noteq> h) (timers_of st xs)"
  proof -
    have "distinct (map hnd (timers_of st xs))" using r by (simp add: timer_rep_def timers_of_def o_def)
    moreover have "timers_of st xs = timers_of st us @ core (the (tl_mem st a)) # timers_of st vs" using x by (simp add: timers_of_def)
    ultimately have "\<forall>t \<in> set (timers_of st us @ timers_of st vs). hnd t \<noteq> h" using x by (force simp: image_iff)
    then show ?thesis using x by (auto simp: timers_of_def filter_id_conv)
  qed
  moreover have "h \<in> hnd ` set (timers_of st xs)" using x by (auto simp: timers_of_def)
  ultimately show ?thesis using unlinked_rep [of st us a vs] r x by (auto simp: timer_abs_def)
qed

text \<open>Changing a timer in place.\<close>

definition keeps_links :: "(ecos_timer \<Rightarrow> ecos_timer) \<Rightarrow> bool" where
  "keeps_links f \<longleftrightarrow> (\<forall>t. hnd (f t) = hnd t \<and> tm_prev (f t) = tm_prev t \<and> tm_next (f t) = tm_next t \<and> core (f t) = f (core t))"

lemma upd_rep:
  assumes r: "timer_rep st (us @ a # vs)" and k: "keeps_links f"
  shows "\<exists>st'. timer_upd st a f = Some st' \<and> timer_rep st' (us @ a # vs) \<and> tl_head st' = tl_head st \<and>
    tl_mem st' = (tl_mem st)(a \<mapsto> f (the (tl_mem st a))) \<and>
    timers_of st' (us @ a # vs) = timers_of st us @ f (core (the (tl_mem st a))) # timers_of st vs"
proof -
  obtain t where t: "tl_mem st a = Some t" using r by (auto simp: timer_rep_def dll_append)
  let ?st = "st\<lparr>tl_mem := (tl_mem st)(a \<mapsto> f t)\<rparr>"
  have d: "dll (tl_mem st) None (us @ a # vs) None" "distinct (us @ a # vs)" using r by (auto simp: timer_rep_def)
  have "dll (tl_mem ?st) None (us @ a # vs) None"
    by (rule dll_same_links [OF _ d(1)]) (use k t in \<open>auto simp: keeps_links_def\<close>)
  moreover have "hnd (the (tl_mem ?st x)) = hnd (the (tl_mem st x))" for x using t k by (simp add: keeps_links_def)
  then have "map (\<lambda>x. hnd (the (tl_mem ?st x))) (us @ a # vs) = map (\<lambda>x. hnd (the (tl_mem st x))) (us @ a # vs)" by simp
  then have "distinct (map (\<lambda>x. hnd (the (tl_mem ?st x))) (us @ a # vs))" using r by (simp only:) (simp add: timer_rep_def)
  moreover have "dom (tl_mem ?st) = set (us @ a # vs)" using r t by (auto simp: timer_rep_def)
  ultimately have "timer_rep ?st (us @ a # vs)" using r by (simp add: timer_rep_def)
  moreover have "timers_of ?st (us @ a # vs) = timers_of st us @ f (core t) # timers_of st vs"
    using d(2) k by (auto simp: timers_of_def keeps_links_def)
  ultimately show ?thesis using t by (simp add: timer_upd_def)
qed

definition change_spec :: "int \<Rightarrow> (ecos_timer \<Rightarrow> ecos_timer) \<Rightarrow> ecos_timer list \<Rightarrow> ecos_timer list" where
  "change_spec h f ts = map (\<lambda>t. if hnd t = h then f t else t) ts"

lemma change_rep:
  assumes r: "timer_rep st xs" and k: "keeps_links f"
  shows "\<exists>st'. timer_change st h f = Some (h \<in> hnd ` set (timers_of st xs), st') \<and> timer_abs st' (change_spec h f (timers_of st xs))"
proof (cases "find (\<lambda>a. hnd (the (tl_mem st a)) = h) xs")
  case None
  then have "\<forall>t \<in> set (timers_of st xs). hnd t \<noteq> h" by (auto simp: find_None_iff timers_of_def)
  moreover have "get_timerlist_ptr_by_handle st h = Some None" using get_timer_rep [OF r] None by simp
  ultimately show ?thesis using r
    by (intro exI [of _ st]) (auto simp: timer_change_def timer_abs_def change_spec_def map_idI)
next
  case (Some a)
  obtain us vs where x: "xs = us @ a # vs" "hnd (the (tl_mem st a)) = h" using find_distinct_split [OF Some] by auto
  have ts: "timers_of st xs = timers_of st us @ core (the (tl_mem st a)) # timers_of st vs" using x by (simp add: timers_of_def)
  have "distinct (map hnd (timers_of st xs))" using r by (simp add: timer_rep_def timers_of_def o_def)
  then have "\<forall>t \<in> set (timers_of st us @ timers_of st vs). hnd t \<noteq> h" using x ts by (force simp: image_iff)
  then have "change_spec h f (timers_of st xs) = timers_of st us @ f (core (the (tl_mem st a))) # timers_of st vs"
    using x ts by (simp add: change_spec_def map_idI)
  moreover have "h \<in> hnd ` set (timers_of st xs)" using x by (auto simp: timers_of_def)
  moreover obtain st' where "timer_upd st a f = Some st'" "timer_rep st' xs"
      "timers_of st' xs = timers_of st us @ f (core (the (tl_mem st a))) # timers_of st vs"
    using upd_rep [OF r [unfolded x(1)] k] x(1) by auto
  moreover have "get_timerlist_ptr_by_handle st h = Some (Some a)" using get_timer_rep [OF r] Some by simp
  ultimately show ?thesis by (auto simp: timer_change_def timer_abs_def)
qed

subsection \<open>The list specification\<close>

datatype timer_op =
  Add string ptr ptr int int
| Del int
| Set int ptr ptr int int
| Suspend int
| Resume int

text \<open>One call at a given uptime; the booleans of the code are 1 and 0.\<close>

fun timer_exec :: "int \<times> timer_op \<Rightarrow> timer_list \<Rightarrow> (int \<times> timer_list) option" where
  "timer_exec (now, Add d f a iv n) st = ecos_timer_function_add now st d f a iv n"
| "timer_exec (now, Del h) st = map_option (map_prod of_bool id) (ecos_timer_function_del st h)"
| "timer_exec (now, Set h f a iv n) st = map_option (map_prod of_bool id) (ecos_timer_function_set now st h f a iv n)"
| "timer_exec (now, Suspend h) st = map_option (map_prod of_bool id) (ecos_timer_function_suspend st h)"
| "timer_exec (now, Resume h) st = map_option (map_prod of_bool id) (ecos_timer_function_resume now st h)"

fun timer_spec :: "int \<times> timer_op \<Rightarrow> ecos_timer list \<Rightarrow> int \<times> ecos_timer list" where
  "timer_spec (now, Add d f a iv n) ts =
     (let h = spec_unused (hnd ` set ts) ECOS_TIMER_FUNCTION_HANDLE_BEGIN 64
      in (h, if h = -1 then ts else ts @ [new_timer h now d f a iv n]))"
| "timer_spec (now, Del h) ts = (of_bool (h \<in> hnd ` set ts), filter (\<lambda>t. hnd t \<noteq> h) ts)"
| "timer_spec (now, Set h f a iv n) ts = (of_bool (h \<in> hnd ` set ts),
     change_spec h (\<lambda>t. t\<lparr>func := f, p_args := a, interval := iv, count := n, last_time := now\<rparr>) ts)"
| "timer_spec (now, Suspend h) ts = (of_bool (h \<in> hnd ` set ts), change_spec h (\<lambda>t. t\<lparr>suspend := True\<rparr>) ts)"
| "timer_spec (now, Resume h) ts =
     (of_bool (h \<in> hnd ` set ts), change_spec h (\<lambda>t. t\<lparr>suspend := False, last_time := now\<rparr>) ts)"

lemma keeps_links_updates [simp]:
  "keeps_links (\<lambda>t. t\<lparr>func := f, p_args := a, interval := iv, count := n, last_time := now\<rparr>)"
  "keeps_links (\<lambda>t. t\<lparr>suspend := b\<rparr>)" "keeps_links (\<lambda>t. t\<lparr>suspend := b, last_time := now\<rparr>)" "keeps_links (timer_fired now)"
  by (simp_all add: keeps_links_def core_def timer_fired_def)

lemma timer_step:
  assumes "timer_abs st ts"
  shows "\<exists>st'. timer_exec op st = Some (fst (timer_spec op ts), st') \<and> timer_abs st' (snd (timer_spec op ts))"
proof -
  obtain xs where r: "timer_rep st xs" "ts = timers_of st xs" using assms by (auto simp: timer_abs_def)
  obtain now c where op: "op = (now, c)" by (cases op)
  show ?thesis
  proof (cases c)
    case (Add d f a iv n)
    then show ?thesis using add_rep [OF r(1), of now d f a iv n] r(2) op by (auto simp: Let_def)
  next
    case (Del h)
    then show ?thesis using del_rep [OF r(1), of h] r(2) op by auto
  next
    case (Set h f a iv n)
    then show ?thesis using change_rep [where h = h, OF r(1) keeps_links_updates(1) [where f = f and a = a and iv = iv and n = n and now = now]] r(2) op
      by (auto simp: ecos_timer_function_set_def)
  next
    case (Suspend h)
    then show ?thesis using change_rep [where h = h, OF r(1) keeps_links_updates(2) [where b = True]] r(2) op
      by (auto simp: ecos_timer_function_suspend_def)
  next
    case (Resume h)
    then show ?thesis using change_rep [where h = h, OF r(1) keeps_links_updates(3) [where b = False and now = now]] r(2) op
      by (auto simp: ecos_timer_function_resume_def)
  qed
qed

fun timer_run :: "(int \<times> timer_op) list \<Rightarrow> timer_list \<Rightarrow> (int list \<times> timer_list) option" where
  "timer_run [] st = Some ([], st)"
| "timer_run (op # ops) st = do {
     (r, st) \<leftarrow> timer_exec op st;
     (rs, st) \<leftarrow> timer_run ops st;
     Some (r # rs, st) }"

fun timer_spec_run :: "(int \<times> timer_op) list \<Rightarrow> ecos_timer list \<Rightarrow> int list \<times> ecos_timer list" where
  "timer_spec_run [] ts = ([], ts)"
| "timer_spec_run (op # ops) ts =
     (let (r, ts) = timer_spec op ts; (rs, ts) = timer_spec_run ops ts in (r # rs, ts))"

lemma timer_run_refines:
  assumes "timer_abs st ts"
  shows "\<exists>st'. timer_run ops st = Some (fst (timer_spec_run ops ts), st') \<and> timer_abs st' (snd (timer_spec_run ops ts))"
  using assms
proof (induction ops arbitrary: st ts)
  case (Cons op ops)
  obtain st1 where s1: "timer_exec op st = Some (fst (timer_spec op ts), st1)" "timer_abs st1 (snd (timer_spec op ts))"
    using timer_step [OF Cons.prems] by blast
  obtain st2 where "timer_run ops st1 = Some (fst (timer_spec_run ops (snd (timer_spec op ts))), st2)"
      "timer_abs st2 (snd (timer_spec_run ops (snd (timer_spec op ts))))"
    using Cons.IH [OF s1(2)] by blast
  with s1 show ?case by (simp add: case_prod_beta Let_def)
qed simp

text \<open>The list itself: handles are distinct and in range, so there are at most 64 timers.\<close>

definition timers_ok :: "ecos_timer list \<Rightarrow> bool" where
  "timers_ok ts \<longleftrightarrow> distinct (map hnd ts) \<and>
     hnd ` set ts \<subseteq> {ECOS_TIMER_FUNCTION_HANDLE_BEGIN..<ECOS_TIMER_FUNCTION_HANDLE_BEGIN + ECOS_TIMER_FUNCTION_MAX_TIMER_NUM}"

lemma timers_ok_length: "timers_ok ts \<Longrightarrow> length ts \<le> 64"
proof -
  assume a: "timers_ok ts"
  then have "card (hnd ` set ts) = length ts" by (metis distinct_card length_map set_map timers_ok_def)
  moreover have "card (hnd ` set ts) \<le> card {ECOS_TIMER_FUNCTION_HANDLE_BEGIN..<ECOS_TIMER_FUNCTION_HANDLE_BEGIN + ECOS_TIMER_FUNCTION_MAX_TIMER_NUM}"
    using a by (intro card_mono) (auto simp: timers_ok_def)
  ultimately show ?thesis by (simp add: ECOS_TIMER_FUNCTION_MAX_TIMER_NUM_def)
qed

lemma change_spec_hnd: "(\<And>t. hnd (f t) = hnd t) \<Longrightarrow> map hnd (change_spec h f ts) = map hnd ts"
  by (simp add: change_spec_def)

lemma timers_ok_map_hnd: "map hnd ts' = map hnd ts \<Longrightarrow> timers_ok ts \<Longrightarrow> timers_ok ts'"
  unfolding timers_ok_def by (metis set_map)

lemma timer_spec_ok: "timers_ok ts \<Longrightarrow> timers_ok (snd (timer_spec op ts))"
proof (induction op ts rule: timer_spec.induct)
  case (1 now d f a iv n ts)
  then show ?case using spec_unused_cases [of ECOS_TIMER_FUNCTION_HANDLE_BEGIN "hnd ` set ts" 64]
    by (auto simp: Let_def timers_ok_def new_timer_def ECOS_TIMER_FUNCTION_HANDLE_BEGIN_def ECOS_TIMER_FUNCTION_MAX_TIMER_NUM_def)
next
  case (2 now h ts)
  then show ?case by (auto simp: timers_ok_def distinct_map_filter)
qed (auto intro: timers_ok_map_hnd [OF change_spec_hnd])

lemma timer_spec_run_ok: "timers_ok ts \<Longrightarrow> timers_ok (snd (timer_spec_run ops ts))"
  by (induction ops arbitrary: ts) (auto simp: Let_def case_prod_beta timer_spec_ok)

definition timer_memory :: "timer_list \<Rightarrow> bool" where
  "timer_memory st \<longleftrightarrow> tl_mem st = (\<lambda>_. None)"

lemma init_abs: "timer_memory st \<Longrightarrow> timer_abs (ecos_timer_function_init st) []"
  by (auto simp: timer_abs_def timer_rep_def ecos_timer_function_init_def timer_memory_def timers_of_def intro!: exI [of _ "[]"])

lemma abs_nil_memory: "timer_abs st [] \<Longrightarrow> timer_memory st"
  by (auto simp: timer_abs_def timer_rep_def timer_memory_def timers_of_def)

text \<open>Freeing deletes from the tail until the list is empty.\<close>

lemma free_loop:
  assumes "timer_rep st xs"
  shows "\<exists>st'. timer_free_loop st = Some st' \<and> timer_abs st' []"
  using assms
proof (induction xs arbitrary: st rule: rev_induct)
  case Nil
  then show ?case by (subst timer_free_loop.simps) (auto simp: timer_rep_def timer_abs_def timers_of_def intro!: exI [of _ "[]"])
next
  case (snoc a us)
  obtain t where t: "tl_mem st a = Some t" using snoc.prems by (auto simp: timer_rep_def dll_append)
  have tl: "tl_tail st = Some a" using snoc.prems by (simp add: timer_rep_def)
  have "find (\<lambda>x. hnd (the (tl_mem st x)) = hnd t) (us @ [a]) = Some a"
    using snoc.prems t by (auto simp: timer_rep_def find_Some_iff image_iff nth_append intro!: exI [of _ "length us"]) (metis nth_mem)
  then have "get_timerlist_ptr_by_handle st (hnd t) = Some (Some a)" using get_timer_rep [OF snoc.prems] by simp
  then have "ecos_timer_function_del st (hnd t) = Some (True, unlinked st us a [])" "timer_rep (unlinked st us a []) us"
    using del_unlinked [OF snoc.prems, of "hnd t"] unlinked_rep(1) [OF snoc.prems] by simp_all
  then show ?case using snoc.IH t tl by (subst timer_free_loop.simps) simp
qed

lemma free_abs: "timer_abs st ts \<Longrightarrow> \<exists>st'. ecos_timer_function_free st = Some st' \<and> timer_memory st' \<and> tl_head st' = None \<and> tl_tail st' = None"
  using free_loop abs_nil_memory by (fastforce simp: timer_abs_def [of st] ecos_timer_function_free_def timer_memory_def)

subsection \<open>The loop over the list\<close>

definition fire :: "int \<Rightarrow> ecos_timer \<Rightarrow> ecos_timer" where
  "fire now t = (if timer_due now t then timer_fired now t else t)"

definition run_callback :: "(addr \<Rightarrow> ptr \<Rightarrow> 'w \<Rightarrow> 'w) \<Rightarrow> int \<Rightarrow> ecos_timer \<Rightarrow> 'w \<Rightarrow> 'w" where
  "run_callback eff now t w = (if timer_due now t then eff (the (func t)) (p_args t) w else w)"

lemma timer_due_core [simp]: "timer_due now (core t) = timer_due now t"
  by (simp add: timer_due_def)

lemma fire_not_due: "\<not> timer_due now (fire now t)"
  by (auto simp: fire_def timer_due_def timer_fired_def)

text \<open>The same for functions that may fail, which ends the pass.\<close>

fun fold_opt :: "('a \<Rightarrow> 'b \<Rightarrow> 'b option) \<Rightarrow> 'a list \<Rightarrow> 'b \<Rightarrow> 'b option" where
  "fold_opt f [] s = Some s"
| "fold_opt f (x # xs) s = do { s \<leftarrow> f x s; fold_opt f xs s }"

definition callback_opt :: "(addr \<Rightarrow> ptr \<Rightarrow> 'w \<Rightarrow> 'w option) \<Rightarrow> int \<Rightarrow> ecos_timer \<Rightarrow> 'w \<Rightarrow> 'w option" where
  "callback_opt eff now t w = (if timer_due now t then eff (the (func t)) (p_args t) w else Some w)"

lemma loop_rep_opt:
  assumes "timer_rep st (us @ vs)"
  shows "case fold_opt (callback_opt eff now) (timers_of st vs) w of
      None \<Rightarrow> timer_loop (\<lambda>f args w st. map_option (\<lambda>w. (w, st)) (eff f args w), now) (first_of vs None) (w, st) = None
    | Some w' \<Rightarrow> \<exists>st'. timer_loop (\<lambda>f args w st. map_option (\<lambda>w. (w, st)) (eff f args w), now) (first_of vs None) (w, st) = Some (w', st') \<and>
        timer_rep st' (us @ vs) \<and> timers_of st' (us @ vs) = timers_of st us @ map (fire now) (timers_of st vs)"
  using assms
proof (induction vs arbitrary: us w st)
  case Nil
  then show ?case by (subst timer_loop.simps) (auto simp: timers_of_def)
next
  case (Cons a vs)
  let ?c = "\<lambda>f args w st. map_option (\<lambda>w. (w, st)) (eff f args w)"
  obtain t where t: "tl_mem st a = Some t" "tm_next t = first_of vs None" using Cons.prems by (auto simp: timer_rep_def dll_append)
  have r: "timer_rep st ((us @ [a]) @ vs)" using Cons.prems by simp
  have ne: "a \<notin> set us" "a \<notin> set vs" using Cons.prems by (auto simp: timer_rep_def)
  have split: "timers_of s (us @ [a]) = timers_of s us @ timers_of s [a]" "timers_of s (a # vs) = timers_of s [a] @ timers_of s vs" for s
    by (simp_all add: timers_of_def)
  show ?case
  proof (cases "timer_due now t")
    case False
    then have "timer_loop (?c, now) (first_of (a # vs) None) (w, st) = timer_loop (?c, now) (first_of vs None) (w, st)"
      using t by (subst timer_loop.simps) simp
    moreover have "fold_opt (callback_opt eff now) (timers_of st (a # vs)) w = fold_opt (callback_opt eff now) (timers_of st vs) w"
      using t False by (simp add: timers_of_def callback_opt_def)
    moreover have "timers_of st (us @ [a]) @ ts = timers_of st us @ map (fire now) (timers_of st [a]) @ ts" for ts
      using t False by (simp add: timers_of_def fire_def)
    ultimately show ?thesis using Cons.IH [OF r, of w] by (simp add: split(2) split: option.splits)
  next
    case True
    obtain st1 where s1: "timer_upd st a (timer_fired now) = Some st1" "timer_rep st1 ((us @ [a]) @ vs)"
        "tl_mem st1 = (tl_mem st)(a \<mapsto> timer_fired now t)"
      using upd_rep [OF Cons.prems keeps_links_updates(4) [of now]] t by auto
    have same: "timers_of st1 us = timers_of st us" "timers_of st1 vs = timers_of st vs"
      using ne s1(3) by (auto simp: timers_of_def)
    obtain f where f: "func t = Some f" using True by (auto simp: timer_due_def)
    have fired: "timers_of st1 [a] = map (fire now) (timers_of st [a])"
      using t s1(3) True keeps_links_updates(4) [of now] by (simp add: timers_of_def fire_def keeps_links_def)
    have hd: "fold_opt (callback_opt eff now) (timers_of st (a # vs)) w =
        do { w \<leftarrow> eff f (p_args t) w; fold_opt (callback_opt eff now) (timers_of st vs) w }"
      using t True f by (simp add: timers_of_def callback_opt_def)
    show ?thesis
    proof (cases "eff f (p_args t) w")
      case None
      then have "timer_loop (?c, now) (first_of (a # vs) None) (w, st) = None"
        using t s1(1) True f by (subst timer_loop.simps) simp
      then show ?thesis using hd None by simp
    next
      case (Some w1)
      then have "timer_loop (?c, now) (first_of (a # vs) None) (w, st) = timer_loop (?c, now) (first_of vs None) (w1, st1)"
        using t s1(1,3) True f by (subst timer_loop.simps) (simp add: timer_fired_def)
      then show ?thesis using Cons.IH [OF s1(2), of w1] hd Some by (simp add: split same fired split: option.splits)
    qed
  qed
qed

lemma loop_rep:
  assumes "timer_rep st xs"
  shows "\<exists>st'. timer_loop (\<lambda>f args w st. Some (eff f args w, st), now) (first_of xs None) (w, st) =
      Some (fold (run_callback eff now) (timers_of st xs) w, st') \<and>
    timer_rep st' xs \<and> timers_of st' xs = map (fire now) (timers_of st xs)"
proof -
  have "fold_opt (callback_opt (\<lambda>f args w. Some (eff f args w)) now) ts w = Some (fold (run_callback eff now) ts w)" for ts
    by (induction ts arbitrary: w) (simp_all add: callback_opt_def run_callback_def)
  moreover have "timers_of s [] = []" for s by (simp add: timers_of_def)
  ultimately show ?thesis using loop_rep_opt [of st "[]" xs "\<lambda>f args w. Some (eff f args w)" now w] assms by simp
qed

subsection \<open>Properties\<close>

text \<open>C29: starting from no timers, the handles and results that any sequence of add, delete, set, suspend and resume
  calls returns are those of a plain list of timers; the list reached has distinct handles in the range of the code, so
  never more than 64 timers; and freeing it afterwards returns with every timer freed.  No call reads a timer that is
  not allocated.\<close>

theorem timer_list_refines:
  assumes "timer_memory st"
  shows "\<exists>st' st''. timer_run ops (ecos_timer_function_init st) = Some (fst (timer_spec_run ops []), st') \<and>
    timer_abs st' (snd (timer_spec_run ops [])) \<and> timers_ok (snd (timer_spec_run ops [])) \<and>
    length (snd (timer_spec_run ops [])) \<le> 64 \<and> ecos_timer_function_free st' = Some st'' \<and> timer_memory st''"
proof -
  have "timers_ok (snd (timer_spec_run ops []))" by (rule timer_spec_run_ok) (simp add: timers_ok_def)
  with timers_ok_length timer_run_refines [OF init_abs [OF assms], of ops] show ?thesis by (metis free_abs)
qed

definition no_timers :: timer_list where "no_timers = \<lparr>tl_head = None, tl_tail = None, tl_mem = (\<lambda>_. None), tl_brk = 1\<rparr>"

theorem timer_list_refines_witness:
  "timer_memory no_timers \<and>
   map_option fst (timer_run [(5, Add ''a'' (Some 7) None 2 (-1)), (6, Add ''b'' (Some 7) None 2 3), (6, Del 0x1097C),
     (7, Suspend 0x1097C), (8, Add ''c'' None None 1 1)] (ecos_timer_function_init no_timers)) =
     Some [0x1097C, 0x1097D, 1, 0, 0x1097C]"
proof -
  have m: "timer_memory no_timers" by (simp add: timer_memory_def no_timers_def)
  have "spec_unused hs 67964 64 = (if 67964 \<notin> hs then 67964 else if 67965 \<notin> hs then 67965 else spec_unused hs 67966 62)" for hs
    by (simp add: numeral_eq_Suc)
  then have "fst (timer_spec_run [(5, Add ''a'' (Some 7) None 2 (-1)), (6, Add ''b'' (Some 7) None 2 3), (6, Del 0x1097C),
     (7, Suspend 0x1097C), (8, Add ''c'' None None 1 1)] []) = [0x1097C, 0x1097D, 1, 0, 0x1097C]"
    by (simp add: ECOS_TIMER_FUNCTION_HANDLE_BEGIN_def new_timer_def change_spec_def del: set_filter set_map)
  with timer_list_refines [OF m] m show ?thesis by fastforce
qed

text \<open>
  When a timer is to run, stated apart from the code: at the first pass an interval or more after it was set or last run,
  as often as it has runs left (\<open>None\<close>: forever).  \<open>fires t ups\<close> says for each pass whether \<open>t\<close> runs in it.
\<close>

fun due_pattern :: "int \<Rightarrow> int \<Rightarrow> nat option \<Rightarrow> int list \<Rightarrow> bool list" where
  "due_pattern since iv left [] = []"
| "due_pattern since iv left (now # ups) =
     (if left \<noteq> Some 0 \<and> since + iv \<le> now then True # due_pattern now iv (map_option (\<lambda>n. n - 1) left) ups
      else False # due_pattern since iv left ups)"

definition fires :: "ecos_timer \<Rightarrow> int list \<Rightarrow> bool list" where
  "fires t ups = (if suspend t \<or> func t = None \<or> interval t \<le> 0 then replicate (length ups) False
     else due_pattern (last_time t) (interval t) (if count t < 0 then None else Some (nat (count t))) ups)"

text \<open>Passes of the loop at the given uptimes, with functions that write down their calls.\<close>

fun loop_passes :: "int list \<Rightarrow> (int \<times> addr \<times> ptr) list \<Rightarrow> timer_list \<Rightarrow> ((int \<times> addr \<times> ptr) list \<times> timer_list) option" where
  "loop_passes [] w st = Some (w, st)"
| "loop_passes (now # ups) w st = do {
     (w, st) \<leftarrow> ecos_timer_function_loop (\<lambda>f args w st. Some (w @ [(now, f, args)], st)) now w st;
     loop_passes ups w st }"

definition calls_at :: "ecos_timer list \<Rightarrow> int list \<Rightarrow> nat \<Rightarrow> (int \<times> addr \<times> ptr) list" where
  "calls_at ts ups i = map (\<lambda>t. (ups ! i, the (func t), p_args t)) (filter (\<lambda>t. fires t ups ! i) ts)"

lemma length_due_pattern [simp]: "length (due_pattern since iv left ups) = length ups"
  by (induction ups arbitrary: since left) auto

lemma due_pattern_bound: "length (filter id (due_pattern since iv (Some n) ups)) \<le> n"
proof (induction ups arbitrary: since n)
  case (Cons now ups)
  from Cons.IH [of now "n - 1"] Cons.IH [of since n] show ?case by auto
qed simp

lemma fires_bound: "0 \<le> count t \<Longrightarrow> length (filter id (fires t ups)) \<le> nat (count t)"
  using due_pattern_bound by (auto simp: fires_def)

lemma fires_Cons: "fires t (now # ups) = timer_due now t # fires (fire now t) ups"
  by (auto simp: fires_def timer_due_def fire_def timer_fired_def ECOS_TIMER_FUNCTION_COUNT_FOREVER_def nat_diff_distrib)

lemma loop_once:
  assumes "timer_abs st ts"
  shows "\<exists>st'. ecos_timer_function_loop (\<lambda>f args w st. Some (eff f args w, st)) now w st =
      Some (fold (run_callback eff now) ts w, st') \<and> timer_abs st' (map (fire now) ts)"
proof -
  obtain xs where r: "timer_rep st xs" "ts = timers_of st xs" using assms by (auto simp: timer_abs_def)
  then have "tl_head st = first_of xs None" by (simp add: timer_rep_def)
  then obtain st' where "ecos_timer_function_loop (\<lambda>f args w st. Some (eff f args w, st)) now w st =
      Some (fold (run_callback eff now) ts w, st')" "timer_rep st' xs" "timers_of st' xs = map (fire now) ts"
    using loop_rep [of st xs eff now w] r by (auto simp: ecos_timer_function_loop_def)
  then show ?thesis unfolding timer_abs_def by (metis (no_types, lifting))
qed

lemma fold_run_callback:
  "fold (run_callback (\<lambda>f args w. w @ [(now, f, args)]) now) ts w =
     w @ map (\<lambda>t. (now, the (func t), p_args t)) (filter (timer_due now) ts)"
  by (induction ts arbitrary: w) (simp_all add: run_callback_def)

lemma calls_at_0: "calls_at ts (now # ups) 0 = map (\<lambda>t. (now, the (func t), p_args t)) (filter (timer_due now) ts)"
  by (simp add: calls_at_def fires_Cons)

lemma calls_at_Suc: "calls_at ts (now # ups) (Suc i) = calls_at (map (fire now) ts) ups i"
  by (simp add: calls_at_def fires_Cons filter_map o_def) (simp add: fire_def timer_fired_def)

text \<open>C30: when the functions of the timers leave the timer list alone, any number of passes of the loop return; in each
  pass the loop calls, in the order of the list, the functions of exactly the timers that are to run in it: those that are
  not suspended and have a function and a positive interval, at the first pass an interval or more after they were set or
  last run, until their count is used up.  A timer with a count of \<open>n\<close> is called at most \<open>n\<close> times.\<close>

theorem timer_loop_fires_due:
  assumes "timer_abs st ts"
  shows "\<exists>st'. loop_passes ups w st = Some (w @ concat (map (calls_at ts ups) [0..<length ups]), st') \<and>
    (\<forall>t \<in> set ts. 0 \<le> count t \<longrightarrow> length (filter id (fires t ups)) \<le> nat (count t))"
proof -
  have "\<exists>st'. loop_passes ups w st = Some (w @ concat (map (calls_at ts ups) [0..<length ups]), st')"
    using assms
  proof (induction ups arbitrary: w st ts)
    case (Cons now ups)
    obtain st1 where s1: "ecos_timer_function_loop (\<lambda>f args w st. Some (w @ [(now, f, args)], st)) now w st =
        Some (w @ calls_at ts (now # ups) 0, st1)" "timer_abs st1 (map (fire now) ts)"
      using loop_once [OF Cons.prems, of "\<lambda>f args w. w @ [(now, f, args)]" now w] by (auto simp: fold_run_callback calls_at_0)
    have "[0..<length (now # ups)] = 0 # map Suc [0..<length ups]" by (simp add: map_Suc_upt upt_conv_Cons del: upt_Suc)
    then have "map (calls_at ts (now # ups)) [0..<length (now # ups)] =
        calls_at ts (now # ups) 0 # map (calls_at (map (fire now) ts) ups) [0..<length ups]"
      by (simp add: calls_at_Suc o_def)
    then have all: "concat (map (calls_at ts (now # ups)) [0..<length (now # ups)]) =
        calls_at ts (now # ups) 0 @ concat (map (calls_at (map (fire now) ts) ups) [0..<length ups])" by simp
    obtain st' where "loop_passes ups (w @ calls_at ts (now # ups) 0) st1 =
        Some ((w @ calls_at ts (now # ups) 0) @ concat (map (calls_at (map (fire now) ts) ups) [0..<length ups]), st')"
      using Cons.IH [OF s1(2)] by blast
    then have "loop_passes (now # ups) w st = Some (w @ concat (map (calls_at ts (now # ups)) [0..<length (now # ups)]), st')"
      unfolding all using s1(1) by simp
    then show ?case ..
  qed simp
  with fires_bound show ?thesis by blast
qed

text \<open>C35: a due timer at the head of the list whose function deletes its own timer makes the loop read the freed timer,
  for the link to the next one.\<close>

theorem timer_self_delete_reads_freed:
  assumes "timer_abs st (t # ts)" and "timer_due now t"
    and "\<And>f args w st. call f args w st = map_option (\<lambda>(_, st). (w, st)) (ecos_timer_function_del st (hnd t))"
  shows "ecos_timer_function_loop call now w st = None"
proof -
  obtain xs where r: "timer_rep st xs" "t # ts = timers_of st xs" using assms(1) by (auto simp: timer_abs_def)
  then obtain a vs where x: "xs = a # vs" by (cases xs) (auto simp: timers_of_def)
  obtain u where u: "tl_mem st a = Some u" "core u = t" using r x by (auto simp: timer_rep_def timers_of_def)
  have due: "timer_due now u" "hnd u = hnd t" using assms(2) u(2) by auto
  obtain f where f: "func u = Some f" using due by (auto simp: timer_due_def)
  obtain st1 where s1: "timer_upd st a (timer_fired now) = Some st1" "timer_rep st1 ([] @ a # vs)"
      "tl_mem st1 = (tl_mem st)(a \<mapsto> timer_fired now u)"
    using upd_rep [of st "[]" a vs "timer_fired now"] r(1) x u by auto
  have "get_timerlist_ptr_by_handle st1 (hnd t) = Some (Some a)"
    using get_timer_rep [OF s1(2), of "hnd t"] s1(3) due by (simp add: timer_fired_def)
  from del_unlinked [OF s1(2) this] have "ecos_timer_function_del st1 (hnd t) = Some (True, unlinked st1 [] a vs)" .
  moreover have "tl_mem (unlinked st1 [] a vs) a = None" by (simp add: unlinked_def)
  moreover have "tl_head st = Some a" using r x by (simp add: timer_rep_def)
  ultimately show ?thesis using u(1) due f s1(1) assms(3)
    unfolding ecos_timer_function_loop_def by (subst timer_loop.simps) simp
qed

definition one_timer :: timer_list where
  "one_timer = \<lparr>tl_head = Some 1, tl_tail = Some 1, tl_mem = [1 \<mapsto> new_timer 0x1097C 0 ''t'' (Some 9) None 5 1], tl_brk = 2\<rparr>"

lemma one_timer_abs: "timer_abs one_timer [new_timer 0x1097C 0 ''t'' (Some 9) None 5 1]"
  unfolding timer_abs_def
  by (intro exI [of _ "[1]"]) (simp add: timer_rep_def timers_of_def one_timer_def new_timer_def core_def last_of_def)

theorem timer_loop_fires_due_witness:
  "timer_abs one_timer [new_timer 0x1097C 0 ''t'' (Some 9) None 5 1] \<and>
   map_option fst (loop_passes [4, 7, 12] [] one_timer) = Some [(7, 9, None)]"
proof -
  have "fires (new_timer 0x1097C 0 ''t'' (Some 9) None 5 1) [4, 7, 12] = [False, True, False]"
    by (simp add: fires_def new_timer_def)
  moreover have "[0..<length [4, 7, 12 :: int]] = [0, 1, 2]" by (simp add: upt_rec)
  ultimately have "concat (map (calls_at [new_timer 0x1097C 0 ''t'' (Some 9) None 5 1] [4, 7, 12]) [0..<length [4, 7, 12 :: int]]) =
      [(7, 9, None)]" by (simp add: calls_at_def new_timer_def)
  with timer_loop_fires_due [OF one_timer_abs, of "[4, 7, 12]" "[]"] one_timer_abs show ?thesis
    unfolding append_Nil by (metis (lifting) fst_conv option.simps(9))
qed

theorem timer_self_delete_reads_freed_witness:
  "timer_abs one_timer [new_timer 0x1097C 0 ''t'' (Some 9) None 5 1] \<and>
   timer_due 5 (new_timer 0x1097C 0 ''t'' (Some 9) None 5 1) \<and>
   ecos_timer_function_loop (\<lambda>f args w st. map_option (\<lambda>(_, st). (w, st)) (ecos_timer_function_del st 0x1097C)) 5 () one_timer = None"
proof -
  have d: "timer_due 5 (new_timer 0x1097C 0 ''t'' (Some 9) None 5 1)" by (simp add: timer_due_def new_timer_def)
  have "ecos_timer_function_loop (\<lambda>f args w st. map_option (\<lambda>(_, st). (w, st)) (ecos_timer_function_del st 0x1097C)) 5 () one_timer = None"
    by (rule timer_self_delete_reads_freed [OF one_timer_abs d]) (simp add: new_timer_def)
  with one_timer_abs d show ?thesis by blast
qed

end
