(* ===== verification/Ecos_Root.thy ===== *)
theory Ecos_Root
  imports Ecos_Net Ecos_Mib_Comm Ecos_Mib_Reg Ecos_Timer
begin

text \<open>
  The configuration daemon that puts the parts together (\<^verbatim>\<open>041_ecos_mib/apps/ecos\<close>: \<^verbatim>\<open>ecos_oem_root.c\<close>, \<^verbatim>\<open>ecos_oem_database.c\<close>,
  \<^verbatim>\<open>ecos_oem_mib_parser.c\<close>, \<^verbatim>\<open>ecos_mib/ecos_mib_net.c\<close>, \<^verbatim>\<open>ecos_mib/ecos_mib_system.c\<close>, \<^verbatim>\<open>ecos_addr_rule.c\<close>, \<^verbatim>\<open>ecos_main.c\<close>).
  \<open>g_ConfigSet\<close> is an array of bytes with the layout of the struct, and a pointer into it is its offset.  Pointers to
  functions are numbers.  What the interface, the link and the sockets answer is an argument; of the messages only the one
  that reads memory with \<open>%s\<close>, the product name, is modelled.
\<close>

subsection \<open>Data\<close>

text \<open>The layout of \<open>ConfigSet_t\<close>.\<close>

definition off_szProductName :: nat where "off_szProductName = 4"
definition size_szProductName :: nat where "size_szProductName = 32"
definition off_IPSets :: nat where "off_IPSets = 36"
definition size_IPSets :: nat where "size_IPSets = 24"
definition off_ulIPType :: nat where "off_ulIPType = 36"
definition off_inIPAddress :: nat where "off_inIPAddress = 40"
definition size_ConfigSet :: nat where "size_ConfigSet = 60"

definition IP_TYPE_STATIC_IP :: u32 where "IP_TYPE_STATIC_IP = 0"
definition IP_TYPE_DHCP_CLIENT :: u32 where "IP_TYPE_DHCP_CLIENT = 1"
definition IP_STR_MIN_LEN :: nat where "IP_STR_MIN_LEN = 8"
definition IP_STR_MAX_LEN :: nat where "IP_STR_MAX_LEN = 16"

definition MIB_PRODUCT_NAME :: u32 where "MIB_PRODUCT_NAME = 0x33100004"
definition MIB_NET_TYPE :: u32 where "MIB_NET_TYPE = 0x33110001"
definition MIB_NET_IP :: u32 where "MIB_NET_IP = 0x33110002"

definition ECOS_EXT_DB_SAVE :: u32 where "ECOS_EXT_DB_SAVE = 1"
definition ECOS_EXT_DB_TAP_SAVE :: u32 where "ECOS_EXT_DB_TAP_SAVE = 2"
definition ECOS_PERMISSION_ALL :: u32 where "ECOS_PERMISSION_ALL = 0x80000000 OR 1 OR 2 OR 4"

text \<open>The functions that are called through pointers.\<close>

definition fn_root_config :: addr where "fn_root_config = 1"
definition fn_link_integrity_monitor :: addr where "fn_link_integrity_monitor = 2"
definition fn_addr_rule_default :: addr where "fn_addr_rule_default = 3"
definition fn_load_common :: addr where "fn_load_common = 4"
definition fn_ParserSystemIPType :: addr where "fn_ParserSystemIPType = 5"
definition fn_ParserSystemIP :: addr where "fn_ParserSystemIP = 6"
definition fn_ParserProductName :: addr where "fn_ParserProductName = 7"

record ecos_env =
  ee_dev :: dev_env
  ee_link :: "nat \<Rightarrow> bool"

record ecos_world =
  g_ConfigSet :: "u8 list"
  g_ConfigSetBackup :: "u8 list"
  g_exec_first_flag :: bool
  g_exec_parent_flag :: bool
  w_dev :: dev_state
  g_last_link_status :: bool
  w_links :: nat

record ecos =
  e_world :: ecos_world
  e_timers :: timer_list
  e_registry :: mib_registry
  e_cf :: cf_state
  s_timer_root_config :: int
  s_link_integrity_timer :: int
  g_mib_comm_fd :: int

subsection \<open>Applying the configuration\<close>

definition exec_memcmp :: "ecos_world \<Rightarrow> nat \<Rightarrow> nat \<Rightarrow> bool" where
  "exec_memcmp w off sz \<longleftrightarrow> take sz (drop off (g_ConfigSet w)) \<noteq> take sz (drop off (g_ConfigSetBackup w))"

text \<open>The block between \<open>ECOS_EXEC_START\<close> and \<open>ECOS_EXEC_END\<close>.\<close>

definition ecos_exec :: "nat \<Rightarrow> nat \<Rightarrow> (ecos_world \<Rightarrow> ecos_world option) \<Rightarrow> ecos_world \<Rightarrow> ecos_world option" where
  "ecos_exec off sz body w = do {
     let parent_backup = g_exec_parent_flag w;
     let w = (if g_exec_first_flag w \<or> g_exec_parent_flag w \<or> exec_memcmp w off sz then w\<lparr>g_exec_parent_flag := True\<rparr> else w);
     w \<leftarrow> (if g_exec_parent_flag w then body w else Some w);
     Some (w\<lparr>g_exec_parent_flag := parent_backup\<rparr>) }"

definition config_u32 :: "ecos_world \<Rightarrow> nat \<Rightarrow> u32" where
  "config_u32 w off = (case bytes_u32 (drop off (g_ConfigSet w)) of Some v \<Rightarrow> v | None \<Rightarrow> 0)"

definition ecos_setting_net_ip :: "ecos_env \<Rightarrow> string \<Rightarrow> ecos_world \<Rightarrow> ecos_world" where
  "ecos_setting_net_ip env dev w =
     (if config_u32 w off_ulIPType = IP_TYPE_DHCP_CLIENT \<or> config_u32 w off_ulIPType = IP_TYPE_STATIC_IP
      then w\<lparr>w_dev := snd (InterfaceIPSet (ee_dev env) dev (config_u32 w off_inIPAddress) (w_dev w))\<rparr> else w)"

definition ecos_upgrade_network_settings :: "ecos_env \<Rightarrow> string \<Rightarrow> ecos_world \<Rightarrow> ecos_world option" where
  "ecos_upgrade_network_settings env dev_name w =
     (if config_u32 w off_ulIPType = IP_TYPE_STATIC_IP
      then ecos_exec off_IPSets size_IPSets (\<lambda>w. Some (ecos_setting_net_ip env dev_name w)) w else Some w)"

definition ecos_mib_net_exec :: "ecos_env \<Rightarrow> ecos_world \<Rightarrow> ecos_world option" where
  "ecos_mib_net_exec env w = ecos_upgrade_network_settings env ''ens33'' w"

text \<open>Printing the product name with \<open>%s\<close>: it must end within its field.\<close>

definition print_name :: "ecos_world \<Rightarrow> string option" where
  "print_name w = cstr_at (chars_of (take size_szProductName (drop off_szProductName (g_ConfigSet w)))) 0"

definition ecos_mib_system_exec :: "ecos_world \<Rightarrow> ecos_world option" where
  "ecos_mib_system_exec w =
     ecos_exec off_szProductName size_szProductName (\<lambda>w. do { _ \<leftarrow> print_name w; Some w }) w"

definition root_config :: "ecos_env \<Rightarrow> ecos_world \<Rightarrow> ecos_world option" where
  "root_config env w = do {
     let w = w\<lparr>g_exec_parent_flag := False\<rparr>;
     w \<leftarrow> ecos_mib_system_exec w;
     w \<leftarrow> ecos_mib_net_exec env w;
     let w = w\<lparr>g_ConfigSetBackup := g_ConfigSet w\<rparr>;
     Some (if g_exec_first_flag w then w\<lparr>g_exec_first_flag := False\<rparr> else w) }"

definition ecos_mib_root_exec :: "ecos_env \<Rightarrow> int \<Rightarrow> ecos \<Rightarrow> ecos option" where
  "ecos_mib_root_exec env uptime e = do {
     e \<leftarrow> (if g_exec_first_flag (e_world e) then do { w \<leftarrow> root_config env (e_world e); Some (e\<lparr>e_world := w\<rparr>) } else Some e);
     (_, ts) \<leftarrow> ecos_timer_function_set uptime (e_timers e) (s_timer_root_config e) (Some fn_root_config) None 2 1;
     Some (e\<lparr>e_timers := ts\<rparr>) }"

definition ecos_link_integrity_monitor :: "ecos_env \<Rightarrow> ecos_world \<Rightarrow> ecos_world" where
  "ecos_link_integrity_monitor env w =
     (let cur = ee_link env (w_links w);
          w = w\<lparr>w_links := w_links w + 1\<rparr>
      in if cur \<noteq> g_last_link_status w then w\<lparr>g_last_link_status := cur\<rparr> else w)"

text \<open>The functions the timers call.\<close>

definition timer_effect :: "ecos_env \<Rightarrow> addr \<Rightarrow> ptr \<Rightarrow> ecos_world \<Rightarrow> ecos_world option" where
  "timer_effect env f args w =
     (if f = fn_root_config then root_config env w
      else if f = fn_link_integrity_monitor then Some (ecos_link_integrity_monitor env w) else Some w)"

definition ecos_timers_run :: "ecos_env \<Rightarrow> int \<Rightarrow> ecos \<Rightarrow> ecos option" where
  "ecos_timers_run env uptime e = do {
     (w, ts) \<leftarrow> ecos_timer_function_loop (\<lambda>f args w st. map_option (\<lambda>w. (w, st)) (timer_effect env f args w)) uptime (e_world e) (e_timers e);
     Some (e\<lparr>e_world := w, e_timers := ts\<rparr>) }"

subsection \<open>Parsers\<close>

text \<open>\<open>ecos_addr_rule_default\<close>; the address \<open>~0\<close> stands for an index out of range.\<close>

definition ECOS_ADDR_ERROR :: ptr where "ECOS_ADDR_ERROR = Some (2 ^ 64 - 1)"

definition ecos_addr_rule_default :: "ptr \<Rightarrow> u32 \<Rightarrow> u8 \<Rightarrow> ptr" where
  "ecos_addr_rule_default base bsize index = base"

definition call_rule :: "ptr \<Rightarrow> ptr \<Rightarrow> u32 \<Rightarrow> u8 \<Rightarrow> ptr option" where
  "call_rule f base bsize index =
     (if f = Some fn_addr_rule_default then Some (ecos_addr_rule_default base bsize index) else None)"

text \<open>The parameters of a parser: the request and its length, the field, and the data areas of the request and the
  response.  The results: the code, the length of the response, and the areas.\<close>

record parser_args =
  pa_Request :: u8
  pa_usRequestLength :: u16
  pa_pCfgField :: nat
  pa_ulCfgSize :: nat
  pa_pReq :: "u8 list"
  pa_pResp :: "u8 list"

type_synonym parser_result = "(u8 \<times> nat \<times> ecos \<times> u8 list \<times> u8 list) option"

definition set_config :: "nat \<Rightarrow> u8 list \<Rightarrow> ecos \<Rightarrow> ecos option" where
  "set_config off d e = do {
     cfg \<leftarrow> store_bytes (g_ConfigSet (e_world e)) off d;
     Some (e\<lparr>e_world := (e_world e)\<lparr>g_ConfigSet := cfg\<rparr>\<rparr>) }"

definition read_field :: "parser_args \<Rightarrow> ecos \<Rightarrow> parser_result" where
  "read_field a e = do {
     d \<leftarrow> load_bytes (g_ConfigSet (e_world e)) (pa_pCfgField a) (pa_ulCfgSize a);
     resp \<leftarrow> store_bytes (pa_pResp a) 0 d;
     Some (CONF_RESULT_OK, pa_ulCfgSize a, e, pa_pReq a, resp) }"

definition ParserSystemIPType :: "ecos_env \<Rightarrow> int \<Rightarrow> parser_args \<Rightarrow> ecos \<Rightarrow> parser_result" where
  "ParserSystemIPType env uptime a e = do {
     ulReqData \<leftarrow> bytes_u32 (pa_pReq a);
     let ret = (\<lambda>r. Some (r, 0, e, pa_pReq a, pa_pResp a));
     (if pa_Request a = CONF_REQUEST_FIELD_INFO then ret CONF_RESULT_OK
      else if pa_Request a = CONF_REQUEST_READ then read_field a e
      else if pa_Request a = CONF_REQUEST_WRITE then
        if unat (pa_usRequestLength a) < pa_ulCfgSize a then ret CONF_RESULT_DATA_TOO_SHORT
        else if unat (pa_usRequestLength a) > pa_ulCfgSize a then ret CONF_RESULT_DATA_TOO_LONG
        else do {
          cur \<leftarrow> bytes_u32 (drop (pa_pCfgField a) (g_ConfigSet (e_world e)));
          (if ulReqData \<noteq> cur then do {
             e \<leftarrow> set_config (pa_pCfgField a) (u32_bytes ulReqData) e;
             e \<leftarrow> ecos_mib_root_exec env uptime e;
             Some (CONF_RESULT_OK, 0, e, pa_pReq a, pa_pResp a) }
           else ret CONF_RESULT_REQUEST_NOT_HANDLE) }
      else ret CONF_RESULT_REQUEST_NOT_HANDLE) }"

definition ParserSystemIP :: "ecos_env \<Rightarrow> int \<Rightarrow> parser_args \<Rightarrow> ecos \<Rightarrow> parser_result" where
  "ParserSystemIP env uptime a e = (
     let ret = (\<lambda>r. Some (r, 0, e, pa_pReq a, pa_pResp a)) in
     if pa_Request a = CONF_REQUEST_FIELD_INFO then ret CONF_RESULT_OK
     else if pa_Request a = CONF_REQUEST_READ then do {
       let s = IP2Str (config_u32 (e_world e) off_inIPAddress);
       resp \<leftarrow> store_bytes (pa_pResp a) 0 (bytes_of (s @ [NUL]));
       Some (CONF_RESULT_OK, length s + 1, e, pa_pReq a, resp) }
     else if pa_Request a = CONF_REQUEST_WRITE then
       if unat (pa_usRequestLength a) < IP_STR_MIN_LEN then ret CONF_RESULT_DATA_TOO_SHORT
       else if unat (pa_usRequestLength a) > IP_STR_MAX_LEN then ret CONF_RESULT_DATA_TOO_LONG
       else do {
         s \<leftarrow> cstr_at (chars_of (pa_pReq a)) 0;
         (case Str2IP s of
            None \<Rightarrow> ret CONF_RESULT_DATA_INVALID
          | Some ulIP \<Rightarrow>
              if \<not> IsValidIP ulIP then ret CONF_RESULT_DATA_INVALID
              else if config_u32 (e_world e) off_inIPAddress \<noteq> ulIP then do {
                e \<leftarrow> set_config off_inIPAddress (u32_bytes ulIP) e;
                e \<leftarrow> ecos_mib_root_exec env uptime e;
                Some (CONF_RESULT_OK, 0, e, pa_pReq a, pa_pResp a) }
              else ret CONF_RESULT_REQUEST_NOT_HANDLE) }
     else ret CONF_RESULT_REQUEST_NOT_HANDLE)"

definition ParserProductName :: "ecos_env \<Rightarrow> int \<Rightarrow> parser_args \<Rightarrow> ecos \<Rightarrow> parser_result" where
  "ParserProductName env uptime a e = (
     let ret = (\<lambda>r. Some (r, 0, e, pa_pReq a, pa_pResp a)) in
     if pa_Request a = CONF_REQUEST_FIELD_INFO then ret CONF_RESULT_OK
     else if pa_Request a = CONF_REQUEST_READ then read_field a e
     else if pa_Request a = CONF_REQUEST_WRITE then
       if unat (pa_usRequestLength a) > pa_ulCfgSize a then ret CONF_RESULT_DATA_TOO_LONG
       else do {
         pReq \<leftarrow> array_set (pa_pReq a) (pa_ulCfgSize a - 1) 0;
         d \<leftarrow> load_bytes pReq 0 (unat (pa_usRequestLength a));
         cur \<leftarrow> load_bytes (g_ConfigSet (e_world e)) (pa_pCfgField a) (unat (pa_usRequestLength a));
         (if d = cur then Some (CONF_RESULT_OK, 0, e, pReq, pa_pResp a)
          else do {
            e \<leftarrow> set_config (pa_pCfgField a) d e;
            e \<leftarrow> ecos_mib_root_exec env uptime e;
            Some (CONF_RESULT_OK, 0, e, pReq, pa_pResp a) }) }
     else ret CONF_RESULT_REQUEST_NOT_HANDLE)"

definition call_parser :: "addr \<Rightarrow> ecos_env \<Rightarrow> int \<Rightarrow> parser_args \<Rightarrow> ecos \<Rightarrow> parser_result" where
  "call_parser f env uptime a e =
     (if f = fn_ParserSystemIPType then ParserSystemIPType env uptime a e
      else if f = fn_ParserSystemIP then ParserSystemIP env uptime a e
      else if f = fn_ParserProductName then ParserProductName env uptime a e else None)"

text \<open>The hook of the server, over the two buffers: 12 bytes of header, then the data.\<close>

definition parser_mib_root :: "ecos_env \<Rightarrow> int \<Rightarrow> ecos server_hook" where
  "parser_mib_root env uptime e req resp = do {
     ulMIB \<leftarrow> hdr_mib req;
     uchIndex \<leftarrow> hdr_index req;
     uchRequest \<leftarrow> hdr_request req;
     usDataLength \<leftarrow> hdr_len req;
     let fail = (\<lambda>r. do { resp \<leftarrow> store_bytes resp 8 [r]; Some (0, e, req, resp) });
     p \<leftarrow> ecos_mib_find (e_registry e) ulMIB;
     (case p of
        None \<Rightarrow> fail CONF_RESULT_MIB_UNKNOWN
      | Some n \<Rightarrow> do {
          mib_node \<leftarrow> mr_regs (e_registry e) n;
          node_real_addr \<leftarrow> call_rule (rule_fn mib_node) (base_addr mib_node) (base_size mib_node) uchIndex;
          (if node_real_addr = ECOS_ADDR_ERROR then fail CONF_RESULT_INDEX_OUT_OF_RANGE
           else if uchRequest \<notin> {CONF_REQUEST_FIELD_INFO, CONF_REQUEST_READ, CONF_REQUEST_WRITE, CONF_REQUEST_REMOVE, CONF_REQUEST_PERMISSION}
             then fail CONF_RESULT_REQUEST_DENY
           else (case parser_fn mib_node of
               None \<Rightarrow> fail CONF_RESULT_REQUEST_NOT_HANDLE
             | Some f \<Rightarrow> do {
                 fld \<leftarrow> node_real_addr;
                 (r, n, e, pReq, pResp) \<leftarrow> call_parser f env uptime
                   \<lparr>pa_Request = uchRequest, pa_usRequestLength = usDataLength, pa_pCfgField = fld,
                    pa_ulCfgSize = unat (base_size mib_node), pa_pReq = drop 12 req, pa_pResp = drop 12 resp\<rparr> e;
                 resp \<leftarrow> store_bytes (take 12 resp @ pResp) 8 [r];
                 resp \<leftarrow> store_bytes resp 4 (u16_bytes (of_nat n));
                 Some (uint (of_nat n :: u16), e, take 12 req @ pReq, resp) })) }) }"

subsection \<open>Loading the configuration\<close>

definition ecos_load_common :: "config_file \<Rightarrow> mib_shash_reg \<Rightarrow> ecos_world \<Rightarrow> ecos_world option" where
  "ecos_load_common config_file mib_node w = do {
     real_addr \<leftarrow> call_rule (rule_fn mib_node) (base_addr mib_node) (base_size mib_node) (cf_index config_file);
     (if real_addr = ECOS_ADDR_ERROR then Some w
      else (case real_addr of
          None \<Rightarrow> Some w
        | Some off \<Rightarrow>
            if reg_type mib_node = ECOS_CF_IP \<and> cf_len config_file = 4 then do {
              v \<leftarrow> bytes_u32 (cf_pdata config_file);
              cfg \<leftarrow> store_bytes (g_ConfigSet w) off (u32_bytes (ntohl v));
              Some (w\<lparr>g_ConfigSet := cfg\<rparr>) }
            else do {
              d \<leftarrow> load_bytes (cf_pdata config_file) 0 (unat (cf_len config_file));
              cfg \<leftarrow> store_bytes (g_ConfigSet w) off d;
              Some (w\<lparr>g_ConfigSet := cfg\<rparr>) })) }"

definition load_value :: "mib_registry \<Rightarrow> config_file \<Rightarrow> ecos_world \<Rightarrow> ecos_world option" where
  "load_value reg config_file w = do {
     key \<leftarrow> cstr_at (cf_key config_file) 0;
     p \<leftarrow> ecos_mib_find_by_desc reg key;
     (case p of
        None \<Rightarrow> Some w
      | Some a \<Rightarrow> do {
          mib_node \<leftarrow> mr_regs reg a;
          (if load_fn mib_node = None \<or> (ext_flag mib_node AND ECOS_EXT_DB_SAVE) = 0 then Some w
           else if load_fn mib_node = Some fn_load_common then ecos_load_common config_file mib_node w else None) }) }"

definition ECOS_CONFIG_FILE_LOAD_SUCCESS :: int where "ECOS_CONFIG_FILE_LOAD_SUCCESS = 0"
definition ECOS_CONFIG_FILE_LOAD_FAILED :: int where "ECOS_CONFIG_FILE_LOAD_FAILED = 1"

definition ecos_config_file_load :: "string \<Rightarrow> ecos \<Rightarrow> (int \<times> ecos) option" where
  "ecos_config_file_load arg e =
     (let (r, cf) = ecos_config_file_open (e_cf e) arg ''r'' in
      if r \<noteq> 0 then Some (ECOS_CONFIG_FILE_LOAD_FAILED, e\<lparr>e_cf := cf\<rparr>)
      else do {
        (w, cf) \<leftarrow> load_loop (load_value (e_registry e)) (e_world e, cf);
        Some (ECOS_CONFIG_FILE_LOAD_SUCCESS, e\<lparr>e_world := w, e_cf := ecos_config_file_close cf\<rparr>) })"

subsection \<open>Start, loop and end\<close>

text \<open>\<open>raw\<close> is what allocated memory holds.\<close>

definition register_mib :: "mib_shash_reg \<Rightarrow> u32 \<Rightarrow> reg_args \<Rightarrow> ecos \<Rightarrow> ecos option" where
  "register_mib raw mib ra e = do { (_, reg) \<leftarrow> ecos_mib_register (e_registry e) mib ra raw; Some (e\<lparr>e_registry := reg\<rparr>) }"

definition args_ProductName :: reg_args where
  "args_ProductName = \<lparr>ra_desc = ''ProductName'', ra_type = ECOS_CF_STRING, ra_base_addr = Some off_szProductName,
     ra_base_size = of_nat size_szProductName, ra_parser_fn = Some fn_ParserProductName, ra_rule_fn = Some fn_addr_rule_default,
     ra_save_fn = None, ra_load_fn = Some fn_load_common, ra_permission = ECOS_PERMISSION_ALL, ra_ext_flag = ECOS_EXT_DB_SAVE\<rparr>"

definition args_ulIPType :: reg_args where
  "args_ulIPType = \<lparr>ra_desc = ''ulIPType'', ra_type = ECOS_CF_U32, ra_base_addr = Some off_ulIPType,
     ra_base_size = 4, ra_parser_fn = Some fn_ParserSystemIPType, ra_rule_fn = Some fn_addr_rule_default,
     ra_save_fn = None, ra_load_fn = None, ra_permission = ECOS_PERMISSION_ALL, ra_ext_flag = ECOS_EXT_DB_SAVE OR ECOS_EXT_DB_TAP_SAVE\<rparr>"

definition args_inIPAddress :: reg_args where
  "args_inIPAddress = \<lparr>ra_desc = ''inIPAddress'', ra_type = ECOS_CF_IP, ra_base_addr = Some off_inIPAddress,
     ra_base_size = 4, ra_parser_fn = Some fn_ParserSystemIP, ra_rule_fn = Some fn_addr_rule_default,
     ra_save_fn = None, ra_load_fn = None, ra_permission = ECOS_PERMISSION_ALL, ra_ext_flag = ECOS_EXT_DB_SAVE OR ECOS_EXT_DB_TAP_SAVE\<rparr>"

definition ecos_mibs_system_register :: "mib_shash_reg \<Rightarrow> ecos \<Rightarrow> ecos option" where
  "ecos_mibs_system_register raw e = register_mib raw MIB_PRODUCT_NAME args_ProductName e"

definition ecos_mibs_net_register :: "mib_shash_reg \<Rightarrow> ecos \<Rightarrow> ecos option" where
  "ecos_mibs_net_register raw e = do {
     e \<leftarrow> register_mib raw MIB_NET_TYPE args_ulIPType e;
     register_mib raw MIB_NET_IP args_inIPAddress e }"

definition add_timer :: "int \<Rightarrow> string \<Rightarrow> ptr \<Rightarrow> int \<Rightarrow> int \<Rightarrow> ecos \<Rightarrow> (int \<times> ecos) option" where
  "add_timer uptime description f iv cnt e = do {
     (h, ts) \<leftarrow> ecos_timer_function_add uptime (e_timers e) description f None iv cnt;
     Some (h, e\<lparr>e_timers := ts\<rparr>) }"

definition ecos_mib_system_init :: "int \<Rightarrow> ecos \<Rightarrow> ecos option" where
  "ecos_mib_system_init uptime e = do {
     (h, e) \<leftarrow> add_timer uptime ''check link integrity'' (Some fn_link_integrity_monitor) 2 ECOS_TIMER_FUNCTION_COUNT_FOREVER e;
     Some (e\<lparr>s_link_integrity_timer := h\<rparr>) }"

definition ecos_mib_parser_client_init :: "int \<Rightarrow> ecos \<times> mib_comm \<Rightarrow> (int \<times> ecos \<times> mib_comm) option" where
  "ecos_mib_parser_client_init sock s = do {
     let (e, c) = s;
     (fd, c) \<leftarrow> ECosMibCommServerRegister sock c;
     let e = e\<lparr>g_mib_comm_fd := fd\<rparr>;
     Some (if fd < 0 then -1 else 0, e, c) }"

definition ECOS_CONFIG_FILE :: string where
  "ECOS_CONFIG_FILE = ''/home/s5pv210/test1219/linux_code/041_ecos_mib/ecos.cfg''"

record init_env =
  ie_env :: ecos_env
  ie_sock :: int
  ie_raw :: mib_shash_reg
  ie_uptime :: int
  ie_brk :: addr

definition ecos_oem_root_init :: "init_env \<Rightarrow> ecos \<times> mib_comm \<Rightarrow> (int \<times> ecos \<times> mib_comm) option" where
  "ecos_oem_root_init ie s = do {
     let (e, c) = s;
     (h, e) \<leftarrow> add_timer (ie_uptime ie) ''system root configure'' None 0 0 e;
     let e = e\<lparr>s_timer_root_config := h\<rparr>;
     (r, e, c) \<leftarrow> ecos_mib_parser_client_init (ie_sock ie) (e, c);
     (if r \<noteq> 0 then Some (-1, e, c)
      else do {
        e \<leftarrow> ecos_mibs_system_register (ie_raw ie) e;
        e \<leftarrow> ecos_mibs_net_register (ie_raw ie) e;
        (_, e) \<leftarrow> ecos_config_file_load ECOS_CONFIG_FILE e;
        e \<leftarrow> (case Str2IP ''192.168.70.185'' of Some ip \<Rightarrow> set_config off_inIPAddress (u32_bytes ip) e | None \<Rightarrow> Some e);
        e \<leftarrow> ecos_mib_system_init (ie_uptime ie) e;
        e \<leftarrow> ecos_mib_root_exec (ie_env ie) (ie_uptime ie) e;
        Some (0, e, c) }) }"

definition ecos_mib_parser_client_free :: "int \<Rightarrow> ecos \<times> mib_comm \<Rightarrow> ecos \<times> mib_comm" where
  "ecos_mib_parser_client_free closed s =
     (let (e, c) = s; (_, c) = ECosMibCommServerUnregister closed c in (e\<lparr>g_mib_comm_fd := INVALID_SOCKET\<rparr>, c))"

definition oem_main_init :: "init_env \<Rightarrow> ecos \<times> mib_comm \<Rightarrow> (ecos \<times> mib_comm) option" where
  "oem_main_init ie s = do {
     let (e, c) = s;
     let e = e\<lparr>e_timers := ecos_timer_function_init (e_timers e)\<rparr>;
     let e = e\<lparr>e_registry := snd (ecos_mib_reg_init (e_registry e) (ie_brk ie))\<rparr>;
     let e = e\<lparr>e_cf := snd (ecos_config_file_init (e_cf e))\<rparr>;
     (_, e, c) \<leftarrow> ecos_oem_root_init ie (e, c);
     Some (e, c) }"

text \<open>One turn of the main loop: the request that \<open>select\<close> reports, if any, then the timers.  The answer that is sent, if
  any, is a result.\<close>

definition oem_main_turn ::
  "ecos_env \<Rightarrow> int \<Rightarrow> u8 list option \<Rightarrow> ecos \<times> mib_comm \<Rightarrow> (u8 list option \<times> ecos \<times> mib_comm) option" where
  "oem_main_turn env uptime request s = do {
     (answer, e, c) \<leftarrow> (case request of
         None \<Rightarrow> Some (None, s)
       | Some d \<Rightarrow> server_net (parser_mib_root env uptime) s d);
     e \<leftarrow> ecos_timers_run env uptime e;
     Some (answer, e, c) }"

definition oem_main_free :: "int \<Rightarrow> ecos \<times> mib_comm \<Rightarrow> (ecos \<times> mib_comm) option" where
  "oem_main_free closed s = do {
     let (e, c) = ecos_mib_parser_client_free closed s;
     let e = e\<lparr>e_cf := ecos_config_file_free (e_cf e)\<rparr>;
     ts \<leftarrow> ecos_timer_function_free (e_timers e);
     reg \<leftarrow> ecos_mib_reg_free (e_registry e);
     Some (e\<lparr>e_timers := ts, e_registry := reg\<rparr>, c) }"

subsection \<open>The world\<close>

definition world_ok :: "ecos_world \<Rightarrow> bool" where
  "world_ok w \<longleftrightarrow> length (g_ConfigSet w) = size_ConfigSet"

text \<open>The product name ends in its field when the last byte of the field is zero.\<close>

definition name_closed :: "ecos_world \<Rightarrow> bool" where
  "name_closed w \<longleftrightarrow> g_ConfigSet w ! (off_szProductName + size_szProductName - 1) = 0"

lemma print_name_closed:
  assumes "world_ok w" "name_closed w"
  shows "\<exists>s. print_name w = Some s"
proof -
  let ?f = "take 32 (drop 4 (g_ConfigSet w))"
  have "length ?f = 32" using assms(1) by (simp add: world_ok_def size_ConfigSet_def)
  moreover have "?f ! 31 = 0" using assms
    by (simp add: world_ok_def size_ConfigSet_def name_closed_def off_szProductName_def size_szProductName_def)
  ultimately have "0 \<in> set ?f" by (metis nth_mem numeral_less_iff semiring_norm(76) semiring_norm(81) semiring_norm(78) semiring_norm(77))
  then have "char_of (unat (0 :: u8)) \<in> set (chars_of ?f)" unfolding chars_of_def set_map by (rule imageI)
  then have "NUL \<in> set (chars_of ?f)" by (simp add: char_of_def)
  then show ?thesis by (simp add: print_name_def cstr_at_def off_szProductName_def size_szProductName_def)
qed

lemma setting_config [simp]:
  "g_ConfigSet (ecos_setting_net_ip env dev w) = g_ConfigSet w" "g_ConfigSetBackup (ecos_setting_net_ip env dev w) = g_ConfigSetBackup w"
  "g_exec_first_flag (ecos_setting_net_ip env dev w) = g_exec_first_flag w"
  by (simp_all add: ecos_setting_net_ip_def)

text \<open>What applying the configuration does.\<close>

lemma system_exec_Some:
  "ecos_mib_system_exec w = Some w' \<Longrightarrow> w' = w"
  by (auto simp: ecos_mib_system_exec_def ecos_exec_def Let_def bind_Some_iff split: if_splits)

lemma net_exec_Some:
  "\<exists>w'. ecos_mib_net_exec env w = Some w' \<and> g_ConfigSet w' = g_ConfigSet w \<and> g_exec_first_flag w' = g_exec_first_flag w"
  by (simp add: ecos_mib_net_exec_def ecos_upgrade_network_settings_def ecos_exec_def Let_def)

lemma root_config_frame:
  assumes "root_config env w = Some w'"
  shows "g_ConfigSet w' = g_ConfigSet w" "g_ConfigSetBackup w' = g_ConfigSet w" "\<not> g_exec_first_flag w'"
proof -
  obtain w1 w2 where w: "ecos_mib_system_exec (w\<lparr>g_exec_parent_flag := False\<rparr>) = Some w1" "ecos_mib_net_exec env w1 = Some w2"
    "w' = (if g_exec_first_flag w2 then w2\<lparr>g_ConfigSetBackup := g_ConfigSet w2, g_exec_first_flag := False\<rparr> else w2\<lparr>g_ConfigSetBackup := g_ConfigSet w2\<rparr>)"
    using assms by (auto simp: root_config_def Let_def bind_Some_iff split: if_splits)
  have "w1 = w\<lparr>g_exec_parent_flag := False\<rparr>" using w(1) by (rule system_exec_Some)
  then show "g_ConfigSet w' = g_ConfigSet w" "g_ConfigSetBackup w' = g_ConfigSet w" "\<not> g_exec_first_flag w'"
    using net_exec_Some [of env w1] w(2,3) by auto
qed

lemma root_config_defined:
  assumes "world_ok w" "name_closed w"
  shows "\<exists>w'. root_config env w = Some w'"
proof -
  let ?w = "w\<lparr>g_exec_parent_flag := False\<rparr>"
  obtain s where "print_name w = Some s" using print_name_closed [OF assms] by blast
  then have "print_name (w\<lparr>g_exec_parent_flag := b\<rparr>) = Some s" for b by (simp add: print_name_def)
  then have "\<exists>w1. ecos_mib_system_exec ?w = Some w1"
    by (simp add: ecos_mib_system_exec_def ecos_exec_def Let_def)
  then obtain w1 where "ecos_mib_system_exec ?w = Some w1" ..
  with net_exec_Some [of env w1] show ?thesis by (auto simp: root_config_def)
qed

text \<open>A name that fills its field is read past it, when it is printed for the first time.\<close>

lemma root_config_open_name:
  assumes "g_exec_first_flag w" "NUL \<notin> set (chars_of (take size_szProductName (drop off_szProductName (g_ConfigSet w))))"
  shows "root_config env w = None"
  using assms by (simp add: root_config_def ecos_mib_system_exec_def ecos_exec_def print_name_def cstr_at_def)

lemma root_config_dev:
  assumes "root_config env w = Some w'" "\<not> g_exec_first_flag w" "config_u32 w off_ulIPType = IP_TYPE_STATIC_IP"
  shows "w_dev w' =
    (if exec_memcmp w off_IPSets size_IPSets then snd (InterfaceIPSet (ee_dev env) ''ens33'' (config_u32 w off_inIPAddress) (w_dev w)) else w_dev w)"
proof -
  obtain w1 w2 where w: "ecos_mib_system_exec (w\<lparr>g_exec_parent_flag := False\<rparr>) = Some w1" "ecos_mib_net_exec env w1 = Some w2"
    "w_dev w' = w_dev w2" using assms(1) by (auto simp: root_config_def Let_def bind_Some_iff)
  have "w1 = w\<lparr>g_exec_parent_flag := False\<rparr>" using w(1) by (rule system_exec_Some)
  then show ?thesis using assms(2,3) w(2,3)
    by (auto simp: ecos_mib_net_exec_def ecos_upgrade_network_settings_def ecos_exec_def ecos_setting_net_ip_def config_u32_def
        exec_memcmp_def Let_def)
qed

lemma link_frame [simp]:
  "g_ConfigSet (ecos_link_integrity_monitor env w) = g_ConfigSet w" "g_ConfigSetBackup (ecos_link_integrity_monitor env w) = g_ConfigSetBackup w"
  "g_exec_first_flag (ecos_link_integrity_monitor env w) = g_exec_first_flag w" "w_dev (ecos_link_integrity_monitor env w) = w_dev w"
  by (simp_all add: ecos_link_integrity_monitor_def Let_def)

subsection \<open>The invariant of the daemon\<close>

definition mib_table :: "mib_shash_reg \<Rightarrow> u32 \<rightharpoonup> mib_shash_reg" where
  "mib_table raw = [MIB_PRODUCT_NAME \<mapsto> reg_of raw args_ProductName, MIB_NET_TYPE \<mapsto> reg_of raw args_ulIPType, MIB_NET_IP \<mapsto> reg_of raw args_inIPAddress]"

text \<open>The two timers: the one that applies the configuration and the one that watches the link.\<close>

definition daemon_timers :: "ecos \<Rightarrow> ecos_timer \<Rightarrow> ecos_timer \<Rightarrow> bool" where
  "daemon_timers e t0 t1 \<longleftrightarrow> timer_abs (e_timers e) [t0, t1] \<and> hnd t0 = s_timer_root_config e \<and> \<not> suspend t0 \<and>
     (func t0 = None \<or> func t0 = Some fn_root_config) \<and> func t1 = Some fn_link_integrity_monitor"

definition daemon_ok :: "mib_shash_reg \<Rightarrow> ecos \<Rightarrow> bool" where
  "daemon_ok raw e \<longleftrightarrow> world_ok (e_world e) \<and> \<not> g_exec_first_flag (e_world e) \<and>
     (\<exists>ms. reg_inv (e_registry e) ms) \<and> reg_view (e_registry e) = mib_table raw \<and> (\<exists>t0 t1. daemon_timers e t0 t1)"

lemma mib_numbers: "MIB_PRODUCT_NAME \<noteq> MIB_NET_TYPE" "MIB_PRODUCT_NAME \<noteq> MIB_NET_IP" "MIB_NET_TYPE \<noteq> MIB_NET_IP"
  by (simp_all add: MIB_PRODUCT_NAME_def MIB_NET_TYPE_def MIB_NET_IP_def)

lemma find_mib:
  assumes "daemon_ok raw e"
  shows "\<exists>p. ecos_mib_find (e_registry e) mib = Some p \<and> Option.bind p (mr_regs (e_registry e)) = mib_table raw mib \<and> (p = None \<longleftrightarrow> mib_table raw mib = None)"
proof -
  obtain ms where "reg_inv (e_registry e) ms" using assms by (auto simp: daemon_ok_def)
  from ecos_mib_find_view [OF this, of mib] show ?thesis using assms by (auto simp: daemon_ok_def split: option.splits)
qed

text \<open>Setting the timer that applies the configuration.\<close>

lemma root_exec_ok:
  assumes "daemon_timers e t0 t1" "\<not> g_exec_first_flag (e_world e)"
  shows "\<exists>ts. ecos_mib_root_exec env now e = Some (e\<lparr>e_timers := ts\<rparr>) \<and>
    daemon_timers (e\<lparr>e_timers := ts\<rparr>) (t0\<lparr>func := Some fn_root_config, p_args := None, interval := 2, count := 1, last_time := now\<rparr>) t1"
proof -
  let ?f = "\<lambda>t. t\<lparr>func := Some fn_root_config, p_args := None, interval := 2, count := 1, last_time := now\<rparr>"
  obtain xs where r: "timer_rep (e_timers e) xs" "[t0, t1] = timers_of (e_timers e) xs" using assms(1) by (auto simp: daemon_timers_def timer_abs_def)
  have "distinct (map hnd (timers_of (e_timers e) xs))" using r(1) by (simp add: timer_rep_def timers_of_def o_def)
  then have d: "hnd t1 \<noteq> hnd t0" unfolding r(2) [symmetric] by auto
  have h: "hnd t0 = s_timer_root_config e" using assms(1) by (simp add: daemon_timers_def)
  obtain ts where ts: "timer_change (e_timers e) (s_timer_root_config e) ?f = Some (True, ts)" "timer_abs ts [?f t0, t1]"
    using change_rep [where h = "s_timer_root_config e", OF r(1) keeps_links_updates(1) [where f = "Some fn_root_config" and a = None and iv = 2 and n = 1 and now = now]]
      d h unfolding r(2) [symmetric] by (auto simp: change_spec_def)
  then have "ecos_mib_root_exec env now e = Some (e\<lparr>e_timers := ts\<rparr>)"
    using assms(2) by (simp add: ecos_mib_root_exec_def ecos_timer_function_set_def)
  moreover have "daemon_timers (e\<lparr>e_timers := ts\<rparr>) (?f t0) t1" using ts(2) assms(1) h by (simp add: daemon_timers_def)
  ultimately show ?thesis by blast
qed

subsection \<open>Requests\<close>

text \<open>Writing to the configuration and starting the timer.\<close>

definition config_put :: "nat \<Rightarrow> u8 list \<Rightarrow> u8 list \<Rightarrow> u8 list" where
  "config_put off d c = take off c @ d @ drop (off + length d) c"

lemma length_config_put [simp]: "off + length d \<le> length c \<Longrightarrow> length (config_put off d c) = length c"
  by (simp add: config_put_def)

lemma config_put_get: "off + length d \<le> length c \<Longrightarrow> take (length d) (drop off (config_put off d c)) = d"
  by (simp add: config_put_def)

lemma write_config:
  assumes "daemon_ok raw e" "daemon_timers e t0 t1" "off + length d \<le> size_ConfigSet"
  shows "\<exists>e1 ts e'. set_config off d e = Some e1 \<and> ecos_mib_root_exec env now e1 = Some e' \<and> daemon_ok raw e' \<and>
    e' = e\<lparr>e_world := (e_world e)\<lparr>g_ConfigSet := config_put off d (g_ConfigSet (e_world e))\<rparr>, e_timers := ts\<rparr> \<and>
    daemon_timers e' (t0\<lparr>func := Some fn_root_config, p_args := None, interval := 2, count := 1, last_time := now\<rparr>) t1"
proof -
  let ?e1 = "e\<lparr>e_world := (e_world e)\<lparr>g_ConfigSet := config_put off d (g_ConfigSet (e_world e))\<rparr>\<rparr>"
  have w: "length (g_ConfigSet (e_world e)) = size_ConfigSet" "\<not> g_exec_first_flag (e_world e)" using assms(1) by (simp_all add: daemon_ok_def world_ok_def)
  have s: "set_config off d e = Some ?e1" using w assms(3) by (simp add: set_config_def store_bytes_eq config_put_def)
  have "daemon_timers ?e1 t0 t1" using assms(2) by (simp add: daemon_timers_def)
  then obtain ts where ts: "ecos_mib_root_exec env now ?e1 = Some (?e1\<lparr>e_timers := ts\<rparr>)"
      "daemon_timers (?e1\<lparr>e_timers := ts\<rparr>) (t0\<lparr>func := Some fn_root_config, p_args := None, interval := 2, count := 1, last_time := now\<rparr>) t1"
    using root_exec_ok [of ?e1 t0 t1 env now] w(2) by auto
  have "daemon_ok raw (?e1\<lparr>e_timers := ts\<rparr>)" using assms(1,3) w ts(2) by (auto simp: daemon_ok_def world_ok_def)
  with s ts show ?thesis by auto
qed

lemma daemon_timersE:
  assumes "daemon_ok raw e"
  obtains t0 t1 where "daemon_timers e t0 t1"
  using assms by (auto simp: daemon_ok_def)

lemma bytes_u32_ex: "4 \<le> length bs \<Longrightarrow> \<exists>v. bytes_u32 bs = Some v"
  by (auto simp: bytes_u32_def Suc_le_length_iff numeral_eq_Suc)

lemma config_field: "daemon_ok raw e \<Longrightarrow> off + 4 \<le> size_ConfigSet \<Longrightarrow> \<exists>v. bytes_u32 (drop off (g_ConfigSet (e_world e))) = Some v"
  by (intro bytes_u32_ex) (simp add: daemon_ok_def world_ok_def)

definition args_ok :: "nat \<Rightarrow> nat \<Rightarrow> parser_args \<Rightarrow> bool" where
  "args_ok off sz a \<longleftrightarrow> pa_pCfgField a = off \<and> pa_ulCfgSize a = sz \<and> length (pa_pReq a) = MAX_EXCHANGE_SIZE - 12 \<and>
     length (pa_pResp a) = MAX_EXCHANGE_SIZE - 12 \<and> last (pa_pReq a) = 0"

text \<open>Every parser answers every request and keeps the invariant, and the product name closed.\<close>

definition daemon_inv :: "bool \<Rightarrow> mib_shash_reg \<Rightarrow> ecos \<Rightarrow> bool" where
  "daemon_inv b raw e \<longleftrightarrow> daemon_ok raw e \<and> (b \<longrightarrow> name_closed (e_world e))"

definition safe_answer :: "bool \<Rightarrow> mib_shash_reg \<Rightarrow> parser_args \<Rightarrow> parser_result \<Rightarrow> bool" where
  "safe_answer b raw a res \<longleftrightarrow> (\<exists>r n e' q p. res = Some (r, n, e', q, p) \<and> n \<le> 32 \<and> daemon_inv b raw e' \<and>
     length q = MAX_EXCHANGE_SIZE - 12 \<and> last q = 0 \<and> length p = MAX_EXCHANGE_SIZE - 12)"

lemma safe_answer_Some [simp]:
  "safe_answer b raw a (Some (r, n, e, q, p)) \<longleftrightarrow> n \<le> 32 \<and> daemon_inv b raw e \<and>
     length q = MAX_EXCHANGE_SIZE - 12 \<and> last q = 0 \<and> length p = MAX_EXCHANGE_SIZE - 12"
  by (simp add: safe_answer_def)

lemma read_field_eq:
  assumes "daemon_ok raw e" "args_ok off sz a" "off + sz \<le> size_ConfigSet"
  shows "read_field a e = Some (CONF_RESULT_OK, sz, e, pa_pReq a, take sz (drop off (g_ConfigSet (e_world e))) @ drop sz (pa_pResp a))"
proof -
  have "length (take sz (drop off (g_ConfigSet (e_world e)))) = sz" using assms by (simp add: daemon_ok_def world_ok_def)
  moreover have "sz \<le> length (pa_pResp a)" using assms(2,3) by (simp add: args_ok_def max_size size_ConfigSet_def)
  ultimately show ?thesis using assms by (simp add: read_field_def load_bytes_def args_ok_def daemon_ok_def world_ok_def store_bytes_eq)
qed

lemma keep_answer: "daemon_inv b raw e \<Longrightarrow> args_ok off sz a \<Longrightarrow> safe_answer b raw a (Some (r, 0, e, pa_pReq a, pa_pResp a))"
  by (simp add: args_ok_def)

lemma read_safe:
  assumes "daemon_inv b raw e" "args_ok off sz a" "off + sz \<le> size_ConfigSet" "sz \<le> 32"
  shows "safe_answer b raw a (read_field a e)"
proof -
  have ok: "daemon_ok raw e" using assms(1) by (simp add: daemon_inv_def)
  show ?thesis using assms unfolding read_field_eq [OF ok assms(2,3)]
    by (simp add: args_ok_def) (simp add: daemon_inv_def daemon_ok_def world_ok_def max_size size_ConfigSet_def)
qed

lemma write_safe:
  assumes ok: "daemon_inv b raw e" and a: "args_ok off sz a" and d: "off' + length d \<le> size_ConfigSet"
    and closed: "\<And>c. length c = size_ConfigSet \<Longrightarrow> c ! (off_szProductName + size_szProductName - 1) = 0 \<Longrightarrow>
      config_put off' d c ! (off_szProductName + size_szProductName - 1) = 0"
    and q: "length q = MAX_EXCHANGE_SIZE - 12" "last q = 0"
  shows "safe_answer b raw a (do { e \<leftarrow> set_config off' d e; e \<leftarrow> ecos_mib_root_exec env now e; Some (CONF_RESULT_OK, 0, e, q, pa_pResp a) })"
proof -
  have ok': "daemon_ok raw e" using ok by (simp add: daemon_inv_def)
  obtain t0 t1 where t: "daemon_timers e t0 t1" using ok' by (rule daemon_timersE)
  obtain e1 e' where e': "set_config off' d e = Some e1" "ecos_mib_root_exec env now e1 = Some e'" "daemon_ok raw e'"
      "g_ConfigSet (e_world e') = config_put off' d (g_ConfigSet (e_world e))"
    using write_config [OF ok' t d, of env now] by auto
  have "daemon_inv b raw e'" using e'(3,4) ok closed by (auto simp: daemon_inv_def name_closed_def daemon_ok_def world_ok_def)
  then show ?thesis using a q e'(1,2) by (simp add: args_ok_def)
qed

lemma parser_safe_type:
  assumes ok: "daemon_inv b raw e" and a: "args_ok off_ulIPType 4 a"
  shows "safe_answer b raw a (ParserSystemIPType env now a e)"
proof -
  have "4 \<le> length (pa_pReq a)" using a by (simp add: args_ok_def max_size)
  then obtain v where v: "bytes_u32 (pa_pReq a) = Some v" using bytes_u32_ex by blast
  obtain v' where v': "bytes_u32 (drop off_ulIPType (g_ConfigSet (e_world e))) = Some v'"
    using config_field [of raw e off_ulIPType] ok by (auto simp: off_ulIPType_def size_ConfigSet_def daemon_inv_def)
  have l: "off_ulIPType + 4 \<le> size_ConfigSet" by (simp add: off_ulIPType_def size_ConfigSet_def)
  have "safe_answer b raw a (read_field a e)" by (rule read_safe [OF ok a l]) simp
  moreover have "safe_answer b raw a (do { e \<leftarrow> set_config off_ulIPType (u32_bytes v) e; e \<leftarrow> ecos_mib_root_exec env now e;
      Some (CONF_RESULT_OK, 0, e, pa_pReq a, pa_pResp a) })"
    by (rule write_safe [OF ok a])
      (use l a in \<open>simp_all add: args_ok_def config_put_def nth_append off_ulIPType_def off_szProductName_def size_szProductName_def size_ConfigSet_def\<close>)
  ultimately show ?thesis using v v' keep_answer [OF ok a] a
    by (simp add: ParserSystemIPType_def args_ok_def Let_def)
qed

lemma cstr_of_buffer: "last q = 0 \<Longrightarrow> q \<noteq> [] \<Longrightarrow> \<exists>s. cstr_at (chars_of q) 0 = Some s"
proof -
  assume "last q = 0" "q \<noteq> []"
  then have "0 \<in> set q" using last_in_set [of q] by simp
  then have "char_of (unat (0 :: u8)) \<in> set (chars_of q)" unfolding chars_of_def set_map by (rule imageI)
  then have "NUL \<in> set (chars_of q)" by (simp add: char_of_def)
  then show "\<exists>s. cstr_at (chars_of q) 0 = Some s" by (simp add: cstr_at_def)
qed

lemma parser_safe_ip:
  assumes ok: "daemon_inv b raw e" and a: "args_ok off_inIPAddress 4 a"
  shows "safe_answer b raw a (ParserSystemIP env now a e)"
proof -
  have q: "length (pa_pReq a) = MAX_EXCHANGE_SIZE - 12" "last (pa_pReq a) = 0" "length (pa_pResp a) = MAX_EXCHANGE_SIZE - 12"
    using a by (simp_all add: args_ok_def)
  then have "pa_pReq a \<noteq> []" by (auto simp: max_size)
  then obtain s where s: "cstr_at (chars_of (pa_pReq a)) 0 = Some s" using cstr_of_buffer q(2) by blast
  define t where "t = IP2Str (config_u32 (e_world e) off_inIPAddress)"
  have t: "length t \<le> 15" by (simp add: t_def IP2Str_text)
  have l: "off_inIPAddress + length (u32_bytes v) \<le> size_ConfigSet" for v by (simp add: off_inIPAddress_def size_ConfigSet_def)
  have st: "store_bytes (pa_pResp a) 0 (bytes_of (t @ [NUL])) = Some (bytes_of (t @ [NUL]) @ drop (length t + 1) (pa_pResp a))"
    using t q(3) by (subst store_bytes_eq) (simp_all add: max_size bytes_of_def)
  have "safe_answer b raw a (Some (CONF_RESULT_OK, length t + 1, e, pa_pReq a, bytes_of (t @ [NUL]) @ drop (length t + 1) (pa_pResp a)))"
    using ok q t by (simp add: bytes_of_def max_size)
  moreover have "safe_answer b raw a (do { e \<leftarrow> set_config off_inIPAddress (u32_bytes v) e; e \<leftarrow> ecos_mib_root_exec env now e;
      Some (CONF_RESULT_OK, 0, e, pa_pReq a, pa_pResp a) })" for v
    by (rule write_safe [OF ok a l _ q(1,2)])
      (simp add: config_put_def nth_append off_inIPAddress_def off_szProductName_def size_szProductName_def size_ConfigSet_def)
  ultimately show ?thesis using s st keep_answer [OF ok a]
    by (simp add: ParserSystemIP_def t_def [symmetric] Let_def split: option.split)
qed

lemma parser_safe_name:
  assumes ok: "daemon_inv b raw e" and a: "args_ok off_szProductName size_szProductName a"
  shows "safe_answer b raw a (ParserProductName env now a e)"
proof -
  have q: "length (pa_pReq a) = MAX_EXCHANGE_SIZE - 12" "last (pa_pReq a) = 0" "length (pa_pResp a) = MAX_EXCHANGE_SIZE - 12"
    using a by (simp_all add: args_ok_def)
  let ?q = "(pa_pReq a)[31 := 0]"
  have ne: "pa_pReq a \<noteq> []" using q(1) by (auto simp: max_size)
  have q': "length ?q = MAX_EXCHANGE_SIZE - 12" "last ?q = 0" using q last_list_update [OF ne, of 31 0] by simp_all
  have l: "off_szProductName + size_szProductName \<le> size_ConfigSet" by (simp add: off_szProductName_def size_szProductName_def size_ConfigSet_def)
  have as: "array_set (pa_pReq a) (size_szProductName - 1) 0 = Some ?q" using q by (simp add: size_szProductName_def max_size)
  have rd: "safe_answer b raw a (read_field a e)" by (rule read_safe [OF ok a l]) (simp add: size_szProductName_def)
  have "safe_answer b raw a (Some (CONF_RESULT_OK, 0, e, ?q, pa_pResp a))" using ok q q' by simp
  moreover have "safe_answer b raw a (do { e \<leftarrow> set_config off_szProductName (take n ?q) e; e \<leftarrow> ecos_mib_root_exec env now e;
      Some (CONF_RESULT_OK, 0, e, ?q, pa_pResp a) })" if "n \<le> size_szProductName" for n
  proof (rule write_safe [OF ok a])
    show "off_szProductName + length (take n ?q) \<le> size_ConfigSet" using that l by simp
    fix c :: "u8 list" assume c: "length c = size_ConfigSet" "c ! (off_szProductName + size_szProductName - 1) = 0"
    have "take n ?q ! 31 = 0" if "31 < n" using that q(1) by (simp add: max_size)
    then show "config_put off_szProductName (take n ?q) c ! (off_szProductName + size_szProductName - 1) = 0"
      using c that q(1) by (auto simp: config_put_def nth_append off_szProductName_def size_szProductName_def size_ConfigSet_def max_size)
  qed (use q' in simp_all)
  moreover have "load_bytes ?q 0 n = Some (take n ?q)"
      "load_bytes (g_ConfigSet (e_world e)) off_szProductName n = Some (take n (drop off_szProductName (g_ConfigSet (e_world e))))" if "n \<le> size_szProductName" for n
    using that q l ok by (simp_all add: load_bytes_def size_szProductName_def max_size daemon_inv_def daemon_ok_def world_ok_def)
  ultimately show ?thesis using as rd keep_answer [OF ok a] a
    by (simp add: ParserProductName_def args_ok_def Let_def)
qed

lemma mib_node_fields:
  assumes "mib_table raw mib = Some r"
  shows "rule_fn r = Some fn_addr_rule_default \<and> base_addr r \<noteq> ECOS_ADDR_ERROR \<and>
    ((parser_fn r = Some fn_ParserProductName \<and> base_addr r = Some off_szProductName \<and> unat (base_size r) = size_szProductName) \<or>
     (parser_fn r = Some fn_ParserSystemIPType \<and> base_addr r = Some off_ulIPType \<and> unat (base_size r) = 4) \<or>
     (parser_fn r = Some fn_ParserSystemIP \<and> base_addr r = Some off_inIPAddress \<and> unat (base_size r) = 4))"
  using assms
  by (auto simp: mib_table_def reg_of_def args_ProductName_def args_ulIPType_def args_inIPAddress_def size_szProductName_def
      ECOS_ADDR_ERROR_def off_szProductName_def off_ulIPType_def off_inIPAddress_def split: if_splits)

lemma call_parser_safe:
  assumes ok: "daemon_inv b raw e" and r: "mib_table raw mib = Some r"
    and q: "length q = MAX_EXCHANGE_SIZE - 12" "last q = 0" "length p = MAX_EXCHANGE_SIZE - 12"
  shows "\<exists>f off. parser_fn r = Some f \<and> base_addr r = Some off \<and>
    safe_answer b raw \<lparr>pa_Request = rq, pa_usRequestLength = ln, pa_pCfgField = off, pa_ulCfgSize = unat (base_size r), pa_pReq = q, pa_pResp = p\<rparr>
      (call_parser f env now \<lparr>pa_Request = rq, pa_usRequestLength = ln, pa_pCfgField = off, pa_ulCfgSize = unat (base_size r), pa_pReq = q, pa_pResp = p\<rparr> e)"
proof -
  let ?a = "\<lambda>off sz. \<lparr>pa_Request = rq, pa_usRequestLength = ln, pa_pCfgField = off, pa_ulCfgSize = sz, pa_pReq = q, pa_pResp = p\<rparr>"
  have a: "args_ok off sz (?a off sz)" for off sz using q by (simp add: args_ok_def)
  note fns = call_parser_def fn_ParserProductName_def fn_ParserSystemIPType_def fn_ParserSystemIP_def
  from mib_node_fields [OF r] show ?thesis
    using parser_safe_name [OF ok a] parser_safe_type [OF ok a] parser_safe_ip [OF ok a] by (elim conjE disjE) (simp_all add: fns)
qed

text \<open>The buffer of the requests is longer than a datagram, so it ends in the byte it had at the start.\<close>

definition buffer_ok :: "u8 list \<Rightarrow> bool" where
  "buffer_ok buf \<longleftrightarrow> length buf = MAX_EXCHANGE_SIZE \<and> last buf = 0"

lemma header_ex:
  assumes "12 \<le> length buf"
  shows "\<exists>mib ln i rq. hdr_mib buf = Some mib \<and> hdr_len buf = Some ln \<and> hdr_index buf = Some i \<and> hdr_request buf = Some rq"
proof -
  have "bytes_u16 (drop 4 buf) \<noteq> None" using assms by (auto simp: bytes_u16_def split: list.split dest: arg_cong [of _ _ length])
  then show ?thesis using assms bytes_u32_ex [of buf] by (auto simp: hdr_mib_def hdr_len_def hdr_index_def hdr_request_def)
qed

lemma root_hook_safe:
  assumes ok: "daemon_inv b raw e" and req: "buffer_ok req" and resp: "length resp = MAX_EXCHANGE_SIZE"
  shows "\<exists>n e' req' resp'. parser_mib_root env now e req resp = Some (n, e', req', resp') \<and> 0 \<le> n \<and> n \<le> 32 \<and>
    daemon_inv b raw e' \<and> buffer_ok req' \<and> length resp' = MAX_EXCHANGE_SIZE"
proof -
  have l: "length req = 102400" "last req = 0" "length resp = 102400" using req resp by (simp_all add: buffer_ok_def max_size)
  then obtain mib ln i rq where h: "hdr_mib req = Some mib" "hdr_len req = Some ln" "hdr_index req = Some i" "hdr_request req = Some rq"
    using header_ex [of req] by auto
  have fail: "\<exists>b. store_bytes resp 8 [c] = Some b \<and> length b = MAX_EXCHANGE_SIZE" for c
    using l by (subst store_bytes_eq) (simp_all add: max_size)
  obtain p where p: "ecos_mib_find (e_registry e) mib = Some p" "Option.bind p (mr_regs (e_registry e)) = mib_table raw mib" "p = None \<longleftrightarrow> mib_table raw mib = None"
    using find_mib [of raw e mib] ok by (auto simp: daemon_inv_def)
  show ?thesis
  proof (cases "mib_table raw mib")
    case None
    then show ?thesis using h p fail [of CONF_RESULT_MIB_UNKNOWN] ok req by (auto simp: parser_mib_root_def)
  next
    case (Some r)
    then obtain a where a: "p = Some a" "mr_regs (e_registry e) a = Some r" using p by (cases p) auto
    have rule: "call_rule (rule_fn r) (base_addr r) (base_size r) i = Some (base_addr r)" "base_addr r \<noteq> ECOS_ADDR_ERROR"
      using mib_node_fields [OF Some] by (simp_all add: call_rule_def ecos_addr_rule_default_def)
    have d: "length (drop 12 req) = MAX_EXCHANGE_SIZE - 12" "last (drop 12 req) = 0" "length (drop 12 resp) = MAX_EXCHANGE_SIZE - 12"
      using l by (simp_all add: max_size last_drop)
    obtain f off c n e' q' p' where f: "parser_fn r = Some f" "base_addr r = Some off" "n \<le> 32" "daemon_inv b raw e'"
        "length q' = MAX_EXCHANGE_SIZE - 12" "last q' = 0" "length p' = MAX_EXCHANGE_SIZE - 12"
        "call_parser f env now \<lparr>pa_Request = rq, pa_usRequestLength = ln, pa_pCfgField = off, pa_ulCfgSize = unat (base_size r), pa_pReq = drop 12 req,
          pa_pResp = drop 12 resp\<rparr> e = Some (c, n, e', q', p')"
      using call_parser_safe [OF ok Some d, of rq ln env now] by (auto simp: safe_answer_def)
    have s1: "store_bytes (take 12 resp @ p') 8 [c] = Some (take 8 resp @ [c] @ drop 9 (take 12 resp) @ p')"
      using l f(7) by (subst store_bytes_eq) (simp_all add: max_size)
    have s2: "\<exists>b. store_bytes (take 8 resp @ [c] @ drop 9 (take 12 resp) @ p') 4 (u16_bytes v) = Some b \<and> length b = MAX_EXCHANGE_SIZE" for v
      using l f(7) by (subst store_bytes_eq) (simp_all add: max_size)
    have n: "uint (of_nat n :: u16) = int n" using u16_length [of n] f(3) by (simp only: uint_nat)
    have b: "buffer_ok (take 12 req @ q')" using f(5,6) l by (cases "q' = []") (simp_all add: buffer_ok_def max_size)
    show ?thesis
    proof (cases "rq \<in> {CONF_REQUEST_FIELD_INFO, CONF_REQUEST_READ, CONF_REQUEST_WRITE, CONF_REQUEST_REMOVE, CONF_REQUEST_PERMISSION}")
      case False
      then show ?thesis using h p a rule fail [of CONF_RESULT_REQUEST_DENY] ok req by (auto simp: parser_mib_root_def)
    next
      case True
      then show ?thesis using h p a rule f s1 s2 [of "of_nat n"] n b unfolding parser_mib_root_def by auto
    qed
  qed
qed

subsection \<open>Turns of the main loop\<close>

text \<open>The longest datagram of UDP has 65507 bytes of data.\<close>

definition datagram :: "u8 list \<Rightarrow> bool" where "datagram d \<longleftrightarrow> length d \<le> 65507"

definition server_ok :: "mib_comm \<Rightarrow> bool" where
  "server_ok c \<longleftrightarrow> buffer_ok (s_Request c) \<and> length (s_Response c) = MAX_EXCHANGE_SIZE"

lemma recv_buffer:
  assumes "buffer_ok buf" "datagram d"
  shows "recv_into buf (Some d) = Some (int (length d), d @ drop (length d) buf) \<and> buffer_ok (d @ drop (length d) buf)"
  using assms by (auto simp: recv_into_def store_bytes_eq buffer_ok_def datagram_def max_size last_drop)

lemma server_turn_safe:
  assumes ok: "daemon_inv b raw e" and c: "server_ok c" and d: "datagram d"
  shows "\<exists>out e' c'. server_net (parser_mib_root env now) (e, c) d = Some (out, e', c') \<and> daemon_inv b raw e' \<and> server_ok c'"
proof -
  let ?req = "d @ drop (length d) (s_Request c)"
  have r: "recv_into (s_Request c) (Some d) = Some (int (length d), ?req)" "buffer_ok ?req"
    using recv_buffer c d by (simp_all add: server_ok_def)
  have "12 \<le> length ?req" using r(2) by (simp add: buffer_ok_def max_size)
  then obtain mib ln i rq where h: "hdr_mib ?req = Some mib" "hdr_len ?req = Some ln" "hdr_index ?req = Some i" "hdr_request ?req = Some rq"
    using header_ex [of ?req] by blast
  have l: "length (s_Response c) = 102400" using c by (simp add: server_ok_def max_size)
  then obtain resp where p: "put_hdr (s_Response c) mib 0 i rq CONF_RESULT_IPC_ERROR = Some resp" "length resp = MAX_EXCHANGE_SIZE"
    using put_hdr_eq [of "s_Response c"] by (simp add: max_size)
  obtain n e' req' resp' where k: "parser_mib_root env now e ?req resp = Some (n, e', req', resp')" "0 \<le> n" "n \<le> 32" "daemon_inv b raw e'" "buffer_ok req'"
      "length resp' = MAX_EXCHANGE_SIZE"
    using root_hook_safe [OF ok r(2) p(2), of env now] by blast
  have "\<exists>out. load_bytes resp' 0 (nat n + EXCHANGE_HDR_LEN) = Some out"
    using k(3,6) by (simp add: load_bytes_def EXCHANGE_HDR_LEN_def max_size)
  then obtain out where out: "load_bytes resp' 0 (nat n + EXCHANGE_HDR_LEN) = Some out" ..
  show ?thesis
  proof (cases "int (length d) = int EXCHANGE_HDR_LEN + uint ln")
    case True
    then show ?thesis using r h p k c out by (simp add: server_net_def ECosMibCommServerExchange_def server_ok_def Let_def)
  next
    case False
    then show ?thesis using r h ok c by (simp add: server_net_def ECosMibCommServerExchange_def server_ok_def Let_def)
  qed
qed

lemma timers_run_eq:
  assumes "daemon_timers e t0 t1"
  shows "\<exists>ts. ecos_timers_run env now e = do {
      w \<leftarrow> callback_opt (timer_effect env) now t0 (e_world e);
      w \<leftarrow> callback_opt (timer_effect env) now t1 w;
      Some (e\<lparr>e_world := w, e_timers := ts\<rparr>) } \<and>
    ((\<exists>e'. ecos_timers_run env now e = Some e') \<longrightarrow> timer_abs ts [fire now t0, fire now t1])"
proof -
  obtain xs where x: "timer_rep (e_timers e) xs" "timers_of (e_timers e) xs = [t0, t1]" using assms by (auto simp: daemon_timers_def timer_abs_def)
  then have hd: "tl_head (e_timers e) = first_of xs None" by (simp add: timer_rep_def)
  have nil: "timers_of s [] = []" for s by (simp add: timers_of_def)
  let ?run = "do { w \<leftarrow> callback_opt (timer_effect env) now t0 (e_world e); callback_opt (timer_effect env) now t1 w }"
  have fold: "fold_opt (callback_opt (timer_effect env) now) [t0, t1] (e_world e) = ?run"
  proof -
    have "fold_opt (callback_opt (timer_effect env) now) [] = Some" by (simp add: fun_eq_iff)
    then show ?thesis by (cases "callback_opt (timer_effect env) now t0 (e_world e)") simp_all
  qed
  note L = loop_rep_opt [of "e_timers e" "[]" xs "timer_effect env" now "e_world e", simplified x(2) fold append_Nil nil, OF x(1)]
  show ?thesis
  proof (cases ?run)
    case None
    then have "ecos_timers_run env now e = None" using L hd by (simp add: ecos_timers_run_def ecos_timer_function_loop_def)
    then show ?thesis using None
      by (cases "callback_opt (timer_effect env) now t0 (e_world e)") simp_all
  next
    case (Some w)
    then obtain st where "ecos_timers_run env now e = Some (e\<lparr>e_world := w, e_timers := st\<rparr>)" "timer_rep st xs"
      "timers_of st xs = [fire now t0, fire now t1]"
      using L hd by (auto simp: ecos_timers_run_def ecos_timer_function_loop_def)
    then show ?thesis using Some by (intro exI [of _ st]) (auto simp: timer_abs_def bind_Some_iff)
  qed
qed

lemma timers_run_parts:
  assumes "daemon_timers e t0 t1" "ecos_timers_run env now e = Some e'"
  obtains ts w1 w where "callback_opt (timer_effect env) now t0 (e_world e) = Some w1" "callback_opt (timer_effect env) now t1 w1 = Some w"
    "e' = e\<lparr>e_world := w, e_timers := ts\<rparr>" "timer_abs ts [fire now t0, fire now t1]"
proof -
  obtain ts where "do {
      w \<leftarrow> callback_opt (timer_effect env) now t0 (e_world e);
      w \<leftarrow> callback_opt (timer_effect env) now t1 w;
      Some (e\<lparr>e_world := w, e_timers := ts\<rparr>) } = Some e'" "timer_abs ts [fire now t0, fire now t1]"
    using timers_run_eq [OF assms(1), of env now] assms(2) by metis
  then show ?thesis by (auto simp: bind_Some_iff intro: that)
qed

lemma fire_fields [simp]: "hnd (fire now t) = hnd t" "suspend (fire now t) = suspend t" "func (fire now t) = func t" "interval (fire now t) = interval t"
  by (simp_all add: fire_def timer_fired_def)

lemma timer_effect_frame:
  assumes "callback_opt (timer_effect env) now t w = Some w'"
  shows "g_ConfigSet w' = g_ConfigSet w" "\<not> g_exec_first_flag w \<Longrightarrow> \<not> g_exec_first_flag w'"
  using assms by (auto simp: callback_opt_def timer_effect_def dest: root_config_frame split: if_splits)

lemma timer_effect_defined:
  assumes "world_ok w" "name_closed w"
  shows "\<exists>w'. callback_opt (timer_effect env) now t w = Some w'"
  using root_config_defined [OF assms, of env] by (auto simp: callback_opt_def timer_effect_def)

text \<open>A turn that returns keeps the invariant; it returns when the name is closed.\<close>

lemma timers_run_ok:
  assumes "daemon_ok raw e" "ecos_timers_run env now e = Some e'"
  shows "daemon_ok raw e' \<and> g_ConfigSet (e_world e') = g_ConfigSet (e_world e)"
proof -
  obtain t0 t1 where t: "daemon_timers e t0 t1" using assms(1) by (rule daemon_timersE)
  obtain ts w1 w where w: "callback_opt (timer_effect env) now t0 (e_world e) = Some w1" "callback_opt (timer_effect env) now t1 w1 = Some w"
    "e' = e\<lparr>e_world := w, e_timers := ts\<rparr>" "timer_abs ts [fire now t0, fire now t1]"
    using timers_run_parts [OF t assms(2)] .
  note f = timer_effect_frame [OF w(1)] timer_effect_frame [OF w(2)]
  have "world_ok w" "\<not> g_exec_first_flag w" using assms f by (simp_all add: daemon_ok_def world_ok_def)
  moreover have "daemon_timers e' (fire now t0) (fire now t1)" using t w(3,4) by (simp add: daemon_timers_def)
  ultimately show ?thesis using assms(1) w(3) f by (auto simp: daemon_ok_def)
qed

lemma timers_run_defined:
  assumes "daemon_ok raw e" "name_closed (e_world e)"
  shows "\<exists>e'. ecos_timers_run env now e = Some e'"
proof -
  obtain t0 t1 where t: "daemon_timers e t0 t1" using assms(1) by (rule daemon_timersE)
  have w: "world_ok (e_world e)" using assms(1) by (simp add: daemon_ok_def)
  obtain w1 where w1: "callback_opt (timer_effect env) now t0 (e_world e) = Some w1" using timer_effect_defined [OF w assms(2)] by blast
  then have "world_ok w1" "name_closed w1" using w assms(2) timer_effect_frame(1) [OF w1] by (simp_all add: world_ok_def name_closed_def)
  then obtain w2 where "callback_opt (timer_effect env) now t1 w1 = Some w2" using timer_effect_defined by blast
  then show ?thesis using timers_run_eq [OF t, of env now] w1 by auto
qed

lemma turn_server:
  assumes "daemon_inv b raw e" "server_ok c" "\<forall>d. request = Some d \<longrightarrow> datagram d"
  obtains out e1 c1 where
    "(case request of None \<Rightarrow> Some (None, e, c) | Some d \<Rightarrow> server_net (parser_mib_root env now) (e, c) d) = Some (out, e1, c1)"
    "daemon_inv b raw e1" "server_ok c1"
proof (cases request)
  case None
  then show ?thesis using assms by (intro that [of None e c]) simp_all
next
  case (Some d)
  then show ?thesis using assms(3) server_turn_safe [OF assms(1,2), of d env now] by (auto intro: that)
qed

text \<open>A turn that returns keeps the invariant; when the name is closed every turn returns.\<close>

lemma turn_keeps:
  assumes "daemon_inv b raw e" "server_ok c" "\<forall>d. request = Some d \<longrightarrow> datagram d"
    and "oem_main_turn env now request (e, c) = Some (out, e', c')"
  shows "daemon_inv b raw e' \<and> server_ok c'"
proof -
  obtain out1 e1 c1 where 1: "(case request of None \<Rightarrow> Some (None, e, c) | Some d \<Rightarrow> server_net (parser_mib_root env now) (e, c) d) = Some (out1, e1, c1)"
      "daemon_inv b raw e1" "server_ok c1" using turn_server [OF assms(1-3)] .
  then have r: "ecos_timers_run env now e1 = Some e'" "c' = c1" using assms(4) by (auto simp: oem_main_turn_def bind_Some_iff)
  have "daemon_ok raw e1" using 1(2) by (simp add: daemon_inv_def)
  from timers_run_ok [OF this r(1)] 1(2,3) r(2) show ?thesis by (simp add: daemon_inv_def name_closed_def)
qed

lemma turn_safe:
  assumes "daemon_inv True raw e" "server_ok c" "\<forall>d. request = Some d \<longrightarrow> datagram d"
  shows "\<exists>out e' c'. oem_main_turn env now request (e, c) = Some (out, e', c')"
proof -
  obtain out e1 c1 where 1: "(case request of None \<Rightarrow> Some (None, e, c) | Some d \<Rightarrow> server_net (parser_mib_root env now) (e, c) d) = Some (out, e1, c1)"
      "daemon_inv True raw e1" "server_ok c1" using turn_server [OF assms] .
  then obtain e2 where "ecos_timers_run env now e1 = Some e2" using timers_run_defined [of raw e1] by (auto simp: daemon_inv_def)
  with 1(1) show ?thesis by (auto simp: oem_main_turn_def)
qed

subsection \<open>The start\<close>

text \<open>Nothing is allocated, and the static buffers are zero.\<close>

definition start_ok :: "ecos \<Rightarrow> mib_comm \<Rightarrow> bool" where
  "start_ok e c \<longleftrightarrow> timer_memory (e_timers e) \<and> mr_orders (e_registry e) = Map.empty \<and> mr_regs (e_registry e) = Map.empty \<and>
     world_ok (e_world e) \<and> server_ok c"

lemma add_timer_ok:
  assumes "timer_abs (e_timers e) ts" "length ts < 2"
  shows "\<exists>h st. add_timer now d f iv n e = Some (h, e\<lparr>e_timers := st\<rparr>) \<and> timer_abs st (ts @ [new_timer h now d f None iv n])"
proof -
  define h where "h = spec_unused (hnd ` set ts) ECOS_TIMER_FUNCTION_HANDLE_BEGIN 64"
  have "spec_unused S b 64 = (if b \<notin> S then b else if b + 1 \<notin> S then b + 1 else spec_unused S (b + 1 + 1) 62)" for S b
    using spec_unused.simps(2) [of S b 63] spec_unused.simps(2) [of S "b + 1" 62] by (simp add: add.commute)
  moreover have "ts = [] \<or> (\<exists>t. ts = [t])" using assms(2) by (cases ts) auto
  ultimately have "h \<noteq> -1" by (auto simp: h_def ECOS_TIMER_FUNCTION_HANDLE_BEGIN_def)
  then show ?thesis using timer_step [OF assms(1), of "(now, Add d f None iv n)"] by (auto simp: add_timer_def h_def [symmetric] Let_def)
qed

lemma register_ok:
  assumes "reg_inv (e_registry e) ms" "length (cstr (ra_desc ra)) < 64" "reg_view (e_registry e) mib = None"
  shows "\<exists>reg ms'. register_mib raw mib ra e = Some (e\<lparr>e_registry := reg\<rparr>) \<and> reg_inv reg ms' \<and> reg_view reg = (reg_view (e_registry e))(mib \<mapsto> reg_of raw ra)"
  using mib_register_spec [OF assms(1,2), of mib raw] assms(3) by (auto simp: register_mib_def)

lemma register_all_ok:
  assumes "reg_inv (e_registry e) ms" "reg_view (e_registry e) = Map.empty"
  shows "\<exists>e1 reg ms'. ecos_mibs_system_register raw e = Some e1 \<and> ecos_mibs_net_register raw e1 = Some (e\<lparr>e_registry := reg\<rparr>) \<and>
    reg_inv reg ms' \<and> reg_view reg = mib_table raw"
proof -
  have d: "length (cstr (ra_desc args_ProductName)) < 64" "length (cstr (ra_desc args_ulIPType)) < 64" "length (cstr (ra_desc args_inIPAddress)) < 64"
    by (simp_all add: args_ProductName_def args_ulIPType_def args_inIPAddress_def cstr_def)
  obtain r1 ms1 where 1: "register_mib raw MIB_PRODUCT_NAME args_ProductName e = Some (e\<lparr>e_registry := r1\<rparr>)" "reg_inv r1 ms1"
      "reg_view r1 = [MIB_PRODUCT_NAME \<mapsto> reg_of raw args_ProductName]"
    using register_ok [OF assms(1) d(1), of MIB_PRODUCT_NAME raw] assms(2) by auto
  obtain r2 ms2 where 2: "register_mib raw MIB_NET_TYPE args_ulIPType (e\<lparr>e_registry := r1\<rparr>) = Some (e\<lparr>e_registry := r2\<rparr>)" "reg_inv r2 ms2"
      "reg_view r2 = [MIB_PRODUCT_NAME \<mapsto> reg_of raw args_ProductName, MIB_NET_TYPE \<mapsto> reg_of raw args_ulIPType]"
    using register_ok [of "e\<lparr>e_registry := r1\<rparr>" ms1, OF _ d(2), of MIB_NET_TYPE raw] 1 mib_numbers by force
  obtain r3 ms3 where "register_mib raw MIB_NET_IP args_inIPAddress (e\<lparr>e_registry := r2\<rparr>) = Some (e\<lparr>e_registry := r3\<rparr>)" "reg_inv r3 ms3"
      "reg_view r3 = mib_table raw"
    using register_ok [of "e\<lparr>e_registry := r2\<rparr>" ms2, OF _ d(3), of MIB_NET_IP raw] 2 mib_numbers unfolding mib_table_def by force
  with 1 2 show ?thesis by (auto simp: ecos_mibs_system_register_def ecos_mibs_net_register_def)
qed

lemma store_bytes_length: "store_bytes buf i bs = Some buf' \<Longrightarrow> length buf' = length buf"
  by (induction bs arbitrary: buf i) (auto simp: bind_eq_Some_conv)

lemma load_common_ok:
  assumes "ecos_load_common i r w = Some w'" "world_ok w"
  shows "world_ok w'"
proof -
  obtain real where c: "call_rule (rule_fn r) (base_addr r) (base_size r) (cf_index i) = Some real"
    using assms(1) by (auto simp: ecos_load_common_def bind_eq_Some_conv)
  then show ?thesis using assms
    by (cases real) (auto simp: ecos_load_common_def world_ok_def bind_eq_Some_conv dest!: store_bytes_length split: if_splits)
qed

lemma load_value_ok: "load_value reg i w = Some w' \<Longrightarrow> world_ok w \<Longrightarrow> world_ok w'"
  by (auto simp: load_value_def bind_eq_Some_conv dest: load_common_ok split: option.splits if_splits)

lemma load_loop_inv:
  assumes h: "\<And>i m m'. h i m = Some m' \<Longrightarrow> P m \<Longrightarrow> P m'" and l: "load_loop h s = Some s'" and "P (fst s)"
  shows "P (fst s')"
proof -
  have "h = h \<longrightarrow> P (fst s) \<longrightarrow> P (fst s')"
  proof (rule load_loop.raw_induct [where P = "\<lambda>h' s s'. h' = h \<longrightarrow> P (fst s) \<longrightarrow> P (fst s')", OF _ l], intro impI)
    fix lp h' and s s' :: "'a \<times> cf_state"
    assume ih: "\<And>h' s s'. lp h' s = Some s' \<Longrightarrow> h' = h \<longrightarrow> P (fst s) \<longrightarrow> P (fst s')"
      and b: "do { (config_file, st) \<leftarrow> ecos_config_file_load_data (snd s);
        (case config_file of Cf_Eof \<Rightarrow> Some (fst s, st) | Cf_Null \<Rightarrow> lp h' (fst s, st)
         | Cf_Info info \<Rightarrow> do { m \<leftarrow> h' info (fst s); lp h' (m, st) }) } = Some s'" and p: "h' = h" "P (fst s)"
    obtain cf st where r: "ecos_config_file_load_data (snd s) = Some (cf, st)" using b by (auto simp: bind_eq_Some_conv)
    show "P (fst s')"
    proof (cases cf)
      case Cf_Eof
      then show ?thesis using b r p(2) by auto
    next
      case Cf_Null
      then show ?thesis using b r p ih [of h "(fst s, st)" s'] by simp
    next
      case (Cf_Info info)
      then obtain m where "h info (fst s) = Some m" "lp h (m, st) = Some s'" using b r p(1) by (auto simp: bind_eq_Some_conv)
      then show ?thesis using h p(2) ih [of h "(m, st)" s'] by simp
    qed
  qed
  then show ?thesis using assms(3) by simp
qed

lemma config_load_ok:
  assumes "ecos_config_file_load f e = Some (r, e')" "world_ok (e_world e)"
  shows "\<exists>w cf. e' = e\<lparr>e_world := w, e_cf := cf\<rparr> \<and> world_ok w"
proof (cases "fst (ecos_config_file_open (e_cf e) f ''r'') = 0")
  case True
  then obtain cf w cf' where "load_loop (load_value (e_registry e)) (e_world e, cf) = Some (w, cf')" "e' = e\<lparr>e_world := w, e_cf := ecos_config_file_close cf'\<rparr>"
    using assms(1) by (auto simp: ecos_config_file_load_def bind_eq_Some_conv split: prod.splits)
  then show ?thesis using load_loop_inv [where P = world_ok, OF load_value_ok] assms(2) by fastforce
next
  case False
  then have "e' = e\<lparr>e_world := e_world e, e_cf := e_cf e'\<rparr>" using assms(1) by (auto simp: ecos_config_file_load_def split: prod.splits)
  then show ?thesis using assms(2) by blast
qed

lemma root_exec_first:
  assumes "g_exec_first_flag (e_world e)" "root_config env (e_world e) = Some w"
  shows "ecos_mib_root_exec env now e = ecos_mib_root_exec env now (e\<lparr>e_world := w\<rparr>)"
  using assms root_config_frame(3) [OF assms(2)] by (simp add: ecos_mib_root_exec_def)

text \<open>From the loaded configuration on.\<close>

lemma init_tail:
  assumes "world_ok (e_world e)" "reg_inv (e_registry e) ms" "reg_view (e_registry e) = mib_table raw"
    "timer_abs (e_timers e) [t0]" "hnd t0 = s_timer_root_config e" "\<not> suspend t0" "func t0 = None"
  shows "\<exists>e1 e2. set_config off_inIPAddress (u32_bytes ip) e = Some e1 \<and> ecos_mib_system_init now e1 = Some e2 \<and>
    (\<forall>e'. ecos_mib_root_exec env now e2 = Some e' \<longrightarrow> daemon_ok raw e' \<and>
       g_ConfigSet (e_world e') = config_put off_inIPAddress (u32_bytes ip) (g_ConfigSet (e_world e)) \<and>
       (g_exec_first_flag (e_world e) \<longrightarrow> g_ConfigSetBackup (e_world e') = g_ConfigSet (e_world e'))) \<and>
    (name_closed (e_world e) \<longrightarrow> (\<exists>e'. ecos_mib_root_exec env now e2 = Some e'))"
proof -
  let ?e1 = "e\<lparr>e_world := (e_world e)\<lparr>g_ConfigSet := config_put off_inIPAddress (u32_bytes ip) (g_ConfigSet (e_world e))\<rparr>\<rparr>"
  have l: "off_inIPAddress + 4 \<le> length (g_ConfigSet (e_world e))" using assms(1) by (simp add: world_ok_def off_inIPAddress_def size_ConfigSet_def)
  have s: "set_config off_inIPAddress (u32_bytes ip) e = Some ?e1" using l by (simp add: set_config_def store_bytes_eq config_put_def)
  obtain h st where t: "add_timer now ''check link integrity'' (Some fn_link_integrity_monitor) 2 ECOS_TIMER_FUNCTION_COUNT_FOREVER ?e1 = Some (h, ?e1\<lparr>e_timers := st\<rparr>)"
      "timer_abs st [t0, new_timer h now ''check link integrity'' (Some fn_link_integrity_monitor) None 2 ECOS_TIMER_FUNCTION_COUNT_FOREVER]"
    using add_timer_ok [of ?e1 "[t0]"] assms(4) by (simp, blast)
  define e2 where "e2 = ?e1\<lparr>e_timers := st, s_link_integrity_timer := h\<rparr>"
  have si: "ecos_mib_system_init now ?e1 = Some e2" using t(1) by (simp add: ecos_mib_system_init_def e2_def)
  have w2: "world_ok (e_world e2)" using assms(1) l by (simp add: e2_def world_ok_def)
  let ?post = "\<lambda>e'. daemon_ok raw e' \<and> g_ConfigSet (e_world e') = config_put off_inIPAddress (u32_bytes ip) (g_ConfigSet (e_world e)) \<and>
    (g_exec_first_flag (e_world e) \<longrightarrow> g_ConfigSetBackup (e_world e') = g_ConfigSet (e_world e'))"
  have run: "\<exists>ts. ecos_mib_root_exec env now e3 = Some (e3\<lparr>e_timers := ts\<rparr>) \<and> ?post (e3\<lparr>e_timers := ts\<rparr>)"
    if e3: "e3 = e2\<lparr>e_world := w\<rparr>" "\<not> g_exec_first_flag w" "g_ConfigSet w = g_ConfigSet (e_world e2)"
      "g_exec_first_flag (e_world e) \<longrightarrow> g_ConfigSetBackup w = g_ConfigSet w" for e3 w
  proof -
    have w: "world_ok (e_world e3)" "\<not> g_exec_first_flag (e_world e3)" using w2 e3 by (simp_all add: world_ok_def)
    have "daemon_timers e3 t0 (new_timer h now ''check link integrity'' (Some fn_link_integrity_monitor) None 2 ECOS_TIMER_FUNCTION_COUNT_FOREVER)"
      using assms(5-7) t(2) by (simp add: daemon_timers_def e3 e2_def new_timer_def)
    from root_exec_ok [OF this w(2), of env now] obtain ts t0' t1' where r: "ecos_mib_root_exec env now e3 = Some (e3\<lparr>e_timers := ts\<rparr>)"
        "daemon_timers (e3\<lparr>e_timers := ts\<rparr>) t0' t1'" by blast
    have "daemon_ok raw (e3\<lparr>e_timers := ts\<rparr>)" using w r(2) assms(2,3) by (auto simp: daemon_ok_def e3(1) e2_def)
    then show ?thesis using r(1) e3 by (auto simp: e2_def)
  qed
  have "(\<forall>e'. ecos_mib_root_exec env now e2 = Some e' \<longrightarrow> ?post e') \<and>
    (name_closed (e_world e) \<longrightarrow> (\<exists>e'. ecos_mib_root_exec env now e2 = Some e'))"
  proof (cases "g_exec_first_flag (e_world e2)")
    case False
    then show ?thesis using run [of e2 "e_world e2"] by (auto simp: e2_def)
  next
    case True
    show ?thesis
    proof (cases "root_config env (e_world e2)")
      case None
      then have "\<not> name_closed (e_world e2)" using root_config_defined [OF w2, of env] by auto
      moreover have "name_closed (e_world e2) = name_closed (e_world e)" using l
        by (simp add: name_closed_def e2_def config_put_def nth_append off_inIPAddress_def off_szProductName_def size_szProductName_def)
      moreover have "ecos_mib_root_exec env now e2 = None" using True None by (simp add: ecos_mib_root_exec_def)
      ultimately show ?thesis by simp
    next
      case (Some w)
      note f = root_config_frame [OF Some]
      show ?thesis using run [of "e2\<lparr>e_world := w\<rparr>" w] f root_exec_first [OF True Some, of now] by auto
    qed
  qed
  with s si show ?thesis by blast
qed

lemma static_address: "Str2IP ''192.168.70.185'' = Some 0xC0A846B9"
proof -
  have "u32_bytes 0xC0A846B9 = [185, 70, 168, 192]" by (simp add: u32_bytes_def)
  then have "u32_bytes (htonl 0xC0A846B9) = [192, 168, 70, 185]" by (simp add: htonl_bytes)
  moreover have "show_nat 192 = ''192''" "show_nat 168 = ''168''" "show_nat 70 = ''70''" "show_nat 185 = ''185''" by code_simp+
  ultimately have "IP2Str 0xC0A846B9 = ''192.168.70.185''" by (simp add: IP2Str_def inet_ntoa_def)
  then show ?thesis by (metis Str2IP_IP2Str)
qed

lemma init_head:
  assumes st: "start_ok e c" and sock: "0 \<le> ie_sock ie"
  shows "\<exists>e1 ms t0. world_ok (e_world e1) \<and> reg_inv (e_registry e1) ms \<and> reg_view (e_registry e1) = mib_table (ie_raw ie) \<and>
    timer_abs (e_timers e1) [t0] \<and> hnd t0 = s_timer_root_config e1 \<and> \<not> suspend t0 \<and> func t0 = None \<and> e_world e1 = e_world e \<and>
    cf_fs (e_cf e1) = cf_fs (e_cf e) \<and>
    oem_main_init ie (e, c) = do {
      (_, e) \<leftarrow> ecos_config_file_load ECOS_CONFIG_FILE e1;
      e \<leftarrow> set_config off_inIPAddress (u32_bytes 0xC0A846B9) e;
      e \<leftarrow> ecos_mib_system_init (ie_uptime ie) e;
      e \<leftarrow> ecos_mib_root_exec (ie_env ie) (ie_uptime ie) e;
      Some (e, c\<lparr>s_iSockServer := ie_sock ie\<rparr>) }"
proof -
  obtain reg0 where reg0: "ecos_mib_reg_init (e_registry e) (ie_brk ie) = (0, reg0)" "reg_inv reg0 []" "reg_view reg0 = Map.empty"
    using reg_inv_init [of "e_registry e" "ie_brk ie"] st by (auto simp: start_ok_def)
  define ea where "ea = e\<lparr>e_timers := ecos_timer_function_init (e_timers e), e_registry := reg0, e_cf := snd (ecos_config_file_init (e_cf e))\<rparr>"
  have "timer_abs (e_timers ea) []" using st init_abs by (simp add: ea_def start_ok_def)
  then obtain h ts where t: "add_timer (ie_uptime ie) ''system root configure'' None 0 0 ea = Some (h, ea\<lparr>e_timers := ts\<rparr>)"
      "timer_abs ts [new_timer h (ie_uptime ie) ''system root configure'' None None 0 0]"
    using add_timer_ok [of ea "[]" "ie_uptime ie" "''system root configure''" None 0 0] by auto
  define eb where "eb = ea\<lparr>e_timers := ts, s_timer_root_config := h, g_mib_comm_fd := ie_sock ie\<rparr>"
  have "reg_inv (e_registry eb) []" "reg_view (e_registry eb) = Map.empty" using reg0 by (simp_all add: eb_def ea_def)
  from register_all_ok [OF this, of "ie_raw ie"] obtain e1' reg ms where r: "ecos_mibs_system_register (ie_raw ie) eb = Some e1'"
      "ecos_mibs_net_register (ie_raw ie) e1' = Some (eb\<lparr>e_registry := reg\<rparr>)" "reg_inv reg ms" "reg_view reg = mib_table (ie_raw ie)" by blast
  have "oem_main_init ie (e, c) = do { (_, e, c) \<leftarrow> ecos_oem_root_init ie (ea, c); Some (e, c) }"
    by (simp add: oem_main_init_def ea_def reg0(1))
  also have "ecos_oem_root_init ie (ea, c) = do {
      (_, e) \<leftarrow> ecos_config_file_load ECOS_CONFIG_FILE (eb\<lparr>e_registry := reg\<rparr>);
      e \<leftarrow> set_config off_inIPAddress (u32_bytes 0xC0A846B9) e;
      e \<leftarrow> ecos_mib_system_init (ie_uptime ie) e;
      e \<leftarrow> ecos_mib_root_exec (ie_env ie) (ie_uptime ie) e;
      Some (0, e, c\<lparr>s_iSockServer := ie_sock ie\<rparr>) }"
    using t(1) sock r by (simp add: ecos_oem_root_init_def ecos_mib_parser_client_init_def ECosMibCommServerRegister_def static_address eb_def [symmetric])
  finally have "oem_main_init ie (e, c) = do {
      (_, e) \<leftarrow> ecos_config_file_load ECOS_CONFIG_FILE (eb\<lparr>e_registry := reg\<rparr>);
      e \<leftarrow> set_config off_inIPAddress (u32_bytes 0xC0A846B9) e;
      e \<leftarrow> ecos_mib_system_init (ie_uptime ie) e;
      e \<leftarrow> ecos_mib_root_exec (ie_env ie) (ie_uptime ie) e;
      Some (e, c\<lparr>s_iSockServer := ie_sock ie\<rparr>) }"
    by (simp add: case_prod_unfold)
  moreover have "timer_abs (e_timers (eb\<lparr>e_registry := reg\<rparr>)) [new_timer h (ie_uptime ie) ''system root configure'' None None 0 0]"
      "hnd (new_timer h (ie_uptime ie) ''system root configure'' None None 0 0) = s_timer_root_config (eb\<lparr>e_registry := reg\<rparr>)"
    using t(2) by (simp_all add: eb_def new_timer_def)
  moreover have "e_world eb = e_world e" "cf_fs (e_cf eb) = cf_fs (e_cf e)" by (simp_all add: eb_def ea_def ecos_config_file_init_def)
  ultimately show ?thesis using r(3,4) st
    by (intro exI [of _ "eb\<lparr>e_registry := reg\<rparr>"] exI [of _ ms] exI [of _ "new_timer h (ie_uptime ie) ''system root configure'' None None 0 0"])
      (simp add: start_ok_def new_timer_def)
qed

lemma init_ok:
  assumes st: "start_ok e c" and init: "oem_main_init ie (e, c) = Some (e', c')"
  shows "daemon_ok (ie_raw ie) e' \<and> server_ok c'"
proof -
  have sock: "0 \<le> ie_sock ie"
    using init by (auto simp: oem_main_init_def ecos_oem_root_init_def ecos_mib_parser_client_init_def ECosMibCommServerRegister_def bind_eq_Some_conv Let_def split: if_splits)
  obtain e1 ms t0 where h: "world_ok (e_world e1)" "reg_inv (e_registry e1) ms" "reg_view (e_registry e1) = mib_table (ie_raw ie)"
    "timer_abs (e_timers e1) [t0]" "hnd t0 = s_timer_root_config e1" "\<not> suspend t0" "func t0 = None"
    "oem_main_init ie (e, c) = do {
      (_, e) \<leftarrow> ecos_config_file_load ECOS_CONFIG_FILE e1;
      e \<leftarrow> set_config off_inIPAddress (u32_bytes 0xC0A846B9) e;
      e \<leftarrow> ecos_mib_system_init (ie_uptime ie) e;
      e \<leftarrow> ecos_mib_root_exec (ie_env ie) (ie_uptime ie) e;
      Some (e, c\<lparr>s_iSockServer := ie_sock ie\<rparr>) }"
    using init_head [OF st sock] by blast
  then obtain r e2 where l: "ecos_config_file_load ECOS_CONFIG_FILE e1 = Some (r, e2)"
    using init by (cases "ecos_config_file_load ECOS_CONFIG_FILE e1") auto
  then obtain w cf where w: "e2 = e1\<lparr>e_world := w, e_cf := cf\<rparr>" "world_ok w" using config_load_ok [OF l h(1)] by blast
  have "world_ok (e_world e2)" "reg_inv (e_registry e2) ms" "reg_view (e_registry e2) = mib_table (ie_raw ie)"
    "timer_abs (e_timers e2) [t0]" "hnd t0 = s_timer_root_config e2" using w h by simp_all
  from init_tail [OF this h(6,7), of "0xC0A846B9" "ie_uptime ie" "ie_env ie"] obtain e3 e4 where
    "set_config off_inIPAddress (u32_bytes 0xC0A846B9) e2 = Some e3" "ecos_mib_system_init (ie_uptime ie) e3 = Some e4"
    "\<And>e'. ecos_mib_root_exec (ie_env ie) (ie_uptime ie) e4 = Some e' \<Longrightarrow> daemon_ok (ie_raw ie) e'" by blast
  then show ?thesis using init h(8) l st by (auto simp: start_ok_def server_ok_def bind_Some_iff)
qed

lemma init_no_file:
  assumes st: "start_ok e c" and sock: "0 \<le> ie_sock ie" and nf: "cf_fs (e_cf e) ECOS_CONFIG_FILE = None"
    and closed: "name_closed (e_world e)" and first: "g_exec_first_flag (e_world e)"
  shows "\<exists>e' c'. oem_main_init ie (e, c) = Some (e', c') \<and>
    g_ConfigSet (e_world e') = config_put off_inIPAddress (u32_bytes 0xC0A846B9) (g_ConfigSet (e_world e)) \<and>
    g_ConfigSetBackup (e_world e') = g_ConfigSet (e_world e')"
proof -
  obtain e1 ms t0 where h: "world_ok (e_world e1)" "reg_inv (e_registry e1) ms" "reg_view (e_registry e1) = mib_table (ie_raw ie)"
    "timer_abs (e_timers e1) [t0]" "hnd t0 = s_timer_root_config e1" "\<not> suspend t0" "func t0 = None" "cf_fs (e_cf e1) = cf_fs (e_cf e)" "e_world e1 = e_world e"
    "oem_main_init ie (e, c) = do {
      (_, e) \<leftarrow> ecos_config_file_load ECOS_CONFIG_FILE e1;
      e \<leftarrow> set_config off_inIPAddress (u32_bytes 0xC0A846B9) e;
      e \<leftarrow> ecos_mib_system_init (ie_uptime ie) e;
      e \<leftarrow> ecos_mib_root_exec (ie_env ie) (ie_uptime ie) e;
      Some (e, c\<lparr>s_iSockServer := ie_sock ie\<rparr>) }"
    using init_head [OF st sock] by blast
  then obtain cf where l: "ecos_config_file_load ECOS_CONFIG_FILE e1 = Some (ECOS_CONFIG_FILE_LOAD_FAILED, e1\<lparr>e_cf := cf\<rparr>)"
    using nf by (simp add: ecos_config_file_load_def ecos_config_file_open_def)
  have "world_ok (e_world (e1\<lparr>e_cf := cf\<rparr>))" "reg_inv (e_registry (e1\<lparr>e_cf := cf\<rparr>)) ms" "reg_view (e_registry (e1\<lparr>e_cf := cf\<rparr>)) = mib_table (ie_raw ie)"
    "timer_abs (e_timers (e1\<lparr>e_cf := cf\<rparr>)) [t0]" "hnd t0 = s_timer_root_config (e1\<lparr>e_cf := cf\<rparr>)" using h by simp_all
  note tail = init_tail [OF this h(6,7), of "0xC0A846B9" "ie_uptime ie" "ie_env ie"]
  have w: "e_world (e1\<lparr>e_cf := cf\<rparr>) = e_world e" using h(9) by simp
  obtain e3 e4 e' where e': "set_config off_inIPAddress (u32_bytes 0xC0A846B9) (e1\<lparr>e_cf := cf\<rparr>) = Some e3"
    "ecos_mib_system_init (ie_uptime ie) e3 = Some e4" "ecos_mib_root_exec (ie_env ie) (ie_uptime ie) e4 = Some e'"
    "g_ConfigSet (e_world e') = config_put off_inIPAddress (u32_bytes 0xC0A846B9) (g_ConfigSet (e_world e))"
    "g_ConfigSetBackup (e_world e') = g_ConfigSet (e_world e')" using tail closed first unfolding w by blast
  have "oem_main_init ie (e, c) = Some (e', c\<lparr>s_iSockServer := ie_sock ie\<rparr>)" using h(10) l e'(1-3) by simp
  then show ?thesis using e'(4,5) by blast
qed

subsection \<open>Writing and reading the address\<close>

lemma packet_parts:
  assumes "length rs = 3"
  shows "drop 12 (packet mib ln i rq res rs d) = d" "take 12 (packet mib ln i rq res rs d) @ d' = packet mib ln i rq res rs d'"
  using assms by (simp_all add: packet_def numeral_eq_Suc)

lemma hook_answers:
  assumes ok: "daemon_ok raw e" and r: "mib_table raw mib = Some r" "parser_fn r = Some f" "base_addr r = Some off"
    and rq: "rq \<in> {CONF_REQUEST_FIELD_INFO, CONF_REQUEST_READ, CONF_REQUEST_WRITE, CONF_REQUEST_REMOVE, CONF_REQUEST_PERMISSION}"
    and out: "length out < 65536"
    and call: "\<And>tl p. length (d @ tl) = MAX_EXCHANGE_SIZE - 12 \<Longrightarrow> length p = MAX_EXCHANGE_SIZE - 12 \<Longrightarrow>
      \<exists>q' p'. call_parser f env now \<lparr>pa_Request = rq, pa_usRequestLength = of_nat (length d), pa_pCfgField = off, pa_ulCfgSize = unat (base_size r),
          pa_pReq = d @ tl, pa_pResp = p\<rparr> e = Some (result, length out, e', q', out @ p') \<and>
        length q' = MAX_EXCHANGE_SIZE - 12 \<and> length (out @ p') = MAX_EXCHANGE_SIZE - 12"
  shows "answers (parser_mib_root env now) e mib index rq d result out e'"
  unfolding answers_def
proof (intro allI impI)
  fix res and rs tl rs' p :: "u8 list"
  assume l: "length rs = 3" "length rs' = 3" "length (d @ tl) = MAX_EXCHANGE_SIZE - 12" "length p = MAX_EXCHANGE_SIZE - 12"
  obtain a where a: "ecos_mib_find (e_registry e) mib = Some (Some a)" "mr_regs (e_registry e) a = Some r"
  proof -
    obtain q where "ecos_mib_find (e_registry e) mib = Some q" "Option.bind q (mr_regs (e_registry e)) = Some r" using find_mib [OF ok, of mib] r(1) by auto
    then show ?thesis by (cases q) (auto intro: that)
  qed
  have rule: "call_rule (rule_fn r) (base_addr r) (base_size r) index = Some (base_addr r)" "base_addr r \<noteq> ECOS_ADDR_ERROR"
    using mib_node_fields [OF r(1)] by (simp_all add: call_rule_def ecos_addr_rule_default_def)
  obtain q' p' where k: "call_parser f env now \<lparr>pa_Request = rq, pa_usRequestLength = of_nat (length d), pa_pCfgField = off, pa_ulCfgSize = unat (base_size r),
        pa_pReq = d @ tl, pa_pResp = p\<rparr> e = Some (result, length out, e', q', out @ p')"
      "length q' = MAX_EXCHANGE_SIZE - 12" "length (out @ p') = MAX_EXCHANGE_SIZE - 12" using call [OF l(3,4)] by blast
  have n: "uint (of_nat (length out) :: u16) = int (length out)" using u16_length [OF out] by (simp only: uint_nat)
  have "parser_mib_root env now e (packet mib (of_nat (length d)) index rq res rs (d @ tl)) (packet mib 0 index rq CONF_RESULT_IPC_ERROR rs' p) =
      Some (int (length out), e', take 12 (packet mib (of_nat (length d)) index rq res rs (d @ tl)) @ q', packet mib (of_nat (length out)) index rq result rs' (out @ p'))"
    using a rule r rq k(1) n by (simp add: parser_mib_root_def packet_parts [OF l(1)] packet_parts [OF l(2)] set_result_packet set_len_packet del: store_bytes.simps)
  moreover have "length (take 12 (packet mib (of_nat (length d)) index rq res rs (d @ tl)) @ q') = MAX_EXCHANGE_SIZE" using k(2) l(1) by (simp add: max_size)
  ultimately show "\<exists>req' d''. parser_mib_root env now e (packet mib (of_nat (length d)) index rq res rs (d @ tl)) (packet mib 0 index rq CONF_RESULT_IPC_ERROR rs' p) =
      Some (int (length out), e', req', packet mib (of_nat (length out)) index rq result rs' (out @ d'')) \<and> length req' = MAX_EXCHANGE_SIZE \<and> length (out @ d'') = MAX_EXCHANGE_SIZE - 12"
    using k(3) by blast
qed

definition ip_text :: "u32 \<Rightarrow> u8 list" where "ip_text ip = bytes_of (IP2Str ip @ [NUL])"

lemma ip_text_length: "8 \<le> length (ip_text ip)" "length (ip_text ip) \<le> 16"
  using IP2Str_text [of ip] by (simp_all add: ip_text_def bytes_of_def)

lemma ip_text_read: "cstr_at (chars_of (ip_text ip @ r)) 0 = Some (IP2Str ip)"
proof -
  have "chars_of (ip_text ip @ r) = IP2Str ip @ NUL # chars_of r"
    using chars_bytes [of "IP2Str ip @ [NUL]"] by (simp add: ip_text_def chars_of_def)
  moreover have "takeWhile (\<lambda>c. c \<noteq> NUL) (IP2Str ip @ NUL # chars_of r) = IP2Str ip"
    using IP2Str_text(3) [of ip] by (subst takeWhile_append2) auto
  ultimately show ?thesis by (simp add: cstr_at_def cstr_def)
qed

lemma ip_node: "mib_table raw MIB_NET_IP = Some (reg_of raw args_inIPAddress)" "parser_fn (reg_of raw args_inIPAddress) = Some fn_ParserSystemIP"
  "base_addr (reg_of raw args_inIPAddress) = Some off_inIPAddress"
  by (simp_all add: mib_table_def reg_of_def args_inIPAddress_def)

lemma call_ip: "call_parser fn_ParserSystemIP env now a e = ParserSystemIP env now a e"
  by (simp add: call_parser_def fn_ParserSystemIPType_def fn_ParserSystemIP_def)

lemma requests [simp]: "CONF_REQUEST_READ \<noteq> CONF_REQUEST_FIELD_INFO" "CONF_REQUEST_WRITE \<noteq> CONF_REQUEST_FIELD_INFO" "CONF_REQUEST_WRITE \<noteq> CONF_REQUEST_READ"
  by (simp_all add: CONF_REQUEST_READ_def CONF_REQUEST_FIELD_INFO_def CONF_REQUEST_WRITE_def)

lemma ip_read_answers:
  assumes "daemon_ok raw e"
  shows "answers (parser_mib_root env now) e MIB_NET_IP i CONF_REQUEST_READ [] CONF_RESULT_OK (ip_text (config_u32 (e_world e) off_inIPAddress)) e"
proof (rule hook_answers [OF assms ip_node])
  let ?t = "ip_text (config_u32 (e_world e) off_inIPAddress)"
  show "length ?t < 65536" using ip_text_length(2) [of "config_u32 (e_world e) off_inIPAddress"] by simp
  fix tl p :: "u8 list" assume l: "length ([] @ tl) = MAX_EXCHANGE_SIZE - 12" "length p = MAX_EXCHANGE_SIZE - 12"
  have "store_bytes p 0 ?t = Some (?t @ drop (length ?t) p)" "length ?t \<le> length p"
    using l ip_text_length(2) [of "config_u32 (e_world e) off_inIPAddress"] by (simp_all add: store_bytes_eq max_size)
  then show "\<exists>q' p'. call_parser fn_ParserSystemIP env now \<lparr>pa_Request = CONF_REQUEST_READ, pa_usRequestLength = of_nat (length ([] :: u8 list)), pa_pCfgField = off_inIPAddress,
        pa_ulCfgSize = unat (base_size (reg_of raw args_inIPAddress)), pa_pReq = [] @ tl, pa_pResp = p\<rparr> e = Some (CONF_RESULT_OK, length ?t, e, q', ?t @ p') \<and>
      length q' = MAX_EXCHANGE_SIZE - 12 \<and> length (?t @ p') = MAX_EXCHANGE_SIZE - 12"
    using l by (simp add: call_ip ParserSystemIP_def ip_text_def bytes_of_def Let_def)
qed simp

text \<open>A valid address is stored when it is not the one that is stored already.\<close>

lemma ip_write_answers:
  assumes ok: "daemon_ok raw e" and t: "daemon_timers e t0 t1" and ip: "IsValidIP ip"
  shows "\<exists>ts result e'. answers (parser_mib_root env now) e MIB_NET_IP i CONF_REQUEST_WRITE (ip_text ip) result [] e' \<and> daemon_ok raw e' \<and>
    (if config_u32 (e_world e) off_inIPAddress = ip then result = CONF_RESULT_REQUEST_NOT_HANDLE \<and> e' = e
     else result = CONF_RESULT_OK \<and>
       e' = e\<lparr>e_world := (e_world e)\<lparr>g_ConfigSet := config_put off_inIPAddress (u32_bytes ip) (g_ConfigSet (e_world e))\<rparr>, e_timers := ts\<rparr> \<and>
       daemon_timers e' (t0\<lparr>func := Some fn_root_config, p_args := None, interval := 2, count := 1, last_time := now\<rparr>) t1)"
proof -
  have u: "unat (of_nat (length (ip_text ip)) :: u16) = length (ip_text ip)" using ip_text_length [of ip] by (intro u16_length) simp
  obtain e1 ts e' where w: "set_config off_inIPAddress (u32_bytes ip) e = Some e1" "ecos_mib_root_exec env now e1 = Some e'" "daemon_ok raw e'"
      "e' = e\<lparr>e_world := (e_world e)\<lparr>g_ConfigSet := config_put off_inIPAddress (u32_bytes ip) (g_ConfigSet (e_world e))\<rparr>, e_timers := ts\<rparr>"
      "daemon_timers e' (t0\<lparr>func := Some fn_root_config, p_args := None, interval := 2, count := 1, last_time := now\<rparr>) t1"
    using write_config [OF ok t, of off_inIPAddress "u32_bytes ip" env now] by (auto simp: off_inIPAddress_def size_ConfigSet_def)
  let ?same = "config_u32 (e_world e) off_inIPAddress = ip"
  have "answers (parser_mib_root env now) e MIB_NET_IP i CONF_REQUEST_WRITE (ip_text ip) (if ?same then CONF_RESULT_REQUEST_NOT_HANDLE else CONF_RESULT_OK) []
      (if ?same then e else e')"
  proof (rule hook_answers [OF ok ip_node])
    fix tl p :: "u8 list" assume l: "length (ip_text ip @ tl) = MAX_EXCHANGE_SIZE - 12" "length p = MAX_EXCHANGE_SIZE - 12"
    show "\<exists>q' p'. call_parser fn_ParserSystemIP env now \<lparr>pa_Request = CONF_REQUEST_WRITE, pa_usRequestLength = of_nat (length (ip_text ip)), pa_pCfgField = off_inIPAddress,
          pa_ulCfgSize = unat (base_size (reg_of raw args_inIPAddress)), pa_pReq = ip_text ip @ tl, pa_pResp = p\<rparr> e =
        Some (if ?same then CONF_RESULT_REQUEST_NOT_HANDLE else CONF_RESULT_OK, length ([] :: u8 list), if ?same then e else e', q', [] @ p') \<and>
        length q' = MAX_EXCHANGE_SIZE - 12 \<and> length ([] @ p') = MAX_EXCHANGE_SIZE - 12"
      using l w(1,2) ip ip_text_length [of ip] u
      by (simp add: call_ip ParserSystemIP_def ip_text_read IP_STR_MIN_LEN_def IP_STR_MAX_LEN_def)
  qed simp_all
  then show ?thesis using w(3-5) ok by (cases ?same) auto
qed

subsection \<open>Runs of the daemon\<close>

inductive daemon_run :: "ecos_env \<Rightarrow> ecos \<times> mib_comm \<Rightarrow> ecos \<times> mib_comm \<Rightarrow> bool" for env s0 where
  run_start: "daemon_run env s0 s0"
| run_turn: "daemon_run env s0 s \<Longrightarrow> pred_option datagram request \<Longrightarrow> oem_main_turn env now request s = Some (out, s') \<Longrightarrow> daemon_run env s0 s'"

definition state_ok :: "bool \<Rightarrow> mib_shash_reg \<Rightarrow> ecos \<times> mib_comm \<Rightarrow> bool" where
  "state_ok b raw s \<longleftrightarrow> daemon_inv b raw (fst s) \<and> server_ok (snd s)"

lemma run_ok: "daemon_run env s0 s \<Longrightarrow> state_ok b raw s0 \<Longrightarrow> state_ok b raw s"
proof (induction rule: daemon_run.induct)
  case (run_turn s request now out s')
  then show ?case using turn_keeps [of b raw "fst s" "snd s" request env now out "fst s'" "snd s'"]
    by (cases request) (auto simp: state_ok_def)
qed

lemma reach_ok:
  assumes "start_ok e0 c0" "oem_main_init ie (e0, c0) = Some s0" "daemon_run env s0 s"
  shows "state_ok (name_closed (e_world (fst s0))) (ie_raw ie) s"
  using run_ok [OF assms(3), of "name_closed (e_world (fst s0))" "ie_raw ie"] init_ok [OF assms(1), of ie "fst s0" "snd s0"] assms(2)
  by (simp add: state_ok_def daemon_inv_def)

lemma server_comm: "server_ok c \<Longrightarrow> comm_ok c"
  by (simp add: server_ok_def comm_ok_def buffer_ok_def)

text \<open>Turns without a request.\<close>

fun quiet_turns :: "ecos_env \<Rightarrow> int list \<Rightarrow> ecos \<times> mib_comm \<Rightarrow> (ecos \<times> mib_comm) option" where
  "quiet_turns env [] s = Some s"
| "quiet_turns env (now # ts) s = do { (_, s) \<leftarrow> oem_main_turn env now None s; quiet_turns env ts s }"

lemma link_run:
  assumes "callback_opt (timer_effect env) now t w = Some w'" "func t = Some fn_link_integrity_monitor"
  shows "w_dev w' = w_dev w" "g_ConfigSetBackup w' = g_ConfigSetBackup w"
  using assms by (auto simp: callback_opt_def timer_effect_def fn_link_integrity_monitor_def fn_root_config_def split: if_splits)

lemma quiet_turn:
  assumes ok: "daemon_inv True raw e" and t: "daemon_timers e t0 t1"
  shows "\<exists>e' w1. oem_main_turn env now None (e, c) = Some (None, e', c) \<and> daemon_inv True raw e' \<and>
    daemon_timers e' (fire now t0) (fire now t1) \<and> callback_opt (timer_effect env) now t0 (e_world e) = Some w1 \<and>
    w_dev (e_world e') = w_dev w1 \<and> g_ConfigSet (e_world e') = g_ConfigSet (e_world e) \<and>
    g_ConfigSetBackup (e_world e') = g_ConfigSetBackup w1"
proof -
  have ok': "daemon_ok raw e" "name_closed (e_world e)" using ok by (simp_all add: daemon_inv_def)
  obtain e' where e': "ecos_timers_run env now e = Some e'" using timers_run_defined [OF ok'] by blast
  obtain ts w1 w where w: "callback_opt (timer_effect env) now t0 (e_world e) = Some w1" "callback_opt (timer_effect env) now t1 w1 = Some w"
    "e' = e\<lparr>e_world := w, e_timers := ts\<rparr>" "timer_abs ts [fire now t0, fire now t1]"
    using timers_run_parts [OF t e'] .
  have f: "func t1 = Some fn_link_integrity_monitor" using t by (simp add: daemon_timers_def)
  note keep = timers_run_ok [OF ok'(1) e']
  then have "daemon_inv True raw e'" using ok'(2) by (simp add: daemon_inv_def name_closed_def)
  moreover have "daemon_timers e' (fire now t0) (fire now t1)" using t w(3,4) by (simp add: daemon_timers_def)
  ultimately show ?thesis using e' w keep link_run [OF w(2) f] by (intro exI [of _ e'] exI [of _ w1]) (simp add: oem_main_turn_def)
qed

text \<open>Once the timer has fired nothing more happens.\<close>

lemma quiet_done:
  assumes "daemon_inv True raw e" "daemon_timers e t0 t1" "count t0 = 0"
  shows "\<exists>e'. quiet_turns env ts (e, c) = Some (e', c) \<and> w_dev (e_world e') = w_dev (e_world e)"
  using assms
proof (induction ts arbitrary: e t0 t1)
  case (Cons now ts)
  obtain e' w1 where e': "oem_main_turn env now None (e, c) = Some (None, e', c)" "daemon_inv True raw e'" "daemon_timers e' (fire now t0) (fire now t1)"
      "callback_opt (timer_effect env) now t0 (e_world e) = Some w1" "w_dev (e_world e') = w_dev w1" using quiet_turn [OF Cons.prems(1,2)] by blast
  have "\<not> timer_due now t0" using Cons.prems(3) by (simp add: timer_due_def)
  then have "count (fire now t0) = 0" "w_dev (e_world e') = w_dev (e_world e)" using Cons.prems(3) e'(4,5) by (simp_all add: fire_def callback_opt_def)
  then show ?case using Cons.IH [OF e'(2,3)] e'(1) by simp
qed simp

lemma quiet_pending:
  assumes "daemon_inv True raw e" "daemon_timers e t0 t1" "func t0 = Some fn_root_config" "interval t0 = 2" "count t0 = 1" "config_u32 (e_world e) off_ulIPType = IP_TYPE_STATIC_IP"
  shows "\<exists>e'. quiet_turns env ts (e, c) = Some (e', c) \<and> w_dev (e_world e') =
    (if (\<exists>t \<in> set ts. last_time t0 + 2 \<le> t) \<and> exec_memcmp (e_world e) off_IPSets size_IPSets
     then snd (InterfaceIPSet (ee_dev env) ''ens33'' (config_u32 (e_world e) off_inIPAddress) (w_dev (e_world e))) else w_dev (e_world e))"
  using assms
proof (induction ts arbitrary: e t0 t1)
  case (Cons now ts)
  obtain e' w1 where e': "oem_main_turn env now None (e, c) = Some (None, e', c)" "daemon_inv True raw e'" "daemon_timers e' (fire now t0) (fire now t1)"
      "callback_opt (timer_effect env) now t0 (e_world e) = Some w1" "w_dev (e_world e') = w_dev w1" "g_ConfigSet (e_world e') = g_ConfigSet (e_world e)"
      "g_ConfigSetBackup (e_world e') = g_ConfigSetBackup w1" using quiet_turn [OF Cons.prems(1,2)] by blast
  have due: "timer_due now t0 \<longleftrightarrow> last_time t0 + 2 \<le> now" using Cons.prems(2-5) by (auto simp: timer_due_def daemon_timers_def)
  show ?case
  proof (cases "last_time t0 + 2 \<le> now")
    case True
    have first: "\<not> g_exec_first_flag (e_world e)" using Cons.prems(1) by (simp add: daemon_inv_def daemon_ok_def)
    have "root_config env (e_world e) = Some w1" using e'(4) True due Cons.prems(3) by (simp add: callback_opt_def timer_effect_def)
    from root_config_dev [OF this first Cons.prems(6)] have "w_dev (e_world e') = (if exec_memcmp (e_world e) off_IPSets size_IPSets
        then snd (InterfaceIPSet (ee_dev env) ''ens33'' (config_u32 (e_world e) off_inIPAddress) (w_dev (e_world e))) else w_dev (e_world e))"
      using e'(5) by simp
    moreover have "count (fire now t0) = 0" using True due Cons.prems(5) by (simp add: fire_def timer_fired_def ECOS_TIMER_FUNCTION_COUNT_FOREVER_def)
    ultimately show ?thesis using True quiet_done [OF e'(2,3)] e'(1) by simp
  next
    case False
    then have f: "fire now t0 = t0" "w_dev (e_world e') = w_dev (e_world e)" "g_ConfigSetBackup (e_world e') = g_ConfigSetBackup (e_world e)"
      using due e'(4,5,7) by (simp_all add: fire_def callback_opt_def)
    have g: "config_u32 (e_world e') = config_u32 (e_world e)" "exec_memcmp (e_world e') = exec_memcmp (e_world e)"
      using e'(6) f(3) by (simp_all add: config_u32_def exec_memcmp_def fun_eq_iff)
    have ih: "\<exists>e2. quiet_turns env ts (e', c) = Some (e2, c) \<and> w_dev (e_world e2) =
      (if (\<exists>t \<in> set ts. last_time t0 + 2 \<le> t) \<and> exec_memcmp (e_world e) off_IPSets size_IPSets
       then snd (InterfaceIPSet (ee_dev env) ''ens33'' (config_u32 (e_world e) off_inIPAddress) (w_dev (e_world e))) else w_dev (e_world e))"
      using Cons.IH [OF e'(2) e'(3) [unfolded f(1)]] Cons.prems(3-6) by (simp only: f g)
    have "quiet_turns env (now # ts) (e, c) = quiet_turns env ts (e', c)" using e'(1) by simp
    moreover have "(\<exists>t \<in> set (now # ts). last_time t0 + 2 \<le> t) \<longleftrightarrow> (\<exists>t \<in> set ts. last_time t0 + 2 \<le> t)" using False by simp
    ultimately show ?thesis using ih by (simp only:)
  qed
qed simp

subsection \<open>Properties\<close>

lemma free_ok:
  assumes "state_ok b raw s"
  shows "\<exists>e c. oem_main_free closed s = Some (e, c) \<and> timer_memory (e_timers e) \<and> mr_orders (e_registry e) = Map.empty \<and> mr_shash (e_registry e) = None"
proof -
  obtain e c where s: "s = (e, c)" by (cases s)
  define e1 where "e1 = e\<lparr>g_mib_comm_fd := INVALID_SOCKET, e_cf := ecos_config_file_free (e_cf e)\<rparr>"
  obtain ms t0 t1 where r: "reg_inv (e_registry e) ms" "timer_abs (e_timers e) [t0, t1]" using assms s by (auto simp: state_ok_def daemon_inv_def daemon_ok_def daemon_timers_def)
  obtain ts where ts: "ecos_timer_function_free (e_timers e) = Some ts" "timer_memory ts" using free_abs [OF r(2)] by blast
  obtain reg where reg: "ecos_mib_reg_free (e_registry e) = Some reg" "mr_orders reg = Map.empty" "mr_shash reg = None" using reg_free_spec [OF r(1)] by blast
  have "oem_main_free closed s = Some (e1\<lparr>e_timers := ts, e_registry := reg\<rparr>, snd (ECosMibCommServerUnregister closed c))"
    using ts(1) reg(1) by (simp add: oem_main_free_def ecos_mib_parser_client_free_def s e1_def case_prod_unfold Let_def)
  then show ?thesis using ts(2) reg(2,3) by simp
qed

text \<open>C12: after a start that succeeds with the product name closed by a zero byte (as it is without a configuration
  file, or with a name of at most 31 bytes in it), whatever datagrams arrive (of any content, up to the longest of UDP)
  and whatever the clock shows, every state the main loop reaches can make its next turn: no access outside a buffer or
  to memory that is not allocated, in the server, the parsers, the registry, the timers and the printing of the name;
  and from each such state the end of the program frees all timers and the registry.\<close>

theorem daemon_runs_safely:
  assumes "start_ok e0 c0" and "oem_main_init ie (e0, c0) = Some s0" and "name_closed (e_world (fst s0))"
    and "daemon_run (ie_env ie) s0 s" and "pred_option datagram request"
  shows "(\<exists>out s'. oem_main_turn (ie_env ie) now request s = Some (out, s') \<and> daemon_run (ie_env ie) s0 s') \<and>
    (\<exists>e c. oem_main_free closed s = Some (e, c) \<and> timer_memory (e_timers e) \<and> mr_orders (e_registry e) = Map.empty \<and> mr_shash (e_registry e) = None)"
proof -
  have ok: "state_ok True (ie_raw ie) s" using reach_ok [OF assms(1,2,4)] assms(3) by simp
  then obtain out s' where "oem_main_turn (ie_env ie) now request s = Some (out, s')"
    using turn_safe [of "ie_raw ie" "fst s" "snd s" request "ie_env ie" now] assms(5) by (cases request) (auto simp: state_ok_def)
  then show ?thesis using run_turn [OF assms(4,5)] free_ok [OF ok] by blast
qed

lemma ip_text_write:
  assumes "ce_net cenv = server_net hook" "0 \<le> ce_sock cenv" "comm_ok c" "comm_ok cl"
    and "answers hook e mib i CONF_REQUEST_WRITE (ip_text ip) result [] e'"
  shows "\<exists>c' cl'. ConfigWriteString cenv i mib (ip_text ip) ((e, c), cl) = Some (result, Some (ip_text ip), (e', c'), cl') \<and> comm_ok c' \<and> comm_ok cl'"
proof -
  have "0 \<notin> set (bytes_of (IP2Str ip))"
  proof
    assume "0 \<in> set (bytes_of (IP2Str ip))"
    then obtain ch where "ch \<in> set (IP2Str ip)" "of_char ch = (0 :: u8)" by (auto simp: bytes_of_def)
    moreover have "chars_of [0] = [NUL]" by (simp add: chars_of_def char_of_def)
    moreover have "chars_of [of_char ch] = [ch]" using chars_bytes [of "[ch]"] by (simp add: bytes_of_def)
    ultimately show False using IP2Str_text(3) by simp
  qed
  then have "takeWhile (\<lambda>b. b \<noteq> 0) (bytes_of (IP2Str ip) @ [0]) = bytes_of (IP2Str ip)" by (subst takeWhile_append2) auto
  moreover have "ip_text ip = bytes_of (IP2Str ip) @ [0]" by (simp add: ip_text_def bytes_of_def)
  ultimately have tw: "takeWhile (\<lambda>b. b \<noteq> 0) (ip_text ip) = bytes_of (IP2Str ip)" "0 \<in> set (ip_text ip)" by simp_all
  have l: "length (bytes_of (IP2Str ip)) + 1 = length (ip_text ip)" by (simp add: ip_text_def bytes_of_def)
  have "\<exists>c' cl'. ConfigExchange cenv CONF_REQUEST_WRITE i mib (Some (ip_text ip)) (of_nat (length (ip_text ip))) (of_nat 0) ((e, c), cl) =
      Some (result, Some (received_data (ip_text ip) result 0 []), (e', c'), cl') \<and> comm_ok c' \<and> comm_ok cl'"
    by (rule config_exchange [OF assms(3-5)]) (use assms ip_text_length [of ip] in simp_all)
  moreover have "ConfigWriteString cenv i mib (ip_text ip) s =
      ConfigExchange cenv CONF_REQUEST_WRITE i mib (Some (ip_text ip)) (of_nat (length (ip_text ip))) (of_nat 0) s" for s
    unfolding ConfigWriteString_def by (simp only: tw l if_True) simp
  ultimately show ?thesis by (simp add: received_data_def)
qed

lemma put_address:
  assumes "world_ok w"
  shows "config_u32 (w\<lparr>g_ConfigSet := config_put off_inIPAddress (u32_bytes ip) (g_ConfigSet w)\<rparr>) off_inIPAddress = ip"
    "config_u32 (w\<lparr>g_ConfigSet := config_put off_inIPAddress (u32_bytes ip) (g_ConfigSet w)\<rparr>) off_ulIPType = config_u32 w off_ulIPType"
proof -
  have l: "length (g_ConfigSet w) = 60" using assms by (simp add: world_ok_def size_ConfigSet_def)
  show "config_u32 (w\<lparr>g_ConfigSet := config_put off_inIPAddress (u32_bytes ip) (g_ConfigSet w)\<rparr>) off_inIPAddress = ip"
    using l by (simp add: config_u32_def config_put_def off_inIPAddress_def bytes_of_u32)
  have "take 4 (drop 36 (config_put 40 (u32_bytes ip) (g_ConfigSet w))) = take 4 (drop 36 (g_ConfigSet w))"
    using l by (simp add: config_put_def drop_take)
  moreover have "bytes_u32 bs = bytes_u32 (take 4 bs)" for bs by (simp add: bytes_u32_def numeral_eq_Suc split: list.split)
  ultimately have "bytes_u32 (drop 36 (config_put 40 (u32_bytes ip) (g_ConfigSet w))) = bytes_u32 (drop 36 (g_ConfigSet w))" by metis
  then show "config_u32 (w\<lparr>g_ConfigSet := config_put off_inIPAddress (u32_bytes ip) (g_ConfigSet w)\<rparr>) off_ulIPType = config_u32 w off_ulIPType"
    by (simp add: config_u32_def off_inIPAddress_def off_ulIPType_def)
qed

text \<open>C21: in every state the daemon reaches, a client that writes a valid address as text and then reads the address
  gets the same text back, ended by a zero byte; the write is answered with OK, or with NOT HANDLE when the address is
  the one that is stored already.\<close>

theorem address_write_read:
  assumes "start_ok e0 c0" and "oem_main_init ie (e0, c0) = Some s0" and "daemon_run (ie_env ie) s0 (e, c)"
    and "ce_net cenv = server_net (parser_mib_root (ie_env ie) now)" and "0 \<le> ce_sock cenv" and "comm_ok cl"
    and "IsValidIP ip" and "16 < length buf" and "length buf < 65536"
  shows "\<exists>result s1 s2 cl1 cl2.
    ConfigWriteString cenv i MIB_NET_IP (ip_text ip) ((e, c), cl) = Some (result, Some (ip_text ip), s1, cl1) \<and>
    result = (if config_u32 (e_world e) off_inIPAddress = ip then CONF_RESULT_REQUEST_NOT_HANDLE else CONF_RESULT_OK) \<and>
    ConfigReadString cenv i MIB_NET_IP buf (s1, cl1) =
      Some (CONF_RESULT_OK, Some (ip_text ip @ [0] @ drop (length (ip_text ip) + 1) buf), s2, cl2)"
proof -
  have ok: "daemon_ok (ie_raw ie) e" "comm_ok c" using reach_ok [OF assms(1-3)] server_comm by (simp_all add: state_ok_def daemon_inv_def)
  obtain t0 t1 where t: "daemon_timers e t0 t1" using ok(1) by (rule daemon_timersE)
  obtain result e' ts where a: "answers (parser_mib_root (ie_env ie) now) e MIB_NET_IP i CONF_REQUEST_WRITE (ip_text ip) result [] e'" "daemon_ok (ie_raw ie) e'"
      "if config_u32 (e_world e) off_inIPAddress = ip then result = CONF_RESULT_REQUEST_NOT_HANDLE \<and> e' = e
       else result = CONF_RESULT_OK \<and>
         e' = e\<lparr>e_world := (e_world e)\<lparr>g_ConfigSet := config_put off_inIPAddress (u32_bytes ip) (g_ConfigSet (e_world e))\<rparr>, e_timers := ts\<rparr>"
    using ip_write_answers [OF ok(1) t assms(7), of "ie_env ie" now i] by (elim exE conjE) (metis (no_types))
  have "world_ok (e_world e)" using ok(1) by (simp add: daemon_ok_def)
  with a have w: "answers (parser_mib_root (ie_env ie) now) e MIB_NET_IP i CONF_REQUEST_WRITE (ip_text ip) result [] e'" "daemon_ok (ie_raw ie) e'"
      "result = (if config_u32 (e_world e) off_inIPAddress = ip then CONF_RESULT_REQUEST_NOT_HANDLE else CONF_RESULT_OK)" "config_u32 (e_world e') off_inIPAddress = ip"
    by (simp_all add: put_address(1) split: if_splits)
  obtain c1 cl1 where 1: "ConfigWriteString cenv i MIB_NET_IP (ip_text ip) ((e, c), cl) = Some (result, Some (ip_text ip), (e', c1), cl1)" "comm_ok c1" "comm_ok cl1"
    using ip_text_write [OF assms(4,5) ok(2) assms(6) w(1)] by blast
  have "\<exists>c' cl'. ConfigExchange cenv CONF_REQUEST_READ i MIB_NET_IP (Some buf) (of_nat (length ([] :: u8 list))) (of_nat (length buf)) ((e', c1), cl1) =
      Some (CONF_RESULT_OK, Some (received_data buf CONF_RESULT_OK (length buf) (ip_text ip)), (e', c'), cl') \<and> comm_ok c' \<and> comm_ok cl'"
    by (rule config_exchange [OF 1(2,3) ip_read_answers [OF w(2), of "ie_env ie" now i, unfolded w(4)]])
      (use assms(4,5,8,9) ip_text_length [of ip] in simp_all)
  moreover have "received_data buf CONF_RESULT_OK (length buf) (ip_text ip) = ip_text ip @ [0] @ drop (length (ip_text ip) + 1) buf"
    using assms(8) ip_text_length [of ip] by (auto simp: received_data_def)
  ultimately show ?thesis using 1(1) w(3) by (auto simp: ConfigReadString_def)
qed

text \<open>C19: when a new valid address is written at an uptime, the address type being static and the product name closed by a
  zero byte, the write only stores it; the
  interface is given the new address by the first turn of the main loop at least two seconds later, by one call of
  InterfaceIPSet, if the settings then differ from those applied last (writing the old address back within the two
  seconds leaves the interface alone), and no later turn without a request touches the interface again.\<close>

theorem address_applied_once:
  assumes "start_ok e0 c0" and "oem_main_init ie (e0, c0) = Some s0" and "daemon_run (ie_env ie) s0 (e, c)"
    and "name_closed (e_world (fst s0))" and "ce_net cenv = server_net (parser_mib_root (ie_env ie) now)" and "0 \<le> ce_sock cenv" and "comm_ok cl"
    and "IsValidIP ip" and "config_u32 (e_world e) off_inIPAddress \<noteq> ip" and "config_u32 (e_world e) off_ulIPType = IP_TYPE_STATIC_IP"
  shows "\<exists>e1 c1 cl1. ConfigWriteString cenv i MIB_NET_IP (ip_text ip) ((e, c), cl) = Some (CONF_RESULT_OK, Some (ip_text ip), (e1, c1), cl1) \<and>
    g_ConfigSet (e_world e1) = config_put off_inIPAddress (u32_bytes ip) (g_ConfigSet (e_world e)) \<and>
    g_ConfigSetBackup (e_world e1) = g_ConfigSetBackup (e_world e) \<and>
    (\<forall>ts. \<exists>e2. quiet_turns (ie_env ie) ts (e1, c1) = Some (e2, c1) \<and> w_dev (e_world e2) =
       (if (\<exists>t \<in> set ts. now + 2 \<le> t) \<and> exec_memcmp (e_world e1) off_IPSets size_IPSets
        then snd (InterfaceIPSet (ee_dev (ie_env ie)) ''ens33'' ip (w_dev (e_world e))) else w_dev (e_world e)))"
proof -
  have ok: "daemon_ok (ie_raw ie) e" "comm_ok c" using reach_ok [OF assms(1-3)] server_comm by (simp_all add: state_ok_def daemon_inv_def)
  have closed: "name_closed (e_world e)" using reach_ok [OF assms(1-3)] assms(4) by (simp add: state_ok_def daemon_inv_def)
  have w: "world_ok (e_world e)" using ok(1) by (simp add: daemon_ok_def)
  obtain t0 t1 where t: "daemon_timers e t0 t1" using ok(1) by (rule daemon_timersE)
  define t0' where "t0' = t0\<lparr>func := Some fn_root_config, p_args := None, interval := 2, count := 1, last_time := now\<rparr>"
  obtain ts e1 where a: "answers (parser_mib_root (ie_env ie) now) e MIB_NET_IP i CONF_REQUEST_WRITE (ip_text ip) CONF_RESULT_OK [] e1" "daemon_ok (ie_raw ie) e1"
      "e1 = e\<lparr>e_world := (e_world e)\<lparr>g_ConfigSet := config_put off_inIPAddress (u32_bytes ip) (g_ConfigSet (e_world e))\<rparr>, e_timers := ts\<rparr>"
      "daemon_timers e1 t0' t1"
    using ip_write_answers [OF ok(1) t assms(8), of "ie_env ie" now i] assms(9) unfolding t0'_def by (simp only: if_False) blast
  obtain c1 cl1 where 1: "ConfigWriteString cenv i MIB_NET_IP (ip_text ip) ((e, c), cl) = Some (CONF_RESULT_OK, Some (ip_text ip), (e1, c1), cl1)"
    using ip_text_write [OF assms(5,6) ok(2) assms(7) a(1)] by blast
  have c: "config_u32 (e_world e1) off_ulIPType = IP_TYPE_STATIC_IP" "config_u32 (e_world e1) off_inIPAddress = ip" "w_dev (e_world e1) = w_dev (e_world e)"
    using a(3) put_address [OF w] assms(10) by simp_all
  have "length (g_ConfigSet (e_world e)) = size_ConfigSet" using w by (simp add: world_ok_def)
  then have inv1: "daemon_inv True (ie_raw ie) e1" using a(2,3) closed
    by (simp add: daemon_inv_def name_closed_def config_put_def nth_append off_inIPAddress_def off_szProductName_def size_szProductName_def size_ConfigSet_def)
  have "\<exists>e2. quiet_turns (ie_env ie) ts (e1, c1) = Some (e2, c1) \<and> w_dev (e_world e2) =
       (if (\<exists>t \<in> set ts. now + 2 \<le> t) \<and> exec_memcmp (e_world e1) off_IPSets size_IPSets
        then snd (InterfaceIPSet (ee_dev (ie_env ie)) ''ens33'' ip (w_dev (e_world e))) else w_dev (e_world e))" for ts
  proof -
    have "func t0' = Some fn_root_config" "interval t0' = 2" "count t0' = 1" "last_time t0' = now" by (simp_all add: t0'_def)
    then show ?thesis using quiet_pending [OF inv1 a(4) _ _ _ c(1), of "ie_env ie" ts c1] by (simp only: c(2,3))
  qed
  then show ?thesis using 1 a(3) by auto
qed

text \<open>C39: loading a product name from the configuration file copies the whole value, whatever its length: a value of more
  than 32 bytes runs over the address type and the address that follow the name, and one of more than 56 bytes runs
  over the end of the configuration.\<close>

theorem load_name_unbounded:
  assumes "world_ok w" and "unat (cf_len info) \<le> length (cf_pdata info)"
  shows "ecos_load_common info (reg_of raw args_ProductName) w =
      (if unat (cf_len info) \<le> 56 then Some (w\<lparr>g_ConfigSet := config_put off_szProductName (take (unat (cf_len info)) (cf_pdata info)) (g_ConfigSet w)\<rparr>) else None) \<and>
    (\<forall>w'. unat (cf_len info) \<ge> 36 \<longrightarrow> ecos_load_common info (reg_of raw args_ProductName) w = Some w' \<longrightarrow>
       u32_bytes (config_u32 w' off_ulIPType) = take 4 (drop 32 (cf_pdata info)))"
proof -
  let ?n = "unat (cf_len info)" and ?d = "take (unat (cf_len info)) (cf_pdata info)"
  have l: "length (g_ConfigSet w) = 60" "length ?d = ?n" using assms by (simp_all add: world_ok_def size_ConfigSet_def)
  have st: "store_bytes (g_ConfigSet w) 4 ?d = (if ?n \<le> 56 then Some (config_put 4 ?d (g_ConfigSet w)) else None)"
  proof (cases "?n \<le> 56")
    case True
    then show ?thesis using l by (simp add: store_bytes_eq config_put_def)
  next
    case False
    moreover have "?d \<noteq> []" using False l(2) by fastforce
    ultimately show ?thesis using l by (simp add: store_bytes_too_long)
  qed
  have eq: "ecos_load_common info (reg_of raw args_ProductName) w = (if ?n \<le> 56 then Some (w\<lparr>g_ConfigSet := config_put off_szProductName ?d (g_ConfigSet w)\<rparr>) else None)"
    using st assms(2) by (simp add: ecos_load_common_def reg_of_def args_ProductName_def call_rule_def ecos_addr_rule_default_def ECOS_ADDR_ERROR_def
        off_szProductName_def ECOS_CF_STRING_def ECOS_CF_IP_def load_bytes_def)
  have "u32_bytes (config_u32 (w\<lparr>g_ConfigSet := config_put 4 ?d (g_ConfigSet w)\<rparr>) 36) = take 4 (drop 32 (cf_pdata info))" if n: "36 \<le> ?n" "?n \<le> 56"
  proof -
    have t: "take 4 (drop 36 (config_put 4 ?d (g_ConfigSet w))) = take 4 (drop 32 (cf_pdata info))"
      using n l assms(2) by (simp add: config_put_def drop_take)
    have "4 \<le> length (drop 36 (config_put 4 ?d (g_ConfigSet w)))" using n l by simp
    then obtain v where "bytes_u32 (drop 36 (config_put 4 ?d (g_ConfigSet w))) = Some v" using bytes_u32_ex by blast
    then show ?thesis using bytes_u32_bytes t by (simp add: config_u32_def)
  qed
  then show ?thesis using eq by (auto simp: off_szProductName_def off_ulIPType_def split: if_splits)
qed

subsection \<open>A start without a configuration file\<close>

definition sample_env :: ecos_env where
  "sample_env = \<lparr>ee_dev = \<lparr>de_socket = (\<lambda>_. 5), de_ioctl = (\<lambda>_. 0)\<rparr>, ee_link = (\<lambda>_. True)\<rparr>"

definition sample_init :: init_env where
  "sample_init = \<lparr>ie_env = sample_env, ie_sock = 3, ie_raw = sample_raw, ie_uptime = 100, ie_brk = 1\<rparr>"

definition zero_comm :: mib_comm where
  "zero_comm = \<lparr>s_iSockServer = -1, s_iSockClient = -1, s_Request = replicate MAX_EXCHANGE_SIZE 0, s_Response = replicate MAX_EXCHANGE_SIZE 0\<rparr>"

definition zero_world :: ecos_world where
  "zero_world = \<lparr>g_ConfigSet = replicate size_ConfigSet 0, g_ConfigSetBackup = replicate size_ConfigSet 0, g_exec_first_flag = True,
     g_exec_parent_flag = False, w_dev = \<lparr>s_socket_fd = -1, dev_calls = 0, dev_log = []\<rparr>, g_last_link_status = True, w_links = 0\<rparr>"

definition zero_ecos :: ecos where
  "zero_ecos = \<lparr>e_world = zero_world, e_timers = no_timers, e_registry = blank_registry, e_cf = empty_disk, s_timer_root_config = -1,
     s_link_integrity_timer = -1, g_mib_comm_fd = -1\<rparr>"

lemma zero_start: "start_ok zero_ecos zero_comm" "comm_ok zero_comm"
proof -
  have "MAX_EXCHANGE_SIZE \<noteq> 0" by (simp add: max_size)
  then show "start_ok zero_ecos zero_comm" "comm_ok zero_comm"
    by (simp_all add: start_ok_def zero_ecos_def zero_comm_def no_timers_def blank_registry_def timer_memory_def world_ok_def zero_world_def server_ok_def buffer_ok_def
        comm_ok_def)
qed

lemma zero_init:
  obtains e c where "oem_main_init sample_init (zero_ecos, zero_comm) = Some (e, c)"
    "g_ConfigSet (e_world e) = config_put off_inIPAddress (u32_bytes 0xC0A846B9) (replicate size_ConfigSet 0)"
    "g_ConfigSetBackup (e_world e) = g_ConfigSet (e_world e)" "name_closed (e_world e)"
proof -
  have "name_closed (e_world zero_ecos)"
    by (simp add: name_closed_def zero_ecos_def zero_world_def size_ConfigSet_def off_szProductName_def size_szProductName_def)
  then obtain e c where e: "oem_main_init sample_init (zero_ecos, zero_comm) = Some (e, c)"
    "g_ConfigSet (e_world e) = config_put off_inIPAddress (u32_bytes 0xC0A846B9) (replicate size_ConfigSet 0)"
    "g_ConfigSetBackup (e_world e) = g_ConfigSet (e_world e)"
    using init_no_file [OF zero_start(1), of sample_init] by (auto simp: sample_init_def zero_ecos_def zero_world_def empty_disk_def)
  moreover have "name_closed (e_world e)"
    by (simp add: name_closed_def e(2) config_put_def nth_append off_inIPAddress_def off_szProductName_def size_szProductName_def size_ConfigSet_def)
  ultimately show ?thesis using that by blast
qed

lemma zero_init_config:
  assumes "g_ConfigSet w = config_put off_inIPAddress (u32_bytes 0xC0A846B9) (replicate size_ConfigSet 0)"
  shows "config_u32 w off_inIPAddress = 0xC0A846B9" "config_u32 w off_ulIPType = IP_TYPE_STATIC_IP"
proof -
  have "replicate 24 (0 :: u8) = 0 # 0 # 0 # 0 # replicate 20 0" by (simp add: numeral_eq_Suc)
  then have "config_u32 zero_world off_ulIPType = IP_TYPE_STATIC_IP"
    by (simp add: config_u32_def zero_world_def off_ulIPType_def size_ConfigSet_def bytes_u32_def IP_TYPE_STATIC_IP_def)
  moreover have "world_ok zero_world" by (simp add: world_ok_def zero_world_def)
  ultimately show "config_u32 w off_inIPAddress = 0xC0A846B9" "config_u32 w off_ulIPType = IP_TYPE_STATIC_IP"
    using put_address [of zero_world "0xC0A846B9"] assms by (simp_all add: config_u32_def) (simp_all add: zero_world_def)
qed

definition sample_client :: "(ecos \<times> mib_comm) client_env" where
  "sample_client = \<lparr>ce_sock = 4, ce_net = server_net (parser_mib_root sample_env 200)\<rparr>"

theorem daemon_runs_safely_witness:
  "\<exists>s0. oem_main_init sample_init (zero_ecos, zero_comm) = Some s0 \<and> (\<exists>out s'. oem_main_turn sample_env 101 (Some [1, 2, 3]) s0 = Some (out, s'))"
proof -
  obtain e c where i: "oem_main_init sample_init (zero_ecos, zero_comm) = Some (e, c)" "name_closed (e_world (fst (e, c)))"
    using zero_init by (metis fst_conv)
  have "pred_option datagram (Some [1, 2, 3])" by (simp add: datagram_def)
  then show ?thesis using daemon_runs_safely [OF zero_start(1) i(1,2) run_start, of "Some [1, 2, 3]" 101 0] i(1) by (auto simp: sample_init_def)
qed

theorem address_write_read_witness:
  "\<exists>e c s1 s2 cl1 cl2. oem_main_init sample_init (zero_ecos, zero_comm) = Some (e, c) \<and>
    ConfigWriteString sample_client 0 MIB_NET_IP (ip_text 0x0A000001) ((e, c), zero_comm) = Some (CONF_RESULT_OK, Some (ip_text 0x0A000001), s1, cl1) \<and>
    ConfigReadString sample_client 0 MIB_NET_IP (replicate 32 7) (s1, cl1) =
      Some (CONF_RESULT_OK, Some (ip_text 0x0A000001 @ [0] @ drop (length (ip_text 0x0A000001) + 1) (replicate 32 7)), s2, cl2)"
proof -
  obtain e c where i: "oem_main_init sample_init (zero_ecos, zero_comm) = Some (e, c)"
    "g_ConfigSet (e_world e) = config_put off_inIPAddress (u32_bytes 0xC0A846B9) (replicate size_ConfigSet 0)" by (rule zero_init)
  define buf :: "u8 list" where "buf = replicate 32 7"
  have n: "ce_net sample_client = server_net (parser_mib_root (ie_env sample_init) 200)" "0 \<le> ce_sock sample_client" by (simp_all add: sample_client_def sample_init_def)
  have v: "IsValidIP 0x0A000001" by (simp add: IsValidIP_def)
  have l: "16 < length buf" "length buf < 65536" by (simp_all add: buf_def)
  have "config_u32 (e_world e) off_inIPAddress \<noteq> 0x0A000001" using zero_init_config(1) [OF i(2)] by simp
  then show ?thesis using address_write_read [OF zero_start(1) i(1) run_start n zero_start(2) v l, of 0] i(1) unfolding buf_def [symmetric] by auto
qed

theorem address_applied_once_witness:
  "\<exists>e c e1 c1 cl1 e2. oem_main_init sample_init (zero_ecos, zero_comm) = Some (e, c) \<and>
    ConfigWriteString sample_client 0 MIB_NET_IP (ip_text 0x0A000001) ((e, c), zero_comm) = Some (CONF_RESULT_OK, Some (ip_text 0x0A000001), (e1, c1), cl1) \<and>
    quiet_turns sample_env [200, 201, 203, 204] (e1, c1) = Some (e2, c1) \<and>
    dev_log (w_dev (e_world e2)) = dev_log (w_dev (e_world e)) @
      [\<lparr>ifr_name = strncpy IFNAMSIZ ''ens33'', ifr_s_addr = htonl 0x0A000001, ifr_request = SIOCSIFADDR\<rparr>]"
proof -
  obtain e c where i: "oem_main_init sample_init (zero_ecos, zero_comm) = Some (e, c)"
    "g_ConfigSet (e_world e) = config_put off_inIPAddress (u32_bytes 0xC0A846B9) (replicate size_ConfigSet 0)"
    "g_ConfigSetBackup (e_world e) = g_ConfigSet (e_world e)" "name_closed (e_world (fst (e, c)))" using zero_init by (metis fst_conv)
  have n: "ce_net sample_client = server_net (parser_mib_root (ie_env sample_init) 200)" "0 \<le> ce_sock sample_client" by (simp_all add: sample_client_def sample_init_def)
  have v: "IsValidIP 0x0A000001" by (simp add: IsValidIP_def)
  have ne: "config_u32 (e_world e) off_inIPAddress \<noteq> 0x0A000001" using zero_init_config(1) [OF i(2)] by simp
  obtain e1 c1 cl1 where 1: "ConfigWriteString sample_client 0 MIB_NET_IP (ip_text 0x0A000001) ((e, c), zero_comm) = Some (CONF_RESULT_OK, Some (ip_text 0x0A000001), (e1, c1), cl1)"
      "g_ConfigSet (e_world e1) = config_put off_inIPAddress (u32_bytes 0x0A000001) (g_ConfigSet (e_world e))"
      "g_ConfigSetBackup (e_world e1) = g_ConfigSetBackup (e_world e)"
      "\<forall>ts. \<exists>e2. quiet_turns (ie_env sample_init) ts (e1, c1) = Some (e2, c1) \<and> w_dev (e_world e2) =
       (if (\<exists>t \<in> set ts. 200 + 2 \<le> t) \<and> exec_memcmp (e_world e1) off_IPSets size_IPSets
        then snd (InterfaceIPSet (ee_dev (ie_env sample_init)) ''ens33'' 0x0A000001 (w_dev (e_world e))) else w_dev (e_world e))"
    using address_applied_once [OF zero_start(1) i(1) run_start i(4) n zero_start(2) v ne zero_init_config(2) [OF i(2)], of 0] by blast
  have "exec_memcmp (e_world e1) off_IPSets size_IPSets"
    by (simp add: exec_memcmp_def 1(2,3) i(2,3) config_put_def off_IPSets_def size_IPSets_def off_inIPAddress_def size_ConfigSet_def u32_bytes_def)
  moreover obtain e2 where "quiet_turns (ie_env sample_init) [200, 201, 203, 204] (e1, c1) = Some (e2, c1)" "w_dev (e_world e2) =
       (if (\<exists>t \<in> set [200, 201, 203, 204 :: int]. 200 + 2 \<le> t) \<and> exec_memcmp (e_world e1) off_IPSets size_IPSets
        then snd (InterfaceIPSet (ee_dev (ie_env sample_init)) ''ens33'' 0x0A000001 (w_dev (e_world e))) else w_dev (e_world e))"
    using 1(4) by blast
  moreover have "de_socket (ee_dev sample_env) k = 5" "de_ioctl (ee_dev sample_env) k = 0" for k by (simp_all add: sample_env_def)
  then have "dev_log (snd (InterfaceIPSet (ee_dev sample_env) ''ens33'' 0x0A000001 (w_dev (e_world e)))) = dev_log (w_dev (e_world e)) @
      [\<lparr>ifr_name = strncpy IFNAMSIZ ''ens33'', ifr_s_addr = htonl 0x0A000001, ifr_request = SIOCSIFADDR\<rparr>]"
    by (intro InterfaceIPSet_ok) simp_all
  ultimately show ?thesis using i(1) 1(1) by (auto simp: sample_init_def)
qed

definition long_name :: config_file where
  "long_name = \<lparr>cf_key = ''ProductName'' @ [NUL], cf_mib = 0, cf_type = ECOS_CF_STRING, cf_index = 0, cf_comment = [NUL], cf_pdata = replicate 36 65, cf_len = 36\<rparr>"

theorem load_name_unbounded_witness:
  "\<exists>w'. ecos_load_common long_name (reg_of sample_raw args_ProductName) zero_world = Some w' \<and> u32_bytes (config_u32 w' off_ulIPType) = [65, 65, 65, 65]"
proof -
  have w: "world_ok zero_world" by (simp add: world_ok_def zero_world_def)
  have l: "unat (cf_len long_name) \<le> length (cf_pdata long_name)" "unat (cf_len long_name) = 36" by (simp_all add: long_name_def)
  have "take 4 (drop 32 (cf_pdata long_name)) = [65, 65, 65, 65]" by (simp add: long_name_def numeral_eq_Suc)
  then show ?thesis using load_name_unbounded [OF w l(1), of sample_raw] l(2) by simp
qed

end
