(* ===== verification/Spec2Isabelle.thy ===== *)
theory Spec2Isabelle
  imports Skynet_Server Skynet_MQ Skynet_Timer Skynet_Handle Skynet_Gate Skynet_Netpack Skynet_Seri Crypt_DES Crypt_Codec Crypt_MD5 Crypt_DH Crypt_SHA1 Ecos_Root
begin

text \<open>
  Verification of linux_code, a collection of C programs for Linux.  Two of them are systems of interacting parts and
  are what this development is about: skynet (\<^verbatim>\<open>src/009_skynet_demo/skynet\<close>), a server framework in which services exchange
  messages, and ecos (\<^verbatim>\<open>src/041_ecos_mib\<close>), a configuration daemon with its registry, timers and files.

  \<^bold>\<open>How the programs are put together.\<close>  A skynet service owns a message queue; queues with messages wait in one
  global queue from which worker threads take them (\<^verbatim>\<open>skynet_mq.c\<close>).  Services are found by handle or name
  (\<^verbatim>\<open>skynet_handle.c\<close>), ask for time-outs (\<^verbatim>\<open>skynet_timer.c\<close>), and talk to clients through the gate service
  (\<^verbatim>\<open>service_gate.c\<close>), which finds a connection in an index (\<^verbatim>\<open>hashid.h\<close>), gathers its bytes (\<^verbatim>\<open>databuffer.h\<close>) and cuts
  them into packets; gate servers in Lua cut packets with \<^verbatim>\<open>lua-netpack.c\<close>.
  The values that services send to each other are packed into messages by \<^verbatim>\<open>lua-seri.c\<close>.  Clients are authenticated with the functions of \<^verbatim>\<open>lua-crypt.c\<close> and \<^verbatim>\<open>lsha1.c\<close>.  In ecos, modules
  register configuration nodes (\<^verbatim>\<open>ecos_mib_reg.c\<close> over the hash table of \<^verbatim>\<open>ecos_shash32.c\<close>), timers run functions
  (\<^verbatim>\<open>ecos_timer.c\<close>), the configuration is kept in text files (\<^verbatim>\<open>ecos_config_file.c\<close>) and read and written by other
  processes with datagrams (\<^verbatim>\<open>ecos_mib_comm.c\<close>); the daemon (\<^verbatim>\<open>ecos_oem_root.c\<close>) applies what has changed.

  \<^bold>\<open>Common ground.\<close>  A record models a C struct or the static variables of a file, one definition an operation, and a
  loop is a recursive function of its own.  Integers are words of their width where wrapping matters, otherwise \<open>int\<close> or
  \<open>nat\<close> with a note in the theory.  Memory is a finite map from addresses where the code links objects, otherwise a list
  with checked accesses.  The outcome \<open>None\<close> is undefined behaviour or a failed assertion: an access outside an array, to
  a freed object, or through a null pointer; a theorem that an operation returns \<open>Some\<close> is also a theorem of memory
  safety.  Loops whose end is not evident are \<open>partial_function (option)\<close>, so that the same theorems show that they end; no
  definition uses fuel.  Allocation does not fail.  Code outside the repository's sources (system calls, callbacks)
  is an argument of the definitions.

  \<^item> \<open>Prelude\<close>: machine types, checked arrays, linked paths in memory, ring buffers.
  \<^item> \<open>C_String\<close>: the string functions of the C library.  \<open>Lua_Call\<close>: results of C functions called from Lua.
  \<^item> \<open>Fifo_Queue\<close>: the interface of a first-in first-out queue, a locale with what holds of sequences of operations,
    interpreted by the ring buffers of \<open>Skynet_MQ\<close> and \<open>Skynet_Netpack\<close>.
  \<^item> \<open>Unique_Map\<close>: the interface of the directories that refuse a key twice, a locale with what a client may conclude
    from a sequence of insertions and deletions, interpreted by the names of \<open>Skynet_Handle\<close> and by \<open>Ecos_Shash32\<close>.

  \<^bold>\<open>skynet.\<close>
  \<^item> \<open>Skynet_MQ\<close> (\<^verbatim>\<open>skynet_mq.c\<close>): ring buffers, their growth, the global queue, release.  A queue is a first-in
    first-out queue (locale \<open>fifo\<close>); in every reachable state of the scheduler every queue with messages is in the
    global queue or held by a worker, and every operation is defined.
  \<^item> \<open>Skynet_Context\<close>, \<open>Skynet_Server\<close> (\<^verbatim>\<open>skynet_server.c\<close>, \<^verbatim>\<open>skynet_error.c\<close>, \<^verbatim>\<open>skynet_harbor.c\<close>,
    \<^verbatim>\<open>skynet_monitor.c\<close>): services as reference-counted contexts; sending, launching, dispatch.  The atomic operations of
    the threads are the steps of a relation, with a ghost state for what each thread holds, and an invariant that
    ties reference counts, queues, the directory and message data together.
  \<^item> \<open>Skynet_Timer\<close> (\<^verbatim>\<open>skynet_timer.c\<close>): the timing wheel refines a calendar; a time-out fires at its tick.
  \<^item> \<open>Skynet_Handle\<close> (\<^verbatim>\<open>skynet_handle.c\<close>): registration with growth and rehashing, sorted names, retiring.
  \<^item> \<open>Skynet_Hashid\<close> (\<^verbatim>\<open>hashid.h\<close>): a partial map from socket numbers to slots (locale \<open>slot_table\<close>, used by the gate).
  \<^item> \<open>Skynet_Databuffer\<close> (\<^verbatim>\<open>databuffer.h\<close>): the buffer refines the stream of bytes; memory is recycled without loss.
  \<^item> \<open>Skynet_Gate\<close> (\<^verbatim>\<open>service_gate.c\<close>): commands, socket events, the packet loop.  Every reachable state is safe; a
    stream is cut into the packets that were sent, however it is divided into reads.
  \<^item> \<open>Skynet_Netpack\<close> (\<^verbatim>\<open>lua-netpack.c\<close>): packets of several sockets, with incomplete ones in chained nodes and complete ones
    in a ring that grows; refines the bytes that wait per socket and a list of packets, and every node is freed.
    \<open>Skynet_Socket_Message\<close> (\<^verbatim>\<open>skynet_socket.h\<close>) has the messages that this module and the gate receive.
  \<^item> \<open>Skynet_Seri\<close> (\<^verbatim>\<open>lua-seri.c\<close>): packing values into chained blocks and unpacking them, over the values and the store of tables of
    \<open>Lua_Value\<close>.  What was packed is read again as a copy; packing ends on every store, cyclic ones included, and frees its
    blocks; unpacking ends on all bytes without leaving the message.
  \<^item> \<open>Crypt_DES\<close>, \<open>Crypt_Codec\<close>, \<open>Crypt_MD5\<close>, \<open>Crypt_DH\<close> (\<^verbatim>\<open>lua-crypt.c\<close>) and \<open>Crypt_SHA1\<close> (\<^verbatim>\<open>lsha1.c\<close>): encryption and
    decryption are inverse; the encodings round-trip; the hashes equal the standard's functions (for SHA-1 through the
    locale \<open>streaming_hash\<close>: the result does not depend on how the text is divided); two parties agree on a secret.

  \<^bold>\<open>ecos.\<close>
  \<^item> \<open>Ecos_Shash32\<close> (\<^verbatim>\<open>ecos_shash32.c\<close>): chained rows with explicit node memory.
  \<^item> \<open>Ecos_Mib_Reg\<close> (\<^verbatim>\<open>ecos_mib_reg.c\<close>): the registry refines a map with the order of registration.
  \<^item> \<open>Ecos_Timer\<close> (\<^verbatim>\<open>ecos_timer.c\<close>): the doubly linked list refines a list of timers; the loop runs the due ones.
  \<^item> \<open>Ecos_Config_File\<close> (\<^verbatim>\<open>ecos_config_file.c\<close>): what was saved is what is loaded.
  \<^item> \<open>Ecos_Mib_Comm\<close> (\<^verbatim>\<open>ecos_mib_comm.c\<close>): the two ends of the datagram protocol over byte buffers (\<open>C_Memory\<close>): whatever
    hook answers a request, the client receives its result and data.
  \<^item> \<open>Ecos_Net\<close> (\<^verbatim>\<open>ecos_string.c\<close>, \<^verbatim>\<open>ecos_dev_api.c\<close>): addresses as text and back, setting the address of an interface.
  \<^item> \<open>Ecos_Root\<close> (\<^verbatim>\<open>ecos_main.c\<close>, \<^verbatim>\<open>ecos_oem_*.c\<close>, \<^verbatim>\<open>ecos_mib/*.c\<close>): the daemon over all of these.  Its invariant \<open>state_ok\<close>
    holds after the start and is kept by every turn of the main loop, for any datagrams and any clock, so no turn leaves
    a buffer or touches memory that is not allocated; an address written over the protocol is read back, and reaches the
    interface once, two seconds later.
  \<^bold>\<open>Bounds.\<close>  The sizes of the code are kept: 64 timers, 64 rows, keys and descriptions of 64 characters, lines of 20480
  characters, exchange buffers of 100 KiB, packets below 16M, handles of 24 bits, four wheels of 64 slots behind one of 256.  Theorems that need a size
  to stay below the width of a type say so.

  \<^bold>\<open>Behaviour that differs from what the code intends\<close> is proved as such where it is reachable: packets that lose their
  place in the stream or stop it (gate), a description without terminator (registry), a timer that deletes itself (timer
  loop), quotes in values (files), a copy that is not limited to the buffer (exchange, loading of a
  name), a length that wraps (SHA-1).

  \<^bold>\<open>Not modelled.\<close>  The socket server, the creation of threads, dlopen and log files of skynet (system calls) and its text commands; its other Lua
  bindings; Lua scripts; vendored code (Lua, lpeg, jemalloc, lua-md5, sproto, mongoose); kernel modules and drivers; the
  chat program; and the short demonstrations of system calls and build files.  Functions that only print are left out.
\<close>

end
